(* ===== verification/Prelude.thy ===== *)
theory Prelude
  imports Main "HOL-Library.Word"
begin

text \<open>
  What the components share: the outcome of code that can fail (a failed assertion, a
  dereferenced null pointer, a division by zero, a thrown exception), the sequencing of such
  code, and the collections of facts the component proofs are run with.
\<close>

section \<open>Outcomes\<close>

datatype failure =
    Assert_Failed
  | Null_Deref
  | Div_By_Zero
  | Out_Of_Bounds
  | Signed_Overflow
  | Out_Of_Fuel
  | Diverges
  | Not_Modelled
  | Logic_Error string
  | Runtime_Error string

type_synonym 'a res = "failure + 'a"

definition rbind :: "'a res \<Rightarrow> ('a \<Rightarrow> 'b res) \<Rightarrow> 'b res" where
  "rbind m k = (case m of Inl e \<Rightarrow> Inl e | Inr x \<Rightarrow> k x)"

definition rassert :: "bool \<Rightarrow> 'a res \<Rightarrow> 'a res" where
  "rassert b m = (if b then m else Inl Assert_Failed)"

definition deref :: "'a option \<Rightarrow> 'a res" where
  "deref p = (case p of None \<Rightarrow> Inl Null_Deref | Some x \<Rightarrow> Inr x)"

text \<open>
  Reading and writing an array: the index is checked.  Signed 32-bit arithmetic that leaves the
  range of \<^verbatim>\<open>int\<close> is undefined in C, an outcome of its own here.
\<close>

definition idx :: "'a list \<Rightarrow> int \<Rightarrow> 'a res" where
  "idx xs i = (if 0 \<le> i \<and> nat i < length xs then Inr (xs ! nat i) else Inl Out_Of_Bounds)"

definition upd :: "'a list \<Rightarrow> int \<Rightarrow> 'a \<Rightarrow> 'a list res" where
  "upd xs i x = (if 0 \<le> i \<and> nat i < length xs then Inr (xs[nat i := x]) else Inl Out_Of_Bounds)"

definition int32 :: "int \<Rightarrow> int res" where
  "int32 i = (if - 2147483648 \<le> i \<and> i \<le> 2147483647 then Inr i else Inl Signed_Overflow)"

named_theorems res_simps \<open>evaluation of code that can fail\<close>

lemma rbind_Inl [simp, res_simps]: "rbind (Inl e) k = Inl e"
  by (simp add: rbind_def)

lemma rbind_Inr [simp, res_simps]: "rbind (Inr x) k = k x"
  by (simp add: rbind_def)

lemma rbind_eq_Inr [res_simps]: "rbind m k = Inr y \<longleftrightarrow> (\<exists>x. m = Inr x \<and> k x = Inr y)"
  by (cases m) auto

lemma rassert_True [simp, res_simps]: "b \<Longrightarrow> rassert b m = m"
  by (simp add: rassert_def)

lemma rassert_eq_Inr [simp, res_simps]: "rassert b m = Inr y \<longleftrightarrow> b \<and> m = Inr y"
  by (simp add: rassert_def)

lemma deref_Some [simp, res_simps]: "deref (Some x) = Inr x"
  by (simp add: deref_def)

lemma deref_None [simp, res_simps]: "deref None = Inl Null_Deref"
  by (simp add: deref_def)

lemma deref_eq_Inr [simp, res_simps]: "deref p = Inr x \<longleftrightarrow> p = Some x"
  by (cases p) auto

lemma idx_Inr [simp, res_simps]: "0 \<le> i \<Longrightarrow> nat i < length xs \<Longrightarrow> idx xs i = Inr (xs ! nat i)"
  by (simp add: idx_def)

lemma idx_eq_Inr: "idx xs i = Inr x \<longleftrightarrow> 0 \<le> i \<and> nat i < length xs \<and> x = xs ! nat i"
  by (auto simp: idx_def)

lemma upd_Inr [simp, res_simps]: "0 \<le> i \<Longrightarrow> nat i < length xs \<Longrightarrow> upd xs i x = Inr (xs[nat i := x])"
  by (simp add: upd_def)

lemma int32_Inr [simp, res_simps]: "- 2147483648 \<le> i \<Longrightarrow> i \<le> 2147483647 \<Longrightarrow> int32 i = Inr i"
  by (simp add: int32_def)

lemma int32_eq_Inr: "int32 i = Inr j \<longleftrightarrow> i = j \<and> - 2147483648 \<le> i \<and> i \<le> 2147483647"
  by (auto simp: int32_def)

lemma rbind_assoc: "rbind (rbind m k) l = rbind m (\<lambda>x. rbind (k x) l)"
  by (cases m) auto

end
