(* ===== verification/Tvpi_Base.thy ===== *)
theory Tvpi_Base
  imports Prelude Complex_Main
begin

text \<open>
  Terms and constraints over at most two variables per inequality
  (\<^verbatim>\<open>src/ahorn/extern/ldd/src/tvpi/tvpi.c\<close>, \<^verbatim>\<open>tvpiInt.h\<close>): the record of a constraint, the
  operations on constants, the three constructors of terms, copying and negation, and what a
  term and a constraint mean under a rational valuation of the variables.  A
  \<^verbatim>\<open>tvpi_cst_t\<close> points to a GMP rational: it is a \<^typ>\<open>rat\<close>, with \<^const>\<open>None\<close> for the
  null pointer where the code keeps one.  Allocation does not fail here.
\<close>

section \<open>The rationals of GMP, as the code uses them\<close>

definition mpq_sgn :: "rat \<Rightarrow> int" where
  "mpq_sgn q = (if q < 0 then - 1 else if q = 0 then 0 else 1)"

definition mpq_cmp :: "rat \<Rightarrow> rat \<Rightarrow> int" where
  "mpq_cmp a b = (if a < b then - 1 else if a = b then 0 else 1)"

definition mpq_div :: "rat \<Rightarrow> rat \<Rightarrow> rat res" where
  "mpq_div a b = (if b = 0 then Inl Div_By_Zero else Inr (a / b))"

lemma mpq_cmp_simps [simp]:
  "mpq_cmp a b < 0 \<longleftrightarrow> a < b" "mpq_cmp a b = 0 \<longleftrightarrow> a = b" "0 < mpq_cmp a b \<longleftrightarrow> b < a"
  by (auto simp: mpq_cmp_def)

lemma mpq_sgn_simps [simp]:
  "mpq_sgn q < 0 \<longleftrightarrow> q < 0" "mpq_sgn q = 0 \<longleftrightarrow> q = 0" "0 < mpq_sgn q \<longleftrightarrow> 0 < q"
  by (auto simp: mpq_sgn_def)

lemma mpq_sgn_abs: "rat_of_int (mpq_sgn q) * \<bar>q\<bar> = q"
  by (auto simp: mpq_sgn_def)

lemma mpq_div_nonzero [simp]: "b \<noteq> 0 \<Longrightarrow> mpq_div a b = Inr (a / b)"
  by (simp add: mpq_div_def)

section \<open>Constraints\<close>

datatype op_t = LT | LEQ

record tvpi_cons =
  c_sgn :: int
  c_op :: op_t
  c_var0 :: int
  c_var1 :: int
  c_coeff :: "rat option"
  c_cst :: "rat option"
  c_fst :: "rat option"

type_synonym tvpi_term = tvpi_cons

definition IS_VAR :: "int \<Rightarrow> bool" where
  "IS_VAR x \<longleftrightarrow> 0 \<le> x"

text \<open>
  \<^verbatim>\<open>new_cons\<close> sets five fields of the block \<^verbatim>\<open>malloc\<close> returned and leaves \<^verbatim>\<open>sgn\<close> and \<^verbatim>\<open>var[0]\<close>
  as they were: the block is an argument.
\<close>

definition new_cons :: "tvpi_cons \<Rightarrow> tvpi_cons" where
  "new_cons blk = blk\<lparr>c_fst := None, c_coeff := None, c_cst := None, c_op := LEQ, c_var1 := - 1\<rparr>"

definition new_term :: "tvpi_cons \<Rightarrow> tvpi_term" where
  "new_term blk = new_cons blk"

section \<open>Constants\<close>

definition tvpi_create_si_cst :: "int \<Rightarrow> rat" where
  "tvpi_create_si_cst v = of_int v"

definition tvpi_create_si_rat_cst :: "int \<Rightarrow> int \<Rightarrow> rat res" where
  "tvpi_create_si_rat_cst num den = mpq_div (of_int num) (of_int den)"

definition tvpi_floor_cst :: "rat \<Rightarrow> rat" where
  "tvpi_floor_cst c = of_int (fst (quotient_of c) div snd (quotient_of c))"

definition tvpi_ceil_cst :: "rat \<Rightarrow> rat" where
  "tvpi_ceil_cst c = of_int (- ((- fst (quotient_of c)) div snd (quotient_of c)))"

definition tvpi_negate_cst :: "rat \<Rightarrow> rat" where
  "tvpi_negate_cst c = - c"

definition tvpi_add_cst :: "rat \<Rightarrow> rat \<Rightarrow> rat" where
  "tvpi_add_cst k1 k2 = k1 + k2"

definition tvpi_mul_cst :: "rat \<Rightarrow> rat \<Rightarrow> rat" where
  "tvpi_mul_cst k1 k2 = k1 * k2"

definition tvpi_sgn_cst :: "rat \<Rightarrow> int" where
  "tvpi_sgn_cst k = mpq_sgn k"

definition tvpi_dup_cst :: "rat \<Rightarrow> rat" where
  "tvpi_dup_cst k = k"

section \<open>Terms\<close>

definition tvpi_create_term_sparse_si :: "tvpi_cons \<Rightarrow> int list \<Rightarrow> int list \<Rightarrow> nat \<Rightarrow> tvpi_term res" where
  "tvpi_create_term_sparse_si blk var coeff n =
     rassert (1 \<le> n \<and> n \<le> 2) (
     rbind (idx var 0) (\<lambda>v0.
     rbind (if n = 1 then Inr (- 1) else idx var 1) (\<lambda>v1.
     rassert (n = 1 \<or> v0 < v1) (
     rbind (idx coeff 0) (\<lambda>k0.
     rassert (k0 \<noteq> 0) (
       let t = (new_term blk)\<lparr>c_var0 := v0, c_var1 := (if n = 2 then v1 else - 1),
                              c_sgn := (if k0 < 0 then - 1 else 1)\<rparr>
       in rbind (if 0 < c_sgn t then Inr k0 else int32 (- k0)) (\<lambda>abs.
          let t = t\<lparr>c_fst := (if k0 = 1 then None else Some (tvpi_create_si_cst abs))\<rparr>
          in if IS_VAR (c_var1 t)
             then rbind (idx coeff 1) (\<lambda>k1. Inr (t\<lparr>c_coeff := Some (tvpi_create_si_cst k1)\<rparr>))
             else Inr (t\<lparr>c_coeff := Some 0\<rparr>))))))))"

definition tvpi_create_term_sparse :: "tvpi_cons \<Rightarrow> int list \<Rightarrow> rat option list \<Rightarrow> nat \<Rightarrow> tvpi_term res" where
  "tvpi_create_term_sparse blk var coeff n =
     rassert (1 \<le> n \<and> n \<le> 2) (
     rbind (idx var 0) (\<lambda>v0.
     rbind (if n = 1 then Inr (- 1) else idx var 1) (\<lambda>v1.
     rassert (n = 1 \<or> v0 < v1) (
     rbind (idx coeff 0) (\<lambda>p0.
     rassert (p0 \<noteq> None) (
     rbind (deref p0) (\<lambda>k0.
     rassert (k0 \<noteq> 0) (
       let t = (new_term blk)\<lparr>c_var0 := v0, c_var1 := (if n = 2 then v1 else - 1),
                              c_sgn := mpq_sgn k0\<rparr>;
           t = t\<lparr>c_fst := (if \<bar>k0\<bar> = 1 then None else Some \<bar>k0\<bar>)\<rparr>
       in if IS_VAR (c_var1 t)
          then rbind (idx coeff 1) (\<lambda>k1. Inr (t\<lparr>c_coeff := k1\<rparr>))
          else Inr (t\<lparr>c_coeff := Some 0\<rparr>))))))))) "

text \<open>
  The scan of the dense coefficient array: \<^verbatim>\<open>i\<close> runs up to \<^verbatim>\<open>n\<close>, \<^verbatim>\<open>v\<close> counts the nonzero
  entries met, and the loop is left at the second one.
\<close>

function create_term_scan :: "int list \<Rightarrow> nat \<Rightarrow> nat \<Rightarrow> nat \<Rightarrow> tvpi_term \<Rightarrow> (nat \<times> tvpi_term) res" where
  "create_term_scan coeff n i v t =
     (if n \<le> i then Inr (v, t)
      else rbind (idx coeff (int i)) (\<lambda>k.
        if k = 0 then create_term_scan coeff n (Suc i) v t
        else if v = 0 then
          rbind (if k < 0 then int32 (- k) else Inr k) (\<lambda>abs.
            create_term_scan coeff n (Suc i) (Suc v)
              (t\<lparr>c_var0 := int i, c_sgn := (if k < 0 then - 1 else 1),
                 c_fst := (if abs = 1 then None else Some (tvpi_create_si_cst abs))\<rparr>))
        else Inr (Suc v, t\<lparr>c_var1 := int i, c_coeff := Some (tvpi_create_si_cst k)\<rparr>)))"
  by pat_completeness auto

termination create_term_scan
  by (relation "measure (\<lambda>(coeff, n, i, v, t). n - i)") auto

declare create_term_scan.simps [simp del]

definition tvpi_create_term :: "tvpi_cons \<Rightarrow> int list \<Rightarrow> nat \<Rightarrow> tvpi_term res" where
  "tvpi_create_term blk coeff n =
     rbind (create_term_scan coeff n 0 0 ((new_term blk)\<lparr>c_var0 := - 1, c_var1 := - 1\<rparr>)) (\<lambda>(v, t).
       rassert (1 \<le> v) (Inr (if v = 1 then t\<lparr>c_coeff := Some 0\<rparr> else t)))"

definition tvpi_term_size :: "tvpi_term \<Rightarrow> nat" where
  "tvpi_term_size t = (if IS_VAR (c_var1 t) then 2 else 1)"

definition tvpi_term_get_var :: "tvpi_term \<Rightarrow> int \<Rightarrow> int res" where
  "tvpi_term_get_var t i = rassert (0 \<le> i \<and> i \<le> 1) (Inr (if i = 0 then c_var0 t else c_var1 t))"

text \<open>The static constants \<^verbatim>\<open>one\<close>, \<^verbatim>\<open>none\<close>, \<^verbatim>\<open>zero\<close> are set when a theory is initialised.\<close>

definition tvpi_term_get_coeff :: "tvpi_term \<Rightarrow> int \<Rightarrow> rat option res" where
  "tvpi_term_get_coeff t i =
     rassert (0 \<le> i \<and> i \<le> 1) (Inr (
       if i = 1 then c_coeff t
       else if c_fst t \<noteq> None then c_fst t
       else Some (if 0 < c_sgn t then 1 else - 1)))"

definition tvpi_var_get_coeff :: "tvpi_term \<Rightarrow> int \<Rightarrow> rat option" where
  "tvpi_var_get_coeff t x =
     (if c_var1 t = x then c_coeff t
      else if c_var0 t = x then (if c_fst t \<noteq> None then c_fst t else Some 1)
      else Some 0)"

definition tvpi_term_equals :: "tvpi_term \<Rightarrow> tvpi_term \<Rightarrow> bool res" where
  "tvpi_term_equals t1 t2 =
     (if ((0 < c_sgn t1 \<and> 0 < c_sgn t2) \<or> (c_sgn t1 < 0 \<and> c_sgn t2 < 0))
         \<and> c_var0 t1 = c_var0 t2 \<and> c_var1 t1 = c_var1 t2 then
        rbind (deref (c_coeff t1)) (\<lambda>k1. rbind (deref (c_coeff t2)) (\<lambda>k2.
          if mpq_cmp k1 k2 = 0 then
            (if c_fst t1 = None \<and> c_fst t2 = None then Inr True
             else rbind (deref (c_fst t1)) (\<lambda>f1. rbind (deref (c_fst t2)) (\<lambda>f2.
                    Inr (mpq_cmp f1 f2 = 0))))
          else Inr False))
      else Inr False)"

definition tvpi_term_has_var :: "tvpi_term \<Rightarrow> int \<Rightarrow> bool" where
  "tvpi_term_has_var t x \<longleftrightarrow> c_var0 t = x \<or> (IS_VAR (c_var1 t) \<and> c_var1 t = x)"

definition tvpi_term_has_vars :: "tvpi_term \<Rightarrow> int list \<Rightarrow> bool res" where
  "tvpi_term_has_vars t vars =
     rbind (idx vars (c_var0 t)) (\<lambda>b0.
       if b0 \<noteq> 0 then Inr True
       else if IS_VAR (c_var1 t) then rbind (idx vars (c_var1 t)) (\<lambda>b1. Inr (b1 \<noteq> 0))
       else Inr False)"

definition tvpi_var_occurrences :: "tvpi_cons \<Rightarrow> int list \<Rightarrow> int list res" where
  "tvpi_var_occurrences c occ =
     (let inc = (\<lambda>occ x. rbind (idx occ x) (\<lambda>k. rbind (int32 (k + 1)) (upd occ x)))
      in rbind (inc occ (c_var0 c)) (\<lambda>occ.
           if IS_VAR (c_var1 c) then inc occ (c_var1 c) else Inr occ))"

definition tvpi_dup_term :: "tvpi_cons \<Rightarrow> tvpi_term \<Rightarrow> tvpi_term res" where
  "tvpi_dup_term blk t =
     (let r = (new_term blk)\<lparr>c_sgn := c_sgn t, c_var0 := c_var0 t, c_var1 := c_var1 t\<rparr>
      in rbind (deref (c_coeff t)) (\<lambda>k.
           Inr (if c_fst t \<noteq> None then r\<lparr>c_coeff := Some k, c_fst := c_fst t\<rparr>
                else r\<lparr>c_coeff := Some k\<rparr>)))"

definition tvpi_negate_term :: "tvpi_cons \<Rightarrow> tvpi_term \<Rightarrow> tvpi_term res" where
  "tvpi_negate_term blk t =
     rassert (c_fst t = None) (rbind (tvpi_dup_term blk t) (\<lambda>r.
       Inr (if IS_VAR (c_var1 t) then r\<lparr>c_sgn := - c_sgn t, c_coeff := map_option uminus (c_coeff r)\<rparr>
            else r\<lparr>c_sgn := - c_sgn t\<rparr>)))"


section \<open>What terms and constraints mean\<close>

text \<open>
  The first coefficient is \<^const>\<open>c_fst\<close> with the sign of \<^const>\<open>c_sgn\<close>, and one when there is
  none: so the functions that build and negate terms keep it.  A constraint has no \<^const>\<open>c_fst\<close>, and so its
  first coefficient is \<^const>\<open>c_sgn\<close>, as \<^verbatim>\<open>tvpiInt.h\<close> says.  A proper term has a sign, ordered variables and a nonzero second coefficient exactly
  when it has a second variable.
\<close>

definition fst_val :: "tvpi_term \<Rightarrow> rat" where
  "fst_val t = of_int (c_sgn t) * (case c_fst t of None \<Rightarrow> 1 | Some f \<Rightarrow> f)"

definition snd_val :: "tvpi_term \<Rightarrow> rat" where
  "snd_val t = (if IS_VAR (c_var1 t) then the (c_coeff t) else 0)"

definition tval :: "(int \<Rightarrow> rat) \<Rightarrow> tvpi_term \<Rightarrow> rat" where
  "tval env t = fst_val t * env (c_var0 t) + snd_val t * env (c_var1 t)"

definition op_holds :: "op_t \<Rightarrow> rat \<Rightarrow> rat \<Rightarrow> bool" where
  "op_holds p a b = (case p of LT \<Rightarrow> a < b | LEQ \<Rightarrow> a \<le> b)"

definition holds :: "(int \<Rightarrow> rat) \<Rightarrow> tvpi_cons \<Rightarrow> bool" where
  "holds env c \<longleftrightarrow> op_holds (c_op c) (tval env c) (the (c_cst c))"

definition wf_term :: "tvpi_term \<Rightarrow> bool" where
  "wf_term t \<longleftrightarrow> (c_sgn t = 1 \<or> c_sgn t = - 1) \<and> IS_VAR (c_var0 t)
     \<and> (c_fst t = None \<or> (\<exists>f > 0. c_fst t = Some f))
     \<and> (if IS_VAR (c_var1 t)
        then c_var0 t < c_var1 t \<and> c_coeff t \<noteq> None \<and> the (c_coeff t) \<noteq> 0
        else c_var1 t = - 1 \<and> c_coeff t = Some 0)"

definition wf_cons :: "tvpi_cons \<Rightarrow> bool" where
  "wf_cons c \<longleftrightarrow> wf_term c \<and> c_fst c = None \<and> c_cst c \<noteq> None"

definition normalized :: "tvpi_cons \<Rightarrow> bool" where
  "normalized c \<longleftrightarrow> wf_cons c \<and> c_sgn c = 1"

named_theorems tvpi_defs \<open>meaning and well-formedness of terms and constraints\<close>

lemmas [tvpi_defs] = fst_val_def snd_val_def tval_def wf_term_def wf_cons_def IS_VAR_def

lemma op_holds_simps [simp]: "op_holds LT a b \<longleftrightarrow> a < b" "op_holds LEQ a b \<longleftrightarrow> a \<le> b"
  by (simp_all add: op_holds_def)

lemma holds_iff: "c_cst c = Some k \<Longrightarrow> holds env c \<longleftrightarrow> op_holds (c_op c) (tval env c) k"
  by (simp add: holds_def)

lemma op_holds_scale: "0 < d \<Longrightarrow> op_holds p (d * a) (d * b) \<longleftrightarrow> op_holds p a b"
  by (cases p) simp_all

lemma op_holds_div: "0 < d \<Longrightarrow> op_holds p (a / d) (b / d) \<longleftrightarrow> op_holds p a b"
  by (cases p) (simp_all add: divide_less_cancel divide_le_cancel)

lemma tval_cong:
  "env (c_var0 t) = env' (c_var0 t) \<Longrightarrow> (IS_VAR (c_var1 t) \<Longrightarrow> env (c_var1 t) = env' (c_var1 t))
     \<Longrightarrow> tval env t = tval env' t"
  by (auto simp: tval_def snd_val_def)

lemma new_term_sel [simp]:
  "c_fst (new_term b) = None" "c_coeff (new_term b) = None" "c_cst (new_term b) = None"
  "c_op (new_term b) = LEQ" "c_var1 (new_term b) = - 1"
  by (simp_all add: new_term_def new_cons_def)

definition blk0 :: tvpi_cons where
  "blk0 = \<lparr>c_sgn = 0, c_op = LT, c_var0 = 0, c_var1 = 0, c_coeff = None, c_cst = None, c_fst = None\<rparr>"

definition nonzero_from :: "int list \<Rightarrow> nat \<Rightarrow> nat \<Rightarrow> nat list" where
  "nonzero_from coeff n i = filter (\<lambda>j. coeff ! j \<noteq> 0) [i ..< n]"

section \<open>Constructors denote what was asked for\<close>

text \<open>
  A sparse term built from integer coefficients is proper and denotes the linear combination
  the caller asked for, \<^verbatim>\<open>coeff[0]*var[0] + coeff[1]*var[1]\<close>.
\<close>

theorem create_term_sparse_si_denotes:
  assumes n: "n = 1 \<or> n = 2" and len: "length var = n" "length coeff = n"
    and v: "0 \<le> var ! 0" "n = 2 \<longrightarrow> var ! 0 < var ! 1"
    and k: "coeff ! 0 \<noteq> 0" "n = 2 \<longrightarrow> coeff ! 1 \<noteq> 0" "\<bar>coeff ! 0\<bar> \<le> 2147483647"
  shows "\<exists>t. tvpi_create_term_sparse_si blk var coeff n = Inr t \<and> wf_term t
             \<and> (\<forall>env. tval env t = (\<Sum>i < n. of_int (coeff ! i) * env (var ! i)))"
  using n len v k
  by (cases "coeff ! 0 < 0"; cases "coeff ! 0 = 1")
     (auto simp: tvpi_create_term_sparse_si_def tvpi_defs tvpi_create_si_cst_def Let_def
        numeral_2_eq_2 lessThan_Suc)

text \<open>
  The same for rational coefficients (\<^verbatim>\<open>tvpi_create_term_sparse\<close>).
\<close>

theorem create_term_sparse_denotes:
  assumes n: "n = 1 \<or> n = 2" and len: "length var = n" "length coeff = n"
    and v: "0 \<le> var ! 0" "n = 2 \<longrightarrow> var ! 0 < var ! 1"
    and k: "coeff ! 0 \<noteq> 0" "n = 2 \<longrightarrow> coeff ! 1 \<noteq> 0"
  shows "\<exists>t. tvpi_create_term_sparse blk var (map Some coeff) n = Inr t \<and> wf_term t
             \<and> (\<forall>env. tval env t = (\<Sum>i < n. coeff ! i * env (var ! i)))"
  using n len v k
  by (cases "coeff ! 0 < 0"; cases "\<bar>coeff ! 0\<bar> = 1")
     (auto simp: tvpi_create_term_sparse_def tvpi_defs Let_def mpq_sgn_def
        numeral_2_eq_2 lessThan_Suc)

lemma nonzero_from_step:
  "nonzero_from coeff n i = (if n \<le> i then [] else if coeff ! i = 0 then nonzero_from coeff n (Suc i)
     else i # nonzero_from coeff n (Suc i))"
  by (simp add: nonzero_from_def upt_conv_Cons)

lemma create_term_scan_second:
  assumes "n \<le> length coeff"
  shows "create_term_scan coeff n i (Suc 0) t =
    Inr (case nonzero_from coeff n i of [] \<Rightarrow> (1, t)
         | j # _ \<Rightarrow> (2, t\<lparr>c_var1 := int j, c_coeff := Some (of_int (coeff ! j))\<rparr>))"
  using assms
proof (induction "n - i" arbitrary: i)
  case 0
  then show ?case by (simp add: create_term_scan.simps nonzero_from_step)
next
  case (Suc d)
  then have "d = n - Suc i" "i < n" by auto
  with Suc show ?case
    by (subst create_term_scan.simps, subst nonzero_from_step) (simp add: tvpi_create_si_cst_def)
qed

lemma create_term_scan_first:
  assumes "n \<le> length coeff" "\<forall>k \<in> set coeff. \<bar>k\<bar> \<le> 2147483647"
  shows "create_term_scan coeff n i 0 t =
    (case nonzero_from coeff n i of [] \<Rightarrow> Inr (0, t)
     | j # _ \<Rightarrow> create_term_scan coeff n (Suc j) 1
          (t\<lparr>c_var0 := int j, c_sgn := (if coeff ! j < 0 then - 1 else 1),
             c_fst := (if \<bar>coeff ! j\<bar> = 1 then None else Some (of_int \<bar>coeff ! j\<bar>))\<rparr>))"
  using assms
proof (induction "n - i" arbitrary: i)
  case 0
  then show ?case by (simp add: create_term_scan.simps nonzero_from_step)
next
  case (Suc d)
  then have "d = n - Suc i" "i < n" by auto
  moreover have "- (coeff ! i) \<le> 2147483647"
    using Suc.prems \<open>i < n\<close> by (meson abs_le_D2 less_le_trans nth_mem)
  ultimately show ?case using Suc
    by (subst create_term_scan.simps, subst nonzero_from_step) (auto simp: tvpi_create_si_cst_def int32_def)
qed

lemma nonzero_from_hd:
  assumes "nonzero_from coeff n i = j # js"
  shows "js = nonzero_from coeff n (Suc j) \<and> i \<le> j \<and> j < n \<and> coeff ! j \<noteq> 0"
  using assms
proof (induction "n - i" arbitrary: i)
  case (Suc d)
  then have "d = n - Suc i" "i < n" by auto
  with Suc.hyps(1) [of "Suc i"] Suc.prems show ?case
    by (subst (asm) (2) nonzero_from_step) (auto split: if_splits)
qed (auto simp: nonzero_from_def)

text \<open>
  A term built from a dense coefficient array denotes the linear combination of its first two
  nonzero entries; an array of zeros fails the assertion \<^verbatim>\<open>v >= 1\<close>.
\<close>

theorem create_term_denotes:
  assumes len: "n \<le> length coeff" and rng: "\<forall>k \<in> set coeff. \<bar>k\<bar> \<le> 2147483647"
  shows "case take 2 (filter (\<lambda>j. coeff ! j \<noteq> 0) [0 ..< n]) of
      [] \<Rightarrow> tvpi_create_term blk coeff n = Inl Assert_Failed
    | js \<Rightarrow> \<exists>t. tvpi_create_term blk coeff n = Inr t \<and> wf_term t
        \<and> (\<forall>env. tval env t = (\<Sum>j \<leftarrow> js. of_int (coeff ! j) * env (int j)))"
proof (cases "nonzero_from coeff n 0")
  case Nil
  then show ?thesis
    by (simp add: tvpi_create_term_def create_term_scan_first [OF len rng] rassert_def
        nonzero_from_def [symmetric])
next
  case (Cons i js')
  note i = nonzero_from_hd [OF Cons, THEN conjunct1] nonzero_from_hd [OF Cons]
  show ?thesis
  proof (cases "js'")
    case Nil
    then show ?thesis using Cons i
      by (auto simp: tvpi_create_term_def create_term_scan_first [OF len rng]
          create_term_scan_second [OF len] nonzero_from_def [symmetric] tvpi_defs)
  next
    case (Cons j js)
    note j = nonzero_from_hd [OF Cons [unfolded i(1)], THEN conjunct1] nonzero_from_hd [OF Cons [unfolded i(1)]]
    show ?thesis using \<open>nonzero_from coeff n 0 = i # js'\<close> Cons i j
      by (auto simp: tvpi_create_term_def create_term_scan_first [OF len rng]
          create_term_scan_second [OF len] nonzero_from_def [symmetric] tvpi_defs)
  qed
qed
lemma create_term_sparse_si_denotes_witness:
  "\<exists>t. tvpi_create_term_sparse_si blk0 [1, 3] [- 2, 5] 2 = Inr t \<and> wf_term t
     \<and> (\<forall>env. tval env t = (\<Sum>i < 2. of_int ([- 2, 5] ! i) * env ([1, 3] ! i)))"
  by (rule create_term_sparse_si_denotes) simp_all

lemma create_term_sparse_denotes_witness:
  "\<exists>t. tvpi_create_term_sparse blk0 [1, 3] (map Some [- 1 / 2, 5]) 2 = Inr t \<and> wf_term t
     \<and> (\<forall>env. tval env t = (\<Sum>i < 2. [- 1 / 2, 5] ! i * env ([1, 3] ! i)))"
  by (rule create_term_sparse_denotes) simp_all

lemma create_term_denotes_witness:
  "case take 2 (filter (\<lambda>j. [0, - 3, 0, 1::int] ! j \<noteq> 0) [0 ..< 4]) of
      [] \<Rightarrow> tvpi_create_term blk0 [0, - 3, 0, 1] 4 = Inl Assert_Failed
    | js \<Rightarrow> \<exists>t. tvpi_create_term blk0 [0, - 3, 0, 1] 4 = Inr t \<and> wf_term t
        \<and> (\<forall>env. tval env t = (\<Sum>j \<leftarrow> js. of_int ([0, - 3, 0, 1] ! j) * env (int j)))"
  by (rule create_term_denotes) simp_all

end
