(* ===== verification/Tvpi_Cons.thy ===== *)
theory Tvpi_Cons
  imports Tvpi_Base
begin

text \<open>
  The operations on constraints of \<^verbatim>\<open>tvpi.c\<close>: construction from a term and a constant, rounding,
  copying, negation, the syntactic implication test and the test whether two terms have a
  resolvent, with what each does to the meaning of a constraint.
\<close>

section \<open>The operations\<close>

definition tvpi_create_cons :: "tvpi_term \<Rightarrow> bool \<Rightarrow> rat \<Rightarrow> tvpi_cons res" where
  "tvpi_create_cons t s k =
     (let t = t\<lparr>c_cst := Some k, c_op := (if s then LT else LEQ)\<rparr>
      in case c_fst t of
           None \<Rightarrow> Inr t
         | Some f \<Rightarrow>
             rbind (mpq_div k f) (\<lambda>q.
             rbind (if IS_VAR (c_var1 t)
                    then rbind (deref (c_coeff t)) (\<lambda>n. rbind (mpq_div n f) (\<lambda>n.
                           Inr (t\<lparr>c_cst := Some q, c_coeff := Some n\<rparr>)))
                    else Inr (t\<lparr>c_cst := Some q\<rparr>)) (\<lambda>t.
             Inr (t\<lparr>c_fst := None\<rparr>))))"

definition tvpi_floor_cons :: "tvpi_cons \<Rightarrow> tvpi_cons \<Rightarrow> tvpi_cons res" where
  "tvpi_floor_cons blk c = rbind (tvpi_dup_term blk c) (\<lambda>r. rbind (deref (c_cst c)) (\<lambda>k.
     Inr (r\<lparr>c_op := c_op c, c_cst := Some (tvpi_floor_cst k)\<rparr>)))"

definition tvpi_ceil_cons :: "tvpi_cons \<Rightarrow> tvpi_cons \<Rightarrow> tvpi_cons res" where
  "tvpi_ceil_cons blk c = rbind (tvpi_dup_term blk c) (\<lambda>r. rbind (deref (c_cst c)) (\<lambda>k.
     Inr (r\<lparr>c_op := c_op c, c_cst := Some (tvpi_ceil_cst k)\<rparr>)))"

definition tvpi_is_strict :: "tvpi_cons \<Rightarrow> bool" where
  "tvpi_is_strict c \<longleftrightarrow> c_op c = LT"

definition tvpi_get_term :: "tvpi_cons \<Rightarrow> tvpi_term" where
  "tvpi_get_term c = c"

definition tvpi_get_cst :: "tvpi_cons \<Rightarrow> rat option" where
  "tvpi_get_cst c = c_cst c"

definition tvpi_dup_cons :: "tvpi_cons \<Rightarrow> tvpi_cons \<Rightarrow> tvpi_cons res" where
  "tvpi_dup_cons blk c = rbind (tvpi_dup_term blk c) (\<lambda>r. rbind (deref (c_cst c)) (\<lambda>k.
     Inr (r\<lparr>c_op := c_op c, c_cst := Some k\<rparr>)))"

definition tvpi_negate_cons :: "tvpi_cons \<Rightarrow> tvpi_cons \<Rightarrow> tvpi_cons res" where
  "tvpi_negate_cons blk c = rbind (tvpi_negate_term blk c) (\<lambda>r. rbind (deref (c_cst c)) (\<lambda>k.
     Inr (r\<lparr>c_op := (if c_op c = LT then LEQ else LT), c_cst := Some (tvpi_negate_cst k)\<rparr>)))"

definition tvpi_is_neg_cons :: "tvpi_cons \<Rightarrow> bool" where
  "tvpi_is_neg_cons c \<longleftrightarrow> c_sgn c < 0"

definition tvpi_is_stronger_cons :: "tvpi_cons \<Rightarrow> tvpi_cons \<Rightarrow> bool res" where
  "tvpi_is_stronger_cons c1 c2 =
     rbind (tvpi_term_equals c1 c2) (\<lambda>eq.
       if eq then
         rbind (deref (c_cst c1)) (\<lambda>k1. rbind (deref (c_cst c2)) (\<lambda>k2.
           let i = mpq_cmp k1 k2
           in if i < 0 then Inr True
              else if i = 0 then Inr (c_op c1 = LT \<or> c_op c2 = LEQ)
              else Inr False))
       else Inr False)"

text \<open>The sign of the coefficient of \<^verbatim>\<open>x\<close>, as \<^verbatim>\<open>tvpi_terms_have_resolvent\<close> computes it.\<close>

definition sgn_in_term :: "tvpi_term \<Rightarrow> int \<Rightarrow> int res" where
  "sgn_in_term t x =
     (if c_var0 t = x then Inr (c_sgn t)
      else if IS_VAR (c_var1 t) \<and> c_var1 t = x
      then rbind (deref (c_coeff t)) (\<lambda>k. Inr (mpq_sgn k))
      else Inr 0)"

definition tvpi_terms_have_resolvent :: "tvpi_term \<Rightarrow> tvpi_term \<Rightarrow> int \<Rightarrow> int res" where
  "tvpi_terms_have_resolvent t1 t2 x =
     rassert (0 < c_sgn t1 \<and> 0 < c_sgn t2 \<and> c_fst t1 = None \<and> c_fst t2 = None) (
       if \<not> IS_VAR (c_var1 t1) \<and> \<not> IS_VAR (c_var1 t2) then Inr 0
       else rbind (sgn_in_term t1 x) (\<lambda>s1.
         if s1 = 0 then Inr 0
         else rbind (sgn_in_term t2 x) (\<lambda>s2.
           if s2 = 0 then Inr 0
           else if s1 * s2 < 0 then Inr 1
           else if c_var0 t1 = c_var0 t2 \<and> c_var1 t1 = c_var1 t2 then
             rbind (deref (c_coeff t1)) (\<lambda>k1. rbind (deref (c_coeff t2)) (\<lambda>k2.
               Inr (if mpq_cmp k1 k2 = 0 then 0 else - 1)))
           else Inr (- 1))))"

definition coeff_of :: "tvpi_cons \<Rightarrow> int \<Rightarrow> rat" where
  "coeff_of c x = (if x = c_var0 c then fst_val c else if x = c_var1 c then snd_val c else 0)"

section \<open>What they do to the meaning\<close>

lemma negate_term_Inr:
  assumes "wf_cons c"
  shows "tvpi_negate_term blk c = Inr ((new_term blk)\<lparr>c_sgn := - c_sgn c, c_var0 := c_var0 c,
     c_var1 := c_var1 c, c_coeff := map_option uminus (c_coeff c)\<rparr>)"
  using assms by (auto simp: tvpi_negate_term_def tvpi_dup_term_def tvpi_defs split: if_splits)

lemma dup_term_Inr:
  assumes "wf_cons c"
  shows "tvpi_dup_term blk c = Inr ((new_term blk)\<lparr>c_sgn := c_sgn c, c_var0 := c_var0 c,
     c_var1 := c_var1 c, c_coeff := c_coeff c\<rparr>)"
  using assms by (auto simp: tvpi_dup_term_def tvpi_defs split: if_splits)

text \<open>
  A constraint created from a proper term \<^verbatim>\<open>t\<close> and a constant \<^verbatim>\<open>k\<close> is normalised up to sign and
  means \<^verbatim>\<open>t < k\<close> when strict and \<^verbatim>\<open>t <= k\<close> otherwise, although the code divided by the first coefficient.
\<close>

theorem create_cons_denotes:
  assumes "wf_term t"
  shows "\<exists>c. tvpi_create_cons t s k = Inr c \<and> wf_cons c
             \<and> (\<forall>env. holds env c \<longleftrightarrow> (if s then tval env t < k else tval env t \<le> k))"
proof (cases "c_fst t")
  case None
  then show ?thesis using assms
    by (auto simp: tvpi_create_cons_def holds_def tvpi_defs)
next
  case (Some f)
  let ?c = "t\<lparr>c_cst := Some (k / f), c_op := (if s then LT else LEQ),
     c_coeff := (if IS_VAR (c_var1 t) then Some (the (c_coeff t) / f) else c_coeff t), c_fst := None\<rparr>"
  have f: "0 < f" using assms Some by (auto simp: wf_term_def)
  have "tvpi_create_cons t s k = Inr ?c"
    using assms Some f by (cases "IS_VAR (c_var1 t)") (auto simp: tvpi_create_cons_def wf_term_def Let_def)
  moreover have "wf_cons ?c" using assms f by (auto simp: tvpi_defs)
  moreover have "tval env ?c = tval env t / f" for env
    using Some f by (auto simp: tvpi_defs field_simps)
  ultimately show ?thesis using f
    by (auto simp: holds_def op_holds_div simp flip: of_int_minus)
qed

text \<open>
  Negating a constraint always succeeds, flips its sign, yields exactly the complement, and
  negating again gives back the constraint field by field.
\<close>

theorem negate_cons_complement:
  assumes "wf_cons c"
  shows "\<exists>r. tvpi_negate_cons blk c = Inr r \<and> wf_cons r \<and> c_sgn r = - c_sgn c
             \<and> (\<forall>env. holds env r \<longleftrightarrow> \<not> holds env c)
             \<and> tvpi_negate_cons blk r = Inr c"
proof -
  obtain k where k: "c_cst c = Some k" using assms by (auto simp: wf_cons_def)
  let ?r = "(new_term blk)\<lparr>c_sgn := - c_sgn c, c_var0 := c_var0 c, c_var1 := c_var1 c,
     c_coeff := map_option uminus (c_coeff c), c_op := (if c_op c = LT then LEQ else LT), c_cst := Some (- k)\<rparr>"
  have "tvpi_negate_cons blk c = Inr ?r"
    by (simp add: tvpi_negate_cons_def negate_term_Inr [OF assms] k tvpi_negate_cst_def)
  moreover have wf: "wf_cons ?r" using assms by (auto simp: tvpi_defs split: if_splits)
  moreover have "tval env ?r = - tval env c" for env
    using assms by (auto simp: tvpi_defs split: if_splits)
  hence "holds env ?r \<longleftrightarrow> \<not> holds env c" for env
    by (cases "c_op c") (auto simp: holds_def k)
  moreover have "tvpi_negate_cons blk ?r = Inr c"
    unfolding tvpi_negate_cons_def negate_term_Inr [OF wf]
    using assms k by (cases c; cases "c_op c")
      (auto simp: tvpi_negate_cst_def new_term_def new_cons_def tvpi_defs split: if_splits)
  ultimately show ?thesis by auto
qed

text \<open>
  A copied constraint is the constraint, every field included.
\<close>

theorem dup_cons_same:
  assumes "wf_cons c"
  shows "tvpi_dup_cons blk c = Inr c"
  unfolding tvpi_dup_cons_def dup_term_Inr [OF assms]
  using assms by (cases c) (auto simp: new_term_def new_cons_def tvpi_defs split: if_splits)

text \<open>
  Rounding a constant computes the mathematical floor and ceiling.
\<close>

theorem floor_ceil_cst_round:
  "tvpi_floor_cst k = of_int \<lfloor>k\<rfloor> \<and> tvpi_ceil_cst k = of_int \<lceil>k\<rceil>"
proof -
  obtain n d where q: "quotient_of k = (n, d)" by fastforce
  have k: "k = of_int n / of_int d" by (rule quotient_of_div [OF q])
  show ?thesis
    unfolding tvpi_floor_cst_def tvpi_ceil_cst_def q
    by (simp add: k floor_divide_of_int_eq ceiling_divide_eq_div)
qed

section \<open>Implication between constraints\<close>

lemma term_equals_Inr:
  assumes "wf_cons c1" "wf_cons c2"
  shows "tvpi_term_equals c1 c2 = Inr (c_sgn c1 = c_sgn c2 \<and> c_var0 c1 = c_var0 c2
           \<and> c_var1 c1 = c_var1 c2 \<and> c_coeff c1 = c_coeff c2)"
  using assms by (auto simp: tvpi_term_equals_def tvpi_defs split: if_splits)

lemma wf_cons_cases:
  assumes "wf_cons c"
  obtains (one) s p v k where "c = \<lparr>c_sgn = s, c_op = p, c_var0 = v, c_var1 = - 1, c_coeff = Some 0,
      c_cst = Some k, c_fst = None\<rparr>" "s = 1 \<or> s = - 1" "0 \<le> v"
  | (two) s p v w n k where "c = \<lparr>c_sgn = s, c_op = p, c_var0 = v, c_var1 = w, c_coeff = Some n,
      c_cst = Some k, c_fst = None\<rparr>" "s = 1 \<or> s = - 1" "0 \<le> v" "v < w" "n \<noteq> 0"
  using assms by (cases c) (auto simp: tvpi_defs split: if_splits)

lemma tval_upd:
  assumes "wf_cons c" "0 \<le> x"
  shows "tval (env(x := v)) c = tval env c + coeff_of c x * (v - env x)"
  using assms by (auto simp: tvpi_defs coeff_of_def field_simps split: if_splits)

lemma tval_add:
  assumes "wf_cons c"
  shows "tval (\<lambda>x. e x + s * d x) c = tval e c + s * tval d c"
  by (simp add: tval_def field_simps)

text \<open>
  Two different terms are told apart by a direction in which the first does not grow.
\<close>

lemma distinct_terms_direction:
  assumes "wf_cons c1" "wf_cons c2"
    and "\<not> (c_sgn c1 = c_sgn c2 \<and> c_var0 c1 = c_var0 c2 \<and> c_var1 c1 = c_var1 c2 \<and> c_coeff c1 = c_coeff c2)"
  shows "\<exists>d. tval d c1 \<le> 0 \<and> 0 < tval d c2"
proof -
  let ?x = "c_var0 c1" and ?x' = "c_var0 c2" and ?s = "rat_of_int (c_sgn c1)" and ?s' = "rat_of_int (c_sgn c2)"
  have fst: "c_fst c1 = None" "c_fst c2 = None" and pos: "0 \<le> ?x" "0 \<le> ?x'"
    and sq: "?s * ?s = 1" "?s' * ?s' = 1" and sgn: "?s = 1 \<or> ?s = - 1" "?s' = 1 \<or> ?s' = - 1"
    using assms(1,2) by (auto simp: wf_cons_def wf_term_def IS_VAR_def)
  consider (new) "?x' \<noteq> ?x" "?x' \<noteq> c_var1 c1" | (second) "?x' \<noteq> ?x" "?x' = c_var1 c1"
    | (sgn) "?x' = ?x" "c_sgn c1 \<noteq> c_sgn c2" | (rest) "?x' = ?x" "c_sgn c1 = c_sgn c2" by blast
  then show ?thesis
  proof cases
    case new
    then show ?thesis
      using assms(1,2) fst pos sgn
      by (intro exI [of _ "(\<lambda>_. 0)(?x' := ?s')"]) (auto simp: tvpi_defs)
  next
    case second
    have "?x < ?x'" using second pos assms(1) by (auto simp: wf_cons_def wf_term_def IS_VAR_def split: if_splits)
    hence no: "c_var1 c2 \<noteq> ?x" using assms(2) pos by (auto simp: wf_cons_def wf_term_def IS_VAR_def split: if_splits)
    show ?thesis
      using assms(1,2) fst pos sgn second no
      by (intro exI [of _ "(\<lambda>_. 0)(?x' := ?s', ?x := - (?s * \<bar>the (c_coeff c1)\<bar>))"])
         (auto simp: tvpi_defs split: if_splits)
  next
    case sgn
    then show ?thesis
      using assms(1,2) fst pos
      by (intro exI [of _ "(\<lambda>_. 0)(?x' := ?s')"]) (auto simp: tvpi_defs)
  next
    case rest
    then have diff: "c_var1 c1 \<noteq> c_var1 c2 \<or> the (c_coeff c1) \<noteq> the (c_coeff c2)"
      using assms by (auto simp: tvpi_defs split: if_splits)
    have ne: "c_var1 c1 \<noteq> ?x" "c_var1 c2 \<noteq> ?x"
      using assms(1,2) rest by (auto simp: tvpi_defs split: if_splits)
    define g where "g = (\<lambda>(c::tvpi_cons) y. if IS_VAR (c_var1 c) \<and> y = c_var1 c then the (c_coeff c) else 0)"
    obtain y where y: "y \<noteq> ?x" "g c1 y \<noteq> g c2 y"
    proof (cases "g c1 (c_var1 c1) = g c2 (c_var1 c1)")
      case True
      then have "g c1 (c_var1 c2) \<noteq> g c2 (c_var1 c2)"
        using assms(1,2) diff by (auto simp: g_def tvpi_defs split: if_splits)
      then show ?thesis using that ne by blast
    qed (use that ne in blast)
    let ?d = "(\<lambda>_. 0)(y := g c2 y - g c1 y, ?x := - (?s * (g c1 y * (g c2 y - g c1 y))))"
    have "tval ?d c1 = 0" using y ne fst sgn
      by (auto simp: tval_def fst_val_def snd_val_def g_def)
    moreover have "tval ?d c2 = (g c2 y - g c1 y) * (g c2 y - g c1 y)" using y ne fst sgn rest
      by (auto simp: tval_def fst_val_def snd_val_def g_def field_simps)
    moreover have "0 < (g c2 y - g c1 y) * (g c2 y - g c1 y)" using y by (simp add: zero_less_mult_iff linorder_neq_iff)
    ultimately show ?thesis by (intro exI [of _ ?d]) simp
  qed
qed

lemma constraint_satisfiable_below:
  assumes "wf_cons c"
  shows "\<exists>e. tval e c < k"
  using assms by (intro exI [of _ "(\<lambda>_. 0)(c_var0 c := of_int (c_sgn c) * (k - 1))"])
    (auto simp: tvpi_defs split: if_splits)

lemma op_holds_implies:
  "(\<forall>v. op_holds p v k1 \<longrightarrow> op_holds q v k2) \<longleftrightarrow> k1 < k2 \<or> k1 = k2 \<and> (p = LT \<or> q = LEQ)"
proof
  assume imp: "\<forall>v. op_holds p v k1 \<longrightarrow> op_holds q v k2"
  show "k1 < k2 \<or> k1 = k2 \<and> (p = LT \<or> q = LEQ)"
  proof (rule ccontr)
    assume "\<not> ?thesis"
    then consider "k2 < k1" | "k1 = k2" "p = LEQ" "q = LT" by (metis linorder_neqE op_t.exhaust)
    then show False
    proof cases
      case 1
      then have "(k1 + k2) / 2 < k1" "k2 < (k1 + k2) / 2" by auto
      with imp [rule_format, of "(k1 + k2) / 2"] show False by (cases p; cases q) auto
    next
      case 2
      with imp [rule_format, of k1] show False by simp
    qed
  qed
qed (cases p; cases q; auto)

lemma stronger_iff_implies:
  assumes "wf_cons c1" "wf_cons c2"
  shows "\<exists>b. tvpi_is_stronger_cons c1 c2 = Inr b
             \<and> (b \<longleftrightarrow> (\<forall>env. holds env c1 \<longrightarrow> holds env c2))"
proof -
  obtain k1 k2 where k: "c_cst c1 = Some k1" "c_cst c2 = Some k2" using assms by (auto simp: wf_cons_def)
  let ?same = "c_sgn c1 = c_sgn c2 \<and> c_var0 c1 = c_var0 c2 \<and> c_var1 c1 = c_var1 c2 \<and> c_coeff c1 = c_coeff c2"
  have code: "tvpi_is_stronger_cons c1 c2 =
      Inr (?same \<and> (k1 < k2 \<or> k1 = k2 \<and> (c_op c1 = LT \<or> c_op c2 = LEQ)))"
    by (auto simp: tvpi_is_stronger_cons_def term_equals_Inr [OF assms] k mpq_cmp_def)
  show ?thesis
  proof (cases ?same)
    case True
    then have "tval env c2 = tval env c1" for env using assms by (simp add: tvpi_defs)
    moreover have "\<exists>env. tval env c1 = v" for v
      using assms by (intro exI [of _ "(\<lambda>_. 0)(c_var0 c1 := of_int (c_sgn c1) * v)"])
        (auto simp: tvpi_defs split: if_splits)
    ultimately have "(\<forall>env. holds env c1 \<longrightarrow> holds env c2)
        \<longleftrightarrow> (\<forall>v. op_holds (c_op c1) v k1 \<longrightarrow> op_holds (c_op c2) v k2)"
      by (simp add: holds_def k) metis
    also have "\<dots> \<longleftrightarrow> (k1 < k2 \<or> k1 = k2 \<and> (c_op c1 = LT \<or> c_op c2 = LEQ))"
      by (rule op_holds_implies)
    finally show ?thesis using code True by simp
  next
    case False
    obtain d where d: "tval d c1 \<le> 0" "0 < tval d c2" using distinct_terms_direction [OF assms False] by blast
    obtain e where e: "tval e c1 < k1" using constraint_satisfiable_below [OF assms(1)] by blast
    define s where "s = (\<bar>k2 - tval e c2\<bar> + 1) / tval d c2"
    have s: "0 < s" "s * tval d c2 = \<bar>k2 - tval e c2\<bar> + 1" using d by (auto simp: s_def)
    have "tval (\<lambda>x. e x + s * d x) c1 < k1"
      using e mult_nonneg_nonpos [OF less_imp_le [OF s(1)] d(1)]
      by (simp add: tval_add [OF assms(1)])
    moreover have "k2 < tval (\<lambda>x. e x + s * d x) c2"
      using s by (simp add: tval_add [OF assms(2)])
    ultimately have "holds (\<lambda>x. e x + s * d x) c1" "\<not> holds (\<lambda>x. e x + s * d x) c2"
      by (cases "c_op c1"; cases "c_op c2"; simp add: holds_def k)+
    then show ?thesis using code False by blast
  qed
qed

text \<open>
  C18: The syntactic test \<^verbatim>\<open>tvpi_is_stronger_cons\<close> is sound and complete: it answers yes exactly when
  every valuation that satisfies the first constraint satisfies the second.
\<close>

theorem is_stronger_cons_decides_implication:
  assumes "wf_cons c1" "wf_cons c2"
  shows "\<exists>b. tvpi_is_stronger_cons c1 c2 = Inr b
             \<and> (b \<longleftrightarrow> (\<forall>env. holds env c1 \<longrightarrow> holds env c2))"
  by (rule stronger_iff_implies [OF assms])

section \<open>Instances\<close>

text \<open>\<^verbatim>\<open>x0 - 2*x1 <= 3\<close>, \<^verbatim>\<open>x0 - 2*x1 < 3\<close> and \<^verbatim>\<open>-2*x0 + x1\<close> as the code stores them.\<close>

definition cons_ex1 :: tvpi_cons where
  "cons_ex1 = \<lparr>c_sgn = 1, c_op = LEQ, c_var0 = 0, c_var1 = 1, c_coeff = Some (- 2), c_cst = Some 3, c_fst = None\<rparr>"

definition cons_ex2 :: tvpi_cons where
  "cons_ex2 = cons_ex1\<lparr>c_op := LT\<rparr>"

definition term_ex1 :: tvpi_term where
  "term_ex1 = \<lparr>c_sgn = - 1, c_op = LEQ, c_var0 = 0, c_var1 = 1, c_coeff = Some 1, c_cst = None, c_fst = Some 2\<rparr>"

lemma wf_examples: "wf_cons cons_ex1" "wf_cons cons_ex2" "normalized cons_ex1" "wf_term term_ex1"
  by (simp_all add: cons_ex1_def cons_ex2_def term_ex1_def normalized_def tvpi_defs)

lemma create_cons_denotes_witness:
  "\<exists>c. tvpi_create_cons term_ex1 True 6 = Inr c \<and> wf_cons c
       \<and> (\<forall>env. holds env c \<longleftrightarrow> (if True then tval env term_ex1 < 6 else tval env term_ex1 \<le> 6))"
  by (rule create_cons_denotes) (rule wf_examples)

lemma negate_cons_complement_witness:
  "\<exists>r. tvpi_negate_cons blk0 cons_ex1 = Inr r \<and> wf_cons r \<and> c_sgn r = - c_sgn cons_ex1
       \<and> (\<forall>env. holds env r \<longleftrightarrow> \<not> holds env cons_ex1)
       \<and> tvpi_negate_cons blk0 r = Inr cons_ex1"
  by (rule negate_cons_complement) (rule wf_examples)

lemma dup_cons_same_witness: "tvpi_dup_cons blk0 cons_ex1 = Inr cons_ex1"
  by (rule dup_cons_same) (rule wf_examples)

lemma is_stronger_cons_decides_implication_witness:
  "\<exists>b. tvpi_is_stronger_cons cons_ex2 cons_ex1 = Inr b
       \<and> (b \<longleftrightarrow> (\<forall>env. holds env cons_ex2 \<longrightarrow> holds env cons_ex1))"
  by (rule is_stronger_cons_decides_implication) (rule wf_examples)+

end
