(* ===== verification/Tvpi_Resolve.thy ===== *)
theory Tvpi_Resolve
  imports Tvpi_Cons
begin

text \<open>
  Resolution of two constraints on a variable (\<^verbatim>\<open>tvpi_resolve_cons\<close> in \<^verbatim>\<open>tvpi.c\<close>), in the pieces
  the function falls into: the case of a constraint with one variable, the two multiplications,
  and the normalisation at the end.  The resolvent is exactly the projection of the two
  constraints along the variable.
\<close>

section \<open>The function\<close>

definition c_var :: "tvpi_cons \<Rightarrow> nat \<Rightarrow> int" where
  "c_var c i = (if i = 0 then c_var0 c else c_var1 c)"

text \<open>\<^verbatim>\<open>c1\<close> has only the variable resolved on; \<^verbatim>\<open>idx_o_c2\<close> is the place of the other one in \<^verbatim>\<open>c2\<close>.\<close>

definition resolve_single :: "tvpi_cons \<Rightarrow> tvpi_cons \<Rightarrow> tvpi_cons \<Rightarrow> nat \<Rightarrow> tvpi_cons res" where
  "resolve_single c c1 c2 idx_o_c2 =
     (let c = c\<lparr>c_var0 := c_var c2 idx_o_c2, c_var1 := - 1, c_fst := None\<rparr>
      in rbind (deref (c_coeff c2)) (\<lambda>n. rbind (deref (c_cst c1)) (\<lambda>k. rbind (deref (c_cst c2)) (\<lambda>m.
           if idx_o_c2 = 0 then
             Inr (c\<lparr>c_sgn := c_sgn c2, c_cst := Some (\<bar>n\<bar> * k + m)\<rparr>)
           else
             rbind (mpq_div 1 \<bar>n\<bar>) (\<lambda>inv.
               Inr (c\<lparr>c_sgn := mpq_sgn n, c_cst := Some (inv * (k + m))\<rparr>))))))"

definition resolve_same_coeff :: "tvpi_cons \<Rightarrow> tvpi_cons \<Rightarrow> nat \<Rightarrow> nat \<Rightarrow> bool res" where
  "resolve_same_coeff c1 c2 idx_x_c1 idx_x_c2 =
     (if idx_x_c1 = 0 then
        (if idx_x_c2 = 0 then Inr True
         else rbind (deref (c_coeff c2)) (\<lambda>n2. Inr (n2 = (if c_sgn c1 < 0 then 1 else - 1))))
      else
        (if idx_x_c2 = 0 then
           rbind (deref (c_coeff c1)) (\<lambda>n1. Inr (n1 = (if c_sgn c2 < 0 then 1 else - 1)))
         else
           rbind (deref (c_coeff c1)) (\<lambda>n1. rbind (deref (c_coeff c2)) (\<lambda>n2.
             Inr (mpq_cmp \<bar>n1\<bar> \<bar>n2\<bar> = 0)))))"

text \<open>The coefficient of a variable other than \<^verbatim>\<open>x\<close>, before it is multiplied.\<close>

definition resolve_other_coeff :: "tvpi_cons \<Rightarrow> nat \<Rightarrow> rat res" where
  "resolve_other_coeff c idx_o =
     (if idx_o = 0 then Inr (if c_sgn c < 0 then - 1 else 1) else deref (c_coeff c))"

definition resolve_combine :: "tvpi_cons \<Rightarrow> tvpi_cons \<Rightarrow> tvpi_cons \<Rightarrow> nat \<Rightarrow> nat \<Rightarrow> tvpi_cons res" where
  "resolve_combine c c1 c2 idx_o_c1 idx_o_c2 =
     (let idx_x_c1 = 1 - idx_o_c1; idx_x_c2 = 1 - idx_o_c2
      in rbind (resolve_same_coeff c1 c2 idx_x_c1 idx_x_c2) (\<lambda>same_coeff.
         rbind (resolve_other_coeff c1 idx_o_c1) (\<lambda>f.
         rbind (deref (c_cst c1)) (\<lambda>k.
         rbind (if \<not> same_coeff \<and> idx_x_c2 \<noteq> 0
                then rbind (deref (c_coeff c2)) (\<lambda>v. Inr (f * \<bar>v\<bar>, k * \<bar>v\<bar>))
                else Inr (f, k)) (\<lambda>(f, k).
         rbind (resolve_other_coeff c2 idx_o_c2) (\<lambda>n.
         rbind (deref (c_cst c2)) (\<lambda>m.
         rbind (if \<not> same_coeff \<and> idx_x_c1 \<noteq> 0
                then rbind (deref (c_coeff c1)) (\<lambda>v. Inr (n * \<bar>v\<bar>, k + \<bar>v\<bar> * m))
                else Inr (n, k + m)) (\<lambda>(n, k).
         Inr (c\<lparr>c_var0 := c_var c1 idx_o_c1, c_var1 := c_var c2 idx_o_c2,
                c_fst := Some f, c_coeff := Some n, c_cst := Some k\<rparr>)))))))))"

definition resolve_normalize :: "tvpi_cons \<Rightarrow> tvpi_cons res" where
  "resolve_normalize c =
     rbind (deref (c_fst c)) (\<lambda>f. rbind (deref (c_coeff c)) (\<lambda>n. rbind (deref (c_cst c)) (\<lambda>k.
       let same = (c_var0 c = c_var1 c);
           f = (if same then f + n else f)
       in rassert (\<not> same \<or> mpq_sgn f \<noteq> 0) (
          let c = (if same then c\<lparr>c_var1 := - 1, c_coeff := Some 0\<rparr> else c);
              n = (if same then 0 else n);
              c = c\<lparr>c_sgn := mpq_sgn f\<rparr>;
              f = (if c_sgn c < 0 then \<bar>f\<bar> else f)
          in rbind (if f \<noteq> 1
                    then rbind (if IS_VAR (c_var1 c)
                                then rbind (mpq_div n f) (\<lambda>n. Inr (c\<lparr>c_coeff := Some n\<rparr>))
                                else Inr c) (\<lambda>c.
                         rbind (mpq_div k f) (\<lambda>k. Inr (c\<lparr>c_cst := Some k\<rparr>)))
                    else Inr c) (\<lambda>c.
             Inr (c\<lparr>c_fst := None\<rparr>))))))"

definition tvpi_resolve_cons :: "tvpi_cons \<Rightarrow> tvpi_cons \<Rightarrow> tvpi_cons \<Rightarrow> int \<Rightarrow> tvpi_cons res" where
  "tvpi_resolve_cons blk c1 c2 x =
     rassert (c_var0 c1 = x \<or> (IS_VAR (c_var1 c1) \<and> c_var1 c1 = x)) (
     rassert (c_var0 c2 = x \<or> (IS_VAR (c_var1 c2) \<and> c_var1 c2 = x)) (
       let other = (\<lambda>c. if c_var0 c = x then 1 else 0 :: nat);
           (c1, c2) = (if c_var c2 (other c2) < c_var c1 (other c1) then (c2, c1) else (c1, c2));
           c = (new_cons blk)\<lparr>c_coeff := Some 0, c_cst := Some 0,
                 c_op := (if c_op c1 = LEQ \<and> c_op c2 = LEQ then LEQ else LT)\<rparr>
       in if \<not> IS_VAR (c_var1 c1) then resolve_single c c1 c2 (other c2)
          else rbind (resolve_combine c c1 c2 (other c1) (other c2)) resolve_normalize))"

section \<open>What the resolvent has to be\<close>

text \<open>
  What the resolvent has to be: a positive multiple of the combination of the two constraints in
  which \<^verbatim>\<open>x\<close> cancels.
\<close>

definition resolvent_of :: "tvpi_cons \<Rightarrow> tvpi_cons \<Rightarrow> int \<Rightarrow> tvpi_cons \<Rightarrow> bool" where
  "resolvent_of c1 c2 x r \<longleftrightarrow> wf_cons r \<and> coeff_of r x = 0
     \<and> c_op r = (if c_op c1 = LEQ \<and> c_op c2 = LEQ then LEQ else LT)
     \<and> (\<exists>d > 0. the (c_cst r) * d = \<bar>coeff_of c2 x\<bar> * the (c_cst c1) + \<bar>coeff_of c1 x\<bar> * the (c_cst c2)
          \<and> (\<forall>env. tval env r * d = \<bar>coeff_of c2 x\<bar> * tval env c1 + \<bar>coeff_of c1 x\<bar> * tval env c2))"

definition opposite_in :: "tvpi_cons \<Rightarrow> tvpi_cons \<Rightarrow> int \<Rightarrow> bool" where
  "opposite_in c1 c2 x \<longleftrightarrow> coeff_of c1 x * coeff_of c2 x < 0
     \<and> (\<exists>y \<noteq> x. \<bar>coeff_of c2 x\<bar> * coeff_of c1 y + \<bar>coeff_of c1 x\<bar> * coeff_of c2 y \<noteq> 0)"

section \<open>Projection along a variable\<close>

lemma resolve_single_ok:
  assumes c1: "wf_cons c1" "\<not> IS_VAR (c_var1 c1)" "c_var0 c1 = x"
    and c2: "wf_cons c2" "IS_VAR (c_var1 c2)" "coeff_of c1 x * coeff_of c2 x < 0"
    and o2: "o2 = (if c_var0 c2 = x then 1 else 0)"
    and c: "c_op c = (if c_op c1 = LEQ \<and> c_op c2 = LEQ then LEQ else LT)" "c_coeff c = Some 0"
  shows "\<exists>r. resolve_single c c1 c2 o2 = Inr r \<and> resolvent_of c1 c2 x r"
proof (rule wf_cons_cases [OF c1(1)])
  fix s1 p1 v1 k1 assume s1: "c1 = \<lparr>c_sgn = s1, c_op = p1, c_var0 = v1, c_var1 = - 1, c_coeff = Some 0,
      c_cst = Some k1, c_fst = None\<rparr>" "s1 = 1 \<or> s1 = - 1" "0 \<le> v1"
  show ?thesis
  proof (rule wf_cons_cases [OF c2(1)])
    fix s p v w n k assume s: "c2 = \<lparr>c_sgn = s, c_op = p, c_var0 = v, c_var1 = w, c_coeff = Some n,
      c_cst = Some k, c_fst = None\<rparr>" "s = 1 \<or> s = - 1" "0 \<le> v" "v < w" "n \<noteq> 0"
    show ?thesis
    proof (cases "v = x")
      case True
      let ?r = "c\<lparr>c_var0 := w, c_var1 := - 1, c_fst := None, c_sgn := mpq_sgn n, c_cst := Some (1 / \<bar>n\<bar> * (k1 + k))\<rparr>"
      have "resolve_single c c1 c2 o2 = Inr ?r" using s s1 o2 True by (simp add: resolve_single_def c_var_def)
      moreover have "resolvent_of c1 c2 x ?r" unfolding resolvent_of_def
        using s s1 True c c1(3) c2(3)
        by (auto simp: coeff_of_def tvpi_defs mpq_sgn_def field_simps intro!: exI [of _ "\<bar>n\<bar>"])
      ultimately show ?thesis by blast
    next
      case False
      let ?r = "c\<lparr>c_var0 := v, c_var1 := - 1, c_fst := None, c_sgn := s, c_cst := Some (\<bar>n\<bar> * k1 + k)\<rparr>"
      have "resolve_single c c1 c2 o2 = Inr ?r" using s s1 o2 False by (simp add: resolve_single_def c_var_def)
      moreover have "resolvent_of c1 c2 x ?r" unfolding resolvent_of_def
        using s s1 False c c1(3) c2(3)
        by (auto simp: coeff_of_def tvpi_defs mpq_sgn_def field_simps intro!: exI [of _ "1::rat"] split: if_splits)
      ultimately show ?thesis by blast
    qed
  qed (use c2 in \<open>auto simp: IS_VAR_def\<close>)
qed (use c1 in \<open>auto simp: IS_VAR_def\<close>)


lemma resolve_normalize_ok:
  assumes "c_fst c = Some f" "c_coeff c = Some n" "c_cst c = Some k" "0 \<le> c_var0 c" "c_var0 c \<le> c_var1 c"
    and "if c_var0 c = c_var1 c then f + n \<noteq> 0 else f \<noteq> 0 \<and> n \<noteq> 0"
  shows "\<exists>r d. resolve_normalize c = Inr r \<and> wf_cons r \<and> 0 < d \<and> c_op r = c_op c
     \<and> (\<forall>env. tval env r * d = f * env (c_var0 c) + n * env (c_var1 c)) \<and> the (c_cst r) * d = k
     \<and> c_var0 r = c_var0 c \<and> (c_var1 r = c_var1 c \<or> c_var1 r = - 1)"
proof (cases "c_var0 c = c_var1 c")
  case True
  let ?r = "c\<lparr>c_var1 := - 1, c_coeff := Some 0, c_sgn := mpq_sgn (f + n), c_cst := Some (k / \<bar>f + n\<bar>), c_fst := None\<rparr>"
  have "resolve_normalize c = Inr ?r"
    using assms True by (cases c) (auto simp: resolve_normalize_def Let_def IS_VAR_def mpq_sgn_def abs_if)
  moreover have "wf_cons ?r \<and> (\<forall>env. tval env ?r * \<bar>f + n\<bar> = f * env (c_var0 c) + n * env (c_var1 c))"
    using assms True by (auto simp: tvpi_defs mpq_sgn_def algebra_simps)
  ultimately show ?thesis using assms True
    by (intro exI [of _ ?r] exI [of _ "\<bar>f + n\<bar>"]) auto
next
  case False
  let ?r = "c\<lparr>c_coeff := Some (n / \<bar>f\<bar>), c_sgn := mpq_sgn f, c_cst := Some (k / \<bar>f\<bar>), c_fst := None\<rparr>"
  have "resolve_normalize c = Inr ?r"
    using assms False by (cases c) (auto simp: resolve_normalize_def Let_def IS_VAR_def mpq_sgn_def abs_if)
  moreover have "wf_cons ?r \<and> (\<forall>env. tval env ?r * \<bar>f\<bar> = f * env (c_var0 c) + n * env (c_var1 c))"
    using assms False by (auto simp: tvpi_defs mpq_sgn_def field_simps)
  ultimately show ?thesis using assms False
    by (intro exI [of _ ?r] exI [of _ "\<bar>f\<bar>"]) auto
qed

lemma resolve_same_coeff_Inr:
  assumes "c_coeff c1 = Some n1" "c_coeff c2 = Some n2"
    and "c_sgn c1 = 1 \<or> c_sgn c1 = - 1" "c_sgn c2 = 1 \<or> c_sgn c2 = - 1"
    and "(if i1 = 0 then of_int (c_sgn c1) else n1) * (if i2 = 0 then of_int (c_sgn c2) else n2) < 0"
  shows "resolve_same_coeff c1 c2 i1 i2
    = Inr (\<bar>if i1 = 0 then of_int (c_sgn c1) else n1\<bar> = \<bar>if i2 = 0 then of_int (c_sgn c2) else n2\<bar>)"
proof (cases "i1 = 0")
  case True
  then show ?thesis using assms by (cases "i2 = 0") (auto simp: resolve_same_coeff_def)
next
  case False
  then show ?thesis using assms by (cases "i2 = 0") (auto simp: resolve_same_coeff_def)
qed
lemma resolve_combine_ok:
  assumes wf: "wf_cons c1" "wf_cons c2" and two: "IS_VAR (c_var1 c1)" "IS_VAR (c_var1 c2)"
    and x: "coeff_of c1 x * coeff_of c2 x < 0"
    and o: "o1 = (if c_var0 c1 = x then 1 else 0)" "o2 = (if c_var0 c2 = x then 1 else 0)"
  shows "\<exists>f n k d. resolve_combine c c1 c2 o1 o2 = Inr (c\<lparr>c_var0 := c_var c1 o1, c_var1 := c_var c2 o2,
            c_fst := Some f, c_coeff := Some n, c_cst := Some k\<rparr>)
     \<and> 0 < d \<and> f * d = \<bar>coeff_of c2 x\<bar> * coeff_of c1 (c_var c1 o1)
     \<and> n * d = \<bar>coeff_of c1 x\<bar> * coeff_of c2 (c_var c2 o2)
     \<and> k * d = \<bar>coeff_of c2 x\<bar> * the (c_cst c1) + \<bar>coeff_of c1 x\<bar> * the (c_cst c2)"
proof (rule wf_cons_cases [OF wf(1)])
  fix s1 p1 v1 w1 n1 k1 assume s1: "c1 = \<lparr>c_sgn = s1, c_op = p1, c_var0 = v1, c_var1 = w1, c_coeff = Some n1,
      c_cst = Some k1, c_fst = None\<rparr>" "s1 = 1 \<or> s1 = - 1" "0 \<le> v1" "v1 < w1" "n1 \<noteq> 0"
  show ?thesis
  proof (rule wf_cons_cases [OF wf(2)])
    fix s p v w n k assume s: "c2 = \<lparr>c_sgn = s, c_op = p, c_var0 = v, c_var1 = w, c_coeff = Some n,
      c_cst = Some k, c_fst = None\<rparr>" "s = 1 \<or> s = - 1" "0 \<le> v" "v < w" "n \<noteq> 0"
    let ?same = "\<bar>coeff_of c1 x\<bar> = \<bar>coeff_of c2 x\<bar>"
    have xs: "x = v1 \<or> x = w1" "x = v \<or> x = w" using x s s1 by (auto simp: coeff_of_def split: if_splits)
    have cx: "coeff_of c1 x = (if x = v1 then of_int s1 else n1)" "coeff_of c2 x = (if x = v then of_int s else n)"
      using s s1 xs by (auto simp: coeff_of_def fst_val_def snd_val_def IS_VAR_def)
    have co: "coeff_of c1 (c_var c1 o1) = (if o1 = 0 then of_int s1 else n1)"
        "coeff_of c2 (c_var c2 o2) = (if o2 = 0 then of_int s else n)"
      using s s1 o by (auto simp: coeff_of_def fst_val_def snd_val_def IS_VAR_def c_var_def)
    have other: "resolve_other_coeff c1 o1 = Inr (if o1 = 0 then of_int s1 else n1)"
        "resolve_other_coeff c2 o2 = Inr (if o2 = 0 then of_int s else n)"
      using s(1,2) s1(1,2) by (auto simp: resolve_other_coeff_def)
    have same: "resolve_same_coeff c1 c2 (1 - o1) (1 - o2) = Inr ?same"
    proof -
      have i: "(1 - o1 = 0) = (x = v1)" "(1 - o2 = 0) = (x = v)" using o s(1) s1(1) by auto
      have v: "(if 1 - o1 = 0 then of_int (c_sgn c1) else n1) = coeff_of c1 x"
          "(if 1 - o2 = 0 then of_int (c_sgn c2) else n) = coeff_of c2 x"
        unfolding i cx using s(1) s1(1) by simp_all
      have "c_coeff c1 = Some n1" "c_coeff c2 = Some n" "c_sgn c1 = 1 \<or> c_sgn c1 = - 1" "c_sgn c2 = 1 \<or> c_sgn c2 = - 1"
        using s(2) s1(2) by (simp_all add: s(1) s1(1))
      from resolve_same_coeff_Inr [OF this, of "1 - o1" "1 - o2", unfolded v, OF x]
      show ?thesis .
    qed
    have pos: "0 < \<bar>coeff_of c1 x\<bar>" "0 < \<bar>coeff_of c2 x\<bar>" using x by auto
    have ov: "o1 = (if x = v1 then 1 else 0)" "o2 = (if x = v then 1 else 0)"
      using o by (simp_all add: s(1) s1(1) eq_commute)
    have abs1: "\<bar>rat_of_int s1\<bar> = 1" "\<bar>rat_of_int s\<bar> = 1" using s(2) s1(2) by (elim disjE, simp_all)+
    have one: "o1 = 1 \<Longrightarrow> \<bar>coeff_of c1 x\<bar> = 1" "o2 = 1 \<Longrightarrow> \<bar>coeff_of c2 x\<bar> = 1"
      unfolding ov cx using abs1 by (cases "x = v1"; cases "x = v"; simp)+
    have nx: "1 - o1 \<noteq> 0 \<Longrightarrow> c_coeff c1 = Some n1 \<and> n1 = coeff_of c1 x" "1 - o2 \<noteq> 0 \<Longrightarrow> c_coeff c2 = Some n \<and> n = coeff_of c2 x"
      unfolding ov cx by (cases "x = v1"; cases "x = v"; simp add: s(1) s1(1))+
    have cst: "c_cst c1 = Some k1" "c_cst c2 = Some k" using s(1) s1(1) by auto
    show ?thesis
    proof (cases ?same)
      case True
      then have "resolve_combine c c1 c2 o1 o2 = Inr (c\<lparr>c_var0 := c_var c1 o1, c_var1 := c_var c2 o2,
          c_fst := Some (coeff_of c1 (c_var c1 o1)), c_coeff := Some (coeff_of c2 (c_var c2 o2)), c_cst := Some (k1 + k)\<rparr>)"
        unfolding resolve_combine_def Let_def same rbind_Inr other cst deref_Some co by simp
      with True pos show ?thesis
        by (intro exI [of _ "coeff_of c1 (c_var c1 o1)"] exI [of _ "coeff_of c2 (c_var c2 o2)"]
            exI [of _ "k1 + k"] exI [of _ "\<bar>coeff_of c1 x\<bar>"]) (simp add: cst algebra_simps)
    next
      case False
      have m: "(if \<not> ?same \<and> 1 - o2 \<noteq> 0 then rbind (deref (c_coeff c2)) (\<lambda>v. Inr (f * \<bar>v\<bar>, q * \<bar>v\<bar>)) else Inr (f, q))
            = Inr (f * \<bar>coeff_of c2 x\<bar>, q * \<bar>coeff_of c2 x\<bar>)"
          "(if \<not> ?same \<and> 1 - o1 \<noteq> 0 then rbind (deref (c_coeff c1)) (\<lambda>v. Inr (f * \<bar>v\<bar>, q + \<bar>v\<bar> * k)) else Inr (f, q + k))
            = Inr (f * \<bar>coeff_of c1 x\<bar>, q + \<bar>coeff_of c1 x\<bar> * k)" for f q
        using nx one o False by (auto split: if_splits)
      have "resolve_combine c c1 c2 o1 o2 = Inr (c\<lparr>c_var0 := c_var c1 o1, c_var1 := c_var c2 o2,
          c_fst := Some (coeff_of c1 (c_var c1 o1) * \<bar>coeff_of c2 x\<bar>),
          c_coeff := Some (coeff_of c2 (c_var c2 o2) * \<bar>coeff_of c1 x\<bar>),
          c_cst := Some (k1 * \<bar>coeff_of c2 x\<bar> + \<bar>coeff_of c1 x\<bar> * k)\<rparr>)"
        unfolding resolve_combine_def Let_def same rbind_Inr other cst deref_Some m prod.case co ..
      then show ?thesis
        by (intro exI [of _ "coeff_of c1 (c_var c1 o1) * \<bar>coeff_of c2 x\<bar>"]
            exI [of _ "coeff_of c2 (c_var c2 o2) * \<bar>coeff_of c1 x\<bar>"]
            exI [of _ "k1 * \<bar>coeff_of c2 x\<bar> + \<bar>coeff_of c1 x\<bar> * k"] exI [of _ 1])
          (simp add: cst algebra_simps)
    qed
  qed (use two in \<open>auto simp: IS_VAR_def\<close>)
qed (use two in \<open>auto simp: IS_VAR_def\<close>)


lemma wf_cons_other_coeff:
  assumes "wf_cons c" "IS_VAR (c_var1 c)" "coeff_of c x \<noteq> 0" "i = (if c_var0 c = x then 1 else 0)"
  shows "c_var c i \<noteq> x" "0 \<le> c_var c i" "coeff_of c (c_var c i) \<noteq> 0"
    "tval env c = coeff_of c x * env x + coeff_of c (c_var c i) * env (c_var c i)"
    "y \<noteq> x \<Longrightarrow> y \<noteq> c_var c i \<Longrightarrow> coeff_of c y = 0"
  using assms by (auto simp: coeff_of_def tvpi_defs c_var_def split: if_splits)

lemma wf_cons_single_coeff:
  assumes "wf_cons c" "\<not> IS_VAR (c_var1 c)"
  shows "coeff_of c y = (if y = c_var0 c then fst_val c else 0)"
  using assms by (auto simp: coeff_of_def tvpi_defs)

text \<open>
  The body of the function once the arguments are in order.
\<close>

lemma resolve_ordered_ok:
  assumes wf: "wf_cons c1" "wf_cons c2" and opp: "opposite_in c1 c2 x"
    and o: "o1 = (if c_var0 c1 = x then 1 else 0)" "o2 = (if c_var0 c2 = x then 1 else 0)"
    and ord: "c_var c1 o1 \<le> c_var c2 o2"
    and c: "c_op c = (if c_op c1 = LEQ \<and> c_op c2 = LEQ then LEQ else LT)" "c_coeff c = Some 0"
  shows "\<exists>r. (if \<not> IS_VAR (c_var1 c1) then resolve_single c c1 c2 o2
          else rbind (resolve_combine c c1 c2 o1 o2) resolve_normalize) = Inr r \<and> resolvent_of c1 c2 x r"
proof (cases "IS_VAR (c_var1 c1)")
  case False
  have "c_var0 c1 = x" using opp False wf_cons_single_coeff [OF wf(1) False, of x]
    by (auto simp: opposite_in_def split: if_splits)
  moreover have "IS_VAR (c_var1 c2)"
  proof (rule ccontr)
    assume n: "\<not> IS_VAR (c_var1 c2)"
    then show False using opp wf_cons_single_coeff [OF wf(1) False] wf_cons_single_coeff [OF wf(2) n]
      by (auto simp: opposite_in_def split: if_splits)
  qed
  ultimately show ?thesis
    using resolve_single_ok [OF wf(1) False _ wf(2) _ _ o(2) c] opp False by (simp add: opposite_in_def)
next
  case True
  let ?a1 = "coeff_of c1 x" and ?a2 = "coeff_of c2 x"
  let ?y1 = "c_var c1 o1" and ?y2 = "c_var c2 o2"
  have neg: "?a1 * ?a2 < 0" and nz: "?a1 \<noteq> 0" "?a2 \<noteq> 0" using opp by (auto simp: opposite_in_def)
  note y1 = wf_cons_other_coeff [OF wf(1) True nz(1) o(1)]
  have two: "IS_VAR (c_var1 c2)"
  proof (rule ccontr)
    assume n: "\<not> IS_VAR (c_var1 c2)"
    have "c_var0 c2 = x" using wf_cons_single_coeff [OF wf(2) n, of x] nz(2) by (auto split: if_splits)
    then have "?y2 = - 1" using n o(2) wf(2) by (auto simp: c_var_def wf_cons_def wf_term_def)
    then show False using ord y1(2) by simp
  qed
  note y2 = wf_cons_other_coeff [OF wf(2) two nz(2) o(2)]
  obtain f n k d where comb: "resolve_combine c c1 c2 o1 o2 = Inr (c\<lparr>c_var0 := ?y1, c_var1 := ?y2,
            c_fst := Some f, c_coeff := Some n, c_cst := Some k\<rparr>)" and d: "0 < d"
      and f: "f * d = \<bar>?a2\<bar> * coeff_of c1 ?y1" and n: "n * d = \<bar>?a1\<bar> * coeff_of c2 ?y2"
      and k: "k * d = \<bar>?a2\<bar> * the (c_cst c1) + \<bar>?a1\<bar> * the (c_cst c2)"
    using resolve_combine_ok [OF wf True two neg o] by blast
  let ?c = "c\<lparr>c_var0 := ?y1, c_var1 := ?y2, c_fst := Some f, c_coeff := Some n, c_cst := Some k\<rparr>"
  have "if ?y1 = ?y2 then f + n \<noteq> 0 else f \<noteq> 0 \<and> n \<noteq> 0"
  proof (cases "?y1 = ?y2")
    case True
    obtain y where "y \<noteq> x" "\<bar>?a2\<bar> * coeff_of c1 y + \<bar>?a1\<bar> * coeff_of c2 y \<noteq> 0"
      using opp by (auto simp: opposite_in_def)
    moreover then have "y = ?y1" using y1(5) y2(5) True by (metis add_0 mult_zero_right)
    ultimately have "(f + n) * d \<noteq> 0" using f n True by (simp add: distrib_right)
    then show ?thesis using True by auto
  next
    case False
    have "f * d \<noteq> 0" "n * d \<noteq> 0" using f n y1(3) y2(3) nz by simp_all
    then show ?thesis using False by auto
  qed
  then obtain r e where r: "resolve_normalize ?c = Inr r" "wf_cons r" "0 < e" "c_op r = c_op c"
      "\<And>env. tval env r * e = f * env ?y1 + n * env ?y2" "the (c_cst r) * e = k"
      and rv: "c_var0 r = ?y1" "c_var1 r = ?y2 \<or> c_var1 r = - 1"
    using resolve_normalize_ok [of ?c f n k] ord y1(2) by auto
  have cancel: "\<bar>?a2\<bar> * ?a1 + \<bar>?a1\<bar> * ?a2 = 0" using neg by (auto simp: abs_if mult_less_0_iff)
  have "tval env r * (e * d) = \<bar>?a2\<bar> * tval env c1 + \<bar>?a1\<bar> * tval env c2" for env
  proof -
    have "tval env r * (e * d) = (f * d) * env ?y1 + (n * d) * env ?y2"
      using arg_cong [OF r(5) [of env], of "\<lambda>z. z * d"] by (simp add: algebra_simps)
    also have "\<dots> = (\<bar>?a2\<bar> * ?a1 + \<bar>?a1\<bar> * ?a2) * env x + \<bar>?a2\<bar> * (coeff_of c1 ?y1 * env ?y1)
        + \<bar>?a1\<bar> * (coeff_of c2 ?y2 * env ?y2)" by (simp add: f n cancel)
    also have "\<dots> = \<bar>?a2\<bar> * tval env c1 + \<bar>?a1\<bar> * tval env c2"
      by (simp add: y1(4) [of env] y2(4) [of env] algebra_simps)
    finally show ?thesis .
  qed
  moreover have "the (c_cst r) * (e * d) = \<bar>?a2\<bar> * the (c_cst c1) + \<bar>?a1\<bar> * the (c_cst c2)"
    unfolding mult.assoc [symmetric] r(6) k ..
  moreover have "coeff_of r x = 0" using rv y1(1) y2(1) r(2)
    by (auto simp: coeff_of_def snd_val_def IS_VAR_def)
  ultimately have "resolvent_of c1 c2 x r"
    unfolding resolvent_of_def using r d c by (auto intro!: exI [of _ "e * d"])
  then show ?thesis using True comb r(1) by auto
qed


lemma resolve_cons_ok:
  assumes wf: "wf_cons c1" "wf_cons c2" and opp: "opposite_in c1 c2 x"
  shows "\<exists>r. tvpi_resolve_cons blk c1 c2 x = Inr r \<and> (resolvent_of c1 c2 x r \<or> resolvent_of c2 c1 x r)"
proof -
  have x: "c_var0 c = x \<or> IS_VAR (c_var1 c) \<and> c_var1 c = x" if "coeff_of c x \<noteq> 0" for c
    using that by (auto simp: coeff_of_def snd_val_def split: if_splits)
  have occ: "c_var0 c1 = x \<or> IS_VAR (c_var1 c1) \<and> c_var1 c1 = x" "c_var0 c2 = x \<or> IS_VAR (c_var1 c2) \<and> c_var1 c2 = x"
    using opp by (auto simp: opposite_in_def intro!: x)
  have sym: "opposite_in c2 c1 x" using opp by (auto simp: opposite_in_def ac_simps)
  let ?o = "\<lambda>c. if c_var0 c = x then 1 else 0 :: nat"
  show ?thesis
  proof (cases "c_var c2 (?o c2) < c_var c1 (?o c1)")
    case True
    then show ?thesis
      using occ resolve_ordered_ok [OF wf(2,1) sym refl refl, of "(new_cons blk)\<lparr>c_coeff := Some 0, c_cst := Some 0,
                 c_op := (if c_op c2 = LEQ \<and> c_op c1 = LEQ then LEQ else LT)\<rparr>"]
      by (auto simp: tvpi_resolve_cons_def Let_def)
  next
    case False
    then show ?thesis
      using occ resolve_ordered_ok [OF wf opp refl refl, of "(new_cons blk)\<lparr>c_coeff := Some 0, c_cst := Some 0,
                 c_op := (if c_op c1 = LEQ \<and> c_op c2 = LEQ then LEQ else LT)\<rparr>"]
      by (auto simp: tvpi_resolve_cons_def Let_def)
  qed
qed

lemma between_exists:
  fixes l u :: rat
  shows "(\<exists>v. op_holds p v u \<and> op_holds q l v) \<longleftrightarrow> op_holds (if p = LEQ \<and> q = LEQ then LEQ else LT) l u"
proof
  assume "op_holds (if p = LEQ \<and> q = LEQ then LEQ else LT) l u"
  then show "\<exists>v. op_holds p v u \<and> op_holds q l v"
    by (intro exI [of _ "(l + u) / 2"]) (cases p; cases q; auto)
qed (cases p; cases q; auto)

lemma op_holds_solve_pos: "0 < (a::rat) \<Longrightarrow> op_holds p (a * v + s) k \<longleftrightarrow> op_holds p v ((k - s) / a)"
  by (cases p) (auto simp: field_simps)

lemma op_holds_solve_neg: "(a::rat) < 0 \<Longrightarrow> op_holds p (a * v + s) k \<longleftrightarrow> op_holds p ((s - k) / - a) v"
  by (cases p) (auto simp: field_simps)

lemma eliminate_pair:
  fixes a1 a2 :: rat
  assumes "a1 * a2 < 0"
  shows "(\<exists>v. op_holds p1 (a1 * v + s1) k1 \<and> op_holds p2 (a2 * v + s2) k2)
    \<longleftrightarrow> op_holds (if p1 = LEQ \<and> p2 = LEQ then LEQ else LT) (\<bar>a2\<bar> * s1 + \<bar>a1\<bar> * s2) (\<bar>a2\<bar> * k1 + \<bar>a1\<bar> * k2)"
proof -
  have pos: "op_holds (if p = LEQ \<and> q = LEQ then LEQ else LT) ((t - m) / - b) ((k - s) / a)
      \<longleftrightarrow> op_holds (if p = LEQ \<and> q = LEQ then LEQ else LT) (\<bar>b\<bar> * s + \<bar>a\<bar> * t) (\<bar>b\<bar> * k + \<bar>a\<bar> * m)"
    if "0 < a" "b < 0" for a b s t k m :: rat and p q
    using that by (cases p; cases q) (simp_all add: field_simps)
  consider "0 < a1" "a2 < 0" | "a1 < 0" "0 < a2" using assms by (auto simp: mult_less_0_iff)
  then show ?thesis
  proof cases
    case 1
    show ?thesis unfolding op_holds_solve_pos [OF 1(1)] op_holds_solve_neg [OF 1(2)] between_exists
      by (rule pos [OF 1])
  next
    case 2
    have "(\<exists>v. op_holds p1 ((s1 - k1) / - a1) v \<and> op_holds p2 v ((k2 - s2) / a2))
        \<longleftrightarrow> op_holds (if p2 = LEQ \<and> p1 = LEQ then LEQ else LT) ((s1 - k1) / - a1) ((k2 - s2) / a2)"
      by (subst conj_commute) (rule between_exists)
    then show ?thesis unfolding op_holds_solve_pos [OF 2(2)] op_holds_solve_neg [OF 2(1)]
      using pos [OF 2(2,1), of p2 p1 s1 k1 k2 s2] by (simp add: conj_commute add.commute)
  qed
qed

lemma resolvent_of_projects:
  assumes wf: "wf_cons c1" "wf_cons c2" and neg: "coeff_of c1 x * coeff_of c2 x < 0" and r: "resolvent_of c1 c2 x r"
  shows "holds env r \<longleftrightarrow> (\<exists>v. holds (env(x := v)) c1 \<and> holds (env(x := v)) c2)"
proof -
  let ?a1 = "coeff_of c1 x" and ?a2 = "coeff_of c2 x"
  have x: "0 \<le> x" using neg wf(1) by (auto simp: coeff_of_def tvpi_defs split: if_splits)
  obtain d where d: "0 < d" "the (c_cst r) * d = \<bar>?a2\<bar> * the (c_cst c1) + \<bar>?a1\<bar> * the (c_cst c2)"
    "\<And>env. tval env r * d = \<bar>?a2\<bar> * tval env c1 + \<bar>?a1\<bar> * tval env c2"
    using r by (auto simp: resolvent_of_def)
  define e where "e = env(x := 0)"
  have at: "tval (env(x := v)) c = coeff_of c x * v + tval e c" if "wf_cons c" for c v
    using tval_upd [OF that x, of e v] by (simp add: e_def)
  have "tval env r = tval e r"
    using r tval_upd [of r x env 0] x by (simp add: resolvent_of_def e_def)
  then have "holds env r \<longleftrightarrow> op_holds (c_op r) (tval e r * d) (the (c_cst r) * d)"
    using op_holds_scale [OF d(1), of "c_op r" "tval e r" "the (c_cst r)"]
    by (simp add: holds_def mult.commute [of d])
  then show ?thesis
    unfolding d using r eliminate_pair [OF neg, of "c_op c1" "tval e c1" "the (c_cst c1)" "c_op c2" "tval e c2" "the (c_cst c2)"]
    by (simp add: holds_def at [OF wf(1)] at [OF wf(2)] resolvent_of_def)
qed

text \<open>
  C17: Resolving two constraints in which \<^verbatim>\<open>x\<close> has opposite signs succeeds, and the resolvent is their
  exact projection: it does not mention \<^verbatim>\<open>x\<close>, and a valuation satisfies it if and only if some value
  of \<^verbatim>\<open>x\<close> satisfies both constraints (Fourier-Motzkin, neither weaker nor stronger).
\<close>

theorem resolve_cons_projects:
  assumes "wf_cons c1" "wf_cons c2" and "opposite_in c1 c2 x"
  shows "\<exists>r. tvpi_resolve_cons blk c1 c2 x = Inr r \<and> wf_cons r \<and> coeff_of r x = 0
     \<and> (\<forall>env. holds env r \<longleftrightarrow> (\<exists>v. holds (env(x := v)) c1 \<and> holds (env(x := v)) c2))"
proof -
  have neg: "coeff_of c1 x * coeff_of c2 x < 0" "coeff_of c2 x * coeff_of c1 x < 0"
    using assms(3) by (auto simp: opposite_in_def mult.commute)
  obtain r where "tvpi_resolve_cons blk c1 c2 x = Inr r" and r: "resolvent_of c1 c2 x r \<or> resolvent_of c2 c1 x r"
    using resolve_cons_ok [OF assms] by blast
  moreover have "holds env r \<longleftrightarrow> (\<exists>v. holds (env(x := v)) c1 \<and> holds (env(x := v)) c2)" for env
    using r resolvent_of_projects [OF assms(1,2) neg(1)] resolvent_of_projects [OF assms(2,1) neg(2)]
    by (auto simp: conj_commute)
  ultimately show ?thesis by (auto simp: resolvent_of_def)
qed

lemma sgn_in_term_Inr:
  assumes "normalized t" "0 \<le> x"
  shows "sgn_in_term t x = Inr (mpq_sgn (coeff_of t x))"
  using assms by (auto simp: sgn_in_term_def coeff_of_def normalized_def tvpi_defs mpq_sgn_def split: if_splits)


lemma normalized_neg_coeff:
  assumes "normalized t" "normalized u" "coeff_of t x < 0" "coeff_of u x \<noteq> 0"
  shows "c_var0 t \<noteq> x" "coeff_of t (c_var0 t) = 1" "0 \<le> coeff_of u (c_var0 t)"
  using assms by (auto simp: normalized_def coeff_of_def tvpi_defs split: if_splits)

lemma normalized_proportional:
  assumes "normalized t" "normalized u" and l: "0 < l" "0 < m" and eq: "\<And>y. l * coeff_of t y = m * coeff_of u y"
  shows "c_var0 t = c_var0 u \<and> c_var1 t = c_var1 u \<and> c_coeff t = c_coeff u"
proof -
  have le: "c_var0 s \<le> y" if "normalized s" "coeff_of s y \<noteq> 0" for s y
    using that by (auto simp: normalized_def coeff_of_def tvpi_defs split: if_splits)
  have lead: "coeff_of s (c_var0 s) = 1" if "normalized s" for s
    using that by (auto simp: normalized_def coeff_of_def tvpi_defs)
  have nz: "coeff_of t y \<noteq> 0 \<longleftrightarrow> coeff_of u y \<noteq> 0" for y
    using eq [of y] l by auto
  have v: "c_var0 t = c_var0 u"
    using le [OF assms(1), of "c_var0 u"] le [OF assms(2), of "c_var0 t"] nz lead [OF assms(1)] lead [OF assms(2)] by force
  then have "l = m" using eq [of "c_var0 t"] lead [OF assms(1)] lead [OF assms(2)] by simp
  then have same: "coeff_of t y = coeff_of u y" for y using eq [of y] l by simp
  show ?thesis
    using assms(1,2) v same [of "c_var1 t"] same [of "c_var1 u"]
    by (auto simp: normalized_def coeff_of_def tvpi_defs split: if_splits)
qed

text \<open>
  \<^verbatim>\<open>tvpi_terms_have_resolvent\<close> answers 1 exactly when the two terms can be resolved on \<^verbatim>\<open>x\<close> as
  they are, and -1 exactly when the first can be resolved with the negation of the second; these are
  the cases in which \<^verbatim>\<open>tvpi_resolve_cons\<close> returns a constraint.
\<close>

theorem terms_have_resolvent_spec:
  assumes t: "normalized t1" "normalized t2" and x: "0 \<le> x" and n: "tvpi_negate_cons blk t2 = Inr nt2"
  shows "\<exists>r. tvpi_terms_have_resolvent t1 t2 x = Inr r \<and> r \<in> {- 1, 0, 1}
     \<and> (r = 1 \<longleftrightarrow> opposite_in t1 t2 x) \<and> (r = - 1 \<longleftrightarrow> opposite_in t1 nt2 x)"
proof -
  have wf: "wf_cons t1" "wf_cons t2" using t by (auto simp: normalized_def)
  let ?a1 = "coeff_of t1 x" and ?a2 = "coeff_of t2 x"
  let ?same = "c_var0 t1 = c_var0 t2 \<and> c_var1 t1 = c_var1 t2 \<and> c_coeff t1 = c_coeff t2"
  have neg: "coeff_of nt2 y = - coeff_of t2 y" for y
    using n wf(2) by (auto simp: tvpi_negate_cons_def negate_term_Inr [OF wf(2)] coeff_of_def tvpi_defs split: if_splits)
  have code: "tvpi_terms_have_resolvent t1 t2 x = Inr (
      if \<not> IS_VAR (c_var1 t1) \<and> \<not> IS_VAR (c_var1 t2) then 0
      else if ?a1 * ?a2 = 0 then 0 else if ?a1 * ?a2 < 0 then 1 else if ?same then 0 else - 1)"
    using t by (auto simp: tvpi_terms_have_resolvent_def sgn_in_term_Inr [OF _ x] mpq_cmp_def mpq_sgn_def
        normalized_def wf_cons_def wf_term_def mult_less_0_iff split: if_splits)
  have single: "?a1 * ?a2 \<ge> 0 \<and> (\<forall>y. y \<noteq> x \<longrightarrow> 0 < ?a1 * ?a2 \<longrightarrow> coeff_of t1 y = 0 \<and> coeff_of t2 y = 0)"
    if "\<not> IS_VAR (c_var1 t1)" "\<not> IS_VAR (c_var1 t2)"
    using t wf_cons_single_coeff [OF wf(1) that(1)] wf_cons_single_coeff [OF wf(2) that(2)]
    by (auto simp: normalized_def tvpi_defs)
  have pos: "opposite_in t1 t2 x \<longleftrightarrow> (IS_VAR (c_var1 t1) \<or> IS_VAR (c_var1 t2)) \<and> ?a1 * ?a2 < 0"
  proof
    assume r: "(IS_VAR (c_var1 t1) \<or> IS_VAR (c_var1 t2)) \<and> ?a1 * ?a2 < 0"
    then consider "?a1 < 0" "0 < ?a2" | "?a2 < 0" "0 < ?a1" by (auto simp: mult_less_0_iff)
    then show "opposite_in t1 t2 x"
    proof cases
      case 1
      note y = normalized_neg_coeff [OF t 1(1)]
      have "0 < \<bar>?a2\<bar> * coeff_of t1 (c_var0 t1) + \<bar>?a1\<bar> * coeff_of t2 (c_var0 t1)"
        using y 1 by (intro add_pos_nonneg mult_pos_pos mult_nonneg_nonneg) auto
      then show ?thesis using y 1 r by (auto simp: opposite_in_def)
    next
      case 2
      note y = normalized_neg_coeff [OF t(2,1) 2(1)]
      have "0 < \<bar>?a2\<bar> * coeff_of t1 (c_var0 t2) + \<bar>?a1\<bar> * coeff_of t2 (c_var0 t2)"
        using y 2 by (intro add_nonneg_pos mult_pos_pos mult_nonneg_nonneg) auto
      then show ?thesis using y 2 r by (auto simp: opposite_in_def)
    qed
  qed (use single in \<open>auto simp: opposite_in_def\<close>)
  have ng: "opposite_in t1 nt2 x \<longleftrightarrow> (IS_VAR (c_var1 t1) \<or> IS_VAR (c_var1 t2)) \<and> 0 < ?a1 * ?a2 \<and> \<not> ?same"
  proof
    assume r: "(IS_VAR (c_var1 t1) \<or> IS_VAR (c_var1 t2)) \<and> 0 < ?a1 * ?a2 \<and> \<not> ?same"
    have x0: "\<bar>?a2\<bar> * ?a1 = \<bar>?a1\<bar> * ?a2" using r by (auto simp: zero_less_mult_iff)
    have "\<exists>y \<noteq> x. \<bar>?a2\<bar> * coeff_of t1 y \<noteq> \<bar>?a1\<bar> * coeff_of t2 y"
    proof (rule ccontr)
      assume "\<not> ?thesis"
      then have "\<bar>?a2\<bar> * coeff_of t1 y = \<bar>?a1\<bar> * coeff_of t2 y" for y using x0 by (cases "y = x") auto
      moreover have "?a1 \<noteq> 0" "?a2 \<noteq> 0" using r by (auto simp: zero_less_mult_iff)
      ultimately show False using normalized_proportional [OF t, of "\<bar>?a2\<bar>" "\<bar>?a1\<bar>"] r by auto
    qed
    then show "opposite_in t1 nt2 x" using r by (auto simp: opposite_in_def neg)
  next
    assume o: "opposite_in t1 nt2 x"
    have "\<not> ?same"
    proof
      assume s: ?same
      have "coeff_of t1 y = coeff_of t2 y" for y
        using s t by (auto simp: coeff_of_def normalized_def fst_val_def snd_val_def wf_cons_def)
      then show False using o by (simp add: opposite_in_def neg)
    qed
    then show "(IS_VAR (c_var1 t1) \<or> IS_VAR (c_var1 t2)) \<and> 0 < ?a1 * ?a2 \<and> \<not> ?same"
      using o single by (cases "IS_VAR (c_var1 t1) \<or> IS_VAR (c_var1 t2)") (fastforce simp: opposite_in_def neg)+
  qed
  show ?thesis unfolding code pos ng using linorder_less_linear [of "?a1 * ?a2" 0] by auto
qed

section \<open>Instances\<close>

text \<open>\<^verbatim>\<open>x0 - 2*x1 <= 3\<close> with \<^verbatim>\<open>x1 + x2 < 5\<close>, on \<^verbatim>\<open>x1\<close>.\<close>

definition cons_ex3 :: tvpi_cons where
  "cons_ex3 = \<lparr>c_sgn = 1, c_op = LT, c_var0 = 1, c_var1 = 2, c_coeff = Some 1, c_cst = Some 5, c_fst = None\<rparr>"

lemma ex3_ok: "wf_cons cons_ex3" "normalized cons_ex3" "opposite_in cons_ex1 cons_ex3 1"
    "tvpi_negate_cons blk0 cons_ex3 = Inr (cons_ex3\<lparr>c_sgn := - 1, c_op := LEQ, c_coeff := Some (- 1), c_cst := Some (- 5)\<rparr>)"
  by (auto simp: cons_ex3_def cons_ex1_def normalized_def opposite_in_def coeff_of_def tvpi_defs
      tvpi_negate_cons_def tvpi_negate_term_def tvpi_dup_term_def tvpi_negate_cst_def new_term_def new_cons_def
      blk0_def intro!: exI [of _ 0])

lemma resolve_cons_projects_witness:
  "\<exists>r. tvpi_resolve_cons blk0 cons_ex1 cons_ex3 1 = Inr r \<and> wf_cons r \<and> coeff_of r 1 = 0
     \<and> (\<forall>env. holds env r \<longleftrightarrow> (\<exists>v. holds (env(1 := v)) cons_ex1 \<and> holds (env(1 := v)) cons_ex3))"
  by (rule resolve_cons_projects) (rule wf_examples ex3_ok)+

lemma terms_have_resolvent_spec_witness:
  "\<exists>r. tvpi_terms_have_resolvent cons_ex1 cons_ex3 1 = Inr r \<and> r \<in> {- 1, 0, 1}
     \<and> (r = 1 \<longleftrightarrow> opposite_in cons_ex1 cons_ex3 1)
     \<and> (r = - 1 \<longleftrightarrow> opposite_in cons_ex1
          (cons_ex3\<lparr>c_sgn := - 1, c_op := LEQ, c_coeff := Some (- 1), c_cst := Some (- 5)\<rparr>) 1)"
  by (rule terms_have_resolvent_spec [OF wf_examples(3) ex3_ok(2) _ ex3_ok(4)]) simp

end
