(* ===== verification/Tvpi_Subst.thy ===== *)
theory Tvpi_Subst
  imports Tvpi_Cons
begin

text \<open>
  Substitution into a constraint, the virtual substitutions of quantifier elimination
  (minus infinity, a term plus an infinitesimal) and the bound a constraint puts on a variable
  (\<^verbatim>\<open>tvpi_subst_ninf\<close>, \<^verbatim>\<open>tvpi_subst_internal\<close>, \<^verbatim>\<open>tvpi_subst\<close>, \<^verbatim>\<open>tvpi_subst_pluse\<close>,
  \<^verbatim>\<open>tvpi_var_bound\<close> of \<^verbatim>\<open>tvpi.c\<close>).  The code hands its answer to the diagram manager: a constant
  diagram, or the diagram of a constraint through \<^verbatim>\<open>tvpi_to_ldd\<close>.  Here the answer is the value
  that is handed over.
\<close>

section \<open>The functions\<close>

datatype subst_result = Subst_True | Subst_False | Subst_Cons tvpi_cons

definition tvpi_subst_ninf :: "tvpi_cons \<Rightarrow> int \<Rightarrow> subst_result res" where
  "tvpi_subst_ninf l x =
     (if c_var0 l \<noteq> x \<and> c_var1 l \<noteq> x then Inr (Subst_Cons l)
      else if c_var0 l = x \<and> 0 < c_sgn l then Inr Subst_True
      else if c_var1 l = x then
        rbind (deref (c_coeff l)) (\<lambda>n. Inr (if 0 < mpq_sgn n then Subst_True else Subst_False))
      else Inr Subst_False)"

text \<open>The constant of the new constraint.\<close>

definition subst_constant :: "tvpi_cons \<Rightarrow> int \<Rightarrow> rat option \<Rightarrow> rat res" where
  "subst_constant l x c =
     rbind (deref (c_cst l)) (\<lambda>k.
       case c of
         None \<Rightarrow> Inr k
       | Some c \<Rightarrow>
           if c_var0 l = x then Inr (k - c)
           else rbind (deref (c_coeff l)) (\<lambda>n. Inr (k - n * c)))"

text \<open>The term of the new constraint when \<^verbatim>\<open>x\<close> is replaced by a constant.\<close>

definition subst_by_constant :: "tvpi_cons \<Rightarrow> tvpi_cons \<Rightarrow> int \<Rightarrow> tvpi_cons res" where
  "subst_by_constant res l x =
     (if c_var0 l = x \<and> IS_VAR (c_var1 l) then
        rbind (deref (c_coeff l)) (\<lambda>n. Inr (res\<lparr>c_var0 := c_var1 l, c_fst := Some n\<rparr>))
      else if c_var1 l = x then Inr (res\<lparr>c_var0 := c_var0 l\<rparr>)
      else Inr (res\<lparr>c_fst := Some (tvpi_create_si_cst 0)\<rparr>))"

text \<open>The coefficient of the variable of \<^verbatim>\<open>t\<close>, in the first position of the new constraint.\<close>

definition subst_new_variable :: "tvpi_cons \<Rightarrow> tvpi_cons \<Rightarrow> int \<Rightarrow> tvpi_term \<Rightarrow> tvpi_cons res" where
  "subst_new_variable res l x t =
     (let res = res\<lparr>c_var0 := c_var0 t\<rparr>
      in if c_var1 l = x then
           rbind (deref (c_coeff l)) (\<lambda>n.
             case c_fst t of
               None \<Rightarrow> Inr (res\<lparr>c_fst := Some n\<rparr>)
             | Some f \<Rightarrow> Inr (res\<lparr>c_fst := Some (f * n)\<rparr>))
         else if c_var0 l = x \<and> c_fst t \<noteq> None then Inr (res\<lparr>c_fst := c_fst t\<rparr>)
         else Inr res)"

text \<open>The other variable of \<^verbatim>\<open>l\<close>: its coefficient is added or goes to the second position.\<close>

definition subst_other_variable :: "tvpi_cons \<Rightarrow> tvpi_cons \<Rightarrow> int \<Rightarrow> tvpi_cons res" where
  "subst_other_variable res l x =
     (if c_var0 l \<noteq> x then
        (if c_var0 l = c_var0 res then
           (case c_fst res of
              None \<Rightarrow> Inr (res\<lparr>c_fst := Some (tvpi_create_si_cst 2)\<rparr>)
            | Some f \<Rightarrow> Inr (res\<lparr>c_fst := Some (f + 1)\<rparr>))
         else Inr (res\<lparr>c_var1 := c_var0 l, c_coeff := Some (tvpi_create_si_cst 1)\<rparr>))
      else if IS_VAR (c_var1 l) then
        rbind (deref (c_coeff l)) (\<lambda>n.
          if c_var1 l = c_var0 res then
            (case c_fst res of
               None \<Rightarrow> Inr (res\<lparr>c_fst := Some (n + 1)\<rparr>)
             | Some f \<Rightarrow> Inr (res\<lparr>c_fst := Some (f + n)\<rparr>))
          else Inr (res\<lparr>c_var1 := c_var1 l, c_coeff := Some n\<rparr>))
      else Inr res)"

text \<open>The ordering of the variables and the division by the first coefficient.\<close>

definition subst_order :: "tvpi_cons \<Rightarrow> tvpi_cons" where
  "subst_order res =
     (if IS_VAR (c_var0 res) \<and> IS_VAR (c_var1 res) \<and> c_var1 res < c_var0 res then
        (let res = (if c_fst res \<noteq> None then res\<lparr>c_coeff := c_fst res, c_fst := c_coeff res\<rparr>
                    else res\<lparr>c_fst := c_coeff res, c_coeff := Some (tvpi_create_si_cst 1)\<rparr>)
         in res\<lparr>c_var0 := c_var1 res, c_var1 := c_var0 res\<rparr>)
      else res)"

definition subst_divide :: "tvpi_cons \<Rightarrow> tvpi_cons res" where
  "subst_divide res =
     rbind (case c_fst res of
              Some f \<Rightarrow>
                (let res = res\<lparr>c_sgn := mpq_sgn f\<rparr>
                 in rassert (c_sgn res \<noteq> 0) (
                    let f = (if c_sgn res < 0 then \<bar>f\<bar> else f)
                    in rbind (if f \<noteq> 1
                         then rbind (deref (c_cst res)) (\<lambda>k. rbind (mpq_div k f) (\<lambda>k.
                                if IS_VAR (c_var1 res)
                                then rbind (deref (c_coeff res)) (\<lambda>n. rbind (mpq_div n f) (\<lambda>n.
                                       Inr (res\<lparr>c_cst := Some k, c_coeff := Some n\<rparr>)))
                                else Inr (res\<lparr>c_cst := Some k\<rparr>)))
                         else Inr res) (\<lambda>res. Inr (res\<lparr>c_fst := None\<rparr>))))
            | None \<Rightarrow> Inr (res\<lparr>c_sgn := 1\<rparr>)) (\<lambda>res.
       Inr (if IS_VAR (c_var1 res) then res else res\<lparr>c_coeff := Some 0\<rparr>))"

definition tvpi_subst_internal ::
    "tvpi_cons \<Rightarrow> tvpi_cons \<Rightarrow> int \<Rightarrow> tvpi_term option \<Rightarrow> rat option \<Rightarrow> op_t \<Rightarrow> subst_result res" where
  "tvpi_subst_internal blk l x t c p =
     rassert (0 < c_sgn l) (
     rassert (t = None \<or> \<not> IS_VAR (c_var1 (the t))) (
     rassert (t \<noteq> None \<or> c \<noteq> None) (
       if c_var0 l \<noteq> x \<and> c_var1 l \<noteq> x then Inr (Subst_Cons l)
       else
         rbind (subst_constant l x c) (\<lambda>k.
         let res = (new_cons blk)\<lparr>c_var0 := - 1, c_var1 := - 1, c_coeff := None, c_op := p, c_cst := Some k\<rparr>
         in rbind (case t of
                     None \<Rightarrow> subst_by_constant res l x
                   | Some t \<Rightarrow> rbind (subst_new_variable res l x t) (\<lambda>res. subst_other_variable res l x)) (\<lambda>res.
            if \<not> IS_VAR (c_var1 res) \<and> c_fst res = Some 0 then
              (let sgn = mpq_sgn k
               in Inr (if 0 < sgn \<or> (sgn = 0 \<and> c_op res = LEQ) then Subst_True else Subst_False))
            else rbind (subst_divide (subst_order res)) (\<lambda>res. Inr (Subst_Cons res)))))))"

definition tvpi_subst :: "tvpi_cons \<Rightarrow> tvpi_cons \<Rightarrow> int \<Rightarrow> tvpi_term option \<Rightarrow> rat option \<Rightarrow> subst_result res" where
  "tvpi_subst blk l x t c = tvpi_subst_internal blk l x t c (c_op l)"


text \<open>The term \<^verbatim>\<open>*dt\<close> (none for a null pointer) and the constant \<^verbatim>\<open>*dc\<close>.\<close>

definition tvpi_var_bound :: "tvpi_cons \<Rightarrow> tvpi_cons \<Rightarrow> int \<Rightarrow> (tvpi_term option \<times> rat) res" where
  "tvpi_var_bound blk l x =
     rassert (c_var0 l = x \<or> c_var1 l = x) (
       if c_var1 l = x then
         rbind (deref (c_cst l)) (\<lambda>k. rbind (deref (c_coeff l)) (\<lambda>n.
         rbind (mpq_div k n) (\<lambda>dc. rbind (mpq_div (tvpi_create_si_cst (- 1)) n) (\<lambda>f.
           Inr (Some ((new_term blk)\<lparr>c_var0 := c_var0 l, c_var1 := - 1, c_fst := Some f\<rparr>), dc)))))
       else
         rbind (deref (c_cst l)) (\<lambda>k.
           if IS_VAR (c_var1 l) then
             rbind (deref (c_coeff l)) (\<lambda>n.
               Inr (Some ((new_term blk)\<lparr>c_sgn := 1, c_var0 := c_var1 l, c_var1 := - 1, c_fst := Some (- n)\<rparr>), k))
           else Inr (None, k)))"

section \<open>What a substitution has to compute\<close>

text \<open>
  The value of a term as \<^verbatim>\<open>tvpiInt.h\<close> defines it: the coefficient of the first variable is
  \<^const>\<open>c_fst\<close>, and \<^const>\<open>c_sgn\<close> when there is none.
\<close>

definition term_val :: "(int \<Rightarrow> rat) \<Rightarrow> tvpi_term \<Rightarrow> rat" where
  "term_val env t = (case c_fst t of None \<Rightarrow> of_int (c_sgn t) | Some f \<Rightarrow> f) * env (c_var0 t) + snd_val t * env (c_var1 t)"

definition subst_val :: "(int \<Rightarrow> rat) \<Rightarrow> tvpi_term option \<Rightarrow> rat option \<Rightarrow> rat" where
  "subst_val env t c = (case t of None \<Rightarrow> 0 | Some t \<Rightarrow> term_val env t) + (case c of None \<Rightarrow> 0 | Some c \<Rightarrow> c)"

text \<open>
  A term that can be substituted: one variable, with a nonzero coefficient, which is stored or one.
  The term \<^verbatim>\<open>-v\<close>, a negative \<^const>\<open>c_sgn\<close> and no stored coefficient, is not one: see
  \<^verbatim>\<open>subst_negates_bare_term\<close> below.
\<close>

definition subst_term_ok :: "tvpi_term option \<Rightarrow> bool" where
  "subst_term_ok t \<longleftrightarrow> (\<forall>u. t = Some u \<longrightarrow> 0 \<le> c_var0 u \<and> \<not> IS_VAR (c_var1 u) \<and> c_fst u \<noteq> Some 0
     \<and> (c_fst u = None \<longrightarrow> c_sgn u = 1))"

text \<open>The term of a constraint under construction, whose \<^const>\<open>c_sgn\<close> is set at the very end.\<close>

definition pre_val :: "(int \<Rightarrow> rat) \<Rightarrow> tvpi_term \<Rightarrow> rat" where
  "pre_val env t = (case c_fst t of None \<Rightarrow> 1 | Some f \<Rightarrow> f) * env (c_var0 t) + snd_val t * env (c_var1 t)"

lemma subst_val_pre:
  "subst_term_ok t \<Longrightarrow> subst_val env t c = (case t of None \<Rightarrow> 0 | Some t \<Rightarrow> pre_val env t) + (case c of None \<Rightarrow> 0 | Some c \<Rightarrow> c)"
  by (auto simp: subst_val_def term_val_def pre_val_def subst_term_ok_def split: option.split)

definition result_holds :: "(int \<Rightarrow> rat) \<Rightarrow> subst_result \<Rightarrow> bool" where
  "result_holds env r = (case r of Subst_True \<Rightarrow> True | Subst_False \<Rightarrow> False | Subst_Cons c \<Rightarrow> holds env c)"

definition result_wf :: "subst_result \<Rightarrow> bool" where
  "result_wf r = (case r of Subst_Cons c \<Rightarrow> wf_cons c | _ \<Rightarrow> True)"

lemma subst_constant_Inr:
  assumes "normalized l" "0 \<le> x" "coeff_of l x \<noteq> 0"
  shows "subst_constant l x c = Inr (the (c_cst l) - coeff_of l x * (case c of None \<Rightarrow> 0 | Some c \<Rightarrow> c))"
  using assms by (auto simp: subst_constant_def normalized_def coeff_of_def tvpi_defs split: option.splits if_splits)

text \<open>The term of the new constraint before it is put in normal form.\<close>

definition prenormal :: "tvpi_cons \<Rightarrow> bool" where
  "prenormal r \<longleftrightarrow> (if IS_VAR (c_var1 r) then 0 \<le> c_var0 r \<and> c_var0 r \<noteq> c_var1 r \<and> c_fst r \<noteq> Some 0
       \<and> c_coeff r \<noteq> None \<and> c_coeff r \<noteq> Some 0
     else c_var1 r = - 1 \<and> (c_fst r \<noteq> Some 0 \<longrightarrow> 0 \<le> c_var0 r))"

lemma subst_by_constant_ok:
  assumes "normalized l" "0 \<le> x" "coeff_of l x \<noteq> 0"
    and "c_var0 res = - 1" "c_var1 res = - 1" "c_fst res = None"
  shows "\<exists>r. subst_by_constant res l x = Inr r \<and> prenormal r \<and> c_op r = c_op res \<and> c_cst r = c_cst res
     \<and> (\<forall>env. pre_val env r = tval (env(x := 0)) l)"
  using assms by (auto simp: subst_by_constant_def normalized_def coeff_of_def tvpi_defs prenormal_def pre_val_def
      tvpi_create_si_cst_def split: if_splits)

lemma subst_by_term_fst:
  assumes l: "normalized l" "c_var0 l = x" and t: "0 \<le> c_var0 t" "\<not> IS_VAR (c_var1 t)" "c_fst t \<noteq> Some 0"
    and res: "c_var0 res = - 1" "c_var1 res = - 1" "c_fst res = None"
  shows "\<exists>r. rbind (subst_new_variable res l x t) (\<lambda>res. subst_other_variable res l x) = Inr r
     \<and> prenormal r \<and> c_op r = c_op res \<and> c_cst r = c_cst res
     \<and> (\<forall>env. pre_val env r = tval (env(x := pre_val env t)) l)"
proof -
  have new: "subst_new_variable res l x t = Inr (res\<lparr>c_var0 := c_var0 t, c_fst := c_fst t\<rparr>)"
    using l res by (cases "c_fst t") (auto simp: subst_new_variable_def normalized_def tvpi_defs split: if_splits)
  from l have "wf_cons l" by (simp add: normalized_def)
  then show ?thesis
  proof (cases rule: wf_cons_cases)
    case (one s p v k)
    let ?r = "res\<lparr>c_var0 := c_var0 t, c_fst := c_fst t\<rparr>"
    have "subst_other_variable ?r l x = Inr ?r"
      using one l by (simp add: subst_other_variable_def IS_VAR_def)
    moreover have "prenormal ?r" using t res by (simp add: prenormal_def IS_VAR_def)
    moreover have "pre_val env ?r = tval (env(x := pre_val env t)) l" for env
      using one l t res by (simp add: pre_val_def snd_val_def tval_def fst_val_def IS_VAR_def normalized_def)
    ultimately show ?thesis by (simp add: new)
  next
    case (two s p v w n k)
    let ?r = "if w = c_var0 t
      then res\<lparr>c_var0 := c_var0 t, c_fst := Some ((case c_fst t of None \<Rightarrow> 1 | Some f \<Rightarrow> f) + n)\<rparr>
      else res\<lparr>c_var0 := c_var0 t, c_fst := c_fst t, c_var1 := w, c_coeff := Some n\<rparr>"
    have "subst_other_variable (res\<lparr>c_var0 := c_var0 t, c_fst := c_fst t\<rparr>) l x = Inr ?r"
      using two l by (auto simp: subst_other_variable_def IS_VAR_def split: option.split)
    moreover have "prenormal ?r" using two l t res by (auto simp: prenormal_def IS_VAR_def)
    moreover have "pre_val env ?r = tval (env(x := pre_val env t)) l" for env
      using two l t res by (auto simp: pre_val_def snd_val_def tval_def fst_val_def IS_VAR_def normalized_def
          algebra_simps split: option.split)
    ultimately show ?thesis by (simp add: new)
  qed
qed

lemma subst_by_term_snd:
  assumes l: "normalized l" "c_var1 l = x" "0 \<le> x" and t: "0 \<le> c_var0 t" "\<not> IS_VAR (c_var1 t)" "c_fst t \<noteq> Some 0"
    and res: "c_var0 res = - 1" "c_var1 res = - 1" "c_fst res = None"
  shows "\<exists>r. rbind (subst_new_variable res l x t) (\<lambda>res. subst_other_variable res l x) = Inr r
     \<and> prenormal r \<and> c_op r = c_op res \<and> c_cst r = c_cst res
     \<and> (\<forall>env. pre_val env r = tval (env(x := pre_val env t)) l)"
proof -
  from l have "wf_cons l" by (simp add: normalized_def)
  then show ?thesis
  proof (cases rule: wf_cons_cases)
    case (one s p v k)
    then show ?thesis using l by auto
  next
    case (two s p v w n k)
    let ?f = "(case c_fst t of None \<Rightarrow> 1 | Some f \<Rightarrow> f) * n"
    have new: "subst_new_variable res l x t = Inr (res\<lparr>c_var0 := c_var0 t, c_fst := Some ?f\<rparr>)"
      using two l by (auto simp: subst_new_variable_def Let_def split: option.split)
    let ?r = "if v = c_var0 t
      then res\<lparr>c_var0 := c_var0 t, c_fst := Some (?f + 1)\<rparr>
      else res\<lparr>c_var0 := c_var0 t, c_fst := Some ?f, c_var1 := v, c_coeff := Some 1\<rparr>"
    have "subst_other_variable (res\<lparr>c_var0 := c_var0 t, c_fst := Some ?f\<rparr>) l x = Inr ?r"
      using two l by (auto simp: subst_other_variable_def IS_VAR_def tvpi_create_si_cst_def)
    moreover have "prenormal ?r" using two l t res by (auto simp: prenormal_def IS_VAR_def split: option.splits)
    moreover have "pre_val env ?r = tval (env(x := pre_val env t)) l" for env
      using two l t res by (auto simp: pre_val_def snd_val_def tval_def fst_val_def IS_VAR_def normalized_def
          algebra_simps split: option.split)
    ultimately show ?thesis by (simp add: new)
  qed
qed

lemma subst_order_ok:
  assumes "prenormal r" "\<not> (\<not> IS_VAR (c_var1 r) \<and> c_fst r = Some 0)"
  shows "prenormal (subst_order r)" "c_fst (subst_order r) \<noteq> Some 0" "c_op (subst_order r) = c_op r"
    "c_cst (subst_order r) = c_cst r" "IS_VAR (c_var1 (subst_order r)) \<Longrightarrow> c_var0 (subst_order r) < c_var1 (subst_order r)"
    "pre_val env (subst_order r) = pre_val env r"
  using assms by (auto simp: subst_order_def prenormal_def Let_def IS_VAR_def pre_val_def snd_val_def tvpi_create_si_cst_def
      split: if_splits)

lemma subst_divide_ok:
  assumes "prenormal r" "c_fst r \<noteq> Some 0" "IS_VAR (c_var1 r) \<Longrightarrow> c_var0 r < c_var1 r" "c_cst r = Some k"
  shows "\<exists>q. subst_divide r = Inr q \<and> wf_cons q \<and> (\<forall>env. holds env q \<longleftrightarrow> op_holds (c_op r) (pre_val env r) k)"
proof -
  let ?f = "case c_fst r of None \<Rightarrow> 1 | Some f \<Rightarrow> f"
  let ?q = "r\<lparr>c_sgn := mpq_sgn ?f, c_cst := Some (k / \<bar>?f\<bar>), c_coeff := (if IS_VAR (c_var1 r) then Some (the (c_coeff r) / \<bar>?f\<bar>) else Some 0), c_fst := None\<rparr>"
  have "subst_divide r = Inr ?q"
    using assms by (cases r) (auto simp: subst_divide_def Let_def mpq_sgn_def prenormal_def abs_if split: option.split)
  moreover have "wf_cons ?q" using assms
    by (auto simp: tvpi_defs prenormal_def mpq_sgn_def split: option.splits if_splits)
  moreover have "tval env ?q = pre_val env r / \<bar>?f\<bar>" for env
    using assms by (auto simp: tvpi_defs pre_val_def prenormal_def mpq_sgn_def field_simps split: option.splits)
  moreover have "0 < \<bar>?f\<bar>" using assms(2) by (auto split: option.split)
  ultimately show ?thesis by (auto simp: holds_def op_holds_div)
qed

lemma subst_finish_ok:
  assumes "prenormal r" "\<not> (\<not> IS_VAR (c_var1 r) \<and> c_fst r = Some 0)" "c_cst r = Some k"
  shows "\<exists>q. subst_divide (subst_order r) = Inr q \<and> wf_cons q
     \<and> (\<forall>env. holds env q \<longleftrightarrow> op_holds (c_op r) (pre_val env r) k)"
  using subst_divide_ok [of "subst_order r" k] subst_order_ok [OF assms(1,2)] assms(3) by simp

lemma subst_internal_ok:
  assumes l: "normalized l" and x: "0 \<le> x" and t: "subst_term_ok t" "t \<noteq> None \<or> c \<noteq> None"
  shows "\<exists>r. tvpi_subst_internal blk l x t c p = Inr r \<and> result_wf r
     \<and> (\<forall>env. result_holds env r \<longleftrightarrow>
          op_holds (if coeff_of l x = 0 then c_op l else p) (tval (env(x := subst_val env t c)) l) (the (c_cst l)))"
proof (cases "coeff_of l x = 0")
  case True
  have "c_var0 l \<noteq> x" "c_var1 l \<noteq> x"
    using True l x by (auto simp: coeff_of_def normalized_def tvpi_defs split: if_splits)
  then show ?thesis using True l x t tval_upd [of l x]
    by (auto simp: tvpi_subst_internal_def normalized_def subst_term_ok_def result_wf_def result_holds_def holds_def)
next
  case False
  have wf: "wf_cons l" "0 < c_sgn l" using l by (auto simp: normalized_def)
  have occ: "c_var0 l = x \<or> c_var1 l = x" using False by (auto simp: coeff_of_def split: if_splits)
  let ?c = "case c of None \<Rightarrow> 0 | Some c \<Rightarrow> c" and ?k = "the (c_cst l) - coeff_of l x * (case c of None \<Rightarrow> 0 | Some c \<Rightarrow> c)"
  define res where "res = (new_cons blk)\<lparr>c_var0 := - 1, c_var1 := - 1, c_coeff := None, c_op := p, c_cst := Some ?k\<rparr>"
  have r0: "c_var0 res = - 1" "c_var1 res = - 1" "c_fst res = None" by (simp_all add: res_def new_cons_def)
  obtain r where r: "(case t of None \<Rightarrow> subst_by_constant res l x
       | Some t \<Rightarrow> rbind (subst_new_variable res l x t) (\<lambda>res. subst_other_variable res l x)) = Inr r"
      "prenormal r" "c_op r = p" "c_cst r = Some ?k"
      "\<And>env. pre_val env r = tval (env(x := case t of None \<Rightarrow> 0 | Some t \<Rightarrow> pre_val env t)) l"
  proof (cases t)
    case None
    then show ?thesis using that subst_by_constant_ok [OF l x False r0] by (auto simp: res_def)
  next
    case (Some u)
    then have u: "0 \<le> c_var0 u" "\<not> IS_VAR (c_var1 u)" "c_fst u \<noteq> Some 0" using t by (auto simp: subst_term_ok_def)
    show ?thesis
    proof (cases "c_var0 l = x")
      case True
      then show ?thesis using that subst_by_term_fst [OF l True u r0] Some by (auto simp: res_def)
    next
      case False
      then show ?thesis using that subst_by_term_snd [OF l _ x u r0] Some occ by (auto simp: res_def)
    qed
  qed
  have step: "op_holds p (tval (env(x := subst_val env t c)) l) (the (c_cst l)) \<longleftrightarrow> op_holds p (pre_val env r) ?k" for env
  proof -
    have "tval (env(x := subst_val env t c)) l = pre_val env r + coeff_of l x * ?c"
      by (simp add: r(5) tval_upd [OF wf(1) x] subst_val_pre [OF t(1)] algebra_simps)
    then show ?thesis by (cases p) auto
  qed
  have code: "tvpi_subst_internal blk l x t c p =
      (if \<not> IS_VAR (c_var1 r) \<and> c_fst r = Some 0
       then Inr (if 0 < ?k \<or> ?k = 0 \<and> p = LEQ then Subst_True else Subst_False)
       else rbind (subst_divide (subst_order r)) (\<lambda>res. Inr (Subst_Cons res)))"
  proof -
    have a: "t = None \<or> \<not> IS_VAR (c_var1 (the t))" "\<not> (c_var0 l \<noteq> x \<and> c_var1 l \<noteq> x)"
      using t occ by (auto simp: subst_term_ok_def)
    show ?thesis
      unfolding tvpi_subst_internal_def Let_def rassert_True [OF wf(2)] rassert_True [OF a(1)]
        rassert_True [OF t(2)] if_not_P [OF a(2)] subst_constant_Inr [OF l x False] rbind_Inr
        res_def [symmetric] r(1)
      by (simp add: r(3))
  qed
  show ?thesis
  proof (cases "\<not> IS_VAR (c_var1 r) \<and> c_fst r = Some 0")
    case True
    then have "pre_val env r = 0" for env by (simp add: pre_val_def snd_val_def)
    then show ?thesis using True code False step
      by (cases p) (auto simp: result_wf_def result_holds_def)
  next
    case nc: False
    then show ?thesis using code False step subst_finish_ok [OF r(2) nc r(4)] r(3)
      by (auto simp: result_wf_def result_holds_def)
  qed
qed



text \<open>
  The sign of a substituted term is not read: substituting a bare negative term \<^verbatim>\<open>-v\<close>, as
  \<^verbatim>\<open>tvpi_create_term\<close> builds it, with a negative \<^const>\<open>c_sgn\<close> and no stored coefficient, gives what
  substituting \<^verbatim>\<open>v\<close> would give, for every normalised constraint.
\<close>

theorem subst_negates_bare_term:
  assumes "normalized l" "0 \<le> x" and u: "0 \<le> c_var0 u" "\<not> IS_VAR (c_var1 u)" "c_fst u = None" "c_sgn u = - 1"
  shows "\<exists>r. tvpi_subst blk l x (Some u) c = Inr r
     \<and> (\<forall>env. result_holds env r \<longleftrightarrow> holds (env(x := - term_val env u + (case c of None \<Rightarrow> 0 | Some c \<Rightarrow> c))) l)"
proof -
  let ?u = "u\<lparr>c_sgn := 1\<rparr>"
  have ok: "subst_term_ok (Some ?u)" using u by (simp add: subst_term_ok_def)
  have "subst_new_variable res l x u = subst_new_variable res l x ?u" for res
    using u by (simp add: subst_new_variable_def Let_def)
  then have same: "tvpi_subst blk l x (Some u) c = tvpi_subst blk l x (Some ?u) c"
    by (simp add: tvpi_subst_def tvpi_subst_internal_def)
  have val: "subst_val env (Some ?u) c = - term_val env u + (case c of None \<Rightarrow> 0 | Some c \<Rightarrow> c)" for env
    using u by (simp add: subst_val_def term_val_def snd_val_def)
  show ?thesis
    using subst_internal_ok [OF assms(1,2) ok, of c blk "c_op l"] unfolding same
    by (auto simp: tvpi_subst_def holds_def val)
qed



lemma left_limit:
  fixes a :: rat
  shows "(\<exists>b. \<forall>v < b. op_holds q (s + a * v) k) \<longleftrightarrow> (if a = 0 then op_holds q s k else 0 < a)"
proof -
  consider (zero) "a = 0" | (pos) "0 < a" | (neg) "a < 0" by linarith
  then show ?thesis
  proof cases
    case zero
    then show ?thesis using lt_ex by auto
  next
    case pos
    then have "\<forall>v < (k - s) / a. op_holds q (s + a * v) k" by (cases q; auto simp: field_simps)
    then show ?thesis using pos by auto
  next
    case neg
    have "\<exists>v < b. \<not> op_holds q (s + a * v) k" for b
    proof -
      let ?v = "min (b - 1) ((s - k) / - a - 1)"
      have "k < s + a * ?v"
      proof -
        have "a * ((s - k) / - a - 1) \<le> a * ?v" using neg by (simp add: mult_left_mono_neg)
        moreover have "a * ((s - k) / - a - 1) = k - s - a" using neg by (simp add: field_simps)
        ultimately show ?thesis using neg by linarith
      qed
      then show ?thesis by (intro exI [of _ ?v]) (cases q; auto)
    qed
    then show ?thesis using neg by auto
  qed
qed

text \<open>
  Substituting minus infinity: the result holds exactly when the constraint holds for all
  sufficiently small values of \<^verbatim>\<open>x\<close>.
\<close>

theorem subst_ninf_is_limit:
  assumes "wf_cons l" "0 \<le> x"
  shows "\<exists>r. tvpi_subst_ninf l x = Inr r \<and> result_wf r
     \<and> (\<forall>env. result_holds env r \<longleftrightarrow> (\<exists>b. \<forall>v < b. holds (env(x := v)) l))"
proof -
  let ?a = "coeff_of l x"
  have code: "tvpi_subst_ninf l x = Inr (if ?a = 0 then Subst_Cons l else if 0 < ?a then Subst_True else Subst_False)"
    using assms by (auto simp: tvpi_subst_ninf_def coeff_of_def tvpi_defs split: if_splits)
  have "holds (env(x := v)) l \<longleftrightarrow> op_holds (c_op l) ((tval env l - ?a * env x) + ?a * v) (the (c_cst l))" for env v
    by (simp add: holds_def tval_upd [OF assms] algebra_simps)
  then show ?thesis using assms(1)
    by (simp add: code left_limit result_wf_def result_holds_def) (simp add: holds_def)
qed

text \<open>
  The bound a constraint puts on a variable is the value at which the constraint is tight, and
  the returned term can be substituted by \<^verbatim>\<open>tvpi_subst\<close>.
\<close>

theorem var_bound_tight:
  assumes "wf_cons l" "c_sgn l = 1" "0 \<le> x" "coeff_of l x \<noteq> 0"
  shows "\<exists>dt dc. tvpi_var_bound blk l x = Inr (dt, dc) \<and> subst_term_ok dt
     \<and> (\<forall>env. tval (env(x := subst_val env dt (Some dc))) l = the (c_cst l))"
proof (cases "c_var1 l = x")
  case True
  let ?n = "the (c_coeff l)" and ?k = "the (c_cst l)"
  let ?t = "(new_term blk)\<lparr>c_var0 := c_var0 l, c_var1 := - 1, c_fst := Some (- 1 / ?n)\<rparr>"
  have "tvpi_var_bound blk l x = Inr (Some ?t, ?k / ?n)"
    using assms True by (auto simp: tvpi_var_bound_def tvpi_defs tvpi_create_si_cst_def split: if_splits)
  moreover have "subst_term_ok (Some ?t)" using assms True
    by (auto simp: subst_term_ok_def tvpi_defs split: if_splits)
  moreover have "tval (env(x := subst_val env (Some ?t) (Some (?k / ?n)))) l = ?k" for env
    using assms True by (auto simp: tvpi_defs subst_val_def term_val_def field_simps split: if_splits)
  ultimately show ?thesis by blast
next
  case False
  then have "c_var0 l = x" using assms(4) by (auto simp: coeff_of_def split: if_splits)
  then show ?thesis using assms False
    by (auto simp: tvpi_var_bound_def coeff_of_def tvpi_defs subst_term_ok_def subst_val_def term_val_def split: if_splits)
qed

definition term_minus_x1 :: tvpi_term where
  "term_minus_x1 = \<lparr>c_sgn = - 1, c_op = LEQ, c_var0 = 1, c_var1 = - 1, c_coeff = Some 0, c_cst = None, c_fst = None\<rparr>"

definition cons_x0_le3 :: tvpi_cons where
  "cons_x0_le3 = \<lparr>c_sgn = 1, c_op = LEQ, c_var0 = 0, c_var1 = - 1, c_coeff = Some 0, c_cst = Some 3, c_fst = None\<rparr>"

section \<open>Instances\<close>




text \<open>
  \<^verbatim>\<open>-x1\<close> for \<^verbatim>\<open>x0\<close> in \<^verbatim>\<open>x0 <= 3\<close>: at \<^verbatim>\<open>x1 = 5\<close> the constraint holds, the result does not.
\<close>

lemma cons_x0_le3_ok: "normalized cons_x0_le3"
  by (simp add: cons_x0_le3_def tvpi_defs normalized_def)

lemma subst_negates_bare_term_witness:
  "tvpi_create_term blk0 [0, - 1] 2 = Inr term_minus_x1 \<and> holds ((\<lambda>_. 5)(0 := term_val (\<lambda>_. 5) term_minus_x1)) cons_x0_le3
   \<and> (\<exists>r. tvpi_subst blk0 cons_x0_le3 0 (Some term_minus_x1) None = Inr r \<and> \<not> result_holds (\<lambda>_. 5) r)"
proof -
  obtain r where "tvpi_subst blk0 cons_x0_le3 0 (Some term_minus_x1) None = Inr r"
    "\<forall>env. result_holds env r \<longleftrightarrow> holds (env(0 := - term_val env term_minus_x1 + 0)) cons_x0_le3"
    using subst_negates_bare_term [OF cons_x0_le3_ok, of 0 term_minus_x1 blk0 None] by (auto simp: term_minus_x1_def IS_VAR_def)
  then show ?thesis
    by (auto simp: tvpi_create_term_def create_term_scan.simps term_minus_x1_def blk0_def new_term_def new_cons_def term_val_def
        cons_x0_le3_def tvpi_defs holds_def)
qed


lemma subst_ninf_is_limit_witness:
  "\<exists>r. tvpi_subst_ninf cons_ex1 1 = Inr r \<and> result_wf r
     \<and> (\<forall>env. result_holds env r \<longleftrightarrow> (\<exists>b. \<forall>v < b. holds (env(1 := v)) cons_ex1))"
  by (rule subst_ninf_is_limit [OF wf_examples(1)]) simp

lemma var_bound_tight_witness:
  "\<exists>dt dc. tvpi_var_bound blk0 cons_ex1 1 = Inr (dt, dc) \<and> subst_term_ok dt
     \<and> (\<forall>env. tval (env(1 := subst_val env dt (Some dc))) cons_ex1 = the (c_cst cons_ex1))"
  by (rule var_bound_tight [OF wf_examples(1)]) (simp_all add: cons_ex1_def coeff_of_def snd_val_def IS_VAR_def)

end
