(* ===== verification/Tvpi_Int.thy ===== *)
theory Tvpi_Int
  imports Tvpi_Resolve
begin

text \<open>
  The integer theories of \<^verbatim>\<open>tvpi.c\<close>: the conversion of a rational constraint to an equivalent one
  over the integers (\<^verbatim>\<open>tvpi_convert_q_to_z\<close> for TVPI(Z), \<^verbatim>\<open>tvpi_convert_uq_to_uz\<close> for UTVPI(Z)) and
  the create, negate and resolve operations built on it.  A GMP rational is kept in lowest terms with
  a positive denominator: its numerator and denominator are those of \<^const>\<open>quotient_of\<close>.
\<close>

section \<open>The functions\<close>

definition numref :: "rat \<Rightarrow> int" where
  "numref q = fst (quotient_of q)"

definition denref :: "rat \<Rightarrow> int" where
  "denref q = snd (quotient_of q)"

definition tvpi_convert_q_to_z :: "tvpi_cons \<Rightarrow> tvpi_cons res" where
  "tvpi_convert_q_to_z c =
     rbind (deref (c_coeff c)) (\<lambda>n. rbind (deref (c_cst c)) (\<lambda>z.
       let k = (if denref n \<noteq> 1 then (denref n * numref z) div denref z else numref z div denref z);
           k = (if c_op c = LT then k - 1 else k);
           c = (if c_op c = LT then c\<lparr>c_op := LEQ\<rparr> else c);
           q = (if denref n \<noteq> 1 then of_int k / of_int (denref n) else of_int k)
       in Inr (c\<lparr>c_cst := Some q\<rparr>)))"

definition tvpi_z_create_cons :: "tvpi_term \<Rightarrow> bool \<Rightarrow> rat \<Rightarrow> tvpi_cons res" where
  "tvpi_z_create_cons t s k = rbind (tvpi_create_cons t s k) tvpi_convert_q_to_z"

definition tvpi_z_negate_cons :: "tvpi_cons \<Rightarrow> tvpi_cons \<Rightarrow> tvpi_cons res" where
  "tvpi_z_negate_cons blk c = rbind (tvpi_negate_cons blk c) tvpi_convert_q_to_z"

definition tvpi_z_resolve_cons :: "tvpi_cons \<Rightarrow> tvpi_cons \<Rightarrow> tvpi_cons \<Rightarrow> int \<Rightarrow> tvpi_cons res" where
  "tvpi_z_resolve_cons blk c1 c2 x = rbind (tvpi_resolve_cons blk c1 c2 x) tvpi_convert_q_to_z"

definition tvpi_convert_uq_to_uz :: "tvpi_cons \<Rightarrow> tvpi_cons res" where
  "tvpi_convert_uq_to_uz r =
     rbind (if IS_VAR (c_var1 r)
            then rbind (deref (c_coeff r)) (\<lambda>n. Inr (denref n = 1 \<and> \<bar>numref n\<bar> = 1))
            else Inr True) (\<lambda>unit.
     rassert unit (
     rbind (deref (c_cst r)) (\<lambda>k.
     rassert (denref k = 1) (
       let k = (if c_op r = LT then of_int (numref k - denref k) / of_int (denref k) else k);
           r = (if c_op r = LT then r\<lparr>c_op := LEQ\<rparr> else r);
           k = (if denref k \<noteq> 1 then of_int (numref k div denref k) else k)
       in Inr (r\<lparr>c_cst := Some k\<rparr>)))))"

definition tvpi_uz_create_cons :: "tvpi_term \<Rightarrow> bool \<Rightarrow> rat \<Rightarrow> tvpi_cons res" where
  "tvpi_uz_create_cons t s k = rbind (tvpi_create_cons t s k) tvpi_convert_uq_to_uz"

definition tvpi_uz_negate_cons :: "tvpi_cons \<Rightarrow> tvpi_cons \<Rightarrow> tvpi_cons res" where
  "tvpi_uz_negate_cons blk c = rbind (tvpi_negate_cons blk c) tvpi_convert_uq_to_uz"

definition tvpi_uz_resolve_cons :: "tvpi_cons \<Rightarrow> tvpi_cons \<Rightarrow> tvpi_cons \<Rightarrow> int \<Rightarrow> tvpi_cons res" where
  "tvpi_uz_resolve_cons blk c1 c2 x = rbind (tvpi_resolve_cons blk c1 c2 x) tvpi_convert_uq_to_uz"

section \<open>Numerators and denominators\<close>

lemma denref_pos: "0 < denref q"
  by (simp add: denref_def quotient_of_denom_pos')

lemma quotient_refs: "of_int (numref q) / of_int (denref q) = q"
  unfolding numref_def denref_def by (rule quotient_of_div [symmetric]) simp

lemma refs_floor: "m * numref q div denref q = \<lfloor>of_int m * q\<rfloor>"
proof -
  have "of_int m * q = of_int (m * numref q) / of_int (denref q)"
    using quotient_refs [of q] by (simp flip: times_divide_eq_right)
  then show ?thesis by (simp add: floor_divide_of_int_eq del: of_int_mult)
qed

lemma denref_1_iff: "denref q = 1 \<longleftrightarrow> q \<in> \<int>"
proof
  assume "denref q = 1" then show "q \<in> \<int>" using quotient_refs [of q] by (metis Ints_of_int div_by_1 of_int_1)
next
  assume "q \<in> \<int>" then show "denref q = 1" by (auto elim!: Ints_cases simp: denref_def)
qed

lemma denref_mult_Ints: "of_int (denref q) * q \<in> \<int>"
proof -
  have "of_int (denref q) * q = of_int (numref q)"
    using quotient_refs [of q] denref_pos [of q] by (simp add: field_simps)
  then show ?thesis by simp
qed

definition int_env :: "(int \<Rightarrow> rat) \<Rightarrow> bool" where
  "int_env env \<longleftrightarrow> (\<forall>x. env x \<in> \<int>)"

text \<open>The denominator of the second coefficient, by which a constraint becomes integral.\<close>

definition cons_den :: "tvpi_cons \<Rightarrow> int" where
  "cons_den c = denref (the (c_coeff c))"

lemma tval_den_Ints:
  assumes "wf_cons c" "int_env env"
  shows "of_int (cons_den c) * tval env c \<in> \<int>"
proof -
  have "of_int (cons_den c) * tval env c =
      of_int (cons_den c * c_sgn c) * env (c_var0 c) + (of_int (cons_den c) * snd_val c) * env (c_var1 c)"
    using assms(1) by (simp add: tval_def fst_val_def wf_cons_def algebra_simps)
  moreover have "of_int (cons_den c) * snd_val c \<in> \<int>"
    by (simp add: snd_val_def cons_den_def denref_mult_Ints)
  ultimately show ?thesis using assms(2) by (simp add: int_env_def)
qed

lemma int_le_floor: "(a::rat) \<in> \<int> \<Longrightarrow> a \<le> b \<longleftrightarrow> a \<le> of_int \<lfloor>b\<rfloor>"
  by (auto elim!: Ints_cases simp: le_floor_iff)

lemma int_less_pred: "(a::rat) \<in> \<int> \<Longrightarrow> b \<in> \<int> \<Longrightarrow> a < b \<longleftrightarrow> a \<le> of_int (\<lfloor>b\<rfloor> - 1)"
  by (auto elim!: Ints_cases)

lemma convert_q_to_z_Inr:
  assumes "wf_cons c"
  shows "tvpi_convert_q_to_z c = Inr (c\<lparr>c_op := LEQ, c_cst := Some (of_int
      (\<lfloor>of_int (cons_den c) * the (c_cst c)\<rfloor> - (if c_op c = LT then 1 else 0)) / of_int (cons_den c))\<rparr>)"
proof -
  obtain n z where "c_coeff c = Some n" "c_cst c = Some z" using assms by (auto simp: wf_cons_def wf_term_def split: if_splits)
  then show ?thesis using refs_floor [of 1 z] refs_floor [of "denref n" z]
    by (cases "c_op c"; cases "denref n = 1") (simp_all add: tvpi_convert_q_to_z_def Let_def cons_den_def)
qed

text \<open>
  The conversion to integers is exact on integer valuations for every non-strict constraint, and
  for a strict one whose constant the denominator of the second coefficient makes integral; the
  result is not strict and has such a constant.
\<close>

theorem convert_q_to_z_exact:
  assumes "wf_cons c" "c_op c = LEQ \<or> of_int (cons_den c) * the (c_cst c) \<in> \<int>"
  shows "\<exists>r. tvpi_convert_q_to_z c = Inr r \<and> wf_cons r \<and> c_op r = LEQ \<and> cons_den r = cons_den c
     \<and> of_int (cons_den r) * the (c_cst r) \<in> \<int>
     \<and> (\<forall>env. int_env env \<longrightarrow> (holds env r \<longleftrightarrow> holds env c))"
proof -
  let ?d = "rat_of_int (cons_den c)" and ?k = "the (c_cst c)"
  have d: "0 < ?d" by (simp add: cons_den_def denref_pos)
  let ?m = "\<lfloor>?d * ?k\<rfloor> - (if c_op c = LT then 1 else 0)"
  let ?r = "c\<lparr>c_op := LEQ, c_cst := Some (of_int ?m / ?d)\<rparr>"
  have "holds env ?r \<longleftrightarrow> holds env c" if env: "int_env env" for env
  proof -
    have "holds env ?r \<longleftrightarrow> tval env c \<le> of_int ?m / ?d"
      by (simp add: holds_def tval_def fst_val_def snd_val_def)
    also have "\<dots> \<longleftrightarrow> ?d * tval env c \<le> of_int ?m" using d by (simp add: field_simps)
    also have "\<dots> \<longleftrightarrow> op_holds (c_op c) (?d * tval env c) (?d * ?k)"
      using int_le_floor [OF tval_den_Ints [OF assms(1) env], of "?d * ?k"]
        int_less_pred [OF tval_den_Ints [OF assms(1) env], of "?d * ?k"] assms(2)
      by (cases "c_op c") auto
    also have "\<dots> \<longleftrightarrow> holds env c" using d by (simp add: holds_def op_holds_scale)
    finally show ?thesis .
  qed
  moreover have "wf_cons ?r" using assms(1) by (auto simp: tvpi_defs)
  ultimately show ?thesis using convert_q_to_z_Inr [OF assms(1)] d by (auto simp: cons_den_def)
qed

definition cons_x0_lt_5_2 :: tvpi_cons where
  "cons_x0_lt_5_2 = \<lparr>c_sgn = 1, c_op = LT, c_var0 = 0, c_var1 = - 1, c_coeff = Some 0, c_cst = Some (5 / 2), c_fst = None\<rparr>"

text \<open>
  For a strict constraint with a fractional constant the conversion loses solutions: \<^verbatim>\<open>x0 < 5/2\<close>
  becomes \<^verbatim>\<open>x0 <= 1\<close>, although \<^verbatim>\<open>x0 = 2\<close> satisfies it.
\<close>

theorem convert_q_to_z_strict_loses_solutions:
  "wf_cons cons_x0_lt_5_2 \<and> int_env (\<lambda>_. 2) \<and> holds (\<lambda>_. 2) cons_x0_lt_5_2
   \<and> tvpi_convert_q_to_z cons_x0_lt_5_2 = Inr (cons_x0_lt_5_2\<lparr>c_op := LEQ, c_cst := Some 1\<rparr>)
   \<and> \<not> holds (\<lambda>_. 2) (cons_x0_lt_5_2\<lparr>c_op := LEQ, c_cst := Some 1\<rparr>)"
proof -
  have wf: "wf_cons cons_x0_lt_5_2" by (simp add: cons_x0_lt_5_2_def tvpi_defs)
  have "\<lfloor>5 / 2 :: rat\<rfloor> = 2" by (rule floor_unique) simp_all
  then show ?thesis using wf convert_q_to_z_Inr [OF wf]
    by (simp add: cons_den_def denref_def int_env_def holds_def tval_def fst_val_def snd_val_def IS_VAR_def
        cons_x0_lt_5_2_def)
qed

section \<open>The operations of TVPI(Z)\<close>

text \<open>
  A constraint of TVPI(Z): not strict, with a constant that the denominator of the second
  coefficient makes integral.  The operations keep this form.
\<close>

definition z_cons :: "tvpi_cons \<Rightarrow> bool" where
  "z_cons c \<longleftrightarrow> wf_cons c \<and> c_op c = LEQ \<and> of_int (cons_den c) * the (c_cst c) \<in> \<int>"

lemma denref_uminus: "denref (- q) = denref q"
  by (simp add: denref_def rat_uminus_code case_prod_beta Let_def)

lemma negate_cons_Inr:
  assumes "wf_cons c"
  shows "tvpi_negate_cons blk c = Inr ((new_term blk)\<lparr>c_sgn := - c_sgn c, c_var0 := c_var0 c, c_var1 := c_var1 c,
     c_coeff := map_option uminus (c_coeff c), c_op := (if c_op c = LT then LEQ else LT), c_cst := Some (- the (c_cst c))\<rparr>)"
  using assms by (auto simp: tvpi_negate_cons_def negate_term_Inr [OF assms] wf_cons_def tvpi_negate_cst_def)

text \<open>
  Negation in TVPI(Z) keeps the form of the theory's constraints and is the complement on integer
  valuations.
\<close>

theorem z_negate_cons_complement:
  assumes "z_cons c"
  shows "\<exists>r. tvpi_z_negate_cons blk c = Inr r \<and> z_cons r
     \<and> (\<forall>env. int_env env \<longrightarrow> (holds env r \<longleftrightarrow> \<not> holds env c))"
proof -
  have wf: "wf_cons c" and int: "of_int (cons_den c) * the (c_cst c) \<in> \<int>" using assms by (auto simp: z_cons_def)
  obtain n where n: "tvpi_negate_cons blk c = Inr n" "wf_cons n" "\<And>env. holds env n \<longleftrightarrow> \<not> holds env c"
    using negate_cons_complement [OF wf] by blast
  have "of_int (cons_den n) * the (c_cst n) = - (of_int (cons_den c) * the (c_cst c))"
    using n(1) wf by (auto simp: negate_cons_Inr [OF wf] cons_den_def denref_uminus tvpi_defs split: if_splits)
  then have "of_int (cons_den n) * the (c_cst n) \<in> \<int>" using int by simp
  then obtain r where "tvpi_convert_q_to_z n = Inr r" "z_cons r" "\<And>env. int_env env \<Longrightarrow> holds env r \<longleftrightarrow> holds env n"
    using convert_q_to_z_exact [OF n(2)] by (auto simp: z_cons_def)
  then show ?thesis using n by (auto simp: tvpi_z_negate_cons_def)
qed

text \<open>
  Resolution in TVPI(Z) keeps the form of the theory's constraints, eliminates the variable, and is
  sound on integer valuations.
\<close>

theorem z_resolve_cons_sound:
  assumes "z_cons c1" "z_cons c2" "opposite_in c1 c2 x"
  shows "\<exists>r. tvpi_z_resolve_cons blk c1 c2 x = Inr r \<and> z_cons r \<and> coeff_of r x = 0
     \<and> (\<forall>env. int_env env \<longrightarrow> holds env c1 \<longrightarrow> holds env c2 \<longrightarrow> holds env r)"
proof -
  have wf: "wf_cons c1" "wf_cons c2" and op: "c_op c1 = LEQ" "c_op c2 = LEQ" using assms(1,2) by (auto simp: z_cons_def)
  obtain q where q: "tvpi_resolve_cons blk c1 c2 x = Inr q" "wf_cons q" "c_op q = LEQ" "coeff_of q x = 0"
    using resolve_cons_ok [OF wf assms(3), of blk] op by (auto simp: resolvent_of_def)
  have proj: "holds env c1 \<Longrightarrow> holds env c2 \<Longrightarrow> holds env q" for env
    using resolve_cons_ok [OF wf assms(3), of blk] q(1) assms(3) resolvent_of_projects [OF wf, of x q env]
      resolvent_of_projects [OF wf(2,1), of x q env] by (auto simp: opposite_in_def mult.commute intro!: exI [of _ "env x"])
  obtain r where r: "tvpi_convert_q_to_z q = Inr r" "z_cons r" "\<And>env. int_env env \<Longrightarrow> holds env r \<longleftrightarrow> holds env q"
    using convert_q_to_z_exact [OF q(2)] q(3) by (auto simp: z_cons_def)
  have "coeff_of r x = coeff_of q x"
    using r(1) by (auto simp: convert_q_to_z_Inr [OF q(2)] coeff_of_def fst_val_def snd_val_def)
  then show ?thesis using q r proj by (auto simp: tvpi_z_resolve_cons_def)
qed

section \<open>The operations of UTVPI(Z)\<close>

definition uz_cons :: "tvpi_cons \<Rightarrow> bool" where
  "uz_cons c \<longleftrightarrow> wf_cons c \<and> (IS_VAR (c_var1 c) \<longrightarrow> \<bar>the (c_coeff c)\<bar> = 1) \<and> the (c_cst c) \<in> \<int>"

lemma unit_refs: "denref n = 1 \<and> \<bar>numref n\<bar> = 1 \<longleftrightarrow> \<bar>n\<bar> = 1"
proof
  assume "denref n = 1 \<and> \<bar>numref n\<bar> = 1"
  then show "\<bar>n\<bar> = 1" using quotient_refs [of n] by (auto simp: abs_if split: if_splits)
next
  assume "\<bar>n\<bar> = 1"
  then have "n = of_int 1 \<or> n = of_int (- 1)" by (auto simp: abs_if split: if_splits)
  then show "denref n = 1 \<and> \<bar>numref n\<bar> = 1"
    unfolding denref_def numref_def by (elim disjE) (simp_all only: quotient_of_int, simp_all)
qed

lemma convert_uq_to_uz_Inr:
  assumes "wf_cons c" "IS_VAR (c_var1 c) \<longrightarrow> \<bar>the (c_coeff c)\<bar> = 1" "the (c_cst c) = of_int k"
  shows "tvpi_convert_uq_to_uz c = Inr (c\<lparr>c_op := LEQ, c_cst := Some (of_int (if c_op c = LT then k - 1 else k))\<rparr>)"
proof -
  have "c_cst c = Some (of_int k)" using assms(1,3) by (auto simp: wf_cons_def)
  moreover have "denref (of_int k) = 1" "numref (of_int k) = k" for k by (simp_all add: denref_def numref_def)
  moreover have "IS_VAR (c_var1 c) \<Longrightarrow> \<exists>n. c_coeff c = Some n \<and> denref n = 1 \<and> \<bar>numref n\<bar> = 1"
    using assms(1,2) by (auto simp: unit_refs wf_cons_def wf_term_def)
  ultimately show ?thesis
    by (cases c; cases "c_op c"; cases "IS_VAR (c_var1 c)")
      (auto simp: tvpi_convert_uq_to_uz_def Let_def simp del: of_int_diff)
qed

text \<open>
  The conversion of UTVPI(Z) is exact on integer valuations when the constant is an integer, and
  fails its assertion when it is not.
\<close>

theorem convert_uq_to_uz_exact:
  assumes "wf_cons c" "IS_VAR (c_var1 c) \<longrightarrow> \<bar>the (c_coeff c)\<bar> = 1"
  shows "if the (c_cst c) \<in> \<int>
    then \<exists>r. tvpi_convert_uq_to_uz c = Inr r \<and> uz_cons r \<and> c_op r = LEQ
       \<and> (\<forall>env. int_env env \<longrightarrow> (holds env r \<longleftrightarrow> holds env c))
    else tvpi_convert_uq_to_uz c = Inl Assert_Failed"
proof (cases "the (c_cst c) \<in> \<int>")
  case False
  moreover have "IS_VAR (c_var1 c) \<Longrightarrow> \<exists>n. c_coeff c = Some n \<and> denref n = 1 \<and> \<bar>numref n\<bar> = 1"
    using assms by (auto simp: unit_refs wf_cons_def wf_term_def)
  moreover obtain k where "c_cst c = Some k" using assms(1) by (auto simp: wf_cons_def)
  ultimately show ?thesis
    by (cases "IS_VAR (c_var1 c)") (auto simp: tvpi_convert_uq_to_uz_def rassert_def denref_1_iff)
next
  case True
  then obtain k where k: "the (c_cst c) = of_int k" by (auto elim: Ints_cases)
  define j where "j = (if c_op c = LT then k - 1 else k)"
  let ?r = "c\<lparr>c_op := LEQ, c_cst := Some (of_int j)\<rparr>"
  have "holds env ?r \<longleftrightarrow> holds env c" if "int_env env" for env
  proof -
    have "cons_den c = 1"
    proof (cases "IS_VAR (c_var1 c)")
      case True
      then show ?thesis using assms(2) unit_refs [of "the (c_coeff c)"] by (simp add: cons_den_def)
    next
      case False
      then show ?thesis using assms(1) by (simp add: cons_den_def denref_def wf_cons_def wf_term_def)
    qed
    then have "tval env c \<in> \<int>" using tval_den_Ints [OF assms(1) that] by simp
    then obtain a where a: "tval env c = of_int a" by (auto elim: Ints_cases)
    have "tval env ?r = of_int a" by (simp add: a [symmetric] tval_def fst_val_def snd_val_def)
    then have "holds env ?r \<longleftrightarrow> a \<le> j" by (simp add: holds_def)
    also have "\<dots> \<longleftrightarrow> op_holds (c_op c) (rat_of_int a) (of_int k)"
      by (cases "c_op c") (auto simp: j_def)
    finally show ?thesis by (simp only: holds_def a k)
  qed
  moreover have "uz_cons ?r" using assms by (auto simp: uz_cons_def tvpi_defs)
  ultimately show ?thesis using True convert_uq_to_uz_Inr [OF assms k] by (auto simp: j_def)
qed

text \<open>
  Negation in UTVPI(Z) never fails, yields a non-strict constraint of the theory and is the
  complement on integer valuations.
\<close>

theorem uz_negate_cons_complement:
  assumes "uz_cons c"
  shows "\<exists>r. tvpi_uz_negate_cons blk c = Inr r \<and> uz_cons r \<and> c_op r = LEQ
     \<and> (\<forall>env. int_env env \<longrightarrow> (holds env r \<longleftrightarrow> \<not> holds env c))"
proof -
  have wf: "wf_cons c" using assms by (auto simp: uz_cons_def)
  obtain n where n: "tvpi_negate_cons blk c = Inr n" "wf_cons n" "\<And>env. holds env n \<longleftrightarrow> \<not> holds env c"
    using negate_cons_complement [OF wf] by blast
  have "c_var1 n = c_var1 c" "c_coeff n = map_option uminus (c_coeff c)" "the (c_cst n) = - the (c_cst c)"
    using n(1) unfolding negate_cons_Inr [OF wf] by auto
  then have "IS_VAR (c_var1 n) \<longrightarrow> \<bar>the (c_coeff n)\<bar> = 1" "the (c_cst n) \<in> \<int>"
    using wf assms by (auto simp: uz_cons_def wf_cons_def wf_term_def)
  then show ?thesis using n convert_uq_to_uz_exact [OF n(2)] by (auto simp: tvpi_uz_negate_cons_def)
qed

text \<open>\<^verbatim>\<open>x0 + x1 <= 1\<close> and \<^verbatim>\<open>-x0 + x1 <= 0\<close>: the resolvent on \<^verbatim>\<open>x0\<close> is \<^verbatim>\<open>x1 <= 1/2\<close>.\<close>

definition uz_ex1 :: tvpi_cons where
  "uz_ex1 = \<lparr>c_sgn = 1, c_op = LEQ, c_var0 = 0, c_var1 = 1, c_coeff = Some 1, c_cst = Some 1, c_fst = None\<rparr>"

definition uz_ex2 :: tvpi_cons where
  "uz_ex2 = \<lparr>c_sgn = - 1, c_op = LEQ, c_var0 = 0, c_var1 = 1, c_coeff = Some 1, c_cst = Some 0, c_fst = None\<rparr>"

lemma denref_half: "denref (1 / 2) = 2"
  by code_simp

text \<open>
  C34: Resolution in UTVPI(Z) of two proper constraints can fail the assertion that the constant is an
  integer: \<^verbatim>\<open>x0 + x1 <= 1\<close> and \<^verbatim>\<open>-x0 + x1 <= 0\<close> resolve to \<^verbatim>\<open>x1 <= 1/2\<close> before rounding.
\<close>

theorem uz_resolve_cons_fails:
  "uz_cons uz_ex1 \<and> uz_cons uz_ex2 \<and> opposite_in uz_ex1 uz_ex2 0
   \<and> tvpi_uz_resolve_cons blk0 uz_ex1 uz_ex2 0 = Inl Assert_Failed"
proof -
  have "opposite_in uz_ex1 uz_ex2 0"
    by (auto simp: uz_ex1_def uz_ex2_def opposite_in_def coeff_of_def tvpi_defs intro!: exI [of _ 1])
  moreover have "uz_cons uz_ex1" "uz_cons uz_ex2"
    by (simp_all add: uz_ex1_def uz_ex2_def uz_cons_def tvpi_defs)
  moreover have "tvpi_uz_resolve_cons blk0 uz_ex1 uz_ex2 0 = Inl Assert_Failed"
    by (simp add: tvpi_uz_resolve_cons_def tvpi_resolve_cons_def uz_ex1_def uz_ex2_def c_var_def IS_VAR_def
        new_cons_def blk0_def Let_def resolve_combine_def resolve_same_coeff_def resolve_other_coeff_def
        resolve_normalize_def mpq_sgn_def tvpi_convert_uq_to_uz_def denref_half rassert_def)
  ultimately show ?thesis by blast
qed

section \<open>Instances\<close>

text \<open>\<^verbatim>\<open>x0 + (3/2)*x1 <= 5/2\<close> and \<^verbatim>\<open>-x0 + x1 <= 0\<close>.\<close>

definition z_ex1 :: tvpi_cons where
  "z_ex1 = \<lparr>c_sgn = 1, c_op = LEQ, c_var0 = 0, c_var1 = 1, c_coeff = Some (3 / 2), c_cst = Some (5 / 2), c_fst = None\<rparr>"

lemma denref_3_half: "denref (3 / 2) = 2"
  by code_simp

lemma z_examples: "z_cons z_ex1" "z_cons uz_ex2" "opposite_in z_ex1 uz_ex2 0" "wf_cons z_ex1" "uz_cons uz_ex1" "wf_cons uz_ex1"
proof -
  have "denref 1 = 1" by (simp add: denref_def)
  then show "z_cons z_ex1" "z_cons uz_ex2" "opposite_in z_ex1 uz_ex2 0" "wf_cons z_ex1" "uz_cons uz_ex1" "wf_cons uz_ex1"
    by (auto simp: z_ex1_def uz_ex1_def uz_ex2_def z_cons_def uz_cons_def cons_den_def denref_3_half tvpi_defs opposite_in_def
        coeff_of_def intro!: exI [of _ 1])
qed

lemma convert_q_to_z_exact_witness:
  "\<exists>r. tvpi_convert_q_to_z z_ex1 = Inr r \<and> wf_cons r \<and> c_op r = LEQ \<and> cons_den r = cons_den z_ex1
     \<and> of_int (cons_den r) * the (c_cst r) \<in> \<int>
     \<and> (\<forall>env. int_env env \<longrightarrow> (holds env r \<longleftrightarrow> holds env z_ex1))"
  by (rule convert_q_to_z_exact [OF z_examples(4)]) (simp add: z_ex1_def)

lemma z_negate_cons_complement_witness:
  "\<exists>r. tvpi_z_negate_cons blk0 z_ex1 = Inr r \<and> z_cons r
     \<and> (\<forall>env. int_env env \<longrightarrow> (holds env r \<longleftrightarrow> \<not> holds env z_ex1))"
  by (rule z_negate_cons_complement) (rule z_examples)

lemma z_resolve_cons_sound_witness:
  "\<exists>r. tvpi_z_resolve_cons blk0 z_ex1 uz_ex2 0 = Inr r \<and> z_cons r \<and> coeff_of r 0 = 0
     \<and> (\<forall>env. int_env env \<longrightarrow> holds env z_ex1 \<longrightarrow> holds env uz_ex2 \<longrightarrow> holds env r)"
  by (rule z_resolve_cons_sound) (rule z_examples)+

lemma convert_uq_to_uz_exact_witness:
  "if the (c_cst uz_ex1) \<in> \<int>
    then \<exists>r. tvpi_convert_uq_to_uz uz_ex1 = Inr r \<and> uz_cons r \<and> c_op r = LEQ
       \<and> (\<forall>env. int_env env \<longrightarrow> (holds env r \<longleftrightarrow> holds env uz_ex1))
    else tvpi_convert_uq_to_uz uz_ex1 = Inl Assert_Failed"
  by (rule convert_uq_to_uz_exact [OF z_examples(6)]) (simp add: uz_ex1_def)

lemma uz_negate_cons_complement_witness:
  "\<exists>r. tvpi_uz_negate_cons blk0 uz_ex1 = Inr r \<and> uz_cons r \<and> c_op r = LEQ
     \<and> (\<forall>env. int_env env \<longrightarrow> (holds env r \<longleftrightarrow> \<not> holds env uz_ex1))"
  by (rule uz_negate_cons_complement) (rule z_examples)

end
