(* ===== verification/Cudd_Node.thy ===== *)
theory Cudd_Node
  imports Prelude Complex_Main
begin

unbundle bit_operations_syntax

text \<open>
  The data of the decision-diagram package under the LDD library
  (\<^verbatim>\<open>src/ahorn/extern/ldd/cudd-2.4.2/cudd/cudd.h\<close>, \<^verbatim>\<open>cuddInt.h\<close>): pointers with a complement bit,
  nodes, unique subtables, the computed table and the manager, and the macros that read and update
  them.  The configuration is the one with 32-bit pointers: half words, and so reference counts and
  indices, have 16 bits, counts saturate, \<^verbatim>\<open>unsigned long\<close> and \<^verbatim>\<open>ptruint\<close> have 32 bits and a node 16
  bytes (the \<^verbatim>\<open>#else\<close> branches of \<^verbatim>\<open>SIZEOF_VOID_P == 8 && SIZEOF_INT == 4\<close>; with 64-bit pointers
  \<^verbatim>\<open>cuddSatInc\<close> and \<^verbatim>\<open>cuddSatDec\<close> are plain increments of 32-bit counts that wrap, and nothing here
  speaks of that configuration).  A pointer is its 32-bit value.  The collision list of a subtable slot, linked through
  \<^verbatim>\<open>next\<close> and closed by the sentinel, is a list of pointers, and so is the free list.  What the
  environment decides, the addresses \<^verbatim>\<open>malloc\<close> returns and the addresses of functions, is kept in
  the manager.
\<close>

section \<open>Pointers\<close>

type_synonym ptr = "32 word"

definition Cudd_Regular :: "ptr \<Rightarrow> ptr" where
  "Cudd_Regular p = p AND NOT 1"

definition Cudd_Not :: "ptr \<Rightarrow> ptr" where
  "Cudd_Not p = p XOR 1"

definition Cudd_NotCond :: "ptr \<Rightarrow> bool \<Rightarrow> ptr" where
  "Cudd_NotCond p c = p XOR (if c then 1 else 0)"

definition Cudd_IsComplement :: "ptr \<Rightarrow> bool" where
  "Cudd_IsComplement p \<longleftrightarrow> p AND 1 \<noteq> 0"

lemma Cudd_IsComplement_bit: "Cudd_IsComplement p \<longleftrightarrow> bit p 0"
  by (simp add: Cudd_IsComplement_def and_one_eq bit_0 mod2_eq_if)

lemma Cudd_Not_Not [simp]: "Cudd_Not (Cudd_Not p) = p"
  by (rule bit_word_eqI) (auto simp: Cudd_Not_def bit_simps)

lemma Cudd_Regular_Not [simp]: "Cudd_Regular (Cudd_Not p) = Cudd_Regular p"
  by (rule bit_word_eqI) (auto simp: Cudd_Regular_def Cudd_Not_def bit_simps)

lemma Cudd_Regular_Regular [simp]: "Cudd_Regular (Cudd_Regular p) = Cudd_Regular p"
  by (simp add: Cudd_Regular_def)

lemma Cudd_IsComplement_Not [simp]: "Cudd_IsComplement (Cudd_Not p) \<longleftrightarrow> \<not> Cudd_IsComplement p"
  by (simp add: Cudd_IsComplement_bit Cudd_Not_def bit_simps)

lemma Cudd_IsComplement_Regular [simp]: "\<not> Cudd_IsComplement (Cudd_Regular p)"
  by (simp add: Cudd_IsComplement_bit Cudd_Regular_def bit_simps)

lemma Cudd_Regular_id [simp]: "\<not> Cudd_IsComplement p \<Longrightarrow> Cudd_Regular p = p"
  by (rule bit_word_eqI) (auto simp: Cudd_IsComplement_bit Cudd_Regular_def bit_simps not_less intro: gr0I)

lemma Cudd_Regular_complement: "Cudd_IsComplement p \<Longrightarrow> Cudd_Regular p = Cudd_Not p"
  by (rule bit_word_eqI) (auto simp: Cudd_IsComplement_bit Cudd_Regular_def Cudd_Not_def bit_simps)

lemma Cudd_NotCond_simps [simp]: "Cudd_NotCond p True = Cudd_Not p" "Cudd_NotCond p False = p"
  by (simp_all add: Cudd_NotCond_def Cudd_Not_def)

lemma Cudd_Not_neq [simp]: "Cudd_Not p \<noteq> p" "p \<noteq> Cudd_Not p"
  using Cudd_IsComplement_Not [of p] by metis+

lemma Cudd_Not_inject [simp]: "Cudd_Not p = Cudd_Not q \<longleftrightarrow> p = q"
  using Cudd_Not_Not by metis

lemma Cudd_Regular_eq_iff: "Cudd_Regular p = Cudd_Regular q \<longleftrightarrow> p = q \<or> p = Cudd_Not q"
  using Cudd_Regular_complement [of p] Cudd_Regular_complement [of q] Cudd_Regular_id [of p] Cudd_Regular_id [of q]
    Cudd_Not_Not Cudd_Regular_Not by metis

section \<open>Nodes and tables\<close>

text \<open>
  \<^verbatim>\<open>index\<close> and \<^verbatim>\<open>ref\<close> are half words; the reference count saturates and its width matters.  An
  index is a natural number; the indices of a manager are below \<^verbatim>\<open>CUDD_CONST_INDEX\<close>, so that they fit.
  The kids of a constant node are not used.
\<close>

record DdNode =
  n_index :: nat
  n_ref :: "16 word"
  n_T :: ptr
  n_E :: ptr

definition CUDD_CONST_INDEX :: nat where
  "CUDD_CONST_INDEX = 65535"

definition DD_MAXREF :: "16 word" where
  "DD_MAXREF = - 1"

definition cuddIsConstant :: "DdNode \<Rightarrow> bool" where
  "cuddIsConstant n \<longleftrightarrow> n_index n = CUDD_CONST_INDEX"

definition cuddSatInc :: "16 word \<Rightarrow> 16 word" where
  "cuddSatInc x = x + (if x \<noteq> DD_MAXREF then 1 else 0)"

definition cuddSatDec :: "16 word \<Rightarrow> 16 word" where
  "cuddSatDec x = x - (if x \<noteq> DD_MAXREF then 1 else 0)"

record DdSubtable =
  st_nodelist :: "ptr list list"
  st_shift :: nat
  st_slots :: "32 word"
  st_keys :: "32 word"
  st_maxKeys :: "32 word"
  st_dead :: "32 word"

record DdCache =
  ce_f :: ptr
  ce_g :: ptr
  ce_h :: "32 word"
  ce_data :: ptr

text \<open>The operations whose address tags an entry of the computed table.\<close>

datatype op_name = Op_Ldd_And | Op_Ldd_Xor | Op_bddAnd | Op_bddXor | Op_bddIntersect | Op_bddLeq

datatype Cudd_ErrorType =
    CUDD_NO_ERROR | CUDD_MEMORY_OUT | CUDD_TOO_MANY_NODES | CUDD_MAX_MEM_EXCEEDED | CUDD_INVALID_ARG
  | CUDD_INTERNAL_ERROR

text \<open>
  The fields the operations of this development use.  Counters kept for statistics only are left
  out; double counters are rationals; \<^verbatim>\<open>stash_null\<close> says whether the memory reserve is gone.
\<close>

record DdManager =
  heap :: "ptr \<Rightarrow> DdNode option"
  dd_one :: ptr
  dd_size :: nat
  dd_perm :: "nat list"
  dd_vars :: "ptr list"
  subtables :: "DdSubtable list"
  dd_slots :: "32 word"
  dd_keys :: "32 word"
  dd_dead :: "32 word"
  constants_dead :: "32 word"
  dd_keysZ :: "32 word"
  dd_deadZ :: "32 word"
  maxLive :: "32 word"
  peakLiveNodes :: "32 word"
  minDead :: "32 word"
  gcFrac :: rat
  looseUpTo :: "32 word"
  gcEnabled :: bool
  autoDyn :: bool
  nextDyn :: "32 word"
  countDead :: "32 word"
  reordered :: int
  dd_cache :: "DdCache list"
  cacheSlots :: "32 word"
  maxCacheHard :: "32 word"
  cacheShift :: nat
  cacheSlack :: int
  cacheHits :: nat
  cacheMisses :: rat
  minHit :: rat
  nextFree :: "ptr list"
  stash_null :: bool
  memused :: "32 word"
  maxmem :: "32 word"
  maxmemhard :: "32 word"
  errorCode :: Cudd_ErrorType
  fn_addr :: "op_name \<Rightarrow> 32 word"
  malloc_addr :: "nat \<Rightarrow> ptr"
  malloc_count :: nat

section \<open>Hash functions\<close>

definition DD_P1 :: "32 word" where "DD_P1 = 12582917"
definition DD_P2 :: "32 word" where "DD_P2 = 4256249"

definition ddHash :: "ptr \<Rightarrow> ptr \<Rightarrow> nat \<Rightarrow> nat" where
  "ddHash f g s = unat (drop_bit s ((f * DD_P1 + g) * DD_P2))"

definition ddCHash2 :: "32 word \<Rightarrow> ptr \<Rightarrow> ptr \<Rightarrow> nat \<Rightarrow> nat" where
  "ddCHash2 h f g s = unat (drop_bit s (((f + h) * DD_P1 + g) * DD_P2))"

definition ddMin :: "'a::linorder \<Rightarrow> 'a \<Rightarrow> 'a" where
  "ddMin x y = (if y < x then y else x)"

section \<open>Reading and updating nodes\<close>

definition node :: "DdManager \<Rightarrow> ptr \<Rightarrow> DdNode res" where
  "node s p = deref (heap s p)"

definition set_node :: "DdManager \<Rightarrow> ptr \<Rightarrow> DdNode \<Rightarrow> DdManager" where
  "set_node s p n = s\<lparr>heap := (heap s)(p \<mapsto> n)\<rparr>"

definition cuddT :: "DdManager \<Rightarrow> ptr \<Rightarrow> ptr res" where
  "cuddT s p = rbind (node s p) (\<lambda>n. Inr (n_T n))"

definition cuddE :: "DdManager \<Rightarrow> ptr \<Rightarrow> ptr res" where
  "cuddE s p = rbind (node s p) (\<lambda>n. Inr (n_E n))"

definition DD_ONE :: "DdManager \<Rightarrow> ptr" where
  "DD_ONE s = dd_one s"

definition cuddRef :: "DdManager \<Rightarrow> ptr \<Rightarrow> DdManager res" where
  "cuddRef s p = rbind (node s (Cudd_Regular p)) (\<lambda>n.
     Inr (set_node s (Cudd_Regular p) (n\<lparr>n_ref := cuddSatInc (n_ref n)\<rparr>)))"

definition cuddDeref :: "DdManager \<Rightarrow> ptr \<Rightarrow> DdManager res" where
  "cuddDeref s p = rbind (node s (Cudd_Regular p)) (\<lambda>n.
     Inr (set_node s (Cudd_Regular p) (n\<lparr>n_ref := cuddSatDec (n_ref n)\<rparr>)))"

text \<open>The level of an index: the position of its variable in the order.\<close>

definition perm_at :: "DdManager \<Rightarrow> nat \<Rightarrow> nat res" where
  "perm_at s i = idx (dd_perm s) (int i)"

definition update_subtable :: "DdManager \<Rightarrow> nat \<Rightarrow> (DdSubtable \<Rightarrow> DdSubtable) \<Rightarrow> DdManager res" where
  "update_subtable s lev f =
     rbind (idx (subtables s) (int lev)) (\<lambda>t. Inr (s\<lparr>subtables := (subtables s)[lev := f t]\<rparr>))"

text \<open>The next call of \<^verbatim>\<open>ALLOC\<close>: its address, null when it fails.\<close>

definition ALLOC :: "DdManager \<Rightarrow> ptr \<times> DdManager" where
  "ALLOC s = (malloc_addr s (malloc_count s), s\<lparr>malloc_count := Suc (malloc_count s)\<rparr>)"

end
