(* ===== verification/Cudd_Ref.thy ===== *)
theory Cudd_Ref
  imports Cudd_Node
begin

text \<open>
  Reference counting (\<^verbatim>\<open>cuddRef.c\<close>): the iterative dereference of a diagram, which kills the
  nodes whose count drops to zero and goes on with their children, and the reclaim of a dead node,
  which brings its children back.  Both run a loop over an explicit stack; the stack is a list and
  the loop a partial function, whose termination is proved together with its effect.
\<close>

section \<open>The functions\<close>

partial_function (option) deref_loop :: "DdManager \<Rightarrow> ptr \<Rightarrow> ptr list \<Rightarrow> DdManager res option" where
  "deref_loop s N stack =
     (case node s N of
        Inl e \<Rightarrow> Some (Inl e)
      | Inr n \<Rightarrow>
          if n_ref n = 1 then
            (let s = (set_node s N (n\<lparr>n_ref := 0\<rparr>))\<lparr>dd_dead := dd_dead s + 1\<rparr>
             in case perm_at s (n_index n) of
                  Inl e \<Rightarrow> Some (Inl e)
                | Inr ord \<Rightarrow>
                    (case update_subtable s ord (\<lambda>t. t\<lparr>st_dead := st_dead t + 1\<rparr>) of
                       Inl e \<Rightarrow> Some (Inl e)
                     | Inr s \<Rightarrow> deref_loop s (n_T n) (Cudd_Regular (n_E n) # stack)))
          else
            (let s = set_node s N (n\<lparr>n_ref := cuddSatDec (n_ref n)\<rparr>)
             in case stack of
                  [] \<Rightarrow> Some (Inr s)
                | M # stack \<Rightarrow> deref_loop s M stack))"

definition note_peak :: "DdManager \<Rightarrow> DdManager" where
  "note_peak s =
     (let live = dd_keys s - dd_dead s
      in if peakLiveNodes s < live then s\<lparr>peakLiveNodes := live\<rparr> else s)"

definition Cudd_IterDerefBdd :: "DdManager \<Rightarrow> ptr \<Rightarrow> DdManager res" where
  "Cudd_IterDerefBdd s n =
     (case deref_loop (note_peak s) (Cudd_Regular n) [] of None \<Rightarrow> Inl Diverges | Some r \<Rightarrow> r)"

partial_function (option) reclaim_loop :: "DdManager \<Rightarrow> ptr \<Rightarrow> ptr list \<Rightarrow> DdManager res option" where
  "reclaim_loop s N stack =
     (case node s N of
        Inl e \<Rightarrow> Some (Inl e)
      | Inr n \<Rightarrow>
          if n_ref n = 0 then
            (let s = (set_node s N (n\<lparr>n_ref := 1\<rparr>))\<lparr>dd_dead := dd_dead s - 1\<rparr>
             in if cuddIsConstant n then
                  (let s = s\<lparr>constants_dead := constants_dead s - 1\<rparr>
                   in case stack of [] \<Rightarrow> Some (Inr s) | M # stack \<Rightarrow> reclaim_loop s M stack)
                else
                  (case perm_at s (n_index n) of
                     Inl e \<Rightarrow> Some (Inl e)
                   | Inr ord \<Rightarrow>
                       (case update_subtable s ord (\<lambda>t. t\<lparr>st_dead := st_dead t - 1\<rparr>) of
                          Inl e \<Rightarrow> Some (Inl e)
                        | Inr s \<Rightarrow> reclaim_loop s (n_T n) (Cudd_Regular (n_E n) # stack))))
          else
            (let s = set_node s N (n\<lparr>n_ref := cuddSatInc (n_ref n)\<rparr>)
             in case stack of
                  [] \<Rightarrow> Some (Inr s)
                | M # stack \<Rightarrow> reclaim_loop s M stack))"

definition cuddReclaim :: "DdManager \<Rightarrow> ptr \<Rightarrow> DdManager res" where
  "cuddReclaim s n =
     rbind (case reclaim_loop s (Cudd_Regular n) [] of None \<Rightarrow> Inl Diverges | Some r \<Rightarrow> r) (\<lambda>s.
       cuddDeref s n)"

declare deref_loop.simps [code]
declare reclaim_loop.simps [code]

section \<open>What reference counting keeps\<close>

text \<open>
  Two managers that differ in reference counts and in the counters of dead nodes only.
\<close>

definition node_shape :: "DdNode \<Rightarrow> nat \<times> ptr \<times> ptr" where
  "node_shape n = (n_index n, n_T n, n_E n)"

definition shape :: "DdManager \<Rightarrow> ptr \<Rightarrow> (nat \<times> ptr \<times> ptr) option" where
  "shape s q = map_option node_shape (heap s q)"

definition forget_refs :: "DdManager \<Rightarrow> DdManager" where
  "forget_refs s = s\<lparr>heap := (\<lambda>_. None), dd_dead := 0, peakLiveNodes := 0, constants_dead := 0,
     subtables := map (\<lambda>t. t\<lparr>st_dead := 0\<rparr>) (subtables s)\<rparr>"

definition refs_only :: "DdManager \<Rightarrow> DdManager \<Rightarrow> bool" where
  "refs_only s s' \<longleftrightarrow> shape s' = shape s \<and> forget_refs s' = forget_refs s"

lemma refs_only_refl [simp]: "refs_only s s"
  by (simp add: refs_only_def)

lemma refs_only_trans [trans]: "refs_only s s1 \<Longrightarrow> refs_only s1 s2 \<Longrightarrow> refs_only s s2"
  by (simp add: refs_only_def)

lemma forget_refs_sel:
  assumes "forget_refs s' = forget_refs s"
  shows
    "dd_one s' = dd_one s"
    "dd_size s' = dd_size s"
    "dd_perm s' = dd_perm s"
    "dd_vars s' = dd_vars s"
    "dd_keys s' = dd_keys s"
    "dd_slots s' = dd_slots s"
    "dd_cache s' = dd_cache s"
    "cacheShift s' = cacheShift s"
    "nextFree s' = nextFree s"
    "gcEnabled s' = gcEnabled s"
    "autoDyn s' = autoDyn s"
    "stash_null s' = stash_null s"
    "memused s' = memused s"
    "maxmem s' = maxmem s"
    "maxmemhard s' = maxmemhard s"
    "fn_addr s' = fn_addr s"
    "malloc_addr s' = malloc_addr s"
    "malloc_count s' = malloc_count s"
    "reordered s' = reordered s"
    "maxLive s' = maxLive s"
    "errorCode s' = errorCode s"
    "cacheSlack s' = cacheSlack s"
    "dd_keysZ s' = dd_keysZ s"
    "dd_deadZ s' = dd_deadZ s"
    "gcFrac s' = gcFrac s"
    "minDead s' = minDead s"
    "looseUpTo s' = looseUpTo s"
    "cacheHits s' = cacheHits s"
    "cacheMisses s' = cacheMisses s"
    "minHit s' = minHit s"
    "cacheSlots s' = cacheSlots s"
    "maxCacheHard s' = maxCacheHard s"
    "nextDyn s' = nextDyn s"
    "countDead s' = countDead s"
    "map (\<lambda>t. t\<lparr>st_dead := 0\<rparr>) (subtables s') = map (\<lambda>t. t\<lparr>st_dead := 0\<rparr>) (subtables s)"
  using arg_cong [OF assms, of subtables]
    arg_cong [OF assms, of dd_one] arg_cong [OF assms, of dd_size] arg_cong [OF assms, of dd_perm]
    arg_cong [OF assms, of dd_vars] arg_cong [OF assms, of dd_keys] arg_cong [OF assms, of dd_slots]
    arg_cong [OF assms, of dd_cache] arg_cong [OF assms, of cacheShift] arg_cong [OF assms, of
    nextFree] arg_cong [OF assms, of gcEnabled] arg_cong [OF assms, of autoDyn] arg_cong [OF assms,
    of stash_null] arg_cong [OF assms, of memused] arg_cong [OF assms, of maxmem] arg_cong [OF
    assms, of maxmemhard] arg_cong [OF assms, of fn_addr] arg_cong [OF assms, of malloc_addr]
    arg_cong [OF assms, of malloc_count] arg_cong [OF assms, of reordered] arg_cong [OF assms, of
    maxLive] arg_cong [OF assms, of errorCode] arg_cong [OF assms, of cacheSlack] arg_cong [OF
    assms, of dd_keysZ] arg_cong [OF assms, of dd_deadZ] arg_cong [OF assms, of gcFrac] arg_cong [OF
    assms, of minDead] arg_cong [OF assms, of looseUpTo] arg_cong [OF assms, of cacheHits] arg_cong
    [OF assms, of cacheMisses] arg_cong [OF assms, of minHit]
    arg_cong [OF assms, of cacheSlots] arg_cong [OF assms, of maxCacheHard] arg_cong [OF assms, of nextDyn]
    arg_cong [OF assms, of countDead]
  unfolding forget_refs_def by simp_all

lemmas refs_only_sel = forget_refs_sel [OF conjunct2 [OF refs_only_def [THEN iffD1]]]

lemma refs_only_subtables:
  assumes "refs_only s s'"
  shows "map (\<lambda>t. t\<lparr>st_dead := 0\<rparr>) (subtables s') = map (\<lambda>t. t\<lparr>st_dead := 0\<rparr>) (subtables s)"
    "length (subtables s') = length (subtables s)"
proof -
  show "map (\<lambda>t. t\<lparr>st_dead := 0\<rparr>) (subtables s') = map (\<lambda>t. t\<lparr>st_dead := 0\<rparr>) (subtables s)"
    by (rule forget_refs_sel [OF conjunct2 [OF assms [unfolded refs_only_def]]])
  then show "length (subtables s') = length (subtables s)" by (rule map_eq_imp_length_eq)
qed

lemma refs_only_shape: "refs_only s s' \<Longrightarrow> shape s' = shape s"
  by (simp add: refs_only_def)

lemma shape_SomeD: "shape s q = Some (i, t, e) \<Longrightarrow> \<exists>n. heap s q = Some n \<and> n_index n = i \<and> n_T n = t \<and> n_E n = e"
  by (auto simp: shape_def node_shape_def)

lemma shape_eq_None [simp]: "shape s q = None \<longleftrightarrow> heap s q = None"
  by (simp add: shape_def)

lemma shape_heap: "heap s q = Some n \<Longrightarrow> shape s q = Some (n_index n, n_T n, n_E n)"
  by (simp add: shape_def node_shape_def)

lemma shape_set_node [simp]: "shape (set_node s p n) = (shape s)(p \<mapsto> node_shape n)"
  by (auto simp: shape_def set_node_def)

lemma shape_set_ref:
  "heap s p = Some n \<Longrightarrow> shape (set_node s p (n\<lparr>n_ref := r\<rparr>)) = shape s"
  by (rule ext) (simp add: shape_def set_node_def node_shape_def)

lemma refs_only_set_ref: "heap s p = Some n \<Longrightarrow> refs_only s (set_node s p (n\<lparr>n_ref := r\<rparr>))"
  by (simp add: refs_only_def shape_set_ref del: shape_set_node) (simp add: forget_refs_def set_node_def)

lemma shape_cong: "heap s' = heap s \<Longrightarrow> shape s' = shape s"
  by (simp add: shape_def fun_eq_iff)

lemma refs_only_update_dead:
  assumes "update_subtable s l (\<lambda>t. t\<lparr>st_dead := f t\<rparr>) = Inr s'"
  shows "refs_only s s'"
proof -
  have l: "l < length (subtables s)" and s': "s' = s\<lparr>subtables := (subtables s)[l := (subtables s ! l)\<lparr>st_dead := f (subtables s ! l)\<rparr>]\<rparr>"
    using assms by (auto simp: update_subtable_def rbind_eq_Inr idx_eq_Inr)
  show ?thesis unfolding refs_only_def
  proof
    show "shape s' = shape s" by (rule shape_cong) (simp add: s')
    show "forget_refs s' = forget_refs s"
      using l by (simp add: s' forget_refs_def map_update list_update_same_conv)
  qed
qed

lemma refs_only_counters:
  "refs_only s (s\<lparr>dd_dead := d\<rparr>)" "refs_only s (s\<lparr>peakLiveNodes := d\<rparr>)" "refs_only s (s\<lparr>constants_dead := d\<rparr>)"
  unfolding refs_only_def by (safe intro!: shape_cong, simp_all add: forget_refs_def)

section \<open>Counted references\<close>

definition live :: "DdManager \<Rightarrow> ptr set" where
  "live s = {p. \<exists>n. heap s p = Some n \<and> n_ref n \<noteq> 0}"

definition kid_count :: "DdManager \<Rightarrow> ptr \<Rightarrow> ptr \<Rightarrow> nat" where
  "kid_count s p q = (case shape s p of
       None \<Rightarrow> 0
     | Some (i, t, e) \<Rightarrow> if i = CUDD_CONST_INDEX then 0
         else of_bool (t = q) + of_bool (Cudd_Regular e = q))"

definition edges :: "DdManager \<Rightarrow> ptr set \<Rightarrow> ptr \<Rightarrow> nat" where
  "edges s L q = (\<Sum>p \<in> L. kid_count s p q)"

text \<open>
  The reference count of a node is saturated or at least the number of edges from live nodes and
  from the nodes of \<^verbatim>\<open>F\<close> (fresh results nobody refers to yet), plus \<^verbatim>\<open>X\<close> references held outside.
\<close>

definition ref_ok :: "DdManager \<Rightarrow> ptr set \<Rightarrow> (ptr \<Rightarrow> nat) \<Rightarrow> bool" where
  "ref_ok s F X \<longleftrightarrow> (\<forall>q n. heap s q = Some n \<longrightarrow>
     n_ref n = DD_MAXREF \<or> edges s (live s \<union> F) q + X q \<le> unat (n_ref n))"

definition heap_ok :: "DdManager \<Rightarrow> bool" where
  "heap_ok s \<longleftrightarrow> finite (dom (heap s))
     \<and> (\<forall>p i t e. shape s p = Some (i, t, e) \<longrightarrow> i \<noteq> CUDD_CONST_INDEX \<longrightarrow>
          heap s t \<noteq> None \<and> heap s (Cudd_Regular e) \<noteq> None
          \<and> i < length (dd_perm s) \<and> dd_perm s ! i < length (subtables s))"

lemma finite_live: "heap_ok s \<Longrightarrow> finite (live s)"
  by (rule finite_subset [of _ "dom (heap s)"]) (auto simp: live_def heap_ok_def)

lemma heap_ok_refs_only: "refs_only s s' \<Longrightarrow> heap_ok s \<Longrightarrow> heap_ok s'"
proof -
  assume r: "refs_only s s'" and h: "heap_ok s"
  have d: "heap s' q = None \<longleftrightarrow> heap s q = None" for q using r by (metis refs_only_shape shape_eq_None)
  then have "dom (heap s') = dom (heap s)" by (simp add: dom_def)
  moreover have "length (subtables s') = length (subtables s)"
    by (rule refs_only_subtables [OF r])
  ultimately show ?thesis using h d by (simp add: heap_ok_def refs_only_shape [OF r] refs_only_sel(3) [OF r])
qed

lemma kid_count_shape: "shape s' = shape s \<Longrightarrow> kid_count s' = kid_count s"
  by (simp add: kid_count_def fun_eq_iff)

lemma edges_shape: "shape s' = shape s \<Longrightarrow> edges s' = edges s"
  unfolding edges_def by (simp add: kid_count_shape [of s' s])

lemma edges_remove: "finite L \<Longrightarrow> N \<in> L \<Longrightarrow> edges s (L - {N}) q + kid_count s N q = edges s L q"
  unfolding edges_def by (metis add.commute sum.remove)

lemma edges_insert: "finite L \<Longrightarrow> edges s (insert N L) q \<le> edges s L q + kid_count s N q"
  unfolding edges_def by (cases "N \<in> L") (simp_all add: insert_absorb)

lemma edges_mono: "finite L' \<Longrightarrow> L \<subseteq> L' \<Longrightarrow> edges s L q \<le> edges s L' q"
  unfolding edges_def by (rule sum_mono2) auto

lemma ref_ok_weaken: "ref_ok s F X \<Longrightarrow> heap_ok s \<Longrightarrow> finite F \<Longrightarrow> F' \<subseteq> F \<Longrightarrow> (\<And>q. X' q \<le> X q) \<Longrightarrow> ref_ok s F' X'"
  unfolding ref_ok_def by (meson add_mono edges_mono finite_UnI finite_live le_trans sup_mono subset_refl)

lemma kid_count_le: "shape s p = Some (i, t, e) \<Longrightarrow> kid_count s p q \<le> of_bool (t = q) + of_bool (Cudd_Regular e = q)"
  by (simp add: kid_count_def)

lemma live_set_ref:
  "heap s N = Some n \<Longrightarrow> live (set_node s N (n\<lparr>n_ref := r\<rparr>)) = (if r = 0 then live s - {N} else insert N (live s))"
  by (auto simp: live_def set_node_def)

lemma unat_SatInc:
  assumes "x \<noteq> DD_MAXREF"
  shows "unat (cuddSatInc x) = Suc (unat x)"
proof -
  have "1 + x \<noteq> 0"
  proof
    assume "1 + x = 0"
    then have "- 1 = x" by (rule minus_unique)
    then show False using assms by (simp add: DD_MAXREF_def)
  qed
  then show ?thesis using assms unatSuc [of x] by (simp add: cuddSatInc_def add.commute)
qed

lemma SatInc_MAX [simp]: "cuddSatInc DD_MAXREF = DD_MAXREF" "cuddSatDec DD_MAXREF = DD_MAXREF"
  by (simp_all add: cuddSatInc_def cuddSatDec_def)

lemma SatInc_nonzero: "cuddSatInc x \<noteq> 0"
  using unat_SatInc [of x] by (cases "x = DD_MAXREF") (auto simp: DD_MAXREF_def cuddSatInc_def)

lemma unat_SatDec: "x \<noteq> DD_MAXREF \<Longrightarrow> x \<noteq> 0 \<Longrightarrow> unat (cuddSatDec x) = unat x - 1"
  by (simp add: cuddSatDec_def unat_minus_one)

text \<open>
  Killing a node: its edges go, and its children are waiting to be dereferenced.
\<close>

lemma ref_ok_kill:
  assumes ok: "heap_ok s" "ref_ok s {} (\<lambda>q. X q + count_list (N # stk) q)"
    and n: "heap s N = Some n" "n_ref n = 1" "n_index n \<noteq> CUDD_CONST_INDEX"
  shows "ref_ok (set_node s N (n\<lparr>n_ref := 0\<rparr>)) {} (\<lambda>q. X q + count_list (n_T n # Cudd_Regular (n_E n) # stk) q)"
  unfolding ref_ok_def
proof (intro allI impI)
  let ?s = "set_node s N (n\<lparr>n_ref := 0\<rparr>)"
  have fin: "finite (live s)" by (rule finite_live [OF ok(1)])
  have N: "N \<in> live s" using n by (auto simp: live_def)
  have kids: "kid_count s N q = of_bool (n_T n = q) + of_bool (Cudd_Regular (n_E n) = q)" for q
    using n by (simp add: kid_count_def shape_heap)
  have count: "count_list (n_T n # Cudd_Regular (n_E n) # stk) q = kid_count s N q + count_list stk q" for q
    by (auto simp: kids)
  have one: "edges s (live s) N + X N + 1 + count_list stk N \<le> 1"
    using ok(2) [unfolded ref_ok_def, rule_format, OF n(1)] n(2) by (simp add: DD_MAXREF_def)
  fix q m assume q: "heap ?s q = Some m"
  have e: "edges ?s (live ?s \<union> {}) q + kid_count s N q = edges s (live s) q"
    using edges_remove [OF fin N] by (simp add: live_set_ref [OF n(1)] edges_shape [OF shape_set_ref [OF n(1)]])
  show "n_ref m = DD_MAXREF \<or> edges ?s (live ?s \<union> {}) q + (X q + count_list (n_T n # Cudd_Regular (n_E n) # stk) q) \<le> unat (n_ref m)"
  proof (cases "q = N")
    case True
    then show ?thesis using one e unfolding count True by linarith
  next
    case False
    then have "heap s q = Some m" using q by (simp add: set_node_def)
    then have "n_ref m = DD_MAXREF \<or> edges s (live s) q + (X q + count_list (N # stk) q) \<le> unat (n_ref m)"
      using ok(2) by (auto simp: ref_ok_def)
    then show ?thesis using e False unfolding count by auto
  qed
qed

lemma ref_ok_dec:
  assumes ok: "heap_ok s" "ref_ok s F (\<lambda>q. X q + of_bool (q = N))" and F: "finite F"
    and n: "heap s N = Some n" and F': "F' \<subseteq> insert N F"
  shows "ref_ok (set_node s N (n\<lparr>n_ref := cuddSatDec (n_ref n)\<rparr>)) F' X"
  unfolding ref_ok_def
proof (intro allI impI)
  let ?s = "set_node s N (n\<lparr>n_ref := cuddSatDec (n_ref n)\<rparr>)"
  have fin: "finite (live s)" by (rule finite_live [OF ok(1)])
  have N: "n_ref n = DD_MAXREF \<or> edges s (live s \<union> F) N + X N + 1 \<le> unat (n_ref n)"
    using ok(2) [unfolded ref_ok_def, rule_format, OF n] by simp
  then have "n_ref n \<noteq> 0" by (auto simp: DD_MAXREF_def)
  then have "N \<in> live s" using n by (auto simp: live_def)
  then have "live ?s \<union> F' \<subseteq> live s \<union> F" using F' by (auto simp: live_set_ref [OF n] split: if_splits)
  then have e: "edges ?s (live ?s \<union> F') q \<le> edges s (live s \<union> F) q" for q
    unfolding edges_shape [OF shape_set_ref [OF n]] by (rule edges_mono [OF finite_UnI [OF fin F]])
  fix q m assume q: "heap ?s q = Some m"
  show "n_ref m = DD_MAXREF \<or> edges ?s (live ?s \<union> F') q + X q \<le> unat (n_ref m)"
  proof (cases "q = N")
    case True
    then have m: "n_ref m = cuddSatDec (n_ref n)" using q by (auto simp: set_node_def)
    show ?thesis
    proof (cases "n_ref n = DD_MAXREF")
      case False
      then have "unat (n_ref m) = unat (n_ref n) - 1" unfolding m by (rule unat_SatDec) fact
      then show ?thesis using N False e [of N] unfolding True by linarith
    qed (simp add: m)
  next
    case False
    then have "heap s q = Some m" using q by (simp add: set_node_def)
    then have "n_ref m = DD_MAXREF \<or> edges s (live s \<union> F) q + X q \<le> unat (n_ref m)"
      using ok(2) False by (force simp: ref_ok_def)
    then show ?thesis using e [of q] by linarith
  qed
qed


definition countable_refs :: "DdManager \<Rightarrow> ptr set" where
  "countable_refs s = {q. \<exists>n. heap s q = Some n \<and> n_ref n \<noteq> 0 \<and> n_ref n \<noteq> DD_MAXREF}"

lemma finite_countable_refs: "heap_ok s \<Longrightarrow> finite (countable_refs s)"
  by (rule finite_subset [OF _ finite_live]) (auto simp: countable_refs_def live_def)

lemma update_subtable_ok: "l < length (subtables s) \<Longrightarrow> \<exists>s'. update_subtable s l f = Inr s' \<and> heap s' = heap s"
  by (simp add: update_subtable_def)

lemma heap_ok_cong:
  assumes "heap s' = heap s" "dd_perm s' = dd_perm s" "length (subtables s') = length (subtables s)"
  shows "heap_ok s' \<longleftrightarrow> heap_ok s"
  using assms shape_cong [OF assms(1)] by (simp add: heap_ok_def)

lemma ref_ok_cong:
  assumes "heap s' = heap s"
  shows "ref_ok s' = ref_ok s"
proof -
  have "edges s' = edges s" "live s' = live s"
    by (rule edges_shape [OF shape_cong [OF assms]]) (simp add: live_def assms)
  then show ?thesis by (intro ext) (simp add: ref_ok_def assms)
qed

lemma countable_refs_set_ref:
  "heap s N = Some n \<Longrightarrow> countable_refs (set_node s N (n\<lparr>n_ref := r\<rparr>)) =
     (if r = 0 \<or> r = DD_MAXREF then countable_refs s - {N} else insert N (countable_refs s))"
  by (auto simp: countable_refs_def set_node_def)

lemma countable_refs_dec:
  assumes "heap_ok s" "heap s N = Some n" "n_ref n \<noteq> 0" 
  shows "card (countable_refs (set_node s N (n\<lparr>n_ref := cuddSatDec (n_ref n)\<rparr>))) \<le> card (countable_refs s)"
proof (rule card_mono [OF finite_countable_refs [OF assms(1)]])
  show "countable_refs (set_node s N (n\<lparr>n_ref := cuddSatDec (n_ref n)\<rparr>)) \<subseteq> countable_refs s"
    using assms(2,3) by (cases "n_ref n = DD_MAXREF") (auto simp: countable_refs_def set_node_def split: if_splits)
qed

lemma deref_loop_ok:
  assumes "heap_ok s" "set (N # stk) \<subseteq> dom (heap s)" "ref_ok s {} (\<lambda>q. X q + count_list (N # stk) q)"
    and "\<forall>q n. heap s q = Some n \<longrightarrow> cuddIsConstant n \<longrightarrow> 0 < X q"
  shows "\<exists>s'. deref_loop s N stk = Some (Inr s') \<and> refs_only s s' \<and> ref_ok s' {} X"
  using assms
proof (induction "2 * card (countable_refs s) + length stk" arbitrary: s N stk rule: less_induct)
  case less
  obtain n where n: "heap s N = Some n" using less.prems(2) by auto
  show ?case
  proof (cases "n_ref n = 1")
    case True
    have "edges s (live s \<union> {}) N + (X N + count_list (N # stk) N) \<le> 1"
      using less.prems(3) [unfolded ref_ok_def, rule_format, OF n] True by (simp add: DD_MAXREF_def)
    then have "X N = 0" by simp
    then have nc: "n_index n \<noteq> CUDD_CONST_INDEX" using less.prems(4) [rule_format, OF n] by (auto simp: cuddIsConstant_def)
    let ?s1 = "set_node s N (n\<lparr>n_ref := 0\<rparr>)" and ?i = "n_index n"
    let ?s2 = "?s1\<lparr>dd_dead := dd_dead s + 1\<rparr>"
    have kids: "heap s (n_T n) \<noteq> None" "heap s (Cudd_Regular (n_E n)) \<noteq> None" "?i < length (dd_perm s)"
        "dd_perm s ! ?i < length (subtables s)"
      using less.prems(1) shape_heap [OF n] nc by (auto simp: heap_ok_def)
    have perm: "perm_at ?s2 ?i = Inr (dd_perm s ! ?i)" using kids by (simp add: perm_at_def set_node_def)
    obtain s3 where s3: "update_subtable ?s2 (dd_perm s ! ?i) (\<lambda>t. t\<lparr>st_dead := st_dead t + 1\<rparr>) = Inr s3" "heap s3 = heap ?s1"
      using update_subtable_ok [of "dd_perm s ! ?i" ?s2] kids(4) by (auto simp: set_node_def)
    have r3: "refs_only s s3"
      using refs_only_trans [OF refs_only_trans [OF refs_only_set_ref [OF n, of 0] refs_only_counters(1)] refs_only_update_dead [OF s3(1)]] .
    have h3: "heap_ok s3" by (rule heap_ok_refs_only [OF r3 less.prems(1)])
    have c3: "countable_refs s3 = countable_refs s - {N}"
      using s3(2) countable_refs_set_ref [OF n, of 0] by (simp add: countable_refs_def)
    have "N \<in> countable_refs s" using n True by (auto simp: countable_refs_def DD_MAXREF_def)
    then have card: "card (countable_refs s) = Suc (card (countable_refs s3))"
      unfolding c3 using card_Suc_Diff1 [OF finite_countable_refs [OF less.prems(1)]] by metis
    have d3: "dom (heap s3) = insert N (dom (heap s))" by (auto simp: s3(2) set_node_def)
    have ok3: "ref_ok s3 {} (\<lambda>q. X q + count_list (n_T n # Cudd_Regular (n_E n) # stk) q)"
      using ref_ok_kill [OF less.prems(1,3) n True nc] by (simp add: ref_ok_cong [OF s3(2)])
    have k3: "\<forall>q m. heap s3 q = Some m \<longrightarrow> cuddIsConstant m \<longrightarrow> 0 < X q"
      using less.prems(4) n by (auto simp: s3(2) set_node_def cuddIsConstant_def split: if_splits)
    obtain s' where s': "deref_loop s3 (n_T n) (Cudd_Regular (n_E n) # stk) = Some (Inr s')" "refs_only s3 s'" "ref_ok s' {} X"
      using less.hyps [OF _ h3 _ ok3 k3] card d3 kids less.prems(2) by auto
    have "deref_loop s N stk = Some (Inr s')"
      by (subst deref_loop.simps) (use n True perm s3(1) s'(1) in \<open>simp add: node_def Let_def\<close>)
    then show ?thesis using s' refs_only_trans [OF r3 s'(2)] by blast
  next
    case False
    let ?s1 = "set_node s N (n\<lparr>n_ref := cuddSatDec (n_ref n)\<rparr>)"
    have "n_ref n = DD_MAXREF \<or> edges s (live s \<union> {}) N + (X N + count_list (N # stk) N) \<le> unat (n_ref n)"
      using less.prems(3) [unfolded ref_ok_def, rule_format, OF n] .
    then have nz: "n_ref n \<noteq> 0" by (auto simp: DD_MAXREF_def)
    have r1: "refs_only s ?s1" by (rule refs_only_set_ref [OF n])
    have "ref_ok s {} (\<lambda>q. (X q + count_list stk q) + of_bool (q = N))"
      using less.prems(3) by (rule ref_ok_weaken [OF _ less.prems(1)]) auto
    then have ok1: "ref_ok ?s1 {} (\<lambda>q. X q + count_list stk q)"
      by (rule ref_ok_dec [OF less.prems(1) _ _ n]) auto
    show ?thesis
    proof (cases stk)
      case Nil
      have "deref_loop s N stk = Some (Inr ?s1)"
        by (subst deref_loop.simps) (use n False Nil in \<open>simp add: node_def Let_def\<close>)
      then show ?thesis using r1 ok1 Nil by auto
    next
      case (Cons M rest)
      have k1: "\<forall>q m. heap ?s1 q = Some m \<longrightarrow> cuddIsConstant m \<longrightarrow> 0 < X q"
        using less.prems(4) n by (auto simp: set_node_def cuddIsConstant_def split: if_splits)
      obtain s' where s': "deref_loop ?s1 M rest = Some (Inr s')" "refs_only ?s1 s'" "ref_ok s' {} X"
        using less.hyps [OF _ heap_ok_refs_only [OF r1 less.prems(1)] _ _ k1, of rest M]
          countable_refs_dec [OF less.prems(1) n nz] ok1 less.prems(2) Cons by (auto simp: set_node_def)
      have "deref_loop s N stk = Some (Inr s')"
        by (subst deref_loop.simps) (use n False Cons s'(1) in \<open>simp add: node_def Let_def\<close>)
      then show ?thesis using s' refs_only_trans [OF r1 s'(2)] by blast
    qed
  qed
qed


text \<open>
  Dereferencing a diagram terminates, whatever the sharing, never reads outside the tables, changes
  nothing but reference counts and the counters of dead nodes, and gives the reference back: every
  count still covers the edges from live nodes and the references held elsewhere.
\<close>

lemma IterDerefBdd_ok:
  assumes "heap_ok s" "heap s (Cudd_Regular p) \<noteq> None" "ref_ok s {} (\<lambda>q. X q + of_bool (q = Cudd_Regular p))"
    and "\<forall>q n. heap s q = Some n \<longrightarrow> cuddIsConstant n \<longrightarrow> 0 < X q"
  shows "\<exists>s'. Cudd_IterDerefBdd s p = Inr s' \<and> refs_only s s' \<and> ref_ok s' {} X"
proof -
  have r: "refs_only s (note_peak s)"
    by (simp add: note_peak_def Let_def refs_only_counters)
  have h: "heap (note_peak s) = heap s" by (simp add: note_peak_def Let_def)
  have "ref_ok (note_peak s) {} (\<lambda>q. X q + count_list [Cudd_Regular p] q)"
    unfolding ref_ok_cong [OF h] by (rule ref_ok_weaken [OF assms(3,1)]) auto
  then obtain s' where "deref_loop (note_peak s) (Cudd_Regular p) [] = Some (Inr s')" "refs_only (note_peak s) s'" "ref_ok s' {} X"
    using deref_loop_ok [of "note_peak s" "Cudd_Regular p" "[]" X] heap_ok_refs_only [OF r assms(1)] assms(2,4) h by auto
  then show ?thesis using refs_only_trans [OF r] by (simp add: Cudd_IterDerefBdd_def)
qed

section \<open>Bringing a dead node back\<close>

text \<open>Increments still to be done are in \<^verbatim>\<open>pend\<close>.\<close>

definition ref_pend :: "DdManager \<Rightarrow> (ptr \<Rightarrow> nat) \<Rightarrow> ptr list \<Rightarrow> bool" where
  "ref_pend s X pend \<longleftrightarrow> (\<forall>q n. heap s q = Some n \<longrightarrow>
     n_ref n = DD_MAXREF \<or> edges s (live s) q + X q \<le> unat (n_ref n) + count_list pend q)"

lemma ref_pend_revive:
  assumes ok: "heap_ok s" "ref_pend s X (N # stk)" and n: "heap s N = Some n" "n_ref n = 0"
  shows "ref_pend (set_node s N (n\<lparr>n_ref := 1\<rparr>)) X
     (if n_index n = CUDD_CONST_INDEX then stk else n_T n # Cudd_Regular (n_E n) # stk)"
  unfolding ref_pend_def
proof (intro allI impI)
  let ?s = "set_node s N (n\<lparr>n_ref := 1\<rparr>)"
  let ?pend = "if n_index n = CUDD_CONST_INDEX then stk else n_T n # Cudd_Regular (n_E n) # stk"
  have count: "count_list ?pend q = kid_count s N q + count_list stk q" for q
    using n by (auto simp: kid_count_def shape_heap)
  have e: "edges ?s (live ?s) q \<le> edges s (live s) q + kid_count s N q" for q
    using edges_insert [OF finite_live [OF ok(1)]] by (simp add: live_set_ref [OF n(1)] edges_shape [OF shape_set_ref [OF n(1)]])
  fix q m assume q: "heap ?s q = Some m"
  show "n_ref m = DD_MAXREF \<or> edges ?s (live ?s) q + X q \<le> unat (n_ref m) + count_list ?pend q"
  proof (cases "q = N")
    case True
    then have "n_ref m = 1" using q by (auto simp: set_node_def)
    moreover have "edges s (live s) N + X N \<le> 1 + count_list stk N"
      using ok(2) [unfolded ref_pend_def, rule_format, OF n(1)] n(2) by (simp add: DD_MAXREF_def)
    ultimately show ?thesis using e [of N] unfolding True count by simp
  next
    case False
    then have "heap s q = Some m" using q by (simp add: set_node_def)
    then show ?thesis using ok(2) [unfolded ref_pend_def, rule_format, of q m] e [of q] False unfolding count by auto
  qed
qed

lemma ref_pend_inc:
  assumes ok: "ref_pend s X (N # stk)" and n: "heap s N = Some n" "n_ref n \<noteq> 0"
  shows "ref_pend (set_node s N (n\<lparr>n_ref := cuddSatInc (n_ref n)\<rparr>)) X stk"
  unfolding ref_pend_def
proof (intro allI impI)
  let ?s = "set_node s N (n\<lparr>n_ref := cuddSatInc (n_ref n)\<rparr>)"
  have "N \<in> live s" using n by (auto simp: live_def)
  then have e: "edges ?s (live ?s) = edges s (live s)"
    using SatInc_nonzero by (simp add: live_set_ref [OF n(1)] insert_absorb edges_shape [OF shape_set_ref [OF n(1)]])
  fix q m assume q: "heap ?s q = Some m"
  show "n_ref m = DD_MAXREF \<or> edges ?s (live ?s) q + X q \<le> unat (n_ref m) + count_list stk q"
  proof (cases "q = N")
    case True
    then have m: "n_ref m = cuddSatInc (n_ref n)" using q by (auto simp: set_node_def)
    show ?thesis
    proof (cases "n_ref n = DD_MAXREF")
      case False
      then show ?thesis using ok [unfolded ref_pend_def, rule_format, OF n(1)] unfolding True e m by (simp add: unat_SatInc)
    qed (simp add: m)
  next
    case False
    then have "heap s q = Some m" using q by (simp add: set_node_def)
    then show ?thesis using ok [unfolded ref_pend_def, rule_format, of q m] False unfolding e by auto
  qed
qed

definition dead_refs :: "DdManager \<Rightarrow> ptr set" where
  "dead_refs s = {q. \<exists>n. heap s q = Some n \<and> n_ref n = 0}"

lemma finite_dead_refs: "heap_ok s \<Longrightarrow> finite (dead_refs s)"
  by (rule finite_subset [of _ "dom (heap s)"]) (auto simp: dead_refs_def heap_ok_def)

lemma dead_refs_set_ref:
  "heap s N = Some n \<Longrightarrow> r \<noteq> 0 \<Longrightarrow> dead_refs (set_node s N (n\<lparr>n_ref := r\<rparr>)) = dead_refs s - {N}"
  by (auto simp: dead_refs_def set_node_def)

lemma ref_pend_cong: "heap s' = heap s \<Longrightarrow> ref_pend s' X p = ref_pend s X p"
proof -
  assume h: "heap s' = heap s"
  then have "edges s' = edges s" "live s' = live s"
    by (rule edges_shape [OF shape_cong]) (simp add: live_def h)
  then show ?thesis by (simp add: ref_pend_def h)
qed

lemma reclaim_loop_ok:
  assumes "heap_ok s" "set (N # stk) \<subseteq> dom (heap s)" "ref_pend s X (N # stk)"
  shows "\<exists>s'. reclaim_loop s N stk = Some (Inr s') \<and> refs_only s s' \<and> ref_pend s' X []"
  using assms
proof (induction "2 * card (dead_refs s) + length stk" arbitrary: s N stk rule: less_induct)
  case less
  obtain n where n: "heap s N = Some n" using less.prems(2) by auto
  show ?case
  proof (cases "n_ref n = 0")
    case True
    let ?s1 = "set_node s N (n\<lparr>n_ref := 1\<rparr>)" and ?i = "n_index n"
    let ?s2 = "?s1\<lparr>dd_dead := dd_dead s - 1\<rparr>"
    have c1: "dead_refs ?s1 = dead_refs s - {N}" using dead_refs_set_ref [OF n] by simp
    have "N \<in> dead_refs s" using n True by (auto simp: dead_refs_def)
    then have card: "card (dead_refs s) = Suc (card (dead_refs ?s1))"
      unfolding c1 using card_Suc_Diff1 [OF finite_dead_refs [OF less.prems(1)]] by metis
    note pend = ref_pend_revive [OF less.prems(1,3) n True]
    have d1: "dom (heap ?s1) = dom (heap s)" using n by (auto simp: set_node_def)
    show ?thesis
    proof (cases "?i = CUDD_CONST_INDEX")
      case True
      let ?s3 = "?s2\<lparr>constants_dead := constants_dead s - 1\<rparr>"
      have r3: "refs_only s ?s3"
        using refs_only_trans [OF refs_only_trans [OF refs_only_set_ref [OF n, of 1] refs_only_counters(1)] refs_only_counters(3)] .
      have h3: "heap ?s3 = heap ?s1" by simp
      have p3: "ref_pend ?s3 X stk" using pend True ref_pend_cong [OF h3] by simp
      have step: "reclaim_loop s N stk = (case stk of [] \<Rightarrow> Some (Inr ?s3) | M # stk \<Rightarrow> reclaim_loop ?s3 M stk)"
        by (subst reclaim_loop.simps) (use n \<open>n_ref n = 0\<close> True in \<open>simp add: node_def Let_def cuddIsConstant_def set_node_def split: list.split\<close>)
      show ?thesis
      proof (cases stk)
        case Nil
        then show ?thesis using step r3 p3 by auto
      next
        case (Cons M rest)
        have "dead_refs ?s3 = dead_refs ?s1" by (simp add: dead_refs_def)
        then obtain s' where "reclaim_loop ?s3 M rest = Some (Inr s')" "refs_only ?s3 s'" "ref_pend s' X []"
          using less.hyps [OF _ heap_ok_refs_only [OF r3 less.prems(1)], of rest M] card p3 less.prems(2) Cons d1 h3 by auto
        then show ?thesis using step Cons refs_only_trans [OF r3] by auto
      qed
    next
      case False
      have kids: "heap s (n_T n) \<noteq> None" "heap s (Cudd_Regular (n_E n)) \<noteq> None" "?i < length (dd_perm s)"
          "dd_perm s ! ?i < length (subtables s)"
        using less.prems(1) shape_heap [OF n] False by (auto simp: heap_ok_def)
      have perm: "perm_at ?s2 ?i = Inr (dd_perm s ! ?i)" using kids by (simp add: perm_at_def set_node_def)
      obtain s3 where s3: "update_subtable ?s2 (dd_perm s ! ?i) (\<lambda>t. t\<lparr>st_dead := st_dead t - 1\<rparr>) = Inr s3" "heap s3 = heap ?s1"
        using update_subtable_ok [of "dd_perm s ! ?i" ?s2] kids(4) by (auto simp: set_node_def)
      have r3: "refs_only s s3"
        using refs_only_trans [OF refs_only_trans [OF refs_only_set_ref [OF n, of 1] refs_only_counters(1)] refs_only_update_dead [OF s3(1)]] .
      have c3: "dead_refs s3 = dead_refs ?s1" using s3(2) by (simp add: dead_refs_def)
      have p3: "ref_pend s3 X (n_T n # Cudd_Regular (n_E n) # stk)"
        using pend False by (simp add: ref_pend_cong [OF s3(2)])
      obtain s' where s': "reclaim_loop s3 (n_T n) (Cudd_Regular (n_E n) # stk) = Some (Inr s')" "refs_only s3 s'" "ref_pend s' X []"
        using less.hyps [OF _ heap_ok_refs_only [OF r3 less.prems(1)] _ p3] card c3 kids less.prems(2) d1 s3(2) by auto
      have "reclaim_loop s N stk = Some (Inr s')"
        by (subst reclaim_loop.simps) (use n \<open>n_ref n = 0\<close> False perm s3(1) s'(1) in \<open>simp add: node_def Let_def cuddIsConstant_def\<close>)
      then show ?thesis using s' refs_only_trans [OF r3 s'(2)] by blast
    qed
  next
    case False
    let ?s1 = "set_node s N (n\<lparr>n_ref := cuddSatInc (n_ref n)\<rparr>)"
    have r1: "refs_only s ?s1" by (rule refs_only_set_ref [OF n])
    have p1: "ref_pend ?s1 X stk" by (rule ref_pend_inc [OF less.prems(3) n False])
    have "N \<notin> dead_refs s" using n False by (auto simp: dead_refs_def)
    then have c1: "dead_refs ?s1 = dead_refs s" using dead_refs_set_ref [OF n SatInc_nonzero] by simp
    have d1: "dom (heap ?s1) = dom (heap s)" using n by (auto simp: set_node_def)
    show ?thesis
    proof (cases stk)
      case Nil
      have "reclaim_loop s N stk = Some (Inr ?s1)"
        by (subst reclaim_loop.simps) (use n False Nil in \<open>simp add: node_def Let_def\<close>)
      then show ?thesis using r1 p1 Nil by auto
    next
      case (Cons M rest)
      obtain s' where s': "reclaim_loop ?s1 M rest = Some (Inr s')" "refs_only ?s1 s'" "ref_pend s' X []"
        using less.hyps [OF _ heap_ok_refs_only [OF r1 less.prems(1)], of rest M] c1 p1 less.prems(2) Cons d1 by auto
      have "reclaim_loop s N stk = Some (Inr s')"
        by (subst reclaim_loop.simps) (use n False Cons s'(1) in \<open>simp add: node_def Let_def\<close>)
      then show ?thesis using s' refs_only_trans [OF r1 s'(2)] by blast
    qed
  qed
qed

text \<open>
  Reclaiming a node terminates, changes nothing but reference counts and counters, and makes the
  node usable as a result: the references of its children are counted again, so that it can be
  referenced although its own count is still zero.
\<close>

lemma Reclaim_ok:
  assumes "heap_ok s" "heap s (Cudd_Regular p) = Some n" "ref_ok s F X" "finite F"
  shows "\<exists>s'. cuddReclaim s p = Inr s' \<and> refs_only s s' \<and> ref_ok s' {Cudd_Regular p} X"
proof -
  let ?N = "Cudd_Regular p" and ?Y = "\<lambda>q. X q + of_bool (q = Cudd_Regular p)"
  have ok0: "ref_ok s {} X" by (rule ref_ok_weaken [OF assms(3,1,4)]) auto
  have "ref_pend s ?Y [?N]" unfolding ref_pend_def
  proof (intro allI impI)
    fix q m assume "heap s q = Some m"
    then show "n_ref m = DD_MAXREF \<or> edges s (live s) q + ?Y q \<le> unat (n_ref m) + count_list [?N] q"
      using ok0 [unfolded ref_ok_def, rule_format, of q m] by auto
  qed
  then obtain s1 where s1: "reclaim_loop s ?N [] = Some (Inr s1)" "refs_only s s1" "ref_pend s1 ?Y []"
    using reclaim_loop_ok [of s ?N "[]" ?Y] assms(1,2) by auto
  have h1: "heap_ok s1" by (rule heap_ok_refs_only [OF s1(2) assms(1)])
  have "heap s1 ?N \<noteq> None" using assms(2) refs_only_shape [OF s1(2)] by (metis option.distinct(1) shape_eq_None)
  then obtain m where m: "heap s1 ?N = Some m" by blast
  have "ref_ok s1 {} ?Y" using s1(3) by (simp add: ref_ok_def ref_pend_def)
  then have "ref_ok (set_node s1 ?N (m\<lparr>n_ref := cuddSatDec (n_ref m)\<rparr>)) {?N} X"
    by (rule ref_ok_dec [OF h1 _ _ m]) simp_all
  moreover have "cuddReclaim s p = Inr (set_node s1 ?N (m\<lparr>n_ref := cuddSatDec (n_ref m)\<rparr>))"
    by (simp add: cuddReclaim_def s1(1) cuddDeref_def node_def m)
  ultimately show ?thesis using refs_only_trans [OF s1(2) refs_only_set_ref [OF m]] by blast
qed

lemma cuddRef_ok:
  assumes "heap_ok s" "heap s (Cudd_Regular p) = Some n" "ref_ok s F X" "finite F" "n_ref n \<noteq> 0 \<or> Cudd_Regular p \<in> F"
  shows "\<exists>s'. cuddRef s p = Inr s' \<and> refs_only s s' \<and> ref_ok s' {} (\<lambda>q. X q + of_bool (q = Cudd_Regular p))"
proof -
  let ?N = "Cudd_Regular p" and ?s = "set_node s (Cudd_Regular p) (n\<lparr>n_ref := cuddSatInc (n_ref n)\<rparr>)"
  have "live ?s \<subseteq> live s \<union> F" using assms(2,5) by (auto simp: live_def set_node_def split: if_splits)
  then have e: "edges ?s (live ?s \<union> {}) q \<le> edges s (live s \<union> F) q" for q
    unfolding edges_shape [OF shape_set_ref [OF assms(2)]]
    by (intro edges_mono) (simp_all add: finite_live [OF assms(1)] assms(4))
  have "ref_ok ?s {} (\<lambda>q. X q + of_bool (q = ?N))" unfolding ref_ok_def
  proof (intro allI impI)
    fix q m assume q: "heap ?s q = Some m"
    show "n_ref m = DD_MAXREF \<or> edges ?s (live ?s \<union> {}) q + (X q + of_bool (q = ?N)) \<le> unat (n_ref m)"
    proof (cases "q = ?N")
      case True
      then have m: "n_ref m = cuddSatInc (n_ref n)" using q by (auto simp: set_node_def)
      show ?thesis
      proof (cases "n_ref n = DD_MAXREF")
        case False
        then show ?thesis using assms(3) [unfolded ref_ok_def, rule_format, OF assms(2)] e [of ?N] True
          by (simp add: m unat_SatInc)
      qed (simp add: m)
    next
      case False
      then have "heap s q = Some m" using q by (simp add: set_node_def)
      then show ?thesis using assms(3) [unfolded ref_ok_def, rule_format, of q m] e [of q] False by auto
    qed
  qed
  then show ?thesis using refs_only_set_ref [OF assms(2)] by (simp add: cuddRef_def node_def assms(2))
qed

lemma cuddDeref_ok:
  assumes "heap_ok s" "heap s (Cudd_Regular p) \<noteq> None" "ref_ok s {} (\<lambda>q. X q + of_bool (q = Cudd_Regular p))"
  shows "\<exists>s'. cuddDeref s p = Inr s' \<and> refs_only s s' \<and> ref_ok s' {Cudd_Regular p} X"
proof -
  obtain n where n: "heap s (Cudd_Regular p) = Some n" using assms(2) by blast
  have "ref_ok (set_node s (Cudd_Regular p) (n\<lparr>n_ref := cuddSatDec (n_ref n)\<rparr>)) {Cudd_Regular p} X"
    by (rule ref_ok_dec [OF assms(1,3) _ n]) simp_all
  then show ?thesis using refs_only_set_ref [OF n] by (simp add: cuddDeref_def node_def n)
qed


end
