(* ===== verification/Cudd_Cache.thy ===== *)
theory Cudd_Cache
  imports Cudd_Ref
begin

text \<open>
  The computed table (\<^verbatim>\<open>cuddCache.c\<close>): a direct-mapped cache of operation results, its lookups,
  insertions and resizing.  An entry that is unused has a null result; its other fields are whatever
  the memory held and are never read.
\<close>

section \<open>The functions\<close>

definition unused_entry :: DdCache where
  "unused_entry = \<lparr>ce_f = 0, ce_g = 0, ce_h = 0, ce_data = 0\<rparr>"

text \<open>The move of the used entries, in order, to their slots in the new table.\<close>

fun cache_copy :: "nat \<Rightarrow> DdCache list \<Rightarrow> DdCache list \<Rightarrow> DdCache list res" where
  "cache_copy shift [] new = Inr new"
| "cache_copy shift (old # rest) new =
     (if ce_data old \<noteq> 0 then
        rbind (upd new (int (ddCHash2 (ce_h old) (ce_f old) (ce_g old) shift)) old) (cache_copy shift rest)
      else cache_copy shift rest new)"

definition cuddCacheResize :: "DdManager \<Rightarrow> DdManager res" where
  "cuddCacheResize s =
     (let oldslots = cacheSlots s; slots = push_bit 1 oldslots; (mem, s) = ALLOC s
      in if mem = 0 then
           Inr (s\<lparr>maxCacheHard := oldslots - 1, cacheSlack := - sint (oldslots + 1)\<rparr>)
         else
           (let shift = cacheShift s - 1
            in rbind (cache_copy shift (dd_cache s) (replicate (unat slots) unused_entry)) (\<lambda>cache.
                 Inr (s\<lparr>dd_cache := cache, cacheSlots := slots, cacheShift := shift,
                        memused := memused s + (slots - oldslots) * 16,
                        cacheSlack := cacheSlack s - uint slots,
                        cacheMisses := of_int \<lfloor>of_int (uint slots) * minHit s + 1\<rfloor>,
                        cacheHits := 0\<rparr>))))"

definition cache_tag_f :: "32 word \<Rightarrow> ptr \<Rightarrow> ptr" where
  "cache_tag_f op f = f OR (op AND 0xe)"

definition cache_tag_g :: "32 word \<Rightarrow> ptr \<Rightarrow> ptr" where
  "cache_tag_g op g = g OR drop_bit 4 op"

definition cuddCacheInsert :: "DdManager \<Rightarrow> 32 word \<Rightarrow> ptr \<Rightarrow> ptr \<Rightarrow> ptr \<Rightarrow> ptr \<Rightarrow> DdManager res" where
  "cuddCacheInsert s op f g h data =
     (let uf = cache_tag_f op f; ug = cache_tag_g op g; uh = h
      in rbind (upd (dd_cache s) (int (ddCHash2 uh uf ug (cacheShift s)))
                 \<lparr>ce_f = uf, ce_g = ug, ce_h = uh, ce_data = data\<rparr>) (\<lambda>cache.
           Inr (s\<lparr>dd_cache := cache\<rparr>)))"

definition cuddCacheInsert2 :: "DdManager \<Rightarrow> op_name \<Rightarrow> ptr \<Rightarrow> ptr \<Rightarrow> ptr \<Rightarrow> DdManager res" where
  "cuddCacheInsert2 s op f g data =
     rbind (upd (dd_cache s) (int (ddCHash2 (fn_addr s op) f g (cacheShift s)))
              \<lparr>ce_f = f, ce_g = g, ce_h = fn_addr s op, ce_data = data\<rparr>) (\<lambda>cache.
       Inr (s\<lparr>dd_cache := cache\<rparr>))"

text \<open>A miss is counted, and the cache may be resized.\<close>

definition cache_miss :: "DdManager \<Rightarrow> DdManager res" where
  "cache_miss s =
     (let s = s\<lparr>cacheMisses := cacheMisses s + 1\<rparr>
      in if 0 \<le> cacheSlack s \<and> cacheMisses s * minHit s < of_nat (cacheHits s) then cuddCacheResize s
         else Inr s)"

definition cache_find :: "DdManager \<Rightarrow> 32 word \<Rightarrow> ptr \<Rightarrow> ptr \<Rightarrow> ptr res" where
  "cache_find s uh uf ug =
     rbind (idx (dd_cache s) (int (ddCHash2 uh uf ug (cacheShift s)))) (\<lambda>en.
       Inr (if ce_data en \<noteq> 0 \<and> ce_f en = uf \<and> ce_g en = ug \<and> ce_h en = uh then ce_data en else 0))"

definition cache_lookup :: "DdManager \<Rightarrow> 32 word \<Rightarrow> ptr \<Rightarrow> ptr \<Rightarrow> (ptr \<times> DdManager) res" where
  "cache_lookup s uh uf ug =
     rbind (cache_find s uh uf ug) (\<lambda>r.
       if r \<noteq> 0 then
         (let s = s\<lparr>cacheHits := Suc (cacheHits s)\<rparr>
          in rbind (node s (Cudd_Regular r)) (\<lambda>n.
             rbind (if n_ref n = 0 then cuddReclaim s (Cudd_Regular r) else Inr s) (\<lambda>s.
             Inr (r, s))))
       else rbind (cache_miss s) (\<lambda>s. Inr (0, s)))"

definition cuddCacheLookup :: "DdManager \<Rightarrow> 32 word \<Rightarrow> ptr \<Rightarrow> ptr \<Rightarrow> ptr \<Rightarrow> (ptr \<times> DdManager) res" where
  "cuddCacheLookup s op f g h = cache_lookup s h (cache_tag_f op f) (cache_tag_g op g)"

definition cuddCacheLookup2 :: "DdManager \<Rightarrow> op_name \<Rightarrow> ptr \<Rightarrow> ptr \<Rightarrow> (ptr \<times> DdManager) res" where
  "cuddCacheLookup2 s op f g = cache_lookup s (fn_addr s op) f g"

text \<open>The lookup for callers that only test the result: nothing is reclaimed.\<close>

definition cuddConstantLookup :: "DdManager \<Rightarrow> 32 word \<Rightarrow> ptr \<Rightarrow> ptr \<Rightarrow> ptr \<Rightarrow> (ptr \<times> DdManager) res" where
  "cuddConstantLookup s op f g h =
     rbind (cache_find s h (cache_tag_f op f) (cache_tag_g op g)) (\<lambda>r.
       if r \<noteq> 0 then Inr (r, s\<lparr>cacheHits := Suc (cacheHits s)\<rparr>)
       else rbind (cache_miss s) (\<lambda>s. Inr (0, s)))"

end
