(* ===== verification/Cudd_Table.thy ===== *)
theory Cudd_Table
  imports Cudd_Cache
begin

text \<open>
  The unique table (\<^verbatim>\<open>cuddTable.c\<close>): allocation of nodes in chunks, the doubling of a subtable,
  the lookup of a node by variable and children with its creation when there is none, and the
  projection functions.  The garbage collector, dynamic reordering and the growth of the number of
  variables are not modelled: a run that would enter them ends in \<^const>\<open>Not_Modelled\<close>.
\<close>

section \<open>Allocation\<close>

definition DD_MEM_CHUNK :: nat where "DD_MEM_CHUNK = 1022"

definition sizeof_DdNode :: nat where "sizeof_DdNode = 16"

text \<open>The addresses of the nodes of a chunk, the first aligned to the size of a node.\<close>

definition chunk_nodes :: "ptr \<Rightarrow> ptr list" where
  "chunk_nodes mem =
     (let offset = mem AND 15; first = mem + (16 - offset) div 4 * 4
      in map (\<lambda>i. first + of_nat (sizeof_DdNode * i)) [0 ..< DD_MEM_CHUNK])"

definition cuddAllocNode :: "DdManager \<Rightarrow> (ptr \<times> DdManager) res" where
  "cuddAllocNode s =
     (case nextFree s of
        q # rest \<Rightarrow> Inr (q, s\<lparr>nextFree := rest\<rparr>)
      | [] \<Rightarrow>
          if maxLive s < (dd_keys s - dd_dead s) + (dd_keysZ s - dd_deadZ s) then
            Inr (0, s\<lparr>errorCode := CUDD_TOO_MANY_NODES\<rparr>)
          else if stash_null s \<or> maxmemhard s < memused s then Inl Not_Modelled
          else
            (let (mem, s) = ALLOC s
             in if mem = 0 then Inl Not_Modelled
                else
                  (let s = s\<lparr>memused := memused s + of_nat ((DD_MEM_CHUNK + 1) * sizeof_DdNode)\<rparr>
                   in rassert (hd (chunk_nodes mem) AND 15 = 0)
                        (Inr (hd (chunk_nodes mem), s\<lparr>nextFree := tl (chunk_nodes mem)\<rparr>)))))"

section \<open>Growth of a subtable\<close>

definition DD_GC_FRAC_LO :: rat where "DD_GC_FRAC_LO = 1"
definition DD_GC_FRAC_HI :: rat where "DD_GC_FRAC_HI = 4"
definition DD_GC_FRAC_MIN :: rat where "DD_GC_FRAC_MIN = 1 / 5"

definition ddFixLimits :: "DdManager \<Rightarrow> DdManager res" where
  "ddFixLimits s =
     (let s = s\<lparr>minDead := of_int \<lfloor>gcFrac s * of_int (uint (dd_slots s))\<rfloor>,
                cacheSlack := sint (ddMin (maxCacheHard s) (4 * dd_slots s)) - 2 * sint (cacheSlots s)\<rparr>
      in if cacheSlots s < dd_slots s div 2 \<and> 0 \<le> cacheSlack s then cuddCacheResize s else Inr s)"

text \<open>A chain is split by the additional bit of the hash value; the order is kept.\<close>

fun rehash_chain :: "DdManager \<Rightarrow> nat \<Rightarrow> ptr list \<Rightarrow> (ptr list \<times> ptr list) res" where
  "rehash_chain s shift [] = Inr ([], [])"
| "rehash_chain s shift (q # qs) =
     rbind (cuddT s q) (\<lambda>t. rbind (cuddE s q) (\<lambda>e.
     rbind (rehash_chain s shift qs) (\<lambda>(even, odd).
       Inr (if ddHash t e shift mod 2 = 1 then (even, q # odd) else (q # even, odd)))))"

fun rehash_chains :: "DdManager \<Rightarrow> nat \<Rightarrow> ptr list list \<Rightarrow> ptr list list res" where
  "rehash_chains s shift [] = Inr []"
| "rehash_chains s shift (c # cs) =
     rbind (rehash_chain s shift c) (\<lambda>(even, odd).
     rbind (rehash_chains s shift cs) (\<lambda>rest. Inr (even # odd # rest)))"

definition cuddRehash :: "DdManager \<Rightarrow> nat \<Rightarrow> DdManager res" where
  "cuddRehash s i =
     (let s = (if gcFrac s = DD_GC_FRAC_HI \<and> looseUpTo s < dd_slots s
               then s\<lparr>gcFrac := DD_GC_FRAC_LO, minDead := dd_slots s\<rparr> else s)
      in if gcFrac s \<noteq> DD_GC_FRAC_MIN \<and> maxmem s < memused s then Inl Not_Modelled
         else
           rbind (idx (subtables s) (int i)) (\<lambda>t.
             let oldslots = st_slots t; slots = push_bit 1 oldslots; shift = st_shift t - 1; (mem, s) = ALLOC s
             in if mem = 0 \<or> st_shift t \<le> 1 then Inl Not_Modelled
                else
                  rbind (rehash_chains s shift (st_nodelist t)) (\<lambda>chains.
                    ddFixLimits (s\<lparr>subtables := (subtables s)[i := t\<lparr>st_nodelist := chains, st_slots := slots,
                                      st_shift := shift, st_maxKeys := slots * 4\<rparr>],
                                   memused := memused s + (slots - oldslots) * 4,
                                   dd_slots := dd_slots s + (slots - oldslots)\<rparr>))))"

section \<open>Lookup and creation of a node\<close>

text \<open>The position in a chain: the nodes before it, and the chain from there.\<close>

fun skip_T :: "DdManager \<Rightarrow> ptr \<Rightarrow> ptr list \<Rightarrow> ptr list \<Rightarrow> (ptr list \<times> ptr list) res" where
  "skip_T s T front [] = Inr (front, [])"
| "skip_T s T front (q # qs) =
     rbind (cuddT s q) (\<lambda>t. if T < t then skip_T s T (front @ [q]) qs else Inr (front, q # qs))"

fun skip_E :: "DdManager \<Rightarrow> ptr \<Rightarrow> ptr \<Rightarrow> ptr list \<Rightarrow> ptr list \<Rightarrow> (ptr list \<times> ptr list) res" where
  "skip_E s T E front [] = Inr (front, [])"
| "skip_E s T E front (q # qs) =
     rbind (cuddT s q) (\<lambda>t. rbind (cuddE s q) (\<lambda>e.
       if T = t \<and> E < e then skip_E s T E (front @ [q]) qs else Inr (front, q # qs)))"

definition find_place :: "DdManager \<Rightarrow> DdSubtable \<Rightarrow> ptr \<Rightarrow> ptr \<Rightarrow> (nat \<times> ptr list \<times> ptr list) res" where
  "find_place s t T E =
     (let pos = ddHash T E (st_shift t)
      in rbind (idx (st_nodelist t) (int pos)) (\<lambda>chain.
         rbind (skip_T s T [] chain) (\<lambda>(front, rest).
         rbind (skip_E s T E front rest) (\<lambda>(front, rest).
           Inr (pos, front, rest)))))"

definition is_node :: "DdManager \<Rightarrow> ptr list \<Rightarrow> ptr \<Rightarrow> ptr \<Rightarrow> bool res" where
  "is_node s looking T E =
     (case looking of
        [] \<Rightarrow> Inr False
      | q # _ \<Rightarrow> rbind (cuddT s q) (\<lambda>t. rbind (cuddE s q) (\<lambda>e. Inr (T = t \<and> E = e))))"

definition insert_node :: "DdManager \<Rightarrow> nat \<Rightarrow> nat \<Rightarrow> ptr \<Rightarrow> ptr \<Rightarrow> ptr \<Rightarrow> nat \<Rightarrow> ptr list \<Rightarrow> ptr list \<Rightarrow> DdManager res" where
  "insert_node s level index q T E pos front rest =
     rbind (update_subtable (s\<lparr>dd_keys := dd_keys s + 1\<rparr>) level (\<lambda>t. t\<lparr>st_keys := st_keys t + 1,
              st_nodelist := (st_nodelist t)[pos := front @ q # rest]\<rparr>)) (\<lambda>s.
     let s = set_node s q \<lparr>n_index = index, n_ref = 0, n_T = T, n_E = E\<rparr>
     in rbind (cuddRef s T) (\<lambda>s. cuddRef s E))"

definition cuddUniqueInter :: "DdManager \<Rightarrow> nat \<Rightarrow> ptr \<Rightarrow> ptr \<Rightarrow> (ptr \<times> DdManager) res" where
  "cuddUniqueInter s index T E =
     (if dd_size s \<le> index then Inl Not_Modelled
      else
        rbind (perm_at s index) (\<lambda>level.
        rbind (idx (subtables s) (int level)) (\<lambda>subtable.
        rbind (find_place s subtable T E) (\<lambda>(pos, front, looking).
        rbind (is_node s looking T E) (\<lambda>found.
          if found then
            rbind (node s (hd looking)) (\<lambda>n.
            rbind (if n_ref n = 0 then cuddReclaim s (hd looking) else Inr s) (\<lambda>s.
              Inr (hd looking, s)))
          else if autoDyn s \<and> nextDyn s \<le> dd_keys s - (dd_dead s AND countDead s) then Inl Not_Modelled
          else
            rbind (if st_maxKeys subtable < st_keys subtable then
                     (if gcEnabled s \<and> (minDead s < dd_dead s \<or> (minDead s div 2 < dd_dead s
                          \<and> of_int (uint (st_keys subtable)) * (95 / 100 :: rat) < of_int (uint (st_dead subtable))))
                      then Inl Not_Modelled
                      else
                        rbind (cuddRehash s level) (\<lambda>s.
                        rbind (idx (subtables s) (int level)) (\<lambda>subtable.
                        rbind (find_place s subtable T E) (\<lambda>place. Inr (place, s)))))
                   else Inr ((pos, front, looking), s)) (\<lambda>((pos, front, looking), s).
            rbind (cuddAllocNode s) (\<lambda>(q, s).
              if q = 0 then Inr (0, s)
              else rbind (insert_node s level index q T E pos front looking) (\<lambda>s. Inr (q, s)))))))))"

definition Cudd_bddIthVar :: "DdManager \<Rightarrow> nat \<Rightarrow> (ptr \<times> DdManager) res" where
  "Cudd_bddIthVar s i =
     (if CUDD_CONST_INDEX - 1 \<le> i then Inr (0, s)
      else if i < dd_size s then rbind (idx (dd_vars s) (int i)) (\<lambda>v. Inr (v, s))
      else cuddUniqueInter s i (dd_one s) (Cudd_Not (dd_one s)))"

end
