(* ===== verification/Cudd_Inv.thy ===== *)
theory Cudd_Inv
  imports Cudd_Table
begin

text \<open>
  What a diagram means and what a manager keeps: a pointer denotes a Boolean function of the
  variables; nodes are ordered and reduced; the chains of the unique table hold exactly the nodes
  of their level and hash value, sorted; free memory is fresh; every entry of the computed table is
  a fact; reference counts cover all references.
\<close>

section \<open>The function a pointer denotes\<close>

fun eval_dd :: "nat \<Rightarrow> DdManager \<Rightarrow> ptr \<Rightarrow> (nat \<Rightarrow> bool) \<Rightarrow> bool" where
  "eval_dd 0 s p a = False"
| "eval_dd (Suc n) s p a =
     (if Cudd_Regular p = dd_one s then \<not> Cudd_IsComplement p
      else case shape s (Cudd_Regular p) of
             None \<Rightarrow> False
           | Some (i, t, e) \<Rightarrow> (if a i then eval_dd n s t a else eval_dd n s e a) \<noteq> Cudd_IsComplement p)"

definition sem :: "DdManager \<Rightarrow> ptr \<Rightarrow> (nat \<Rightarrow> bool) \<Rightarrow> bool" where
  "sem s p = eval_dd (Suc (dd_size s)) s p"

section \<open>Nodes and variables\<close>

definition level_of :: "DdManager \<Rightarrow> ptr \<Rightarrow> nat" where
  "level_of s q = (case shape s q of
       Some (i, _, _) \<Rightarrow> if i = CUDD_CONST_INDEX then dd_size s else dd_perm s ! i
     | None \<Rightarrow> 0)"

definition nodes_ok :: "DdManager \<Rightarrow> bool" where
  "nodes_ok s \<longleftrightarrow> finite (dom (heap s)) \<and> heap s (dd_one s) \<noteq> None
     \<and> (\<forall>q i t e. shape s q = Some (i, t, e) \<longrightarrow> q \<noteq> 0 \<and> q AND 15 = 0 \<and> (i = CUDD_CONST_INDEX \<longleftrightarrow> q = dd_one s)
          \<and> (q \<noteq> dd_one s \<longrightarrow> i < dd_size s \<and> \<not> Cudd_IsComplement t \<and> heap s t \<noteq> None \<and> heap s (Cudd_Regular e) \<noteq> None
               \<and> t \<noteq> e \<and> dd_perm s ! i < level_of s t \<and> dd_perm s ! i < level_of s (Cudd_Regular e)))"

definition vars_ok :: "DdManager \<Rightarrow> bool" where
  "vars_ok s \<longleftrightarrow> length (dd_perm s) = dd_size s \<and> length (subtables s) = dd_size s \<and> length (dd_vars s) = dd_size s
     \<and> dd_size s < CUDD_CONST_INDEX - 1 \<and> distinct (dd_perm s) \<and> set (dd_perm s) \<subseteq> {..< dd_size s}
     \<and> (\<forall>i < dd_size s. shape s (dd_vars s ! i) = Some (i, dd_one s, Cudd_Not (dd_one s)))"

section \<open>The unique table\<close>

definition chain_order :: "DdManager \<Rightarrow> ptr \<Rightarrow> ptr \<Rightarrow> bool" where
  "chain_order s p q = (case (shape s p, shape s q) of
       (Some (_, t, e), Some (_, t', e')) \<Rightarrow> t' < t \<or> (t' = t \<and> e' < e)
     | _ \<Rightarrow> False)"

definition chain_members :: "DdManager \<Rightarrow> nat \<Rightarrow> nat \<Rightarrow> nat \<Rightarrow> ptr set" where
  "chain_members s level shift pos = {q. \<exists>i t e. shape s q = Some (i, t, e) \<and> i \<noteq> CUDD_CONST_INDEX
      \<and> dd_perm s ! i = level \<and> ddHash t e shift = pos}"

definition subtable_ok :: "DdManager \<Rightarrow> nat \<Rightarrow> DdSubtable \<Rightarrow> bool" where
  "subtable_ok s level t \<longleftrightarrow> 0 < st_shift t \<and> st_shift t \<le> 32 \<and> length (st_nodelist t) = 2 ^ (32 - st_shift t)
     \<and> (\<forall>pos < length (st_nodelist t). sorted_wrt (chain_order s) (st_nodelist t ! pos)
          \<and> set (st_nodelist t ! pos) = chain_members s level (st_shift t) pos)"

definition table_ok :: "DdManager \<Rightarrow> bool" where
  "table_ok s \<longleftrightarrow> (\<forall>l < length (subtables s). subtable_ok s l (subtables s ! l))"

section \<open>Free memory\<close>

definition fresh_nodes :: "DdManager \<Rightarrow> ptr list \<Rightarrow> bool" where
  "fresh_nodes s qs \<longleftrightarrow> distinct qs \<and> (\<forall>q \<in> set qs. heap s q = None \<and> q \<noteq> 0 \<and> q AND 15 = 0)"

definition alloc_ok :: "DdManager \<Rightarrow> bool" where
  "alloc_ok s \<longleftrightarrow> fresh_nodes s (nextFree s)
     \<and> (\<forall>k \<ge> malloc_count s. malloc_addr s k \<noteq> 0 \<longrightarrow> malloc_addr s k AND 3 = 0
          \<and> fresh_nodes s (chunk_nodes (malloc_addr s k))
          \<and> set (chunk_nodes (malloc_addr s k)) \<inter> set (nextFree s) = {}
          \<and> (\<forall>j > k. malloc_addr s j \<noteq> 0 \<longrightarrow>
               set (chunk_nodes (malloc_addr s k)) \<inter> set (chunk_nodes (malloc_addr s j)) = {}))"

section \<open>The computed table\<close>

text \<open>
  What an entry says, for assignments in \<^verbatim>\<open>A\<close> (all of them for the operations on Boolean functions;
  those that respect the theory for the operations on linear decision diagrams).
\<close>

type_synonym bfun = "(nat \<Rightarrow> bool) \<Rightarrow> bool"

fun op_fact :: "(nat \<Rightarrow> bool) set \<Rightarrow> op_name \<Rightarrow> bfun \<Rightarrow> bfun \<Rightarrow> bfun \<Rightarrow> bool" where
  "op_fact A Op_Ldd_And f g r = (\<forall>a \<in> A. r a = (f a \<and> g a))"
| "op_fact A Op_Ldd_Xor f g r = (\<forall>a \<in> A. r a = (f a \<noteq> g a))"
| "op_fact A Op_bddAnd f g r = (\<forall>a. r a = (f a \<and> g a))"
| "op_fact A Op_bddXor f g r = (\<forall>a. r a = (f a \<noteq> g a))"
| "op_fact A Op_bddIntersect f g r =
     ((\<forall>a. r a \<longrightarrow> f a \<and> g a) \<and> ((\<exists>a. f a \<and> g a) \<longrightarrow> (\<exists>a. r a)))"
| "op_fact A Op_bddLeq f g r = ((\<forall>a. r a) = (\<forall>a. f a \<longrightarrow> g a))"

definition DD_LDD_ITE_TAG :: "32 word" where "DD_LDD_ITE_TAG = 0x8a"
definition DD_BDD_ITE_TAG :: "32 word" where "DD_BDD_ITE_TAG = 0x0e"

definition in_heap :: "DdManager \<Rightarrow> ptr \<Rightarrow> bool" where
  "in_heap s p \<longleftrightarrow> heap s (Cudd_Regular p) \<noteq> None"

definition lev :: "DdManager \<Rightarrow> ptr \<Rightarrow> nat" where
  "lev s p = level_of s (Cudd_Regular p)"

definition fact2 :: "(nat \<Rightarrow> bool) set \<Rightarrow> op_name \<Rightarrow> DdManager \<Rightarrow> ptr \<Rightarrow> ptr \<Rightarrow> ptr \<Rightarrow> bool" where
  "fact2 A op s f g r \<longleftrightarrow> min (lev s f) (lev s g) \<le> lev s r \<and> op_fact A op (sem s f) (sem s g) (sem s r)"

definition fact3 :: "(nat \<Rightarrow> bool) set \<Rightarrow> 32 word \<Rightarrow> DdManager \<Rightarrow> ptr \<Rightarrow> ptr \<Rightarrow> ptr \<Rightarrow> ptr \<Rightarrow> bool" where
  "fact3 A tag s f g h r \<longleftrightarrow> min (lev s f) (min (lev s g) (lev s h)) \<le> lev s r
     \<and> (\<forall>a \<in> (if tag = DD_LDD_ITE_TAG then A else UNIV). sem s r a = (if sem s f a then sem s g a else sem s h a))"

definition entry2_ok :: "(nat \<Rightarrow> bool) set \<Rightarrow> DdManager \<Rightarrow> DdCache \<Rightarrow> bool" where
  "entry2_ok A s e \<longleftrightarrow> (\<forall>op. ce_h e = fn_addr s op \<longrightarrow> ce_f e AND 14 = 0 \<longrightarrow>
     in_heap s (ce_f e) \<and> in_heap s (ce_g e) \<and> in_heap s (ce_data e)
     \<and> fact2 A op s (ce_f e) (ce_g e) (ce_data e))"

definition entry3_ok :: "(nat \<Rightarrow> bool) set \<Rightarrow> DdManager \<Rightarrow> DdCache \<Rightarrow> bool" where
  "entry3_ok A s e \<longleftrightarrow> (\<forall>tag f g. (tag = DD_LDD_ITE_TAG \<or> tag = DD_BDD_ITE_TAG) \<longrightarrow>
     f AND 14 = 0 \<longrightarrow> g AND 14 = 0 \<longrightarrow> ce_f e = cache_tag_f tag f \<longrightarrow> ce_g e = cache_tag_g tag g \<longrightarrow>
     in_heap s f \<and> in_heap s g \<and> in_heap s (ce_h e) \<and> in_heap s (ce_data e) \<and> fact3 A tag s f g (ce_h e) (ce_data e))"

definition cache_ok :: "(nat \<Rightarrow> bool) set \<Rightarrow> DdManager \<Rightarrow> bool" where
  "cache_ok A s \<longleftrightarrow> 1 < cacheShift s \<and> cacheShift s \<le> 32 \<and> length (dd_cache s) = 2 ^ (32 - cacheShift s)
     \<and> unat (cacheSlots s) = length (dd_cache s) \<and> cacheSlack s + 2 * uint (cacheSlots s) \<le> 2147483647
     \<and> (\<forall>e \<in> set (dd_cache s). ce_data e \<noteq> 0 \<longrightarrow> entry2_ok A s e \<and> entry3_ok A s e)"

section \<open>The invariant\<close>

text \<open>References the manager holds itself: the constant and the projection functions.\<close>

definition own_refs :: "DdManager \<Rightarrow> ptr \<Rightarrow> nat" where
  "own_refs s q = of_bool (q = dd_one s) + count_list (dd_vars s) q"

definition dd_ok :: "(nat \<Rightarrow> bool) set \<Rightarrow> DdManager \<Rightarrow> (ptr \<Rightarrow> nat) \<Rightarrow> ptr set \<Rightarrow> bool" where
  "dd_ok A s X F \<longleftrightarrow> nodes_ok s \<and> vars_ok s \<and> table_ok s \<and> alloc_ok s \<and> cache_ok A s
     \<and> inj (fn_addr s) \<and> finite F \<and> F \<subseteq> dom (heap s) \<and> (\<forall>q. 0 < X q \<longrightarrow> heap s q \<noteq> None)
     \<and> ref_ok s F (\<lambda>q. X q + own_refs s q)"

text \<open>The manager grows: nodes stay as they are.\<close>

definition grows :: "DdManager \<Rightarrow> DdManager \<Rightarrow> bool" where
  "grows s s' \<longleftrightarrow> shape s \<subseteq>\<^sub>m shape s' \<and> dd_one s' = dd_one s \<and> dd_size s' = dd_size s \<and> dd_perm s' = dd_perm s
     \<and> dd_vars s' = dd_vars s \<and> fn_addr s' = fn_addr s"

text \<open>Nodes reachable from a held reference are alive, whatever an operation does in between.\<close>

inductive held :: "DdManager \<Rightarrow> (ptr \<Rightarrow> nat) \<Rightarrow> ptr \<Rightarrow> bool" for s X where
  held_ref: "0 < X q + own_refs s q \<Longrightarrow> held s X q"
| held_T: "held s X q \<Longrightarrow> shape s q = Some (i, t, e) \<Longrightarrow> i \<noteq> CUDD_CONST_INDEX \<Longrightarrow> held s X t"
| held_E: "held s X q \<Longrightarrow> shape s q = Some (i, t, e) \<Longrightarrow> i \<noteq> CUDD_CONST_INDEX \<Longrightarrow> held s X (Cudd_Regular e)"

section \<open>Evaluation\<close>

lemma nodes_okD:
  assumes "nodes_ok s" "shape s q = Some (i, t, e)"
  shows "q \<noteq> 0" "q AND 15 = 0" "i = CUDD_CONST_INDEX \<longleftrightarrow> q = dd_one s"
    "q \<noteq> dd_one s \<Longrightarrow> i < dd_size s" "q \<noteq> dd_one s \<Longrightarrow> \<not> Cudd_IsComplement t"
    "q \<noteq> dd_one s \<Longrightarrow> heap s t \<noteq> None" "q \<noteq> dd_one s \<Longrightarrow> heap s (Cudd_Regular e) \<noteq> None"
    "q \<noteq> dd_one s \<Longrightarrow> t \<noteq> e" "q \<noteq> dd_one s \<Longrightarrow> dd_perm s ! i < level_of s t"
    "q \<noteq> dd_one s \<Longrightarrow> dd_perm s ! i < level_of s (Cudd_Regular e)"
  using assms unfolding nodes_ok_def by blast+

lemma heap_shape: "heap s q \<noteq> None \<Longrightarrow> \<exists>i t e. shape s q = Some (i, t, e)"
  by (auto simp: shape_def node_shape_def)

lemma regular_of_aligned: "q AND 15 = 0 \<Longrightarrow> \<not> Cudd_IsComplement q"
proof -
  assume "q AND 15 = 0"
  then have "bit (q AND 15) 0 = bit (0::ptr) 0" by simp
  then show ?thesis by (simp add: bit_simps Cudd_IsComplement_bit)
qed

lemma heap_regular: "nodes_ok s \<Longrightarrow> heap s q \<noteq> None \<Longrightarrow> \<not> Cudd_IsComplement q"
  using heap_shape nodes_okD(2) regular_of_aligned by metis

lemma one_in_heap: "nodes_ok s \<Longrightarrow> heap s (dd_one s) \<noteq> None" "nodes_ok s \<Longrightarrow> \<not> Cudd_IsComplement (dd_one s)"
  using heap_regular [of s "dd_one s"] by (simp_all add: nodes_ok_def)

lemma level_of_le:
  assumes "nodes_ok s" "vars_ok s" "heap s q \<noteq> None"
  shows "level_of s q \<le> dd_size s" "q \<noteq> dd_one s \<Longrightarrow> level_of s q < dd_size s"
proof -
  obtain i t e where n: "shape s q = Some (i, t, e)" using heap_shape [OF assms(3)] by blast
  have "i < dd_size s \<Longrightarrow> dd_perm s ! i < dd_size s"
    using assms(2) nth_mem [of i "dd_perm s"] unfolding vars_ok_def by (metis lessThan_iff subsetD)
  then show "level_of s q \<le> dd_size s" "q \<noteq> dd_one s \<Longrightarrow> level_of s q < dd_size s"
    using nodes_okD(3,4) [OF assms(1) n] n by (auto simp: level_of_def)
qed

lemma level_of_node: "nodes_ok s \<Longrightarrow> shape s q = Some (i, t, e) \<Longrightarrow> q \<noteq> dd_one s \<Longrightarrow> level_of s q = dd_perm s ! i"
  using nodes_okD(3) by (auto simp: level_of_def)

lemma level_of_one: "nodes_ok s \<Longrightarrow> level_of s (dd_one s) = dd_size s"
  using heap_shape [OF one_in_heap(1)] nodes_okD(3) by (fastforce simp: level_of_def)

lemma eval_dd_enough:
  assumes "nodes_ok s" "vars_ok s" "in_heap s p"
    and "dd_size s < n + level_of s (Cudd_Regular p)" "dd_size s < m + level_of s (Cudd_Regular p)"
  shows "eval_dd n s p a = eval_dd m s p a"
  using assms(3-)
proof (induction n arbitrary: m p)
  case 0
  then show ?case using level_of_le(1) [OF assms(1,2)] by (fastforce simp: in_heap_def)
next
  case (Suc n)
  obtain m' where m: "m = Suc m'"
    using Suc.prems level_of_le(1) [OF assms(1,2)] by (cases m) (fastforce simp: in_heap_def)+
  obtain i t e where q: "shape s (Cudd_Regular p) = Some (i, t, e)"
    using Suc.prems(1) heap_shape [of s "Cudd_Regular p"] unfolding in_heap_def by blast
  show ?case
  proof (cases "Cudd_Regular p = dd_one s")
    case False
    note d = nodes_okD [OF assms(1) q]
    have l: "level_of s (Cudd_Regular p) = dd_perm s ! i" by (rule level_of_node [OF assms(1) q False])
    have "Cudd_Regular t = t" using d(5) False by simp
    then have "eval_dd n s t a = eval_dd m' s t a" "eval_dd n s e a = eval_dd m' s e a"
      using Suc.prems(2,3) l m d(6,7,9,10) [OF False] by (intro Suc.IH; simp add: in_heap_def)+
    then show ?thesis by (simp add: m q)
  qed (simp add: m)
qed

lemma sem_const: "Cudd_Regular p = dd_one s \<Longrightarrow> sem s p a \<longleftrightarrow> \<not> Cudd_IsComplement p"
  by (simp add: sem_def)

lemma sem_node:
  assumes "nodes_ok s" "vars_ok s" "shape s (Cudd_Regular p) = Some (i, t, e)" "Cudd_Regular p \<noteq> dd_one s"
  shows "sem s p a \<longleftrightarrow> (if a i then sem s t a else sem s e a) \<noteq> Cudd_IsComplement p"
proof -
  note d = nodes_okD [OF assms(1,3)]
  have t: "Cudd_Regular t = t" using d(5) assms(4) by simp
  have "eval_dd (dd_size s) s t a = sem s t a"
    unfolding sem_def using d(6,9) [OF assms(4)] t by (intro eval_dd_enough [OF assms(1,2)]) (simp_all add: in_heap_def)
  moreover have "eval_dd (dd_size s) s e a = sem s e a"
    unfolding sem_def using d(7,10) [OF assms(4)] by (intro eval_dd_enough [OF assms(1,2)]) (simp_all add: in_heap_def)
  ultimately show ?thesis using assms(3,4) by (simp add: sem_def)
qed

lemma sem_Not [simp]: 
  assumes "in_heap s p"
  shows "sem s (Cudd_Not p) a \<longleftrightarrow> \<not> sem s p a"
  using assms heap_shape by (force simp: sem_def in_heap_def split: option.split)

lemma in_heap_Not [simp]: "in_heap s (Cudd_Not p) = in_heap s p" "in_heap s (Cudd_Regular p) = in_heap s p"
  by (simp_all add: in_heap_def)

lemma sem_Regular: "in_heap s p \<Longrightarrow> sem s p a \<longleftrightarrow> sem s (Cudd_Regular p) a \<noteq> Cudd_IsComplement p"
  using Cudd_Regular_complement [of p] Cudd_Regular_id [of p] sem_Not [of s p a] by (cases "Cudd_IsComplement p") auto

section \<open>Growth\<close>

lemma grows_refl [simp]: "grows s s"
  by (simp add: grows_def)

lemma grows_trans [trans]: "grows s s1 \<Longrightarrow> grows s1 s2 \<Longrightarrow> grows s s2"
  unfolding grows_def using map_le_trans by (metis)

lemma grows_shape: "grows s s' \<Longrightarrow> shape s q = Some x \<Longrightarrow> shape s' q = Some x"
  unfolding grows_def map_le_def by (auto dest: bspec [where x = q])

lemma grows_heap: "grows s s' \<Longrightarrow> heap s q \<noteq> None \<Longrightarrow> heap s' q \<noteq> None"
  using grows_shape by (metis option.exhaust shape_eq_None option.distinct(1))

lemma grows_in_heap: "grows s s' \<Longrightarrow> in_heap s p \<Longrightarrow> in_heap s' p"
  by (simp add: in_heap_def grows_heap)

lemma grows_level: "grows s s' \<Longrightarrow> heap s q \<noteq> None \<Longrightarrow> level_of s' q = level_of s q"
  using heap_shape [of s q] grows_shape [of s s' q] by (auto simp: level_of_def grows_def)

lemma grows_eval:
  assumes "grows s s'" "nodes_ok s" "in_heap s p"
  shows "eval_dd n s' p a = eval_dd n s p a"
  using assms(3)
proof (induction n arbitrary: p)
  case (Suc n)
  obtain i t e where q: "shape s (Cudd_Regular p) = Some (i, t, e)"
    using Suc.prems heap_shape [of s "Cudd_Regular p"] unfolding in_heap_def by blast
  show ?case
  proof (cases "Cudd_Regular p = dd_one s")
    case True
    then show ?thesis using assms(1) by (simp add: grows_def)
  next
    case False
    note d = nodes_okD [OF assms(2) q]
    have "in_heap s t" "in_heap s e" using d(5-7) False by (auto simp: in_heap_def)
    then show ?thesis using Suc.IH assms(1) q grows_shape [OF assms(1) q] False by (simp add: grows_def)
  qed
qed simp

lemma grows_sem: "grows s s' \<Longrightarrow> nodes_ok s \<Longrightarrow> in_heap s p \<Longrightarrow> sem s' p = sem s p"
  by (rule ext) (simp only: sem_def grows_eval grows_def [THEN iffD1])

lemma held_mono:
  assumes "held s X q" "grows s s'" "\<And>q. X q \<le> X' q"
  shows "held s' X' q"
  using assms(1)
proof (induction rule: held.induct)
  case (held_ref q)
  have "own_refs s' q = own_refs s q" using assms(2) by (simp add: own_refs_def grows_def)
  then show ?case using held_ref assms(3) [of q] by (intro held.held_ref) linarith
next
  case (held_T q i t e)
  then show ?case using held.held_T grows_shape [OF assms(2)] by metis
next
  case (held_E q i t e)
  then show ?case using held.held_E grows_shape [OF assms(2)] by metis
qed

lemma ref_ok_pos:
  assumes "ref_ok s F X" "heap s q \<noteq> None" "0 < edges s (live s \<union> F) q + X q"
  shows "\<exists>n. heap s q = Some n \<and> n_ref n \<noteq> 0"
proof -
  obtain n where n: "heap s q = Some n" using assms(2) by blast
  have "n_ref n = DD_MAXREF \<or> edges s (live s \<union> F) q + X q \<le> unat (n_ref n)"
    using assms(1) n unfolding ref_ok_def by blast
  then have "n_ref n \<noteq> 0" using assms(3) by (auto simp: DD_MAXREF_def)
  then show ?thesis using n by blast
qed

lemma held_live:
  assumes ok: "dd_ok A s X F" and h: "held s X q"
  shows "\<exists>n. heap s q = Some n \<and> n_ref n \<noteq> 0"
proof -
  have nodes: "nodes_ok s" and ref: "ref_ok s F (\<lambda>q. X q + own_refs s q)" and F: "finite F"
    using ok by (auto simp: dd_ok_def)
  have fin: "finite (live s \<union> F)"
    using nodes F by (auto simp: nodes_ok_def live_def intro: finite_subset [of _ "dom (heap s)"])
  have kid: "\<exists>n. heap s q = Some n \<and> n_ref n \<noteq> 0"
    if p: "p \<in> live s" "0 < kid_count s p q" and q: "heap s q \<noteq> None" for p q
  proof -
    have "kid_count s p q \<le> edges s (live s \<union> F) q"
      unfolding edges_def using p(1) fin by (intro member_le_sum) auto
    then have "0 < edges s (live s \<union> F) q" using p(2) by linarith
    then show ?thesis using ref_ok_pos [OF ref q] by simp
  qed
  show ?thesis using h
  proof (induction rule: held.induct)
    case (held_ref q)
    have "heap s q \<noteq> None"
    proof (cases "0 < X q")
      case False
      then have "q = dd_one s \<or> q \<in> set (dd_vars s)" using held_ref by (auto simp: own_refs_def count_list_0_iff split: if_splits)
      then show ?thesis
      proof
        assume "q \<in> set (dd_vars s)"
        then obtain i where "i < dd_size s" "q = dd_vars s ! i" using ok by (auto simp: dd_ok_def vars_ok_def in_set_conv_nth)
        then have "shape s q = Some (i, dd_one s, Cudd_Not (dd_one s))" using ok unfolding dd_ok_def vars_ok_def by blast
        then show ?thesis by (metis option.distinct(1) shape_eq_None)
      qed (use one_in_heap(1) [OF nodes] in blast)
    qed (use ok in \<open>unfold dd_ok_def, blast\<close>)
    then show ?case using ref_ok_pos [OF ref] held_ref by simp
  next
    case (held_T q i t e)
    then have "q \<in> live s" by (auto simp: live_def)
    moreover have "0 < kid_count s q t" using held_T by (simp add: kid_count_def)
    moreover have "heap s t \<noteq> None" using nodes_okD(3,6) [OF nodes held_T(2)] held_T(3) by blast
    ultimately show ?case by (rule kid)
  next
    case (held_E q i t e)
    then have "q \<in> live s" by (auto simp: live_def)
    moreover have "0 < kid_count s q (Cudd_Regular e)" using held_E by (simp add: kid_count_def)
    moreover have "heap s (Cudd_Regular e) \<noteq> None" using nodes_okD(3,7) [OF nodes held_E(2)] held_E(3) by blast
    ultimately show ?case by (rule kid)
  qed
qed

section \<open>Changes that keep the invariant\<close>

definition same_nodes :: "DdManager \<Rightarrow> DdManager \<Rightarrow> bool" where
  "same_nodes s s' \<longleftrightarrow> shape s' = shape s \<and> dd_one s' = dd_one s \<and> dd_size s' = dd_size s \<and> dd_perm s' = dd_perm s
     \<and> dd_vars s' = dd_vars s \<and> fn_addr s' = fn_addr s"

definition same_table :: "DdManager \<Rightarrow> DdManager \<Rightarrow> bool" where
  "same_table s s' \<longleftrightarrow>
     map (\<lambda>t. (st_nodelist t, st_shift t)) (subtables s') = map (\<lambda>t. (st_nodelist t, st_shift t)) (subtables s)"

definition same_free :: "DdManager \<Rightarrow> DdManager \<Rightarrow> bool" where
  "same_free s s' \<longleftrightarrow> nextFree s' = nextFree s \<and> malloc_addr s' = malloc_addr s \<and> malloc_count s \<le> malloc_count s'"

definition same_cache :: "DdManager \<Rightarrow> DdManager \<Rightarrow> bool" where
  "same_cache s s' \<longleftrightarrow> dd_cache s' = dd_cache s \<and> cacheShift s' = cacheShift s \<and> cacheSlots s' = cacheSlots s
     \<and> cacheSlack s' = cacheSlack s"

lemma same_nodes_shape: "same_nodes s s' \<Longrightarrow> shape s' = shape s"
  by (simp add: same_nodes_def)

lemma same_nodes_heap: "same_nodes s s' \<Longrightarrow> heap s' q = None \<longleftrightarrow> heap s q = None"
  by (metis same_nodes_shape shape_eq_None)

lemma same_nodes_dom: "same_nodes s s' \<Longrightarrow> dom (heap s') = dom (heap s)"
  using same_nodes_heap by (simp add: dom_def)

lemma same_nodes_level: "same_nodes s s' \<Longrightarrow> level_of s' = level_of s"
  by (rule ext) (simp add: level_of_def same_nodes_def split: option.split del: shape_eq_None)

lemma same_nodes_grows: "same_nodes s s' \<Longrightarrow> grows s s'"
  by (simp add: same_nodes_def grows_def)

lemma eval_dd_cong: "shape s' = shape s \<Longrightarrow> dd_one s' = dd_one s \<Longrightarrow> eval_dd n s' p a = eval_dd n s p a"
  by (induction n arbitrary: p) (simp_all split: option.split del: shape_eq_None)

lemma same_nodes_sem: "same_nodes s s' \<Longrightarrow> sem s' = sem s"
  by (simp add: same_nodes_def sem_def eval_dd_cong fun_eq_iff del: eval_dd.simps)

lemma same_nodes_in_heap: "same_nodes s s' \<Longrightarrow> in_heap s' = in_heap s"
  using same_nodes_heap by (simp add: in_heap_def fun_eq_iff)

lemma same_nodes_nodes_ok: "same_nodes s s' \<Longrightarrow> nodes_ok s' = nodes_ok s"
  using same_nodes_heap [of s s'] same_nodes_level [of s s'] same_nodes_dom [of s s']
  by (simp add: nodes_ok_def) (simp add: same_nodes_def)

lemma same_table_length: "same_table s s' \<Longrightarrow> length (subtables s') = length (subtables s)"
  by (auto simp: same_table_def dest: map_eq_imp_length_eq)

lemma same_nodes_vars_ok:
  "same_nodes s s' \<Longrightarrow> length (subtables s') = length (subtables s) \<Longrightarrow> vars_ok s' = vars_ok s"
  by (simp add: vars_ok_def same_nodes_def)

lemma same_nodes_subtable_ok: "same_nodes s s' \<Longrightarrow> subtable_ok s' = subtable_ok s"
proof -
  assume n: "same_nodes s s'"
  then have "chain_order s' = chain_order s" by (intro ext) (simp add: chain_order_def same_nodes_def)
  moreover have "chain_members s' = chain_members s" using n by (intro ext) (simp add: chain_members_def same_nodes_def)
  ultimately show ?thesis by (intro ext) (simp add: subtable_ok_def)
qed

lemma subtable_ok_cong:
  "st_nodelist t' = st_nodelist t \<Longrightarrow> st_shift t' = st_shift t \<Longrightarrow> subtable_ok s l t' = subtable_ok s l t"
  by (simp add: subtable_ok_def)

lemma same_table_table_ok: "same_nodes s s' \<Longrightarrow> same_table s s' \<Longrightarrow> table_ok s' = table_ok s"
proof -
  assume n: "same_nodes s s'" and t: "same_table s s'"
  have "subtable_ok s l (subtables s' ! l) = subtable_ok s l (subtables s ! l)" if "l < length (subtables s)" for l
  proof (rule subtable_ok_cong)
    have "map (\<lambda>t. (st_nodelist t, st_shift t)) (subtables s') ! l = map (\<lambda>t. (st_nodelist t, st_shift t)) (subtables s) ! l"
      using t by (simp add: same_table_def)
    then show "st_nodelist (subtables s' ! l) = st_nodelist (subtables s ! l)" "st_shift (subtables s' ! l) = st_shift (subtables s ! l)"
      using that same_table_length [OF t] by simp_all
  qed
  then show ?thesis using same_table_length [OF t] by (simp add: table_ok_def same_nodes_subtable_ok [OF n])
qed

lemma fresh_nodes_cong: "same_nodes s s' \<Longrightarrow> fresh_nodes s' = fresh_nodes s"
  using same_nodes_heap by (simp add: fresh_nodes_def fun_eq_iff)

lemma same_free_alloc_ok: "same_nodes s s' \<Longrightarrow> same_free s s' \<Longrightarrow> alloc_ok s \<Longrightarrow> alloc_ok s'"
  by (simp add: alloc_ok_def fresh_nodes_cong same_free_def)

lemma same_nodes_lev: "same_nodes s s' \<Longrightarrow> lev s' = lev s"
  by (simp add: lev_def same_nodes_level fun_eq_iff)

lemma same_nodes_entry: "same_nodes s s' \<Longrightarrow> entry2_ok A s' e = entry2_ok A s e" "same_nodes s s' \<Longrightarrow> entry3_ok A s' e = entry3_ok A s e"
  by (simp_all add: entry2_ok_def entry3_ok_def fact2_def fact3_def same_nodes_sem same_nodes_lev same_nodes_in_heap) (simp_all add: same_nodes_def)

lemma same_cache_cache_ok: "same_nodes s s' \<Longrightarrow> same_cache s s' \<Longrightarrow> cache_ok A s' = cache_ok A s"
  by (simp add: cache_ok_def same_nodes_entry) (simp add: same_cache_def)

lemma own_refs_cong: "same_nodes s s' \<Longrightarrow> own_refs s' = own_refs s"
  by (simp add: own_refs_def same_nodes_def fun_eq_iff)

lemma dd_ok_same:
  assumes "dd_ok A s X F" "same_nodes s s'" "same_table s s'" "same_free s s'" "cache_ok A s'"
    and "finite F'" "F' \<subseteq> dom (heap s)" "\<And>q. 0 < X' q \<Longrightarrow> heap s q \<noteq> None" "ref_ok s' F' (\<lambda>q. X' q + own_refs s q)"
  shows "dd_ok A s' X' F'"
proof -
  have "fn_addr s' = fn_addr s" using assms(2) by (simp add: same_nodes_def)
  then show ?thesis
    using assms same_nodes_nodes_ok [OF assms(2)] same_nodes_vars_ok [OF assms(2) same_table_length [OF assms(3)]]
      same_table_table_ok [OF assms(2,3)] same_free_alloc_ok [OF assms(2,4)] own_refs_cong [OF assms(2)]
      same_nodes_dom [OF assms(2)] same_nodes_heap [OF assms(2)]
    unfolding dd_ok_def by simp
qed

lemma heap_shape_cong: "heap s' = heap s \<Longrightarrow> shape s' = shape s"
  by (rule shape_cong)

text \<open>
  Changes of counters, limits and the cache leave the reference counts alone.
\<close>

lemma dd_ok_heap_eq:
  assumes "dd_ok A s X F" "same_nodes s s'" "same_table s s'" "same_free s s'" "cache_ok A s'" "heap s' = heap s"
  shows "dd_ok A s' X F"
  using assms(1) by (intro dd_ok_same [OF assms(1-5)]) (auto simp: dd_ok_def ref_ok_cong [OF assms(6)])

lemma refs_only_same:
  assumes "refs_only s s'"
  shows "same_nodes s s'" "same_table s s'" "same_free s s'" "same_cache s s'"
proof -
  show "same_nodes s s'" using assms refs_only_sel [OF assms] by (simp add: same_nodes_def refs_only_shape)
  show "same_free s s'" "same_cache s s'" using refs_only_sel [OF assms] by (simp_all add: same_free_def same_cache_def)
  have "map (\<lambda>t. (st_nodelist t, st_shift t)) (map (\<lambda>t. t\<lparr>st_dead := 0\<rparr>) (subtables s')) =
      map (\<lambda>t. (st_nodelist t, st_shift t)) (map (\<lambda>t. t\<lparr>st_dead := 0\<rparr>) (subtables s))"
    using refs_only_subtables(1) [OF assms] by simp
  then show "same_table s s'" by (simp add: same_table_def comp_def)
qed

lemma dd_ok_refs_only:
  assumes "dd_ok A s X F" "refs_only s s'" "finite F'" "F' \<subseteq> dom (heap s)" "\<And>q. 0 < X' q \<Longrightarrow> heap s q \<noteq> None"
    and "ref_ok s' F' (\<lambda>q. X' q + own_refs s q)"
  shows "dd_ok A s' X' F'"
  using same_cache_cache_ok [OF refs_only_same(1,4) [OF assms(2)]] assms(1)
  by (intro dd_ok_same [OF assms(1) refs_only_same(1-3) [OF assms(2)] _ assms(3-6)]) (simp add: dd_ok_def)

section \<open>References\<close>

lemma dd_okD:
  assumes "dd_ok A s X F"
  shows "nodes_ok s" "vars_ok s" "table_ok s" "alloc_ok s" "cache_ok A s" "inj (fn_addr s)" "finite F"
    "F \<subseteq> dom (heap s)" "0 < X q \<Longrightarrow> heap s q \<noteq> None" "ref_ok s F (\<lambda>q. X q + own_refs s q)"
  using assms by (auto simp: dd_ok_def)

lemma dd_ok_heap_ok:
  assumes "dd_ok A s X F"
  shows "heap_ok s"
proof -
  have "i < dd_size s \<Longrightarrow> dd_perm s ! i < dd_size s" for i
    using dd_okD(2) [OF assms] nth_mem [of i "dd_perm s"] unfolding vars_ok_def by (metis lessThan_iff subsetD)
  then show ?thesis
    using dd_okD(1,2) [OF assms] nodes_okD [OF dd_okD(1) [OF assms]] unfolding heap_ok_def vars_ok_def nodes_ok_def by metis
qed

definition add_ref :: "(ptr \<Rightarrow> nat) \<Rightarrow> ptr \<Rightarrow> ptr \<Rightarrow> nat" where
  "add_ref X p = (\<lambda>q. X q + of_bool (q = Cudd_Regular p))"

lemma add_ref_own: "(\<lambda>q. add_ref X p q + own_refs s q) = (\<lambda>q. (X q + own_refs s q) + of_bool (q = Cudd_Regular p))"
  by (simp add: add_ref_def fun_eq_iff)

lemma float_live:
  assumes "dd_ok A s X F" "heap s q = Some n" "n_ref n \<noteq> 0"
  shows "dd_ok A s X {q}"
proof -
  have "live s \<union> {q} = live s" using assms(2,3) by (auto simp: live_def)
  moreover have "ref_ok s {} (\<lambda>q. X q + own_refs s q)"
    using assms(1) by (intro ref_ok_weaken [OF dd_okD(10) dd_ok_heap_ok dd_okD(7)]) auto
  ultimately have "ref_ok s {q} (\<lambda>q. X q + own_refs s q)" by (simp add: ref_ok_def)
  then show ?thesis using assms(1,2) unfolding dd_ok_def by auto
qed

lemma float_drop: "dd_ok A s X F \<Longrightarrow> dd_ok A s X {}"
  using ref_ok_weaken [of s F "\<lambda>q. X q + own_refs s q" "{}" "\<lambda>q. X q + own_refs s q"] dd_ok_heap_ok [of A s X F]
  by (simp add: dd_ok_def)

lemma float_held: "dd_ok A s X F \<Longrightarrow> held s X q \<Longrightarrow> dd_ok A s X {q}"
  using held_live float_live by metis

lemma cuddRef_spec:
  assumes ok: "dd_ok A s X F" and p: "Cudd_Regular p \<in> F \<or> held s X (Cudd_Regular p)"
  shows "\<exists>s'. cuddRef s p = Inr s' \<and> refs_only s s' \<and> dd_ok A s' (add_ref X p) {}"
proof -
  obtain n where n: "heap s (Cudd_Regular p) = Some n" "n_ref n \<noteq> 0 \<or> Cudd_Regular p \<in> F"
    using held_live [OF ok] dd_okD(8) [OF ok] p by blast
  obtain s' where s': "cuddRef s p = Inr s'" "refs_only s s'"
      "ref_ok s' {} (\<lambda>q. (X q + own_refs s q) + of_bool (q = Cudd_Regular p))"
    using cuddRef_ok [OF dd_ok_heap_ok [OF ok] n(1) dd_okD(10,7) [OF ok] n(2)] by blast
  have "dd_ok A s' (add_ref X p) {}"
  proof (rule dd_ok_refs_only [OF ok s'(2)])
    show "heap s q \<noteq> None" if "0 < add_ref X p q" for q using that dd_okD(9) [OF ok, of q] n by (auto simp: add_ref_def split: if_splits)
  qed (use s'(3) in \<open>simp_all add: add_ref_own\<close>)
  then show ?thesis using s' by blast
qed

lemma add_ref_in_heap: "dd_ok A s (add_ref X p) F \<Longrightarrow> heap s (Cudd_Regular p) \<noteq> None"
  using dd_okD(9) [of A s "add_ref X p" F "Cudd_Regular p"] by (simp add: add_ref_def)

lemma cuddDeref_spec:
  assumes ok: "dd_ok A s (add_ref X p) F"
  shows "\<exists>s'. cuddDeref s p = Inr s' \<and> refs_only s s' \<and> dd_ok A s' X {Cudd_Regular p}"
proof -
  note p = add_ref_in_heap [OF ok]
  have "ref_ok s {} (\<lambda>q. (X q + own_refs s q) + of_bool (q = Cudd_Regular p))"
    using dd_okD(10) [OF float_drop [OF ok]] by (simp add: add_ref_own)
  then obtain s' where s': "cuddDeref s p = Inr s'" "refs_only s s'" "ref_ok s' {Cudd_Regular p} (\<lambda>q. X q + own_refs s q)"
    using cuddDeref_ok [OF dd_ok_heap_ok [OF ok] p, of "\<lambda>q. X q + own_refs s q"] by blast
  have "dd_ok A s' X {Cudd_Regular p}"
    using s'(3) p dd_okD(9) [OF ok] by (intro dd_ok_refs_only [OF ok s'(2)]) (auto simp: add_ref_def)
  then show ?thesis using s' by blast
qed

lemma own_refs_one: "0 < own_refs s (dd_one s)"
  by (simp add: own_refs_def)

lemma iterDeref_spec:
  assumes ok: "dd_ok A s (add_ref X p) F"
  shows "\<exists>s'. Cudd_IterDerefBdd s p = Inr s' \<and> refs_only s s' \<and> dd_ok A s' X {}"
proof -
  note p = add_ref_in_heap [OF ok]
  have c: "\<forall>q n. heap s q = Some n \<longrightarrow> cuddIsConstant n \<longrightarrow> 0 < X q + own_refs s q"
    using nodes_okD(3) [OF dd_okD(1) [OF ok] shape_heap] own_refs_one by (auto simp: cuddIsConstant_def)
  have "ref_ok s {} (\<lambda>q. (X q + own_refs s q) + of_bool (q = Cudd_Regular p))"
    using dd_okD(10) [OF float_drop [OF ok]] by (simp add: add_ref_own)
  then obtain s' where s': "Cudd_IterDerefBdd s p = Inr s'" "refs_only s s'" "ref_ok s' {} (\<lambda>q. X q + own_refs s q)"
    using IterDerefBdd_ok [OF dd_ok_heap_ok [OF ok] p, of "\<lambda>q. X q + own_refs s q"] c by blast
  have "dd_ok A s' X {}"
    using s'(3) p dd_okD(9) [OF ok] by (intro dd_ok_refs_only [OF ok s'(2)]) (auto simp: add_ref_def)
  then show ?thesis using s' by blast
qed

lemma reclaim_spec:
  assumes ok: "dd_ok A s X F" and p: "in_heap s p"
  shows "\<exists>s'. cuddReclaim s p = Inr s' \<and> refs_only s s' \<and> dd_ok A s' X {Cudd_Regular p}"
proof -
  obtain n where n: "heap s (Cudd_Regular p) = Some n" using p by (auto simp: in_heap_def)
  obtain s' where s': "cuddReclaim s p = Inr s'" "refs_only s s'" "ref_ok s' {Cudd_Regular p} (\<lambda>q. X q + own_refs s q)"
    using Reclaim_ok [OF dd_ok_heap_ok [OF ok] n dd_okD(10,7) [OF ok]] by blast
  have "dd_ok A s' X {Cudd_Regular p}"
    using s'(3) n dd_okD(9) [OF ok] by (intro dd_ok_refs_only [OF ok s'(2)]) auto
  then show ?thesis using s' by blast
qed

lemma refs_only_grows: "refs_only s s' \<Longrightarrow> grows s s'"
  by (rule same_nodes_grows [OF refs_only_same(1)])

end
