(* ===== verification/Cudd_Cache_Ok.thy ===== *)
theory Cudd_Cache_Ok
  imports Cudd_Inv
begin

text \<open>
  The computed table keeps facts: insertions of facts, the move to a larger table and lookups keep
  the invariant, and what a lookup returns is a fact about its operands and can be referenced.
\<close>

section \<open>Outcomes\<close>

text \<open>
  What a run must satisfy: it ends with a result for which the postcondition holds, or it enters
  one of the paths that are not modelled.  No other failure is accepted.
\<close>

definition yields :: "('a \<times> DdManager) res \<Rightarrow> ('a \<Rightarrow> DdManager \<Rightarrow> bool) \<Rightarrow> bool" where
  "yields m Q \<longleftrightarrow> (case m of Inl e \<Rightarrow> e = Not_Modelled | Inr (r, s) \<Rightarrow> Q r s)"

lemma yields_simps [simp]: "yields (Inr (r, s)) Q = Q r s" "yields (Inl e) Q \<longleftrightarrow> e = Not_Modelled"
  by (simp_all add: yields_def)

lemma yields_weaken: "yields m Q \<Longrightarrow> (\<And>r s. m = Inr (r, s) \<Longrightarrow> Q r s \<Longrightarrow> Q' r s) \<Longrightarrow> yields m Q'"
  by (auto simp: yields_def split: sum.splits)

lemma yields_bind: "yields m Q \<Longrightarrow> (\<And>r s. Q r s \<Longrightarrow> yields (f (r, s)) Q') \<Longrightarrow> yields (rbind m f) Q'"
  unfolding yields_def by (cases m) force+

lemma same_nodesI:
  "heap s' = heap s \<Longrightarrow> dd_one s' = dd_one s \<Longrightarrow> dd_size s' = dd_size s \<Longrightarrow> dd_perm s' = dd_perm s
     \<Longrightarrow> dd_vars s' = dd_vars s \<Longrightarrow> fn_addr s' = fn_addr s \<Longrightarrow> same_nodes s s'"
  by (simp add: same_nodes_def shape_cong [of s' s])

lemma yields_InrD: "yields m Q \<Longrightarrow> m = Inr (r, s) \<Longrightarrow> Q r s"
  by simp

section \<open>Slots of the computed table\<close>

lemma unat_drop_bit_less: "shift \<le> 32 \<Longrightarrow> unat (drop_bit shift (w :: 32 word)) < 2 ^ (32 - shift)"
proof -
  assume "shift \<le> 32"
  then have "(2::nat) ^ 32 = 2 ^ (32 - shift) * 2 ^ shift" by (simp add: power_add [symmetric])
  moreover have "unat w < 2 ^ LENGTH(32)" by (rule unsigned_less)
  ultimately show ?thesis using less_mult_imp_div_less [of "unat w" "2 ^ (32 - shift)" "2 ^ shift"]
    by (simp add: unat_drop_bit_eq) (simp add: drop_bit_eq_div)
qed

lemma ddCHash2_less: "cache_ok A s \<Longrightarrow> ddCHash2 h f g (cacheShift s) < length (dd_cache s)"
  unfolding cache_ok_def ddCHash2_def using unat_drop_bit_less [of "cacheShift s"] by simp

lemma ddHash_less: "shift \<le> 32 \<Longrightarrow> ddHash t e shift < 2 ^ (32 - shift)"
  unfolding ddHash_def by (rule unat_drop_bit_less)

section \<open>Tags\<close>

lemma tag_f_bits: "f AND 14 = 0 \<Longrightarrow> cache_tag_f tag f AND 14 = tag AND 14" "f AND 14 = 0 \<Longrightarrow> cache_tag_f tag f AND NOT 14 = f"
proof -
  assume "f AND 14 = 0"
  then have f: "\<not> (bit f n \<and> bit (14::32 word) n)" for n by (metis bit_and_iff bit_0_eq bot_apply bot_bool_def)
  show "cache_tag_f tag f AND 14 = tag AND 14"
    by (rule bit_word_eqI) (use f in \<open>auto simp: cache_tag_f_def bit_simps\<close>)
  show "cache_tag_f tag f AND NOT 14 = f"
    by (rule bit_word_eqI) (use f in \<open>auto simp: cache_tag_f_def bit_simps\<close>)
qed

lemma tag_inject:
  assumes "f AND 14 = 0" "f' AND 14 = 0" "cache_tag_f tag f = cache_tag_f tag' f'"
  shows "f = f'" "tag AND 14 = tag' AND 14"
  using tag_f_bits [OF assms(1), of tag] tag_f_bits [OF assms(2), of tag'] assms(3) by simp_all

lemma tag_g_bits:
  assumes "tag = DD_LDD_ITE_TAG \<or> tag = DD_BDD_ITE_TAG" "g AND 14 = 0"
  shows "cache_tag_g tag g AND NOT 14 = g"
proof -
  have g: "\<not> (bit g n \<and> bit (14::32 word) n)" for n using assms(2) by (metis bit_and_iff bit_0_eq bot_apply bot_bool_def)
  have "drop_bit 4 tag AND NOT 14 = 0" using assms(1) by (auto simp: DD_LDD_ITE_TAG_def DD_BDD_ITE_TAG_def)
  then have "(g OR drop_bit 4 tag) AND NOT 14 = g AND NOT 14"
    by (simp add: bit.conj_disj_distrib2)
  moreover have "g AND NOT 14 = g" by (rule bit_word_eqI) (use g in \<open>auto simp: bit_simps\<close>)
  ultimately show ?thesis by (simp add: cache_tag_g_def)
qed

lemma aligned_tag: "p AND 15 = 0 \<Longrightarrow> p AND 14 = 0" "Cudd_Regular p AND 15 = 0 \<Longrightarrow> p AND 14 = 0"
proof -
  have e: "p AND 14 = (p AND 15) AND 14" "p AND 14 = (Cudd_Regular p AND 15) AND 14"
    by (simp_all add: and.assoc Cudd_Regular_def)
  show "p AND 15 = 0 \<Longrightarrow> p AND 14 = 0" unfolding e(1) by simp
  show "Cudd_Regular p AND 15 = 0 \<Longrightarrow> p AND 14 = 0" unfolding e(2) by simp
qed

lemma in_heap_aligned: "nodes_ok s \<Longrightarrow> in_heap s p \<Longrightarrow> p AND 14 = 0"
  using heap_shape nodes_okD(2) aligned_tag(2) unfolding in_heap_def by metis

lemma in_heap_nonzero: "nodes_ok s \<Longrightarrow> in_heap s p \<Longrightarrow> p \<noteq> 0"
  using heap_shape [of s "Cudd_Regular p"] nodes_okD(1) [of s "Cudd_Regular p"]
  by (auto simp: in_heap_def Cudd_Regular_def)

section \<open>Entries\<close>

lemma entry2_new:
  assumes "inj (fn_addr s)" "nodes_ok s" "in_heap s f" "in_heap s g" "in_heap s r" "fact2 A op s f g r"
  shows "entry2_ok A s \<lparr>ce_f = f, ce_g = g, ce_h = fn_addr s op, ce_data = r\<rparr>"
    and "entry3_ok A s \<lparr>ce_f = f, ce_g = g, ce_h = fn_addr s op, ce_data = r\<rparr>"
proof -
  show "entry2_ok A s \<lparr>ce_f = f, ce_g = g, ce_h = fn_addr s op, ce_data = r\<rparr>"
    using assms by (auto simp: entry2_ok_def dest: injD)
  have "f \<noteq> cache_tag_f tag f'" if "f' AND 14 = 0" "tag = DD_LDD_ITE_TAG \<or> tag = DD_BDD_ITE_TAG" for tag f'
  proof
    assume "f = cache_tag_f tag f'"
    then have "tag AND 14 = 0" using tag_f_bits(1) [OF that(1), of tag] in_heap_aligned [OF assms(2,3)] by simp
    then show False using that(2) by (auto simp: DD_LDD_ITE_TAG_def DD_BDD_ITE_TAG_def)
  qed
  then show "entry3_ok A s \<lparr>ce_f = f, ce_g = g, ce_h = fn_addr s op, ce_data = r\<rparr>"
    unfolding entry3_ok_def by force
qed

lemma entry3_new:
  assumes "nodes_ok s" "in_heap s f" "in_heap s g" "in_heap s h" "in_heap s r" "fact3 A tag s f g h r"
    and tag: "tag = DD_LDD_ITE_TAG \<or> tag = DD_BDD_ITE_TAG"
  shows "entry2_ok A s \<lparr>ce_f = cache_tag_f tag f, ce_g = cache_tag_g tag g, ce_h = h, ce_data = r\<rparr>"
    and "entry3_ok A s \<lparr>ce_f = cache_tag_f tag f, ce_g = cache_tag_g tag g, ce_h = h, ce_data = r\<rparr>"
proof -
  have "tag AND 14 \<noteq> 0" using tag by (auto simp: DD_LDD_ITE_TAG_def DD_BDD_ITE_TAG_def)
  then show "entry2_ok A s \<lparr>ce_f = cache_tag_f tag f, ce_g = cache_tag_g tag g, ce_h = h, ce_data = r\<rparr>"
    using tag_f_bits(1) [OF in_heap_aligned [OF assms(1,2)], of tag] by (simp add: entry2_ok_def)
  show "entry3_ok A s \<lparr>ce_f = cache_tag_f tag f, ce_g = cache_tag_g tag g, ce_h = h, ce_data = r\<rparr>"
    unfolding entry3_ok_def
  proof (intro allI impI, simp only: DdCache.simps)
    fix tag' f' g'
    assume tag': "tag' = DD_LDD_ITE_TAG \<or> tag' = DD_BDD_ITE_TAG" and al: "f' AND 14 = 0" "g' AND 14 = 0"
      and eq: "cache_tag_f tag f = cache_tag_f tag' f'" "cache_tag_g tag g = cache_tag_g tag' g'"
    have "f = f'" "tag AND 14 = tag' AND 14" using tag_inject [OF in_heap_aligned [OF assms(1,2)] al(1) eq(1)] .
    moreover have "tag' = tag"
      using tag tag' \<open>tag AND 14 = tag' AND 14\<close> by (auto simp: DD_LDD_ITE_TAG_def DD_BDD_ITE_TAG_def)
    moreover have "g = g'"
      using tag_g_bits [OF tag in_heap_aligned [OF assms(1,3)]] tag_g_bits [OF tag' al(2)] eq(2) by simp
    ultimately show "in_heap s f' \<and> in_heap s g' \<and> in_heap s h \<and> in_heap s r \<and> fact3 A tag' s f' g' h r"
      using assms by simp
  qed
qed

section \<open>Insertion and resizing\<close>

lemma cache_ok_upd:
  assumes "cache_ok A s" "entry2_ok A s e" "entry3_ok A s e"
  shows "cache_ok A (s\<lparr>dd_cache := (dd_cache s)[i := e]\<rparr>)"
proof -
  let ?s = "s\<lparr>dd_cache := (dd_cache s)[i := e]\<rparr>"
  have n: "same_nodes s ?s" by (rule same_nodesI) simp_all
  show ?thesis
    using assms set_update_subset_insert [of "dd_cache s" i e] same_nodes_entry [OF n] unfolding cache_ok_def by auto
qed

lemma cache_insert_ok:
  assumes "dd_ok A s X F" "entry2_ok A s e" "entry3_ok A s e"
  shows "dd_ok A (s\<lparr>dd_cache := (dd_cache s)[i := e]\<rparr>) X F"
  by (rule dd_ok_heap_eq [OF assms(1)])
    (simp_all add: same_nodesI same_table_def same_free_def cache_ok_upd [OF dd_okD(5) [OF assms(1)] assms(2,3)])

lemma cuddCacheInsert2_spec:
  assumes ok: "dd_ok A s X F" and p: "in_heap s f" "in_heap s g" "in_heap s r"
    and fact: "fact2 A op s f g r"
  shows "\<exists>s'. cuddCacheInsert2 s op f g r = Inr s' \<and> same_nodes s s' \<and> dd_ok A s' X F \<and> heap s' = heap s"
  using ddCHash2_less [OF dd_okD(5) [OF ok], of "fn_addr s op" f g] cache_insert_ok [OF ok entry2_new [OF dd_okD(6,1) [OF ok] p fact]]
  by (simp add: cuddCacheInsert2_def same_nodesI)

lemma cuddCacheInsert_spec:
  assumes ok: "dd_ok A s X F" and p: "in_heap s f" "in_heap s g" "in_heap s h" "in_heap s r"
    and fact: "fact3 A tag s f g h r" "tag = DD_LDD_ITE_TAG \<or> tag = DD_BDD_ITE_TAG"
  shows "\<exists>s'. cuddCacheInsert s tag f g h r = Inr s' \<and> same_nodes s s' \<and> dd_ok A s' X F \<and> heap s' = heap s"
  using ddCHash2_less [OF dd_okD(5) [OF ok], of h "cache_tag_f tag f" "cache_tag_g tag g"]
    cache_insert_ok [OF ok entry3_new [OF dd_okD(1) [OF ok] p fact]]
  by (simp add: cuddCacheInsert_def Let_def same_nodesI)

lemma cache_copy_ok:
  assumes "shift \<le> 32" "length new = 2 ^ (32 - shift)"
  shows "\<exists>new'. cache_copy shift old new = Inr new' \<and> length new' = length new \<and> set new' \<subseteq> set new \<union> set old"
  using assms(2)
proof (induction old arbitrary: new)
  case (Cons e old)
  let ?i = "ddCHash2 (ce_h e) (ce_f e) (ce_g e) shift"
  have i: "?i < length new" unfolding ddCHash2_def using unat_drop_bit_less [OF assms(1)] Cons.prems by simp
  show ?case
  proof (cases "ce_data e = 0")
    case True
    then show ?thesis using Cons.IH [OF Cons.prems] by auto
  next
    case False
    obtain new' where "cache_copy shift old (new[?i := e]) = Inr new'" "length new' = length new"
        "set new' \<subseteq> set (new[?i := e]) \<union> set old"
      using Cons.IH [of "new[?i := e]"] Cons.prems by auto
    then show ?thesis using i False set_update_subset_insert [of new ?i e] by (auto simp: rbind_def)
  qed
qed auto

lemma cuddCacheResize_spec:
  assumes c: "cache_ok A s" and slack: "0 \<le> cacheSlack s"
  shows "\<exists>s'. cuddCacheResize s = Inr s' \<and> same_nodes s s' \<and> same_table s s' \<and> same_free s s' \<and> heap s' = heap s \<and> cache_ok A s'"
proof -
  let ?s1 = "s\<lparr>malloc_count := Suc (malloc_count s)\<rparr>" and ?slots = "push_bit 1 (cacheSlots s)" and ?sh = "cacheShift s - 1"
  have "cacheSlack s + 2 * uint (cacheSlots s) \<le> 2147483647" using c unfolding cache_ok_def by blast
  then have u: "uint (cacheSlots s) < 1073741824" using slack by linarith
  have sint: "sint (cacheSlots s + 1) = uint (cacheSlots s) + 1"
  proof -
    have "uint (cacheSlots s + 1) = uint (cacheSlots s) + 1" using u by (simp add: uint_word_ariths)
    then show ?thesis using u by (simp add: sint_uint signed_take_bit_int_eq_self)
  qed
  show ?thesis
  proof (cases "malloc_addr s (malloc_count s) = 0")
    case True
    let ?s' = "?s1\<lparr>maxCacheHard := cacheSlots s - 1, cacheSlack := - sint (cacheSlots s + 1)\<rparr>"
    have n: "same_nodes s ?s'" by (rule same_nodesI) simp_all
    have "cache_ok A ?s'" using c u same_nodes_entry [OF n] by (simp add: cache_ok_def sint)
    then show ?thesis using True n by (simp add: cuddCacheResize_def ALLOC_def Let_def same_table_def same_free_def)
  next
    case False
    have dbl: "uint ?slots = 2 * uint (cacheSlots s)"
      using u by (simp add: push_bit_eq_mult uint_word_ariths)
    then have "nat (uint ?slots) = nat (2 * uint (cacheSlots s))" by simp
    then have dbln: "unat ?slots = 2 * unat (cacheSlots s)" by (simp add: nat_mult_distrib)
    have slots: "unat (cacheSlots s) = 2 ^ (32 - cacheShift s)" and shift: "1 < cacheShift s" "cacheShift s \<le> 32"
      using c by (simp_all add: cache_ok_def)
    have "int (unat (cacheSlots s)) < 1073741824" using u by (simp only: uint_nat)
    then have "cacheShift s \<noteq> 2" using slots by auto
    then have sh: "1 < ?sh" "?sh \<le> 32" "32 - ?sh = Suc (32 - cacheShift s)" using shift by simp_all
    have len: "unat ?slots = 2 ^ (32 - ?sh)" using dbln slots sh(3) by simp
    obtain cache where cache: "cache_copy ?sh (dd_cache s) (replicate (unat ?slots) unused_entry) = Inr cache"
        "length cache = unat ?slots" "set cache \<subseteq> set (replicate (unat ?slots) unused_entry) \<union> set (dd_cache s)"
      using cache_copy_ok [OF sh(2), of "replicate (unat ?slots) unused_entry" "dd_cache s"] len by auto
    obtain s' where s': "cuddCacheResize s = Inr s'" 
      and f: "heap s' = heap s" "dd_one s' = dd_one s" "dd_size s' = dd_size s" "dd_perm s' = dd_perm s" "dd_vars s' = dd_vars s"
        "fn_addr s' = fn_addr s" "subtables s' = subtables s" "nextFree s' = nextFree s" "malloc_addr s' = malloc_addr s"
        "malloc_count s' = Suc (malloc_count s)"
        "dd_cache s' = cache" "cacheSlots s' = ?slots" "cacheShift s' = ?sh" "cacheSlack s' = cacheSlack s - uint ?slots"
      using False cache(1) by (simp add: cuddCacheResize_def ALLOC_def Let_def)
    have n: "same_nodes s s'" using f by (intro same_nodesI)
    have "ce_data e = 0 \<or> e \<in> set (dd_cache s)" if "e \<in> set cache" for e
      using that cache(3) by (auto simp: unused_entry_def split: if_splits)
    then have "\<forall>e \<in> set cache. ce_data e \<noteq> 0 \<longrightarrow> entry2_ok A s e \<and> entry3_ok A s e"
      using c unfolding cache_ok_def by blast
    then have "cache_ok A s'"
      using c sh cache(2) dbl len same_nodes_entry [OF n] by (simp add: cache_ok_def f)
    then show ?thesis using s' n f by (simp add: same_table_def same_free_def)
  qed
qed

lemma cache_miss_spec:
  assumes ok: "dd_ok A s X F"
  shows "\<exists>s'. cache_miss s = Inr s' \<and> same_nodes s s' \<and> heap s' = heap s \<and> dd_ok A s' X F"
proof -
  let ?s = "s\<lparr>cacheMisses := cacheMisses s + 1\<rparr>"
  have n: "same_nodes s ?s" "same_table s ?s" "same_free s ?s" "same_cache s ?s"
    by (simp_all add: same_nodesI same_table_def same_free_def same_cache_def)
  have c: "cache_ok A ?s" using same_cache_cache_ok [OF n(1,4)] dd_okD(5) [OF ok] by simp
  have ok1: "dd_ok A ?s X F" by (rule dd_ok_heap_eq [OF ok n(1-3) c]) simp
  show ?thesis
  proof (cases "0 \<le> cacheSlack ?s \<and> cacheMisses ?s * minHit ?s < of_nat (cacheHits ?s)")
    case True
    obtain s' where s': "cuddCacheResize ?s = Inr s'" "same_nodes ?s s'" "same_table ?s s'" "same_free ?s s'" "heap s' = heap ?s" "cache_ok A s'"
      using cuddCacheResize_spec [OF c] True by blast
    then have "dd_ok A s' X F" by (intro dd_ok_heap_eq [OF ok1])
    moreover have "same_nodes s s'" using s'(2) n(1) by (simp add: same_nodes_def)
    ultimately show ?thesis using True s' by (simp add: cache_miss_def Let_def)
  next
    case False
    then have "cache_miss s = Inr ?s" unfolding cache_miss_def Let_def by argo
    then show ?thesis using n(1) ok1 by auto
  qed
qed

section \<open>Lookups\<close>

text \<open>The state after an operation: a null result leaves nothing behind, another one can be referenced.\<close>

definition gives :: "(nat \<Rightarrow> bool) set \<Rightarrow> DdManager \<Rightarrow> (ptr \<Rightarrow> nat) \<Rightarrow> (ptr \<Rightarrow> DdManager \<Rightarrow> bool) \<Rightarrow> ptr \<Rightarrow> DdManager \<Rightarrow> bool" where
  "gives A s X P r s' \<longleftrightarrow> grows s s' \<and> (if r = 0 then dd_ok A s' X {} else dd_ok A s' X {Cudd_Regular r} \<and> P r s')"

lemma gives_weaken: "gives A s X P r s' \<Longrightarrow> (grows s s' \<Longrightarrow> r \<noteq> 0 \<Longrightarrow> dd_ok A s' X {Cudd_Regular r} \<Longrightarrow> P r s' \<Longrightarrow> P' r s') \<Longrightarrow> gives A s X P' r s'"
  by (auto simp: gives_def)

lemma gives_after: "grows s s1 \<Longrightarrow> gives A s1 X P r s' \<Longrightarrow> gives A s X P r s'"
  using grows_trans by (auto simp: gives_def)

lemma gives_in_heap: "gives A s X P r s' \<Longrightarrow> r \<noteq> 0 \<Longrightarrow> in_heap s' r"
  using dd_okD(8) by (fastforce simp: gives_def in_heap_def)

lemma gives_dd_ok: "gives A s X P r s' \<Longrightarrow> dd_ok A s' X {}" 
  using float_drop by (auto simp: gives_def split: if_splits)

lemma yields_rbind_mgr: "m = Inr s' \<Longrightarrow> yields (f s') Q \<Longrightarrow> yields (rbind m f) Q"
  by simp

lemma cache_lookup_spec:
  assumes ok: "dd_ok A s X {}"
    and fact: "\<And>e. ce_f e = uf \<Longrightarrow> ce_g e = ug \<Longrightarrow> ce_h e = uh \<Longrightarrow> entry2_ok A s e \<Longrightarrow> entry3_ok A s e \<Longrightarrow>
      in_heap s (ce_data e) \<and> P (ce_data e)"
  shows "yields (cache_lookup s uh uf ug) (gives A s X (\<lambda>r s'. in_heap s r \<and> P r))"
proof -
  note c = dd_okD(5) [OF ok]
  let ?e = "dd_cache s ! ddCHash2 uh uf ug (cacheShift s)"
  obtain r where r: "r = (if ce_data ?e \<noteq> 0 \<and> ce_f ?e = uf \<and> ce_g ?e = ug \<and> ce_h ?e = uh then ce_data ?e else 0)" by blast
  have i: "ddCHash2 uh uf ug (cacheShift s) < length (dd_cache s)" by (rule ddCHash2_less [OF c])
  then have find: "cache_find s uh uf ug = Inr r" by (simp add: cache_find_def r)
  show ?thesis
  proof (cases "r = 0")
    case True
    obtain s' where s': "cache_miss s = Inr s'" "same_nodes s s'" "dd_ok A s' X {}" using cache_miss_spec [OF ok] by blast
    then show ?thesis using same_nodes_grows True by (simp add: cache_lookup_def find gives_def)
  next
    case False
    let ?s = "s\<lparr>cacheHits := Suc (cacheHits s)\<rparr>"
    have e: "r = ce_data ?e" "ce_f ?e = uf" "ce_g ?e = ug" "ce_h ?e = uh" "ce_data ?e \<noteq> 0" using False r by (auto split: if_splits)
    have "entry2_ok A s ?e" "entry3_ok A s ?e" using c e(5) nth_mem [OF i] unfolding cache_ok_def by blast+
    then have fr: "in_heap s r" "P r" using fact [OF e(2-4)] e(1) by simp_all
    have n: "same_nodes s ?s" "same_table s ?s" "same_free s ?s" "same_cache s ?s"
      by (simp_all add: same_nodesI same_table_def same_free_def same_cache_def)
    have ok1: "dd_ok A ?s X {}"
      by (rule dd_ok_heap_eq [OF ok n(1-3)]) (simp_all add: same_cache_cache_ok [OF n(1,4)] c)
    obtain m where m: "heap ?s (Cudd_Regular r) = Some m" using fr(1) by (auto simp: in_heap_def)
    have look: "cache_lookup s uh uf ug =
        rbind (if n_ref m = 0 then cuddReclaim ?s (Cudd_Regular r) else Inr ?s) (\<lambda>s. Inr (r, s))"
      unfolding cache_lookup_def find using False m by (simp add: node_def Let_def)
    show ?thesis
    proof (cases "n_ref m = 0")
      case True
      obtain s' where s': "cuddReclaim ?s (Cudd_Regular r) = Inr s'" "refs_only ?s s'" "dd_ok A s' X {Cudd_Regular (Cudd_Regular r)}"
        using reclaim_spec [OF ok1, of "Cudd_Regular r"] m unfolding in_heap_def by auto
      have "grows s s'" using grows_trans [OF same_nodes_grows [OF n(1)] refs_only_grows [OF s'(2)]] .
      then show ?thesis unfolding look using True s' fr False by (simp add: gives_def)
    next
      case 2: False
      have "dd_ok A ?s X {Cudd_Regular r}" by (rule float_live [OF ok1 m 2])
      then show ?thesis unfolding look using 2 fr False same_nodes_grows [OF n(1)] by (simp add: gives_def)
    qed
  qed
qed

lemma cuddCacheLookup2_spec:
  assumes ok: "dd_ok A s X {}" and p: "in_heap s f" "in_heap s g"
  shows "yields (cuddCacheLookup2 s op f g)
     (gives A s X (\<lambda>r s'. in_heap s r \<and> fact2 A op s f g r))"
  unfolding cuddCacheLookup2_def
  by (rule cache_lookup_spec [OF ok]) (use in_heap_aligned [OF dd_okD(1) [OF ok] p(1)] in \<open>auto simp: entry2_ok_def\<close>)

lemma cuddCacheLookup_spec:
  assumes ok: "dd_ok A s X {}" and p: "in_heap s f" "in_heap s g" and tag: "tag = DD_LDD_ITE_TAG \<or> tag = DD_BDD_ITE_TAG"
  shows "yields (cuddCacheLookup s tag f g h) (gives A s X (\<lambda>r s'. in_heap s r \<and> fact3 A tag s f g h r))"
  unfolding cuddCacheLookup_def
proof (rule cache_lookup_spec [OF ok])
  fix e assume e: "ce_f e = cache_tag_f tag f" "ce_g e = cache_tag_g tag g" "ce_h e = h" "entry3_ok A s e"
  note al = in_heap_aligned [OF dd_okD(1) [OF ok] p(1)] in_heap_aligned [OF dd_okD(1) [OF ok] p(2)]
  show "in_heap s (ce_data e) \<and> fact3 A tag s f g h (ce_data e)"
    using e(4) [unfolded entry3_ok_def, rule_format, OF tag al e(1,2)] e(3) by simp
qed

section \<open>Facts stay facts\<close>

lemma entries_grow:
  assumes g: "grows s s'" and n: "nodes_ok s"
  shows "entry2_ok A s e \<Longrightarrow> entry2_ok A s' e" "entry3_ok A s e \<Longrightarrow> entry3_ok A s' e"
proof -
  have sem: "sem s' p = sem s p" "in_heap s' p" "lev s' p = lev s p" if "in_heap s p" for p
    using that grows_sem [OF g n] grows_in_heap [OF g] grows_level [OF g] by (simp_all add: lev_def in_heap_def)
  have fn: "fn_addr s' = fn_addr s" using g by (simp add: grows_def)
  show "entry2_ok A s e \<Longrightarrow> entry2_ok A s' e" unfolding entry2_ok_def fact2_def fn using sem by simp
  show "entry3_ok A s e \<Longrightarrow> entry3_ok A s' e" unfolding entry3_ok_def fact3_def
    by (intro allI impI, drule spec, drule spec, drule spec, drule (1) mp, drule (1) mp, drule (1) mp, drule (1) mp, drule (1) mp) (use sem in auto)
qed

lemma cache_ok_grows:
  assumes "cache_ok A s" "grows s s'" "nodes_ok s" "same_cache s s'"
  shows "cache_ok A s'"
  using assms entries_grow [OF assms(2,3)] by (simp add: cache_ok_def same_cache_def)

end
