(* ===== verification/Cudd_Unique.thy ===== *)
theory Cudd_Unique
  imports Cudd_Cache_Ok
begin

text \<open>
  The unique table keeps its promise: looking up a variable and two children returns the one node
  with these fields, allocated and linked into its chain when it did not exist, and whatever happens
  in between (a fresh chunk of memory, the doubling of the subtable, a resize of the computed table)
  keeps the invariant.
\<close>

section \<open>Allocation\<close>

definition unclaimed :: "DdManager \<Rightarrow> ptr \<Rightarrow> bool" where
  "unclaimed s q \<longleftrightarrow> heap s q = None \<and> q \<noteq> 0 \<and> q AND 15 = 0 \<and> q \<notin> set (nextFree s)
     \<and> (\<forall>k \<ge> malloc_count s. malloc_addr s k \<noteq> 0 \<longrightarrow> q \<notin> set (chunk_nodes (malloc_addr s k)))"

lemma and_15: "(w :: ptr) AND 15 = take_bit 4 w" and and_3: "w AND 3 = take_bit 2 w"
proof -
  have "(15 :: ptr) = mask 4" "(3 :: ptr) = mask 2" by (simp_all add: mask_eq_decr_exp)
  then show "w AND 15 = take_bit 4 w" "w AND 3 = take_bit 2 w" by (simp_all only: take_bit_eq_mask)
qed

lemma unat_and_15: "unat ((w :: ptr) AND 15) = unat w mod 16" and unat_and_3: "unat (w AND 3) = unat w mod 4"
  unfolding and_15 and_3 by (simp_all add: take_bit_eq_mod unat_mod)

lemma chunk_first_aligned:
  assumes "mem AND 3 = (0 :: ptr)"
  shows "(mem + (16 - (mem AND 15)) div 4 * 4) AND 15 = 0"
proof -
  let ?o = "unat mem mod 16"
  have m: "unat mem mod 4 = 0" using assms unat_and_3 [of mem] by simp
  have d: "unat (16 - (mem AND 15)) = 16 - ?o"
    by (subst unat_sub) (simp_all add: word_le_nat_alt unat_and_15)
  have e: "(16 - ?o) div 4 * 4 = 16 - ?o" using m by presburger
  have "unat ((16 - (mem AND 15)) div 4 * 4) = 16 - ?o"
    unfolding unat_word_ariths(2) unat_div d by (simp add: e)
  then have "unat (mem + (16 - (mem AND 15)) div 4 * 4) = (unat mem + (16 - ?o)) mod 2 ^ LENGTH(32)"
    by (simp only: unat_word_ariths)
  then have "unat (mem + (16 - (mem AND 15)) div 4 * 4) mod 16 = 0" by (simp add: mod_mod_cancel) presburger
  then show ?thesis using unat_and_15 [of "mem + (16 - (mem AND 15)) div 4 * 4"] by (simp add: unat_eq_0)
qed

lemma chunk_nodes_first: "chunk_nodes mem = (mem + (16 - (mem AND 15)) div 4 * 4) # tl (chunk_nodes mem)"
proof -
  have "[0 ..< DD_MEM_CHUNK] = 0 # [Suc 0 ..< DD_MEM_CHUNK]" by (rule upt_conv_Cons) (simp add: DD_MEM_CHUNK_def)
  then show ?thesis by (simp add: chunk_nodes_def Let_def)
qed

lemma cuddAllocNode_spec:
  assumes ok: "alloc_ok s"
  shows "yields (cuddAllocNode s) (\<lambda>q s'. same_nodes s s' \<and> subtables s' = subtables s \<and> same_cache s s' \<and> heap s' = heap s
     \<and> alloc_ok s' \<and> (q \<noteq> 0 \<longrightarrow> unclaimed s' q))"
proof (cases "nextFree s")
  case (Cons q rest)
  let ?s' = "s\<lparr>nextFree := rest\<rparr>"
  have n: "same_nodes s ?s'" by (rule same_nodesI) simp_all
  have "alloc_ok ?s'" using ok Cons by (auto simp: alloc_ok_def fresh_nodes_def)
  moreover have "unclaimed ?s' q" using ok Cons by (auto simp: alloc_ok_def fresh_nodes_def unclaimed_def)
  ultimately show ?thesis using n Cons by (simp add: cuddAllocNode_def same_cache_def)
next
  case Nil
  let ?mem = "malloc_addr s (malloc_count s)"
  show ?thesis
  proof (cases "maxLive s < (dd_keys s - dd_dead s) + (dd_keysZ s - dd_deadZ s)")
    case True
    let ?s' = "s\<lparr>errorCode := CUDD_TOO_MANY_NODES\<rparr>"
    have "same_nodes s ?s'" by (rule same_nodesI) simp_all
    moreover have "alloc_ok ?s'" using ok by (simp add: alloc_ok_def fresh_nodes_def)
    ultimately show ?thesis using Nil True by (simp add: cuddAllocNode_def same_cache_def)
  next
    case False
    show ?thesis
    proof (cases "stash_null s \<or> maxmemhard s < memused s \<or> ?mem = 0")
      case True
      then show ?thesis using Nil False by (auto simp: cuddAllocNode_def ALLOC_def)
    next
      case mem: False
      let ?q = "hd (chunk_nodes ?mem)" and ?rest = "tl (chunk_nodes ?mem)"
      let ?s' = "s\<lparr>malloc_count := Suc (malloc_count s), memused := memused s + of_nat ((DD_MEM_CHUNK + 1) * sizeof_DdNode), nextFree := ?rest\<rparr>"
      have ne: "chunk_nodes ?mem = ?q # ?rest"
        by (metis chunk_nodes_first list.sel(1))
      have fresh: "?mem AND 3 = 0" "fresh_nodes s (?q # ?rest)"
          "\<forall>j \<ge> Suc (malloc_count s). malloc_addr s j \<noteq> 0 \<longrightarrow> set (?q # ?rest) \<inter> set (chunk_nodes (malloc_addr s j)) = {}"
        using ok mem ne unfolding alloc_ok_def by (metis order_refl Suc_le_lessD)+
      have "?q = ?mem + (16 - (?mem AND 15)) div 4 * 4"
        by (metis chunk_nodes_first list.sel(1))
      then have "?q AND 15 = 0" using chunk_first_aligned [OF fresh(1)] by simp
      then have run: "cuddAllocNode s = Inr (?q, ?s')"
        using Nil False mem by (simp add: cuddAllocNode_def ALLOC_def Let_def)
      have later: "\<forall>k \<ge> Suc (malloc_count s). malloc_addr s k \<noteq> 0 \<longrightarrow> malloc_addr s k AND 3 = 0 \<and> fresh_nodes s (chunk_nodes (malloc_addr s k))
          \<and> (\<forall>j > k. malloc_addr s j \<noteq> 0 \<longrightarrow> set (chunk_nodes (malloc_addr s k)) \<inter> set (chunk_nodes (malloc_addr s j)) = {})"
        using ok unfolding alloc_ok_def by (metis Suc_leD)
      have "alloc_ok ?s'" "unclaimed ?s' ?q"
        using fresh(2,3) later by (auto simp: alloc_ok_def unclaimed_def fresh_nodes_def)
      moreover have "same_nodes s ?s'" by (rule same_nodesI) simp_all
      ultimately show ?thesis unfolding run by (simp add: same_cache_def)
    qed
  qed
qed

section \<open>The place of a node in its chain\<close>

definition kT :: "DdManager \<Rightarrow> ptr \<Rightarrow> ptr" where "kT s q = n_T (the (heap s q))"
definition kE :: "DdManager \<Rightarrow> ptr \<Rightarrow> ptr" where "kE s q = n_E (the (heap s q))"

lemma cuddT_in_heap: "heap s q \<noteq> None \<Longrightarrow> cuddT s q = Inr (kT s q)" "heap s q \<noteq> None \<Longrightarrow> cuddE s q = Inr (kE s q)"
  by (auto simp: cuddT_def cuddE_def node_def kT_def kE_def)

lemma shape_k: "shape s q = Some (i, t, e) \<Longrightarrow> kT s q = t \<and> kE s q = e"
  by (auto dest!: shape_SomeD simp: kT_def kE_def)

lemma skip_T_run:
  "set chain \<subseteq> dom (heap s) \<Longrightarrow>
     skip_T s T front chain = Inr (front @ takeWhile (\<lambda>q. T < kT s q) chain, dropWhile (\<lambda>q. T < kT s q) chain)"
  by (induction chain arbitrary: front) (auto simp: cuddT_in_heap domIff)

lemma skip_E_run:
  "set chain \<subseteq> dom (heap s) \<Longrightarrow>
     skip_E s T E front chain = Inr (front @ takeWhile (\<lambda>q. T = kT s q \<and> E < kE s q) chain, dropWhile (\<lambda>q. T = kT s q \<and> E < kE s q) chain)"
  by (induction chain arbitrary: front) (auto simp: cuddT_in_heap domIff)

text \<open>Keys decrease along a chain.\<close>

definition key_above :: "DdManager \<Rightarrow> ptr \<Rightarrow> ptr \<Rightarrow> ptr \<Rightarrow> bool" where
  "key_above s T E q \<longleftrightarrow> T < kT s q \<or> (T = kT s q \<and> E < kE s q)"

definition key_below :: "DdManager \<Rightarrow> ptr \<Rightarrow> ptr \<Rightarrow> ptr \<Rightarrow> bool" where
  "key_below s T E q \<longleftrightarrow> kT s q < T \<or> (kT s q = T \<and> kE s q < E)"

lemma chain_order_key:
  "chain_order s p q \<Longrightarrow> kT s q < kT s p \<or> (kT s q = kT s p \<and> kE s q < kE s p)"
  unfolding chain_order_def by (cases "shape s p"; cases "shape s q") (auto dest!: shape_k simp del: shape_eq_None)

lemma chain_order_keyI:
  "heap s p \<noteq> None \<Longrightarrow> heap s q \<noteq> None \<Longrightarrow> kT s q < kT s p \<or> (kT s q = kT s p \<and> kE s q < kE s p) \<Longrightarrow> chain_order s p q"
  using heap_shape [of s p] heap_shape [of s q] unfolding chain_order_def by (fastforce dest: shape_k)

lemma drop_key:
  fixes T E :: ptr
  assumes "sorted_wrt (chain_order s) chain"
  defines "rest \<equiv> dropWhile (\<lambda>q. T = kT s q \<and> E < kE s q) (dropWhile (\<lambda>q. T < kT s q) chain)"
  shows "\<forall>q \<in> set rest. key_below s T E q \<or> q = hd rest \<and> kT s q = T \<and> kE s q = E"
proof (cases rest)
  case (Cons p ps)
  obtain c2 where c2: "c2 = dropWhile (\<lambda>q. T < kT s q) chain" by blast
  have c1: "chain = takeWhile (\<lambda>q. T < kT s q) chain @ c2" by (simp add: c2)
  have rest: "rest = dropWhile (\<lambda>q. T = kT s q \<and> E < kE s q) c2" by (simp only: rest_def c2)
  obtain c3 where "c3 = takeWhile (\<lambda>q. T = kT s q \<and> E < kE s q) c2" by blast
  then have c3: "c2 = c3 @ rest" by (simp add: rest)
  have sorted: "sorted_wrt (chain_order s) c2" using assms(1) by (subst (asm) c1) (simp add: sorted_wrt_append)
  have p: "\<not> (T = kT s p \<and> E < kE s p)" using hd_dropWhile [of "\<lambda>q. T = kT s q \<and> E < kE s q" c2] Cons unfolding rest by simp
  have "kT s p \<le> T"
  proof (cases c3)
    case Nil
    then have "c2 = p # ps" using c3 Cons by simp
    then show ?thesis using hd_dropWhile [of "\<lambda>q. T < kT s q" chain] unfolding c2 [symmetric] by (simp add: not_less)
  next
    case (Cons x xs)
    have "c2 = x # xs @ rest" using c3 Cons by simp
    then have "kT s x \<le> T" using hd_dropWhile [of "\<lambda>q. T < kT s q" chain] unfolding c2 [symmetric] by (simp add: not_less)
    moreover have "chain_order s x p" using sorted c3 \<open>rest = p # ps\<close> Cons by (simp add: sorted_wrt_append)
    ultimately show ?thesis using chain_order_key by fastforce
  qed
  then have first: "key_below s T E p \<or> kT s p = T \<and> kE s p = E" using p by (auto simp: key_below_def not_less)
  have "chain_order s p q" if "q \<in> set ps" for q using sorted c3 Cons that by (simp add: sorted_wrt_append)
  then have "key_below s T E q" if "q \<in> set ps" for q
    using chain_order_key [of s p q] that first unfolding key_below_def by fastforce
  then show ?thesis using Cons first by auto
qed simp

lemma find_place_ok:
  assumes sub: "subtable_ok s level t"
  shows "\<exists>front rest. find_place s t T E = Inr (ddHash T E (st_shift t), front, rest)
     \<and> ddHash T E (st_shift t) < length (st_nodelist t)
     \<and> st_nodelist t ! ddHash T E (st_shift t) = front @ rest
     \<and> (\<forall>q \<in> set front. key_above s T E q) \<and> (\<forall>q \<in> set rest. key_below s T E q \<or> q = hd rest \<and> kT s q = T \<and> kE s q = E)"
proof -
  let ?pos = "ddHash T E (st_shift t)"
  let ?chain = "st_nodelist t ! ?pos"
  let ?d = "dropWhile (\<lambda>q. T < kT s q) ?chain" and ?f = "\<lambda>q. T = kT s q \<and> E < kE s q"
  let ?front = "takeWhile (\<lambda>q. T < kT s q) ?chain @ takeWhile ?f ?d" and ?rest = "dropWhile ?f ?d"
  have pos: "?pos < length (st_nodelist t)" using sub ddHash_less [of "st_shift t" T E] by (simp add: subtable_ok_def)
  have chain: "sorted_wrt (chain_order s) ?chain" "set ?chain = chain_members s level (st_shift t) ?pos"
    using sub pos by (auto simp: subtable_ok_def)
  have dom: "set ?chain \<subseteq> dom (heap s)" unfolding chain(2) by (auto simp: chain_members_def dest: shape_SomeD)
  have "set ?d \<subseteq> dom (heap s)" using dom set_dropWhileD by fastforce
  then have run: "find_place s t T E = Inr (?pos, ?front, ?rest)"
    using pos dom by (simp add: find_place_def Let_def skip_T_run skip_E_run)
  have "\<forall>q \<in> set ?front. key_above s T E q" by (auto simp: key_above_def dest: set_takeWhileD)
  then show ?thesis using run pos drop_key [OF chain(1), of T E] by (intro exI [of _ ?front] exI [of _ ?rest]) simp
qed

section \<open>Doubling a subtable\<close>

definition same_rest :: "DdManager \<Rightarrow> DdManager \<Rightarrow> bool" where
  "same_rest s s' \<longleftrightarrow> same_nodes s s' \<and> same_table s s' \<and> same_free s s' \<and> heap s' = heap s"

lemma same_rest_trans: "same_rest s s1 \<Longrightarrow> same_rest s1 s2 \<Longrightarrow> same_rest s s2"
  by (auto simp: same_rest_def same_nodes_def same_table_def same_free_def)

lemma ddFixLimits_spec:
  assumes c: "cache_ok A s"
  shows "\<exists>s'. ddFixLimits s = Inr s' \<and> same_rest s s' \<and> cache_ok A s'"
proof -
  obtain s1 where s1: "s1 = s\<lparr>minDead := of_int \<lfloor>gcFrac s * of_int (uint (dd_slots s))\<rfloor>,
                cacheSlack := sint (ddMin (maxCacheHard s) (4 * dd_slots s)) - 2 * sint (cacheSlots s)\<rparr>" by blast
  have r1: "same_rest s s1" by (simp add: s1 same_rest_def same_nodesI same_table_def same_free_def)
  have "unat (cacheSlots s) = 2 ^ (32 - cacheShift s)" "1 < cacheShift s" using c by (auto simp: cache_ok_def)
  moreover have "(2::nat) ^ (32 - cacheShift s) \<le> 2 ^ 30" using calculation(2) by (intro power_increasing) auto
  ultimately have "unat (cacheSlots s) \<le> 1073741824" by simp
  then have "int (unat (cacheSlots s)) \<le> int 1073741824" by (rule of_nat_mono)
  then have u: "uint (cacheSlots s) \<le> 1073741824" by simp
  have "- (2147483648 :: int) \<le> uint (cacheSlots s)" using uint_ge_0 [of "cacheSlots s"] by linarith
  then have "sint (cacheSlots s) = uint (cacheSlots s)"
    using u by (simp add: sint_uint signed_take_bit_int_eq_self)
  moreover have "sint (ddMin (maxCacheHard s) (4 * dd_slots s)) \<le> 2147483647"
    using sint_lt [of "ddMin (maxCacheHard s) (4 * dd_slots s)"] by simp
  ultimately have slack: "cacheSlack s1 + 2 * uint (cacheSlots s1) \<le> 2147483647" by (simp add: s1)
  have n1: "same_nodes s s1" using r1 by (simp add: same_rest_def)
  have f1: "dd_cache s1 = dd_cache s" "cacheShift s1 = cacheShift s" "cacheSlots s1 = cacheSlots s" by (simp_all add: s1)
  have c1: "cache_ok A s1" using c slack same_nodes_entry [OF n1] by (simp add: cache_ok_def f1)
  show ?thesis
  proof (cases "cacheSlots s1 < dd_slots s1 div 2 \<and> 0 \<le> cacheSlack s1")
    case True
    obtain s' where "cuddCacheResize s1 = Inr s'" "same_rest s1 s'" "cache_ok A s'"
      using cuddCacheResize_spec [OF c1] True unfolding same_rest_def by blast
    then show ?thesis using True same_rest_trans [OF r1] by (auto simp: ddFixLimits_def Let_def s1)
  next
    case False
    then have "ddFixLimits s = Inr s1" unfolding ddFixLimits_def Let_def s1 [symmetric] by argo
    then show ?thesis using r1 c1 by blast
  qed
qed

definition odd_hash :: "DdManager \<Rightarrow> nat \<Rightarrow> ptr \<Rightarrow> bool" where
  "odd_hash s shift q \<longleftrightarrow> ddHash (kT s q) (kE s q) shift mod 2 = 1"

lemma rehash_chain_run:
  "set chain \<subseteq> dom (heap s) \<Longrightarrow>
     rehash_chain s shift chain = Inr (filter (\<lambda>q. \<not> odd_hash s shift q) chain, filter (odd_hash s shift) chain)"
  by (induction chain) (auto simp: cuddT_in_heap domIff odd_hash_def)

lemma rehash_chains_run:
  assumes "\<forall>c \<in> set cs. set c \<subseteq> dom (heap s)"
  shows "\<exists>cs'. rehash_chains s shift cs = Inr cs' \<and> length cs' = 2 * length cs
     \<and> (\<forall>p < length cs. cs' ! (2 * p) = filter (\<lambda>q. \<not> odd_hash s shift q) (cs ! p)
          \<and> cs' ! Suc (2 * p) = filter (odd_hash s shift) (cs ! p))"
  using assms
proof (induction cs)
  case (Cons c cs)
  then obtain cs' where cs': "rehash_chains s shift cs = Inr cs'" "length cs' = 2 * length cs"
      "\<forall>p < length cs. cs' ! (2 * p) = filter (\<lambda>q. \<not> odd_hash s shift q) (cs ! p) \<and> cs' ! Suc (2 * p) = filter (odd_hash s shift) (cs ! p)"
    by auto
  have "rehash_chains s shift (c # cs) = Inr (filter (\<lambda>q. \<not> odd_hash s shift q) c # filter (odd_hash s shift) c # cs')"
    using Cons.prems cs'(1) by (simp add: rehash_chain_run)
  then show ?case using cs'(2,3) by (auto simp: less_Suc_eq_0_disj)
qed simp

lemma ddHash_double: "0 < shift \<Longrightarrow> ddHash t e (shift - 1) div 2 = ddHash t e shift"
proof -
  assume "0 < shift"
  then obtain k where k: "shift = Suc k" by (cases shift) auto
  have "drop_bit (Suc k) n = drop_bit k n div 2" for n :: nat
    by (simp add: drop_bit_eq_div mult.commute flip: div_mult2_eq)
  then show ?thesis by (simp add: ddHash_def unat_drop_bit_eq k)
qed

lemma subtable_ok_rehash:
  assumes sub: "subtable_ok s level t" and shift: "1 < st_shift t"
    and len: "length cs' = 2 * length (st_nodelist t)"
    and split: "\<forall>p < length (st_nodelist t). cs' ! (2 * p) = filter (\<lambda>q. \<not> odd_hash s (st_shift t - 1) q) (st_nodelist t ! p)
          \<and> cs' ! Suc (2 * p) = filter (odd_hash s (st_shift t - 1)) (st_nodelist t ! p)"
    and t': "st_nodelist t' = cs'" "st_shift t' = st_shift t - 1"
  shows "subtable_ok s level t'"
proof -
  have l: "length (st_nodelist t) = 2 ^ (32 - st_shift t)" "st_shift t \<le> 32" using sub by (simp_all add: subtable_ok_def)
  then have "32 - (st_shift t - 1) = Suc (32 - st_shift t)" using shift by simp
  then have len': "length cs' = 2 ^ (32 - (st_shift t - 1))" using len l by simp
  have "sorted_wrt (chain_order s) (cs' ! pos) \<and> set (cs' ! pos) = chain_members s level (st_shift t - 1) pos"
    if "pos < length cs'" for pos
  proof -
    let ?p = "pos div 2"
    have p: "?p < length (st_nodelist t)" using that len by simp
    have old: "sorted_wrt (chain_order s) (st_nodelist t ! ?p)" "set (st_nodelist t ! ?p) = chain_members s level (st_shift t) ?p"
      using sub p by (simp_all add: subtable_ok_def)
    have new: "cs' ! pos = filter (\<lambda>q. odd_hash s (st_shift t - 1) q \<longleftrightarrow> pos mod 2 = 1) (st_nodelist t ! ?p)"
    proof (cases "pos mod 2 = 1")
      case True
      then have "pos = Suc (2 * ?p)" by presburger
      then have "cs' ! pos = cs' ! Suc (2 * ?p)" by (rule arg_cong)
      also have "\<dots> = filter (odd_hash s (st_shift t - 1)) (st_nodelist t ! ?p)" using split p by blast
      finally show ?thesis by (simp add: True)
    next
      case False
      then have "pos = 2 * ?p" by presburger
      then have "cs' ! pos = cs' ! (2 * ?p)" by (rule arg_cong)
      also have "\<dots> = filter (\<lambda>q. \<not> odd_hash s (st_shift t - 1) q) (st_nodelist t ! ?p)" using split p by blast
      finally show ?thesis using False by simp
    qed
    have "q \<in> set (cs' ! pos) \<longleftrightarrow> q \<in> chain_members s level (st_shift t - 1) pos" for q
    proof (cases "\<exists>i t e. shape s q = Some (i, t, e)")
      case True
      then obtain i T E where q: "shape s q = Some (i, T, E)" by blast
      let ?h = "ddHash T E (st_shift t - 1)"
      have h: "?h div 2 = ddHash T E (st_shift t)" using shift by (intro ddHash_double) simp
      have "x = pos \<longleftrightarrow> x div 2 = ?p \<and> (x mod 2 = 1 \<longleftrightarrow> pos mod 2 = 1)" for x by presburger
      then have "?h = pos \<longleftrightarrow> ddHash T E (st_shift t) = ?p \<and> (odd_hash s (st_shift t - 1) q \<longleftrightarrow> pos mod 2 = 1)"
        using shape_k [OF q] h by (simp only: odd_hash_def)
      then show ?thesis unfolding new set_filter old(2) using q by (simp add: chain_members_def)
    qed (simp add: new old(2) chain_members_def)
    then show ?thesis unfolding new using old(1) by (auto simp: sorted_wrt_filter)
  qed
  then show ?thesis using shift l(2) len' by (simp add: subtable_ok_def t')
qed

lemma cuddRehash_spec:
  assumes ok: "dd_ok A s X F" and i: "i < length (subtables s)"
  shows "cuddRehash s i = Inl Not_Modelled \<or>
     (\<exists>s'. cuddRehash s i = Inr s' \<and> same_nodes s s' \<and> heap s' = heap s \<and> dd_ok A s' X F \<and> length (subtables s') = length (subtables s))"
proof (cases "cuddRehash s i = Inl Not_Modelled")
  case False
  obtain s1 where s1: "s1 = (if gcFrac s = DD_GC_FRAC_HI \<and> looseUpTo s < dd_slots s
               then s\<lparr>gcFrac := DD_GC_FRAC_LO, minDead := dd_slots s\<rparr> else s)" by blast
  have r1: "same_rest s s1" "same_cache s s1" "subtables s1 = subtables s"
    by (simp_all add: s1 same_rest_def same_nodesI same_table_def same_free_def same_cache_def)
  let ?t = "subtables s ! i"
  let ?s2 = "s1\<lparr>malloc_count := Suc (malloc_count s1)\<rparr>"
  have cond: "gcFrac s1 = DD_GC_FRAC_MIN \<or> memused s1 \<le> maxmem s1" "malloc_addr s1 (malloc_count s1) \<noteq> 0" "1 < st_shift ?t"
  proof -
    have "cuddRehash s i = Inl Not_Modelled" if "\<not> (gcFrac s1 = DD_GC_FRAC_MIN \<or> memused s1 \<le> maxmem s1)"
      using that by (simp add: cuddRehash_def s1 [symmetric] Let_def not_le)
    moreover have "cuddRehash s i = Inl Not_Modelled" if "malloc_addr s1 (malloc_count s1) = 0 \<or> \<not> 1 < st_shift ?t"
      using that i r1(3) by (simp add: cuddRehash_def s1 [symmetric] ALLOC_def Let_def not_less)
    ultimately show "gcFrac s1 = DD_GC_FRAC_MIN \<or> memused s1 \<le> maxmem s1" "malloc_addr s1 (malloc_count s1) \<noteq> 0" "1 < st_shift ?t"
      using False by blast+
  qed
  have sub: "subtable_ok s i ?t" using dd_okD(3) [OF ok] i by (simp add: table_ok_def)
  have "\<forall>c \<in> set (st_nodelist ?t). set c \<subseteq> dom (heap s)"
  proof
    fix c assume "c \<in> set (st_nodelist ?t)"
    then obtain p where "p < length (st_nodelist ?t)" "c = st_nodelist ?t ! p" by (auto simp: in_set_conv_nth)
    then show "set c \<subseteq> dom (heap s)" using sub by (auto simp: subtable_ok_def chain_members_def dest: shape_SomeD)
  qed
  then obtain cs where cs: "rehash_chains ?s2 (st_shift ?t - 1) (st_nodelist ?t) = Inr cs" "length cs = 2 * length (st_nodelist ?t)"
      "\<forall>p < length (st_nodelist ?t). cs ! (2 * p) = filter (\<lambda>q. \<not> odd_hash ?s2 (st_shift ?t - 1) q) (st_nodelist ?t ! p)
          \<and> cs ! Suc (2 * p) = filter (odd_hash ?s2 (st_shift ?t - 1)) (st_nodelist ?t ! p)"
    using rehash_chains_run [of "st_nodelist ?t" ?s2 "st_shift ?t - 1"] r1(1) by (auto simp: same_rest_def)
  have "odd_hash ?s2 = odd_hash s" using r1(1) by (intro ext) (simp add: odd_hash_def kT_def kE_def same_rest_def)
  note cs3 = cs(3) [unfolded this]
  let ?t' = "?t\<lparr>st_nodelist := cs, st_slots := push_bit 1 (st_slots ?t), st_shift := st_shift ?t - 1, st_maxKeys := push_bit 1 (st_slots ?t) * 4\<rparr>"
  obtain s3 where s3: "s3 = ?s2\<lparr>subtables := (subtables ?s2)[i := ?t'],
       memused := memused ?s2 + (push_bit 1 (st_slots ?t) - st_slots ?t) * 4,
       dd_slots := dd_slots ?s2 + (push_bit 1 (st_slots ?t) - st_slots ?t)\<rparr>" by blast
  have mem_ok: "\<not> (gcFrac s1 \<noteq> DD_GC_FRAC_MIN \<and> maxmem s1 < memused s1)" using cond(1) by auto
  have run: "cuddRehash s i = ddFixLimits s3"
    unfolding cuddRehash_def Let_def s1 [symmetric] if_not_P [OF mem_ok]
    using i cond(2,3) r1(3) cs(1) by (simp add: ALLOC_def s3 not_less)
  have n3: "same_nodes s s3" "heap s3 = heap s" "same_free s s3" "subtables s3 = (subtables s)[i := ?t']" "same_cache s s3"
  proof -
    show "same_nodes s s3" by (rule same_nodesI) (use r1(1) in \<open>simp_all add: s3 same_rest_def same_nodes_def\<close>)
    show "heap s3 = heap s" "same_free s s3" "subtables s3 = (subtables s)[i := ?t']" "same_cache s s3"
      using r1 by (simp_all add: s3 same_rest_def same_free_def same_cache_def)
  qed
  have "subtable_ok s i ?t'" by (rule subtable_ok_rehash [OF sub cond(3) cs(2) cs3]) simp_all
  then have "table_ok s3" using dd_okD(3) [OF ok] i
    by (auto simp: table_ok_def n3(4) same_nodes_subtable_ok [OF n3(1)] nth_list_update)
  moreover have "vars_ok s3" using dd_okD(2) [OF ok] same_nodes_vars_ok [OF n3(1)] n3(4) by simp
  moreover have c3: "cache_ok A s3" using same_cache_cache_ok [OF n3(1,5)] dd_okD(5) [OF ok] by simp
  moreover have "nodes_ok s3" using same_nodes_nodes_ok [OF n3(1)] dd_okD(1) [OF ok] by simp
  moreover have "alloc_ok s3" by (rule same_free_alloc_ok [OF n3(1,3) dd_okD(4) [OF ok]])
  moreover have "fn_addr s3 = fn_addr s" using n3(1) by (simp add: same_nodes_def)
  ultimately have ok3: "dd_ok A s3 X F"
    using ok own_refs_cong [OF n3(1)] unfolding dd_ok_def n3(2) ref_ok_cong [OF n3(2)] by simp
  obtain s' where s': "ddFixLimits s3 = Inr s'" "same_rest s3 s'" "cache_ok A s'" using ddFixLimits_spec [OF c3] by blast
  have "dd_ok A s' X F" using dd_ok_heap_eq [OF ok3] s' by (simp add: same_rest_def)
  moreover have "same_nodes s s'" "heap s' = heap s" using n3(1,2) s'(2) by (auto simp: same_rest_def same_nodes_def)
  moreover have "length (subtables s') = length (subtables s)" using same_table_length [of s3 s'] s'(2) n3(4) by (simp add: same_rest_def)
  ultimately show ?thesis using run s'(1) by auto
qed simp

section \<open>A new node\<close>

lemma chain_hash: "subtable_ok s level t \<Longrightarrow> shape s q = Some (i, T, E) \<Longrightarrow> i \<noteq> CUDD_CONST_INDEX \<Longrightarrow> dd_perm s ! i = level \<Longrightarrow>
    q \<in> set (st_nodelist t ! ddHash T E (st_shift t))"
  using ddHash_less [of "st_shift t" T E] by (auto simp: subtable_ok_def chain_members_def)

lemma chain_in_heap: "subtable_ok s level t \<Longrightarrow> c < length (st_nodelist t) \<Longrightarrow> p \<in> set (st_nodelist t ! c) \<Longrightarrow> heap s p \<noteq> None"
  by (auto simp: subtable_ok_def chain_members_def dest: shape_SomeD)

lemma perm_inject: "vars_ok s \<Longrightarrow> i < dd_size s \<Longrightarrow> j < dd_size s \<Longrightarrow> dd_perm s ! i = dd_perm s ! j \<longleftrightarrow> i = j"
  by (simp add: vars_ok_def nth_eq_iff_index_eq)

lemma perm_less: "vars_ok s \<Longrightarrow> i < dd_size s \<Longrightarrow> dd_perm s ! i < dd_size s"
  using nth_mem [of i "dd_perm s"] unfolding vars_ok_def by (metis lessThan_iff subsetD)

text \<open>
  The unique table holds at most one node with given fields.
\<close>

lemma node_unique:
  assumes "nodes_ok s" "vars_ok s" "table_ok s"
    and "shape s p = Some (i, T, E)" "shape s q = Some (i, T, E)"
  shows "p = q"
proof (cases "i = CUDD_CONST_INDEX")
  case True
  then show ?thesis using nodes_okD(3) [OF assms(1)] assms(4,5) by blast
next
  case False
  then have i: "i < dd_size s" using nodes_okD(3,4) [OF assms(1,4)] by blast
  let ?t = "subtables s ! (dd_perm s ! i)"
  have sub: "subtable_ok s (dd_perm s ! i) ?t" using assms(2,3) perm_less [OF assms(2) i] by (simp add: table_ok_def vars_ok_def)
  let ?c = "st_nodelist ?t ! ddHash T E (st_shift ?t)"
  have mem: "p \<in> set ?c" "q \<in> set ?c" using chain_hash [OF sub _ False] assms(4,5) by blast+
  have sorted: "sorted_wrt (chain_order s) ?c"
    using sub ddHash_less [of "st_shift ?t" T E] by (simp add: subtable_ok_def)
  obtain a b where ab: "a < length ?c" "b < length ?c" "p = ?c ! a" "q = ?c ! b" using mem by (metis in_set_conv_nth)
  have irr: "\<not> chain_order s p q" "\<not> chain_order s q p" 
    using chain_order_key [of s p q] chain_order_key [of s q p] shape_k [OF assms(4)] shape_k [OF assms(5)] by auto
  have "a = b"
  proof (rule ccontr)
    assume "a \<noteq> b"
    then show False using sorted_wrt_nth_less [OF sorted, of a b] sorted_wrt_nth_less [OF sorted, of b a] ab irr unfolding nat_neq_iff by blast
  qed
  then show ?thesis using ab by simp
qed

definition new_node :: "DdManager \<Rightarrow> nat \<Rightarrow> nat \<Rightarrow> ptr \<Rightarrow> ptr \<Rightarrow> ptr \<Rightarrow> nat \<Rightarrow> ptr list \<Rightarrow> ptr list \<Rightarrow> DdManager" where
  "new_node s level index q T E pos front rest =
     s\<lparr>dd_keys := dd_keys s + 1,
       subtables := (subtables s)[level := (subtables s ! level)\<lparr>st_keys := st_keys (subtables s ! level) + 1,
          st_nodelist := (st_nodelist (subtables s ! level))[pos := front @ q # rest]\<rparr>],
       heap := (heap s)(q \<mapsto> \<lparr>n_index = index, n_ref = 0, n_T = T, n_E = E\<rparr>)\<rparr>"

lemma insert_node_run:
  "level < length (subtables s) \<Longrightarrow> insert_node s level index q T E pos front rest =
     rbind (cuddRef (new_node s level index q T E pos front rest) T) (\<lambda>s. cuddRef s E)"
  by (simp add: insert_node_def update_subtable_def new_node_def set_node_def)

text \<open>
  The conditions under which a node may be made: its children are in the heap, are different, the
  first is not complemented, and both are below the variable.
\<close>

definition node_args :: "DdManager \<Rightarrow> nat \<Rightarrow> ptr \<Rightarrow> ptr \<Rightarrow> bool" where
  "node_args s index T E \<longleftrightarrow> index < dd_size s \<and> \<not> Cudd_IsComplement T \<and> T \<noteq> E \<and> in_heap s T \<and> in_heap s E
     \<and> dd_perm s ! index < level_of s (Cudd_Regular T) \<and> dd_perm s ! index < level_of s (Cudd_Regular E)"

lemma new_node_shape: "shape (new_node s level index q T E pos front rest) = (shape s)(q \<mapsto> (index, T, E))"
  by (rule ext) (simp add: new_node_def shape_def node_shape_def)

lemma new_node_sel [simp]:
  "dd_one (new_node s level index q T E pos front rest) = dd_one s"
  "dd_size (new_node s level index q T E pos front rest) = dd_size s"
  "dd_perm (new_node s level index q T E pos front rest) = dd_perm s"
  "dd_vars (new_node s level index q T E pos front rest) = dd_vars s"
  "fn_addr (new_node s level index q T E pos front rest) = fn_addr s"
  "length (subtables (new_node s level index q T E pos front rest)) = length (subtables s)"
  by (simp_all add: new_node_def)

lemma new_node_grows: "heap s q = None \<Longrightarrow> grows s (new_node s level index q T E pos front rest)"
  by (simp add: grows_def new_node_shape map_le_def domIff)

lemma new_node_nodes_ok:
  assumes n: "nodes_ok s" "vars_ok s" and a: "node_args s index T E" and q: "unclaimed s q"
  shows "nodes_ok (new_node s level index q T E pos front rest)"
proof -
  let ?s = "new_node s level index q T E pos front rest"
  have g: "grows s ?s" using q by (simp add: new_node_grows unclaimed_def)
  have lev: "level_of ?s p = level_of s p" if "heap s p \<noteq> None" for p by (rule grows_level [OF g that])
  have hp: "heap ?s p \<noteq> None" if "heap s p \<noteq> None" for p by (rule grows_heap [OF g that])
  have f: "dd_one ?s = dd_one s" "dd_size ?s = dd_size s" "dd_perm ?s = dd_perm s" by (simp_all add: new_node_def)
  have d: "dom (heap ?s) = insert q (dom (heap s))" by (auto simp: new_node_def)
  have "dd_one s \<noteq> q" using one_in_heap(1) [OF n(1)] q by (auto simp: unclaimed_def)
  have i: "index < dd_size s" "index \<noteq> CUDD_CONST_INDEX" using a n(2) by (auto simp: node_args_def vars_ok_def)
  have "p \<noteq> 0 \<and> p AND 15 = 0 \<and> (i' = CUDD_CONST_INDEX \<longleftrightarrow> p = dd_one s)
          \<and> (p \<noteq> dd_one s \<longrightarrow> i' < dd_size s \<and> \<not> Cudd_IsComplement t \<and> heap ?s t \<noteq> None \<and> heap ?s (Cudd_Regular e) \<noteq> None
               \<and> t \<noteq> e \<and> dd_perm s ! i' < level_of ?s t \<and> dd_perm s ! i' < level_of ?s (Cudd_Regular e))"
    if p: "shape ?s p = Some (i', t, e)" for p i' t e
  proof (cases "p = q")
    case True
    then have "i' = index" "t = T" "e = E" using p by (simp_all add: new_node_shape)
    moreover have "Cudd_Regular T = T" using a by (simp add: node_args_def)
    moreover from this have "heap s T \<noteq> None" "heap s (Cudd_Regular E) \<noteq> None" "level_of s T = level_of s (Cudd_Regular T)"
      using a by (simp_all add: node_args_def in_heap_def)
    ultimately show ?thesis using a q i lev hp True \<open>dd_one s \<noteq> q\<close> by (simp add: node_args_def unclaimed_def)
  next
    case False
    then have s: "shape s p = Some (i', t, e)" using p by (simp add: new_node_shape)
    then show ?thesis using nodes_okD [OF n(1) s] lev hp by metis
  qed
  moreover have "heap ?s (dd_one s) \<noteq> None" by (rule hp [OF one_in_heap(1) [OF n(1)]])
  moreover have "finite (dom (heap ?s))" using n(1) d by (simp add: nodes_ok_def)
  ultimately show ?thesis unfolding nodes_ok_def f by blast
qed

lemma new_node_vars_ok:
  assumes "vars_ok s" "heap s q = None"
  shows "vars_ok (new_node s level index q T E pos front rest)"
proof -
  have "dd_vars s ! i \<noteq> q" if "i < dd_size s" for i
    using assms that unfolding vars_ok_def by (metis option.distinct(1) shape_eq_None)
  then show ?thesis using assms by (auto simp: vars_ok_def new_node_shape)
qed

lemma new_node_chain_order:
  assumes "heap s q = None" "p \<noteq> q" "p' \<noteq> q"
  shows "chain_order (new_node s level index q T E pos front rest) p p' = chain_order s p p'"
  using assms by (simp add: chain_order_def new_node_shape)

lemma new_node_table_ok:
  assumes n: "nodes_ok s" "vars_ok s" "table_ok s" and a: "node_args s index T E" and q: "unclaimed s q"
    and place: "level = dd_perm s ! index" "pos = ddHash T E (st_shift (subtables s ! level))"
      "st_nodelist (subtables s ! level) ! pos = front @ rest"
      "\<forall>p \<in> set front. key_above s T E p" "\<forall>p \<in> set rest. key_below s T E p"
  shows "table_ok (new_node s level index q T E pos front rest)"
proof -
  let ?s = "new_node s level index q T E pos front rest"
  let ?t = "subtables s ! level"
  let ?t' = "?t\<lparr>st_keys := st_keys ?t + 1, st_nodelist := (st_nodelist ?t)[pos := front @ q # rest]\<rparr>"
  have i: "index < dd_size s" "index \<noteq> CUDD_CONST_INDEX" using a n(2) by (auto simp: node_args_def vars_ok_def)
  have level: "level < length (subtables s)" using perm_less [OF n(2) i(1)] n(2) place(1) by (simp add: vars_ok_def)
  have q0: "heap s q = None" using q by (simp add: unclaimed_def)
  have perm: "dd_perm ?s = dd_perm s" by (simp add: new_node_def)
  have sub: "subtable_ok s l (subtables s ! l)" if "l < length (subtables s)" for l using n(3) that by (simp add: table_ok_def)
  have in_heap: "p \<noteq> q" if "l < length (subtables s)" "c < length (st_nodelist (subtables s ! l))" "p \<in> set (st_nodelist (subtables s ! l) ! c)" for l c p
    using chain_in_heap [OF sub [OF that(1)] that(2,3)] q0 by blast
  have sorted: "sorted_wrt (chain_order ?s) (st_nodelist (subtables s ! l) ! c)" 
    if l: "l < length (subtables s)" "c < length (st_nodelist (subtables s ! l))" for l c
  proof (rule sorted_wrt_mono_rel [rotated])
    show "sorted_wrt (chain_order s) (st_nodelist (subtables s ! l) ! c)" using sub [OF l(1)] l(2) by (simp add: subtable_ok_def)
  qed (use new_node_chain_order [OF q0] in_heap [OF l] in blast)
  have members: "chain_members ?s l sh c = (if l = level \<and> c = ddHash T E sh then insert q else id) (chain_members s l sh c)" for l sh c
    using q0 i(2) place(1) by (auto simp: chain_members_def new_node_shape perm dest: shape_SomeD)
  have pos: "pos < length (st_nodelist ?t)" using sub [OF level] ddHash_less place(2) by (simp add: subtable_ok_def)
  have new_sorted: "sorted_wrt (chain_order ?s) (front @ q # rest)"
  proof -
    have old: "sorted_wrt (chain_order ?s) (front @ rest)" using sorted [OF level pos] place(3) by simp
    have ne: "p \<noteq> q" "heap s p \<noteq> None" if "p \<in> set (front @ rest)" for p
      using in_heap [OF level pos, of p] chain_in_heap [OF sub [OF level] pos, of p] that place(3) by simp_all
    have kq: "kT ?s q = T" "kE ?s q = E" "heap ?s q \<noteq> None" by (simp_all add: kT_def kE_def new_node_def)
    have kp: "kT ?s p = kT s p" "kE ?s p = kE s p" "heap ?s p \<noteq> None" if "p \<in> set (front @ rest)" for p
      using ne [OF that] by (simp_all add: kT_def kE_def new_node_def)
    have "chain_order ?s p q" if "p \<in> set front" for p
      by (rule chain_order_keyI) (use that kq kp [of p] place(4) in \<open>auto simp: key_above_def\<close>)
    moreover have "chain_order ?s q p" if "p \<in> set rest" for p
      by (rule chain_order_keyI) (use that kq kp [of p] place(5) in \<open>auto simp: key_below_def\<close>)
    ultimately show ?thesis using old by (auto simp: sorted_wrt_append)
  qed
  have "subtable_ok ?s l (subtables ?s ! l)" if l: "l < length (subtables s)" for l
  proof (cases "l = level")
    case False
    then have t: "subtables ?s ! l = subtables s ! l" by (simp add: new_node_def)
    show ?thesis using sub [OF l] sorted [OF l] False by (simp add: subtable_ok_def t members)
  next
    case True
    have t: "subtables ?s ! level = ?t'" using level by (simp add: new_node_def)
    have "sorted_wrt (chain_order ?s) (st_nodelist ?t' ! c) \<and> set (st_nodelist ?t' ! c) = chain_members ?s level (st_shift ?t) c"
      if c: "c < length (st_nodelist ?t)" for c
    proof (cases "c = pos")
      case True
      have "set (front @ rest) = chain_members s level (st_shift ?t) pos" 
        using sub [OF level] pos unfolding subtable_ok_def place(3) [symmetric] by blast
      moreover have "chain_members ?s level (st_shift ?t) pos = insert q (chain_members s level (st_shift ?t) pos)"
        unfolding members using place(2) by simp
      ultimately show ?thesis using new_sorted True pos by auto
    next
      case False
      then have "chain_members ?s level (st_shift ?t) c = chain_members s level (st_shift ?t) c"
        unfolding members using place(2) by simp
      moreover have "st_nodelist ?t' ! c = st_nodelist ?t ! c" using False by simp
      ultimately show ?thesis using sub [OF level] sorted [OF level c] c unfolding subtable_ok_def by metis
    qed
    then show ?thesis using sub [OF level] True by (simp add: subtable_ok_def t)
  qed
  then show ?thesis by (simp add: table_ok_def)
qed

lemma new_node_alloc_ok:
  assumes "alloc_ok s" "unclaimed s q"
  shows "alloc_ok (new_node s level index q T E pos front rest)"
proof -
  let ?s = "new_node s level index q T E pos front rest"
  have f: "nextFree ?s = nextFree s" "malloc_addr ?s = malloc_addr s" "malloc_count ?s = malloc_count s" by (simp_all add: new_node_def)
  have fresh: "fresh_nodes ?s qs" if "fresh_nodes s qs" "q \<notin> set qs" for qs
    using that unfolding fresh_nodes_def new_node_def by auto
  show ?thesis unfolding alloc_ok_def f
  proof (intro conjI allI impI)
    show "fresh_nodes ?s (nextFree s)" using assms fresh by (simp add: alloc_ok_def unclaimed_def)
  next
    fix k assume "k \<ge> malloc_count s" "malloc_addr s k \<noteq> 0"
    then show "fresh_nodes ?s (chunk_nodes (malloc_addr s k))" using assms fresh by (simp add: alloc_ok_def unclaimed_def)
  qed (use assms in \<open>unfold alloc_ok_def, blast\<close>)+
qed

lemma new_node_cache_ok:
  assumes "cache_ok A s" "nodes_ok s" "heap s q = None"
  shows "cache_ok A (new_node s level index q T E pos front rest)"
  by (rule cache_ok_grows [OF assms(1) new_node_grows [OF assms(3)] assms(2)]) (simp add: same_cache_def new_node_def)

lemma new_node_live: "heap s q = None \<Longrightarrow> live (new_node s level index q T E pos front rest) = live s"
  by (auto simp: live_def new_node_def)

lemma new_node_kid_count:
  assumes "nodes_ok s" "heap s q = None" "p \<noteq> q"
  shows "kid_count (new_node s level index q T E pos front rest) p = kid_count s p"
  using assms by (intro ext) (simp add: kid_count_def new_node_shape)

lemma new_node_edges:
  assumes "nodes_ok s" "heap s q = None" "q \<notin> L"
  shows "edges (new_node s level index q T E pos front rest) L = edges s L"
  unfolding edges_def using new_node_kid_count [OF assms(1,2)] assms(3)
  by (intro ext sum.cong) metis+

text \<open>
  The references of the new node are counted by the two calls of \<^const>\<open>cuddRef\<close>.
\<close>

lemma cuddRef_live:
  assumes "heap s (Cudd_Regular p) = Some n"
  shows "cuddRef s p = Inr (set_node s (Cudd_Regular p) (n\<lparr>n_ref := cuddSatInc (n_ref n)\<rparr>))"
  using assms by (simp add: cuddRef_def node_def)

lemma unat_SatInc_ge: "cuddSatInc x = DD_MAXREF \<or> unat (cuddSatInc x) = Suc (unat x)"
  using unat_SatInc [of x] by (cases "x = DD_MAXREF") simp_all

lemma new_node_refs:
  assumes ok: "dd_ok A s X {}" and a: "node_args s index T E" and q: "unclaimed s q"
    and live: "Cudd_Regular T \<in> live s" "Cudd_Regular E \<in> live s"
  shows "\<exists>s2. insert_node s (dd_perm s ! index) index q T E pos front rest = Inr s2
     \<and> refs_only (new_node s (dd_perm s ! index) index q T E pos front rest) s2 \<and> ref_ok s2 {q} (\<lambda>p. X p + own_refs s p)"
proof -
  let ?s = "new_node s (dd_perm s ! index) index q T E pos front rest"
  let ?T = "Cudd_Regular T" and ?E = "Cudd_Regular E"
  note n = dd_okD(1,2) [OF ok]
  have q0: "heap s q = None" using q by (simp add: unclaimed_def)
  have i: "index < dd_size s" "index \<noteq> CUDD_CONST_INDEX" using a n(2) by (auto simp: node_args_def vars_ok_def)
  have level: "dd_perm s ! index < length (subtables s)" using perm_less [OF n(2) i(1)] n(2) by (simp add: vars_ok_def)
  obtain nT nE where TE: "heap s ?T = Some nT" "heap s ?E = Some nE" "n_ref nT \<noteq> 0" "n_ref nE \<noteq> 0"
    using live by (auto simp: live_def)
  have ne: "?T \<noteq> q" "?E \<noteq> q" using TE q0 by auto
  have hs: "heap ?s p = (if p = q then Some \<lparr>n_index = index, n_ref = 0, n_T = T, n_E = E\<rparr> else heap s p)" for p
    by (simp add: new_node_def)
  let ?s1 = "set_node ?s ?T (nT\<lparr>n_ref := cuddSatInc (n_ref nT)\<rparr>)"
  have r1: "cuddRef ?s T = Inr ?s1" by (rule cuddRef_live) (simp add: hs ne TE)
  have s1: "refs_only ?s ?s1" by (rule refs_only_set_ref) (simp add: hs ne TE)
  obtain mE where mE: "heap ?s1 ?E = Some mE" "mE = (if ?E = ?T then nT\<lparr>n_ref := cuddSatInc (n_ref nT)\<rparr> else nE)"
    using TE ne by (auto simp: set_node_def hs)
  let ?s2 = "set_node ?s1 ?E (mE\<lparr>n_ref := cuddSatInc (n_ref mE)\<rparr>)"
  have r2: "cuddRef ?s1 E = Inr ?s2" by (rule cuddRef_live [OF mE(1)])
  have s2: "refs_only ?s ?s2" by (rule refs_only_trans [OF s1 refs_only_set_ref [OF mE(1)]])
  have live2: "live ?s2 = live s"
  proof -
    have "live ?s1 = live s" using SatInc_nonzero live(1) new_node_live [OF q0]
      by (subst live_set_ref) (simp_all add: hs ne TE insert_absorb)
    then show ?thesis using SatInc_nonzero live(2) by (subst live_set_ref [OF mE(1)]) (simp add: insert_absorb)
  qed
  have edges: "edges ?s2 (live ?s2 \<union> {q}) p = edges s (live s) p + (of_bool (T = p) + of_bool (?E = p))" for p
  proof -
    have "q \<notin> live s" using q0 by (simp add: live_def)
    moreover have "finite (live s)" by (rule finite_live [OF dd_ok_heap_ok [OF ok]])
    moreover have "kid_count ?s q p = of_bool (T = p) + of_bool (?E = p)" using i(2) by (simp add: kid_count_def new_node_shape)
    ultimately show ?thesis
      unfolding live2 edges_shape [OF refs_only_shape [OF s2]]
      using new_node_edges [OF n(1) q0, of "live s"] by (simp add: edges_def fun_eq_iff)
  qed
  have old: "n_ref m = DD_MAXREF \<or> edges s (live s) p + (X p + own_refs s p) \<le> unat (n_ref m)" if "heap s p = Some m" for p m
    using dd_okD(10) [OF ok] that unfolding ref_ok_def by simp
  have RT: "T = ?T" using a by (simp add: node_args_def)
  have "n_ref m = DD_MAXREF \<or> edges ?s2 (live ?s2 \<union> {q}) p + (X p + own_refs s p) \<le> unat (n_ref m)" if m: "heap ?s2 p = Some m" for p m
  proof -
    have nodes0: "kid_count s r q = 0" for r
    proof -
      have "t \<noteq> q \<and> Cudd_Regular e \<noteq> q" if "shape s r = Some (j, t, e)" "j \<noteq> CUDD_CONST_INDEX" for j t e
        using nodes_okD(3,6,7) [OF n(1) that(1)] that(2) q0 by blast
      then show ?thesis by (auto simp: kid_count_def split: option.split)
    qed
    have "X q = 0" using dd_okD(9) [OF ok, of q] q0 by blast
    moreover have "own_refs s q = 0"
    proof -
      have "dd_one s \<noteq> q" using one_in_heap(1) [OF n(1)] q0 by blast
      moreover have "q \<notin> set (dd_vars s)"
      proof
        assume "q \<in> set (dd_vars s)"
        then obtain j where "j < dd_size s" "q = dd_vars s ! j" using n(2) by (auto simp: vars_ok_def in_set_conv_nth)
        then show False using n(2) q0 unfolding vars_ok_def by (metis option.distinct(1) shape_eq_None)
      qed
      ultimately show ?thesis by (simp add: own_refs_def count_list_0_iff)
    qed
    moreover have "edges s (live s) q = 0" by (simp add: edges_def nodes0)
    ultimately have fresh: "edges ?s2 (live ?s2 \<union> {q}) p + (X p + own_refs s p) = 0" if "p = q"
      using that ne RT edges [of q] by simp
    consider "p = q" | "p \<noteq> q" "p \<noteq> ?T" "p \<noteq> ?E" | "p = ?T" "p \<noteq> ?E" | "p = ?E" "p \<noteq> ?T" | "p = ?T" "p = ?E" by blast
    then show ?thesis
    proof cases
      case 1
      then show ?thesis using fresh by simp
    next
      case 2
      then have "heap s p = Some m" using m by (simp add: set_node_def hs)
      then show ?thesis using old [of p m] 2 RT edges [of p] by auto
    next
      case 3
      then have mm: "n_ref m = cuddSatInc (n_ref nT)" using m by (auto simp: set_node_def)
      have "n_ref nT = DD_MAXREF \<or> edges s (live s) p + (X p + own_refs s p) \<le> unat (n_ref nT)" using old TE(1) 3 by simp
      then show ?thesis using unat_SatInc_ge [of "n_ref nT"] edges [of p] 3 RT unfolding mm by auto
    next
      case 4
      then have mm: "n_ref m = cuddSatInc (n_ref nE)" using m mE by (auto simp: set_node_def)
      have "n_ref nE = DD_MAXREF \<or> edges s (live s) p + (X p + own_refs s p) \<le> unat (n_ref nE)" using old TE(2) 4 by simp
      then show ?thesis using unat_SatInc_ge [of "n_ref nE"] edges [of p] 4 RT unfolding mm by auto
    next
      case 5
      then have mm: "n_ref m = cuddSatInc (cuddSatInc (n_ref nT))" using m mE by (auto simp: set_node_def)
      have "n_ref nT = DD_MAXREF \<or> edges s (live s) p + (X p + own_refs s p) \<le> unat (n_ref nT)" using old TE(1) 5 by simp
      then show ?thesis using unat_SatInc_ge [of "n_ref nT"] unat_SatInc_ge [of "cuddSatInc (n_ref nT)"] edges [of p] 5 RT unfolding mm by auto
    qed
  qed
  then have "ref_ok ?s2 {q} (\<lambda>p. X p + own_refs s p)" by (simp add: ref_ok_def)
  then show ?thesis using level s2 r1 r2 by (simp add: insert_node_run)
qed

lemma insert_node_spec:
  assumes ok: "dd_ok A s X {}" and a: "node_args s index T E" and q: "unclaimed s q"
    and live: "Cudd_Regular T \<in> live s" "Cudd_Regular E \<in> live s"
    and place: "pos = ddHash T E (st_shift (subtables s ! (dd_perm s ! index)))"
      "st_nodelist (subtables s ! (dd_perm s ! index)) ! pos = front @ rest"
      "\<forall>p \<in> set front. key_above s T E p" "\<forall>p \<in> set rest. key_below s T E p"
  shows "\<exists>s2. insert_node s (dd_perm s ! index) index q T E pos front rest = Inr s2 \<and> grows s s2 \<and> dd_ok A s2 X {q}
     \<and> shape s2 q = Some (index, T, E)"
proof -
  let ?s = "new_node s (dd_perm s ! index) index q T E pos front rest"
  obtain s2 where s2: "insert_node s (dd_perm s ! index) index q T E pos front rest = Inr s2" "refs_only ?s s2"
      "ref_ok s2 {q} (\<lambda>p. X p + own_refs s p)"
    using new_node_refs [OF ok a q live] by blast
  note n = dd_okD(1,2,3) [OF ok]
  have q0: "heap s q = None" using q by (simp add: unclaimed_def)
  have g: "grows s ?s" by (rule new_node_grows [OF q0])
  note same = refs_only_same [OF s2(2)]
  have own: "own_refs s2 = own_refs s" using own_refs_cong [OF same(1)] by (simp add: own_refs_def fun_eq_iff)
  have "nodes_ok s2" using new_node_nodes_ok [OF n(1,2) a q] same_nodes_nodes_ok [OF same(1)] by blast
  moreover have "vars_ok s2" using new_node_vars_ok [OF n(2) q0] same_nodes_vars_ok [OF same(1) same_table_length [OF same(2)]] by blast
  moreover have "table_ok s2" using new_node_table_ok [OF n a q refl place] same_table_table_ok [OF same(1,2)] by blast
  moreover have "alloc_ok s2" by (rule same_free_alloc_ok [OF same(1,3) new_node_alloc_ok [OF dd_okD(4) [OF ok] q]])
  moreover have "cache_ok A s2" using new_node_cache_ok [OF dd_okD(5) [OF ok] n(1) q0] same_cache_cache_ok [OF same(1,4)] by blast
  moreover have "inj (fn_addr s2)" using dd_okD(6) [OF ok] same(1) by (simp add: same_nodes_def)
  moreover have sh: "shape s2 q = Some (index, T, E)" using refs_only_shape [OF s2(2)] by (simp add: new_node_shape)
  moreover have "{q} \<subseteq> dom (heap s2)" using sh by (metis domIff empty_subsetI insert_subset option.distinct(1) shape_eq_None)
  moreover have "heap s2 p \<noteq> None" if "0 < X p" for p
    using grows_heap [OF grows_trans [OF g refs_only_grows [OF s2(2)]]] dd_okD(9) [OF ok that] by blast
  ultimately have "dd_ok A s2 X {q}" using s2(3) unfolding dd_ok_def own by simp
  then show ?thesis using s2(1) grows_trans [OF g refs_only_grows [OF s2(2)]] sh by blast
qed

section \<open>Lookup and creation\<close>

definition place_for :: "DdManager \<Rightarrow> nat \<Rightarrow> ptr \<Rightarrow> ptr \<Rightarrow> nat \<Rightarrow> ptr list \<Rightarrow> ptr list \<Rightarrow> bool" where
  "place_for s level T E pos front rest \<longleftrightarrow> pos = ddHash T E (st_shift (subtables s ! level))
     \<and> st_nodelist (subtables s ! level) ! pos = front @ rest
     \<and> (\<forall>p \<in> set front. key_above s T E p) \<and> (\<forall>p \<in> set rest. key_below s T E p)"

lemma subtable_at:
  assumes "dd_ok A s X F" "index < dd_size s"
  shows "perm_at s index = Inr (dd_perm s ! index)" "dd_perm s ! index < length (subtables s)"
    "subtable_ok s (dd_perm s ! index) (subtables s ! (dd_perm s ! index))"
  using dd_okD(2,3) [OF assms(1)] perm_less [OF dd_okD(2) [OF assms(1)] assms(2)] assms(2)
  by (simp_all add: perm_at_def vars_ok_def table_ok_def)

lemma chain_node:
  assumes ok: "dd_ok A s X F" and i: "index < dd_size s"
    and q: "q \<in> set (st_nodelist (subtables s ! (dd_perm s ! index)) ! c)" "c < length (st_nodelist (subtables s ! (dd_perm s ! index)))"
  shows "shape s q = Some (index, kT s q, kE s q)"
proof -
  obtain j t e where j: "shape s q = Some (j, t, e)" "j \<noteq> CUDD_CONST_INDEX" "dd_perm s ! j = dd_perm s ! index"
    using subtable_at(3) [OF ok i] q by (auto simp: subtable_ok_def chain_members_def)
  have "j < dd_size s" using nodes_okD(3,4) [OF dd_okD(1) [OF ok] j(1)] j(2) by blast
  then have "j = index" using perm_inject [OF dd_okD(2) [OF ok] _ i] j(3) by blast
  then show ?thesis using j(1) shape_k [OF j(1)] by simp
qed

lemma find_node:
  assumes ok: "dd_ok A s X F" and i: "index < dd_size s"
  shows "\<exists>pos front rest. find_place s (subtables s ! (dd_perm s ! index)) T E = Inr (pos, front, rest)
     \<and> ((\<exists>q ps. rest = q # ps \<and> is_node s rest T E = Inr True \<and> shape s q = Some (index, T, E))
        \<or> (is_node s rest T E = Inr False \<and> place_for s (dd_perm s ! index) T E pos front rest
            \<and> (\<forall>q. shape s q \<noteq> Some (index, T, E))))"
proof -
  let ?l = "dd_perm s ! index"
  let ?t = "subtables s ! ?l"
  note sub = subtable_at(3) [OF ok i]
  obtain front rest where f: "find_place s ?t T E = Inr (ddHash T E (st_shift ?t), front, rest)"
      "ddHash T E (st_shift ?t) < length (st_nodelist ?t)" "st_nodelist ?t ! ddHash T E (st_shift ?t) = front @ rest"
      "\<forall>q \<in> set front. key_above s T E q" "\<forall>q \<in> set rest. key_below s T E q \<or> q = hd rest \<and> kT s q = T \<and> kE s q = E"
    using find_place_ok [OF sub] by blast
  have node: "shape s q = Some (index, kT s q, kE s q)" if "q \<in> set (front @ rest)" for q
    using chain_node [OF ok i _ f(2), of q] that f(3) by simp
  show ?thesis
  proof (cases "rest \<noteq> [] \<and> kT s (hd rest) = T \<and> kE s (hd rest) = E")
    case True
    then obtain q ps where r: "rest = q # ps" by (cases rest) auto
    have q: "shape s q = Some (index, T, E)" using node [of q] r True by simp
    then have "heap s q \<noteq> None" by (metis option.distinct(1) shape_eq_None)
    then have "is_node s rest T E = Inr True" using r True by (simp add: is_node_def cuddT_in_heap)
    then show ?thesis using f(1) r q by blast
  next
    case False
    have "is_node s rest T E = Inr False"
    proof (cases rest)
      case (Cons q ps)
      then have "shape s q \<noteq> None" using node [of q] by simp
      then show ?thesis using Cons False by (auto simp: is_node_def cuddT_in_heap)
    qed (simp add: is_node_def)
    moreover have below: "\<forall>q \<in> set rest. key_below s T E q" using f(5) False by auto
    moreover have "shape s q \<noteq> Some (index, T, E)" for q
    proof
      assume q: "shape s q = Some (index, T, E)"
      have "index \<noteq> CUDD_CONST_INDEX" using i dd_okD(2) [OF ok] by (auto simp: vars_ok_def)
      then have "q \<in> set (front @ rest)" using chain_hash [OF sub q] f(3) by simp
      then show False using f(4) below shape_k [OF q] by (auto simp: key_above_def key_below_def)
    qed
    ultimately show ?thesis using f by (auto simp: place_for_def)
  qed
qed

lemma node_args_same: "same_nodes s s' \<Longrightarrow> node_args s' index T E = node_args s index T E"
  by (simp add: node_args_def same_nodes_in_heap same_nodes_level) (simp add: same_nodes_def)

lemma make_node:
  assumes ok: "dd_ok A s X {}" and a: "node_args s index T E"
    and live: "Cudd_Regular T \<in> live s" "Cudd_Regular E \<in> live s"
    and place: "place_for s (dd_perm s ! index) T E pos front rest"
  shows "yields (rbind (cuddAllocNode s) (\<lambda>(q, s1).
              if q = 0 then Inr (0, s1)
              else rbind (insert_node s1 (dd_perm s ! index) index q T E pos front rest) (\<lambda>s. Inr (q, s))))
     (gives A s X (\<lambda>r s'. shape s' r = Some (index, T, E)))"
proof (rule yields_bind [OF cuddAllocNode_spec [OF dd_okD(4) [OF ok]]], clarify)
  fix q s1
  assume n: "same_nodes s s1" and t: "subtables s1 = subtables s" and c: "same_cache s s1" and h: "heap s1 = heap s"
    and al: "alloc_ok s1" and q: "q \<noteq> 0 \<longrightarrow> unclaimed s1 q"
  have "same_table s s1" using t by (simp add: same_table_def)
  have "fn_addr s1 = fn_addr s" using n by (simp add: same_nodes_def)
  then have ok1: "dd_ok A s1 X {}"
    using ok al same_nodes_nodes_ok [OF n] same_nodes_vars_ok [OF n] t same_table_table_ok [OF n \<open>same_table s s1\<close>]
      same_cache_cache_ok [OF n c] own_refs_cong [OF n]
    unfolding dd_ok_def h ref_ok_cong [OF h] by simp
  have f: "dd_perm s1 = dd_perm s" using n by (simp add: same_nodes_def)
  show "yields (if q = 0 then Inr (0, s1)
       else rbind (insert_node s1 (dd_perm s ! index) index q T E pos front rest) (\<lambda>s. Inr (q, s)))
      (gives A s X (\<lambda>r s'. shape s' r = Some (index, T, E)))"
  proof (cases "q = 0")
    case True
    then show ?thesis using ok1 same_nodes_grows [OF n] by (simp add: gives_def)
  next
    case False
    then have q': "unclaimed s1 q" using q by blast
    have place1: "place_for s1 (dd_perm s1 ! index) T E pos front rest"
      using place unfolding place_for_def key_above_def key_below_def kT_def kE_def h t f .
    have "live s1 = live s" by (simp add: live_def h)
    then obtain s2 where s2: "insert_node s1 (dd_perm s ! index) index q T E pos front rest = Inr s2" "grows s1 s2"
        "dd_ok A s2 X {q}" "shape s2 q = Some (index, T, E)"
      using insert_node_spec [OF ok1 _ q', of index T E pos front rest] a live place1 node_args_same [OF n]
      unfolding place_for_def f by auto
    have "Cudd_Regular q = q" using q' regular_of_aligned by (simp add: unclaimed_def)
    then show ?thesis using s2 False grows_trans [OF same_nodes_grows [OF n] s2(2)] by (simp add: gives_def)
  qed
qed

lemma node_regular: "nodes_ok s \<Longrightarrow> shape s q = Some x \<Longrightarrow> Cudd_Regular q = q"
  using heap_regular by (metis Cudd_Regular_id option.distinct(1) shape_eq_None)

lemma cuddUniqueInter_spec:
  assumes ok: "dd_ok A s X {}" and a: "node_args s index T E"
    and held: "held s X (Cudd_Regular T)" "held s X (Cudd_Regular E)"
  shows "yields (cuddUniqueInter s index T E) (gives A s X (\<lambda>r s'. shape s' r = Some (index, T, E)))"
proof -
  let ?l = "dd_perm s ! index"
  have i: "index < dd_size s" using a by (simp add: node_args_def)
  note sub = subtable_at [OF ok i]
  obtain pos front rest where f: "find_place s (subtables s ! ?l) T E = Inr (pos, front, rest)"
    and cases: "(\<exists>q ps. rest = q # ps \<and> is_node s rest T E = Inr True \<and> shape s q = Some (index, T, E))
        \<or> (is_node s rest T E = Inr False \<and> place_for s ?l T E pos front rest \<and> (\<forall>q. shape s q \<noteq> Some (index, T, E)))"
    using find_node [OF ok i, of T E] by (elim exE conjE) (rule that; assumption)
  have live: "Cudd_Regular T \<in> live s" "Cudd_Regular E \<in> live s"
    using held_live [OF ok held(1)] held_live [OF ok held(2)] unfolding live_def by blast+
  show ?thesis
    using cases
  proof (elim disjE exE conjE)
    fix q ps assume r: "rest = q # ps" and found: "is_node s rest T E = Inr True" and q: "shape s q = Some (index, T, E)"
    obtain n where n: "heap s q = Some n" using shape_SomeD [OF q] by blast
    have reg: "Cudd_Regular q = q" by (rule node_regular [OF dd_okD(1) [OF ok] q])
    have q0: "q \<noteq> 0" using nodes_okD(1) [OF dd_okD(1) [OF ok] q] .
    have run: "cuddUniqueInter s index T E = rbind (if n_ref n = 0 then cuddReclaim s q else Inr s) (\<lambda>s. Inr (q, s))"
      using i sub f found r n by (simp add: cuddUniqueInter_def node_def)
    show ?thesis
    proof (cases "n_ref n = 0")
      case True
      obtain s' where s': "cuddReclaim s q = Inr s'" "refs_only s s'" "dd_ok A s' X {Cudd_Regular q}"
        using reclaim_spec [OF ok, of q] n reg by (auto simp: in_heap_def)
      then show ?thesis using run True refs_only_grows [OF s'(2)] q refs_only_shape [OF s'(2)] q0 by (simp add: gives_def)
    next
      case False
      then show ?thesis using run q q0 float_live [OF ok n False] reg by (simp add: gives_def)
    qed
  next
    assume nf: "is_node s rest T E = Inr False" and place: "place_for s ?l T E pos front rest"
      and none: "\<forall>q. shape s q \<noteq> Some (index, T, E)"
    let ?make = "\<lambda>s pos front rest. rbind (cuddAllocNode s) (\<lambda>(q, s).
              if q = 0 then Inr (0, s) else rbind (insert_node s ?l index q T E pos front rest) (\<lambda>s. Inr (q, s)))"
    let ?t = "subtables s ! ?l"
    have run: "cuddUniqueInter s index T E = Inl Not_Modelled \<or> cuddUniqueInter s index T E =
        rbind (if st_maxKeys ?t < st_keys ?t then
                 rbind (cuddRehash s ?l) (\<lambda>s. rbind (idx (subtables s) (int ?l)) (\<lambda>subtable.
                   rbind (find_place s subtable T E) (\<lambda>place. Inr (place, s))))
               else Inr ((pos, front, rest), s)) (\<lambda>((pos, front, rest), s). ?make s pos front rest)"
      using i sub(1,2) f nf by (simp add: cuddUniqueInter_def)
    show ?thesis
    proof (cases "st_maxKeys (subtables s ! ?l) < st_keys (subtables s ! ?l)")
      case False
      then show ?thesis using run make_node [OF ok a live place] by auto
    next
      case True
      consider "cuddUniqueInter s index T E = Inl Not_Modelled"
        | s1 where "cuddRehash s ?l = Inr s1" "same_nodes s s1" "heap s1 = heap s" "dd_ok A s1 X {}" "length (subtables s1) = length (subtables s)"
            "cuddUniqueInter s index T E = rbind (rbind (idx (subtables s1) (int ?l)) (\<lambda>subtable.
                        rbind (find_place s1 subtable T E) (\<lambda>place. Inr (place, s1)))) (\<lambda>((pos, front, rest), s). ?make s pos front rest)"
        using run unfolding if_P [OF True]
      proof (elim disjE)
        assume r: "cuddUniqueInter s index T E = rbind (rbind (cuddRehash s ?l) (\<lambda>s. rbind (idx (subtables s) (int ?l)) (\<lambda>subtable.
                   rbind (find_place s subtable T E) (\<lambda>place. Inr (place, s))))) (\<lambda>((pos, front, rest), s). ?make s pos front rest)"
        show thesis using cuddRehash_spec [OF ok sub(2)]
        proof (elim disjE exE conjE)
          assume "cuddRehash s ?l = Inl Not_Modelled"
          then show thesis using r that(1) by simp
        next
          fix s1 assume "cuddRehash s ?l = Inr s1" "same_nodes s s1" "heap s1 = heap s" "dd_ok A s1 X {}" "length (subtables s1) = length (subtables s)"
          then show thesis using r that(2) [of s1] by simp
        qed
      qed (use that(1) in blast)
      then show ?thesis
      proof cases
        case 2
        have f1: "dd_perm s1 = dd_perm s" "dd_size s1 = dd_size s" "shape s1 = shape s" using 2(2) by (simp_all add: same_nodes_def)
        obtain pos' front' rest' where place1: "find_place s1 (subtables s1 ! ?l) T E = Inr (pos', front', rest')"
            "place_for s1 ?l T E pos' front' rest'"
          using find_node [OF 2(4), of index T E] i none unfolding f1 by blast
        have "live s1 = live s" by (simp add: live_def 2(3))
        then have "yields (?make s1 pos' front' rest') (gives A s1 X (\<lambda>r s'. shape s' r = Some (index, T, E)))"
          using make_node [OF 2(4), of index T E pos' front' rest'] a live place1(2) node_args_same [OF 2(2)] unfolding f1 by simp
        then have "yields (?make s1 pos' front' rest') (gives A s X (\<lambda>r s'. shape s' r = Some (index, T, E)))"
          by (rule yields_weaken) (rule gives_after [OF same_nodes_grows [OF 2(2)]])
        then show ?thesis using 2(5,6) sub(2) place1(1) by simp
      qed simp
    qed
  qed
qed

lemma Cudd_bddIthVar_spec:
  assumes ok: "dd_ok A s X F" and i: "i < dd_size s"
  shows "Cudd_bddIthVar s i = Inr (dd_vars s ! i, s)" "shape s (dd_vars s ! i) = Some (i, dd_one s, Cudd_Not (dd_one s))"
    "held s X (dd_vars s ! i)"
proof -
  note v = dd_okD(2) [OF ok]
  show "Cudd_bddIthVar s i = Inr (dd_vars s ! i, s)" using i v by (simp add: Cudd_bddIthVar_def vars_ok_def)
  show "shape s (dd_vars s ! i) = Some (i, dd_one s, Cudd_Not (dd_one s))" using i v by (simp add: vars_ok_def)
  have "dd_vars s ! i \<in> set (dd_vars s)" using i v by (simp add: vars_ok_def)
  then have "0 < own_refs s (dd_vars s ! i)" using count_list_0_iff [of "dd_vars s" "dd_vars s ! i"] by (simp add: own_refs_def)
  then show "held s X (dd_vars s ! i)" by (intro held_ref) simp
qed

end
