(* ===== verification/Cudd_Canonical.thy ===== *)
theory Cudd_Canonical
  imports Cudd_Unique
begin

text \<open>
  Canonicity: two pointers of a manager that denote the same function are the same pointer, so
  comparing functions is comparing pointers.
\<close>

section \<open>Canonicity\<close>

text \<open>
  Two pointers of a manager that denote the same function are the same pointer.
\<close>

lemma all_true: "nodes_ok s \<Longrightarrow> vars_ok s \<Longrightarrow> in_heap s p \<Longrightarrow> sem s p (\<lambda>_. True) \<longleftrightarrow> \<not> Cudd_IsComplement p"
proof (induction "dd_size s - level_of s (Cudd_Regular p)" arbitrary: p rule: less_induct)
  case less
  obtain i t e where q: "shape s (Cudd_Regular p) = Some (i, t, e)"
    using less.prems(3) heap_shape [of s "Cudd_Regular p"] unfolding in_heap_def by blast
  show ?case
  proof (cases "Cudd_Regular p = dd_one s")
    case False
    note d = nodes_okD [OF less.prems(1) q]
    have t: "in_heap s t" "Cudd_Regular t = t" using d(5,6) False by (simp_all add: in_heap_def)
    have "level_of s (Cudd_Regular p) = dd_perm s ! i" by (rule level_of_node [OF less.prems(1) q False])
    moreover have "level_of s t \<le> dd_size s" using level_of_le(1) [OF less.prems(1,2)] d(6) False by blast
    ultimately have "sem s t (\<lambda>_. True)" using less.hyps [of t] less.prems t d(5,9) False by simp
    then show ?thesis using sem_node [OF less.prems(1,2) q False, of "\<lambda>_. True"] by simp
  qed (simp add: sem_const)
qed

lemma sem_indep:
  assumes "nodes_ok s" "vars_ok s" "in_heap s p" "j < dd_size s" "dd_perm s ! j < level_of s (Cudd_Regular p)"
  shows "sem s p (a(j := b)) = sem s p a"
  using assms
proof (induction "dd_size s - level_of s (Cudd_Regular p)" arbitrary: p rule: less_induct)
  case less
  obtain i t e where q: "shape s (Cudd_Regular p) = Some (i, t, e)"
    using less.prems(3) heap_shape [of s "Cudd_Regular p"] unfolding in_heap_def by blast
  show ?case
  proof (cases "Cudd_Regular p = dd_one s")
    case False
    note d = nodes_okD [OF less.prems(1) q]
    have k: "in_heap s t" "Cudd_Regular t = t" "in_heap s e" using d(5,6,7) False by (simp_all add: in_heap_def)
    have l: "level_of s (Cudd_Regular p) = dd_perm s ! i" by (rule level_of_node [OF less.prems(1) q False])
    have le: "level_of s t \<le> dd_size s" "level_of s (Cudd_Regular e) \<le> dd_size s"
      using level_of_le(1) [OF less.prems(1,2)] d(6,7) False by blast+
    have "sem s t (a(j := b)) = sem s t a" "sem s e (a(j := b)) = sem s e a"
      using less.hyps [of t] less.hyps [of e] less.prems k l le d(9,10) False by simp_all
    moreover have "j \<noteq> i" using less.prems(5) l by auto
    ultimately show ?thesis using sem_node [OF less.prems(1,2) q False] by simp
  qed (simp add: sem_const)
qed

lemma sem_kids:
  assumes n: "nodes_ok s" "vars_ok s" and q: "shape s q = Some (i, t, e)" "q \<noteq> dd_one s"
  shows "sem s t a = sem s q (a(i := True))" "sem s e a = sem s q (a(i := False))"
proof -
  note d = nodes_okD [OF n(1) q(1)]
  have r: "Cudd_Regular q = q" "\<not> Cudd_IsComplement q" using node_regular [OF n(1) q(1)] regular_of_aligned [OF nodes_okD(2) [OF n(1) q(1)]] by simp_all
  have k: "in_heap s t" "Cudd_Regular t = t" "in_heap s e" using d(5,6,7) q(2) by (simp_all add: in_heap_def)
  have "sem s q (a(i := b)) = (if b then sem s t (a(i := b)) else sem s e (a(i := b)))" for b
    using sem_node [OF n, of q i t e "a(i := b)"] q r by simp
  moreover have "sem s t (a(i := b)) = sem s t a" "sem s e (a(i := b)) = sem s e a" for b
    using sem_indep [OF n k(1) d(4) [OF q(2)]] sem_indep [OF n k(3) d(4) [OF q(2)]] d(9,10) q(2) k(2) by simp_all
  ultimately show "sem s t a = sem s q (a(i := True))" "sem s e a = sem s q (a(i := False))" by simp_all
qed

lemma canonical_regular:
  assumes n: "nodes_ok s" "vars_ok s" "table_ok s"
    and "heap s p \<noteq> None" "heap s q \<noteq> None" "sem s p = sem s q"
  shows "p = q"
  using assms(4-)
proof (induction "2 * dd_size s - (level_of s p + level_of s q)" arbitrary: p q rule: less_induct)
  case less
  obtain i t e where p: "shape s p = Some (i, t, e)" using heap_shape [OF less.prems(1)] by blast
  obtain j u f where q: "shape s q = Some (j, u, f)" using heap_shape [OF less.prems(2)] by blast
  have step: "False" if x: "shape s x = Some (k, v, w)" "x \<noteq> dd_one s" and eq: "sem s x = sem s y" and y: "heap s y \<noteq> None"
      and lev: "level_of s x < level_of s y" and IH: "\<And>p q. 2 * dd_size s - (level_of s p + level_of s q) < 2 * dd_size s - (level_of s x + level_of s y) \<Longrightarrow>
        heap s p \<noteq> None \<Longrightarrow> heap s q \<noteq> None \<Longrightarrow> sem s p = sem s q \<Longrightarrow> p = q" for x y k v w
  proof -
    note d = nodes_okD [OF n(1) x(1)]
    have l: "level_of s x = dd_perm s ! k" by (rule level_of_node [OF n(1) x])
    have ry: "Cudd_Regular y = y" using heap_regular [OF n(1) y] by simp
    have "sem s y (a(k := b)) = sem s y a" for a b
      using sem_indep [OF n(1,2), of y k] y d(4) [OF x(2)] lev l ry by (simp add: in_heap_def)
    then have vw: "sem s v = sem s y" "sem s w = sem s y" using sem_kids [OF n(1,2) x] eq by (auto simp: fun_eq_iff)
    have reg: "\<not> Cudd_IsComplement w"
      using all_true [OF n(1,2), of v] all_true [OF n(1,2), of w] d(5-7) x(2) vw by (auto simp: in_heap_def)
    have hv: "heap s v \<noteq> None" "heap s w \<noteq> None" using d(6,7) x(2) reg by simp_all
    have "level_of s v \<le> dd_size s" "level_of s w \<le> dd_size s" "level_of s y \<le> dd_size s"
      using level_of_le(1) [OF n(1,2)] hv y by blast+
    moreover have "level_of s x < level_of s v" "level_of s x < level_of s w" using d(9,10) x(2) l reg by simp_all
    ultimately have "v = y" "w = y" using IH [of v y] IH [of w y] hv y vw lev by simp_all
    then show False using d(8) x(2) by simp
  qed
  have one: "level_of s x < dd_size s \<longleftrightarrow> x \<noteq> dd_one s" if "heap s x \<noteq> None" for x
    using level_of_le(2) [OF n(1,2) that] level_of_one [OF n(1)] by auto
  have le: "level_of s p \<le> dd_size s" "level_of s q \<le> dd_size s" using level_of_le(1) [OF n(1,2)] less.prems by blast+
  consider "level_of s p < level_of s q" | "level_of s q < level_of s p" | "level_of s p = level_of s q" by linarith
  then show ?case
  proof cases
    case 1
    then have "p \<noteq> dd_one s" using one [OF less.prems(1)] le by simp
    then show ?thesis using step [OF p _ less.prems(3,2) 1] less.hyps by blast
  next
    case 2
    then have "q \<noteq> dd_one s" using one [OF less.prems(2)] le by simp
    moreover have "2 * dd_size s - (level_of s q + level_of s p) = 2 * dd_size s - (level_of s p + level_of s q)" by simp
    ultimately show ?thesis using step [OF q _ less.prems(3) [symmetric] less.prems(1) 2] less.hyps by metis
  next
    case 3
    show ?thesis
    proof (cases "p = dd_one s")
      case True
      then show ?thesis using one [OF less.prems(1)] one [OF less.prems(2)] 3 by metis
    next
      case False
      then have q1: "q \<noteq> dd_one s" using one [OF less.prems(1)] one [OF less.prems(2)] 3 by metis
      note dp = nodes_okD [OF n(1) p] and dq = nodes_okD [OF n(1) q]
      have lp: "level_of s p = dd_perm s ! i" "level_of s q = dd_perm s ! j"
        using level_of_node [OF n(1) p False] level_of_node [OF n(1) q q1] by simp_all
      then have "dd_perm s ! i = dd_perm s ! j" using 3 by argo
      then have ij: "i = j" unfolding perm_inject [OF n(2) dp(4) [OF False] dq(4) [OF q1]] .
      have T: "sem s t = sem s u" "sem s e = sem s f"
      proof -
        show "sem s t = sem s u"
        proof (rule ext)
          fix a
          have "sem s t a = sem s p (a(i := True))" by (rule sem_kids(1) [OF n(1,2) p False])
          also have "\<dots> = sem s u a" unfolding less.prems(3) ij by (rule sem_kids(1) [OF n(1,2) q q1, symmetric])
          finally show "sem s t a = sem s u a" .
        qed
        show "sem s e = sem s f"
        proof (rule ext)
          fix a
          have "sem s e a = sem s p (a(i := False))" by (rule sem_kids(2) [OF n(1,2) p False])
          also have "\<dots> = sem s f a" unfolding less.prems(3) ij by (rule sem_kids(2) [OF n(1,2) q q1, symmetric])
          finally show "sem s e a = sem s f a" .
        qed
      qed
      have he: "in_heap s e" "in_heap s f" using dp(7) dq(7) False q1 by (simp_all add: in_heap_def)
      have smaller: "2 * dd_size s - (level_of s x + level_of s y) < 2 * dd_size s - (level_of s p + level_of s q)"
        if "level_of s p < level_of s x" "level_of s q < level_of s y" "heap s x \<noteq> None" "heap s y \<noteq> None" for x y
        using that level_of_le(1) [OF n(1,2) that(3)] level_of_le(1) [OF n(1,2) that(4)] by linarith
      have tu: "t = u"
        by (rule less.hyps [OF smaller]) (use dp(6,9) [OF False] dq(6,9) [OF q1] lp T(1) in auto)
      have ef: "Cudd_Regular e = Cudd_Regular f" if "sem s (Cudd_Regular e) = sem s (Cudd_Regular f)"
        by (rule less.hyps [OF smaller]) (use dp(7,10) [OF False] dq(7,10) [OF q1] lp that in auto)
      have c: "Cudd_IsComplement e = Cudd_IsComplement f" using all_true [OF n(1,2) he(1)] all_true [OF n(1,2) he(2)] T(2) by simp
      then have "sem s (Cudd_Regular e) = sem s (Cudd_Regular f)"
        using sem_Regular [OF he(1)] sem_Regular [OF he(2)] T(2) by (auto simp: fun_eq_iff)
      then have "e = f" using ef c by (metis Cudd_IsComplement_Not Cudd_Regular_eq_iff)
      then show ?thesis using node_unique [OF n p] q ij tu by simp
    qed
  qed
qed

lemma canonical:
  assumes n: "nodes_ok s" "vars_ok s" "table_ok s" and p: "in_heap s p" "in_heap s q" and sem: "sem s p = sem s q"
  shows "p = q"
proof -
  have c: "Cudd_IsComplement p = Cudd_IsComplement q" using all_true [OF n(1,2) p(1)] all_true [OF n(1,2) p(2)] sem by simp
  then have "sem s (Cudd_Regular p) = sem s (Cudd_Regular q)"
    using sem_Regular [OF p(1)] sem_Regular [OF p(2)] sem by (auto simp: fun_eq_iff)
  then have "Cudd_Regular p = Cudd_Regular q" using canonical_regular [OF n] p by (simp add: in_heap_def)
  then show ?thesis using c by (metis Cudd_IsComplement_Not Cudd_Regular_eq_iff)
qed

end
