(* ===== verification/Cudd_Recur.thy ===== *)
theory Cudd_Recur
  imports Cudd_Canonical
begin

text \<open>
  What the recursive operations on diagrams have in common (\<^verbatim>\<open>cuddBddIte.c\<close>, \<^verbatim>\<open>lddIte.c\<close>): cofactors,
  the two recursive calls with their reference counts and null results, and the node that joins the
  results.  The interface of the node constructor is a locale; the proofs of the common parts are
  done once against it.
\<close>

section \<open>The common parts of the recursive operations\<close>

text \<open>The cofactors of two operands with respect to the top variable of both.\<close>

definition kids :: "DdNode \<Rightarrow> ptr \<Rightarrow> ptr \<times> ptr" where
  "kids n f = (if Cudd_IsComplement f then (Cudd_Not (n_T n), Cudd_Not (n_E n)) else (n_T n, n_E n))"

definition cofactors2 :: "DdManager \<Rightarrow> ptr \<Rightarrow> ptr \<Rightarrow> (nat \<times> (ptr \<times> ptr) \<times> (ptr \<times> ptr)) res" where
  "cofactors2 s f g =
     rbind (node s (Cudd_Regular f)) (\<lambda>F. rbind (perm_at s (n_index F)) (\<lambda>topf.
     rbind (node s (Cudd_Regular g)) (\<lambda>G. rbind (perm_at s (n_index G)) (\<lambda>topg.
       Inr (if topf \<le> topg then n_index F else n_index G,
            if topf \<le> topg then kids F f else (f, f),
            if topg \<le> topf then kids G g else (g, g))))))"

text \<open>Both recursive calls, the second after the first result is referenced.\<close>

definition run_branches :: "(DdManager \<Rightarrow> (ptr \<times> DdManager) res) \<Rightarrow> (DdManager \<Rightarrow> (ptr \<times> DdManager) res) \<Rightarrow>
    (DdManager \<Rightarrow> ptr \<Rightarrow> ptr \<Rightarrow> (ptr \<times> DdManager) res) \<Rightarrow> DdManager \<Rightarrow> (ptr \<times> DdManager) res" where
  "run_branches rt re join s =
     rbind (rt s) (\<lambda>(t, s).
       if t = 0 then Inr (0, s)
       else
         rbind (cuddRef s t) (\<lambda>s.
         rbind (re s) (\<lambda>(e, s).
           if e = 0 then rbind (Cudd_IterDerefBdd s t) (\<lambda>s. Inr (0, s))
           else rbind (cuddRef s e) (\<lambda>s. join s t e))))"

text \<open>The node for the results, with the complement of the first pushed to the result.\<close>

definition make_pushed :: "(DdManager \<Rightarrow> nat \<Rightarrow> ptr \<Rightarrow> ptr \<Rightarrow> (ptr \<times> DdManager) res) \<Rightarrow> DdManager \<Rightarrow> nat \<Rightarrow> ptr \<Rightarrow> ptr \<Rightarrow> (ptr \<times> DdManager) res" where
  "make_pushed mk s index t e =
     (if t = e then Inr (t, s)
      else if Cudd_IsComplement t then
        rbind (mk s index (Cudd_Not t) (Cudd_Not e)) (\<lambda>(r, s). Inr (if r = 0 then 0 else Cudd_Not r, s))
      else mk s index t e)"

text \<open>
  Where the first result is known to be regular there is nothing to push; \<^verbatim>\<open>lddIteRecur\<close> asserts the
  same of the node it gets.
\<close>

definition make_regular :: "(DdManager \<Rightarrow> nat \<Rightarrow> ptr \<Rightarrow> ptr \<Rightarrow> (ptr \<times> DdManager) res) \<Rightarrow> DdManager \<Rightarrow> nat \<Rightarrow> ptr \<Rightarrow> ptr \<Rightarrow> (ptr \<times> DdManager) res" where
  "make_regular mk s index t e = (if t = e then Inr (t, s) else mk s index t e)"

definition make_asserted :: "(DdManager \<Rightarrow> nat \<Rightarrow> ptr \<Rightarrow> ptr \<Rightarrow> (ptr \<times> DdManager) res) \<Rightarrow> DdManager \<Rightarrow> nat \<Rightarrow> ptr \<Rightarrow> ptr \<Rightarrow> (ptr \<times> DdManager) res" where
  "make_asserted mk s index t e =
     rbind (make_regular mk s index t e) (\<lambda>(r, s). if r = 0 then Inr (0, s) else rassert (\<not> Cudd_IsComplement r) (Inr (r, s)))"

definition drop_both :: "DdManager \<Rightarrow> ptr \<Rightarrow> ptr \<Rightarrow> (ptr \<times> DdManager) res" where
  "drop_both s t e = rbind (Cudd_IterDerefBdd s t) (\<lambda>s. rbind (Cudd_IterDerefBdd s e) (\<lambda>s. Inr (0, s)))"

text \<open>
  On Boolean diagrams the results stay referenced through the new node; on linear decision diagrams
  they may have become garbage.
\<close>

definition join_bdd :: "(DdManager \<Rightarrow> nat \<Rightarrow> ptr \<Rightarrow> ptr \<Rightarrow> (ptr \<times> DdManager) res) \<Rightarrow> nat \<Rightarrow> (DdManager \<Rightarrow> ptr \<Rightarrow> DdManager res) \<Rightarrow>
    DdManager \<Rightarrow> ptr \<Rightarrow> ptr \<Rightarrow> (ptr \<times> DdManager) res" where
  "join_bdd maker index save s t e =
     rbind (maker s index t e) (\<lambda>(r, s).
       if r = 0 then drop_both s t e
       else rbind (cuddDeref s e) (\<lambda>s. rbind (cuddDeref s t) (\<lambda>s. rbind (save s r) (\<lambda>s. Inr (r, s)))))"

definition join_ldd :: "(DdManager \<Rightarrow> nat \<Rightarrow> ptr \<Rightarrow> ptr \<Rightarrow> (ptr \<times> DdManager) res) \<Rightarrow> nat \<Rightarrow> (DdManager \<Rightarrow> ptr \<Rightarrow> DdManager res) \<Rightarrow>
    DdManager \<Rightarrow> ptr \<Rightarrow> ptr \<Rightarrow> (ptr \<times> DdManager) res" where
  "join_ldd maker index save s t e =
     rbind (maker s index t e) (\<lambda>(r, s).
       if r = 0 then drop_both s t e
       else
         rbind (cuddRef s r) (\<lambda>s. rbind (Cudd_IterDerefBdd s t) (\<lambda>s. rbind (Cudd_IterDerefBdd s e) (\<lambda>s.
         rbind (save s r) (\<lambda>s. rbind (cuddDeref s r) (\<lambda>s. Inr (r, s)))))))"

section \<open>Values of an operation\<close>

lemma lev_Not [simp]: "lev s (Cudd_Not p) = lev s p"
  by (simp add: lev_def)

lemma grows_lev: "grows s s' \<Longrightarrow> in_heap s p \<Longrightarrow> lev s' p = lev s p"
  by (simp add: lev_def in_heap_def grows_level)

definition hp :: "DdManager \<Rightarrow> (ptr \<Rightarrow> nat) \<Rightarrow> ptr \<Rightarrow> bool" where
  "hp s X p \<longleftrightarrow> held s X (Cudd_Regular p)"

lemma hp_Not [simp]: "hp s X (Cudd_Not p) = hp s X p"
  by (simp add: hp_def)

lemma hp_in_heap: "dd_ok A s X F \<Longrightarrow> hp s X p \<Longrightarrow> in_heap s p"
  using held_live unfolding hp_def in_heap_def by blast

lemma hp_mono: "hp s X p \<Longrightarrow> grows s s' \<Longrightarrow> (\<And>q. X q \<le> X' q) \<Longrightarrow> hp s' X' p"
  unfolding hp_def by (rule held_mono)

lemma hp_add_ref: "hp s (add_ref X p) p"
  unfolding hp_def by (rule held_ref) (simp add: add_ref_def)

lemma hp_one: "hp s X (dd_one s)" if "nodes_ok s"
  using one_in_heap(2) [OF that] own_refs_one [of s] by (auto simp: hp_def intro: held_ref)

text \<open>
  What an operation returns: a pointer at or below a level whose function is the given one on the
  assignments \<^verbatim>\<open>B\<close>.
\<close>

definition denotes :: "(nat \<Rightarrow> bool) set \<Rightarrow> nat \<Rightarrow> bfun \<Rightarrow> ptr \<Rightarrow> DdManager \<Rightarrow> bool" where
  "denotes B l h r s' \<longleftrightarrow> in_heap s' r \<and> l \<le> lev s' r \<and> (\<forall>a \<in> B. sem s' r a = h a)"

lemma denotes_grows: "denotes B l h r s \<Longrightarrow> grows s s' \<Longrightarrow> nodes_ok s \<Longrightarrow> denotes B l h r s'"
  by (simp add: denotes_def grows_lev grows_sem grows_in_heap)

lemma denotes_Not: "denotes B l h r s \<Longrightarrow> denotes B l (\<lambda>a. \<not> h a) (Cudd_Not r) s"
  by (simp add: denotes_def)

text \<open>What remains to be done with a result before it is returned keeps it.\<close>

definition saves :: "(nat \<Rightarrow> bool) set \<Rightarrow> (nat \<Rightarrow> bool) set \<Rightarrow> nat \<Rightarrow> (DdManager \<Rightarrow> ptr \<Rightarrow> DdManager res) \<Rightarrow> DdManager \<Rightarrow> bfun \<Rightarrow> bool" where
  "saves A B l save s0 h \<longleftrightarrow> (\<forall>X F s r. grows s0 s \<longrightarrow> dd_ok A s X F \<longrightarrow> in_heap s r \<longrightarrow> l \<le> lev s r \<longrightarrow> (\<forall>a \<in> B. sem s r a = h a) \<longrightarrow>
     (\<exists>s'. save s r = Inr s' \<and> same_nodes s s' \<and> dd_ok A s' X F))"

lemma drop_both_spec:
  assumes ok: "dd_ok A s (add_ref (add_ref X t) e) {}"
  shows "yields (drop_both s t e) (gives A s X P)"
proof -
  have swap: "add_ref (add_ref X t) e = add_ref (add_ref X e) t" by (simp add: add_ref_def fun_eq_iff)
  obtain s1 where s1: "Cudd_IterDerefBdd s t = Inr s1" "refs_only s s1" "dd_ok A s1 (add_ref X e) {}"
    using iterDeref_spec [OF ok [unfolded swap]] by blast
  obtain s2 where s2: "Cudd_IterDerefBdd s1 e = Inr s2" "refs_only s1 s2" "dd_ok A s2 X {}"
    using iterDeref_spec [OF s1(3)] by blast
  show ?thesis using s1 s2 grows_trans [OF refs_only_grows refs_only_grows] by (simp add: drop_both_def gives_def)
qed

lemma denotes_same: "denotes B l h r s \<Longrightarrow> same_nodes s s' \<Longrightarrow> denotes B l h r s'"
  by (simp add: denotes_def lev_def same_nodes_in_heap same_nodes_sem same_nodes_level)

lemma deref_keep_spec:
  assumes ok: "dd_ok A s (add_ref X p) F"
  shows "\<exists>s'. cuddDeref s p = Inr s' \<and> refs_only s s' \<and> dd_ok A s' X F"
proof -
  let ?N = "Cudd_Regular p"
  obtain n where n: "heap s ?N = Some n" using add_ref_in_heap [OF ok] by blast
  let ?s = "set_node s ?N (n\<lparr>n_ref := cuddSatDec (n_ref n)\<rparr>)"
  have "ref_ok s F (\<lambda>q. (X q + own_refs s q) + of_bool (q = ?N))"
    using dd_okD(10) [OF ok] by (simp add: add_ref_own)
  then have "ref_ok ?s F (\<lambda>q. X q + own_refs s q)"
    using ref_ok_dec [OF dd_ok_heap_ok [OF ok] _ dd_okD(7) [OF ok] n, of "\<lambda>q. X q + own_refs s q" F] by blast
  then have "dd_ok A ?s X F"
    using dd_okD(7,8,9) [OF ok] by (intro dd_ok_refs_only [OF ok refs_only_set_ref [OF n]]) (auto simp: add_ref_def)
  then show ?thesis using refs_only_set_ref [OF n] by (simp add: cuddDeref_def node_def n)
qed

lemma denotes_above: "denotes B (Suc l) h r s \<Longrightarrow> l < lev s r"
  by (simp add: denotes_def)

lemma hp_add_ref_both: "hp s (add_ref (add_ref X t) e) t" "hp s (add_ref (add_ref X t) e) e"
  using hp_add_ref by (auto intro: hp_mono [OF hp_add_ref grows_refl] simp: add_ref_def)

text \<open>
  The two calls, each result referenced while the other is computed and joined.
\<close>

lemma branches_spec:
  assumes rt: "yields (rt s) (gives A s X (denotes B (Suc l) ft))"
    and re: "\<And>s1 X1. grows s s1 \<Longrightarrow> dd_ok A s1 X1 {} \<Longrightarrow> (\<And>q. X q \<le> X1 q) \<Longrightarrow>
        yields (re s1) (gives A s1 X1 (denotes B (Suc l) fe))"
    and join: "\<And>s1 t e. grows s s1 \<Longrightarrow> dd_ok A s1 (add_ref (add_ref X t) e) {} \<Longrightarrow> denotes B (Suc l) ft t s1 \<Longrightarrow>
        denotes B (Suc l) fe e s1 \<Longrightarrow> yields (join s1 t e) (gives A s1 X P)"
  shows "yields (run_branches rt re join s) (gives A s X P)"
  unfolding run_branches_def
proof (rule yields_bind [OF rt], clarify)
  fix t s1 assume t: "gives A s X (denotes B (Suc l) ft) t s1"
  show "yields (if t = 0 then Inr (0, s1) else rbind (cuddRef s1 t) (\<lambda>s. rbind (re s) (\<lambda>(e, s).
           if e = 0 then rbind (Cudd_IterDerefBdd s t) (\<lambda>s. Inr (0, s)) else rbind (cuddRef s e) (\<lambda>s. join s t e)))) (gives A s X P)"
  proof (cases "t = 0")
    case True
    then show ?thesis using t by (simp add: gives_def)
  next
    case False
    then have t1: "grows s s1" "dd_ok A s1 X {Cudd_Regular t}" "denotes B (Suc l) ft t s1" using t by (simp_all add: gives_def)
    obtain s2 where s2: "cuddRef s1 t = Inr s2" "refs_only s1 s2" "dd_ok A s2 (add_ref X t) {}"
      using cuddRef_spec [OF t1(2)] by blast
    have g2: "grows s s2" by (rule grows_trans [OF t1(1) refs_only_grows [OF s2(2)]])
    have t2: "denotes B (Suc l) ft t s2" by (rule denotes_same [OF t1(3) refs_only_same(1) [OF s2(2)]])
    have "yields (rbind (re s2) (\<lambda>(e, s).
           if e = 0 then rbind (Cudd_IterDerefBdd s t) (\<lambda>s. Inr (0, s)) else rbind (cuddRef s e) (\<lambda>s. join s t e))) (gives A s X P)"
    proof (rule yields_bind [OF re [OF g2 s2(3)]], simp add: add_ref_def, clarify)
      fix e s3 assume e: "gives A s2 (add_ref X t) (denotes B (Suc l) fe) e s3"
      have g3: "grows s s3" using e g2 grows_trans by (auto simp: gives_def)
      show "yields (if e = 0 then rbind (Cudd_IterDerefBdd s3 t) (\<lambda>s. Inr (0, s)) else rbind (cuddRef s3 e) (\<lambda>s. join s t e)) (gives A s X P)"
      proof (cases "e = 0")
        case True
        then have "dd_ok A s3 (add_ref X t) {}" using e by (simp add: gives_def)
        then obtain s4 where "Cudd_IterDerefBdd s3 t = Inr s4" "refs_only s3 s4" "dd_ok A s4 X {}" using iterDeref_spec by blast
        then show ?thesis using True grows_trans [OF g3 refs_only_grows] by (simp add: gives_def)
      next
        case False
        then have e3: "grows s2 s3" "dd_ok A s3 (add_ref X t) {Cudd_Regular e}" "denotes B (Suc l) fe e s3" using e by (simp_all add: gives_def)
        obtain s4 where s4: "cuddRef s3 e = Inr s4" "refs_only s3 s4" "dd_ok A s4 (add_ref (add_ref X t) e) {}"
          using cuddRef_spec [OF e3(2)] by blast
        have g4: "grows s s4" by (rule grows_trans [OF g3 refs_only_grows [OF s4(2)]])
        have "denotes B (Suc l) fe e s4" by (rule denotes_same [OF e3(3) refs_only_same(1) [OF s4(2)]])
        moreover have "denotes B (Suc l) ft t s4"
          by (rule denotes_same [OF denotes_grows [OF t2 e3(1) dd_okD(1) [OF s2(3)]] refs_only_same(1) [OF s4(2)]])
        ultimately have "yields (join s4 t e) (gives A s4 X P)" by (intro join [OF g4 s4(3)])
        then have "yields (join s4 t e) (gives A s X P)" by (rule yields_weaken) (rule gives_after [OF g4])
        then show ?thesis using False s4(1) by simp
      qed
    qed
    then show ?thesis using False s2(1) by simp
  qed
qed

section \<open>The interface of the node constructors\<close>

text \<open>
  What the recursive operations rely on: a constructor of nodes that returns, for a variable and two
  results below it, a result at the level of the variable that chooses between the two on the
  assignments \<^verbatim>\<open>B\<close>.
\<close>

locale node_maker =
  fixes A B :: "(nat \<Rightarrow> bool) set" and N :: nat
    and mk :: "DdManager \<Rightarrow> nat \<Rightarrow> ptr \<Rightarrow> ptr \<Rightarrow> (ptr \<times> DdManager) res"
  assumes mk_spec: "dd_ok A s X {} \<Longrightarrow> dd_size s \<le> N \<Longrightarrow> node_args s index t e \<Longrightarrow> hp s X t \<Longrightarrow> hp s X e \<Longrightarrow>
    yields (mk s index t e) (gives A s X (denotes B (dd_perm s ! index) (\<lambda>a. if a index then sem s t a else sem s e a)))"
begin

lemma make_spec:
  assumes ok: "dd_ok A s X {}" and i: "index < dd_size s" "dd_size s \<le> N" and l: "dd_perm s ! index < lev s t" "dd_perm s ! index < lev s e"
    and h: "hp s X t" "hp s X e"
  shows "yields (make_pushed mk s index t e) (gives A s X (denotes B (dd_perm s ! index) (\<lambda>a. if a index then sem s t a else sem s e a)))"
proof -
  note inh = hp_in_heap [OF ok h(1)] hp_in_heap [OF ok h(2)]
  note n = dd_okD(1) [OF ok]
  have t0: "t \<noteq> 0" using in_heap_nonzero [OF n inh(1)] .
  show ?thesis
  proof (cases "t = e")
    case True
    have "dd_ok A s X {Cudd_Regular t}" using float_held [OF ok] h(1) by (simp add: hp_def)
    then show ?thesis using True t0 l inh by (simp add: make_pushed_def gives_def denotes_def less_imp_le)
  next
    case False
    show ?thesis
    proof (cases "Cudd_IsComplement t")
      case True
      have a: "node_args s index (Cudd_Not t) (Cudd_Not e)"
        using i l inh False True by (simp add: node_args_def lev_def)
      have "yields (rbind (mk s index (Cudd_Not t) (Cudd_Not e)) (\<lambda>(r, s). Inr (if r = 0 then 0 else Cudd_Not r, s)))
          (gives A s X (denotes B (dd_perm s ! index) (\<lambda>a. if a index then sem s t a else sem s e a)))"
      proof (rule yields_bind [OF mk_spec [OF ok i(2) a]])
        fix r s'
        assume g: "gives A s X (denotes B (dd_perm s ! index) (\<lambda>a. if a index then sem s (Cudd_Not t) a else sem s (Cudd_Not e) a)) r s'"
        have r0: "Cudd_Not r \<noteq> 0" if "r \<noteq> 0"
        proof -
          have "nodes_ok s'" using dd_okD(1) [OF gives_dd_ok [OF g]] .
          moreover have "in_heap s' r" by (rule gives_in_heap [OF g that])
          ultimately show ?thesis using in_heap_nonzero [of s' "Cudd_Not r"] by simp
        qed
        show "yields (case (r, s') of (r, s) \<Rightarrow> Inr (if r = 0 then 0 else Cudd_Not r, s))
            (gives A s X (denotes B (dd_perm s ! index) (\<lambda>a. if a index then sem s t a else sem s e a)))"
          using g r0 inh by (cases "r = 0") (simp_all add: gives_def denotes_def)
      qed (use h in simp_all)
      then show ?thesis using False True by (simp add: make_pushed_def)
    next
      case 2: False
      have a: "node_args s index t e" using i l inh False 2 by (simp add: node_args_def lev_def)
      show ?thesis using mk_spec [OF ok i(2) a h] False 2 by (simp add: make_pushed_def)
    qed
  qed
qed

text \<open>The makers the operations use; a regular first result is needed for the last two.\<close>

definition maker_for :: "(DdManager \<Rightarrow> nat \<Rightarrow> ptr \<Rightarrow> ptr \<Rightarrow> (ptr \<times> DdManager) res) \<Rightarrow> bfun \<Rightarrow> bool" where
  "maker_for maker ft \<longleftrightarrow> maker = make_pushed mk \<or> (\<lambda>_. True) \<in> B \<and> ft (\<lambda>_. True) \<and> (maker = make_regular mk \<or> maker = make_asserted mk)"

lemma maker_spec:
  assumes ok: "dd_ok A s X {}" and i: "index < dd_size s" "dd_size s \<le> N" and l: "dd_perm s ! index < lev s t" "dd_perm s ! index < lev s e"
    and h: "hp s X t" "hp s X e" and m: "maker_for maker (sem s t)"
  shows "yields (maker s index t e) (gives A s X (denotes B (dd_perm s ! index) (\<lambda>a. if a index then sem s t a else sem s e a)))"
proof (cases "maker = make_pushed mk")
  case True
  then show ?thesis using make_spec [OF assms(1-7)] by simp
next
  case False
  let ?Q = "denotes B (dd_perm s ! index) (\<lambda>a. if a index then sem s t a else sem s e a)"
  have B: "(\<lambda>_. True) \<in> B" "sem s t (\<lambda>_. True)" "maker = make_regular mk \<or> maker = make_asserted mk"
    using m False by (simp_all add: maker_for_def)
  have "\<not> Cudd_IsComplement t" using all_true [OF dd_okD(1,2) [OF ok] hp_in_heap [OF ok h(1)]] B(2) by simp
  then have eq: "make_regular mk s index t e = make_pushed mk s index t e" by (simp add: make_regular_def make_pushed_def)
  have asserted: "yields (make_asserted mk s index t e) (gives A s X ?Q)"
    unfolding make_asserted_def eq
  proof (rule yields_bind [OF make_spec [OF assms(1-7)]], clarify)
    fix r s' assume g: "gives A s X ?Q r s'"
    show "yields (if r = 0 then Inr (0, s') else rassert (\<not> Cudd_IsComplement r) (Inr (r, s'))) (gives A s X ?Q)"
    proof (cases "r = 0")
      case False
      then have r: "dd_ok A s' X {Cudd_Regular r}" "denotes B (dd_perm s ! index) (\<lambda>a. if a index then sem s t a else sem s e a) r s'"
        using g by (simp_all add: gives_def)
      then have "sem s' r (\<lambda>_. True)" using B(1,2) by (simp add: denotes_def)
      then have "\<not> Cudd_IsComplement r" using all_true [OF dd_okD(1,2) [OF r(1)]] r(2) by (simp add: denotes_def)
      then show ?thesis using g False by simp
    qed (use g in simp)
  qed
  show ?thesis using B(3)
  proof (elim disjE)
    assume m: "maker = make_regular mk"
    show ?thesis unfolding m eq by (rule make_spec [OF assms(1-7)])
  next
    assume m: "maker = make_asserted mk"
    show ?thesis unfolding m by (rule asserted)
  qed
qed

lemma maker_for_cong: "(\<And>a. a \<in> B \<Longrightarrow> f a = g a) \<Longrightarrow> maker_for maker f = maker_for maker g"
  unfolding maker_for_def by metis

lemma maker_denotes: "maker_for maker ft \<Longrightarrow> denotes B l ft t s \<Longrightarrow> maker_for maker (sem s t)"
  using maker_for_cong [of "sem s t" ft maker] by (simp add: denotes_def)

lemma join_bdd_spec:
  assumes ok: "dd_ok A s (add_ref (add_ref X t) e) {}" and i: "index < dd_size s" "dd_size s \<le> N"
    and t: "denotes B (Suc (dd_perm s ! index)) ft t s" and e: "denotes B (Suc (dd_perm s ! index)) fe e s"
    and h: "\<And>a. a \<in> B \<Longrightarrow> h a = (if a index then ft a else fe a)" and save: "saves A B (dd_perm s ! index) save s h"
    and m: "maker_for maker ft"
  shows "yields (join_bdd maker index save s t e) (gives A s X (denotes B (dd_perm s ! index) h))"
  unfolding join_bdd_def
proof (rule yields_bind [OF maker_spec [OF ok i denotes_above [OF t] denotes_above [OF e] hp_add_ref_both maker_denotes [OF m t]]], clarify)
  fix r s1
  assume g: "gives A s (add_ref (add_ref X t) e) (denotes B (dd_perm s ! index) (\<lambda>a. if a index then sem s t a else sem s e a)) r s1"
  have g1: "grows s s1" using g by (simp add: gives_def)
  show "yields (if r = 0 then drop_both s1 t e
       else rbind (cuddDeref s1 e) (\<lambda>s. rbind (cuddDeref s t) (\<lambda>s. rbind (save s r) (\<lambda>s. Inr (r, s)))))
     (gives A s X (denotes B (dd_perm s ! index) h))"
  proof (cases "r = 0")
    case True
    then have "dd_ok A s1 (add_ref (add_ref X t) e) {}" using g by (simp add: gives_def)
    then have "yields (drop_both s1 t e) (gives A s X (denotes B (dd_perm s ! index) h))"
      by (rule yields_weaken [OF drop_both_spec]) (rule gives_after [OF g1])
    then show ?thesis using True by simp
  next
    case False
    then have r: "dd_ok A s1 (add_ref (add_ref X t) e) {Cudd_Regular r}" "denotes B (dd_perm s ! index) h r s1"
      using g h t e by (simp_all add: gives_def denotes_def)
    obtain s2 where s2: "cuddDeref s1 e = Inr s2" "refs_only s1 s2" "dd_ok A s2 (add_ref X t) {Cudd_Regular r}"
      using deref_keep_spec [OF r(1)] by blast
    obtain s3 where s3: "cuddDeref s2 t = Inr s3" "refs_only s2 s3" "dd_ok A s3 X {Cudd_Regular r}"
      using deref_keep_spec [OF s2(3)] by blast
    have g3: "grows s s3" using grows_trans [OF g1 grows_trans [OF refs_only_grows [OF s2(2)] refs_only_grows [OF s3(2)]]] .
    have r3: "denotes B (dd_perm s ! index) h r s3"
      by (rule denotes_same [OF denotes_same [OF r(2) refs_only_same(1) [OF s2(2)]] refs_only_same(1) [OF s3(2)]])
    obtain s4 where s4: "save s3 r = Inr s4" "same_nodes s3 s4" "dd_ok A s4 X {Cudd_Regular r}"
      using save g3 s3(3) r3 unfolding saves_def denotes_def by blast
    show ?thesis using False s2(1) s3(1) s4 denotes_same [OF r3 s4(2)] grows_trans [OF g3 same_nodes_grows [OF s4(2)]]
      by (simp add: gives_def)
  qed
qed

lemma join_ldd_spec:
  assumes ok: "dd_ok A s (add_ref (add_ref X t) e) {}" and i: "index < dd_size s" "dd_size s \<le> N"
    and t: "denotes B (Suc (dd_perm s ! index)) ft t s" and e: "denotes B (Suc (dd_perm s ! index)) fe e s"
    and h: "\<And>a. a \<in> B \<Longrightarrow> h a = (if a index then ft a else fe a)" and save: "saves A B (dd_perm s ! index) save s h"
    and m: "maker_for maker ft"
  shows "yields (join_ldd maker index save s t e) (gives A s X (denotes B (dd_perm s ! index) h))"
  unfolding join_ldd_def
proof (rule yields_bind [OF maker_spec [OF ok i denotes_above [OF t] denotes_above [OF e] hp_add_ref_both maker_denotes [OF m t]]], clarify)
  fix r s1
  assume g: "gives A s (add_ref (add_ref X t) e) (denotes B (dd_perm s ! index) (\<lambda>a. if a index then sem s t a else sem s e a)) r s1"
  have g1: "grows s s1" using g by (simp add: gives_def)
  show "yields (if r = 0 then drop_both s1 t e
       else rbind (cuddRef s1 r) (\<lambda>s. rbind (Cudd_IterDerefBdd s t) (\<lambda>s. rbind (Cudd_IterDerefBdd s e) (\<lambda>s.
         rbind (save s r) (\<lambda>s. rbind (cuddDeref s r) (\<lambda>s. Inr (r, s)))))))
     (gives A s X (denotes B (dd_perm s ! index) h))"
  proof (cases "r = 0")
    case True
    then have "dd_ok A s1 (add_ref (add_ref X t) e) {}" using g by (simp add: gives_def)
    then have "yields (drop_both s1 t e) (gives A s X (denotes B (dd_perm s ! index) h))"
      by (rule yields_weaken [OF drop_both_spec]) (rule gives_after [OF g1])
    then show ?thesis using True by simp
  next
    case False
    then have r: "dd_ok A s1 (add_ref (add_ref X t) e) {Cudd_Regular r}" "denotes B (dd_perm s ! index) h r s1"
      using g h t e by (simp_all add: gives_def denotes_def)
    have swap: "add_ref (add_ref (add_ref X t) e) r = add_ref (add_ref (add_ref X r) e) t" "add_ref (add_ref X r) e = add_ref (add_ref X r) e"
      by (simp_all add: add_ref_def fun_eq_iff)
    obtain s2 where s2: "cuddRef s1 r = Inr s2" "refs_only s1 s2" "dd_ok A s2 (add_ref (add_ref (add_ref X t) e) r) {}"
      using cuddRef_spec [OF r(1)] by blast
    obtain s3 where s3: "Cudd_IterDerefBdd s2 t = Inr s3" "refs_only s2 s3" "dd_ok A s3 (add_ref (add_ref X r) e) {}"
      using iterDeref_spec [OF s2(3) [unfolded swap(1)]] by blast
    obtain s4 where s4: "Cudd_IterDerefBdd s3 e = Inr s4" "refs_only s3 s4" "dd_ok A s4 (add_ref X r) {}"
      using iterDeref_spec [OF s3(3)] by blast
    note same = refs_only_same(1) [OF refs_only_trans [OF refs_only_trans [OF s2(2) s3(2)] s4(2)]]
    have g4: "grows s s4" by (rule grows_trans [OF g1 same_nodes_grows [OF same]])
    have r4: "denotes B (dd_perm s ! index) h r s4" by (rule denotes_same [OF r(2) same])
    obtain s5 where s5: "save s4 r = Inr s5" "same_nodes s4 s5" "dd_ok A s5 (add_ref X r) {}"
      using save g4 s4(3) r4 unfolding saves_def denotes_def by blast
    obtain s6 where s6: "cuddDeref s5 r = Inr s6" "refs_only s5 s6" "dd_ok A s6 X {Cudd_Regular r}"
      using cuddDeref_spec [OF s5(3)] by blast
    have "denotes B (dd_perm s ! index) h r s6" by (rule denotes_same [OF denotes_same [OF r4 s5(2)] refs_only_same(1) [OF s6(2)]])
    moreover have "grows s s6" by (rule grows_trans [OF grows_trans [OF g4 same_nodes_grows [OF s5(2)]] refs_only_grows [OF s6(2)]])
    ultimately show ?thesis using False s2(1) s3(1) s4(1) s5(1) s6 by (simp add: gives_def)
  qed
qed

end

section \<open>Cofactors\<close>

definition cof :: "(nat \<Rightarrow> bool) set \<Rightarrow> DdManager \<Rightarrow> (ptr \<Rightarrow> nat) \<Rightarrow> nat \<Rightarrow> ptr \<Rightarrow> ptr \<Rightarrow> ptr \<Rightarrow> bool" where
  "cof B s X index f fv fnv \<longleftrightarrow> hp s X fv \<and> hp s X fnv \<and> dd_perm s ! index < lev s fv \<and> dd_perm s ! index < lev s fnv
     \<and> (\<forall>a \<in> B. sem s f a = (if a index then sem s fv a else sem s fnv a))"

lemma hp_node:
  assumes ok: "dd_ok A s X F" and f: "hp s X f" "Cudd_Regular f \<noteq> dd_one s"
  shows "\<exists>n. node s (Cudd_Regular f) = Inr n \<and> perm_at s (n_index n) = Inr (lev s f) \<and> n_index n < dd_size s
     \<and> dd_perm s ! n_index n = lev s f \<and> shape s (Cudd_Regular f) = Some (n_index n, n_T n, n_E n)
     \<and> cof B s X (n_index n) f (fst (kids n f)) (snd (kids n f))"
proof -
  note n = dd_okD(1,2) [OF ok]
  obtain m where m: "heap s (Cudd_Regular f) = Some m" using hp_in_heap [OF ok f(1)] by (auto simp: in_heap_def)
  note sh = shape_heap [OF m]
  note d = nodes_okD [OF n(1) sh]
  have T: "Cudd_Regular (n_T m) = n_T m" using d(5) f(2) by simp
  have i: "n_index m < dd_size s" "n_index m \<noteq> CUDD_CONST_INDEX" using d(3,4) f(2) by simp_all
  have l: "lev s f = dd_perm s ! n_index m" unfolding lev_def by (rule level_of_node [OF n(1) sh f(2)])
  have "held s X (n_T m)" "held s X (Cudd_Regular (n_E m))"
    using held_T [OF f(1) [unfolded hp_def] sh i(2)] held_E [OF f(1) [unfolded hp_def] sh i(2)] .
  then have h: "hp s X (n_T m)" "hp s X (n_E m)" using T by (simp_all add: hp_def)
  have "dd_perm s ! n_index m < lev s (n_T m)" "dd_perm s ! n_index m < lev s (n_E m)"
    using d(9,10) f(2) T by (simp_all add: lev_def)
  moreover have "in_heap s (n_T m)" "in_heap s (n_E m)" using hp_in_heap [OF ok] h by blast+
  ultimately have "cof B s X (n_index m) f (fst (kids m f)) (snd (kids m f))"
    using h sem_node [OF n sh f(2)] by (simp add: cof_def kids_def)
  then show ?thesis using m i l sh perm_less [OF n(2) i(1)] n(2) by (auto simp: node_def perm_at_def vars_ok_def)
qed

text \<open>
  An operand below the top variable is its own cofactor.
\<close>

lemma cof_same: "hp s X f \<Longrightarrow> dd_perm s ! index < lev s f \<Longrightarrow> cof B s X index f f f"
  by (simp add: cof_def)

lemma perm_at_inject:
  "vars_ok s \<Longrightarrow> i < dd_size s \<Longrightarrow> j < dd_size s \<Longrightarrow> dd_perm s ! i = dd_perm s ! j \<Longrightarrow> i = j"
  using perm_inject by blast

lemma cofactors2_spec:
  assumes ok: "dd_ok A s X F" and f: "hp s X f" "Cudd_Regular f \<noteq> dd_one s" and g: "hp s X g" "Cudd_Regular g \<noteq> dd_one s"
  shows "\<exists>index fv fnv gv gnv. cofactors2 s f g = Inr (index, (fv, fnv), (gv, gnv)) \<and> index < dd_size s
     \<and> dd_perm s ! index = min (lev s f) (lev s g) \<and> cof B s X index f fv fnv \<and> cof B s X index g gv gnv"
proof -
  note n = dd_okD(1,2) [OF ok]
  obtain nf where nf: "node s (Cudd_Regular f) = Inr nf" "perm_at s (n_index nf) = Inr (lev s f)" "n_index nf < dd_size s"
      "dd_perm s ! n_index nf = lev s f" "cof B s X (n_index nf) f (fst (kids nf f)) (snd (kids nf f))"
    using hp_node [OF ok f] by blast
  obtain ng where ng: "node s (Cudd_Regular g) = Inr ng" "perm_at s (n_index ng) = Inr (lev s g)" "n_index ng < dd_size s"
      "dd_perm s ! n_index ng = lev s g" "cof B s X (n_index ng) g (fst (kids ng g)) (snd (kids ng g))"
    using hp_node [OF ok g] by blast
  have run: "cofactors2 s f g = Inr (if lev s f \<le> lev s g then n_index nf else n_index ng,
            if lev s f \<le> lev s g then kids nf f else (f, f), if lev s g \<le> lev s f then kids ng g else (g, g))"
    by (simp add: cofactors2_def nf ng)
  consider "lev s f < lev s g" | "lev s g < lev s f" | "lev s f = lev s g" by linarith
  then show ?thesis
  proof cases
    case 1
    then show ?thesis using run nf(3-5) cof_same [OF g(1), of "n_index nf" B] by (cases "kids nf f") (simp add: min_def)
  next
    case 2
    then show ?thesis using run ng(3-5) cof_same [OF f(1), of "n_index ng" B] by (cases "kids ng g") (simp add: min_def)
  next
    case 3
    then have "n_index ng = n_index nf" using perm_at_inject [OF n(2) ng(3) nf(3)] nf(4) ng(4) by simp
    then show ?thesis using run nf(3-5) ng(5) 3 by (cases "kids nf f"; cases "kids ng g") simp
  qed
qed

lemma saves_grows: "saves A B l save s h \<Longrightarrow> grows s s1 \<Longrightarrow> saves A B l save s1 h"
  unfolding saves_def using grows_trans by blast

lemma grows_perm: "grows s s' \<Longrightarrow> dd_perm s' = dd_perm s" "grows s s' \<Longrightarrow> dd_size s' = dd_size s" "grows s s' \<Longrightarrow> dd_one s' = dd_one s"
  by (simp_all add: grows_def)


context node_maker begin

lemma branch_join:
  assumes ok: "dd_ok A s X {}" and i: "index < dd_size s" "dd_size s \<le> N"
    and rt: "yields (rt s) (gives A s X (denotes B (Suc (dd_perm s ! index)) ft))"
    and re: "\<And>s1 X1. grows s s1 \<Longrightarrow> dd_ok A s1 X1 {} \<Longrightarrow> (\<And>q. X q \<le> X1 q) \<Longrightarrow>
        yields (re s1) (gives A s1 X1 (denotes B (Suc (dd_perm s ! index)) fe))"
    and h: "\<And>a. a \<in> B \<Longrightarrow> h a = (if a index then ft a else fe a)"
    and save: "saves A B (dd_perm s ! index) save s h" and m: "maker_for maker ft"
    and join: "join = join_bdd maker index save \<or> join = join_ldd maker index save"
  shows "yields (run_branches rt re join s) (gives A s X (denotes B (dd_perm s ! index) h))"
proof (rule branches_spec [where B = B and l = "dd_perm s ! index" and ft = ft and fe = fe])
  show "yields (rt s) (gives A s X (denotes B (Suc (dd_perm s ! index)) ft))" by (rule rt)
next
  fix s1 X1 assume "grows s s1" "dd_ok A s1 X1 {}" "\<And>q. X q \<le> X1 q"
  then show "yields (re s1) (gives A s1 X1 (denotes B (Suc (dd_perm s ! index)) fe))" by (rule re)
next
  fix s1 t e
  assume g: "grows s s1" and ok1: "dd_ok A s1 (add_ref (add_ref X t) e) {}"
    and t: "denotes B (Suc (dd_perm s ! index)) ft t s1" and e: "denotes B (Suc (dd_perm s ! index)) fe e s1"
  have "index < dd_size s1" "dd_size s1 \<le> N" using i grows_perm [OF g] by simp_all
  note j = this t [folded grows_perm(1) [OF g]] e [folded grows_perm(1) [OF g]] h saves_grows [OF save g, folded grows_perm(1) [OF g]] m
  show "yields (join s1 t e) (gives A s1 X (denotes B (dd_perm s ! index) h))"
    using join join_bdd_spec [OF ok1 j] join_ldd_spec [OF ok1 j] unfolding grows_perm(1) [OF g] by blast
qed

text \<open>
  A binary operation on cofactors, given its recursive calls.
\<close>

lemma binary_step:
  assumes ok: "dd_ok A s X {}" and i: "index < dd_size s" "dd_size s \<le> N"
    and cf: "cof B s X index f fv fnv" and cg: "cof B s X index g gv gnv"
    and rec: "\<And>s1 X1 p q. grows s s1 \<Longrightarrow> dd_ok A s1 X1 {} \<Longrightarrow> hp s1 X1 p \<Longrightarrow> hp s1 X1 q \<Longrightarrow>
        dd_perm s ! index < lev s1 p \<Longrightarrow> dd_perm s ! index < lev s1 q \<Longrightarrow>
        yields (rec s1 p q) (gives A s1 X1 (denotes B (Suc (dd_perm s ! index)) (\<lambda>a. P (sem s1 p a) (sem s1 q a))))"
    and save: "saves A B (dd_perm s ! index) save s (\<lambda>a. P (sem s f a) (sem s g a))"
    and join: "join = join_bdd (make_pushed mk) index save \<or> join = join_ldd (make_pushed mk) index save"
  shows "yields (run_branches (\<lambda>s. rec s fv gv) (\<lambda>s. rec s fnv gnv) join s)
     (gives A s X (denotes B (dd_perm s ! index) (\<lambda>a. P (sem s f a) (sem s g a))))"
proof (rule branch_join [OF ok i _ _ _ save _ join])
  show "yields (rec s fv gv) (gives A s X (denotes B (Suc (dd_perm s ! index)) (\<lambda>a. P (sem s fv a) (sem s gv a))))"
    using cf cg by (intro rec [OF grows_refl ok]) (simp_all add: cof_def)
next
  fix s1 X1 assume g: "grows s s1" and ok1: "dd_ok A s1 X1 {}" and X: "\<And>q. X q \<le> X1 q"
  have h: "hp s X fnv" "hp s X gnv" using cf cg by (simp_all add: cof_def)
  note inh = hp_in_heap [OF ok h(1)] hp_in_heap [OF ok h(2)]
  have "yields (rec s1 fnv gnv) (gives A s1 X1 (denotes B (Suc (dd_perm s ! index)) (\<lambda>a. P (sem s1 fnv a) (sem s1 gnv a))))"
    using cf cg by (intro rec [OF g ok1 hp_mono [OF h(1) g X] hp_mono [OF h(2) g X]]) (simp_all add: cof_def grows_lev [OF g] inh)
  then show "yields (rec s1 fnv gnv) (gives A s1 X1 (denotes B (Suc (dd_perm s ! index)) (\<lambda>a. P (sem s fnv a) (sem s gnv a))))"
    by (simp add: grows_sem [OF g dd_okD(1) [OF ok]] inh)
next
  show "\<And>a. a \<in> B \<Longrightarrow> P (sem s f a) (sem s g a) =
      (if a index then P (sem s fv a) (sem s gv a) else P (sem s fnv a) (sem s gnv a))"
    using cf cg by (simp add: cof_def)
qed (simp add: maker_for_def)

end

section \<open>The node constructor of Boolean diagrams\<close>

interpretation bdd: node_maker A UNIV N cuddUniqueInter for A N
proof unfold_locales
  fix s X index t e
  assume ok: "dd_ok A s X {}" and a: "node_args s index t e" and h: "hp s X t" "hp s X e"
  show "yields (cuddUniqueInter s index t e)
      (gives A s X (denotes UNIV (dd_perm s ! index) (\<lambda>a. if a index then sem s t a else sem s e a)))"
  proof (rule yields_weaken [OF cuddUniqueInter_spec [OF ok a h [unfolded hp_def]]], rule gives_weaken, assumption)
    fix r s' assume g: "grows s s'" "r \<noteq> 0" "dd_ok A s' X {Cudd_Regular r}" and sh: "shape s' r = Some (index, t, e)"
    note n = dd_okD(1,2) [OF g(3)]
    have r: "Cudd_Regular r = r" "\<not> Cudd_IsComplement r"
      using node_regular [OF n(1) sh] regular_of_aligned [OF nodes_okD(2) [OF n(1) sh]] by simp_all
    have "index \<noteq> CUDD_CONST_INDEX" using a dd_okD(2) [OF ok] by (auto simp: node_args_def vars_ok_def)
    then have one: "r \<noteq> dd_one s'" using nodes_okD(3) [OF n(1) sh] by blast
    have "sem s' r b = (if b index then sem s t b else sem s e b)" for b
      using sem_node [OF n, of r index t e b] sh one r a grows_sem [OF g(1) dd_okD(1) [OF ok]] by (simp add: node_args_def)
    moreover have "lev s' r = dd_perm s ! index" using level_of_node [OF n(1) sh one] r grows_perm [OF g(1)] by (simp add: lev_def)
    moreover have "in_heap s' r" using sh r by (metis in_heap_def option.distinct(1) shape_eq_None)
    ultimately show "denotes UNIV (dd_perm s ! index) (\<lambda>a. if a index then sem s t a else sem s e a) r s'"
      by (simp add: denotes_def)
  qed
qed

section \<open>Constants and unshared operands\<close>

definition DD_ZERO :: "DdManager \<Rightarrow> ptr" where
  "DD_ZERO s = Cudd_Not (dd_one s)"

text \<open>Results of operations on unshared nodes are not cached.\<close>

definition shared :: "DdManager \<Rightarrow> ptr \<Rightarrow> ptr \<Rightarrow> bool res" where
  "shared s f g =
     rbind (node s (Cudd_Regular f)) (\<lambda>F. rbind (node s (Cudd_Regular g)) (\<lambda>G. Inr (n_ref F \<noteq> 1 \<or> n_ref G \<noteq> 1)))"

definition save_if_shared :: "op_name \<Rightarrow> ptr \<Rightarrow> ptr \<Rightarrow> DdManager \<Rightarrow> ptr \<Rightarrow> DdManager res" where
  "save_if_shared op f g s r =
     rbind (shared s f g) (\<lambda>sh. if sh then cuddCacheInsert2 s op f g r else Inr s)"

section \<open>Operations with a cache\<close>

text \<open>What a call of an operation promises, for operands at or below a level.\<close>

definition does :: "(nat \<Rightarrow> bool) set \<Rightarrow> (nat \<Rightarrow> bool) set \<Rightarrow> nat \<Rightarrow> (bool \<Rightarrow> bool \<Rightarrow> bool) \<Rightarrow> (DdManager \<Rightarrow> ptr \<Rightarrow> ptr \<Rightarrow> (ptr \<times> DdManager) res) \<Rightarrow> nat \<Rightarrow> bool" where
  "does A B N P run n \<longleftrightarrow> (\<forall>s X f g l. dd_ok A s X {} \<longrightarrow> hp s X f \<longrightarrow> hp s X g \<longrightarrow> l \<le> lev s f \<longrightarrow> l \<le> lev s g \<longrightarrow>
     dd_size s < n + l \<longrightarrow> dd_size s \<le> N \<longrightarrow> yields (run s f g) (gives A s X (denotes B l (\<lambda>a. P (sem s f a) (sem s g a)))))"

lemma denotes_le: "denotes B l h r s \<Longrightarrow> l' \<le> l \<Longrightarrow> denotes B l' h r s"
  by (simp add: denotes_def)

lemma gives_denotes_le: "yields m (gives A s X (denotes B l h)) \<Longrightarrow> l' \<le> l \<Longrightarrow> yields m (gives A s X (denotes B l' h))"
  by (erule yields_weaken, erule gives_weaken, erule denotes_le)

text \<open>
  A result that is one of the operands, a constant, or the complement of one of them.
\<close>

lemma gives_self:
  assumes ok: "dd_ok A s X {}" and p: "hp s X p" "l \<le> lev s p" "\<And>a. a \<in> B \<Longrightarrow> sem s p a = h a"
  shows "yields (Inr (p, s)) (gives A s X (denotes B l h))"
proof -
  have "in_heap s p" by (rule hp_in_heap [OF ok p(1)])
  moreover have "p \<noteq> 0" using in_heap_nonzero [OF dd_okD(1) [OF ok]] calculation by blast
  moreover have "dd_ok A s X {Cudd_Regular p}" using float_held [OF ok] p(1) by (simp add: hp_def)
  ultimately show ?thesis using p by (simp add: gives_def denotes_def)
qed

lemma hp_zero: "nodes_ok s \<Longrightarrow> hp s X (DD_ZERO s)"
  by (simp add: DD_ZERO_def hp_one)

lemma lev_le: "dd_ok A s X F \<Longrightarrow> hp s X p \<Longrightarrow> lev s p \<le> dd_size s"
  using hp_in_heap level_of_le(1) [OF dd_okD(1,2)] unfolding lev_def in_heap_def by blast

lemma lev_one: "nodes_ok s \<Longrightarrow> lev s (dd_one s) = dd_size s" "nodes_ok s \<Longrightarrow> lev s (DD_ZERO s) = dd_size s"
  by (simp_all add: DD_ZERO_def lev_def level_of_one one_in_heap(2))

lemma sem_one: "nodes_ok s \<Longrightarrow> sem s (dd_one s) a" "nodes_ok s \<Longrightarrow> \<not> sem s (DD_ZERO s) a"
proof -
  assume n: "nodes_ok s"
  show "sem s (dd_one s) a" using one_in_heap(2) [OF n] by (simp add: sem_const)
  then show "\<not> sem s (DD_ZERO s) a" using one_in_heap(1,2) [OF n] by (simp add: DD_ZERO_def in_heap_def)
qed

lemma regular_cases: "Cudd_Regular f = p \<Longrightarrow> \<not> Cudd_IsComplement p \<Longrightarrow> f = p \<or> f = Cudd_Not p"
  using Cudd_Regular_eq_iff [of f p] by simp

lemma shared_run: "in_heap s f \<Longrightarrow> in_heap s g \<Longrightarrow> \<exists>sh. shared s f g = Inr sh"
  by (auto simp: shared_def node_def in_heap_def)

lemma saves_insert2:
  assumes ok: "dd_ok A s X F" and p: "in_heap s f" "in_heap s g" and l: "min (lev s f) (lev s g) \<le> l"
    and fact: "\<And>r. (\<And>a. a \<in> B \<Longrightarrow> r a = h a) \<Longrightarrow> op_fact A op (sem s f) (sem s g) r"
  shows "saves A B l (\<lambda>s. cuddCacheInsert2 s op f g) s h" "saves A B l (save_if_shared op f g) s h"
proof -
  have ins: "\<exists>s'. cuddCacheInsert2 s1 op f g r = Inr s' \<and> same_nodes s1 s' \<and> dd_ok A s' X1 F1"
    if "grows s s1" "dd_ok A s1 X1 F1" "in_heap s1 r" "l \<le> lev s1 r" "\<forall>a \<in> B. sem s1 r a = h a" for X1 F1 s1 r
  proof -
    have "fact2 A op s1 f g r"
      using fact that(4,5) l grows_sem [OF that(1) dd_okD(1) [OF ok]] p grows_lev [OF that(1)] by (simp add: fact2_def)
    then show ?thesis using cuddCacheInsert2_spec [OF that(2) grows_in_heap [OF that(1) p(1)] grows_in_heap [OF that(1) p(2)] that(3)] by blast
  qed
  then show "saves A B l (\<lambda>s. cuddCacheInsert2 s op f g) s h" unfolding saves_def by blast
  show "saves A B l (save_if_shared op f g) s h" unfolding saves_def save_if_shared_def
  proof (intro allI impI)
    fix X1 F1 s1 r assume g: "grows s s1" "dd_ok A s1 X1 F1" "in_heap s1 r" "l \<le> lev s1 r" "\<forall>a \<in> B. sem s1 r a = h a"
    obtain sh where "shared s1 f g = Inr sh" using shared_run grows_in_heap [OF g(1)] p by blast
    then show "\<exists>s'. rbind (shared s1 f g) (\<lambda>sh. if sh then cuddCacheInsert2 s1 op f g r else Inr s1) = Inr s' \<and> same_nodes s1 s' \<and> dd_ok A s' X1 F1"
      using ins [OF g] g(2) by (cases sh) (auto simp: same_nodes_def)
  qed
qed

text \<open>
  After a cache lookup: a hit is the result, a miss goes on in a state that has only grown.
\<close>

lemma after_lookup:
  assumes ok: "dd_ok A s X {}"
    and look: "yields m (gives A s X (\<lambda>r s'. in_heap s r \<and> (\<forall>a \<in> B. sem s r a = h a) \<and> l \<le> lev s r))"
    and miss: "\<And>s1. grows s s1 \<Longrightarrow> dd_ok A s1 X {} \<Longrightarrow> yields (k s1) (gives A s1 X (denotes B l h))"
  shows "yields (rbind m (\<lambda>(r, s). if r \<noteq> 0 then Inr (r, s) else k s)) (gives A s X (denotes B l h))"
proof (rule yields_bind [OF look], clarify)
  fix r s1 assume g: "gives A s X (\<lambda>r s'. in_heap s r \<and> (\<forall>a \<in> B. sem s r a = h a) \<and> l \<le> lev s r) r s1"
  have g1: "grows s s1" using g by (simp add: gives_def)
  show "yields (if r \<noteq> 0 then Inr (r, s1) else k s1) (gives A s X (denotes B l h))"
  proof (cases "r = 0")
    case True
    then have "yields (k s1) (gives A s1 X (denotes B l h))" using g by (intro miss [OF g1]) (simp add: gives_def)
    then have "yields (k s1) (gives A s X (denotes B l h))" by (rule yields_weaken) (rule gives_after [OF g1])
    then show ?thesis using True by simp
  next
    case False
    then show ?thesis using g grows_sem [OF g1 dd_okD(1) [OF ok]] grows_in_heap [OF g1] grows_lev [OF g1]
      by (simp add: gives_def denotes_def)
  qed
qed

lemma lookup2_fact:
  assumes ok: "dd_ok A s X {}" and p: "in_heap s f" "in_heap s g" and l: "l \<le> lev s f" "l \<le> lev s g"
    and fact: "\<And>r a. op_fact A op (sem s f) (sem s g) r \<Longrightarrow> a \<in> B \<Longrightarrow> r a = h a"
  shows "yields (cuddCacheLookup2 s op f g) (gives A s X (\<lambda>r s'. in_heap s r \<and> (\<forall>a \<in> B. sem s r a = h a) \<and> l \<le> lev s r))"
  by (rule yields_weaken [OF cuddCacheLookup2_spec [OF ok p]], erule gives_weaken) (use l fact in \<open>auto simp: fact2_def\<close>)

lemma gives_none: "dd_ok A s X {} \<Longrightarrow> yields (Inr (0, s)) (gives A s X P)"
  by (simp add: gives_def)

lemma miss_cofactors:
  assumes ok: "dd_ok A s X {}" and f: "hp s X f" "Cudd_Regular f \<noteq> dd_one s" and g: "hp s X g" "Cudd_Regular g \<noteq> dd_one s"
    and s1: "grows s s1" "dd_ok A s1 X {}"
  shows "\<exists>index fv fnv gv gnv. cofactors2 s1 f g = Inr (index, (fv, fnv), (gv, gnv)) \<and> index < dd_size s1
     \<and> dd_perm s1 ! index = min (lev s f) (lev s g) \<and> cof B s1 X index f fv fnv \<and> cof B s1 X index g gv gnv"
proof -
  have h: "hp s1 X f" "hp s1 X g" using hp_mono [OF f(1) s1(1)] hp_mono [OF g(1) s1(1)] by simp_all
  have "lev s1 f = lev s f" "lev s1 g = lev s g" using grows_lev [OF s1(1)] hp_in_heap [OF ok] f(1) g(1) by simp_all
  then show ?thesis using cofactors2_spec [OF s1(2) h(1) _ h(2)] f(2) g(2) grows_perm(3) [OF s1(1)] by metis
qed

lemma does_rec:
  assumes "does A B N P run n" "dd_size s1 < n + Suc l" "dd_size s1 \<le> N"
    and "dd_ok A s1 X1 {}" "hp s1 X1 p" "hp s1 X1 q" "l < lev s1 p" "l < lev s1 q"
  shows "yields (run s1 p q) (gives A s1 X1 (denotes B (Suc l) (\<lambda>a. P (sem s1 p a) (sem s1 q a))))"
  using assms(1) [unfolded does_def, rule_format, OF assms(4-6), of "Suc l"] assms(2,3,7,8) by simp

lemma saves_later:
  assumes ok: "dd_ok A s X {}" and f: "hp s X f" and g: "hp s X g" and s1: "grows s s1" "dd_ok A s1 X {}"
    and fact: "\<And>r. (\<And>a. a \<in> B \<Longrightarrow> r a = P (sem s1 f a) (sem s1 g a)) \<Longrightarrow> op_fact A op (sem s1 f) (sem s1 g) r"
  shows "saves A B (min (lev s f) (lev s g)) (\<lambda>s. cuddCacheInsert2 s op f g) s1 (\<lambda>a. P (sem s1 f a) (sem s1 g a))"
    "saves A B (min (lev s f) (lev s g)) (save_if_shared op f g) s1 (\<lambda>a. P (sem s1 f a) (sem s1 g a))"
  using saves_insert2 [OF s1(2) grows_in_heap [OF s1(1) hp_in_heap [OF ok f]] grows_in_heap [OF s1(1) hp_in_heap [OF ok g]] _ fact]
    grows_lev [OF s1(1)] hp_in_heap [OF ok f] hp_in_heap [OF ok g] by simp_all

context node_maker begin

lemma cached_binary:
  assumes ok: "dd_ok A s X {}" and f: "hp s X f" "l \<le> lev s f" and g: "hp s X g" "l \<le> lev s g"
    and fuel: "dd_size s < Suc n + l" "dd_size s \<le> N" and IH: "does A B N P run n"
    and look: "yields look (gives A s X (\<lambda>r s'. in_heap s r \<and> (\<forall>a \<in> B. sem s r a = P (sem s f a) (sem s g a)) \<and> l \<le> lev s r))"
    and save: "\<And>s1. grows s s1 \<Longrightarrow> dd_ok A s1 X {} \<Longrightarrow>
        saves A B (min (lev s f) (lev s g)) save s1 (\<lambda>a. P (sem s1 f a) (sem s1 g a))"
    and cofs: "\<And>s1. grows s s1 \<Longrightarrow> dd_ok A s1 X {} \<Longrightarrow> \<exists>index fv fnv gv gnv. cofs s1 = Inr (index, (fv, fnv), (gv, gnv)) \<and> index < dd_size s1
        \<and> dd_perm s1 ! index = min (lev s f) (lev s g) \<and> cof B s1 X index f fv fnv \<and> cof B s1 X index g gv gnv"
    and join: "join = join_bdd (make_pushed mk) \<or> join = join_ldd (make_pushed mk)"
  shows "yields (rbind look (\<lambda>(r, s). if r \<noteq> 0 then Inr (r, s)
       else rbind (cofs s) (\<lambda>(index, (fv, fnv), (gv, gnv)).
              run_branches (\<lambda>s. run s fv gv) (\<lambda>s. run s fnv gnv) (join index save) s)))
     (gives A s X (denotes B l (\<lambda>a. P (sem s f a) (sem s g a))))"
proof (rule after_lookup [OF ok look])
  fix s1 assume s1: "grows s s1" "dd_ok A s1 X {}"
  obtain index fv fnv gv gnv where c: "cofs s1 = Inr (index, (fv, fnv), (gv, gnv))" "index < dd_size s1"
      "dd_perm s1 ! index = min (lev s f) (lev s g)" "cof B s1 X index f fv fnv" "cof B s1 X index g gv gnv"
    using cofs [OF s1] by blast
  let ?k = "\<lambda>s. rbind (cofs s) (\<lambda>(index, (fv, fnv), (gv, gnv)).
              run_branches (\<lambda>s. run s fv gv) (\<lambda>s. run s fnv gnv) (join index save) s)"
  have fuel': "dd_size s2 < n + Suc (dd_perm s1 ! index)" "dd_size s2 \<le> N" if "grows s1 s2" for s2
    using fuel f(2) g(2) grows_perm(2) [OF s1(1)] grows_perm(2) [OF that] unfolding c(3) by simp_all
  have sz1: "dd_size s1 \<le> N" by (rule fuel'(2) [OF grows_refl])
  have "saves A B (dd_perm s1 ! index) save s1 (\<lambda>a. P (sem s1 f a) (sem s1 g a))"
    using save [OF s1] c(3) by simp
  moreover have "join index save = join_bdd (make_pushed mk) index save \<or> join index save = join_ldd (make_pushed mk) index save"
    using join by blast
  ultimately have "yields (?k s1) (gives A s1 X (denotes B (dd_perm s1 ! index) (\<lambda>a. P (sem s1 f a) (sem s1 g a))))"
    using binary_step [OF s1(2) c(2) sz1 c(4,5), of run P save "join index save"] does_rec [OF IH fuel'] c(1) by simp
  then have "yields (?k s1) (gives A s1 X (denotes B l (\<lambda>a. P (sem s1 f a) (sem s1 g a))))"
    by (rule gives_denotes_le) (use c(3) f(2) g(2) in simp)
  then show "yields (?k s1) (gives A s1 X (denotes B l (\<lambda>a. P (sem s f a) (sem s g a))))"
    using grows_sem [OF s1(1) dd_okD(1) [OF ok]] hp_in_heap [OF ok f(1)] hp_in_heap [OF ok g(1)] by simp
qed

end

section \<open>If-then-else\<close>

text \<open>The terminal cases, which reduce to conjunction and exclusive or.\<close>

definition negated :: "(ptr \<times> DdManager) res \<Rightarrow> (ptr \<times> DdManager) res" where
  "negated m = rbind m (\<lambda>(r, s). Inr (Cudd_NotCond r (r \<noteq> 0), s))"

definition ite_terminal :: "(DdManager \<Rightarrow> ptr \<Rightarrow> ptr \<Rightarrow> (ptr \<times> DdManager) res) \<Rightarrow> (DdManager \<Rightarrow> ptr \<Rightarrow> ptr \<Rightarrow> (ptr \<times> DdManager) res) \<Rightarrow>
    DdManager \<Rightarrow> ptr \<Rightarrow> ptr \<Rightarrow> ptr \<Rightarrow> (ptr \<times> DdManager) res \<Rightarrow> (ptr \<times> DdManager) res" where
  "ite_terminal conjr xorr s f g h rest =
     (let one = dd_one s; zero = Cudd_Not one
      in if f = one then Inr (g, s)
         else if f = zero then Inr (h, s)
         else if g = one \<or> f = g then
           (if h = zero then Inr (f, s) else negated (conjr s (Cudd_Not f) (Cudd_Not h)))
         else if g = zero \<or> f = Cudd_Not g then
           (if h = one then Inr (Cudd_Not f, s) else conjr s (Cudd_Not f) h)
         else if h = zero \<or> f = h then conjr s f g
         else if h = one \<or> f = Cudd_Not h then negated (conjr s f (Cudd_Not g))
         else if g = h then Inr (g, s)
         else if g = Cudd_Not h then xorr s f h
         else rest)"

text \<open>The first two operands are made regular; the result may have to be complemented.\<close>

definition bddVarToCanonicalSimple :: "DdManager \<Rightarrow> ptr \<Rightarrow> ptr \<Rightarrow> ptr \<Rightarrow> (bool \<times> (ptr \<times> ptr \<times> ptr) \<times> (nat \<times> nat \<times> nat)) res" where
  "bddVarToCanonicalSimple s f g h =
     (let (f, g, h) = (if Cudd_IsComplement f then (Cudd_Not f, h, g) else (f, g, h));
          (comple, g, h) = (if Cudd_IsComplement g then (True, Cudd_Not g, Cudd_Not h) else (False, g, h))
      in rbind (node s f) (\<lambda>F. rbind (perm_at s (n_index F)) (\<lambda>topf.
         rbind (node s g) (\<lambda>G. rbind (perm_at s (n_index G)) (\<lambda>topg.
         rbind (node s (Cudd_Regular h)) (\<lambda>H. rbind (perm_at s (n_index H)) (\<lambda>toph.
           Inr (comple, (f, g, h), (topf, topg, toph)))))))))"

text \<open>The cofactors; the index is that of the last operand at the top level.\<close>

definition cofactors3 :: "DdManager \<Rightarrow> ptr \<Rightarrow> ptr \<Rightarrow> ptr \<Rightarrow> nat \<Rightarrow> nat \<Rightarrow> nat \<Rightarrow> (nat \<times> (ptr \<times> ptr) \<times> (ptr \<times> ptr) \<times> (ptr \<times> ptr)) res" where
  "cofactors3 s f g h topf topg toph =
     rbind (node s f) (\<lambda>F. rbind (node s g) (\<lambda>G. rbind (node s (Cudd_Regular h)) (\<lambda>H.
       let v = ddMin topg toph; top = (if topf \<le> v then ddMin topf v else v)
       in Inr (if toph = top then n_index H else if topg = top then n_index G else n_index F,
               if topf \<le> v then (n_T F, n_E F) else (f, f),
               if topg = top then (n_T G, n_E G) else (g, g),
               if toph = top then kids H h else (h, h)))))"

definition complemented :: "bool \<Rightarrow> (ptr \<times> DdManager) res \<Rightarrow> (ptr \<times> DdManager) res" where
  "complemented comple m = rbind m (\<lambda>(r, s). Inr (if r = 0 then 0 else Cudd_NotCond r comple, s))"

definition ite :: "bool \<Rightarrow> bool \<Rightarrow> bool \<Rightarrow> bool" where
  "ite x y z = (if x then y else z)"

definition does3 :: "(nat \<Rightarrow> bool) set \<Rightarrow> (nat \<Rightarrow> bool) set \<Rightarrow> nat \<Rightarrow> (DdManager \<Rightarrow> ptr \<Rightarrow> ptr \<Rightarrow> ptr \<Rightarrow> (ptr \<times> DdManager) res) \<Rightarrow> nat \<Rightarrow> bool" where
  "does3 A B N run n \<longleftrightarrow> (\<forall>s X f g h l. dd_ok A s X {} \<longrightarrow> hp s X f \<longrightarrow> hp s X g \<longrightarrow> hp s X h \<longrightarrow>
     l \<le> lev s f \<longrightarrow> l \<le> lev s g \<longrightarrow> l \<le> lev s h \<longrightarrow> dd_size s < n + l \<longrightarrow> dd_size s \<le> N \<longrightarrow>
     yields (run s f g h) (gives A s X (denotes B l (\<lambda>a. ite (sem s f a) (sem s g a) (sem s h a)))))"

lemma complemented_spec:
  assumes "yields m (gives A s X (denotes B l h))"
  shows "yields (complemented c m) (gives A s X (denotes B l (\<lambda>a. h a \<noteq> c)))"
  unfolding complemented_def
proof (rule yields_bind [OF assms], clarify)
  fix r s' assume g: "gives A s X (denotes B l h) r s'"
  show "yields (Inr (if r = 0 then 0 else Cudd_NotCond r c, s')) (gives A s X (denotes B l (\<lambda>a. h a \<noteq> c)))"
  proof (cases "r = 0")
    case False
    then have r: "dd_ok A s' X {Cudd_Regular r}" "denotes B l h r s'" "grows s s'" using g by (simp_all add: gives_def)
    have "in_heap s' (Cudd_NotCond r c)" using r(2) by (cases c) (simp_all add: denotes_def)
    then have "Cudd_NotCond r c \<noteq> 0" using in_heap_nonzero [OF dd_okD(1) [OF r(1)]] by blast
    then show ?thesis using False r denotes_Not [OF r(2)] by (cases c) (simp_all add: gives_def)
  qed (use g in \<open>simp add: gives_def\<close>)
qed

lemma negated_spec:
  assumes "yields m (gives A s X (denotes B l h))"
  shows "yields (negated m) (gives A s X (denotes B l (\<lambda>a. \<not> h a)))"
proof -
  have "negated m = complemented True m"
    unfolding negated_def complemented_def by (rule arg_cong [where f = "rbind m"]) (auto simp: fun_eq_iff Cudd_NotCond_def)
  then show ?thesis using complemented_spec [OF assms, of True] by simp
qed

lemma gives_cong: "yields m (gives A s X (denotes B l h)) \<Longrightarrow> (\<And>a. a \<in> B \<Longrightarrow> h a = h' a) \<Longrightarrow> yields m (gives A s X (denotes B l h'))"
  by (erule yields_weaken, erule gives_weaken) (simp add: denotes_def)

lemma does_run:
  assumes "does A B N P run n" "dd_ok A s X {}" "hp s X f" "hp s X g" "l \<le> lev s f" "l \<le> lev s g" "dd_size s < n + l" "dd_size s \<le> N"
    and "\<And>a. a \<in> B \<Longrightarrow> P (sem s f a) (sem s g a) = h a"
  shows "yields (run s f g) (gives A s X (denotes B l h))"
  using gives_cong [OF assms(1) [unfolded does_def, rule_format, OF assms(2-8)]] assms(9) by blast

lemma regular_not_one: "nodes_ok s \<Longrightarrow> f \<noteq> dd_one s \<Longrightarrow> f \<noteq> Cudd_Not (dd_one s) \<Longrightarrow> Cudd_Regular f \<noteq> dd_one s"
  using regular_cases [of f "dd_one s"] one_in_heap(2) by blast

lemma ite_terminal_spec:
  assumes conjr: "does A B N (\<and>) conjr n" and xorr: "does A B N (\<noteq>) xorr n"
    and ok: "dd_ok A s X {}" and f: "hp s X f" "l \<le> lev s f" and g: "hp s X g" "l \<le> lev s g" and h: "hp s X h" "l \<le> lev s h"
    and fuel: "dd_size s < n + l" "dd_size s \<le> N"
    and rest: "Cudd_Regular f \<noteq> dd_one s \<Longrightarrow> Cudd_Regular g \<noteq> dd_one s \<Longrightarrow> Cudd_Regular h \<noteq> dd_one s \<Longrightarrow> g \<noteq> h \<Longrightarrow> g \<noteq> Cudd_Not h \<Longrightarrow>
        yields rest (gives A s X (denotes B l (\<lambda>a. ite (sem s f a) (sem s g a) (sem s h a))))"
  shows "yields (ite_terminal conjr xorr s f g h rest) (gives A s X (denotes B l (\<lambda>a. ite (sem s f a) (sem s g a) (sem s h a))))"
proof -
  note n = dd_okD(1) [OF ok]
  let ?one = "dd_one s" and ?zero = "Cudd_Not (dd_one s)"
  let ?Q = "gives A s X (denotes B l (\<lambda>a. ite (sem s f a) (sem s g a) (sem s h a)))"
  note inh = hp_in_heap [OF ok f(1)] hp_in_heap [OF ok g(1)] hp_in_heap [OF ok h(1)]
  have sems: "sem s ?one a" "\<not> sem s ?zero a" "sem s (Cudd_Not f) a = (\<not> sem s f a)" "sem s (Cudd_Not g) a = (\<not> sem s g a)"
      "sem s (Cudd_Not h) a = (\<not> sem s h a)" for a
    using sem_one [OF n] inh by (simp_all add: DD_ZERO_def)
  note def = ite_terminal_def Let_def
  show ?thesis
  proof (cases "f = ?one \<or> f = ?zero")
    case True
    then show ?thesis
    proof
      assume 1: "f = ?one"
      have "yields (Inr (g, s)) ?Q" by (rule gives_self [OF ok g]) (simp add: 1 sems ite_def)
      then show ?thesis using 1 by (simp add: def)
    next
      assume 1: "f = ?zero"
      have "yields (Inr (h, s)) ?Q" by (rule gives_self [OF ok h]) (simp add: 1 sems ite_def)
      then show ?thesis using 1 by (simp add: def)
    qed
  next
    case c1: False
    show ?thesis
    proof (cases "g = ?one \<or> f = g")
      case True
      then have gt: "ite (sem s f a) (sem s g a) (sem s h a) = (sem s f a \<or> sem s h a)" for a by (auto simp: sems ite_def)
      show ?thesis
      proof (cases "h = ?zero")
        case z: True
        have "yields (Inr (f, s)) ?Q" unfolding gt by (rule gives_self [OF ok f]) (simp add: z sems)
        then show ?thesis using c1 True z by (simp add: def)
      next
        case z: False
        have "yields (conjr s (Cudd_Not f) (Cudd_Not h)) (gives A s X (denotes B l (\<lambda>a. \<not> sem s f a \<and> \<not> sem s h a)))"
          by (rule does_run [OF conjr ok]) (use f h fuel sems in simp_all)
        then have "yields (negated (conjr s (Cudd_Not f) (Cudd_Not h))) ?Q"
          unfolding gt by (rule gives_cong [OF negated_spec]) simp
        then show ?thesis using c1 True z by (simp add: def)
      qed
    next
      case c2: False
      show ?thesis
      proof (cases "g = ?zero \<or> f = Cudd_Not g")
        case True
        then have gt: "ite (sem s f a) (sem s g a) (sem s h a) = (\<not> sem s f a \<and> sem s h a)" for a by (auto simp: sems ite_def)
        show ?thesis
        proof (cases "h = ?one")
          case z: True
          have "yields (Inr (Cudd_Not f, s)) ?Q" unfolding gt by (rule gives_self [OF ok]) (simp_all add: z sems f)
          then show ?thesis using c1 c2 True z by (simp add: def)
        next
          case z: False
          have "yields (conjr s (Cudd_Not f) h) ?Q" unfolding gt by (rule does_run [OF conjr ok]) (use f h fuel sems in simp_all)
          then show ?thesis using c1 c2 True z by (simp add: def)
        qed
      next
        case c3: False
        show ?thesis
        proof (cases "h = ?zero \<or> f = h")
          case True
          then have gt: "ite (sem s f a) (sem s g a) (sem s h a) = (sem s f a \<and> sem s g a)" for a by (auto simp: sems ite_def)
          have "yields (conjr s f g) ?Q" unfolding gt by (rule does_run [OF conjr ok]) (use f g fuel sems in simp_all)
          then show ?thesis using c1 c2 c3 True by (simp add: def)
        next
          case c4: False
          show ?thesis
          proof (cases "h = ?one \<or> f = Cudd_Not h")
            case True
            then have gt: "ite (sem s f a) (sem s g a) (sem s h a) = (\<not> sem s f a \<or> sem s g a)" for a by (auto simp: sems ite_def)
            have "yields (conjr s f (Cudd_Not g)) (gives A s X (denotes B l (\<lambda>a. sem s f a \<and> \<not> sem s g a)))"
              by (rule does_run [OF conjr ok]) (use f g fuel sems in simp_all)
            then have "yields (negated (conjr s f (Cudd_Not g))) ?Q"
              unfolding gt by (rule gives_cong [OF negated_spec]) simp
            then show ?thesis using c1 c2 c3 c4 True by (simp add: def)
          next
            case c5: False
            consider "g = h" | "g \<noteq> h" "g = Cudd_Not h" | "g \<noteq> h" "g \<noteq> Cudd_Not h" by blast
            then show ?thesis
            proof cases
              case 1
              have "yields (Inr (g, s)) ?Q" by (rule gives_self [OF ok g]) (simp add: 1 ite_def)
              then show ?thesis using c1 c2 c3 c4 c5 1 by (simp add: def)
            next
              case 2
              have "yields (xorr s f h) ?Q" by (rule does_run [OF xorr ok]) (use f h fuel sems 2 in \<open>auto simp: ite_def\<close>)
              then show ?thesis using c1 c2 c3 c4 c5 2 by (simp add: def)
            next
              case 3
              have "yields rest ?Q" using rest regular_not_one [OF n] c1 c2 c3 c4 c5 3 by blast
              then show ?thesis using c1 c2 c3 c4 c5 3 by (simp add: def)
            qed
          qed
        qed
      qed
    qed
  qed
qed

lemma canonical_simple_spec:
  assumes ok: "dd_ok A s X F" and f: "hp s X f" "Cudd_Regular f \<noteq> dd_one s" and g: "hp s X g" "Cudd_Regular g \<noteq> dd_one s"
    and h: "hp s X h" "Cudd_Regular h \<noteq> dd_one s"
  obtains c f' g' h' where "bddVarToCanonicalSimple s f g h = Inr (c, (f', g', h'), (lev s f', lev s g', lev s h'))"
    "hp s X f'" "Cudd_Regular f' \<noteq> dd_one s" "\<not> Cudd_IsComplement f'" "hp s X g'" "Cudd_Regular g' \<noteq> dd_one s" "\<not> Cudd_IsComplement g'"
    "hp s X h'" "Cudd_Regular h' \<noteq> dd_one s" "g = h \<longleftrightarrow> g' = h'"
    "\<And>l. l \<le> lev s f \<Longrightarrow> l \<le> lev s g \<Longrightarrow> l \<le> lev s h \<Longrightarrow> l \<le> lev s f' \<and> l \<le> lev s g' \<and> l \<le> lev s h'"
    "\<And>a. ite (sem s f a) (sem s g a) (sem s h a) \<longleftrightarrow> ite (sem s f' a) (sem s g' a) (sem s h' a) \<noteq> c"
proof -
  obtain f1 g1 h1 where 1: "(if Cudd_IsComplement f then (Cudd_Not f, h, g) else (f, g, h)) = (f1, g1, h1)" by (metis prod_cases3)
  obtain c g2 h2 where 2: "(if Cudd_IsComplement g1 then (True, Cudd_Not g1, Cudd_Not h1) else (False, g1, h1)) = (c, g2, h2)" by (metis prod_cases3)
  note inh = hp_in_heap [OF ok f(1)] hp_in_heap [OF ok g(1)] hp_in_heap [OF ok h(1)]
  have f1: "hp s X f1" "Cudd_Regular f1 \<noteq> dd_one s" "\<not> Cudd_IsComplement f1" using 1 f by (auto split: if_splits)
  have g2: "hp s X g2" "Cudd_Regular g2 \<noteq> dd_one s" "\<not> Cudd_IsComplement g2" using 1 2 g h by (auto split: if_splits)
  have h2: "hp s X h2" "Cudd_Regular h2 \<noteq> dd_one s" using 1 2 g h by (auto split: if_splits)
  have eq: "g = h \<longleftrightarrow> g2 = h2" using 1 2 by (auto split: if_splits)
  have lev: "l \<le> lev s f1 \<and> l \<le> lev s g2 \<and> l \<le> lev s h2" if "l \<le> lev s f" "l \<le> lev s g" "l \<le> lev s h" for l
    using 1 2 that by (auto split: if_splits)
  have sem: "ite (sem s f a) (sem s g a) (sem s h a) \<longleftrightarrow> ite (sem s f1 a) (sem s g2 a) (sem s h2 a) \<noteq> c" for a
    using 1 2 inh by (auto simp: ite_def split: if_splits)
  obtain nf where nf: "node s (Cudd_Regular f1) = Inr nf" "perm_at s (n_index nf) = Inr (lev s f1)" using hp_node [OF ok f1(1,2)] by blast
  obtain ng where ng: "node s (Cudd_Regular g2) = Inr ng" "perm_at s (n_index ng) = Inr (lev s g2)" using hp_node [OF ok g2(1,2)] by blast
  obtain nh where nh: "node s (Cudd_Regular h2) = Inr nh" "perm_at s (n_index nh) = Inr (lev s h2)" using hp_node [OF ok h2] by blast
  have run: "bddVarToCanonicalSimple s f g h = Inr (c, (f1, g2, h2), (lev s f1, lev s g2, lev s h2))"
    using nf ng nh f1(3) g2(3) by (simp add: bddVarToCanonicalSimple_def 1 2)
  show thesis by (rule that [OF run f1 g2 h2 eq lev sem])
qed

lemma cofactors3_spec:
  assumes ok: "dd_ok A s X F" and f: "hp s X f" "Cudd_Regular f \<noteq> dd_one s" "\<not> Cudd_IsComplement f"
    and g: "hp s X g" "Cudd_Regular g \<noteq> dd_one s" "\<not> Cudd_IsComplement g" and h: "hp s X h" "Cudd_Regular h \<noteq> dd_one s"
  shows "\<exists>index Fv Fnv Gv Gnv Hv Hnv. cofactors3 s f g h (lev s f) (lev s g) (lev s h) = Inr (index, (Fv, Fnv), (Gv, Gnv), (Hv, Hnv))
     \<and> index < dd_size s \<and> dd_perm s ! index = min (lev s f) (min (lev s g) (lev s h))
     \<and> cof B s X index f Fv Fnv \<and> cof B s X index g Gv Gnv \<and> cof B s X index h Hv Hnv"
proof -
  note v = dd_okD(2) [OF ok]
  obtain nf where nf: "node s (Cudd_Regular f) = Inr nf" "n_index nf < dd_size s"
      "dd_perm s ! n_index nf = lev s f" "cof B s X (n_index nf) f (fst (kids nf f)) (snd (kids nf f))"
    using hp_node [OF ok f(1,2)] by blast
  obtain ng where ng: "node s (Cudd_Regular g) = Inr ng" "n_index ng < dd_size s"
      "dd_perm s ! n_index ng = lev s g" "cof B s X (n_index ng) g (fst (kids ng g)) (snd (kids ng g))"
    using hp_node [OF ok g(1,2)] by blast
  obtain nh where nh: "node s (Cudd_Regular h) = Inr nh" "n_index nh < dd_size s"
      "dd_perm s ! n_index nh = lev s h" "cof B s X (n_index nh) h (fst (kids nh h)) (snd (kids nh h))"
    using hp_node [OF ok h] by blast
  have inj: "i = j" if "i < dd_size s" "j < dd_size s" "dd_perm s ! i = dd_perm s ! j" for i j
    by (rule perm_at_inject [OF v that])
  obtain top where top: "top = min (lev s f) (min (lev s g) (lev s h))" by blast
  then have at: "lev s f = top \<or> lev s g = top \<or> lev s h = top" "top \<le> lev s f" "top \<le> lev s g" "top \<le> lev s h" by linarith+
  obtain i where idef: "i = (if lev s h = top then n_index nh else if lev s g = top then n_index ng else n_index nf)" by blast
  obtain v where v: "ddMin (lev s g) (lev s h) = v" by blast
  have vmin: "v = min (lev s g) (lev s h)" using v by (auto simp: ddMin_def min_def)
  have mtop: "(if lev s f \<le> v then ddMin (lev s f) v else v) = top"
    unfolding top vmin by (auto simp: ddMin_def min_def)
  have cond: "lev s f \<le> v \<longleftrightarrow> lev s f = top" unfolding top vmin by (auto simp: min_def)
  have i: "i < dd_size s" "dd_perm s ! i = top"
  proof -
    show "i < dd_size s" unfolding idef using nf(2) ng(2) nh(2) by simp
    show "dd_perm s ! i = top"
    proof (cases "lev s h = top")
      case True
      then show ?thesis using nh(3) by (simp add: idef)
    next
      case h: False
      show ?thesis
      proof (cases "lev s g = top")
        case True
        then show ?thesis using ng(3) h by (simp add: idef)
      next
        case False
        then show ?thesis using nf(3) h at(1) by (simp add: idef)
      qed
    qed
  qed
  have kf: "kids nf f = (n_T nf, n_E nf)" "kids ng g = (n_T ng, n_E ng)" using f(3) g(3) by (simp_all add: kids_def)
  have run: "cofactors3 s f g h (lev s f) (lev s g) (lev s h) = Inr (i,
       if lev s f = top then kids nf f else (f, f), if lev s g = top then kids ng g else (g, g), if lev s h = top then kids nh h else (h, h))"
  proof -
    have "cofactors3 s f g h (lev s f) (lev s g) (lev s h) = (let t = (if lev s f \<le> v then ddMin (lev s f) v else v)
        in Inr (if lev s h = t then n_index nh else if lev s g = t then n_index ng else n_index nf,
               if lev s f \<le> v then (n_T nf, n_E nf) else (f, f), if lev s g = t then (n_T ng, n_E ng) else (g, g), if lev s h = t then kids nh h else (h, h)))"
      using nf(1) ng(1) nh(1) f(3) g(3) by (simp add: cofactors3_def v)
    then show ?thesis unfolding mtop unfolding cond kf Let_def idef .
  qed
  have one: "cof B s X i p (fst (if lev s p = top then kids m p else (p, p))) (snd (if lev s p = top then kids m p else (p, p)))"
    if p: "hp s X p" "top \<le> lev s p" and m: "n_index m < dd_size s" "dd_perm s ! n_index m = lev s p"
      "cof B s X (n_index m) p (fst (kids m p)) (snd (kids m p))" for p m
  proof (cases "lev s p = top")
    case True
    then have "n_index m = i" using inj [OF m(1) i(1)] m(2) i(2) by simp
    then show ?thesis using m(3) True by simp
  next
    case False
    then have "dd_perm s ! i < lev s p" unfolding i(2) using p(2) by simp
    then show ?thesis unfolding if_not_P [OF False] fst_conv snd_conv by (rule cof_same [OF p(1)])
  qed
  note cF = one [OF f(1) at(2) nf(2-4)] and cG = one [OF g(1) at(3) ng(2-4)] and cH = one [OF h(1) at(4) nh(2-4)]
  show ?thesis using run i cF cG cH unfolding top [symmetric] by (metis prod.collapse)
qed

lemma does3_rec:
  assumes "does3 A B N run n" "dd_size s1 < n + Suc l" "dd_size s1 \<le> N" "dd_ok A s1 X1 {}"
    and "hp s1 X1 p" "hp s1 X1 q" "hp s1 X1 r" "l < lev s1 p" "l < lev s1 q" "l < lev s1 r"
  shows "yields (run s1 p q r) (gives A s1 X1 (denotes B (Suc l) (\<lambda>a. ite (sem s1 p a) (sem s1 q a) (sem s1 r a))))"
  using assms(1) [unfolded does3_def, rule_format, OF assms(4-7), of "Suc l"] assms(2,3,8-10) by simp

context node_maker begin

lemma cached_ternary:
  assumes ok: "dd_ok A s X {}" and f: "hp s X f" "l \<le> lev s f" "\<not> Cudd_IsComplement f" and g: "hp s X g" "l \<le> lev s g" "\<not> Cudd_IsComplement g"
    and h: "hp s X h" "l \<le> lev s h" and fuel: "dd_size s < Suc n + l" "dd_size s \<le> N" and IH: "does3 A B N run n" and B: "(\<lambda>_. True) \<in> B"
    and look: "yields look (gives A s X (\<lambda>r s'. in_heap s r \<and> (\<forall>a \<in> B. sem s r a = ite (sem s f a) (sem s g a) (sem s h a)) \<and> l \<le> lev s r))"
    and save: "\<And>s1. grows s s1 \<Longrightarrow> dd_ok A s1 X {} \<Longrightarrow>
        saves A B (min (lev s f) (min (lev s g) (lev s h))) save s1 (\<lambda>a. ite (sem s1 f a) (sem s1 g a) (sem s1 h a))"
    and cofs: "\<And>s1. grows s s1 \<Longrightarrow> dd_ok A s1 X {} \<Longrightarrow> \<exists>index Fv Fnv Gv Gnv Hv Hnv.
        cofs s1 = Inr (index, (Fv, Fnv), (Gv, Gnv), (Hv, Hnv)) \<and> index < dd_size s1
        \<and> dd_perm s1 ! index = min (lev s f) (min (lev s g) (lev s h)) \<and> cof B s1 X index f Fv Fnv \<and> cof B s1 X index g Gv Gnv \<and> cof B s1 X index h Hv Hnv"
    and join: "join = join_bdd (make_regular mk) \<or> join = join_ldd (make_asserted mk)"
  shows "yields (rbind look (\<lambda>(r, s). if r \<noteq> 0 then Inr (r, s)
       else rbind (cofs s) (\<lambda>(index, (Fv, Fnv), (Gv, Gnv), (Hv, Hnv)).
              run_branches (\<lambda>s. run s Fv Gv Hv) (\<lambda>s. run s Fnv Gnv Hnv) (join index save) s)))
     (gives A s X (denotes B l (\<lambda>a. ite (sem s f a) (sem s g a) (sem s h a))))"
proof (rule after_lookup [OF ok look])
  fix s1 assume s1: "grows s s1" "dd_ok A s1 X {}"
  note inh = hp_in_heap [OF ok f(1)] hp_in_heap [OF ok g(1)] hp_in_heap [OF ok h(1)]
  obtain index Fv Fnv Gv Gnv Hv Hnv where c: "cofs s1 = Inr (index, (Fv, Fnv), (Gv, Gnv), (Hv, Hnv))" "index < dd_size s1"
      "dd_perm s1 ! index = min (lev s f) (min (lev s g) (lev s h))"
      "cof B s1 X index f Fv Fnv" "cof B s1 X index g Gv Gnv" "cof B s1 X index h Hv Hnv"
    using cofs [OF s1] by blast
  have fuel': "dd_size s2 < n + Suc (dd_perm s1 ! index)" "dd_size s2 \<le> N" if "grows s1 s2" for s2
    using fuel f(2) g(2) h(2) grows_perm(2) [OF s1(1)] grows_perm(2) [OF that] unfolding c(3) by simp_all
  have sem1: "sem s1 f = sem s f" "sem s1 g = sem s g" "sem s1 h = sem s h" using grows_sem [OF s1(1) dd_okD(1) [OF ok]] inh by simp_all
  let ?ft = "\<lambda>a. ite (sem s1 Fv a) (sem s1 Gv a) (sem s1 Hv a)" and ?fe = "\<lambda>a. ite (sem s1 Fnv a) (sem s1 Gnv a) (sem s1 Hnv a)"
  have "yields (run_branches (\<lambda>s. run s Fv Gv Hv) (\<lambda>s. run s Fnv Gnv Hnv) (join index save) s1)
      (gives A s1 X (denotes B (dd_perm s1 ! index) (\<lambda>a. ite (sem s1 f a) (sem s1 g a) (sem s1 h a))))"
  proof (rule branch_join [OF s1(2) c(2) fuel'(2) [OF grows_refl], where ft = ?ft and fe = ?fe])
    show "yields (run s1 Fv Gv Hv) (gives A s1 X (denotes B (Suc (dd_perm s1 ! index)) ?ft))"
      using c(4-6) by (intro does3_rec [OF IH fuel' s1(2)]) (simp_all add: cof_def)
  next
    fix s2 X1 assume s2: "grows s1 s2" "dd_ok A s2 X1 {}" "\<And>q. X q \<le> X1 q"
    have hn: "hp s1 X Fnv" "hp s1 X Gnv" "hp s1 X Hnv" using c(4-6) by (simp_all add: cof_def)
    have hs: "hp s2 X1 Fnv" "hp s2 X1 Gnv" "hp s2 X1 Hnv" 
      by (rule hp_mono [OF hn(1) s2(1,3)], rule hp_mono [OF hn(2) s2(1,3)], rule hp_mono [OF hn(3) s2(1,3)])
    note inn = hp_in_heap [OF s1(2) hn(1)] hp_in_heap [OF s1(2) hn(2)] hp_in_heap [OF s1(2) hn(3)]
    have "yields (run s2 Fnv Gnv Hnv) (gives A s2 X1 (denotes B (Suc (dd_perm s1 ! index)) (\<lambda>a. ite (sem s2 Fnv a) (sem s2 Gnv a) (sem s2 Hnv a))))"
      using c(4-6) by (intro does3_rec [OF IH fuel' [OF s2(1)] s2(2) hs]) (simp_all add: cof_def grows_lev [OF s2(1)] inn)
    then show "yields (run s2 Fnv Gnv Hnv) (gives A s2 X1 (denotes B (Suc (dd_perm s1 ! index)) ?fe))"
      by (simp add: grows_sem [OF s2(1) dd_okD(1) [OF s1(2)]] inn)
  next
    show "\<And>a. a \<in> B \<Longrightarrow> ite (sem s1 f a) (sem s1 g a) (sem s1 h a) = (if a index then ?ft a else ?fe a)"
      using c(4-6) by (simp add: cof_def)
  next
    show "saves A B (dd_perm s1 ! index) save s1 (\<lambda>a. ite (sem s1 f a) (sem s1 g a) (sem s1 h a))"
      using save [OF s1] c(3) by simp
  next
    have t: "sem s1 p (\<lambda>_. True) \<longleftrightarrow> \<not> Cudd_IsComplement p" if "in_heap s p" for p
      by (rule all_true [OF dd_okD(1,2) [OF s1(2)] grows_in_heap [OF s1(1) that]])
    have "sem s1 Fv (\<lambda>_. True)" "sem s1 Gv (\<lambda>_. True)"
      using c(4,5) B t [OF inh(1)] t [OF inh(2)] f(3) g(3) by (auto simp: cof_def dest!: bspec)
    then have "?ft (\<lambda>_. True)" by (simp add: ite_def)
    then show "maker_for (if join = join_bdd (make_regular mk) then make_regular mk else make_asserted mk) ?ft"
      using B by (simp add: maker_for_def)
  next
    show "join index save = join_bdd (if join = join_bdd (make_regular mk) then make_regular mk else make_asserted mk) index save \<or>
        join index save = join_ldd (if join = join_bdd (make_regular mk) then make_regular mk else make_asserted mk) index save"
      using join by auto
  qed
  then have "yields (run_branches (\<lambda>s. run s Fv Gv Hv) (\<lambda>s. run s Fnv Gnv Hnv) (join index save) s1)
      (gives A s1 X (denotes B l (\<lambda>a. ite (sem s f a) (sem s g a) (sem s h a))))"
    unfolding sem1 by (rule gives_denotes_le) (use c(3) f(2) g(2) h(2) in simp)
  then show "yields (rbind (cofs s1) (\<lambda>(index, (Fv, Fnv), (Gv, Gnv), (Hv, Hnv)).
              run_branches (\<lambda>s. run s Fv Gv Hv) (\<lambda>s. run s Fnv Gnv Hnv) (join index save) s1))
      (gives A s1 X (denotes B l (\<lambda>a. ite (sem s f a) (sem s g a) (sem s h a))))"
    using c(1) by simp
qed

text \<open>
  The shortcut for a first operand that is a variable above the others.
\<close>

lemma variable_ite:
  assumes ok: "dd_ok A s X {}" and sz: "dd_size s \<le> N" and f: "hp s X f" "Cudd_Regular f \<noteq> dd_one s" "\<not> Cudd_IsComplement f" "l \<le> lev s f"
    and g: "hp s X g" "\<not> Cudd_IsComplement g" and h: "hp s X h" "g \<noteq> h" and top: "lev s f < lev s g" "lev s f < lev s h"
    and nf: "node s f = Inr F" "n_T F = dd_one s" "n_E F = Cudd_Not (dd_one s)"
  shows "yields (mk s (n_index F) g h) (gives A s X (denotes B l (\<lambda>a. ite (sem s f a) (sem s g a) (sem s h a))))"
proof -
  note n = dd_okD(1) [OF ok]
  have F: "n_index F < dd_size s" "dd_perm s ! n_index F = lev s f" "cof B s X (n_index F) f (n_T F) (n_E F)"
    using hp_node [OF ok f(1,2), of B] nf(1) f(3) by (auto simp: kids_def)
  have "node_args s (n_index F) g h"

    unfolding node_args_def lev_def [symmetric] F(2) using F(1) g(2) h(2) top hp_in_heap [OF ok g(1)] hp_in_heap [OF ok h(1)] by simp
  then have m: "yields (mk s (n_index F) g h) (gives A s X (denotes B (lev s f) (\<lambda>a. if a (n_index F) then sem s g a else sem s h a)))"
    using mk_spec [OF ok sz _ g(1) h(1), of "n_index F"] unfolding F(2) by blast
  have "(if a (n_index F) then sem s g a else sem s h a) = ite (sem s f a) (sem s g a) (sem s h a)" if "a \<in> B" for a
  proof -
    have "sem s f a = (if a (n_index F) then sem s (dd_one s) a else sem s (DD_ZERO s) a)"
      using F(3) that unfolding cof_def nf(2,3) DD_ZERO_def by blast
    then have "sem s f a = a (n_index F)" using sem_one(1) [OF n, of a] sem_one(2) [OF n, of a] by argo
    then show ?thesis unfolding ite_def by (rule arg_cong [OF sym])
  qed
  then show ?thesis by (rule gives_denotes_le [OF gives_cong [OF m] f(4)])
qed

end

lemma saves_insert3:
  assumes ok: "dd_ok A s X F" and p: "in_heap s f" "in_heap s g" "in_heap s h" and l: "min (lev s f) (min (lev s g) (lev s h)) \<le> l"
    and tag: "tag = DD_LDD_ITE_TAG \<and> B = A \<or> tag = DD_BDD_ITE_TAG \<and> B = UNIV"
  shows "saves A B l (\<lambda>s. cuddCacheInsert s tag f g h) s (\<lambda>a. ite (sem s f a) (sem s g a) (sem s h a))"
  unfolding saves_def
proof (intro allI impI)
  fix X1 F1 s1 r
  assume g1: "grows s s1" and ok1: "dd_ok A s1 X1 F1" and r: "in_heap s1 r" "l \<le> lev s1 r"
    and sem: "\<forall>a \<in> B. sem s1 r a = ite (sem s f a) (sem s g a) (sem s h a)"
  have p1: "in_heap s1 f" "in_heap s1 g" "in_heap s1 h" using grows_in_heap [OF g1] p by blast+
  have "DD_LDD_ITE_TAG \<noteq> DD_BDD_ITE_TAG" by (simp add: DD_LDD_ITE_TAG_def DD_BDD_ITE_TAG_def)
  then have "fact3 A tag s1 f g h r"
    using tag r(2) l sem grows_sem [OF g1 dd_okD(1) [OF ok]] grows_lev [OF g1] p by (auto simp: fact3_def ite_def)
  then show "\<exists>s'. cuddCacheInsert s1 tag f g h r = Inr s' \<and> same_nodes s1 s' \<and> dd_ok A s' X1 F1"
    using cuddCacheInsert_spec [OF ok1 p1 r(1)] tag by blast
qed

lemma lookup3_fact:
  assumes ok: "dd_ok A s X {}" and p: "in_heap s f" "in_heap s g" and l: "l \<le> lev s f" "l \<le> lev s g" "l \<le> lev s h"
    and tag: "tag = DD_LDD_ITE_TAG \<and> B = A \<or> tag = DD_BDD_ITE_TAG \<and> B = UNIV"
  shows "yields (cuddCacheLookup s tag f g h)
     (gives A s X (\<lambda>r s'. in_heap s r \<and> (\<forall>a \<in> B. sem s r a = ite (sem s f a) (sem s g a) (sem s h a)) \<and> l \<le> lev s r))"
proof (rule yields_weaken [OF cuddCacheLookup_spec [OF ok p]], use tag in blast, erule gives_weaken)
  fix r s' assume r: "in_heap s r \<and> fact3 A tag s f g h r"
  have "DD_LDD_ITE_TAG \<noteq> DD_BDD_ITE_TAG" by (simp add: DD_LDD_ITE_TAG_def DD_BDD_ITE_TAG_def)
  then show "in_heap s r \<and> (\<forall>a \<in> B. sem s r a = ite (sem s f a) (sem s g a) (sem s h a)) \<and> l \<le> lev s r"
    using r tag l by (auto simp: fact3_def ite_def)
qed

end
