(* ===== verification/Cudd_Steps.thy ===== *)
theory Cudd_Steps
  imports Cudd_Recur
begin

text \<open>
  One level of the recursive operations, for any cofactors, node constructor and way to save the
  result: conjunction, exclusive or and if-then-else on Boolean diagrams (\<^verbatim>\<open>cuddBddIte.c\<close>) and on linear
  decision diagrams (\<^verbatim>\<open>lddIte.c\<close>) are instances.
\<close>

section \<open>The bodies\<close>

definition and_body :: "op_name \<Rightarrow> (DdManager \<Rightarrow> ptr \<Rightarrow> ptr \<Rightarrow> (nat \<times> (ptr \<times> ptr) \<times> (ptr \<times> ptr)) res) \<Rightarrow>
    (DdManager \<Rightarrow> ptr \<Rightarrow> ptr \<Rightarrow> (ptr \<times> DdManager) res) \<Rightarrow>
    (nat \<Rightarrow> (DdManager \<Rightarrow> ptr \<Rightarrow> DdManager res) \<Rightarrow> DdManager \<Rightarrow> ptr \<Rightarrow> ptr \<Rightarrow> (ptr \<times> DdManager) res) \<Rightarrow>
    DdManager \<Rightarrow> ptr \<Rightarrow> ptr \<Rightarrow> (ptr \<times> DdManager) res" where
  "and_body op cofs run join s f g =
     (if Cudd_Regular f = Cudd_Regular g then Inr (if f = g then f else DD_ZERO s, s)
      else if Cudd_Regular f = dd_one s then Inr (if f = dd_one s then g else f, s)
      else if Cudd_Regular g = dd_one s then Inr (if g = dd_one s then f else g, s)
      else
        (let (f, g) = (if g < f then (g, f) else (f, g)) in
         rbind (shared s f g) (\<lambda>sh.
         rbind (if sh then cuddCacheLookup2 s op f g else Inr (0, s)) (\<lambda>(r, s).
           if r \<noteq> 0 then Inr (r, s)
           else
             rbind (cofs s f g) (\<lambda>(index, (fv, fnv), (gv, gnv)).
               run_branches (\<lambda>s. run s fv gv) (\<lambda>s. run s fnv gnv) (join index (save_if_shared op f g)) s)))))"

definition xor_body :: "op_name \<Rightarrow> (DdManager \<Rightarrow> ptr \<Rightarrow> ptr \<Rightarrow> (nat \<times> (ptr \<times> ptr) \<times> (ptr \<times> ptr)) res) \<Rightarrow>
    (DdManager \<Rightarrow> ptr \<Rightarrow> ptr \<Rightarrow> (ptr \<times> DdManager) res) \<Rightarrow>
    (nat \<Rightarrow> (DdManager \<Rightarrow> ptr \<Rightarrow> DdManager res) \<Rightarrow> DdManager \<Rightarrow> ptr \<Rightarrow> ptr \<Rightarrow> (ptr \<times> DdManager) res) \<Rightarrow>
    (ptr \<Rightarrow> ptr \<Rightarrow> DdManager \<Rightarrow> ptr \<Rightarrow> DdManager res) \<Rightarrow> DdManager \<Rightarrow> ptr \<Rightarrow> ptr \<Rightarrow> (ptr \<times> DdManager) res" where
  "xor_body op cofs run join save s f g =
     (if f = g then Inr (DD_ZERO s, s)
      else if f = Cudd_Not g then Inr (dd_one s, s)
      else
        (let (f, g) = (if g < f then (g, f) else (f, g)) in
         if g = DD_ZERO s then Inr (f, s)
         else if g = dd_one s then Inr (Cudd_Not f, s)
         else
           (let (f, g) = (if Cudd_IsComplement f then (Cudd_Not f, Cudd_Not g) else (f, g)) in
            if f = dd_one s then Inr (Cudd_Not g, s)
            else
              rbind (cuddCacheLookup2 s op f g) (\<lambda>(r, s).
                if r \<noteq> 0 then Inr (r, s)
                else
                  rbind (cofs s f g) (\<lambda>(index, (fv, fnv), (gv, gnv)).
                    run_branches (\<lambda>s. run s fv gv) (\<lambda>s. run s fnv gnv) (join index (save f g)) s)))))"

definition ite_body :: "32 word \<Rightarrow> (DdManager \<Rightarrow> ptr \<Rightarrow> ptr \<Rightarrow> (ptr \<times> DdManager) res) \<Rightarrow> (DdManager \<Rightarrow> ptr \<Rightarrow> ptr \<Rightarrow> (ptr \<times> DdManager) res) \<Rightarrow>
    (DdManager \<Rightarrow> ptr \<Rightarrow> ptr \<Rightarrow> ptr \<Rightarrow> nat \<Rightarrow> nat \<Rightarrow> nat \<Rightarrow> (nat \<times> (ptr \<times> ptr) \<times> (ptr \<times> ptr) \<times> (ptr \<times> ptr)) res) \<Rightarrow>
    (DdManager \<Rightarrow> ptr \<Rightarrow> ptr \<Rightarrow> ptr \<Rightarrow> (ptr \<times> DdManager) res) \<Rightarrow> (DdManager \<Rightarrow> nat \<Rightarrow> ptr \<Rightarrow> ptr \<Rightarrow> (ptr \<times> DdManager) res) \<Rightarrow>
    (nat \<Rightarrow> (DdManager \<Rightarrow> ptr \<Rightarrow> DdManager res) \<Rightarrow> DdManager \<Rightarrow> ptr \<Rightarrow> ptr \<Rightarrow> (ptr \<times> DdManager) res) \<Rightarrow>
    DdManager \<Rightarrow> ptr \<Rightarrow> ptr \<Rightarrow> ptr \<Rightarrow> (ptr \<times> DdManager) res" where
  "ite_body tag conjr xorr cofs run mk join s f g h =
     ite_terminal conjr xorr s f g h
       (rbind (bddVarToCanonicalSimple s f g h) (\<lambda>(comple, (f, g, h), (topf, topg, toph)).
          complemented comple
            (rbind (node s f) (\<lambda>F.
               if topf < ddMin topg toph \<and> n_T F = dd_one s \<and> n_E F = Cudd_Not (dd_one s)
               then mk s (n_index F) g h
               else
                 rbind (cuddCacheLookup s tag f g h) (\<lambda>(r, s).
                   if r \<noteq> 0 then Inr (r, s)
                   else
                     rbind (cofs s f g h topf topg toph) (\<lambda>(index, (Fv, Fnv), (Gv, Gnv), (Hv, Hnv)).
                       run_branches (\<lambda>s. run s Fv Gv Hv) (\<lambda>s. run s Fnv Gnv Hnv)
                         (join index (\<lambda>s. cuddCacheInsert s tag f g h)) s))))))"

text \<open>What the cofactors must be, for managers and operands as at hand.\<close>

definition cofs2_ok :: "(nat \<Rightarrow> bool) set \<Rightarrow> (nat \<Rightarrow> bool) set \<Rightarrow> nat \<Rightarrow>
    (DdManager \<Rightarrow> ptr \<Rightarrow> ptr \<Rightarrow> (nat \<times> (ptr \<times> ptr) \<times> (ptr \<times> ptr)) res) \<Rightarrow> bool" where
  "cofs2_ok A B N cofs \<longleftrightarrow> (\<forall>s X f g. dd_ok A s X {} \<longrightarrow> dd_size s \<le> N \<longrightarrow> hp s X f \<longrightarrow> Cudd_Regular f \<noteq> dd_one s \<longrightarrow>
     hp s X g \<longrightarrow> Cudd_Regular g \<noteq> dd_one s \<longrightarrow>
     (\<exists>index fv fnv gv gnv. cofs s f g = Inr (index, (fv, fnv), (gv, gnv)) \<and> index < dd_size s
        \<and> dd_perm s ! index = min (lev s f) (lev s g) \<and> cof B s X index f fv fnv \<and> cof B s X index g gv gnv))"

definition cofs3_ok :: "(nat \<Rightarrow> bool) set \<Rightarrow> (nat \<Rightarrow> bool) set \<Rightarrow> nat \<Rightarrow>
    (DdManager \<Rightarrow> ptr \<Rightarrow> ptr \<Rightarrow> ptr \<Rightarrow> nat \<Rightarrow> nat \<Rightarrow> nat \<Rightarrow> (nat \<times> (ptr \<times> ptr) \<times> (ptr \<times> ptr) \<times> (ptr \<times> ptr)) res) \<Rightarrow> bool" where
  "cofs3_ok A B N cofs \<longleftrightarrow> (\<forall>s X f g h. dd_ok A s X {} \<longrightarrow> dd_size s \<le> N \<longrightarrow> hp s X f \<longrightarrow> Cudd_Regular f \<noteq> dd_one s \<longrightarrow>
     \<not> Cudd_IsComplement f \<longrightarrow> hp s X g \<longrightarrow> Cudd_Regular g \<noteq> dd_one s \<longrightarrow> \<not> Cudd_IsComplement g \<longrightarrow> hp s X h \<longrightarrow> Cudd_Regular h \<noteq> dd_one s \<longrightarrow>
     (\<exists>index Fv Fnv Gv Gnv Hv Hnv. cofs s f g h (lev s f) (lev s g) (lev s h) = Inr (index, (Fv, Fnv), (Gv, Gnv), (Hv, Hnv))
        \<and> index < dd_size s \<and> dd_perm s ! index = min (lev s f) (min (lev s g) (lev s h))
        \<and> cof B s X index f Fv Fnv \<and> cof B s X index g Gv Gnv \<and> cof B s X index h Hv Hnv))"

lemma cofs2_later:
  assumes cofs: "cofs2_ok A B N cofs" and ok: "dd_ok A s X {}" and sz: "dd_size s \<le> N" and f: "hp s X f" "Cudd_Regular f \<noteq> dd_one s"
    and g: "hp s X g" "Cudd_Regular g \<noteq> dd_one s" and s1: "grows s s1" "dd_ok A s1 X {}"
  shows "\<exists>index fv fnv gv gnv. cofs s1 f g = Inr (index, (fv, fnv), (gv, gnv)) \<and> index < dd_size s1
     \<and> dd_perm s1 ! index = min (lev s f) (lev s g) \<and> cof B s1 X index f fv fnv \<and> cof B s1 X index g gv gnv"
proof -
  have h: "hp s1 X f" "hp s1 X g" using hp_mono [OF f(1) s1(1)] hp_mono [OF g(1) s1(1)] by simp_all
  have "lev s1 f = lev s f" "lev s1 g = lev s g" using grows_lev [OF s1(1)] hp_in_heap [OF ok] f(1) g(1) by simp_all
  then show ?thesis
    using cofs [unfolded cofs2_ok_def, rule_format, OF s1(2) _ h(1) _ h(2)] f(2) g(2) sz grows_perm(2,3) [OF s1(1)] by simp
qed

lemma cofs3_later:
  assumes cofs: "cofs3_ok A B N cofs" and ok: "dd_ok A s X {}" and sz: "dd_size s \<le> N"
    and f: "hp s X f" "Cudd_Regular f \<noteq> dd_one s" "\<not> Cudd_IsComplement f"
    and g: "hp s X g" "Cudd_Regular g \<noteq> dd_one s" "\<not> Cudd_IsComplement g" and h: "hp s X h" "Cudd_Regular h \<noteq> dd_one s"
    and s1: "grows s s1" "dd_ok A s1 X {}"
  shows "\<exists>index Fv Fnv Gv Gnv Hv Hnv. cofs s1 f g h (lev s f) (lev s g) (lev s h) = Inr (index, (Fv, Fnv), (Gv, Gnv), (Hv, Hnv))
     \<and> index < dd_size s1 \<and> dd_perm s1 ! index = min (lev s f) (min (lev s g) (lev s h))
     \<and> cof B s1 X index f Fv Fnv \<and> cof B s1 X index g Gv Gnv \<and> cof B s1 X index h Hv Hnv"
proof -
  note m = hp_mono [OF _ s1(1) order_refl]
  have "lev s1 f = lev s f" "lev s1 g = lev s g" "lev s1 h = lev s h"
    using grows_lev [OF s1(1)] hp_in_heap [OF ok] f(1) g(1) h(1) by simp_all
  then show ?thesis
    using cofs [unfolded cofs3_ok_def, rule_format, OF s1(2) _ m [OF f(1)] _ f(3) m [OF g(1)] _ g(3) m [OF h(1)]]
      f(2) g(2) h(2) sz grows_perm(2,3) [OF s1(1)] by simp
qed

text \<open>The operation of an entry says what the operation computes.\<close>

definition op_is :: "(nat \<Rightarrow> bool) set \<Rightarrow> (nat \<Rightarrow> bool) set \<Rightarrow> op_name \<Rightarrow> (bool \<Rightarrow> bool \<Rightarrow> bool) \<Rightarrow> bool" where
  "op_is A B op P \<longleftrightarrow> (\<forall>f g r. op_fact A op f g r \<longleftrightarrow> (\<forall>a \<in> B. r a = P (f a) (g a)))"

context node_maker begin

lemma saves_op:
  assumes op: "op_is A B op P" and ok: "dd_ok A s X {}" and f: "hp s X f" and g: "hp s X g" and s1: "grows s s1" "dd_ok A s1 X {}"
  shows "saves A B (min (lev s f) (lev s g)) (\<lambda>s. cuddCacheInsert2 s op f g) s1 (\<lambda>a. P (sem s1 f a) (sem s1 g a))"
    "saves A B (min (lev s f) (lev s g)) (save_if_shared op f g) s1 (\<lambda>a. P (sem s1 f a) (sem s1 g a))"
  using saves_later [OF ok f g s1, of B P op] op unfolding op_is_def by blast+

lemma and_step:
  assumes IH: "does A B N (\<and>) run n" and op: "op_is A B op (\<and>)" and cofs: "cofs2_ok A B N cofs"
    and join: "join = join_bdd (make_pushed mk) \<or> join = join_ldd (make_pushed mk)"
  shows "does A B N (\<and>) (and_body op cofs run join) (Suc n)"
  unfolding does_def
proof (intro allI impI)
  fix s X f g l
  assume ok: "dd_ok A s X {}" and f: "hp s X f" and g: "hp s X g" and l: "l \<le> lev s f" "l \<le> lev s g"
    and fuel: "dd_size s < Suc n + l" "dd_size s \<le> N"
  note n = dd_okD(1) [OF ok]
  note inh = hp_in_heap [OF ok f] hp_in_heap [OF ok g]
  let ?Q = "gives A s X (denotes B l (\<lambda>a. sem s f a \<and> sem s g a))"
  have l1: "l \<le> dd_size s" using l(1) lev_le [OF ok f] by simp
  consider (same) "Cudd_Regular f = Cudd_Regular g" | (one_f) "Cudd_Regular f \<noteq> Cudd_Regular g" "Cudd_Regular f = dd_one s"
    | (one_g) "Cudd_Regular f \<noteq> Cudd_Regular g" "Cudd_Regular f \<noteq> dd_one s" "Cudd_Regular g = dd_one s"
    | (rec) "Cudd_Regular f \<noteq> Cudd_Regular g" "Cudd_Regular f \<noteq> dd_one s" "Cudd_Regular g \<noteq> dd_one s" by blast
  then show "yields (and_body op cofs run join s f g) ?Q"
  proof cases
    case same
    have "f = g \<or> f = Cudd_Not g" using same Cudd_Regular_eq_iff by blast
    then have "yields (Inr (if f = g then f else DD_ZERO s, s)) ?Q"
    proof
      assume "f = g"
      then show ?thesis using gives_self [OF ok f l(1)] by simp
    next
      assume "f = Cudd_Not g"
      then show ?thesis using gives_self [OF ok hp_zero [OF n]] l1 lev_one(2) [OF n] sem_one(2) [OF n] inh by simp
    qed
    then show ?thesis using same by (simp add: and_body_def)
  next
    case one_f
    then have "f = dd_one s \<or> f = DD_ZERO s" unfolding DD_ZERO_def by (intro regular_cases one_in_heap(2) [OF n])
    then have "yields (Inr (if f = dd_one s then g else f, s)) ?Q"
      using gives_self [OF ok g l(2)] gives_self [OF ok f l(1)] sem_one [OF n] by (auto simp: DD_ZERO_def)
    then show ?thesis using one_f by (simp add: and_body_def)
  next
    case one_g
    then have "g = dd_one s \<or> g = DD_ZERO s" unfolding DD_ZERO_def by (intro regular_cases one_in_heap(2) [OF n])
    then have "yields (Inr (if g = dd_one s then f else g, s)) ?Q"
      using gives_self [OF ok g l(2)] gives_self [OF ok f l(1)] sem_one [OF n] by (auto simp: DD_ZERO_def)
    then show ?thesis using one_g by (simp add: and_body_def)
  next
    case rec
    obtain f' g' where fg: "(if g < f then (g, f) else (f, g)) = (f', g')" by fastforce
    have f': "hp s X f'" "Cudd_Regular f' \<noteq> dd_one s" "l \<le> lev s f'" and g': "hp s X g'" "Cudd_Regular g' \<noteq> dd_one s" "l \<le> lev s g'"
      and comm: "(sem s f a \<and> sem s g a) = (sem s f' a \<and> sem s g' a)" for a
      using fg f g rec l by (auto split: if_splits)
    note inh' = hp_in_heap [OF ok f'(1)] hp_in_heap [OF ok g'(1)]
    obtain sh where sh: "shared s f' g' = Inr sh" using shared_run [OF inh'] by blast
    let ?look = "if sh then cuddCacheLookup2 s op f' g' else Inr (0, s)"
    have "yields (rbind ?look (\<lambda>(r, s). if r \<noteq> 0 then Inr (r, s)
           else rbind (cofs s f' g') (\<lambda>(index, (fv, fnv), (gv, gnv)).
             run_branches (\<lambda>s. run s fv gv) (\<lambda>s. run s fnv gnv) (join index (save_if_shared op f' g')) s)))
        (gives A s X (denotes B l (\<lambda>a. sem s f' a \<and> sem s g' a)))"
    proof (rule cached_binary [OF ok f'(1,3) g'(1,3) fuel IH])
      show "yields ?look (gives A s X (\<lambda>r s'. in_heap s r \<and> (\<forall>a \<in> B. sem s r a = (sem s f' a \<and> sem s g' a)) \<and> l \<le> lev s r))"
        using lookup2_fact [OF ok inh' f'(3) g'(3), of op B] op ok by (cases sh) (simp_all add: gives_def op_is_def)
    qed (use saves_op(2) [OF op ok f'(1) g'(1)] cofs2_later [OF cofs ok fuel(2) f'(1,2) g'(1,2)] join in simp_all)
    then show ?thesis using rec sh fg unfolding comm by (simp add: and_body_def)
  qed
qed

lemma xor_step:
  assumes IH: "does A B N (\<noteq>) run n" and op: "op_is A B op (\<noteq>)" and cofs: "cofs2_ok A B N cofs"
    and join: "join = join_bdd (make_pushed mk) \<or> join = join_ldd (make_pushed mk)"
    and save: "save = (\<lambda>f g s. cuddCacheInsert2 s op f g) \<or> save = save_if_shared op"
  shows "does A B N (\<noteq>) (xor_body op cofs run join save) (Suc n)"
  unfolding does_def
proof (intro allI impI)
  fix s X f0 g0 l
  assume ok: "dd_ok A s X {}" and f0: "hp s X f0" and g0: "hp s X g0" and l0: "l \<le> lev s f0" "l \<le> lev s g0"
    and fuel: "dd_size s < Suc n + l" "dd_size s \<le> N"
  note n = dd_okD(1) [OF ok]
  note inh0 = hp_in_heap [OF ok f0] hp_in_heap [OF ok g0]
  let ?Q = "gives A s X (denotes B l (\<lambda>a. sem s f0 a \<noteq> sem s g0 a))"
  have l1: "l \<le> dd_size s" using l0(1) lev_le [OF ok f0] by simp
  obtain f g where fg: "(if g0 < f0 then (g0, f0) else (f0, g0)) = (f, g)" by fastforce
  have f: "hp s X f" "l \<le> lev s f" and g: "hp s X g" "l \<le> lev s g"
    and comm: "(sem s f0 a \<noteq> sem s g0 a) = (sem s f a \<noteq> sem s g a)" for a
    using fg f0 g0 l0 by (auto split: if_splits)
  note inh = hp_in_heap [OF ok f(1)] hp_in_heap [OF ok g(1)]
  obtain f' g' where fg': "(if Cudd_IsComplement f then (Cudd_Not f, Cudd_Not g) else (f, g)) = (f', g')" by fastforce
  have f': "hp s X f'" "l \<le> lev s f'" "\<not> Cudd_IsComplement f'" and g': "hp s X g'" "l \<le> lev s g'" "Cudd_Regular g' = Cudd_Regular g"
    and comm': "(sem s f a \<noteq> sem s g a) = (sem s f' a \<noteq> sem s g' a)" for a
    using fg' f g inh by (auto split: if_splits)
  note inh' = hp_in_heap [OF ok f'(1)] hp_in_heap [OF ok g'(1)]
  consider (same) "f0 = g0" | (opp) "f0 \<noteq> g0" "f0 = Cudd_Not g0" | (zero) "f0 \<noteq> g0" "f0 \<noteq> Cudd_Not g0" "g = DD_ZERO s"
    | (one) "f0 \<noteq> g0" "f0 \<noteq> Cudd_Not g0" "g \<noteq> DD_ZERO s" "g = dd_one s"
    | (one_f) "f0 \<noteq> g0" "f0 \<noteq> Cudd_Not g0" "g \<noteq> DD_ZERO s" "g \<noteq> dd_one s" "f' = dd_one s"
    | (rec) "f0 \<noteq> g0" "f0 \<noteq> Cudd_Not g0" "g \<noteq> DD_ZERO s" "g \<noteq> dd_one s" "f' \<noteq> dd_one s" by blast
  then show "yields (xor_body op cofs run join save s f0 g0) ?Q"
  proof cases
    case same
    then show ?thesis using gives_self [OF ok hp_zero [OF n]] l1 lev_one(2) [OF n] sem_one(2) [OF n] by (simp add: xor_body_def)
  next
    case opp
    then show ?thesis using gives_self [OF ok hp_one [OF n]] l1 lev_one(1) [OF n] sem_one(1) [OF n] inh0 by (simp add: xor_body_def)
  next
    case zero
    have "yields (Inr (f, s)) ?Q" unfolding comm by (rule gives_self [OF ok f]) (simp add: zero sem_one(2) [OF n])
    then show ?thesis using zero fg by (simp add: xor_body_def)
  next
    case one
    have "yields (Inr (Cudd_Not f, s)) ?Q" unfolding comm
      by (rule gives_self [OF ok]) (simp_all add: one f sem_one(1) [OF n] inh)
    then show ?thesis using one fg by (simp add: xor_body_def)
  next
    case one_f
    have "yields (Inr (Cudd_Not g', s)) ?Q" unfolding comm comm'
      by (rule gives_self [OF ok]) (simp_all add: one_f g' sem_one(1) [OF n] inh')
    then show ?thesis using one_f fg fg' by (simp add: xor_body_def)
  next
    case rec
    have nf: "Cudd_Regular f' \<noteq> dd_one s" using rec f'(3) by simp
    have ng: "Cudd_Regular g' \<noteq> dd_one s"
      using rec g'(3) regular_cases [OF _ one_in_heap(2) [OF n], of g] by (auto simp: DD_ZERO_def)
    have "yields (rbind (cuddCacheLookup2 s op f' g') (\<lambda>(r, s). if r \<noteq> 0 then Inr (r, s)
           else rbind (cofs s f' g') (\<lambda>(index, (fv, fnv), (gv, gnv)).
             run_branches (\<lambda>s. run s fv gv) (\<lambda>s. run s fnv gnv) (join index (save f' g')) s)))
        (gives A s X (denotes B l (\<lambda>a. sem s f' a \<noteq> sem s g' a)))"
    proof (rule cached_binary [OF ok f'(1,2) g'(1,2) fuel IH])
      show "yields (cuddCacheLookup2 s op f' g')
          (gives A s X (\<lambda>r s'. in_heap s r \<and> (\<forall>a \<in> B. sem s r a = (sem s f' a \<noteq> sem s g' a)) \<and> l \<le> lev s r))"
        by (rule lookup2_fact [OF ok inh' f'(2) g'(2)]) (use op in \<open>simp add: op_is_def\<close>)
      show "saves A B (min (lev s f') (lev s g')) (save f' g') s1 (\<lambda>a. sem s1 f' a \<noteq> sem s1 g' a)"
        if "grows s s1" "dd_ok A s1 X {}" for s1
        using saves_op [OF op ok f'(1) g'(1) that] save by auto
    qed (use cofs2_later [OF cofs ok fuel(2) f'(1) nf g'(1) ng] join in simp_all)
    then show ?thesis using rec fg fg' unfolding comm comm' by (simp add: xor_body_def)
  qed
qed

lemma ite_step:
  assumes conjr: "does A B N (\<and>) conjr (Suc n)" and xorr: "does A B N (\<noteq>) xorr (Suc n)" and IH: "does3 A B N run n"
    and cofs: "cofs3_ok A B N cofs" and B: "(\<lambda>_. True) \<in> B"
    and tag: "tag = DD_LDD_ITE_TAG \<and> B = A \<or> tag = DD_BDD_ITE_TAG \<and> B = UNIV"
    and join: "join = join_bdd (make_regular mk) \<or> join = join_ldd (make_asserted mk)"
  shows "does3 A B N (ite_body tag conjr xorr cofs run mk join) (Suc n)"
  unfolding does3_def ite_body_def
proof (intro allI impI, rule ite_terminal_spec [OF conjr xorr])
  fix s X f g h l
  assume ok: "dd_ok A s X {}" and f: "hp s X f" and g: "hp s X g" and h: "hp s X h"
    and l: "l \<le> lev s f" "l \<le> lev s g" "l \<le> lev s h" and fuel: "dd_size s < Suc n + l" "dd_size s \<le> N"
  assume nc: "Cudd_Regular f \<noteq> dd_one s" "Cudd_Regular g \<noteq> dd_one s" "Cudd_Regular h \<noteq> dd_one s" "g \<noteq> h"
  obtain c f' g' h' where can: "bddVarToCanonicalSimple s f g h = Inr (c, (f', g', h'), (lev s f', lev s g', lev s h'))"
    and f': "hp s X f'" "Cudd_Regular f' \<noteq> dd_one s" "\<not> Cudd_IsComplement f'"
    and g': "hp s X g'" "Cudd_Regular g' \<noteq> dd_one s" "\<not> Cudd_IsComplement g'"
    and h': "hp s X h'" "Cudd_Regular h' \<noteq> dd_one s" and ne: "g = h \<longleftrightarrow> g' = h'"
    and lev: "\<And>l. l \<le> lev s f \<Longrightarrow> l \<le> lev s g \<Longrightarrow> l \<le> lev s h \<Longrightarrow> l \<le> lev s f' \<and> l \<le> lev s g' \<and> l \<le> lev s h'"
    and sem: "\<And>a. ite (sem s f a) (sem s g a) (sem s h a) \<longleftrightarrow> ite (sem s f' a) (sem s g' a) (sem s h' a) \<noteq> c"
    by (rule canonical_simple_spec [OF ok f nc(1) g nc(2) h nc(3)]) blast
  have l': "l \<le> lev s f'" "l \<le> lev s g'" "l \<le> lev s h'" using lev [OF l] by simp_all
  obtain F where F: "node s f' = Inr F" using hp_node [OF ok f'(1,2)] f'(3) by auto
  let ?Q = "gives A s X (denotes B l (\<lambda>a. ite (sem s f' a) (sem s g' a) (sem s h' a)))"
  let ?var = "lev s f' < ddMin (lev s g') (lev s h') \<and> n_T F = dd_one s \<and> n_E F = Cudd_Not (dd_one s)"
  have var: "yields (mk s (n_index F) g' h') ?Q" if ?var
    using that by (intro variable_ite [OF ok fuel(2) f'(1-3) l'(1) g'(1,3) h'(1) _ _ _ F]) (use ne nc(4) in \<open>auto simp: ddMin_def split: if_splits\<close>)
  have rest: "yields (rbind (cuddCacheLookup s tag f' g' h') (\<lambda>(r, s1).
               if r \<noteq> 0 then Inr (r, s1)
               else
                 rbind (cofs s1 f' g' h' (lev s f') (lev s g') (lev s h')) (\<lambda>(index, (Fv, Fnv), (Gv, Gnv), (Hv, Hnv)).
                   run_branches (\<lambda>s. run s Fv Gv Hv) (\<lambda>s. run s Fnv Gnv Hnv)
                     (join index (\<lambda>s. cuddCacheInsert s tag f' g' h')) s1))) ?Q"
  proof (rule cached_ternary [where cofs = "\<lambda>s1. cofs s1 f' g' h' (lev s f') (lev s g') (lev s h')" and join = join and run = run,
          OF ok f'(1) l'(1) f'(3) g'(1) l'(2) g'(3) h'(1) l'(3) fuel IH B])
    note inh = hp_in_heap [OF ok f'(1)] hp_in_heap [OF ok g'(1)] hp_in_heap [OF ok h'(1)]
    show "yields (cuddCacheLookup s tag f' g' h')
        (gives A s X (\<lambda>r s'. in_heap s r \<and> (\<forall>a \<in> B. sem s r a = ite (sem s f' a) (sem s g' a) (sem s h' a)) \<and> l \<le> lev s r))"
      by (rule lookup3_fact [OF ok inh(1,2) l' tag])
    show "saves A B (min (lev s f') (min (lev s g') (lev s h'))) (\<lambda>s. cuddCacheInsert s tag f' g' h') s1
        (\<lambda>a. ite (sem s1 f' a) (sem s1 g' a) (sem s1 h' a))" if "grows s s1" "dd_ok A s1 X {}" for s1
      by (rule saves_insert3 [OF that(2) _ _ _ _ tag]) (simp_all add: grows_in_heap [OF that(1)] grows_lev [OF that(1)] inh)
  qed (use cofs3_later [OF cofs ok fuel(2) f' g' h'] join in simp_all)
  show "yields (rbind (bddVarToCanonicalSimple s f g h) (\<lambda>(comple, (f, g, h), (topf, topg, toph)).
      complemented comple
        (rbind (node s f) (\<lambda>F.
           if topf < ddMin topg toph \<and> n_T F = dd_one s \<and> n_E F = Cudd_Not (dd_one s)
           then mk s (n_index F) g h
           else
             rbind (cuddCacheLookup s tag f g h) (\<lambda>(r, s).
               if r \<noteq> 0 then Inr (r, s)
               else
                 rbind (cofs s f g h topf topg toph) (\<lambda>(index, (Fv, Fnv), (Gv, Gnv), (Hv, Hnv)).
                   run_branches (\<lambda>s. run s Fv Gv Hv) (\<lambda>s. run s Fnv Gnv Hnv)
                     (join index (\<lambda>s. cuddCacheInsert s tag f g h)) s))))))
    (gives A s X (denotes B l (\<lambda>a. ite (sem s f a) (sem s g a) (sem s h a))))"
    unfolding can sem rbind_Inr prod.case
    by (rule complemented_spec) (use var rest F in simp)
qed

end

lemma does_0: "does A B N P (\<lambda>s f g. Inl Out_Of_Fuel) 0" "does3 A B N (\<lambda>s f g h. Inl Out_Of_Fuel) 0"
  unfolding does_def does3_def using lev_le by fastforce+

section \<open>Calls from outside\<close>

text \<open>
  An exported operation clears the flag that reports reordering and repeats the recursive step while
  it is set; a step that set it has gone through variable reordering, which is not modelled.
\<close>

definition unless_reordered :: "DdManager \<Rightarrow> (DdManager \<Rightarrow> (ptr \<times> DdManager) res) \<Rightarrow> (ptr \<times> DdManager) res" where
  "unless_reordered s step =
     rbind (step (s\<lparr>reordered := 0\<rparr>)) (\<lambda>(r, s). if reordered s = 1 then Inl Not_Modelled else Inr (r, s))"

lemma clear_reordered:
  shows "dd_ok A s X {} \<Longrightarrow> dd_ok A (s\<lparr>reordered := 0\<rparr>) X {}" "same_nodes s (s\<lparr>reordered := v\<rparr>)"
    "same_nodes (s\<lparr>reordered := v\<rparr>) s"
proof -
  show n: "same_nodes s (s\<lparr>reordered := v\<rparr>)" "same_nodes (s\<lparr>reordered := v\<rparr>) s" for v by (rule same_nodesI; simp)+
  assume ok: "dd_ok A s X {}"
  have "cache_ok A (s\<lparr>reordered := 0\<rparr>)"
    using dd_okD(5) [OF ok] same_cache_cache_ok [OF n(1) [of 0]] by (simp add: same_cache_def)
  then show "dd_ok A (s\<lparr>reordered := 0\<rparr>) X {}"
    using n by (intro dd_ok_heap_eq [OF ok]) (simp_all add: same_table_def same_free_def)
qed

text \<open>What a client gets: a pointer to the diagram of a function, valid in the new manager.\<close>

definition gets :: "(nat \<Rightarrow> bool) set \<Rightarrow> (nat \<Rightarrow> bool) set \<Rightarrow> DdManager \<Rightarrow> (ptr \<Rightarrow> nat) \<Rightarrow> bfun \<Rightarrow> ptr \<Rightarrow> DdManager \<Rightarrow> bool" where
  "gets A B s X h = gives A s X (\<lambda>r s'. in_heap s' r \<and> (\<forall>a \<in> B. sem s' r a = h a))"

lemma gets_run:
  assumes ok: "dd_ok A s X {}"
    and run: "dd_ok A (s\<lparr>reordered := 0\<rparr>) X {} \<Longrightarrow> yields (step (s\<lparr>reordered := 0\<rparr>)) (gives A (s\<lparr>reordered := 0\<rparr>) X (denotes B l h))"
  shows "yields (unless_reordered s step) (gets A B s X h)"
  unfolding unless_reordered_def
proof (rule yields_bind [OF run [OF clear_reordered(1) [OF ok]]], clarify)
  fix r s1 assume g: "gives A (s\<lparr>reordered := 0\<rparr>) X (denotes B l h) r s1"
  have "gives A s X (denotes B l h) r s1" by (rule gives_after [OF same_nodes_grows [OF clear_reordered(2)] g])
  then have "gets A B s X h r s1" unfolding gets_def by (rule gives_weaken) (simp add: denotes_def)
  then show "yields (if reordered s1 = 1 then Inl Not_Modelled else Inr (r, s1)) (gets A B s X h)" by simp
qed

lemma gets_negated: "yields m (gets A B s X h) \<Longrightarrow> yields (negated m) (gets A B s X (\<lambda>a. \<not> h a))"
proof -
  assume "yields m (gets A B s X h)"
  then have "yields m (gives A s X (denotes B 0 h))"
    unfolding gets_def by (rule yields_weaken) (erule gives_weaken, simp add: denotes_def)
  then have "yields (negated m) (gives A s X (denotes B 0 (\<lambda>a. \<not> h a)))" by (rule negated_spec)
  then show ?thesis unfolding gets_def by (rule yields_weaken) (erule gives_weaken, simp add: denotes_def)
qed

lemma hp_clear: "hp s X f \<Longrightarrow> hp (s\<lparr>reordered := 0\<rparr>) X f" "sem (s\<lparr>reordered := 0\<rparr>) f = sem s f"
  using hp_mono [OF _ same_nodes_grows [OF clear_reordered(2)] order_refl] same_nodes_sem [OF clear_reordered(2)] by simp_all

lemma gets_does:
  assumes does: "does A B N P run (Suc (dd_size s))" and sz: "dd_size s \<le> N" and ok: "dd_ok A s X {}" and f: "hp s X f" and g: "hp s X g"
    and h: "\<And>a. a \<in> B \<Longrightarrow> h a = P (sem s f a) (sem s g a)"
  shows "yields (unless_reordered s (\<lambda>s. run s f g)) (gets A B s X h)"
proof (rule gets_run [OF ok])
  assume "dd_ok A (s\<lparr>reordered := 0\<rparr>) X {}"
  then show "yields (run (s\<lparr>reordered := 0\<rparr>) f g) (gives A (s\<lparr>reordered := 0\<rparr>) X (denotes B 0 h))"
    by (rule does_run [OF does]) (simp_all add: hp_clear f g h sz hp_in_heap [OF ok])
qed

lemma unless_reordered_cong: "(step (s\<lparr>reordered := 0\<rparr>) = step' (s\<lparr>reordered := 0\<rparr>)) \<Longrightarrow> unless_reordered s step = unless_reordered s step'"
  by (simp add: unless_reordered_def)

lemma gets_does3:
  assumes does: "does3 A B N run (Suc (dd_size s))" and sz: "dd_size s \<le> N" and ok: "dd_ok A s X {}"
    and f: "hp s X f" and g: "hp s X g" and h: "hp s X h"
  shows "yields (unless_reordered s (\<lambda>s. run s f g h)) (gets A B s X (\<lambda>a. if sem s f a then sem s g a else sem s h a))"
proof (rule gets_run [OF ok])
  assume "dd_ok A (s\<lparr>reordered := 0\<rparr>) X {}"
  from does [unfolded does3_def, rule_format, OF this hp_clear(1) [OF f] hp_clear(1) [OF g] hp_clear(1) [OF h] le0 le0 le0]
  show "yields (run (s\<lparr>reordered := 0\<rparr>) f g h)
      (gives A (s\<lparr>reordered := 0\<rparr>) X (denotes B 0 (\<lambda>a. if sem s f a then sem s g a else sem s h a)))"
    using sz by (simp add: hp_clear ite_def)
qed

end
