(* ===== verification/Cudd_BddIte.thy ===== *)
theory Cudd_BddIte
  imports Cudd_Steps
begin

text \<open>
  The operations on Boolean diagrams (\<^verbatim>\<open>cuddBddIte.c\<close>): conjunction, exclusive or, if-then-else, the
  inclusion test and the operations derived from them, each proved to return the canonical diagram of
  the function it names.
\<close>

section \<open>Conjunction and exclusive or\<close>

fun cuddBddAndRecur :: "nat \<Rightarrow> DdManager \<Rightarrow> ptr \<Rightarrow> ptr \<Rightarrow> (ptr \<times> DdManager) res" where
  "cuddBddAndRecur 0 s f g = Inl Out_Of_Fuel"
| "cuddBddAndRecur (Suc n) s f g =
     (if Cudd_Regular f = Cudd_Regular g then Inr (if f = g then f else DD_ZERO s, s)
      else if Cudd_Regular f = dd_one s then Inr (if f = dd_one s then g else f, s)
      else if Cudd_Regular g = dd_one s then Inr (if g = dd_one s then f else g, s)
      else
        (let (f, g) = (if g < f then (g, f) else (f, g)) in
         rbind (shared s f g) (\<lambda>sh.
         rbind (if sh then cuddCacheLookup2 s Op_bddAnd f g else Inr (0, s)) (\<lambda>(r, s).
           if r \<noteq> 0 then Inr (r, s)
           else
             rbind (cofactors2 s f g) (\<lambda>(index, (fv, fnv), (gv, gnv)).
               run_branches (\<lambda>s. cuddBddAndRecur n s fv gv) (\<lambda>s. cuddBddAndRecur n s fnv gnv)
                 (join_bdd (make_pushed cuddUniqueInter) index (save_if_shared Op_bddAnd f g)) s)))))"

fun cuddBddXorRecur :: "nat \<Rightarrow> DdManager \<Rightarrow> ptr \<Rightarrow> ptr \<Rightarrow> (ptr \<times> DdManager) res" where
  "cuddBddXorRecur 0 s f g = Inl Out_Of_Fuel"
| "cuddBddXorRecur (Suc n) s f g =
     (if f = g then Inr (DD_ZERO s, s)
      else if f = Cudd_Not g then Inr (dd_one s, s)
      else
        (let (f, g) = (if g < f then (g, f) else (f, g)) in
         if g = DD_ZERO s then Inr (f, s)
         else if g = dd_one s then Inr (Cudd_Not f, s)
         else
           (let (f, g) = (if Cudd_IsComplement f then (Cudd_Not f, Cudd_Not g) else (f, g)) in
            if f = dd_one s then Inr (Cudd_Not g, s)
            else
              rbind (cuddCacheLookup2 s Op_bddXor f g) (\<lambda>(r, s).
                if r \<noteq> 0 then Inr (r, s)
                else
                  rbind (cofactors2 s f g) (\<lambda>(index, (fv, fnv), (gv, gnv)).
                    run_branches (\<lambda>s. cuddBddXorRecur n s fv gv) (\<lambda>s. cuddBddXorRecur n s fnv gnv)
                      (join_bdd (make_pushed cuddUniqueInter) index (\<lambda>s. cuddCacheInsert2 s Op_bddXor f g)) s)))))"

lemma bdd_cofs: "cofs2_ok A UNIV N cofactors2" "cofs3_ok A UNIV N cofactors3"
  unfolding cofs2_ok_def cofs3_ok_def by (intro allI impI; rule cofactors2_spec cofactors3_spec; assumption)+

lemma bdd_ops: "op_is A UNIV Op_bddAnd (\<and>)" "op_is A UNIV Op_bddXor (\<noteq>)"
  by (simp_all add: op_is_def)

lemma does_and: "does A UNIV N (\<and>) (cuddBddAndRecur n) n"
proof (induction n)
  case (Suc n)
  have "cuddBddAndRecur (Suc n) = and_body Op_bddAnd cofactors2 (cuddBddAndRecur n) (join_bdd (make_pushed cuddUniqueInter))"
    by (intro ext) (simp only: cuddBddAndRecur.simps and_body_def)
  then show ?case using bdd.and_step [OF Suc bdd_ops(1) bdd_cofs(1)] by simp
qed (use does_0(1) in simp)

lemma does_xor: "does A UNIV N (\<noteq>) (cuddBddXorRecur n) n"
proof (induction n)
  case (Suc n)
  have "cuddBddXorRecur (Suc n) = xor_body Op_bddXor cofactors2 (cuddBddXorRecur n) (join_bdd (make_pushed cuddUniqueInter))
      (\<lambda>f g s. cuddCacheInsert2 s Op_bddXor f g)"
    by (intro ext) (simp only: cuddBddXorRecur.simps xor_body_def)
  then show ?case using bdd.xor_step [OF Suc bdd_ops(2) bdd_cofs(1)] by simp
qed (use does_0(1) in simp)

section \<open>If-then-else\<close>

text \<open>
  After the terminal cases the operands are made regular; a variable as first operand above the
  others is a node of the unique table at once.  (The two results are released in the other order
  than in \<^verbatim>\<open>cuddBddAndRecur\<close>; the decrements commute.)
\<close>

fun cuddBddIteRecur :: "nat \<Rightarrow> DdManager \<Rightarrow> ptr \<Rightarrow> ptr \<Rightarrow> ptr \<Rightarrow> (ptr \<times> DdManager) res" where
  "cuddBddIteRecur 0 s f g h = Inl Out_Of_Fuel"
| "cuddBddIteRecur (Suc n) s f g h =
     ite_terminal (cuddBddAndRecur (Suc n)) (cuddBddXorRecur (Suc n)) s f g h
       (rbind (bddVarToCanonicalSimple s f g h) (\<lambda>(comple, (f, g, h), (topf, topg, toph)).
          complemented comple
            (rbind (node s f) (\<lambda>F.
               if topf < ddMin topg toph \<and> n_T F = dd_one s \<and> n_E F = Cudd_Not (dd_one s)
               then cuddUniqueInter s (n_index F) g h
               else
                 rbind (cuddCacheLookup s DD_BDD_ITE_TAG f g h) (\<lambda>(r, s).
                   if r \<noteq> 0 then Inr (r, s)
                   else
                     rbind (cofactors3 s f g h topf topg toph) (\<lambda>(index, (Fv, Fnv), (Gv, Gnv), (Hv, Hnv)).
                       run_branches (\<lambda>s. cuddBddIteRecur n s Fv Gv Hv) (\<lambda>s. cuddBddIteRecur n s Fnv Gnv Hnv)
                         (join_bdd (make_regular cuddUniqueInter) index (\<lambda>s. cuddCacheInsert s DD_BDD_ITE_TAG f g h)) s))))))"

lemma does_ite: "does3 A UNIV N (cuddBddIteRecur n) n"
proof (induction n)
  case (Suc n)
  have "cuddBddIteRecur (Suc n) = ite_body DD_BDD_ITE_TAG (cuddBddAndRecur (Suc n)) (cuddBddXorRecur (Suc n)) cofactors3
      (cuddBddIteRecur n) cuddUniqueInter (join_bdd (make_regular cuddUniqueInter))"
    by (intro ext) (simp only: cuddBddIteRecur.simps ite_body_def)
  then show ?case using bdd.ite_step [OF does_and does_xor Suc bdd_cofs(2)] by simp
qed (use does_0(2) in simp)

section \<open>The inclusion test\<close>

text \<open>
  The operands are exchanged so that the second is regular.  The negative cofactors are tested
  first; the second test is made only when the first succeeds.
\<close>

fun Cudd_bddLeq :: "nat \<Rightarrow> DdManager \<Rightarrow> ptr \<Rightarrow> ptr \<Rightarrow> (bool \<times> DdManager) res" where
  "Cudd_bddLeq 0 s f g = Inl Out_Of_Fuel"
| "Cudd_bddLeq (Suc n) s f g =
     (let one = dd_one s; zero = Cudd_Not one
      in if f = g then Inr (True, s)
         else if Cudd_IsComplement g \<and> \<not> Cudd_IsComplement f then Inr (False, s)
         else
           (let (f, g) = (if Cudd_IsComplement g \<or> Cudd_IsComplement f \<and> g < f then (Cudd_Not g, Cudd_Not f) else (f, g))
            in if g = one then Inr (True, s)
               else if f = one then Inr (False, s)
               else if Cudd_Not f = g then Inr (False, s)
               else if f = zero then Inr (True, s)
               else
                 rbind (cuddCacheLookup2 s Op_bddLeq f g) (\<lambda>(r, s).
                   if r \<noteq> 0 then Inr (r = one, s)
                   else
                     rbind (cofactors2 s f g) (\<lambda>(_, (fv, fvn), (gv, gvn)).
                       rbind (Cudd_bddLeq n s fvn gvn) (\<lambda>(b, s).
                       rbind (if b then Cudd_bddLeq n s fv gv else Inr (False, s)) (\<lambda>(b, s).
                       rbind (cuddCacheInsert2 s Op_bddLeq f g (if b then one else zero)) (\<lambda>s. Inr (b, s))))))))"

definition decides :: "(nat \<Rightarrow> bool) set \<Rightarrow> DdManager \<Rightarrow> (ptr \<Rightarrow> nat) \<Rightarrow> bool \<Rightarrow> bool \<Rightarrow> DdManager \<Rightarrow> bool" where
  "decides A s X c b s' \<longleftrightarrow> grows s s' \<and> dd_ok A s' X {} \<and> b = c"

text \<open>
  A function below another on both cofactors is below it.
\<close>

lemma cofactors_leq:
  assumes n: "nodes_ok s" "vars_ok s" and i: "index < dd_size s" and f: "cof UNIV s X index f fv fvn" and g: "cof UNIV s X index g gv gvn"
    and h: "in_heap s fv" "in_heap s fvn" "in_heap s gv" "in_heap s gvn"
  shows "(\<forall>a. sem s f a \<longrightarrow> sem s g a) \<longleftrightarrow> (\<forall>a. sem s fvn a \<longrightarrow> sem s gvn a) \<and> (\<forall>a. sem s fv a \<longrightarrow> sem s gv a)"
proof -
  have ind: "sem s p (a(index := b)) = sem s p a" if "in_heap s p" "dd_perm s ! index < lev s p" for p a b
    using sem_indep [OF n that(1) i] that(2) by (simp add: lev_def)
  have c: "sem s f a = (if a index then sem s fv a else sem s fvn a)" "sem s g a = (if a index then sem s gv a else sem s gvn a)" for a
    using f g by (simp_all add: cof_def)
  have l: "dd_perm s ! index < lev s fv" "dd_perm s ! index < lev s fvn" "dd_perm s ! index < lev s gv" "dd_perm s ! index < lev s gvn"
    using f g by (simp_all add: cof_def)
  show ?thesis
  proof
    assume leq: "\<forall>a. sem s f a \<longrightarrow> sem s g a"
    have "sem s fvn a \<longrightarrow> sem s gvn a" "sem s fv a \<longrightarrow> sem s gv a" for a
      using leq [rule_format, of "a(index := False)"] leq [rule_format, of "a(index := True)"] ind [OF h(1) l(1), of a True]
        ind [OF h(2) l(2), of a False] ind [OF h(3) l(3), of a True] ind [OF h(4) l(4), of a False]
      unfolding c by simp_all
    then show "(\<forall>a. sem s fvn a \<longrightarrow> sem s gvn a) \<and> (\<forall>a. sem s fv a \<longrightarrow> sem s gv a)" by blast
  qed (simp add: c)
qed

lemma is_one_iff: "nodes_ok s \<Longrightarrow> vars_ok s \<Longrightarrow> table_ok s \<Longrightarrow> in_heap s r \<Longrightarrow> r = dd_one s \<longleftrightarrow> (\<forall>a. sem s r a)"
  using sem_one(1) [of s] canonical [of s r "dd_one s"] one_in_heap [of s] by (auto simp: in_heap_def fun_eq_iff)

lemma leq_insert:
  assumes ok: "dd_ok A s X {}" and f: "in_heap s f" and g: "in_heap s g" and b: "b = (\<forall>a. sem s f a \<longrightarrow> sem s g a)"
  shows "yields (rbind (cuddCacheInsert2 s Op_bddLeq f g (if b then dd_one s else Cudd_Not (dd_one s))) (\<lambda>s. Inr (b, s)))
     (decides A s X (\<forall>a. sem s f a \<longrightarrow> sem s g a))"
proof -
  note n = dd_okD(1,2) [OF ok]
  let ?r = "if b then dd_one s else Cudd_Not (dd_one s)"
  have r: "in_heap s ?r" "lev s ?r = dd_size s" "(\<forall>a. sem s ?r a) = b"
    using one_in_heap [OF n(1)] lev_one [OF n(1)] sem_one [OF n(1)] by (auto simp: in_heap_def DD_ZERO_def)
  have "fact2 A Op_bddLeq s f g ?r"
    using r b level_of_le(1) [OF n, of "Cudd_Regular f"] f by (auto simp: fact2_def lev_def in_heap_def)
  then obtain s' where "cuddCacheInsert2 s Op_bddLeq f g ?r = Inr s'" "same_nodes s s'" "dd_ok A s' X {}"
    using cuddCacheInsert2_spec [OF ok f g r(1)] by blast
  then show ?thesis using b by (simp add: decides_def same_nodes_grows)
qed

lemma leq_step:
  assumes ok: "dd_ok A s X {}" and f: "hp s X f" "Cudd_Regular f \<noteq> dd_one s" and g: "hp s X g" "Cudd_Regular g \<noteq> dd_one s"
    and IH: "\<And>s1 f' g'. grows s s1 \<Longrightarrow> dd_ok A s1 X {} \<Longrightarrow> hp s1 X f' \<Longrightarrow> hp s1 X g' \<Longrightarrow> min (lev s f) (lev s g) < lev s1 f' \<Longrightarrow>
        min (lev s f) (lev s g) < lev s1 g' \<Longrightarrow> yields (run s1 f' g') (decides A s1 X (\<forall>a. sem s1 f' a \<longrightarrow> sem s1 g' a))"
  shows "yields (rbind (cofactors2 s f g) (\<lambda>(_, (fv, fvn), (gv, gvn)).
                   rbind (run s fvn gvn) (\<lambda>(b, s1).
                   rbind (if b then run s1 fv gv else Inr (False, s1)) (\<lambda>(b, s2).
                   rbind (cuddCacheInsert2 s2 Op_bddLeq f g (if b then dd_one s else Cudd_Not (dd_one s))) (\<lambda>s3. Inr (b, s3))))))
     (decides A s X (\<forall>a. sem s f a \<longrightarrow> sem s g a))"
proof -
  note n = dd_okD(1,2) [OF ok]
  obtain index fv fvn gv gvn where c: "cofactors2 s f g = Inr (index, (fv, fvn), (gv, gvn))" "index < dd_size s"
      "dd_perm s ! index = min (lev s f) (lev s g)" "cof UNIV s X index f fv fvn" "cof UNIV s X index g gv gvn"
    using miss_cofactors [OF ok f g grows_refl ok] by blast
  have h: "hp s X fv" "hp s X fvn" "hp s X gv" "hp s X gvn" using c(4,5) by (simp_all add: cof_def)
  note inh = h [THEN hp_in_heap [OF ok]]
  have l: "min (lev s f) (lev s g) < lev s p" if "p = fv \<or> p = fvn \<or> p = gv \<or> p = gvn" for p
    using c(3-5) that by (auto simp: cof_def)
  have ffin: "in_heap s f" "in_heap s g" using hp_in_heap [OF ok f(1)] hp_in_heap [OF ok g(1)] by simp_all
  have all: "(\<forall>a. sem s f a \<longrightarrow> sem s g a) \<longleftrightarrow> (\<forall>a. sem s fvn a \<longrightarrow> sem s gvn a) \<and> (\<forall>a. sem s fv a \<longrightarrow> sem s gv a)"
    by (rule cofactors_leq [OF n c(2,4,5) inh])
  have one: "dd_one s' = dd_one s" if "grows s s'" for s' using that by (simp add: grows_def)
  have fin: "yields (rbind (cuddCacheInsert2 s2 Op_bddLeq f g (if b then dd_one s else Cudd_Not (dd_one s))) (\<lambda>s3. Inr (b, s3)))
      (decides A s X (\<forall>a. sem s f a \<longrightarrow> sem s g a))" if g2: "grows s s2" and ok2: "dd_ok A s2 X {}" and b: "b = (\<forall>a. sem s f a \<longrightarrow> sem s g a)" for b s2
  proof -
    note e = grows_sem [OF g2 n(1)]
    have b2: "b = (\<forall>a. sem s2 f a \<longrightarrow> sem s2 g a)" using b e ffin by simp
    have "yields (rbind (cuddCacheInsert2 s2 Op_bddLeq f g (if b then dd_one s2 else Cudd_Not (dd_one s2))) (\<lambda>s3. Inr (b, s3)))
        (decides A s2 X (\<forall>a. sem s2 f a \<longrightarrow> sem s2 g a))"
      by (rule leq_insert [OF ok2 grows_in_heap [OF g2 ffin(1)] grows_in_heap [OF g2 ffin(2)] b2])
    then show ?thesis unfolding one [OF g2] e [OF ffin(1)] e [OF ffin(2)]
      by (rule yields_weaken) (use grows_trans [OF g2] in \<open>auto simp: decides_def\<close>)
  qed
  have "yields (rbind (run s fvn gvn) (\<lambda>(b, s1).
                   rbind (if b then run s1 fv gv else Inr (False, s1)) (\<lambda>(b, s2).
                   rbind (cuddCacheInsert2 s2 Op_bddLeq f g (if b then dd_one s else Cudd_Not (dd_one s))) (\<lambda>s3. Inr (b, s3)))))
     (decides A s X (\<forall>a. sem s f a \<longrightarrow> sem s g a))"
  proof (rule yields_bind [OF IH [OF grows_refl ok h(2,4)]], use l in simp, use l in simp, clarify)
    fix b1 s1 assume "decides A s X (\<forall>a. sem s fvn a \<longrightarrow> sem s gvn a) b1 s1"
    then have 1: "grows s s1" "dd_ok A s1 X {}" "b1 = (\<forall>a. sem s fvn a \<longrightarrow> sem s gvn a)" by (simp_all add: decides_def)
    show "yields (rbind (if b1 then run s1 fv gv else Inr (False, s1)) (\<lambda>(b, s2).
                   rbind (cuddCacheInsert2 s2 Op_bddLeq f g (if b then dd_one s else Cudd_Not (dd_one s))) (\<lambda>s3. Inr (b, s3))))
       (decides A s X (\<forall>a. sem s f a \<longrightarrow> sem s g a))"
    proof (cases b1)
      case False
      then have "False = (\<forall>a. sem s f a \<longrightarrow> sem s g a)" using all 1(3) by simp
      from fin [OF 1(1,2) this] show ?thesis using False by simp
    next
      case True
      have h1: "hp s1 X fv" "hp s1 X gv" using hp_mono [OF h(1) 1(1) order_refl] hp_mono [OF h(3) 1(1) order_refl] by simp_all
      have l1: "min (lev s f) (lev s g) < lev s1 fv" "min (lev s f) (lev s g) < lev s1 gv"
        using l grows_lev [OF 1(1)] inh by simp_all
      have "yields (rbind (run s1 fv gv) (\<lambda>(b, s2).
                   rbind (cuddCacheInsert2 s2 Op_bddLeq f g (if b then dd_one s else Cudd_Not (dd_one s))) (\<lambda>s3. Inr (b, s3))))
          (decides A s X (\<forall>a. sem s f a \<longrightarrow> sem s g a))"
      proof (rule yields_bind [OF IH [OF 1(1,2) h1 l1]], clarify)
        fix b2 s2 assume "decides A s1 X (\<forall>a. sem s1 fv a \<longrightarrow> sem s1 gv a) b2 s2"
        then have 2: "grows s1 s2" "dd_ok A s2 X {}" "b2 = (\<forall>a. sem s1 fv a \<longrightarrow> sem s1 gv a)" by (simp_all add: decides_def)
        have "b2 = (\<forall>a. sem s f a \<longrightarrow> sem s g a)"
          using all 1(3) True unfolding 2(3) grows_sem [OF 1(1) n(1) inh(1)] grows_sem [OF 1(1) n(1) inh(3)] by blast
        from fin [OF grows_trans [OF 1(1) 2(1)] 2(2) this]
        show "yields (rbind (cuddCacheInsert2 s2 Op_bddLeq f g (if b2 then dd_one s else Cudd_Not (dd_one s))) (\<lambda>s3. Inr (b2, s3)))
            (decides A s X (\<forall>a. sem s f a \<longrightarrow> sem s g a))" .
      qed
      then show ?thesis using True by simp
    qed
  qed
  then show ?thesis unfolding c(1) by simp
qed

lemma leq_lookup:
  assumes ok: "dd_ok A s X {}" and f: "hp s X f" and g: "hp s X g"
    and miss: "\<And>s1. grows s s1 \<Longrightarrow> dd_ok A s1 X {} \<Longrightarrow> yields (k s1) (decides A s X (\<forall>a. sem s f a \<longrightarrow> sem s g a))"
  shows "yields (rbind (cuddCacheLookup2 s Op_bddLeq f g) (\<lambda>(r, s1). if r \<noteq> 0 then Inr (r = dd_one s, s1) else k s1))
     (decides A s X (\<forall>a. sem s f a \<longrightarrow> sem s g a))"
proof (rule yields_bind [OF cuddCacheLookup2_spec [OF ok hp_in_heap [OF ok f] hp_in_heap [OF ok g]]], clarify)
  fix r s1 assume r: "gives A s X (\<lambda>r s'. in_heap s r \<and> fact2 A Op_bddLeq s f g r) r s1"
  then have 1: "grows s s1" "dd_ok A s1 X {}" using gives_dd_ok [OF r] by (simp_all add: gives_def)
  show "yields (if r \<noteq> 0 then Inr (r = dd_one s, s1) else k s1) (decides A s X (\<forall>a. sem s f a \<longrightarrow> sem s g a))"
  proof (cases "r = 0")
    case True
    then show ?thesis using miss [OF 1] by simp
  next
    case False
    then have "in_heap s r" "(\<forall>a. sem s r a) = (\<forall>a. sem s f a \<longrightarrow> sem s g a)" using r by (simp_all add: gives_def fact2_def)
    then have "(r = dd_one s) = (\<forall>a. sem s f a \<longrightarrow> sem s g a)" using is_one_iff [OF dd_okD(1,2,3) [OF ok]] by blast
    then show ?thesis using False 1 by (simp add: decides_def)
  qed
qed

lemma does_leq:
  "dd_ok A s X {} \<Longrightarrow> hp s X f \<Longrightarrow> hp s X g \<Longrightarrow> l \<le> lev s f \<Longrightarrow> l \<le> lev s g \<Longrightarrow> dd_size s < n + l \<Longrightarrow>
     yields (Cudd_bddLeq n s f g) (decides A s X (\<forall>a. sem s f a \<longrightarrow> sem s g a))"
proof (induction n arbitrary: s f g l)
  case 0
  then show ?case using lev_le [OF 0(1,2)] by simp
next
  case (Suc n)
  note ok = Suc.prems(1)
  note n = dd_okD(1,2,3) [OF ok]
  note inh = hp_in_heap [OF ok Suc.prems(2)] hp_in_heap [OF ok Suc.prems(3)]
  let ?Q = "decides A s X (\<forall>a. sem s f a \<longrightarrow> sem s g a)"
  have now: "yields (Inr (b, s)) ?Q" if "b = (\<forall>a. sem s f a \<longrightarrow> sem s g a)" for b
    using ok that by (simp add: decides_def)
  obtain f' g' where fg: "(if Cudd_IsComplement g \<or> Cudd_IsComplement f \<and> g < f then (Cudd_Not g, Cudd_Not f) else (f, g)) = (f', g')" by fastforce
  consider (same) "f = g" | (top) "f \<noteq> g" "Cudd_IsComplement g \<and> \<not> Cudd_IsComplement f"
    | (more) "f \<noteq> g" "\<not> (Cudd_IsComplement g \<and> \<not> Cudd_IsComplement f)" by blast
  then show ?case
  proof cases
    case same
    then show ?thesis using now by simp
  next
    case top
    then have "\<not> (\<forall>a. sem s f a \<longrightarrow> sem s g a)"
      using all_true [OF n(1,2) inh(1)] all_true [OF n(1,2) inh(2)] by blast
    then show ?thesis using top now [of False] by simp
  next
    case more
    have f': "hp s X f'" "l \<le> lev s f'" "in_heap s f'" and g': "hp s X g'" "l \<le> lev s g'" "in_heap s g'" "\<not> Cudd_IsComplement g'"
      and eq: "f' \<noteq> g'" and leq: "(\<forall>a. sem s f a \<longrightarrow> sem s g a) = (\<forall>a. sem s f' a \<longrightarrow> sem s g' a)"
      using fg more Suc.prems inh by (auto split: if_splits)
    let ?k = "\<lambda>s1. rbind (cofactors2 s1 f' g') (\<lambda>(_, (fv, fvn), (gv, gvn)).
                   rbind (Cudd_bddLeq n s1 fvn gvn) (\<lambda>(b, s1).
                   rbind (if b then Cudd_bddLeq n s1 fv gv else Inr (False, s1)) (\<lambda>(b, s2).
                   rbind (cuddCacheInsert2 s2 Op_bddLeq f' g' (if b then dd_one s else Cudd_Not (dd_one s))) (\<lambda>s3. Inr (b, s3)))))"
    have run: "Cudd_bddLeq (Suc n) s f g =
       (if g' = dd_one s then Inr (True, s) else if f' = dd_one s then Inr (False, s) else if Cudd_Not f' = g' then Inr (False, s)
        else if f' = Cudd_Not (dd_one s) then Inr (True, s)
        else rbind (cuddCacheLookup2 s Op_bddLeq f' g') (\<lambda>(r, s1). if r \<noteq> 0 then Inr (r = dd_one s, s1) else ?k s1))"
      unfolding Cudd_bddLeq.simps Let_def if_not_P [OF more(1)] if_not_P [OF more(2)] fg prod.case by (rule refl)
    have one: "sem s (dd_one s) a" "\<not> sem s (Cudd_Not (dd_one s)) a" for a using sem_one [OF n(1)] by (simp_all add: DD_ZERO_def)
    consider (g1) "g' = dd_one s" | (f1) "g' \<noteq> dd_one s" "f' = dd_one s" | (opp) "g' \<noteq> dd_one s" "f' \<noteq> dd_one s" "Cudd_Not f' = g'"
      | (f0) "g' \<noteq> dd_one s" "f' \<noteq> dd_one s" "Cudd_Not f' \<noteq> g'" "f' = Cudd_Not (dd_one s)"
      | (rec) "g' \<noteq> dd_one s" "f' \<noteq> dd_one s" "Cudd_Not f' \<noteq> g'" "f' \<noteq> Cudd_Not (dd_one s)" by blast
    then show ?thesis
    proof cases
      case g1
      then show ?thesis using now one unfolding run leq by simp
    next
      case f1
      then have "\<not> (\<forall>a. sem s f' a \<longrightarrow> sem s g' a)" using is_one_iff [OF n g'(3)] one by blast
      then show ?thesis using now [of False] f1 unfolding run leq by simp
    next
      case opp
      have "sem s f' a \<longleftrightarrow> \<not> sem s g' a" for a using opp(3) sem_Not [OF f'(3)] by blast
      then have "\<not> (\<forall>a. sem s f' a \<longrightarrow> sem s g' a)" using is_one_iff [OF n g'(3)] opp(1) by blast
      then show ?thesis using now [of False] opp unfolding run leq by simp
    next
      case f0
      then show ?thesis using now one unfolding run leq by simp
    next
      case rec
      have ng: "Cudd_Regular g' \<noteq> dd_one s" using rec g'(4) by simp
      have nf: "Cudd_Regular f' \<noteq> dd_one s" by (rule regular_not_one [OF n(1) rec(2,4)])
      have "yields (rbind (cuddCacheLookup2 s Op_bddLeq f' g') (\<lambda>(r, s1). if r \<noteq> 0 then Inr (r = dd_one s, s1) else ?k s1)) ?Q"
        unfolding leq
      proof (rule leq_lookup [OF ok f'(1) g'(1)])
        fix s1 assume s1: "grows s s1" "dd_ok A s1 X {}"
        have one1: "dd_one s1 = dd_one s" "dd_size s1 = dd_size s" using s1(1) by (simp_all add: grows_def)
        have h: "hp s1 X f'" "hp s1 X g'" using hp_mono [OF f'(1) s1(1) order_refl] hp_mono [OF g'(1) s1(1) order_refl] by simp_all
        note lv = grows_lev [OF s1(1) f'(3)] grows_lev [OF s1(1) g'(3)]
        have "yields (?k s1) (decides A s1 X (\<forall>a. sem s1 f' a \<longrightarrow> sem s1 g' a))"
          unfolding one1(1) [symmetric]
        proof (rule leq_step [OF s1(2) h(1) _ h(2)])
          fix s2 p q assume a: "grows s1 s2" "dd_ok A s2 X {}" "hp s2 X p" "hp s2 X q" "min (lev s1 f') (lev s1 g') < lev s2 p" "min (lev s1 f') (lev s1 g') < lev s2 q"
          have "dd_size s2 = dd_size s" using a(1) one1(2) by (simp add: grows_def)
          then show "yields (Cudd_bddLeq n s2 p q) (decides A s2 X (\<forall>a. sem s2 p a \<longrightarrow> sem s2 q a))"
            using a(5,6) f'(2) g'(2) Suc.prems(6) unfolding lv
            by (intro Suc.IH [OF a(2-4), of "Suc (min (lev s f') (lev s g'))"]) simp_all
        qed (use nf ng one1 in simp_all)
        then show "yields (?k s1) (decides A s X (\<forall>a. sem s f' a \<longrightarrow> sem s g' a))"
          unfolding grows_sem [OF s1(1) n(1) f'(3)] grows_sem [OF s1(1) n(1) g'(3)]
          by (rule yields_weaken) (use grows_trans [OF s1(1)] in \<open>auto simp: decides_def\<close>)
      qed
      then show ?thesis unfolding run using rec by simp
    qed
  qed
qed

section \<open>The operations a client calls\<close>

text \<open>
  Each runs its recursive step with one unit of fuel for every level and one for the constant.
\<close>

definition Cudd_bddIte :: "DdManager \<Rightarrow> ptr \<Rightarrow> ptr \<Rightarrow> ptr \<Rightarrow> (ptr \<times> DdManager) res" where
  "Cudd_bddIte s f g h = unless_reordered s (\<lambda>s. cuddBddIteRecur (Suc (dd_size s)) s f g h)"

definition Cudd_bddAnd :: "DdManager \<Rightarrow> ptr \<Rightarrow> ptr \<Rightarrow> (ptr \<times> DdManager) res" where
  "Cudd_bddAnd s f g = unless_reordered s (\<lambda>s. cuddBddAndRecur (Suc (dd_size s)) s f g)"

definition Cudd_bddOr :: "DdManager \<Rightarrow> ptr \<Rightarrow> ptr \<Rightarrow> (ptr \<times> DdManager) res" where
  "Cudd_bddOr s f g = negated (unless_reordered s (\<lambda>s. cuddBddAndRecur (Suc (dd_size s)) s (Cudd_Not f) (Cudd_Not g)))"

definition Cudd_bddNand :: "DdManager \<Rightarrow> ptr \<Rightarrow> ptr \<Rightarrow> (ptr \<times> DdManager) res" where
  "Cudd_bddNand s f g = negated (unless_reordered s (\<lambda>s. cuddBddAndRecur (Suc (dd_size s)) s f g))"

definition Cudd_bddNor :: "DdManager \<Rightarrow> ptr \<Rightarrow> ptr \<Rightarrow> (ptr \<times> DdManager) res" where
  "Cudd_bddNor s f g = unless_reordered s (\<lambda>s. cuddBddAndRecur (Suc (dd_size s)) s (Cudd_Not f) (Cudd_Not g))"

definition Cudd_bddXor :: "DdManager \<Rightarrow> ptr \<Rightarrow> ptr \<Rightarrow> (ptr \<times> DdManager) res" where
  "Cudd_bddXor s f g = unless_reordered s (\<lambda>s. cuddBddXorRecur (Suc (dd_size s)) s f g)"

definition Cudd_bddXnor :: "DdManager \<Rightarrow> ptr \<Rightarrow> ptr \<Rightarrow> (ptr \<times> DdManager) res" where
  "Cudd_bddXnor s f g = unless_reordered s (\<lambda>s. cuddBddXorRecur (Suc (dd_size s)) s f (Cudd_Not g))"

lemma gets_and:
  "dd_ok A s X {} \<Longrightarrow> hp s X f \<Longrightarrow> hp s X g \<Longrightarrow> (\<And>a. h a = (sem s f a \<and> sem s g a)) \<Longrightarrow>
     yields (unless_reordered s (\<lambda>s. cuddBddAndRecur (Suc (dd_size s)) s f g)) (gets A UNIV s X h)"
  using gets_does [OF does_and order_refl] unless_reordered_cong [of "\<lambda>s'. cuddBddAndRecur (Suc (dd_size s')) s' f g" s "\<lambda>s'. cuddBddAndRecur (Suc (dd_size s)) s' f g"]
  by simp

lemma gets_xor:
  "dd_ok A s X {} \<Longrightarrow> hp s X f \<Longrightarrow> hp s X g \<Longrightarrow> (\<And>a. h a = (sem s f a \<noteq> sem s g a)) \<Longrightarrow>
     yields (unless_reordered s (\<lambda>s. cuddBddXorRecur (Suc (dd_size s)) s f g)) (gets A UNIV s X h)"
  using gets_does [OF does_xor order_refl] unless_reordered_cong [of "\<lambda>s'. cuddBddXorRecur (Suc (dd_size s')) s' f g" s "\<lambda>s'. cuddBddXorRecur (Suc (dd_size s)) s' f g"]
  by simp

lemma bddAnd_spec:
  assumes "dd_ok A s X {}" "hp s X f" "hp s X g"
  shows "yields (Cudd_bddAnd s f g) (gets A UNIV s X (\<lambda>a. sem s f a \<and> sem s g a))"
    "yields (Cudd_bddNand s f g) (gets A UNIV s X (\<lambda>a. \<not> (sem s f a \<and> sem s g a)))"
  using gets_and [OF assms] gets_negated [OF gets_and [OF assms]] by (simp_all add: Cudd_bddAnd_def Cudd_bddNand_def)

lemma bddOr_spec:
  assumes "dd_ok A s X {}" "hp s X f" "hp s X g"
  shows "yields (Cudd_bddOr s f g) (gets A UNIV s X (\<lambda>a. sem s f a \<or> sem s g a))"
    "yields (Cudd_bddNor s f g) (gets A UNIV s X (\<lambda>a. \<not> (sem s f a \<or> sem s g a)))"
proof -
  have inh: "in_heap s f" "in_heap s g" using hp_in_heap [OF assms(1)] assms(2,3) by simp_all
  have nor: "yields (unless_reordered s (\<lambda>s. cuddBddAndRecur (Suc (dd_size s)) s (Cudd_Not f) (Cudd_Not g))) (gets A UNIV s X (\<lambda>a. \<not> (sem s f a \<or> sem s g a)))"
    by (rule gets_and [OF assms(1)]) (simp_all add: assms(2,3) inh)
  show "yields (Cudd_bddNor s f g) (gets A UNIV s X (\<lambda>a. \<not> (sem s f a \<or> sem s g a)))" using nor by (simp add: Cudd_bddNor_def)
  show "yields (Cudd_bddOr s f g) (gets A UNIV s X (\<lambda>a. sem s f a \<or> sem s g a))"
    using gets_negated [OF nor] unfolding Cudd_bddOr_def by simp
qed

lemma bddXor_spec:
  assumes "dd_ok A s X {}" "hp s X f" "hp s X g"
  shows "yields (Cudd_bddXor s f g) (gets A UNIV s X (\<lambda>a. sem s f a \<noteq> sem s g a))"
    "yields (Cudd_bddXnor s f g) (gets A UNIV s X (\<lambda>a. sem s f a = sem s g a))"
proof -
  have inh: "in_heap s g" by (rule hp_in_heap [OF assms(1,3)])
  show "yields (Cudd_bddXor s f g) (gets A UNIV s X (\<lambda>a. sem s f a \<noteq> sem s g a))"
    using gets_xor [OF assms] by (simp add: Cudd_bddXor_def)
  show "yields (Cudd_bddXnor s f g) (gets A UNIV s X (\<lambda>a. sem s f a = sem s g a))"
    unfolding Cudd_bddXnor_def by (rule gets_xor [OF assms(1)]) (use assms inh in auto)
qed

lemma bddIte_spec:
  assumes ok: "dd_ok A s X {}" and f: "hp s X f" and g: "hp s X g" and h: "hp s X h"
  shows "yields (Cudd_bddIte s f g h) (gets A UNIV s X (\<lambda>a. if sem s f a then sem s g a else sem s h a))"
  using gets_does3 [OF does_ite order_refl ok f g h]
    unless_reordered_cong [of "\<lambda>s'. cuddBddIteRecur (Suc (dd_size s')) s' f g h" s "\<lambda>s'. cuddBddIteRecur (Suc (dd_size s)) s' f g h"]
  by (simp add: Cudd_bddIte_def del: cuddBddIteRecur.simps)

end
