(* ===== verification/Cudd_Example.thy ===== *)
theory Cudd_Example
  imports Cudd_Steps
begin

text \<open>
  A manager with two variables on which the theorems about the package are applied: the constant, the
  projection functions, three free nodes and an empty computed table.
\<close>

section \<open>A manager with two variables\<close>

definition x0 :: ptr where "x0 = 0x1020"
definition x1 :: ptr where "x1 = 0x1040"
definition one_ex :: ptr where "one_ex = 0x1000"

definition var_node :: "nat \<Rightarrow> DdNode" where
  "var_node i = \<lparr>n_index = i, n_ref = 1, n_T = one_ex, n_E = Cudd_Not one_ex\<rparr>"

definition subtable_ex :: "ptr \<Rightarrow> DdSubtable" where
  "subtable_ex q = \<lparr>st_nodelist = (replicate 4 [])[ddHash one_ex (Cudd_Not one_ex) 30 := [q]], st_shift = 30, st_slots = 4,
     st_keys = 1, st_maxKeys = 16, st_dead = 0\<rparr>"

definition dd_ex :: DdManager where
  "dd_ex = \<lparr>heap = [one_ex \<mapsto> \<lparr>n_index = CUDD_CONST_INDEX, n_ref = 5, n_T = 0, n_E = 0\<rparr>, x0 \<mapsto> var_node 0, x1 \<mapsto> var_node 1],
     dd_one = one_ex, dd_size = 2, dd_perm = [0, 1], dd_vars = [x0, x1], subtables = [subtable_ex x0, subtable_ex x1],
     dd_slots = 8, dd_keys = 3, dd_dead = 0, constants_dead = 0, dd_keysZ = 0, dd_deadZ = 0, maxLive = 1000,
     peakLiveNodes = 3, minDead = 8, gcFrac = 1, looseUpTo = 100, gcEnabled = True, autoDyn = False, nextDyn = 4004,
     countDead = - 1, reordered = 0, dd_cache = replicate 4 unused_entry, cacheSlots = 4, maxCacheHard = 1024, cacheShift = 30,
     cacheSlack = 24, cacheHits = 0, cacheMisses = 3, minHit = 3 / 10, nextFree = [0x1060, 0x1080, 0x10A0],
     stash_null = False, memused = 8192, maxmem = 100000, maxmemhard = 200000, errorCode = CUDD_NO_ERROR,
     fn_addr = (\<lambda>op. case op of Op_Ldd_And \<Rightarrow> 0x4000 | Op_Ldd_Xor \<Rightarrow> 0x4010 | Op_bddAnd \<Rightarrow> 0x4020
       | Op_bddXor \<Rightarrow> 0x4030 | Op_bddIntersect \<Rightarrow> 0x4040 | Op_bddLeq \<Rightarrow> 0x4050),
     malloc_addr = (\<lambda>_. 0), malloc_count = 0\<rparr>"

lemma one_ex_Not [simp]: "Cudd_Not one_ex = 0x1001" "Cudd_Regular 0x1001 = one_ex" "Cudd_Regular one_ex = one_ex"
    "\<not> Cudd_IsComplement one_ex" "Cudd_IsComplement 0x1001"
  by (simp_all add: one_ex_def Cudd_Not_def Cudd_Regular_def Cudd_IsComplement_def)

lemma addresses_ex [simp]: "x0 \<noteq> x1" "x1 \<noteq> x0" "x0 \<noteq> one_ex" "one_ex \<noteq> x0" "x1 \<noteq> one_ex" "one_ex \<noteq> x1"
    "Cudd_Regular x0 = x0" "Cudd_Regular x1 = x1" "x0 \<noteq> 0" "x1 \<noteq> 0" "one_ex \<noteq> 0" "one_ex \<noteq> 0x1001"
    "\<not> Cudd_IsComplement x0" "\<not> Cudd_IsComplement x1"
  by (simp_all add: x0_def x1_def one_ex_def Cudd_Regular_def Cudd_IsComplement_def)

lemma hash_ex [simp]: "ddHash one_ex 0x1001 30 = 1"
  unfolding ddHash_def one_ex_def DD_P1_def DD_P2_def by simp

lemma shape_ex:
  "shape dd_ex = [one_ex \<mapsto> (CUDD_CONST_INDEX, 0, 0), x0 \<mapsto> (0, one_ex, 0x1001), x1 \<mapsto> (1, one_ex, 0x1001)]"
  by (rule ext) (simp add: shape_def dd_ex_def var_node_def node_shape_def)

lemma shape_ex_cases:
  assumes "shape dd_ex q = Some (i, t, e)"
  obtains "q = one_ex" "i = CUDD_CONST_INDEX" "t = 0" "e = 0" | "q = x0" "i = 0" "t = one_ex" "e = 0x1001" | "q = x1" "i = 1" "t = one_ex" "e = 0x1001"
  using assms unfolding shape_ex by (auto split: if_splits)

lemma fields_ex [simp]:
  "dd_one dd_ex = one_ex" "dd_size dd_ex = 2" "dd_perm dd_ex = [0, 1]" "dd_vars dd_ex = [x0, x1]"
  "subtables dd_ex = [subtable_ex x0, subtable_ex x1]" "nextFree dd_ex = [0x1060, 0x1080, 0x10A0]" "malloc_addr dd_ex = (\<lambda>_. 0)"
  "dd_cache dd_ex = replicate 4 unused_entry" "cacheSlots dd_ex = 4" "cacheShift dd_ex = 30" "cacheSlack dd_ex = 24"
  by (simp_all add: dd_ex_def)

lemma const_index_neq [simp]: "(0::nat) \<noteq> CUDD_CONST_INDEX" "Suc 0 \<noteq> CUDD_CONST_INDEX"
  by (simp_all add: CUDD_CONST_INDEX_def)

lemma level_ex: "level_of dd_ex one_ex = 2" "level_of dd_ex x0 = 0" "level_of dd_ex x1 = 1"
  by (simp_all add: level_of_def shape_ex)

lemma heap_ex: "heap dd_ex one_ex \<noteq> None" "heap dd_ex x0 \<noteq> None" "heap dd_ex x1 \<noteq> None"
    "heap dd_ex 0x1060 = None" "heap dd_ex 0x1080 = None" "heap dd_ex 0x10A0 = None"
  by (simp_all add: dd_ex_def) (simp_all add: x0_def x1_def one_ex_def)

lemma nodes_ex: "nodes_ok dd_ex"
proof -
  have al: "one_ex AND 15 = 0" "x0 AND 15 = 0" "x1 AND 15 = 0" by (simp_all add: one_ex_def x0_def x1_def)
  have "finite (dom (heap dd_ex))" by (simp add: dd_ex_def)
  moreover have "q \<noteq> 0 \<and> q AND 15 = 0 \<and> (i = CUDD_CONST_INDEX \<longleftrightarrow> q = dd_one dd_ex)
      \<and> (q \<noteq> dd_one dd_ex \<longrightarrow> i < dd_size dd_ex \<and> \<not> Cudd_IsComplement t \<and> heap dd_ex t \<noteq> None \<and> heap dd_ex (Cudd_Regular e) \<noteq> None
           \<and> t \<noteq> e \<and> dd_perm dd_ex ! i < level_of dd_ex t \<and> dd_perm dd_ex ! i < level_of dd_ex (Cudd_Regular e))"
    if "shape dd_ex q = Some (i, t, e)" for q i t e
    using that al heap_ex(1) by (cases rule: shape_ex_cases) (simp_all add: level_ex)
  ultimately show ?thesis unfolding nodes_ok_def using heap_ex(1) by simp
qed

lemma vars_ex: "vars_ok dd_ex"
  by (simp add: vars_ok_def shape_ex CUDD_CONST_INDEX_def less_Suc_eq numeral_2_eq_2)

lemma table_ex: "table_ok dd_ex"
proof -
  have members: "chain_members dd_ex l 30 pos = (if l < 2 \<and> pos = 1 then {if l = 0 then x0 else x1} else {})" for l pos
  proof (rule set_eqI)
    fix q
    show "q \<in> chain_members dd_ex l 30 pos \<longleftrightarrow> q \<in> (if l < 2 \<and> pos = 1 then {if l = 0 then x0 else x1} else {})"
      by (cases "shape dd_ex q") (auto simp: chain_members_def shape_ex split: if_splits)
  qed
  have sub: "subtable_ok dd_ex l (subtable_ex q)" if "l < 2" "q = (if l = 0 then x0 else x1)" for l q
    unfolding subtable_ok_def
  proof (intro conjI allI impI)
    fix pos assume "pos < length (st_nodelist (subtable_ex q))"
    then have "pos < 4" by (simp add: subtable_ex_def)
    then have nl: "st_nodelist (subtable_ex q) ! pos = (if pos = 1 then [q] else [])"
      by (simp add: subtable_ex_def nth_list_update)
    have shift: "st_shift (subtable_ex q) = 30" by (simp add: subtable_ex_def)
    show "sorted_wrt (chain_order dd_ex) (st_nodelist (subtable_ex q) ! pos)" by (simp add: nl)
    show "set (st_nodelist (subtable_ex q) ! pos) = chain_members dd_ex l (st_shift (subtable_ex q)) pos"
      unfolding nl shift members using that by simp
  qed (simp_all add: subtable_ex_def)
  show ?thesis unfolding table_ok_def
    using sub [of 0 x0] sub [of 1 x1] by (auto simp: less_Suc_eq numeral_2_eq_2)
qed

lemma alloc_ex: "alloc_ok dd_ex"
  unfolding alloc_ok_def fresh_nodes_def using heap_ex(4-6) by simp

lemma cache_ex: "cache_ok A dd_ex"
  by (simp add: cache_ok_def unused_entry_def)

lemma live_ex: "live dd_ex = {one_ex, x0, x1}"
  by (auto simp: live_def dd_ex_def var_node_def split: if_splits)

lemma refs_ex: "ref_ok dd_ex {} (\<lambda>q. 0 + own_refs dd_ex q)"
proof -
  have k: "kid_count dd_ex one_ex q = 0" "kid_count dd_ex x0 q = (if q = one_ex then 2 else 0)" "kid_count dd_ex x1 q = (if q = one_ex then 2 else 0)" for q
    by (auto simp: kid_count_def shape_ex)
  have e: "edges dd_ex {one_ex, x0, x1} q = (if q = one_ex then 4 else 0)" for q
    unfolding edges_def by (simp add: k)
  show ?thesis
    unfolding ref_ok_def live_ex
  proof (intro allI impI)
    fix q n assume "heap dd_ex q = Some n"
    then have "q = one_ex \<and> n_ref n = 5 \<or> (q = x0 \<or> q = x1) \<and> n_ref n = 1"
      by (auto simp: dd_ex_def var_node_def split: if_splits)
    then show "n_ref n = DD_MAXREF \<or> edges dd_ex ({one_ex, x0, x1} \<union> {}) q + (0 + own_refs dd_ex q) \<le> unat (n_ref n)"
      by (auto simp: e own_refs_def)
  qed
qed

lemma inj_ex: "inj (fn_addr dd_ex)"
  by (rule injI) (auto simp: dd_ex_def split: op_name.splits)

lemma dd_ex_ok: "dd_ok A dd_ex (\<lambda>_. 0) {}"
  using nodes_ex vars_ex table_ex alloc_ex cache_ex inj_ex refs_ex by (simp add: dd_ok_def)

lemma hp_ex: "hp dd_ex X x0" "hp dd_ex X x1" "hp dd_ex X one_ex" "hp dd_ex X (Cudd_Not x0)" "hp dd_ex X (Cudd_Not x1)"
  by (simp_all add: hp_def held_ref own_refs_def)

lemma sem_ex: "sem dd_ex x0 a = a 0" "sem dd_ex x1 a = a 1"
  using sem_node [OF nodes_ex vars_ex, of x0] sem_node [OF nodes_ex vars_ex, of x1]
  by (simp_all add: shape_ex sem_const)

end
