(* ===== verification/Cudd_Theorems.thy ===== *)
theory Cudd_Theorems
  imports Cudd_BddIte Cudd_Example
begin

text \<open>
  What the decision-diagram package promises: the unique table, canonicity of results, reference counting, the
  computed table and the operations on Boolean diagrams, each applied to a manager with two variables.
\<close>

text \<open>What an operation that returns a diagram leaves behind.\<close>

definition returns :: "(nat \<Rightarrow> bool) set \<Rightarrow> DdManager \<Rightarrow> (ptr \<Rightarrow> nat) \<Rightarrow> (ptr \<Rightarrow> DdManager \<Rightarrow> bool) \<Rightarrow> ptr \<Rightarrow> DdManager \<Rightarrow> bool" where
  "returns A s X P r s' \<longleftrightarrow> grows s s' \<and> dd_ok A s' X {} \<and> (r \<noteq> 0 \<longrightarrow> dd_ok A s' X {Cudd_Regular r} \<and> P r s')"

lemma gives_returns: "gives A s X P r s' \<Longrightarrow> (r \<noteq> 0 \<Longrightarrow> P r s' \<Longrightarrow> P' r s') \<Longrightarrow> returns A s X P' r s'"
  unfolding returns_def gives_def using float_drop by (auto split: if_splits)

lemma yields_returns: "yields m (gives A s X P) \<Longrightarrow> (\<And>r s'. r \<noteq> 0 \<Longrightarrow> P r s' \<Longrightarrow> P' r s') \<Longrightarrow> yields m (returns A s X P')"
  by (erule yields_weaken, erule gives_returns)

section \<open>The unique table\<close>

lemma in_heap_ex: "in_heap dd_ex x0" "in_heap dd_ex x1"
  using heap_ex by (simp_all add: in_heap_def)

text \<open>
  C15: \<^verbatim>\<open>cuddUniqueInter\<close> returns the node with the given variable and children, found or made; it keeps
  the invariant, and nodes that existed before stay as they are.  A null result leaves the invariant
  as it was.
\<close>

theorem unique_inter_node:
  assumes "dd_ok A s X {}" "node_args s index T E" "hp s X T" "hp s X E"
  shows "yields (cuddUniqueInter s index T E) (returns A s X (\<lambda>r s'. shape s' r = Some (index, T, E)))"
  using cuddUniqueInter_spec [OF assms(1,2) assms(3,4) [unfolded hp_def]] by (rule yields_returns)

lemma args_ex: "node_args dd_ex 0 x1 (Cudd_Not one_ex)"
  using in_heap_ex heap_ex(1) by (simp add: node_args_def level_ex in_heap_def) (simp add: x1_def)

theorem unique_inter_node_witness:
  "yields (cuddUniqueInter dd_ex 0 x1 (Cudd_Not one_ex)) (returns UNIV dd_ex (\<lambda>_. 0) (\<lambda>r s'. shape s' r = Some (0, x1, Cudd_Not one_ex)))"
  by (rule unique_inter_node [OF dd_ex_ok args_ex]) (use hp_ex in \<open>simp_all add: hp_def\<close>)

text \<open>
  C25: Diagrams are canonical because a node that exists is found again: \<^verbatim>\<open>cuddUniqueInter\<close>, asked for the
  variable and the children of any node that is alive, returns that node and leaves the manager as it is.
\<close>

theorem unique_inter_finds:
  assumes ok: "dd_ok A s X F" and q: "heap s q = Some n" "n_ref n \<noteq> 0" "n_index n \<noteq> CUDD_CONST_INDEX"
  shows "cuddUniqueInter s (n_index n) (n_T n) (n_E n) = Inr (q, s)"
proof -
  note n = dd_okD(1,2,3) [OF ok]
  have sh: "shape s q = Some (n_index n, n_T n, n_E n)" by (rule shape_heap [OF q(1)])
  have i: "n_index n < dd_size s" using nodes_okD(3,4) [OF n(1) sh] q(3) by blast
  obtain pos front rest where f: "find_place s (subtables s ! (dd_perm s ! n_index n)) (n_T n) (n_E n) = Inr (pos, front, rest)"
    and cases: "(\<exists>p ps. rest = p # ps \<and> is_node s rest (n_T n) (n_E n) = Inr True \<and> shape s p = Some (n_index n, n_T n, n_E n))
        \<or> (is_node s rest (n_T n) (n_E n) = Inr False \<and> place_for s (dd_perm s ! n_index n) (n_T n) (n_E n) pos front rest
          \<and> (\<forall>q. shape s q \<noteq> Some (n_index n, n_T n, n_E n)))"
    using find_node [OF ok i, of "n_T n" "n_E n"] by (elim exE conjE) (rule that; assumption)
  then obtain p ps where p: "rest = p # ps" "is_node s rest (n_T n) (n_E n) = Inr True" "shape s p = Some (n_index n, n_T n, n_E n)"
    using sh by blast
  have "p = q" by (rule node_unique [OF n p(3) sh])
  then show ?thesis
    using i subtable_at [OF ok i] f p q by (simp add: cuddUniqueInter_def node_def)
qed

theorem unique_inter_finds_witness: "cuddUniqueInter dd_ex 1 one_ex (Cudd_Not one_ex) = Inr (x1, dd_ex)"
  using unique_inter_finds [OF dd_ex_ok, of x1 "var_node 1"] by (simp add: dd_ex_def var_node_def)

lemma insert_node_runs:
  assumes l: "level < length (subtables s)" and h: "in_heap s T" "in_heap s E"
  shows "\<exists>s'. insert_node s level index q T E pos front rest = Inr s'"
proof -
  let ?s = "new_node s level index q T E pos front rest"
  have "heap ?s (Cudd_Regular p) \<noteq> None" if "in_heap s p" for p
    using that by (cases "Cudd_Regular p = q") (simp_all add: new_node_def in_heap_def)
  then obtain n m where "heap ?s (Cudd_Regular T) = Some n" "heap ?s (Cudd_Regular E) = Some m" using h by blast
  then show ?thesis unfolding insert_node_run [OF l] by (simp add: cuddRef_def node_def set_node_def)
qed

text \<open>
  C31: Creation is live: with a free node, no dynamic reordering and a subtable that is not full,
  \<^verbatim>\<open>cuddUniqueInter\<close> returns the node with the given variable and children and never null.
\<close>

theorem unique_inter_live:
  assumes ok: "dd_ok A s X {}" and a: "node_args s index T E" and h: "hp s X T" "hp s X E"
    and room: "nextFree s \<noteq> []" "\<not> autoDyn s" "\<not> st_maxKeys (subtables s ! (dd_perm s ! index)) < st_keys (subtables s ! (dd_perm s ! index))"
  shows "\<exists>r s'. cuddUniqueInter s index T E = Inr (r, s') \<and> r \<noteq> 0 \<and> shape s' r = Some (index, T, E)"
proof -
  let ?l = "dd_perm s ! index"
  note n = dd_okD(1,2,3) [OF ok]
  have i: "index < dd_size s" and inh: "in_heap s T" "in_heap s E" using a by (simp_all add: node_args_def)
  obtain pos front rest where f: "find_place s (subtables s ! ?l) T E = Inr (pos, front, rest)"
    and cases: "(\<exists>p ps. rest = p # ps \<and> is_node s rest T E = Inr True \<and> shape s p = Some (index, T, E))
        \<or> (is_node s rest T E = Inr False \<and> place_for s ?l T E pos front rest \<and> (\<forall>q. shape s q \<noteq> Some (index, T, E)))"
    using find_node [OF ok i, of T E] by (elim exE conjE) (rule that; assumption)
  have "\<exists>r s'. cuddUniqueInter s index T E = Inr (r, s') \<and> r \<noteq> 0"
    using cases
  proof (elim disjE exE conjE)
    fix q ps assume r: "rest = q # ps" "is_node s rest T E = Inr True" and q: "shape s q = Some (index, T, E)"
    obtain m where m: "heap s q = Some m" using shape_SomeD [OF q] by blast
    have reg: "Cudd_Regular q = q" by (rule node_regular [OF n(1) q])
    obtain s' where s': "cuddReclaim s q = Inr s'" using reclaim_spec [OF ok, of q] m reg by (auto simp: in_heap_def)
    have "cuddUniqueInter s index T E = rbind (if n_ref m = 0 then cuddReclaim s q else Inr s) (\<lambda>s. Inr (q, s))"
      using i subtable_at [OF ok i] f r m by (simp add: cuddUniqueInter_def node_def)
    then show ?thesis using s' nodes_okD(1) [OF n(1) q] by simp
  next
    assume no: "is_node s rest T E = Inr False"
    obtain q qs where q: "nextFree s = q # qs" using room(1) by (cases "nextFree s") simp_all
    then have q0: "q \<noteq> 0" using dd_okD(4) [OF ok] by (simp add: alloc_ok_def fresh_nodes_def)
    let ?s = "s\<lparr>nextFree := qs\<rparr>"
    obtain s' where "insert_node ?s ?l index q T E pos front rest = Inr s'"
      using insert_node_runs [of ?l ?s T E index q pos front rest] subtable_at(2) [OF ok i] inh by (simp add: in_heap_def) blast
    then show ?thesis
      using i subtable_at [OF ok i] f no room q q0 by (simp add: cuddUniqueInter_def cuddAllocNode_def)
  qed
  then obtain r s' where r: "cuddUniqueInter s index T E = Inr (r, s')" "r \<noteq> 0" by blast
  then show ?thesis using cuddUniqueInter_spec [OF ok a h [unfolded hp_def]] by (simp add: gives_def)
qed

theorem unique_inter_live_witness:
  "\<exists>r s'. cuddUniqueInter dd_ex 0 x1 (Cudd_Not one_ex) = Inr (r, s') \<and> r \<noteq> 0 \<and> shape s' r = Some (0, x1, Cudd_Not one_ex)"
  by (rule unique_inter_live [OF dd_ex_ok args_ex])
    (use hp_ex in \<open>simp_all add: hp_def\<close>, simp_all add: dd_ex_def subtable_ex_def)

section \<open>Reference counting\<close>

text \<open>
  C26: \<^verbatim>\<open>Cudd_IterDerefBdd\<close> ends: releasing a held diagram runs through without a fault, changes nothing
  but reference counts and counters, and leaves every other reference counted.
\<close>

theorem iter_deref_ends:
  assumes "dd_ok A s (add_ref X p) {}"
  shows "\<exists>s'. Cudd_IterDerefBdd s p = Inr s' \<and> refs_only s s' \<and> dd_ok A s' X {}"
  by (rule iterDeref_spec [OF assms])

lemma float_ex: "dd_ok A dd_ex (\<lambda>_. 0) {x0}"
  by (rule float_held [OF dd_ex_ok]) (use hp_ex in \<open>simp add: hp_def\<close>)

lemma ref_ex: "\<exists>s. cuddRef dd_ex x0 = Inr s \<and> dd_ok A s (add_ref (\<lambda>_. 0) x0) {}"
  using cuddRef_spec [OF float_ex, of x0 A] by auto

theorem iter_deref_ends_witness:
  "\<exists>s s'. cuddRef dd_ex x0 = Inr s \<and> Cudd_IterDerefBdd s x0 = Inr s' \<and> refs_only s s' \<and> dd_ok UNIV s' (\<lambda>_. 0) {}"
  using ref_ex [of UNIV] iter_deref_ends [where A = UNIV and X = "\<lambda>_. 0" and p = x0] by blast

text \<open>
  \<^verbatim>\<open>cuddReclaim\<close> ends: a dead node is brought back together with the nodes below it, so that the
  invariant holds with the node as one that may be referenced.
\<close>

theorem reclaim_ends:
  assumes "dd_ok A s X F" "in_heap s p"
  shows "\<exists>s'. cuddReclaim s p = Inr s' \<and> refs_only s s' \<and> dd_ok A s' X {Cudd_Regular p}"
  by (rule reclaim_spec [OF assms])

theorem reclaim_ends_witness:
  "\<exists>s'. cuddReclaim dd_ex x0 = Inr s' \<and> refs_only dd_ex s' \<and> dd_ok UNIV s' (\<lambda>_. 0) {Cudd_Regular x0}"
  by (rule reclaim_ends [OF dd_ex_ok in_heap_ex(1)])

text \<open>
  Nothing that is held dies: every node reachable from a reference the client or the manager holds
  has a positive reference count.
\<close>

theorem held_nodes_live:
  assumes "dd_ok A s X F" "held s X q"
  shows "\<exists>n. heap s q = Some n \<and> n_ref n \<noteq> 0"
  by (rule held_live [OF assms])

theorem held_nodes_live_witness: "\<exists>n. heap dd_ex x0 = Some n \<and> n_ref n \<noteq> 0"
  by (rule held_nodes_live [OF dd_ex_ok]) (use hp_ex in \<open>simp add: hp_def\<close>)

section \<open>The computed table\<close>

text \<open>
  A result that was inserted is found by the next lookup of the same operation and operands, while
  its node is alive: the lookup returns it and only counts a hit.
\<close>

theorem cache_round_trip:
  assumes ok: "cache_ok A s" and ins: "cuddCacheInsert2 s op f g r = Inr s'"
    and r: "r \<noteq> 0" "heap s (Cudd_Regular r) = Some n" "n_ref n \<noteq> 0"
  shows "cuddCacheLookup2 s' op f g = Inr (r, s'\<lparr>cacheHits := Suc (cacheHits s')\<rparr>)"
proof -
  let ?i = "ddCHash2 (fn_addr s op) f g (cacheShift s)"
  have i: "?i < length (dd_cache s)" by (rule ddCHash2_less [OF ok])
  then have "s' = s\<lparr>dd_cache := (dd_cache s)[?i := \<lparr>ce_f = f, ce_g = g, ce_h = fn_addr s op, ce_data = r\<rparr>]\<rparr>"
    using ins by (simp add: cuddCacheInsert2_def)
  then show ?thesis using i r by (simp add: cuddCacheLookup2_def cache_lookup_def cache_find_def node_def Let_def)
qed

lemma insert_ex: "\<exists>s. cuddCacheInsert2 dd_ex Op_bddAnd x0 x1 one_ex = Inr s"
  using ddCHash2_less [OF cache_ex, of "fn_addr dd_ex Op_bddAnd" x0 x1] by (simp add: cuddCacheInsert2_def)

theorem cache_round_trip_witness:
  "\<exists>s. cuddCacheInsert2 dd_ex Op_bddAnd x0 x1 one_ex = Inr s \<and> cuddCacheLookup2 s Op_bddAnd x0 x1 = Inr (one_ex, s\<lparr>cacheHits := Suc (cacheHits s)\<rparr>)"
proof -
  obtain s where "cuddCacheInsert2 dd_ex Op_bddAnd x0 x1 one_ex = Inr s" using insert_ex by blast
  moreover from cache_round_trip [OF cache_ex this, of "\<lparr>n_index = CUDD_CONST_INDEX, n_ref = 5, n_T = 0, n_E = 0\<rparr>"]
  have "cuddCacheLookup2 s Op_bddAnd x0 x1 = Inr (one_ex, s\<lparr>cacheHits := Suc (cacheHits s)\<rparr>)"
    by (simp add: dd_ex_def)
  ultimately show ?thesis by blast
qed

text \<open>
  C27: The computed table never lies: what a lookup of an operation returns is a diagram, alive, that
  denotes the operation's result on the operands, although entries are overwritten, the table is
  resized and dead nodes are brought back.
\<close>

theorem cache_lookup_correct:
  assumes "dd_ok A s X {}" "in_heap s f" "in_heap s g"
  shows "yields (cuddCacheLookup2 s op f g) (returns A s X (\<lambda>r s'. in_heap s r \<and> op_fact A op (sem s f) (sem s g) (sem s r)))"
  by (rule yields_returns [OF cuddCacheLookup2_spec [OF assms]]) (simp add: fact2_def)

lemma hit_ex:
  "\<exists>s. cuddCacheInsert2 dd_ex Op_bddAnd x0 one_ex x0 = Inr s \<and> grows dd_ex s \<and> heap s = heap dd_ex \<and> dd_ok UNIV s (\<lambda>_. 0) {}
     \<and> (\<exists>s'. cuddCacheLookup2 s Op_bddAnd x0 one_ex = Inr (x0, s'))"
proof -
  have "lev dd_ex x0 = 0" by (simp add: lev_def level_ex)
  then have "fact2 UNIV Op_bddAnd dd_ex x0 one_ex x0"
    using sem_one(1) [OF nodes_ex] by (simp add: fact2_def)
  then obtain s where s: "cuddCacheInsert2 dd_ex Op_bddAnd x0 one_ex x0 = Inr s" "same_nodes dd_ex s" "dd_ok UNIV s (\<lambda>_. 0) {}" "heap s = heap dd_ex"
    using cuddCacheInsert2_spec [OF dd_ex_ok [of UNIV], of x0 one_ex x0 Op_bddAnd] heap_ex by (auto simp: in_heap_def)
  let ?i = "ddCHash2 (fn_addr dd_ex Op_bddAnd) x0 one_ex (cacheShift dd_ex)"
  have "?i < length (dd_cache dd_ex)" by (rule ddCHash2_less [OF cache_ex])
  then have "\<exists>s'. cuddCacheLookup2 s Op_bddAnd x0 one_ex = Inr (x0, s')"
    using s(1) by (auto simp: cuddCacheInsert2_def cuddCacheLookup2_def cache_lookup_def cache_find_def node_def Let_def)
      (simp add: dd_ex_def var_node_def)
  then show ?thesis using s same_nodes_grows [OF s(2)] by blast
qed

theorem cache_lookup_correct_witness:
  "\<exists>s s'. cuddCacheInsert2 dd_ex Op_bddAnd x0 one_ex x0 = Inr s \<and> cuddCacheLookup2 s Op_bddAnd x0 one_ex = Inr (x0, s')
     \<and> dd_ok UNIV s' (\<lambda>_. 0) {Cudd_Regular x0} \<and> op_fact UNIV Op_bddAnd (sem s x0) (sem s one_ex) (sem s x0)"
proof -
  obtain s s' where s: "cuddCacheInsert2 dd_ex Op_bddAnd x0 one_ex x0 = Inr s" "heap s = heap dd_ex" "dd_ok UNIV s (\<lambda>_. 0) {}"
    "cuddCacheLookup2 s Op_bddAnd x0 one_ex = Inr (x0, s')" using hit_ex by blast
  have "in_heap s x0" "in_heap s one_ex" using heap_ex s(2) by (simp_all add: in_heap_def)
  from cache_lookup_correct [OF s(3) this, of Op_bddAnd] s(4) have "returns UNIV s (\<lambda>_. 0) (\<lambda>r s'. in_heap s r \<and> op_fact UNIV Op_bddAnd (sem s x0) (sem s one_ex) (sem s r)) x0 s'"
    by simp
  then show ?thesis using s(1,4) by (auto simp: returns_def)
qed

text \<open>
  \<^verbatim>\<open>cuddCacheResize\<close> keeps the table an array of a power of two entries that all are facts: its
  length, mask and slack stay in step and nothing else of the manager changes.
\<close>

theorem cache_resize_keeps:
  assumes "cache_ok A s" "0 \<le> cacheSlack s"
  shows "\<exists>s'. cuddCacheResize s = Inr s' \<and> same_nodes s s' \<and> same_table s s' \<and> heap s' = heap s \<and> cache_ok A s'"
  using cuddCacheResize_spec [OF assms] by blast

theorem cache_resize_keeps_witness:
  "\<exists>s'. cuddCacheResize dd_ex = Inr s' \<and> same_nodes dd_ex s' \<and> same_table dd_ex s' \<and> heap s' = heap dd_ex \<and> cache_ok UNIV s'"
  by (rule cache_resize_keeps [OF cache_ex]) simp

text \<open>
  Hashing is in bounds: the slot of a node in a subtable and the slot of an operation in the
  computed table are below the number of slots for every shift the package uses.
\<close>

theorem hash_slots:
  assumes "shift \<le> 32"
  shows "ddHash T E shift < 2 ^ (32 - shift) \<and> ddCHash2 h f g shift < 2 ^ (32 - shift)"
  using ddHash_less [OF assms] unat_drop_bit_less [OF assms] by (simp add: ddCHash2_def)

theorem hash_slots_witness: "ddHash x0 x1 30 < 4 \<and> ddCHash2 5 x0 x1 30 < 4"
  using hash_slots [of 30] by simp

text \<open>
  C28: \<^verbatim>\<open>cuddRehash\<close> keeps the invariant: every node is in the chain its hash names after the table has
  doubled, the chains stay sorted, and no node is lost or changed.
\<close>

theorem rehash_keeps:
  assumes "dd_ok A s X F" "i < length (subtables s)" "cuddRehash s i = Inr s'"
  shows "dd_ok A s' X F \<and> heap s' = heap s \<and> length (subtables s') = length (subtables s)"
  using cuddRehash_spec [OF assms(1,2)] assms(3) by force

lemma chunk_ex: "chunk_nodes 0x8000 = map (\<lambda>i. of_nat (0x8010 + 16 * i)) [0 ..< DD_MEM_CHUNK]"
  by (simp add: chunk_nodes_def Let_def sizeof_DdNode_def mult.commute)

lemma chunk_addr_ex:
  assumes "i < DD_MEM_CHUNK"
  shows "unat (of_nat (0x8010 + 16 * i) :: ptr) = 0x8010 + 16 * i" "(of_nat (0x8010 + 16 * i) :: ptr) AND 15 = 0"
proof -
  have "0x8010 + 16 * i < 2 ^ LENGTH(32)" using assms by (simp add: DD_MEM_CHUNK_def)
  then show "unat (of_nat (0x8010 + 16 * i) :: ptr) = 0x8010 + 16 * i"
    by (subst unat_of_nat) (rule mod_less)
  have e: "0x8010 + 16 * i = 16 * (0x801 + i)" by simp
  have "(of_nat (0x8010 + 16 * i) :: ptr) AND 15 = take_bit 4 (of_nat (0x8010 + 16 * i))" by (simp only: take_bit_eq_mask) (simp add: mask_eq_decr_exp)
  also have "\<dots> = of_nat (take_bit 4 (0x8010 + 16 * i))" by (rule take_bit_of_nat)
  also have "take_bit 4 (0x8010 + 16 * i) = 0" unfolding e take_bit_eq_mod by simp
  finally show "(of_nat (0x8010 + 16 * i) :: ptr) AND 15 = 0" by simp
qed

lemma chunk_node_ex:
  assumes "q \<in> set (chunk_nodes 0x8000)"
  shows "0x8000 \<le> unat q" "q AND 15 = 0"
proof -
  obtain i where i: "i < DD_MEM_CHUNK" "q = of_nat (0x8010 + 16 * i)" using assms unfolding chunk_ex by (auto simp del: of_nat_add)
  show "0x8000 \<le> unat q" unfolding i(2) chunk_addr_ex(1) [OF i(1)] by simp
  show "q AND 15 = 0" unfolding i(2) by (rule chunk_addr_ex(2) [OF i(1)])
qed

lemma chunk_fresh_ex: "fresh_nodes dd_ex (chunk_nodes 0x8000)" "set (chunk_nodes 0x8000) \<inter> set (nextFree dd_ex) = {}"
proof -
  have "distinct (chunk_nodes 0x8000)"
    unfolding chunk_ex distinct_map
  proof (intro conjI inj_onI)
    fix i j assume a: "i \<in> set [0 ..< DD_MEM_CHUNK]" "j \<in> set [0 ..< DD_MEM_CHUNK]" and eq: "(of_nat (0x8010 + 16 * i) :: ptr) = of_nat (0x8010 + 16 * j)"
    have "(0x8010 + 16 * i :: nat) = 0x8010 + 16 * j"
      using chunk_addr_ex(1) [of i] chunk_addr_ex(1) [of j] a unfolding eq by simp
    then show "i = j" by simp
  qed simp
  moreover have "heap dd_ex q = None \<and> q \<noteq> 0" if "q \<in> set (chunk_nodes 0x8000)" for q
    using chunk_node_ex(1) [OF that] by (auto simp: dd_ex_def x0_def x1_def one_ex_def)
  ultimately show "fresh_nodes dd_ex (chunk_nodes 0x8000)" using chunk_node_ex(2) by (simp add: fresh_nodes_def)
  show "set (chunk_nodes 0x8000) \<inter> set (nextFree dd_ex) = {}" using chunk_node_ex(1) by fastforce
qed

text \<open>The manager of the example with memory for one more block of nodes.\<close>

definition dd_room :: DdManager where
  "dd_room = dd_ex\<lparr>malloc_addr := (\<lambda>k. if k = 0 then 0x8000 else 0)\<rparr>"

lemma dd_room_ok: "dd_ok A dd_room (\<lambda>_. 0) {}"
proof -
  have n: "same_nodes dd_ex dd_room" "same_table dd_ex dd_room" "heap dd_room = heap dd_ex" "same_cache dd_ex dd_room" "fn_addr dd_room = fn_addr dd_ex" "own_refs dd_room = own_refs dd_ex"
    by (simp_all add: same_nodesI same_table_def dd_room_def same_cache_def own_refs_def fun_eq_iff)
  have "alloc_ok dd_room"
    using alloc_ex chunk_fresh_ex chunk_node_ex unfolding alloc_ok_def fresh_nodes_def n(3) by (simp add: dd_room_def)
  then show ?thesis
    using dd_ex_ok [of A] same_nodes_nodes_ok [OF n(1)] same_nodes_vars_ok [OF n(1) same_table_length [OF n(2)]] same_table_table_ok [OF n(1,2)]
      same_cache_cache_ok [OF n(1,4)] ref_ok_cong [OF n(3)] unfolding dd_ok_def n(3,5,6) by simp
qed

lemma rehash_ex: "\<exists>s'. cuddRehash dd_room 0 = Inr s'"
proof -
  have "\<forall>c \<in> set (st_nodelist (subtable_ex x0)). set c \<subseteq> dom (heap dd_ex)"
    using heap_ex(2) by (auto simp: subtable_ex_def dest: set_update_subset_insert [THEN subsetD])
  then obtain cs where cs: "rehash_chains (dd_room\<lparr>malloc_count := 1\<rparr>) 29 (st_nodelist (subtable_ex x0)) = Inr cs"
    using rehash_chains_run [of "st_nodelist (subtable_ex x0)" "dd_room\<lparr>malloc_count := 1\<rparr>" 29] by (auto simp: dd_room_def)
  have limits: "\<exists>s'. ddFixLimits s = Inr s'" if "same_nodes dd_ex s" "same_cache dd_ex s" for s
    using ddFixLimits_spec [of UNIV s] same_cache_cache_ok [OF that] cache_ex by blast
  have room: "malloc_addr dd_room 0 = 0x8000" "malloc_count dd_room = 0" "gcFrac dd_room = 1" "memused dd_room = 8192" "maxmem dd_room = 100000" "subtables dd_room = [subtable_ex x0, subtable_ex x1]"
    "st_shift (subtable_ex x0) = 30"
    by (simp_all add: dd_room_def dd_ex_def subtable_ex_def)
  let ?s = "dd_room\<lparr>malloc_count := 1\<rparr>"
  let ?t = "subtable_ex x0"
  let ?s3 = "?s\<lparr>subtables := (subtables ?s)[0 := ?t\<lparr>st_nodelist := cs, st_slots := push_bit 1 (st_slots ?t),
                                      st_shift := 29, st_maxKeys := push_bit 1 (st_slots ?t) * 4\<rparr>],
                                   memused := memused ?s + (push_bit 1 (st_slots ?t) - st_slots ?t) * 4,
                                   dd_slots := dd_slots ?s + (push_bit 1 (st_slots ?t) - st_slots ?t)\<rparr>"
  have "cuddRehash dd_room 0 = ddFixLimits ?s3"
    using cs by (simp add: cuddRehash_def ALLOC_def room DD_GC_FRAC_HI_def DD_GC_FRAC_MIN_def Let_def)
  moreover have "same_nodes dd_ex ?s3" "same_cache dd_ex ?s3"
    by (simp_all add: same_nodesI same_cache_def dd_room_def)
  ultimately show ?thesis using limits by simp
qed

theorem rehash_keeps_witness: "\<exists>s'. cuddRehash dd_room 0 = Inr s' \<and> dd_ok UNIV s' (\<lambda>_. 0) {} \<and> heap s' = heap dd_room"
proof -
  obtain s' where s': "cuddRehash dd_room 0 = Inr s'" using rehash_ex by blast
  show ?thesis using rehash_keeps [OF dd_room_ok _ s', of UNIV] s' by (simp add: dd_room_def)
qed

section \<open>Boolean operations\<close>

text \<open>
  \<^verbatim>\<open>Cudd_bddAnd\<close> returns the diagram of the conjunction of its operands, in a manager that keeps the
  invariant; or null, or it ends in a part of the package that is not modelled.
\<close>

theorem bddAnd_conjunction:
  assumes "dd_ok A s X {}" "hp s X f" "hp s X g"
  shows "yields (Cudd_bddAnd s f g) (returns A s X (\<lambda>r s'. in_heap s' r \<and> (\<forall>a. sem s' r a = (sem s f a \<and> sem s g a))))"
  by (rule yields_returns [OF bddAnd_spec(1) [OF assms, unfolded gets_def]]) simp

theorem bddAnd_conjunction_witness:
  "yields (Cudd_bddAnd dd_ex x0 x1) (returns UNIV dd_ex (\<lambda>_. 0) (\<lambda>r s'. in_heap s' r \<and> (\<forall>a. sem s' r a = (a 0 \<and> a 1))))"
  using bddAnd_conjunction [OF dd_ex_ok hp_ex(1,2)] by (simp add: sem_ex)

text \<open>
  \<^verbatim>\<open>Cudd_bddOr\<close> and \<^verbatim>\<open>Cudd_bddNor\<close>, which run the conjunction on complemented edges, return the
  diagrams of the disjunction and of its negation.
\<close>

theorem bddOr_disjunction:
  assumes "dd_ok A s X {}" "hp s X f" "hp s X g"
  shows "yields (Cudd_bddOr s f g) (returns A s X (\<lambda>r s'. \<forall>a. sem s' r a = (sem s f a \<or> sem s g a)))
    \<and> yields (Cudd_bddNor s f g) (returns A s X (\<lambda>r s'. \<forall>a. sem s' r a = (\<not> (sem s f a \<or> sem s g a))))"
  by (intro conjI; rule yields_returns [OF bddOr_spec(1) [OF assms, unfolded gets_def]] yields_returns [OF bddOr_spec(2) [OF assms, unfolded gets_def]]) simp_all

theorem bddOr_disjunction_witness:
  "yields (Cudd_bddOr dd_ex x0 (Cudd_Not x1)) (returns UNIV dd_ex (\<lambda>_. 0) (\<lambda>r s'. \<forall>a. sem s' r a = (a 0 \<or> sem dd_ex (Cudd_Not x1) a)))"
  using bddOr_disjunction [OF dd_ex_ok hp_ex(1,5)] by (simp add: sem_ex)

text \<open>
  \<^verbatim>\<open>Cudd_bddXor\<close> and \<^verbatim>\<open>Cudd_bddXnor\<close> return the diagrams of the exclusive or and of the equivalence.
\<close>

theorem bddXor_difference:
  assumes "dd_ok A s X {}" "hp s X f" "hp s X g"
  shows "yields (Cudd_bddXor s f g) (returns A s X (\<lambda>r s'. \<forall>a. sem s' r a = (sem s f a \<noteq> sem s g a)))
    \<and> yields (Cudd_bddXnor s f g) (returns A s X (\<lambda>r s'. \<forall>a. sem s' r a = (sem s f a = sem s g a)))"
  by (intro conjI; rule yields_returns [OF bddXor_spec(1) [OF assms, unfolded gets_def]] yields_returns [OF bddXor_spec(2) [OF assms, unfolded gets_def]]) simp_all

theorem bddXor_difference_witness:
  "yields (Cudd_bddXor dd_ex x0 x1) (returns UNIV dd_ex (\<lambda>_. 0) (\<lambda>r s'. \<forall>a. sem s' r a = (a 0 \<noteq> a 1)))"
  using bddXor_difference [OF dd_ex_ok hp_ex(1,2)] by (simp add: sem_ex)

text \<open>
  C14: \<^verbatim>\<open>Cudd_bddIte\<close>, with its terminal cases, its choice of a canonical triple and its early exit for a
  variable above the others, returns the diagram of if-then-else.
\<close>

theorem bddIte_choice:
  assumes "dd_ok A s X {}" "hp s X f" "hp s X g" "hp s X h"
  shows "yields (Cudd_bddIte s f g h) (returns A s X (\<lambda>r s'. in_heap s' r \<and> (\<forall>a. sem s' r a = (if sem s f a then sem s g a else sem s h a))))"
  by (rule yields_returns [OF bddIte_spec [OF assms, unfolded gets_def]]) simp

theorem bddIte_choice_witness:
  "yields (Cudd_bddIte dd_ex x0 x1 one_ex) (returns UNIV dd_ex (\<lambda>_. 0)
     (\<lambda>r s'. in_heap s' r \<and> (\<forall>a. sem s' r a = (if a 0 then a 1 else sem dd_ex one_ex a))))"
  using bddIte_choice [OF dd_ex_ok hp_ex(1,2,3), where A = UNIV] unfolding sem_ex .

text \<open>
  C30: \<^verbatim>\<open>Cudd_bddLeq\<close> decides implication without building a diagram: with one unit of fuel for every
  level and one for the constant it returns whether every assignment that satisfies \<^term>\<open>f\<close> satisfies \<^term>\<open>g\<close>.
\<close>

theorem bddLeq_decides:
  assumes "dd_ok A s X {}" "hp s X f" "hp s X g"
  shows "yields (Cudd_bddLeq (Suc (dd_size s)) s f g) (\<lambda>b s'. grows s s' \<and> dd_ok A s' X {} \<and> (b \<longleftrightarrow> (\<forall>a. sem s f a \<longrightarrow> sem s g a)))"
  using does_leq [OF assms, of 0 "Suc (dd_size s)"] by (simp add: decides_def [abs_def] del: Cudd_bddLeq.simps)

theorem bddLeq_decides_witness:
  "yields (Cudd_bddLeq 3 dd_ex x0 x1) (\<lambda>b s'. grows dd_ex s' \<and> dd_ok UNIV s' (\<lambda>_. 0) {} \<and> (b \<longleftrightarrow> (\<forall>a :: nat \<Rightarrow> bool. a 0 \<longrightarrow> a 1)))"
  using bddLeq_decides [OF dd_ex_ok hp_ex(1,2), where A = UNIV] unfolding sem_ex by (simp add: numeral_3_eq_3 del: Cudd_bddLeq.simps)

text \<open>
  Conjunction and its definition by if-then-else are the same diagram: run in either order, the two
  calls return the same pointer.
\<close>

theorem and_is_ite:
  assumes ok: "dd_ok A s X {}" and f: "hp s X f" and g: "hp s X g"
    and r: "Cudd_bddAnd s f g = Inr (r, s1)" "r \<noteq> 0" and q: "Cudd_bddIte s1 f g (DD_ZERO s1) = Inr (q, s2)" "q \<noteq> 0"
  shows "r = q"
proof -
  have r': "grows s s1" "dd_ok A s1 X {}" "in_heap s1 r" "\<And>a. sem s1 r a = (sem s f a \<and> sem s g a)"
    using yields_InrD [OF yields_returns [OF bddAnd_spec(1) [OF ok f g, unfolded gets_def]] r(1), of "\<lambda>r s'. in_heap s' r \<and> (\<forall>a. sem s' r a = (sem s f a \<and> sem s g a))"] r(2) by (simp_all add: returns_def)
  note n = dd_okD(1-3) [OF ok] and n1 = dd_okD(1-3) [OF r'(2)]
  have h: "hp s1 X f" "hp s1 X g" "hp s1 X (DD_ZERO s1)"
    using hp_mono [OF f r'(1) order_refl] hp_mono [OF g r'(1) order_refl] hp_zero [OF n1(1)] by simp_all
  have q': "grows s1 s2" "dd_ok A s2 X {}" "in_heap s2 q" "\<And>a. sem s2 q a = (if sem s1 f a then sem s1 g a else sem s1 (DD_ZERO s1) a)"
    using yields_InrD [OF yields_returns [OF bddIte_spec [OF r'(2) h, unfolded gets_def]] q(1), of "\<lambda>r s'. in_heap s' r \<and> (\<forall>a. sem s' r a = (if sem s1 f a then sem s1 g a else sem s1 (DD_ZERO s1) a))"] q(2) by (simp_all add: returns_def)
  have "sem s2 r = sem s2 q"
  proof (rule ext)
    fix a
    show "sem s2 r a = sem s2 q a"
      using grows_sem [OF q'(1) n1(1) r'(3)] q'(4) r'(4) grows_sem [OF r'(1) n(1) hp_in_heap [OF ok f]]
        grows_sem [OF r'(1) n(1) hp_in_heap [OF ok g]] sem_one(2) [OF n1(1)] by simp
  qed
  then show ?thesis using canonical [OF dd_okD(1-3) [OF q'(2)] grows_in_heap [OF q'(1) r'(3)] q'(3)] by blast
qed

lemma trivial_ex: "Cudd_bddAnd dd_ex x0 one_ex = Inr (x0, dd_ex)" "Cudd_bddIte dd_ex x0 one_ex (DD_ZERO dd_ex) = Inr (x0, dd_ex)"
proof -
  have r: "dd_ex\<lparr>reordered := 0\<rparr> = dd_ex" "reordered dd_ex = 0" by (simp_all add: dd_ex_def)
  show "Cudd_bddAnd dd_ex x0 one_ex = Inr (x0, dd_ex)"
    by (simp add: Cudd_bddAnd_def unless_reordered_def r)
  show "Cudd_bddIte dd_ex x0 one_ex (DD_ZERO dd_ex) = Inr (x0, dd_ex)"
    by (simp add: Cudd_bddIte_def unless_reordered_def r ite_terminal_def DD_ZERO_def)
qed

theorem and_is_ite_witness:
  "\<exists>r s1 q s2. Cudd_bddAnd dd_ex x0 one_ex = Inr (r, s1) \<and> Cudd_bddIte s1 x0 one_ex (DD_ZERO s1) = Inr (q, s2) \<and> r = q"
  using trivial_ex and_is_ite [OF dd_ex_ok hp_ex(1,3) trivial_ex(1) _ trivial_ex(2)] by simp

end
