(* ===== verification/Ldd_Ite.thy ===== *)
theory Ldd_Ite
  imports Cudd_Steps
begin

text \<open>
  The operations on linear decision diagrams (\<^verbatim>\<open>src/ahorn/extern/ldd/src/ldd/lddIte.c\<close>): diagrams whose
  variables stand for linear constraints, so that a test implied by the tests above it is left out.
  Each operation is proved to compute its function on the assignments the constraints allow, with
  every reference accounted for.  The theory of the constraints is an interface; TVPI constraints
  satisfy it.
\<close>

section \<open>Managers\<close>

text \<open>
  The fields of \<^verbatim>\<open>LddManager\<close> the operations read; the underlying \<^verbatim>\<open>DdManager\<close>, the only state they
  change, is passed next to it.  A constraint is a pointer of type \<^verbatim>\<open>lincons_t\<close>, here a parameter.
\<close>

record 'c LddManager =
  ddVars :: "'c list"
  is_stronger_cons :: "'c \<Rightarrow> 'c \<Rightarrow> bool res"

text \<open>Whether the constraint of one variable implies that of another.\<close>

definition stronger :: "'c LddManager \<Rightarrow> nat \<Rightarrow> nat \<Rightarrow> bool res" where
  "stronger ldd i j =
     rbind (idx (ddVars ldd) (int i)) (\<lambda>v. rbind (idx (ddVars ldd) (int j)) (\<lambda>c. is_stronger_cons ldd v c))"

definition bin_false :: "'c \<Rightarrow> 'c \<Rightarrow> bool res" where
  "bin_false l1 l2 = Inr False"

definition Ldd_SyntacticImplicationTheory :: "'c LddManager \<Rightarrow> 'c LddManager" where
  "Ldd_SyntacticImplicationTheory ldd = ldd\<lparr>is_stronger_cons := bin_false\<rparr>"

section \<open>The unique table\<close>

text \<open>The result survives the release of the variable.\<close>

definition keep :: "DdManager \<Rightarrow> ptr \<Rightarrow> ptr \<Rightarrow> (ptr \<times> DdManager) res" where
  "keep s v r =
     rbind (cuddRef s r) (\<lambda>s. rbind (Cudd_IterDerefBdd s v) (\<lambda>s. rbind (cuddDeref s r) (\<lambda>s. Inr (r, s))))"

text \<open>The test of the THEN child is left out when the variable implies it.\<close>

definition skip_then :: "'c LddManager \<Rightarrow> DdManager \<Rightarrow> nat \<Rightarrow> ptr \<Rightarrow> ptr res" where
  "skip_then ldd s v f =
     (if f \<noteq> dd_one s then
        rbind (node s f) (\<lambda>F. rbind (stronger ldd v (n_index F)) (\<lambda>b. Inr (if b then n_T F else f)))
      else Inr f)"

text \<open>The node is left out when its ELSE child has the same THEN child under a weaker test.\<close>

definition subsumed :: "'c LddManager \<Rightarrow> DdManager \<Rightarrow> nat \<Rightarrow> ptr \<Rightarrow> ptr \<Rightarrow> bool res" where
  "subsumed ldd s v f g =
     (if Cudd_Regular g \<noteq> dd_one s \<and> g = Cudd_Regular g then
        rbind (node s g) (\<lambda>G. if f = n_T G then stronger ldd v (n_index G) else Inr False)
      else Inr False)"

definition lddUniqueInter :: "'c LddManager \<Rightarrow> DdManager \<Rightarrow> nat \<Rightarrow> ptr \<Rightarrow> ptr \<Rightarrow> (ptr \<times> DdManager) res" where
  "lddUniqueInter ldd s index f g =
     rassert (f \<noteq> g) (rassert (f = Cudd_Regular f)
       (rbind (Cudd_bddIthVar s index) (\<lambda>(v, s).
          if v = 0 then Inr (0, s)
          else if f = Cudd_Regular g \<and> Cudd_Regular g = dd_one s then Inr (v, s)
          else
            rbind (cuddRef s v) (\<lambda>s.
            rbind (node s v) (\<lambda>V.
            rbind (skip_then ldd s (n_index V) f) (\<lambda>f.
              if f = g then keep s v f
              else
                rbind (subsumed ldd s (n_index V) f g) (\<lambda>b.
                  if b then keep s v g
                  else
                    rbind (cuddUniqueInter s index f g) (\<lambda>(res, s).
                      if res = 0 then rbind (Cudd_IterDerefBdd s v) (\<lambda>s. Inr (0, s))
                      else keep s v res))))))))"

section \<open>Cofactors\<close>

text \<open>
  The cofactors of the package, where the operand that is not at the root loses its own test if the
  test of the root implies it.
\<close>

definition implied_then :: "'c LddManager \<Rightarrow> DdManager \<Rightarrow> nat \<Rightarrow> ptr \<Rightarrow> ptr res" where
  "implied_then ldd s index f =
     rbind (node s (Cudd_Regular f)) (\<lambda>F. rbind (stronger ldd index (n_index F)) (\<lambda>b.
       Inr (if b then (if Cudd_IsComplement f then Cudd_Not (n_T F) else n_T F) else f)))"

definition ldd_cofactors2 :: "'c LddManager \<Rightarrow> DdManager \<Rightarrow> ptr \<Rightarrow> ptr \<Rightarrow> (nat \<times> (ptr \<times> ptr) \<times> (ptr \<times> ptr)) res" where
  "ldd_cofactors2 ldd s f g =
     rbind (cofactors2 s f g) (\<lambda>(index, (fv, fnv), (gv, gnv)).
       if gv = g then rbind (implied_then ldd s index g) (\<lambda>gv. Inr (index, (fv, fnv), (gv, gnv)))
       else if fv = f then rbind (implied_then ldd s index f) (\<lambda>fv. Inr (index, (fv, fnv), (gv, gnv)))
       else Inr (index, (fv, fnv), (gv, gnv)))"

definition ldd_cofactors3 :: "'c LddManager \<Rightarrow> DdManager \<Rightarrow> ptr \<Rightarrow> ptr \<Rightarrow> ptr \<Rightarrow> nat \<Rightarrow> nat \<Rightarrow> nat \<Rightarrow>
    (nat \<times> (ptr \<times> ptr) \<times> (ptr \<times> ptr) \<times> (ptr \<times> ptr)) res" where
  "ldd_cofactors3 ldd s f g h topf topg toph =
     rbind (cofactors3 s f g h topf topg toph) (\<lambda>(index, (Fv, Fnv), (Gv, Gnv), (Hv, Hnv)).
       rbind (if Fv = f then implied_then ldd s index f else Inr Fv) (\<lambda>Fv.
       rbind (if Gv = g then implied_then ldd s index g else Inr Gv) (\<lambda>Gv.
       rbind (if Hv = h then implied_then ldd s index h else Inr Hv) (\<lambda>Hv.
         Inr (index, (Fv, Fnv), (Gv, Gnv), (Hv, Hnv))))))"

section \<open>The recursive operations\<close>

fun lddAndRecur :: "'c LddManager \<Rightarrow> nat \<Rightarrow> DdManager \<Rightarrow> ptr \<Rightarrow> ptr \<Rightarrow> (ptr \<times> DdManager) res" where
  "lddAndRecur ldd 0 s f g = Inl Out_Of_Fuel"
| "lddAndRecur ldd (Suc n) s f g =
     (if Cudd_Regular f = Cudd_Regular g then Inr (if f = g then f else DD_ZERO s, s)
      else if Cudd_Regular f = dd_one s then Inr (if f = dd_one s then g else f, s)
      else if Cudd_Regular g = dd_one s then Inr (if g = dd_one s then f else g, s)
      else
        (let (f, g) = (if g < f then (g, f) else (f, g)) in
         rbind (shared s f g) (\<lambda>sh.
         rbind (if sh then cuddCacheLookup2 s Op_Ldd_And f g else Inr (0, s)) (\<lambda>(r, s).
           if r \<noteq> 0 then Inr (r, s)
           else
             rbind (ldd_cofactors2 ldd s f g) (\<lambda>(index, (fv, fnv), (gv, gnv)).
               run_branches (\<lambda>s. lddAndRecur ldd n s fv gv) (\<lambda>s. lddAndRecur ldd n s fnv gnv)
                 (join_ldd (make_pushed (lddUniqueInter ldd)) index (save_if_shared Op_Ldd_And f g)) s)))))"

fun lddXorRecur :: "'c LddManager \<Rightarrow> nat \<Rightarrow> DdManager \<Rightarrow> ptr \<Rightarrow> ptr \<Rightarrow> (ptr \<times> DdManager) res" where
  "lddXorRecur ldd 0 s f g = Inl Out_Of_Fuel"
| "lddXorRecur ldd (Suc n) s f g =
     (if f = g then Inr (DD_ZERO s, s)
      else if f = Cudd_Not g then Inr (dd_one s, s)
      else
        (let (f, g) = (if g < f then (g, f) else (f, g)) in
         if g = DD_ZERO s then Inr (f, s)
         else if g = dd_one s then Inr (Cudd_Not f, s)
         else
           (let (f, g) = (if Cudd_IsComplement f then (Cudd_Not f, Cudd_Not g) else (f, g)) in
            if f = dd_one s then Inr (Cudd_Not g, s)
            else
              rbind (cuddCacheLookup2 s Op_Ldd_Xor f g) (\<lambda>(r, s).
                if r \<noteq> 0 then Inr (r, s)
                else
                  rbind (ldd_cofactors2 ldd s f g) (\<lambda>(index, (fv, fnv), (gv, gnv)).
                    run_branches (\<lambda>s. lddXorRecur ldd n s fv gv) (\<lambda>s. lddXorRecur ldd n s fnv gnv)
                      (join_ldd (make_pushed (lddUniqueInter ldd)) index (save_if_shared Op_Ldd_Xor f g)) s)))))"

fun lddIteRecur :: "'c LddManager \<Rightarrow> nat \<Rightarrow> DdManager \<Rightarrow> ptr \<Rightarrow> ptr \<Rightarrow> ptr \<Rightarrow> (ptr \<times> DdManager) res" where
  "lddIteRecur ldd 0 s f g h = Inl Out_Of_Fuel"
| "lddIteRecur ldd (Suc n) s f g h =
     ite_terminal (lddAndRecur ldd (Suc n)) (lddXorRecur ldd (Suc n)) s f g h
       (rbind (bddVarToCanonicalSimple s f g h) (\<lambda>(comple, (f, g, h), (topf, topg, toph)).
          complemented comple
            (rbind (node s f) (\<lambda>F.
               if topf < ddMin topg toph \<and> n_T F = dd_one s \<and> n_E F = Cudd_Not (dd_one s)
               then lddUniqueInter ldd s (n_index F) g h
               else
                 rbind (cuddCacheLookup s DD_LDD_ITE_TAG f g h) (\<lambda>(r, s).
                   if r \<noteq> 0 then Inr (r, s)
                   else
                     rbind (ldd_cofactors3 ldd s f g h topf topg toph) (\<lambda>(index, (Fv, Fnv), (Gv, Gnv), (Hv, Hnv)).
                       run_branches (\<lambda>s. lddIteRecur ldd n s Fv Gv Hv) (\<lambda>s. lddIteRecur ldd n s Fnv Gnv Hnv)
                         (join_ldd (make_asserted (lddUniqueInter ldd)) index (\<lambda>s. cuddCacheInsert s DD_LDD_ITE_TAG f g h)) s))))))"

section \<open>The theory of the constraints\<close>

text \<open>
  What the operations rely on (\<^verbatim>\<open>ldd.h\<close>): the test of two constraints answers, and when it says that
  one is stronger, every valuation that satisfies it satisfies the other.
\<close>

locale constraint_theory =
  fixes is_stronger :: "'c \<Rightarrow> 'c \<Rightarrow> bool res" and wf :: "'c \<Rightarrow> bool" and sat :: "'e \<Rightarrow> 'c \<Rightarrow> bool"
  assumes is_stronger_sound: "wf c \<Longrightarrow> wf d \<Longrightarrow> \<exists>b. is_stronger c d = Inr b \<and> (b \<longrightarrow> (\<forall>env. sat env c \<longrightarrow> sat env d))"

text \<open>The assignments that respect the implications the theory reports.\<close>

definition consistent :: "'c LddManager \<Rightarrow> nat \<Rightarrow> (nat \<Rightarrow> bool) set" where
  "consistent ldd N = {a. \<forall>i < N. \<forall>j < N. stronger ldd i j = Inr True \<longrightarrow> a i \<longrightarrow> a j}"

lemma all_true_consistent: "(\<lambda>_. True) \<in> consistent ldd N"
  by (simp add: consistent_def)

text \<open>The assignment of a valuation: which constraints it satisfies.\<close>

definition assignment :: "('e \<Rightarrow> 'c \<Rightarrow> bool) \<Rightarrow> 'c LddManager \<Rightarrow> 'e \<Rightarrow> nat \<Rightarrow> bool" where
  "assignment sat ldd env i = sat env (ddVars ldd ! i)"

locale ldd_manager = constraint_theory "is_stronger_cons ldd" wf sat
  for ldd :: "'c LddManager" and wf :: "'c \<Rightarrow> bool" and sat :: "'e \<Rightarrow> 'c \<Rightarrow> bool" +
  fixes N :: nat
  assumes size: "N \<le> length (ddVars ldd)" and wf: "c \<in> set (take N (ddVars ldd)) \<Longrightarrow> wf c"
begin

lemma stronger_run:
  assumes "i < N" "j < N"
  shows "\<exists>b. stronger ldd i j = Inr b \<and> (b \<longrightarrow> (\<forall>env. sat env (ddVars ldd ! i) \<longrightarrow> sat env (ddVars ldd ! j)))"
proof -
  have "wf (ddVars ldd ! k)" if "k < N" for k
  proof (rule wf)
    have "take N (ddVars ldd) ! k = ddVars ldd ! k" "k < length (take N (ddVars ldd))" using that size by simp_all
    then show "ddVars ldd ! k \<in> set (take N (ddVars ldd))" using nth_mem by metis
  qed
  from is_stronger_sound [OF this [OF assms(1)] this [OF assms(2)]] show ?thesis
    using assms size by (simp add: stronger_def)
qed

lemma assignment_consistent: "assignment sat ldd env \<in> consistent ldd N"
  unfolding consistent_def assignment_def using stronger_run by fastforce

abbreviation "A \<equiv> consistent ldd N"

lemma implied_then_spec:
  assumes ok: "dd_ok A s X F" and sz: "dd_size s \<le> N" and i: "index < dd_size s"
    and f: "hp s X f" "Cudd_Regular f \<noteq> dd_one s" "dd_perm s ! index < lev s f"
  shows "\<exists>c. implied_then ldd s index f = Inr c \<and> hp s X c \<and> dd_perm s ! index < lev s c
     \<and> (\<forall>a \<in> A. a index \<longrightarrow> sem s c a = sem s f a) \<and> (\<not> Cudd_IsComplement f \<longrightarrow> \<not> Cudd_IsComplement c)"
proof -
  obtain n where n: "node s (Cudd_Regular f) = Inr n" "n_index n < dd_size s" "dd_perm s ! n_index n = lev s f"
      "shape s (Cudd_Regular f) = Some (n_index n, n_T n, n_E n)" "cof A s X (n_index n) f (fst (kids n f)) (snd (kids n f))"
    using hp_node [OF ok f(1,2)] by blast
  obtain b where b: "stronger ldd index (n_index n) = Inr b" using stronger_run [of index "n_index n"] i n(2) sz by fastforce
  have run: "implied_then ldd s index f = Inr (if b then fst (kids n f) else f)"
    by (simp add: implied_then_def n(1) b kids_def)
  have T: "\<not> Cudd_IsComplement (n_T n)" by (rule nodes_okD(5) [OF dd_okD(1) [OF ok] n(4) f(2)])
  show ?thesis
  proof (cases b)
    case True
    have "a (n_index n)" if "a \<in> A" "a index" for a
    proof -
      have "index < N" "n_index n < N" using i n(2) sz by simp_all
      moreover have "\<forall>i < N. \<forall>j < N. stronger ldd i j = Inr True \<longrightarrow> a i \<longrightarrow> a j" using that(1) by (simp add: consistent_def)
      ultimately show ?thesis using that(2) b True by simp
    qed
    then have "sem s (fst (kids n f)) a = sem s f a" if "a \<in> A" "a index" for a
      using n(5) that unfolding cof_def by metis
    moreover have "hp s X (fst (kids n f))" "dd_perm s ! index < lev s (fst (kids n f))"
      using n(3,5) f(3) unfolding cof_def by simp_all
    moreover have "\<not> Cudd_IsComplement f \<longrightarrow> \<not> Cudd_IsComplement (fst (kids n f))" using T by (simp add: kids_def)
    ultimately show ?thesis unfolding run if_P [OF True] by blast
  qed (use run f in auto)
qed

lemma cof_implied:
  assumes ok: "dd_ok A s X F" and sz: "dd_size s \<le> N" and i: "index < dd_size s"
    and c: "cof A s X index g g gn" and g: "hp s X g" "Cudd_Regular g \<noteq> dd_one s"
  shows "\<exists>c. implied_then ldd s index g = Inr c \<and> cof A s X index g c gn"
proof -
  have "dd_perm s ! index < lev s g" using c by (simp add: cof_def)
  then obtain c where r: "implied_then ldd s index g = Inr c" "hp s X c" "dd_perm s ! index < lev s c"
      "\<forall>a \<in> A. a index \<longrightarrow> sem s c a = sem s g a"
    using implied_then_spec [OF ok sz i g] by blast
  have "cof A s X index g c gn" unfolding cof_def
  proof (intro conjI ballI)
    fix a assume "a \<in> A"
    then have "sem s g a = (if a index then sem s g a else sem s gn a)" "a index \<longrightarrow> sem s c a = sem s g a"
      using c r(4) unfolding cof_def by blast+
    then show "sem s g a = (if a index then sem s c a else sem s gn a)" by argo
  qed (use c r in \<open>simp_all add: cof_def\<close>)
  then show ?thesis using r(1) by blast
qed

lemma ldd_cofactors2_spec:
  assumes ok: "dd_ok A s X F" and sz: "dd_size s \<le> N" and f: "hp s X f" "Cudd_Regular f \<noteq> dd_one s" and g: "hp s X g" "Cudd_Regular g \<noteq> dd_one s"
  shows "\<exists>index fv fnv gv gnv. ldd_cofactors2 ldd s f g = Inr (index, (fv, fnv), (gv, gnv)) \<and> index < dd_size s
     \<and> dd_perm s ! index = min (lev s f) (lev s g) \<and> cof A s X index f fv fnv \<and> cof A s X index g gv gnv"
proof -
  obtain index fv fnv gv gnv where c: "cofactors2 s f g = Inr (index, (fv, fnv), (gv, gnv))" "index < dd_size s"
      "dd_perm s ! index = min (lev s f) (lev s g)" "cof A s X index f fv fnv" "cof A s X index g gv gnv"
    using cofactors2_spec [OF ok f g] by blast
  show ?thesis
  proof (cases "gv = g")
    case True
    then obtain gv' where "implied_then ldd s index g = Inr gv'" "cof A s X index g gv' gnv"
      using cof_implied [OF ok sz c(2) _ g] c(5) by blast
    then show ?thesis using c True by (simp add: ldd_cofactors2_def)
  next
    case g': False
    show ?thesis
    proof (cases "fv = f")
      case True
      then obtain fv' where "implied_then ldd s index f = Inr fv'" "cof A s X index f fv' fnv"
        using cof_implied [OF ok sz c(2) _ f] c(4) by blast
      then show ?thesis using c True g' by (simp add: ldd_cofactors2_def)
    qed (use c g' in \<open>simp add: ldd_cofactors2_def\<close>)
  qed
qed

lemma ldd_cofactors3_spec:
  assumes ok: "dd_ok A s X F" and sz: "dd_size s \<le> N" and f: "hp s X f" "Cudd_Regular f \<noteq> dd_one s" "\<not> Cudd_IsComplement f"
    and g: "hp s X g" "Cudd_Regular g \<noteq> dd_one s" "\<not> Cudd_IsComplement g" and h: "hp s X h" "Cudd_Regular h \<noteq> dd_one s"
  shows "\<exists>index Fv Fnv Gv Gnv Hv Hnv. ldd_cofactors3 ldd s f g h (lev s f) (lev s g) (lev s h) = Inr (index, (Fv, Fnv), (Gv, Gnv), (Hv, Hnv))
     \<and> index < dd_size s \<and> dd_perm s ! index = min (lev s f) (min (lev s g) (lev s h))
     \<and> cof A s X index f Fv Fnv \<and> cof A s X index g Gv Gnv \<and> cof A s X index h Hv Hnv"
proof -
  obtain index Fv Fnv Gv Gnv Hv Hnv where c: "cofactors3 s f g h (lev s f) (lev s g) (lev s h) = Inr (index, (Fv, Fnv), (Gv, Gnv), (Hv, Hnv))"
      "index < dd_size s" "dd_perm s ! index = min (lev s f) (min (lev s g) (lev s h))"
      "cof A s X index f Fv Fnv" "cof A s X index g Gv Gnv" "cof A s X index h Hv Hnv"
    using cofactors3_spec [OF ok f g h, of A] by blast
  have one: "\<exists>c. (if pv = p then implied_then ldd s index p else Inr pv) = Inr c \<and> cof A s X index p c pn"
    if "cof A s X index p pv pn" "hp s X p" "Cudd_Regular p \<noteq> dd_one s" for p pv pn
    using cof_implied [OF ok sz c(2) _ that(2,3)] that(1) by (cases "pv = p") auto
  obtain F' where F': "(if Fv = f then implied_then ldd s index f else Inr Fv) = Inr F'" "cof A s X index f F' Fnv"
    using one [OF c(4) f(1,2)] by blast
  obtain G' where G': "(if Gv = g then implied_then ldd s index g else Inr Gv) = Inr G'" "cof A s X index g G' Gnv"
    using one [OF c(5) g(1,2)] by blast
  obtain H' where H': "(if Hv = h then implied_then ldd s index h else Inr Hv) = Inr H'" "cof A s X index h H' Hnv"
    using one [OF c(6) h] by blast
  have "ldd_cofactors3 ldd s f g h (lev s f) (lev s g) (lev s h) = Inr (index, (F', Fnv), (G', Gnv), (H', Hnv))"
    unfolding ldd_cofactors3_def c(1) rbind_Inr prod.case F'(1) G'(1) H'(1) by (rule refl)
  then show ?thesis using c(2,3) F'(2) G'(2) H'(2) by blast
qed

end

lemma keep_spec:
  assumes ok: "dd_ok A s (add_ref X v) F" and r: "Cudd_Regular r \<in> F \<or> hp s (add_ref X v) r" and d: "denotes B l h r s"
  shows "yields (keep s v r) (gives A s X (denotes B l h))"
proof -
  have swap: "add_ref (add_ref X v) r = add_ref (add_ref X r) v" by (simp add: add_ref_def fun_eq_iff)
  have r0: "r \<noteq> 0" using in_heap_nonzero [OF dd_okD(1) [OF ok]] d by (auto simp: denotes_def)
  obtain s1 where s1: "cuddRef s r = Inr s1" "refs_only s s1" "dd_ok A s1 (add_ref (add_ref X r) v) {}"
    using cuddRef_spec [OF ok, of r] r unfolding hp_def swap by blast
  obtain s2 where s2: "Cudd_IterDerefBdd s1 v = Inr s2" "refs_only s1 s2" "dd_ok A s2 (add_ref X r) {}"
    using iterDeref_spec [OF s1(3)] by blast
  obtain s3 where s3: "cuddDeref s2 r = Inr s3" "refs_only s2 s3" "dd_ok A s3 X {Cudd_Regular r}"
    using cuddDeref_spec [OF s2(3)] by blast
  note same = refs_only_trans [OF refs_only_trans [OF s1(2) s2(2)] s3(2)]
  show ?thesis using s1(1) s2(1) s3(1,3) denotes_same [OF d refs_only_same(1) [OF same]] refs_only_grows [OF same] r0
    by (simp add: keep_def gives_def)
qed

context ldd_manager begin

text \<open>
  The constructor of nodes of linear decision diagrams is a constructor on the consistent assignments.
\<close>

lemma skip_then_spec:
  assumes ok: "dd_ok A s X F" and sz: "dd_size s \<le> N" and i: "index < dd_size s"
    and f: "hp s X f" "\<not> Cudd_IsComplement f" "dd_perm s ! index < lev s f"
  shows "\<exists>c. skip_then ldd s index f = Inr c \<and> hp s X c \<and> dd_perm s ! index < lev s c
     \<and> (\<forall>a \<in> A. a index \<longrightarrow> sem s c a = sem s f a) \<and> \<not> Cudd_IsComplement c"
proof (cases "f = dd_one s")
  case False
  then have "Cudd_Regular f \<noteq> dd_one s" using f(2) by simp
  moreover have "skip_then ldd s index f = implied_then ldd s index f"
    unfolding skip_then_def implied_then_def Cudd_Regular_id [OF f(2)] if_not_P [OF f(2)] using False by simp
  ultimately show ?thesis using implied_then_spec [OF ok sz i f(1) _ f(3)] f(2) by auto
qed (use f in \<open>simp add: skip_then_def\<close>)

lemma subsumed_spec:
  assumes ok: "dd_ok A s X F" and sz: "dd_size s \<le> N" and i: "index < dd_size s" and g: "hp s X g"
  shows "\<exists>b. subsumed ldd s index f g = Inr b \<and> (b \<longrightarrow> (\<forall>a \<in> A. sem s g a = (if a index then sem s f a else sem s g a)))"
proof (cases "Cudd_Regular g \<noteq> dd_one s \<and> g = Cudd_Regular g")
  case True
  obtain n where n: "node s (Cudd_Regular g) = Inr n" "n_index n < dd_size s" "cof A s X (n_index n) g (fst (kids n g)) (snd (kids n g))"
    using hp_node [OF ok g] True by blast
  obtain b where b: "stronger ldd index (n_index n) = Inr b" using stronger_run [of index "n_index n"] i n(2) sz by fastforce
  have "\<not> Cudd_IsComplement g" using True Cudd_IsComplement_Regular by metis
  then have k: "fst (kids n g) = n_T n" by (simp add: kids_def)
  have run: "subsumed ldd s index f g = Inr (f = n_T n \<and> b)" using True n(1) b Cudd_Regular_id [OF \<open>\<not> Cudd_IsComplement g\<close>]
    by (simp add: subsumed_def)
  have "sem s g a = (if a index then sem s f a else sem s g a)" if f: "f = n_T n" "b" and a: "a \<in> A" for a
  proof -
    have "index < N" "n_index n < N" using i n(2) sz by simp_all
    moreover have "\<forall>i < N. \<forall>j < N. stronger ldd i j = Inr True \<longrightarrow> a i \<longrightarrow> a j" using a by (simp add: consistent_def)
    ultimately have "a index \<longrightarrow> a (n_index n)" using b f(2) by simp
    moreover have "a (n_index n) \<longrightarrow> sem s g a = sem s (n_T n) a" using n(3) a k unfolding cof_def by metis
    ultimately show ?thesis using f(1) by simp
  qed
  then show ?thesis using run by blast
next
  case False
  then have "subsumed ldd s index f g = Inr False" unfolding subsumed_def by (rule if_not_P)
  then show ?thesis by blast
qed

lemma lddUniqueInter_spec:
  assumes ok: "dd_ok A s X {}" and sz: "dd_size s \<le> N" and a: "node_args s index f g" and f: "hp s X f" and g: "hp s X g"
  shows "yields (lddUniqueInter ldd s index f g) (gives A s X (denotes A (dd_perm s ! index) (\<lambda>a. if a index then sem s f a else sem s g a)))"
proof -
  let ?h = "\<lambda>a. if a index then sem s f a else sem s g a" and ?l = "dd_perm s ! index"
  let ?Q = "gives A s X (denotes A ?l ?h)"
  note n = dd_okD(1,2) [OF ok]
  have i: "index < dd_size s" "f \<noteq> g" "\<not> Cudd_IsComplement f" "?l < lev s f" "?l < lev s g"
    using a unfolding node_args_def lev_def [symmetric] by simp_all
  let ?v = "dd_vars s ! index"
  note v = Cudd_bddIthVar_spec [OF ok i(1)]
  have vreg: "Cudd_Regular ?v = ?v" "?v \<noteq> 0" "?v \<noteq> dd_one s"
    using regular_of_aligned [OF nodes_okD(2) [OF n(1) v(2)]] nodes_okD(1,3) [OF n(1) v(2)] i(1) n(2) by (auto simp: vars_ok_def)
  have hv: "hp s X ?v" using v(3) vreg(1) by (simp add: hp_def)
  note one = one_in_heap(2) [OF n(1)]
  let ?rest = "rbind (cuddRef s ?v) (\<lambda>s. rbind (node s ?v) (\<lambda>V. rbind (skip_then ldd s (n_index V) f) (\<lambda>f.
              if f = g then keep s ?v f
              else rbind (subsumed ldd s (n_index V) f g) (\<lambda>b. if b then keep s ?v g
                  else rbind (cuddUniqueInter s index f g) (\<lambda>(res, s).
                      if res = 0 then rbind (Cudd_IterDerefBdd s ?v) (\<lambda>s. Inr (0, s)) else keep s ?v res)))))"
  have run: "lddUniqueInter ldd s index f g = (if f = Cudd_Regular g \<and> Cudd_Regular g = dd_one s then Inr (?v, s) else ?rest)"
    using i(2,3) vreg(2) by (simp add: lddUniqueInter_def v(1))
  show ?thesis
  proof (cases "f = Cudd_Regular g \<and> Cudd_Regular g = dd_one s")
    case True
    then have gz: "g = DD_ZERO s" "f = dd_one s" using i(2) regular_cases [OF _ one, of g] by (auto simp: DD_ZERO_def)
    have "sem s ?v a = ?h a" for a
      using sem_node [OF n, of ?v] v(2) vreg(1,3) regular_of_aligned [OF nodes_okD(2) [OF n(1) v(2)]]
      by (simp add: gz) (simp add: DD_ZERO_def)
    moreover have "lev s ?v = ?l" using level_of_node [OF n(1) v(2) vreg(3)] vreg(1) by (simp add: lev_def)
    ultimately have "yields (Inr (?v, s)) ?Q" by (intro gives_self [OF ok hv]) simp_all
    then show ?thesis using True run by simp
  next
    case False
    obtain s1 where s1: "cuddRef s ?v = Inr s1" "refs_only s s1" "dd_ok A s1 (add_ref X ?v) {}"
      using cuddRef_spec [OF ok, of ?v] v(3) vreg(1) by auto
    note g1 = refs_only_grows [OF s1(2)]
    note sm = refs_only_same(1) [OF s1(2)]
    have eq: "dd_size s1 = dd_size s" "dd_perm s1 = dd_perm s" "lev s1 = lev s" "sem s1 = sem s" "in_heap s1 = in_heap s"
      using grows_perm [OF g1] same_nodes_sem [OF sm] same_nodes_level [OF sm] same_nodes_in_heap [OF sm] by (auto simp: lev_def fun_eq_iff)
    have h1: "hp s1 (add_ref X ?v) f" "hp s1 (add_ref X ?v) g"
      using hp_mono [OF f g1] hp_mono [OF g g1] by (simp_all add: add_ref_def)
    obtain V where V: "node s1 ?v = Inr V" "n_index V = index"
    proof -
      have "shape s1 ?v = Some (index, dd_one s, Cudd_Not (dd_one s))" using grows_shape [OF g1 v(2)] .
      then show ?thesis using that by (auto simp: shape_def node_shape_def node_def split: option.splits)
    qed
    obtain f' where f': "skip_then ldd s1 index f = Inr f'" "hp s1 (add_ref X ?v) f'" "?l < lev s1 f'"
        "\<forall>a \<in> A. a index \<longrightarrow> sem s1 f' a = sem s1 f a" "\<not> Cudd_IsComplement f'"
      using skip_then_spec [OF s1(3), of index f] sz i h1(1) unfolding eq by blast
    obtain b where b: "subsumed ldd s1 index f' g = Inr b" "b \<longrightarrow> (\<forall>a \<in> A. sem s1 g a = (if a index then sem s1 f' a else sem s1 g a))"
      using subsumed_spec [OF s1(3), of index g f'] sz i(1) h1(2) unfolding eq by blast
    have inh: "in_heap s1 f'" "in_heap s1 g" using hp_in_heap [OF s1(3) f'(2)] hp_in_heap [OF s1(3) h1(2)] by simp_all
    have after: "yields m (gives A s1 X (denotes A ?l ?h)) \<Longrightarrow> yields m ?Q" for m
      by (erule yields_weaken, rule gives_after [OF g1])
    have "yields (if f' = g then keep s1 ?v f' else if b then keep s1 ?v g
         else rbind (cuddUniqueInter s1 index f' g) (\<lambda>(res, s). if res = 0 then rbind (Cudd_IterDerefBdd s ?v) (\<lambda>s. Inr (0, s)) else keep s ?v res)) ?Q"
    proof (cases "f' = g \<or> b")
      case True
      have "\<forall>a \<in> A. sem s1 g a = ?h a"
        using True b(2) f'(4) unfolding eq by auto
      then have d: "denotes A ?l ?h g s1" using inh(2) i(5) unfolding denotes_def eq by simp
      have "yields (keep s1 ?v g) ?Q" using after keep_spec [OF s1(3) _ d] h1(2) by blast
      then show ?thesis using True by auto
    next
      case False
      have a1: "node_args s1 index f' g"
        using i inh f'(3,5) False unfolding node_args_def lev_def [symmetric] eq by simp
      have "yields (rbind (cuddUniqueInter s1 index f' g) (\<lambda>(res, s). if res = 0 then rbind (Cudd_IterDerefBdd s ?v) (\<lambda>s. Inr (0, s)) else keep s ?v res)) ?Q"
      proof (rule yields_bind [OF bdd.mk_spec [OF s1(3) _ a1 f'(2) h1(2)]], rule order_refl, clarify)
        fix r s2
        assume g2: "gives A s1 (add_ref X ?v) (denotes UNIV (dd_perm s1 ! index) (\<lambda>a. if a index then sem s1 f' a else sem s1 g a)) r s2"
        then have gr: "grows s s2" using grows_trans [OF g1] by (auto simp: gives_def)
        show "yields (if r = 0 then rbind (Cudd_IterDerefBdd s2 ?v) (\<lambda>s. Inr (0, s)) else keep s2 ?v r) ?Q"
        proof (cases "r = 0")
          case True
          then have "dd_ok A s2 (add_ref X ?v) {}" using g2 by (simp add: gives_def)
          then obtain s3 where "Cudd_IterDerefBdd s2 ?v = Inr s3" "refs_only s2 s3" "dd_ok A s3 X {}" using iterDeref_spec by blast
          then show ?thesis using True grows_trans [OF gr refs_only_grows] by (simp add: gives_def)
        next
          case False
          then have r: "dd_ok A s2 (add_ref X ?v) {Cudd_Regular r}" "in_heap s2 r" "?l \<le> lev s2 r"
              "\<forall>a. sem s2 r a = (if a index then sem s1 f' a else sem s1 g a)"
            using g2 by (simp_all add: gives_def denotes_def eq)
          then have "denotes A ?l ?h r s2" using f'(4) unfolding denotes_def eq by simp
          then have "yields (keep s2 ?v r) (gives A s2 X (denotes A ?l ?h))" by (intro keep_spec [OF r(1)]) simp_all
          then have "yields (keep s2 ?v r) ?Q" by (rule yields_weaken) (rule gives_after [OF gr])
          then show ?thesis using False by simp
        qed
      qed
      then show ?thesis using False by simp
    qed
    then have "yields ?rest ?Q" unfolding s1(1) rbind_Inr V f'(1) b(1) .
    then show ?thesis unfolding run if_not_P [OF False] .
  qed
qed

end

sublocale ldd_manager < maker: node_maker "consistent ldd N" "consistent ldd N" N "lddUniqueInter ldd"
  by unfold_locales (rule lddUniqueInter_spec)

section \<open>The operations\<close>

definition Ldd_And :: "'c LddManager \<Rightarrow> DdManager \<Rightarrow> ptr \<Rightarrow> ptr \<Rightarrow> (ptr \<times> DdManager) res" where
  "Ldd_And ldd s f g = unless_reordered s (\<lambda>s. lddAndRecur ldd (Suc (dd_size s)) s f g)"

definition Ldd_Or :: "'c LddManager \<Rightarrow> DdManager \<Rightarrow> ptr \<Rightarrow> ptr \<Rightarrow> (ptr \<times> DdManager) res" where
  "Ldd_Or ldd s f g =
     negated (unless_reordered s (\<lambda>s. lddAndRecur ldd (Suc (dd_size s)) s (Cudd_Not f) (Cudd_Not g)))"

definition Ldd_Xor :: "'c LddManager \<Rightarrow> DdManager \<Rightarrow> ptr \<Rightarrow> ptr \<Rightarrow> (ptr \<times> DdManager) res" where
  "Ldd_Xor ldd s f g = unless_reordered s (\<lambda>s. lddXorRecur ldd (Suc (dd_size s)) s f g)"

definition Ldd_Ite :: "'c LddManager \<Rightarrow> DdManager \<Rightarrow> ptr \<Rightarrow> ptr \<Rightarrow> ptr \<Rightarrow> (ptr \<times> DdManager) res" where
  "Ldd_Ite ldd s f g h = unless_reordered s (\<lambda>s. lddIteRecur ldd (Suc (dd_size s)) s f g h)"

lemma ldd_ops: "op_is A A Op_Ldd_And (\<and>)" "op_is A A Op_Ldd_Xor (\<noteq>)"
  by (simp_all add: op_is_def)

context ldd_manager begin

lemma ldd_cofs: "cofs2_ok A A N (ldd_cofactors2 ldd)" "cofs3_ok A A N (ldd_cofactors3 ldd)"
  unfolding cofs2_ok_def cofs3_ok_def by (intro allI impI; rule ldd_cofactors2_spec ldd_cofactors3_spec; assumption)+

lemma does_ldd_and: "does A A N (\<and>) (lddAndRecur ldd n) n"
proof (induction n)
  case (Suc n)
  have "lddAndRecur ldd (Suc n) = and_body Op_Ldd_And (ldd_cofactors2 ldd) (lddAndRecur ldd n) (join_ldd (make_pushed (lddUniqueInter ldd)))"
    by (intro ext) (simp only: lddAndRecur.simps and_body_def)
  then show ?case using maker.and_step [OF Suc ldd_ops(1) ldd_cofs(1)] by simp
qed (use does_0(1) in simp)

lemma does_ldd_xor: "does A A N (\<noteq>) (lddXorRecur ldd n) n"
proof (induction n)
  case (Suc n)
  have "lddXorRecur ldd (Suc n) = xor_body Op_Ldd_Xor (ldd_cofactors2 ldd) (lddXorRecur ldd n) (join_ldd (make_pushed (lddUniqueInter ldd)))
      (save_if_shared Op_Ldd_Xor)"
    by (intro ext) (simp only: lddXorRecur.simps xor_body_def)
  then show ?case using maker.xor_step [OF Suc ldd_ops(2) ldd_cofs(1)] by simp
qed (use does_0(1) in simp)

lemma does_ldd_ite: "does3 A A N (lddIteRecur ldd n) n"
proof (induction n)
  case (Suc n)
  have "lddIteRecur ldd (Suc n) = ite_body DD_LDD_ITE_TAG (lddAndRecur ldd (Suc n)) (lddXorRecur ldd (Suc n)) (ldd_cofactors3 ldd)
      (lddIteRecur ldd n) (lddUniqueInter ldd) (join_ldd (make_asserted (lddUniqueInter ldd)))"
    by (intro ext) (simp only: lddIteRecur.simps ite_body_def)
  then show ?case using maker.ite_step [OF does_ldd_and does_ldd_xor Suc ldd_cofs(2) all_true_consistent] by simp
qed (use does_0(2) in simp)

end

text \<open>
  The theory that finds implications only between equal constraints needs nothing of them
  (\<^verbatim>\<open>lddAPI.c\<close>), so every manager with it is one the operations are correct for.
\<close>

interpretation syntactic: ldd_manager "Ldd_SyntacticImplicationTheory ldd" "\<lambda>_. True" sat "length (ddVars ldd)" for ldd sat
proof unfold_locales
  fix c d
  show "\<exists>b. is_stronger_cons (Ldd_SyntacticImplicationTheory ldd) c d = Inr b \<and> (b \<longrightarrow> (\<forall>env. sat env c \<longrightarrow> sat env d))"
    by (rule exI [of _ False]) (simp add: Ldd_SyntacticImplicationTheory_def bin_false_def)
qed (simp_all add: Ldd_SyntacticImplicationTheory_def)

end
