(* ===== verification/Ldd_Tvpi.thy ===== *)
theory Ldd_Tvpi
  imports Ldd_Ite Tvpi_Cons
begin

text \<open>
  Linear decision diagrams over TVPI constraints: the theory of \<^verbatim>\<open>tvpi.c\<close> behind the operations of
  \<^verbatim>\<open>lddIte.c\<close>, and what the operations mean for rational valuations of the program variables.
\<close>

section \<open>The theory of TVPI constraints\<close>

text \<open>A variable without a constraint has a null pointer, which the theory dereferences.\<close>

definition lincons_is_stronger :: "tvpi_cons option \<Rightarrow> tvpi_cons option \<Rightarrow> bool res" where
  "lincons_is_stronger c d = rbind (deref c) (\<lambda>c. rbind (deref d) (\<lambda>d. tvpi_is_stronger_cons c d))"

definition wf_lincons :: "tvpi_cons option \<Rightarrow> bool" where
  "wf_lincons c = (case c of Some k \<Rightarrow> wf_cons k | None \<Rightarrow> False)"

definition lincons_holds :: "(int \<Rightarrow> rat) \<Rightarrow> tvpi_cons option \<Rightarrow> bool" where
  "lincons_holds env c = (case c of Some k \<Rightarrow> holds env k | None \<Rightarrow> False)"

interpretation tvpi: constraint_theory lincons_is_stronger wf_lincons lincons_holds
proof unfold_locales
  fix c d assume wf: "wf_lincons c" "wf_lincons d"
  then obtain c' d' where c: "c = Some c'" "wf_cons c'" "d = Some d'" "wf_cons d'"
    by (auto simp: wf_lincons_def split: option.splits)
  have "\<exists>b. tvpi_is_stronger_cons c' d' = Inr b \<and> (b \<longleftrightarrow> (\<forall>env. holds env c' \<longrightarrow> holds env d'))"
    by (rule stronger_iff_implies [OF c(2,4)])
  then show "\<exists>b. lincons_is_stronger c d = Inr b \<and> (b \<longrightarrow> (\<forall>env. lincons_holds env c \<longrightarrow> lincons_holds env d))"
    by (auto simp: c lincons_is_stronger_def lincons_holds_def deref_def)
qed

definition tvpi_manager :: "tvpi_cons option LddManager \<Rightarrow> nat \<Rightarrow> bool" where
  "tvpi_manager ldd N \<longleftrightarrow> is_stronger_cons ldd = lincons_is_stronger \<and> N \<le> length (ddVars ldd)
     \<and> (\<forall>c \<in> set (take N (ddVars ldd)). wf_lincons c)"

lemma tvpi_ldd_manager: "tvpi_manager ldd N \<Longrightarrow> ldd_manager ldd wf_lincons lincons_holds N"
  using tvpi.is_stronger_sound by unfold_locales (auto simp: tvpi_manager_def)

section \<open>What a diagram means\<close>

text \<open>The valuations in the set a diagram represents.\<close>

definition holds_ldd :: "tvpi_cons option LddManager \<Rightarrow> DdManager \<Rightarrow> ptr \<Rightarrow> (int \<Rightarrow> rat) \<Rightarrow> bool" where
  "holds_ldd ldd s p env \<longleftrightarrow> sem s p (assignment lincons_holds ldd env)"

end
