(* ===== verification/Ldd_Theorems.thy ===== *)
theory Ldd_Theorems
  imports Ldd_Tvpi Cudd_Theorems
begin

text \<open>
  What the operations on linear decision diagrams over TVPI constraints promise for the sets of
  rational valuations the diagrams represent, applied to a manager with two constraints of which one
  implies the other.
\<close>


section \<open>From assignments to valuations\<close>

lemma means:
  assumes t: "tvpi_manager ldd (dd_size s)" and y: "yields m (gets (consistent ldd (dd_size s)) (consistent ldd (dd_size s)) s X h)"
  shows "yields m (returns (consistent ldd (dd_size s)) s X (\<lambda>r s'. in_heap s' r \<and> (\<forall>env. holds_ldd ldd s' r env = h (assignment lincons_holds ldd env))))"
  using y unfolding gets_def
  by (rule yields_returns) (simp add: holds_ldd_def ldd_manager.assignment_consistent [OF tvpi_ldd_manager [OF t]])

lemma ldd_and_gets:
  assumes t: "tvpi_manager ldd (dd_size s)" and ok: "dd_ok (consistent ldd (dd_size s)) s X {}" and "hp s X f" "hp s X g"
    and "\<And>a. h a = (sem s f a \<and> sem s g a)"
  shows "yields (unless_reordered s (\<lambda>s. lddAndRecur ldd (Suc (dd_size s)) s f g)) (gets (consistent ldd (dd_size s)) (consistent ldd (dd_size s)) s X h)"
  using gets_does [OF ldd_manager.does_ldd_and [OF tvpi_ldd_manager [OF t]] order_refl ok assms(3,4,5)]
    unless_reordered_cong [of "\<lambda>s'. lddAndRecur ldd (Suc (dd_size s')) s' f g" s "\<lambda>s'. lddAndRecur ldd (Suc (dd_size s)) s' f g"]
  by simp

lemma ldd_xor_gets:
  assumes t: "tvpi_manager ldd (dd_size s)" and ok: "dd_ok (consistent ldd (dd_size s)) s X {}" and "hp s X f" "hp s X g"
    and "\<And>a. h a = (sem s f a \<noteq> sem s g a)"
  shows "yields (Ldd_Xor ldd s f g) (gets (consistent ldd (dd_size s)) (consistent ldd (dd_size s)) s X h)"
  using gets_does [OF ldd_manager.does_ldd_xor [OF tvpi_ldd_manager [OF t]] order_refl ok assms(3,4,5)]
    unless_reordered_cong [of "\<lambda>s'. lddXorRecur ldd (Suc (dd_size s')) s' f g" s "\<lambda>s'. lddXorRecur ldd (Suc (dd_size s)) s' f g"]
  by (simp add: Ldd_Xor_def)

lemma ldd_ite_gets:
  assumes t: "tvpi_manager ldd (dd_size s)" and ok: "dd_ok (consistent ldd (dd_size s)) s X {}" and "hp s X f" "hp s X g" "hp s X h"
  shows "yields (Ldd_Ite ldd s f g h) (gets (consistent ldd (dd_size s)) (consistent ldd (dd_size s)) s X (\<lambda>a. if sem s f a then sem s g a else sem s h a))"
  using gets_does3 [OF ldd_manager.does_ldd_ite [OF tvpi_ldd_manager [OF t]] order_refl ok assms(3,4,5)]
    unless_reordered_cong [of "\<lambda>s'. lddIteRecur ldd (Suc (dd_size s')) s' f g h" s "\<lambda>s'. lddIteRecur ldd (Suc (dd_size s)) s' f g h"]
  by (simp add: Ldd_Ite_def del: lddIteRecur.simps)

section \<open>An example\<close>

text \<open>The variables of the example stand for \<^verbatim>\<open>x - 2 * y < 3\<close> and \<^verbatim>\<open>x - 2 * y <= 3\<close>: the first implies the second.\<close>

definition ldd_ex :: "tvpi_cons option LddManager" where
  "ldd_ex = \<lparr>ddVars = [Some cons_ex2, Some cons_ex1], is_stronger_cons = lincons_is_stronger\<rparr>"

lemma ldd_ex_manager: "tvpi_manager ldd_ex (dd_size dd_ex)"
  using wf_examples by (simp add: tvpi_manager_def ldd_ex_def wf_lincons_def)

lemma holds_ex: "holds_ldd ldd_ex dd_ex x0 env = holds env cons_ex2" "holds_ldd ldd_ex dd_ex x1 env = holds env cons_ex1"
    "lincons_holds env (ddVars ldd_ex ! 0) = holds env cons_ex2"
  by (simp_all add: holds_ldd_def sem_ex assignment_def ldd_ex_def lincons_holds_def)

section \<open>The operations on valuations\<close>

text \<open>
  C8: \<^verbatim>\<open>Ldd_And\<close> over TVPI constraints is the intersection of the sets of valuations its operands
  represent, although tests implied by the tests above them are left out of the diagram.
\<close>

theorem ldd_and_intersection:
  assumes "tvpi_manager ldd (dd_size s)" "dd_ok (consistent ldd (dd_size s)) s X {}" "hp s X f" "hp s X g"
  shows "yields (Ldd_And ldd s f g) (returns (consistent ldd (dd_size s)) s X
    (\<lambda>r s'. in_heap s' r \<and> (\<forall>env. holds_ldd ldd s' r env = (holds_ldd ldd s f env \<and> holds_ldd ldd s g env))))"
  unfolding Ldd_And_def holds_ldd_def [of ldd s] by (rule means [OF assms(1) ldd_and_gets [OF assms]]) (rule refl)

theorem ldd_and_intersection_witness:
  "yields (Ldd_And ldd_ex dd_ex x0 x1) (returns (consistent ldd_ex 2) dd_ex (\<lambda>_. 0)
    (\<lambda>r s'. in_heap s' r \<and> (\<forall>env. holds_ldd ldd_ex s' r env = (holds env cons_ex2 \<and> holds env cons_ex1))))"
  using ldd_and_intersection [OF ldd_ex_manager dd_ex_ok hp_ex(1,2)] by (simp add: holds_ex)

text \<open>
  \<^verbatim>\<open>Ldd_Or\<close> over TVPI constraints is the union of the sets of valuations its operands represent.
\<close>

theorem ldd_or_union:
  assumes "tvpi_manager ldd (dd_size s)" "dd_ok (consistent ldd (dd_size s)) s X {}" "hp s X f" "hp s X g"
  shows "yields (Ldd_Or ldd s f g) (returns (consistent ldd (dd_size s)) s X
    (\<lambda>r s'. in_heap s' r \<and> (\<forall>env. holds_ldd ldd s' r env = (holds_ldd ldd s f env \<or> holds_ldd ldd s g env))))"
proof -
  have inh: "in_heap s f" "in_heap s g" using hp_in_heap [OF assms(2)] assms(3,4) by simp_all
  have "yields (unless_reordered s (\<lambda>s. lddAndRecur ldd (Suc (dd_size s)) s (Cudd_Not f) (Cudd_Not g)))
      (gets (consistent ldd (dd_size s)) (consistent ldd (dd_size s)) s X (\<lambda>a. \<not> (sem s f a \<or> sem s g a)))"
    by (rule ldd_and_gets [OF assms(1,2)]) (simp_all add: assms(3,4) inh)
  from gets_negated [OF this] show ?thesis
    unfolding Ldd_Or_def holds_ldd_def [of ldd s] by (intro means [OF assms(1)]) simp
qed

theorem ldd_or_union_witness:
  "yields (Ldd_Or ldd_ex dd_ex x0 x1) (returns (consistent ldd_ex 2) dd_ex (\<lambda>_. 0)
    (\<lambda>r s'. in_heap s' r \<and> (\<forall>env. holds_ldd ldd_ex s' r env = (holds env cons_ex2 \<or> holds env cons_ex1))))"
  using ldd_or_union [OF ldd_ex_manager dd_ex_ok hp_ex(1,2)] by (simp add: holds_ex)

text \<open>
  \<^verbatim>\<open>Ldd_Xor\<close> over TVPI constraints is the symmetric difference of the sets of valuations its
  operands represent.
\<close>

theorem ldd_xor_difference:
  assumes "tvpi_manager ldd (dd_size s)" "dd_ok (consistent ldd (dd_size s)) s X {}" "hp s X f" "hp s X g"
  shows "yields (Ldd_Xor ldd s f g) (returns (consistent ldd (dd_size s)) s X
    (\<lambda>r s'. in_heap s' r \<and> (\<forall>env. holds_ldd ldd s' r env = (holds_ldd ldd s f env \<noteq> holds_ldd ldd s g env))))"
  unfolding holds_ldd_def [of ldd s] by (rule means [OF assms(1) ldd_xor_gets [OF assms]]) (rule refl)

theorem ldd_xor_difference_witness:
  "yields (Ldd_Xor ldd_ex dd_ex x0 x1) (returns (consistent ldd_ex 2) dd_ex (\<lambda>_. 0)
    (\<lambda>r s'. in_heap s' r \<and> (\<forall>env. holds_ldd ldd_ex s' r env = (holds env cons_ex2 \<noteq> holds env cons_ex1))))"
  using ldd_xor_difference [OF ldd_ex_manager dd_ex_ok hp_ex(1,2)] by (simp add: holds_ex)

text \<open>
  C12: \<^verbatim>\<open>Ldd_Ite\<close> over TVPI constraints chooses, for every valuation, between the sets its second and
  third operand represent by the set of the first.
\<close>

theorem ldd_ite_choice:
  assumes "tvpi_manager ldd (dd_size s)" "dd_ok (consistent ldd (dd_size s)) s X {}" "hp s X f" "hp s X g" "hp s X h"
  shows "yields (Ldd_Ite ldd s f g h) (returns (consistent ldd (dd_size s)) s X (\<lambda>r s'. in_heap s' r
    \<and> (\<forall>env. holds_ldd ldd s' r env = (if holds_ldd ldd s f env then holds_ldd ldd s g env else holds_ldd ldd s h env))))"
  unfolding holds_ldd_def [of ldd s] by (rule means [OF assms(1) ldd_ite_gets [OF assms]])

theorem ldd_ite_choice_witness:
  "yields (Ldd_Ite ldd_ex dd_ex x1 x0 (Cudd_Not x0)) (returns (consistent ldd_ex 2) dd_ex (\<lambda>_. 0) (\<lambda>r s'. in_heap s' r
    \<and> (\<forall>env. holds_ldd ldd_ex s' r env = (if holds env cons_ex1 then holds env cons_ex2 else holds_ldd ldd_ex dd_ex (Cudd_Not x0) env))))"
  using ldd_ite_choice [OF ldd_ex_manager dd_ex_ok hp_ex(2,1,4)] unfolding holds_ex fields_ex .

text \<open>
  C29: \<^verbatim>\<open>lddUniqueInter\<close> returns a diagram of the node with the given constraint and children: the
  shortcuts that drop an implied test or a subsumed node do not change the set of valuations.
\<close>

theorem ldd_node_means:
  assumes "tvpi_manager ldd (dd_size s)" "dd_ok (consistent ldd (dd_size s)) s X {}" "node_args s index f g" "hp s X f" "hp s X g"
  shows "yields (lddUniqueInter ldd s index f g) (returns (consistent ldd (dd_size s)) s X (\<lambda>r s'. in_heap s' r
    \<and> (\<forall>env. holds_ldd ldd s' r env = (if lincons_holds env (ddVars ldd ! index) then holds_ldd ldd s f env else holds_ldd ldd s g env))))"
  by (rule yields_returns [OF ldd_manager.lddUniqueInter_spec [OF tvpi_ldd_manager [OF assms(1)] assms(2) order_refl assms(3-5)]])
    (simp add: denotes_def holds_ldd_def ldd_manager.assignment_consistent [OF tvpi_ldd_manager [OF assms(1)]] assignment_def)

theorem ldd_node_means_witness:
  "yields (lddUniqueInter ldd_ex dd_ex 0 x1 (Cudd_Not one_ex)) (returns (consistent ldd_ex 2) dd_ex (\<lambda>_. 0) (\<lambda>r s'. in_heap s' r
    \<and> (\<forall>env. holds_ldd ldd_ex s' r env = (if holds env cons_ex2 then holds env cons_ex1 else holds_ldd ldd_ex dd_ex (Cudd_Not one_ex) env))))"
proof -
  have "hp dd_ex (\<lambda>_. 0) (Cudd_Not one_ex)" using hp_ex(3) by (simp add: hp_def)
  from ldd_node_means [OF ldd_ex_manager dd_ex_ok args_ex hp_ex(2) this]
  show ?thesis unfolding holds_ex fields_ex .
qed

end
