(* ===== verification/Ahorn_Ir.thy ===== *)
theory Ahorn_Ir
  imports Prelude "HOL-Library.List_Lexorder" "HOL-Library.Char_ord"
begin

text \<open>
  The intermediate representation of the symbolic execution engine \<^verbatim>\<open>src/ahorn\<close>: names, data types,
  variables, expressions and instructions, and the maps of the C++ library the program keeps them in.
\<close>

section \<open>Maps in the order of their keys\<close>

text \<open>
  A \<^verbatim>\<open>std::map\<close> is the list of its entries in the order an iterator visits them.  \<^verbatim>\<open>emplace\<close> does
  nothing when the key is there.
\<close>

type_synonym ('k, 'v) std_map = "('k \<times> 'v) list"

fun emplace :: "'k::linorder \<Rightarrow> 'v \<Rightarrow> ('k, 'v) std_map \<Rightarrow> ('k, 'v) std_map" where
  "emplace k v [] = [(k, v)]"
| "emplace k v ((k', v') # m) =
     (if k < k' then (k, v) # (k', v') # m else if k = k' then (k', v') # m else (k', v') # emplace k v m)"

definition map_at :: "('k, 'v) std_map \<Rightarrow> 'k \<Rightarrow> 'v res" where
  "map_at m k = (case map_of m k of None \<Rightarrow> Inl Out_Of_Bounds | Some v \<Rightarrow> Inr v)"

abbreviation sorted_map :: "('k::linorder, 'v) std_map \<Rightarrow> bool" where
  "sorted_map m \<equiv> sorted_wrt (<) (map fst m)"

lemma map_at_Inr [simp, res_simps]: "map_of m k = Some v \<Longrightarrow> map_at m k = Inr v"
  by (simp add: map_at_def)

lemma map_at_eq_Inr: "map_at m k = Inr v \<longleftrightarrow> map_of m k = Some v"
  by (simp add: map_at_def split: option.splits)

lemma keys_emplace: "fst ` set (emplace k v m) = insert k (fst ` set m)"
  by (induction k v m rule: emplace.induct) auto

lemma sorted_emplace: "sorted_map m \<Longrightarrow> sorted_map (emplace k v m)"
proof (induction k v m rule: emplace.induct)
  case (2 k v k' v' m)
  have "k' < k \<Longrightarrow> \<forall>x \<in> set (map fst (emplace k v m)). k' < x"
    using 2(2) keys_emplace [of k v m] by auto
  then show ?case using 2 by auto
qed simp

lemma map_of_notin: "(\<And>x. x \<in> set (map fst m) \<Longrightarrow> k \<noteq> x) \<Longrightarrow> map_of m k = None"
  by (auto simp: map_of_eq_None_iff)

lemma map_of_emplace:
  "sorted_map m \<Longrightarrow> map_of (emplace k v m) = (map_of m)(k := Some (case map_of m k of None \<Rightarrow> v | Some w \<Rightarrow> w))"
proof (induction k v m rule: emplace.induct)
  case (2 k v k' v' m)
  consider "k < k'" | "k = k'" | "k' < k" by fastforce
  then show ?case
  proof cases
    case 1
    then have "map_of m k = None" using 2(2) by (intro map_of_notin) auto
    then show ?thesis using 1 by (auto simp: fun_eq_iff)
  next
    case 3
    then show ?thesis using 2 by (auto simp: fun_eq_iff split: option.splits)
  qed (auto simp: fun_eq_iff)
qed simp

section \<open>Numbers in text\<close>

text \<open>The decimal numeral of \<^verbatim>\<open>std::to_string\<close>.\<close>

fun to_string :: "nat \<Rightarrow> string" where
  "to_string n = (if n < 10 then [char_of (48 + n)] else to_string (n div 10) @ [char_of (48 + n mod 10)])"

declare to_string.simps [simp del]

section \<open>Data types\<close>

datatype elementary_type = INT_Type | REAL_Type | BOOL_Type | TIME_Type

fun elementary_type_of :: "string \<Rightarrow> elementary_type res" where
  "elementary_type_of name =
     (if name = ''INT'' then Inr INT_Type
      else if name = ''REAL'' then Inr REAL_Type
      else if name = ''BOOL'' then Inr BOOL_Type
      else if name = ''TIME'' then Inr TIME_Type
      else if name = ''WORD'' then Inr INT_Type
      else Inl (Logic_Error ''Not implemented yet.''))"

text \<open>
  An enumerated type numbers its values in the order they are added; its copy adds them again in the
  order of the map.
\<close>

record EnumeratedType =
  en_name :: string
  en_index :: nat
  value_to_index :: "(string, nat) std_map"

definition enumerated_type :: "string \<Rightarrow> EnumeratedType" where
  "enumerated_type name = \<lparr>en_name = name, en_index = 0, value_to_index = []\<rparr>"

definition addValue :: "string \<Rightarrow> EnumeratedType \<Rightarrow> EnumeratedType" where
  "addValue v t = t\<lparr>value_to_index := emplace v (en_index t) (value_to_index t), en_index := en_index t + 1\<rparr>"

definition getIndex :: "EnumeratedType \<Rightarrow> string \<Rightarrow> nat res" where
  "getIndex t v = map_at (value_to_index t) v"

definition clone_enumerated :: "EnumeratedType \<Rightarrow> EnumeratedType" where
  "clone_enumerated t = fold (\<lambda>p. addValue (fst p)) (value_to_index t) (enumerated_type (en_name t))"

datatype data_type =
    Elementary elementary_type
  | Safebool
  | Derived string
  | Enumerated EnumeratedType
  | Inconclusive string
  | Simple string

fun clone_type :: "data_type \<Rightarrow> data_type" where
  "clone_type (Enumerated t) = Enumerated (clone_enumerated t)"
| "clone_type t = t"

section \<open>Variables\<close>

datatype expression_type = UNDEFINED | ARITHMETIC | BOOLEAN

datatype Constant =
    BooleanConstant bool
  | IntegerConstant int
  | TimeConstant int
  | EnumeratedValue string int
  | NondeterministicConstant expression_type

datatype storage_type = INPUT | LOCAL | OUTPUT | TEMPORARY

text \<open>The parent of a name is the module or control-flow graph that declares it, known by its own name.\<close>

record Variable =
  v_name :: string
  v_type :: data_type
  v_storage :: storage_type
  v_init :: "Constant option"
  v_parent :: "string option"

definition getFullyQualifiedName :: "Variable \<Rightarrow> string" where
  "getFullyQualifiedName v = (case v_parent v of None \<Rightarrow> v_name v | Some p \<Rightarrow> p @ ''.'' @ v_name v)"

section \<open>Expressions\<close>

datatype VariableReference =
    VariableAccess Variable
  | FieldAccess Variable VariableReference

fun getName :: "VariableReference \<Rightarrow> string" where
  "getName (VariableAccess v) = v_name v"
| "getName (FieldAccess r f) = v_name r @ ''.'' @ getName f"

text \<open>The variable at the end of a chain of field accesses.\<close>

fun getVariableAccess :: "VariableReference \<Rightarrow> Variable" where
  "getVariableAccess (VariableAccess v) = v"
| "getVariableAccess (FieldAccess r f) = getVariableAccess f"

datatype BinaryOperator =
    EXPONENTIATION | MULTIPLY | DIVIDE | MODULO | ADD | SUBTRACT
  | GREATER_THAN | LESS_THAN | GREATER_THAN_OR_EQUAL_TO | LESS_THAN_OR_EQUAL_TO | EQUALITY | INEQUALITY
  | BOOLEAN_AND | BOOLEAN_EXCLUSIVE_OR | BOOLEAN_OR

datatype UnaryOperator = NEGATION | UNARY_PLUS | COMPLEMENT

type_synonym label = "32 word"

datatype Expression =
    ConstantExpression Constant
  | Reference VariableReference
  | BinaryExpression BinaryOperator Expression Expression
  | UnaryExpression UnaryOperator Expression
  | ChangeExpression Expression Expression
  | BooleanToIntegerCast Expression
  | IntegerToBooleanCast Expression
  | Undefined
  | Phi Variable "(label, Variable) std_map"

text \<open>The kind of value a variable holds, fixed when an access to it is made.\<close>

fun access_type :: "data_type \<Rightarrow> expression_type res" where
  "access_type (Elementary BOOL_Type) = Inr BOOLEAN"
| "access_type (Elementary _) = Inr ARITHMETIC"
| "access_type (Enumerated _) = Inr ARITHMETIC"
| "access_type Safebool = Inr BOOLEAN"
| "access_type (Derived _) = Inr UNDEFINED"
| "access_type _ = Inl (Logic_Error ''Not implemented yet.'')"

fun binary_type :: "BinaryOperator \<Rightarrow> expression_type" where
  "binary_type bop = (if bop \<in> {EXPONENTIATION, MULTIPLY, DIVIDE, MODULO, ADD, SUBTRACT} then ARITHMETIC else BOOLEAN)"

fun unary_type :: "UnaryOperator \<Rightarrow> expression_type" where
  "unary_type uop = (if uop = COMPLEMENT then BOOLEAN else ARITHMETIC)"

section \<open>Instructions\<close>

datatype Instruction =
    AssignmentInstruction VariableReference Expression
  | CallInstruction Variable label label
  | IfInstruction Expression label label
  | SequenceInstruction "Instruction list"
  | WhileInstruction Expression label label
  | GotoInstruction label
  | HavocInstruction VariableReference

definition is_if :: "Instruction \<Rightarrow> bool" where
  "is_if i = (case i of IfInstruction _ _ _ \<Rightarrow> True | _ \<Rightarrow> False)"

definition containsIfInstruction :: "Instruction list \<Rightarrow> bool res" where
  "containsIfInstruction body = (if body = [] then Inl Out_Of_Bounds else Inr (is_if (last body)))"

end
