(* ===== verification/Ahorn_Cfg.thy ===== *)
theory Ahorn_Cfg
  imports Ahorn_Ir
begin

text \<open>
  Control-flow graphs (\<^verbatim>\<open>src/ahorn/src/cfg\<close>): vertices, typed edges, the graphs of the types a graph
  uses, the look-ups the engines make and the flattened interface.
\<close>

section \<open>Vertices and edges\<close>

datatype vertex_type = ENTRY | REGULAR | EXIT

record Vertex =
  vx_label :: label
  vx_instruction :: "Instruction option"
  vx_type :: vertex_type

datatype edge_type =
    INTRAPROCEDURAL | INTRAPROCEDURAL_CALL_TO_RETURN | INTERPROCEDURAL_CALL | INTERPROCEDURAL_RETURN
  | TRUE_BRANCH | FALSE_BRANCH

record Edge =
  source_label :: label
  target_label :: label
  edge_type :: edge_type
  caller_name :: "string option"
  call_label :: "label option"

definition make_edge :: "label \<Rightarrow> label \<Rightarrow> edge_type \<Rightarrow> Edge" where
  "make_edge s t ty = \<lparr>source_label = s, target_label = t, edge_type = ty, caller_name = None, call_label = None\<rparr>"

definition make_return_edge :: "label \<Rightarrow> label \<Rightarrow> string \<Rightarrow> label \<Rightarrow> edge_type \<Rightarrow> Edge res" where
  "make_return_edge s t c l ty = rassert (ty = INTERPROCEDURAL_RETURN)
     (Inr \<lparr>source_label = s, target_label = t, edge_type = ty, caller_name = Some c, call_label = Some l\<rparr>)"

definition getCallLabel :: "Edge \<Rightarrow> label res" where
  "getCallLabel e = (case call_label e of
     None \<Rightarrow> Inl (Logic_Error ''Only valid for edges of type INTERPROCEDURAL_RETURN.'') | Some l \<Rightarrow> Inr l)"

definition getCallerName :: "Edge \<Rightarrow> string res" where
  "getCallerName e = (case caller_name e of
     None \<Rightarrow> Inl (Logic_Error ''Only valid for edges of type INTERPROCEDURAL_RETURN.'') | Some c \<Rightarrow> Inr c)"

section \<open>Graphs\<close>

datatype cfg_type = PROGRAM | FUNCTION_BLOCK | FUNCTION

text \<open>
  A graph owns the graphs of the types its variables have; the name of a graph is its fully qualified
  name.  The callers of a graph, kept by reference, are not part of its value.
\<close>

datatype Cfg = Cfg
  (cfg_type: cfg_type)
  (cfg_name: string)
  (cfg_interface: "(string, Variable) std_map")
  (name_to_cfg: "(string \<times> Cfg) list")
  (label_to_vertex: "(label, Vertex) std_map")
  (cfg_edges: "Edge list")
  (entry_label: label)
  (exit_label: label)

definition set_vertices :: "(label, Vertex) std_map \<Rightarrow> Cfg \<Rightarrow> Cfg" where
  "set_vertices vs c = Cfg (cfg_type c) (cfg_name c) (cfg_interface c) (name_to_cfg c) vs (cfg_edges c) (entry_label c) (exit_label c)"

definition set_edges :: "Edge list \<Rightarrow> Cfg \<Rightarrow> Cfg" where
  "set_edges es c = Cfg (cfg_type c) (cfg_name c) (cfg_interface c) (name_to_cfg c) (label_to_vertex c) es (entry_label c) (exit_label c)"

text \<open>The variables of the interface have the graph as their parent.\<close>

definition interface_variables :: "Cfg \<Rightarrow> Variable list" where
  "interface_variables c = map (\<lambda>p. (snd p)\<lparr>v_parent := Some (cfg_name c)\<rparr>) (cfg_interface c)"

definition input_variables :: "Cfg \<Rightarrow> Variable list" where
  "input_variables c = filter (\<lambda>v. v_storage v = INPUT) (interface_variables c)"

section \<open>Vertices of a graph\<close>

definition about_label :: "string \<Rightarrow> label \<Rightarrow> string" where
  "about_label msg l = msg @ to_string (unat l) @ '' exists.''"

definition getVertex :: "Cfg \<Rightarrow> label \<Rightarrow> Vertex res" where
  "getVertex c l = (case map_of (label_to_vertex c) l of
     None \<Rightarrow> Inl (Logic_Error (about_label ''No vertex with label '' l)) | Some v \<Rightarrow> Inr v)"

definition getEntry :: "Cfg \<Rightarrow> Vertex res" where
  "getEntry c = map_at (label_to_vertex c) (entry_label c)"

definition getExit :: "Cfg \<Rightarrow> Vertex res" where
  "getExit c = map_at (label_to_vertex c) (exit_label c)"

definition removeVertex :: "label \<Rightarrow> Cfg \<Rightarrow> Cfg res" where
  "removeVertex l c =
     (if map_of (label_to_vertex c) l = None then Inl (Logic_Error ''Vertex not found.'')
      else Inr (set_vertices (filter (\<lambda>p. fst p \<noteq> l) (label_to_vertex c)) c))"

text \<open>
  The next label is kept in a signed variable that starts at \<^verbatim>\<open>-1\<close> and is compared with unsigned
  labels, so it is compared as the largest label there is.  The loop over the callers runs from its
  begin to its begin.
\<close>

definition next_free :: "label \<Rightarrow> label \<Rightarrow> label" where
  "next_free l next_free_label = (if next_free_label \<le> l then l + 1 else next_free_label)"

definition addVertex :: "Cfg \<Rightarrow> (Vertex \<times> Cfg) res" where
  "addVertex c =
     (let l = fold (\<lambda>p. next_free (fst p)) (label_to_vertex c) (- 1);
          l = fold (\<lambda>p. next_free (exit_label (snd p))) (name_to_cfg c) l
      in rassert (l \<noteq> - 1)
           (let vs = emplace l \<lparr>vx_label = l, vx_instruction = None, vx_type = REGULAR\<rparr> (label_to_vertex c)
            in rbind (map_at vs l) (\<lambda>v. Inr (v, set_vertices vs c))))"

section \<open>Edges of a graph\<close>

definition getOutgoingEdges :: "Cfg \<Rightarrow> label \<Rightarrow> Edge list" where
  "getOutgoingEdges c l = filter (\<lambda>e. source_label e = l) (cfg_edges c)"

definition getIncomingEdges :: "Cfg \<Rightarrow> label \<Rightarrow> Edge list" where
  "getIncomingEdges c l = filter (\<lambda>e. target_label e = l) (cfg_edges c)"

definition getPrecedingLabels :: "Cfg \<Rightarrow> label \<Rightarrow> label list" where
  "getPrecedingLabels c l = map source_label (getIncomingEdges c l)"

definition getSucceedingLabels :: "Cfg \<Rightarrow> label \<Rightarrow> label list" where
  "getSucceedingLabels c l = map target_label (getOutgoingEdges c l)"

definition removeIncomingEdges :: "label \<Rightarrow> Cfg \<Rightarrow> Cfg" where
  "removeIncomingEdges l c = set_edges (filter (\<lambda>e. target_label e \<noteq> l) (cfg_edges c)) c"

definition removeOutgoingEdges :: "label \<Rightarrow> Cfg \<Rightarrow> Cfg" where
  "removeOutgoingEdges l c = set_edges (filter (\<lambda>e. source_label e \<noteq> l) (cfg_edges c)) c"

definition addEdge :: "label \<Rightarrow> label \<Rightarrow> edge_type \<Rightarrow> Cfg \<Rightarrow> Cfg" where
  "addEdge s t ty c = set_edges (cfg_edges c @ [make_edge s t ty]) c"

definition find_edge :: "string \<Rightarrow> (Edge \<Rightarrow> bool) \<Rightarrow> Cfg \<Rightarrow> Edge res" where
  "find_edge msg P c = (case find P (cfg_edges c) of None \<Rightarrow> Inl (Logic_Error msg) | Some e \<Rightarrow> Inr e)"

definition getEdge :: "Cfg \<Rightarrow> label \<Rightarrow> label \<Rightarrow> Edge res" where
  "getEdge c s t = find_edge ''Edge does not exist.'' (\<lambda>e. source_label e = s \<and> target_label e = t) c"

text \<open>The look-ups by the kind of the instruction assert that the instruction has the kind.\<close>

definition with_instruction :: "Cfg \<Rightarrow> label \<Rightarrow> (Instruction \<Rightarrow> bool) \<Rightarrow> 'a res \<Rightarrow> 'a res" where
  "with_instruction c l P m =
     rbind (map_at (label_to_vertex c) l) (\<lambda>v. rbind (deref (vx_instruction v)) (\<lambda>i. rassert (P i) m))"

definition is_while :: "Instruction \<Rightarrow> bool" where
  "is_while i = (case i of WhileInstruction _ _ _ \<Rightarrow> True | _ \<Rightarrow> False)"

definition is_assignment :: "Instruction \<Rightarrow> bool" where
  "is_assignment i = (case i of AssignmentInstruction _ _ \<Rightarrow> True | _ \<Rightarrow> False)"

definition is_havoc :: "Instruction \<Rightarrow> bool" where
  "is_havoc i = (case i of HavocInstruction _ \<Rightarrow> True | _ \<Rightarrow> False)"

definition is_call :: "Instruction \<Rightarrow> bool" where
  "is_call i = (case i of CallInstruction _ _ _ \<Rightarrow> True | _ \<Rightarrow> False)"

definition is_sequence :: "Instruction \<Rightarrow> bool" where
  "is_sequence i = (case i of SequenceInstruction _ \<Rightarrow> True | _ \<Rightarrow> False)"

definition getTrueEdge :: "Cfg \<Rightarrow> label \<Rightarrow> Edge res" where
  "getTrueEdge c l = with_instruction c l (\<lambda>i. is_if i \<or> is_while i)
     (find_edge (about_label ''No true edge for if instruction at label '' l) (\<lambda>e. source_label e = l \<and> edge_type e = TRUE_BRANCH) c)"

definition getFalseEdge :: "Cfg \<Rightarrow> label \<Rightarrow> Edge res" where
  "getFalseEdge c l = with_instruction c l (\<lambda>i. is_if i \<or> is_while i)
     (find_edge (about_label ''No false edge for if instruction at label '' l) (\<lambda>e. source_label e = l \<and> edge_type e = FALSE_BRANCH) c)"

definition getIntraproceduralEdge :: "Cfg \<Rightarrow> label \<Rightarrow> Edge res" where
  "getIntraproceduralEdge c l = with_instruction c l (\<lambda>i. is_assignment i \<or> is_havoc i)
     (rassert (length (getSucceedingLabels c l) = 1)
       (find_edge (about_label ''No intraprocedural edge for instruction at label '' l) (\<lambda>e. source_label e = l \<and> edge_type e = INTRAPROCEDURAL) c))"

definition getIntraproceduralCallToReturnEdge :: "Cfg \<Rightarrow> label \<Rightarrow> Edge res" where
  "getIntraproceduralCallToReturnEdge c l = with_instruction c l (\<lambda>i. is_call i \<or> is_sequence i)
     (find_edge (about_label ''No intraprocedural call-to-return edge for instruction at label '' l)
       (\<lambda>e. source_label e = l \<and> edge_type e = INTRAPROCEDURAL_CALL_TO_RETURN) c)"

definition getInterproceduralCallEdge :: "Cfg \<Rightarrow> label \<Rightarrow> Edge res" where
  "getInterproceduralCallEdge c l = with_instruction c l is_call
     (find_edge (about_label ''No interprocedural edge for call instruction at label '' l)
       (\<lambda>e. source_label e = l \<and> edge_type e = INTERPROCEDURAL_CALL) c)"

definition getInterproceduralReturnEdge :: "Cfg \<Rightarrow> label \<Rightarrow> Edge res" where
  "getInterproceduralReturnEdge c l =
     find_edge (about_label ''No interprocedural return edge for instruction at label '' l) (\<lambda>e. target_label e = l \<and> edge_type e = INTERPROCEDURAL_RETURN) c"

section \<open>Graphs of the types used\<close>

definition getCfg :: "Cfg \<Rightarrow> string \<Rightarrow> Cfg res" where
  "getCfg c n = (case map_of (name_to_cfg c) n of
     None \<Rightarrow> Inl (Logic_Error (''No type representative cfg for '' @ n @ '' exists.'')) | Some d \<Rightarrow> Inr d)"

definition hasCallees :: "Cfg \<Rightarrow> bool" where
  "hasCallees c \<longleftrightarrow> name_to_cfg c \<noteq> []"

definition getCallee :: "Cfg \<Rightarrow> label \<Rightarrow> Cfg res" where
  "getCallee c l = rbind (getInterproceduralCallEdge c l) (\<lambda>e.
     case find (\<lambda>p. target_label e = entry_label (snd p)) (name_to_cfg c) of
       None \<Rightarrow> Inl (Runtime_Error ''No callee for label exists.'') | Some p \<Rightarrow> Inr (snd p))"

definition getCallLabels :: "Cfg \<Rightarrow> string \<Rightarrow> label list res" where
  "getCallLabels c n = rbind (map_at (name_to_cfg c) n) (\<lambda>d. Inr (map source_label
     (filter (\<lambda>e. edge_type e = INTERPROCEDURAL_CALL \<and> target_label e = entry_label d) (cfg_edges c))))"

section \<open>The flattened interface\<close>

text \<open>
  A variable of a derived type stands for the flattened interface of that type, its name in place of
  the name of the type; such variables have no initialization.
\<close>

definition replace_prefix :: "nat \<Rightarrow> string \<Rightarrow> string \<Rightarrow> string" where
  "replace_prefix n s name = s @ drop n name"

definition flatten_nested :: "string \<Rightarrow> string \<Rightarrow> string \<Rightarrow> Variable \<Rightarrow> Variable" where
  "flatten_nested parent x ty w =
     \<lparr>v_name = replace_prefix (length ty) x (getFullyQualifiedName w), v_type = clone_type (v_type w),
      v_storage = v_storage w, v_init = None, v_parent = Some parent\<rparr>"

definition flatten_own :: "string \<Rightarrow> Variable \<Rightarrow> Variable" where
  "flatten_own parent v = v\<lparr>v_type := clone_type (v_type v), v_parent := Some parent\<rparr>"

definition flatten_variable ::
  "string \<Rightarrow> (string \<times> (string, Variable) std_map res) list \<Rightarrow> Variable \<Rightarrow> (string, Variable) std_map \<Rightarrow> (string, Variable) std_map res" where
  "flatten_variable parent subs v acc =
     (case v_type v of
        Derived ty \<Rightarrow> rbind (map_at subs ty) (\<lambda>sub. rbind sub (\<lambda>ws.
          Inr (fold (\<lambda>p m. let w = flatten_nested parent (v_name v) ty (snd p) in emplace (v_name w) w m) ws acc)))
      | _ \<Rightarrow> Inr (let w = flatten_own parent v in emplace (v_name w) w acc))"

fun flatten_variables ::
  "string \<Rightarrow> (string \<times> (string, Variable) std_map res) list \<Rightarrow> Variable list \<Rightarrow> (string, Variable) std_map \<Rightarrow> (string, Variable) std_map res" where
  "flatten_variables parent subs [] acc = Inr acc"
| "flatten_variables parent subs (v # vs) acc =
     rbind (flatten_variable parent subs v acc) (flatten_variables parent subs vs)"

lemma size_callee [termination_simp]: "p \<in> set cs \<Longrightarrow> size (snd p) \<le> size_list (size_prod (\<lambda>_. 0) size) cs"
  by (erule size_list_estimation') (cases p, simp)

fun flattened_interface :: "Cfg \<Rightarrow> (string, Variable) std_map res" where
  "flattened_interface (Cfg ty name vars cfgs vertices edges en ex) =
     flatten_variables name (map (\<lambda>p. (fst p, flattened_interface (snd p))) cfgs) (map snd vars) []"

text \<open>
  The callees of callees are looked up among those found already; when one is not there, the code
  pushes what the end iterator points to.
\<close>

fun push_found :: "Cfg list \<Rightarrow> Cfg list \<Rightarrow> Cfg list res" where
  "push_found acc [] = Inr acc"
| "push_found acc (d # ds) =
     (if find (\<lambda>f. cfg_name d = cfg_name f) acc = None then Inl Out_Of_Bounds else push_found acc ds)"

fun push_callees :: "(Cfg \<times> Cfg list res) list \<Rightarrow> Cfg list \<Rightarrow> Cfg list res" where
  "push_callees [] acc = Inr acc"
| "push_callees ((c, below) # cs) acc = rbind below (\<lambda>ds. rbind (push_found (acc @ [c]) ds) (push_callees cs))"

fun getFlattenedCallees :: "Cfg \<Rightarrow> Cfg list res" where
  "getFlattenedCallees (Cfg ty name vars cfgs vertices edges en ex) =
     push_callees (map (\<lambda>p. (snd p, getFlattenedCallees (snd p))) cfgs) []"

end
