(* ===== verification/Ahorn_Simulator.thy ===== *)
theory Ahorn_Simulator
  imports Ahorn_Cfg Complex_Main
begin

text \<open>
  The simulator (\<^verbatim>\<open>src/ahorn/src/se/simulator\<close>): it executes a control-flow graph cycle by cycle on
  concrete values, as test cases prescribe, and records the coverage reached.  Values are constants of
  the Z3 library, which is an argument of the model.
\<close>

section \<open>Values\<close>

text \<open>The functions of the Z3 library the simulator applies to values; each result is simplified.\<close>

record 'e z3_api =
  bool_val :: "bool \<Rightarrow> 'e"
  int_val :: "int \<Rightarrow> 'e"
  is_arith :: "'e \<Rightarrow> bool"
  is_bool :: "'e \<Rightarrow> bool"
  is_true :: "'e \<Rightarrow> bool"
  is_false :: "'e \<Rightarrow> bool"
  z3_ge :: "'e \<Rightarrow> 'e \<Rightarrow> 'e"
  z3_gt :: "'e \<Rightarrow> 'e \<Rightarrow> 'e"
  z3_lt :: "'e \<Rightarrow> 'e \<Rightarrow> 'e"
  z3_eq :: "'e \<Rightarrow> 'e \<Rightarrow> 'e"
  z3_add :: "'e \<Rightarrow> 'e \<Rightarrow> 'e"
  z3_sub :: "'e \<Rightarrow> 'e \<Rightarrow> 'e"
  z3_and :: "'e \<Rightarrow> 'e \<Rightarrow> 'e"
  z3_or :: "'e \<Rightarrow> 'e \<Rightarrow> 'e"
  z3_neg :: "'e \<Rightarrow> 'e"
  z3_not :: "'e \<Rightarrow> 'e"

text \<open>The solver owns the random number generator; the \<^verbatim>\<open>k\<close>-th number it draws from an interval.\<close>

record 'e Solver =
  z3 :: "'e z3_api"
  draw :: "nat \<Rightarrow> int \<Rightarrow> int \<Rightarrow> int"

definition makeBooleanValue :: "'e Solver \<Rightarrow> bool \<Rightarrow> 'e" where
  "makeBooleanValue sv b = bool_val (z3 sv) b"

definition makeIntegerValue :: "'e Solver \<Rightarrow> int \<Rightarrow> 'e" where
  "makeIntegerValue sv i = int_val (z3 sv) i"

fun makeDefaultValue :: "'e Solver \<Rightarrow> data_type \<Rightarrow> 'e res" where
  "makeDefaultValue sv (Elementary INT_Type) = Inr (makeIntegerValue sv 0)"
| "makeDefaultValue sv (Elementary BOOL_Type) = Inr (makeBooleanValue sv False)"
| "makeDefaultValue sv (Elementary TIME_Type) = Inr (makeIntegerValue sv 0)"
| "makeDefaultValue sv (Elementary REAL_Type) = Inl (Logic_Error ''Unsupported elementary type.'')"
| "makeDefaultValue sv Safebool = Inr (makeBooleanValue sv False)"
| "makeDefaultValue sv (Enumerated _) = Inr (makeIntegerValue sv 0)"
| "makeDefaultValue sv _ = Inl (Logic_Error ''Unsupported data type.'')"

fun makeRandomValue :: "'e Solver \<Rightarrow> nat \<Rightarrow> data_type \<Rightarrow> ('e \<times> nat) res" where
  "makeRandomValue sv k (Elementary INT_Type) = Inr (makeIntegerValue sv (draw sv k (- 32768) 32767), Suc k)"
| "makeRandomValue sv k (Elementary BOOL_Type) = Inr (makeBooleanValue sv (draw sv k 0 1 \<noteq> 0), Suc k)"
| "makeRandomValue sv k (Elementary TIME_Type) = Inr (makeIntegerValue sv (draw sv k 0 65535), Suc k)"
| "makeRandomValue sv k (Elementary REAL_Type) = Inl (Runtime_Error ''Unsupported elementary type.'')"
| "makeRandomValue sv k Safebool = Inr (makeBooleanValue sv False, k)"
| "makeRandomValue sv k _ = Inl (Runtime_Error ''Unsupported data type.'')"

fun makeValue :: "'e Solver \<Rightarrow> Constant \<Rightarrow> 'e res" where
  "makeValue sv (BooleanConstant b) = Inr (makeBooleanValue sv b)"
| "makeValue sv (IntegerConstant i) = Inr (makeIntegerValue sv i)"
| "makeValue sv _ = Inl (Logic_Error ''Not implemented yet.'')"

text \<open>A symbolic constant is made of the same types; the simulator makes one and does not use it.\<close>

fun makeConstant :: "data_type \<Rightarrow> unit res" where
  "makeConstant (Elementary REAL_Type) = Inl (Logic_Error ''Unsupported elementary type.'')"
| "makeConstant (Elementary _) = Inr ()"
| "makeConstant Safebool = Inr ()"
| "makeConstant (Enumerated _) = Inr ()"
| "makeConstant _ = Inl (Logic_Error ''Unsupported data type.'')"

section \<open>State\<close>

type_synonym cycle = "32 word"

definition contextualized_name :: "string \<Rightarrow> cycle \<Rightarrow> string" where
  "contextualized_name flattened_name cycle = flattened_name @ ''__'' @ to_string (unat cycle)"

record 'e State =
  vertex :: Vertex
  concrete_valuations :: "string \<Rightarrow> 'e option"

definition getConcreteValuation :: "'e State \<Rightarrow> string \<Rightarrow> 'e res" where
  "getConcreteValuation st n = (case concrete_valuations st n of None \<Rightarrow> Inl Assert_Failed | Some e \<Rightarrow> Inr e)"

definition setConcreteValuation :: "string \<Rightarrow> 'e \<Rightarrow> 'e State \<Rightarrow> 'e State res" where
  "setConcreteValuation n e st = rassert (concrete_valuations st n = None)
     (Inr (st\<lparr>concrete_valuations := (concrete_valuations st)(n \<mapsto> e)\<rparr>))"

definition updateConcreteValuation :: "string \<Rightarrow> 'e \<Rightarrow> 'e State \<Rightarrow> 'e State res" where
  "updateConcreteValuation n e st =
     (if concrete_valuations st n = None then Inl (Runtime_Error ''Concrete valuation not found.'')
      else Inr (st\<lparr>concrete_valuations := (concrete_valuations st)(n \<mapsto> e)\<rparr>))"

record Frame =
  fr_cfg :: Cfg
  fr_scope :: string
  fr_return_label :: label

text \<open>The call stack is listed from the back of the deque, the frame that runs.\<close>

record 'e Context =
  cx_cycle :: cycle
  cx_state :: "'e State"
  call_stack :: "Frame list"

definition getFrame :: "'e Context \<Rightarrow> Frame res" where
  "getFrame cx = (case call_stack cx of [] \<Rightarrow> Inl Assert_Failed | f # _ \<Rightarrow> Inr f)"

definition pushFrame :: "Frame \<Rightarrow> 'e Context \<Rightarrow> 'e Context" where
  "pushFrame f cx = cx\<lparr>call_stack := f # call_stack cx\<rparr>"

definition popFrame :: "'e Context \<Rightarrow> 'e Context res" where
  "popFrame cx = (case call_stack cx of [] \<Rightarrow> Inl Assert_Failed | _ # fs \<Rightarrow> Inr (cx\<lparr>call_stack := fs\<rparr>))"

definition goto_vertex :: "Cfg \<Rightarrow> label \<Rightarrow> 'e Context \<Rightarrow> 'e Context res" where
  "goto_vertex c l cx = rbind (getVertex c l) (\<lambda>v. Inr (cx\<lparr>cx_state := (cx_state cx)\<lparr>vertex := v\<rparr>\<rparr>))"

text \<open>
  For printing, the cycle is read behind the first pair of underscores of a name.  The library function
  \<^verbatim>\<open>std::stoi\<close> skips white space and takes a sign and digits; it fails on other text and on numbers that
  are no \<^verbatim>\<open>int\<close>.
\<close>

fun find_mark :: "string \<Rightarrow> string option" where
  "find_mark (a # b # s) = (if a = CHR ''_'' \<and> b = CHR ''_'' then Some s else find_mark (b # s))"
| "find_mark _ = None"

definition digit :: "char \<Rightarrow> bool" where
  "digit c \<longleftrightarrow> 48 \<le> (of_char c :: nat) \<and> (of_char c :: nat) \<le> 57"

definition white :: "char \<Rightarrow> bool" where
  "white c \<longleftrightarrow> (of_char c :: nat) = 32 \<or> 9 \<le> (of_char c :: nat) \<and> (of_char c :: nat) \<le> 13"

definition number :: "string \<Rightarrow> nat" where
  "number ds = foldl (\<lambda>n c. 10 * n + (of_char c - 48)) 0 ds"

definition stoi :: "string \<Rightarrow> int res" where
  "stoi s =
     (let s = dropWhile white s;
          (sign, s) = (case s of c # r \<Rightarrow> if c = CHR ''-'' then (- 1, r) else if c = CHR ''+'' then (1, r) else (1, s) | [] \<Rightarrow> (1, s));
          ds = takeWhile digit s; i = sign * int (number ds)
      in if ds = [] then Inl (Logic_Error ''invalid_argument'')
         else if - 2147483648 \<le> i \<and> i \<le> 2147483647 then Inr i else Inl (Logic_Error ''out_of_range''))"

definition extract_cycle :: "string \<Rightarrow> cycle res" where
  "extract_cycle n = rbind (stoi (case find_mark n of None \<Rightarrow> drop 1 n | Some s \<Rightarrow> s)) (\<lambda>i. Inr (word_of_int i))"

section \<open>The evaluator\<close>

datatype shadow_mode = NONE | OLD | NEW

text \<open>
  The visitor keeps operands on a stack; taking from an empty one is undefined.
\<close>

fun pop :: "'e list \<Rightarrow> ('e \<times> 'e list) res" where
  "pop [] = Inl Out_Of_Bounds"
| "pop (e # st) = Inr (e, st)"

definition both :: "('e \<Rightarrow> bool) \<Rightarrow> 'e \<Rightarrow> 'e \<Rightarrow> bool" where
  "both P a b \<longleftrightarrow> P a \<and> P b"

fun apply_binary :: "'e z3_api \<Rightarrow> BinaryOperator \<Rightarrow> 'e \<Rightarrow> 'e \<Rightarrow> 'e res" where
  "apply_binary z GREATER_THAN_OR_EQUAL_TO a b = rassert (both (is_arith z) a b) (Inr (z3_ge z a b))"
| "apply_binary z ADD a b = rassert (both (is_arith z) a b) (Inr (z3_add z a b))"
| "apply_binary z EQUALITY a b = rassert (both (is_arith z) a b \<or> both (is_bool z) a b) (Inr (z3_eq z a b))"
| "apply_binary z BOOLEAN_AND a b = rassert (both (is_bool z) a b) (Inr (z3_and z a b))"
| "apply_binary z BOOLEAN_OR a b = rassert (both (is_bool z) a b) (Inr (z3_or z a b))"
| "apply_binary z SUBTRACT a b = rassert (both (is_arith z) a b) (Inr (z3_sub z a b))"
| "apply_binary z LESS_THAN a b = rassert (both (is_arith z) a b) (Inr (z3_lt z a b))"
| "apply_binary z GREATER_THAN a b = rassert (both (is_arith z) a b) (Inr (z3_gt z a b))"
| "apply_binary z _ a b = Inl (Runtime_Error ''Unexpected binary operator encountered.'')"

fun apply_unary :: "'e z3_api \<Rightarrow> UnaryOperator \<Rightarrow> 'e \<Rightarrow> 'e res" where
  "apply_unary z NEGATION a = rassert (is_arith z a) (Inr (z3_neg z a))"
| "apply_unary z UNARY_PLUS a = Inl (Logic_Error ''Not implemented yet.'')"
| "apply_unary z COMPLEMENT a = rassert (is_bool z a) (Inr (z3_not z a))"

fun visit_constant :: "'e Solver \<Rightarrow> Constant \<Rightarrow> 'e list \<Rightarrow> 'e list res" where
  "visit_constant sv (BooleanConstant b) st = Inr (makeBooleanValue sv b # st)"
| "visit_constant sv (IntegerConstant i) st = Inr (makeIntegerValue sv i # st)"
| "visit_constant sv (TimeConstant i) st = Inr (makeIntegerValue sv i # st)"
| "visit_constant sv (EnumeratedValue _ i) st = rassert (i \<noteq> - 1) (Inr (makeIntegerValue sv i # st))"
| "visit_constant sv (NondeterministicConstant _) st = Inl (Logic_Error ''Not implemented yet.'')"

definition reference_name :: "'e Context \<Rightarrow> VariableReference \<Rightarrow> string res" where
  "reference_name cx r = rbind (getFrame cx) (\<lambda>f.
     Inr (contextualized_name (fr_scope f @ ''.'' @ getName r) (cx_cycle cx)))"

fun visit :: "'e Solver \<Rightarrow> shadow_mode \<Rightarrow> 'e Context \<Rightarrow> Expression \<Rightarrow> 'e list \<Rightarrow> 'e list res" where
  "visit sv mode cx (BinaryExpression bop l r) st =
     rbind (visit sv mode cx l st) (\<lambda>st. rbind (pop st) (\<lambda>(a, st).
     rbind (visit sv mode cx r st) (\<lambda>st. rbind (pop st) (\<lambda>(b, st).
     rbind (apply_binary (z3 sv) bop a b) (\<lambda>e. Inr (e # st))))))"
| "visit sv mode cx (BooleanToIntegerCast e) st = Inl (Logic_Error ''Not implemented yet.'')"
| "visit sv mode cx (ChangeExpression old new) st =
     (case mode of
        NONE \<Rightarrow> Inl (Runtime_Error ''ChangeExpression encountered while shadow processing mode is set to none!'')
      | OLD \<Rightarrow> visit sv mode cx old st
      | NEW \<Rightarrow> visit sv mode cx new st)"
| "visit sv mode cx (UnaryExpression uop e) st =
     rbind (visit sv mode cx e st) (\<lambda>st. rbind (pop st) (\<lambda>(a, st).
     rbind (apply_unary (z3 sv) uop a) (\<lambda>e. Inr (e # st))))"
| "visit sv mode cx (ConstantExpression c) st = visit_constant sv c st"
| "visit sv mode cx Undefined st = Inl (Logic_Error ''Not implemented yet.'')"
| "visit sv mode cx (Reference r) st =
     rbind (reference_name cx r) (\<lambda>n. rbind (getConcreteValuation (cx_state cx) n) (\<lambda>e. Inr (e # st)))"
| "visit sv mode cx (IntegerToBooleanCast e) st = Inl (Logic_Error ''Not implemented yet.'')"
| "visit sv mode cx (Phi v ops) st = Inl (Logic_Error ''Not implemented yet.'')"

definition evaluate :: "'e Solver \<Rightarrow> shadow_mode \<Rightarrow> Expression \<Rightarrow> 'e Context \<Rightarrow> 'e res" where
  "evaluate sv mode e cx = rbind (visit sv mode cx e []) (\<lambda>st. rassert (length st = 1) (rbind (pop st) (\<lambda>(v, _). Inr v)))"

section \<open>The executor\<close>

text \<open>The inputs of the whole program and the number of values drawn so far.\<close>

record Executor =
  whole_program_inputs :: "string list"
  drawn :: nat

definition isWholeProgramInput :: "Executor \<Rightarrow> string \<Rightarrow> bool" where
  "isWholeProgramInput ex n \<longleftrightarrow> n \<in> set (whole_program_inputs ex)"

definition initialize_executor :: "Cfg \<Rightarrow> Executor \<Rightarrow> Executor" where
  "initialize_executor c ex = ex\<lparr>whole_program_inputs := whole_program_inputs ex @ map getFullyQualifiedName (input_variables c)\<rparr>"

text \<open>The entry of a program or function block leads to its only successor.\<close>

definition handleEntryVertex :: "Cfg \<Rightarrow> Vertex \<Rightarrow> 'e Context \<Rightarrow> 'e Context res" where
  "handleEntryVertex c v cx =
     (let ls = getSucceedingLabels c (vx_label v)
      in rassert (length ls = 1) (rbind (idx ls 0) (\<lambda>l. goto_vertex c l cx)))"

text \<open>
  At the end of a cycle every variable gets its value for the next one: inputs a random value that the
  engine overwrites, all others the value they have.
\<close>

fun carry_over :: "'e Solver \<Rightarrow> cycle \<Rightarrow> Variable list \<Rightarrow> Executor \<times> 'e State \<Rightarrow> (Executor \<times> 'e State) res" where
  "carry_over sv cycle [] (ex, st) = Inr (ex, st)"
| "carry_over sv cycle (v # vs) (ex, st) =
     (let n = getFullyQualifiedName v
      in rbind (if isWholeProgramInput ex n then
                  rbind (makeRandomValue sv (drawn ex) (v_type v)) (\<lambda>(e, k). Inr (ex\<lparr>drawn := k\<rparr>, e))
                else rbind (getConcreteValuation st (contextualized_name n cycle)) (\<lambda>e. Inr (ex, e))) (\<lambda>(ex, e).
         rbind (setConcreteValuation (contextualized_name n (cycle + 1)) e st) (\<lambda>st.
           carry_over sv cycle vs (ex, st))))"

definition handleProgramExitVertex :: "'e Solver \<Rightarrow> Frame \<Rightarrow> Executor \<Rightarrow> 'e Context \<Rightarrow> (Executor \<times> 'e Context) res" where
  "handleProgramExitVertex sv f ex cx =
     rbind (flattened_interface (fr_cfg f)) (\<lambda>vs.
     rbind (carry_over sv (cx_cycle cx) (map snd vs) (ex, cx_state cx)) (\<lambda>(ex, st).
     rbind (goto_vertex (fr_cfg f) (fr_return_label f) (cx\<lparr>cx_state := st\<rparr>)) (\<lambda>cx'.
       Inr (ex, cx'\<lparr>cx_cycle := cx_cycle cx + 1\<rparr>))))"

definition handleFunctionBlockExitVertex :: "Frame \<Rightarrow> 'e Context \<Rightarrow> 'e Context res" where
  "handleFunctionBlockExitVertex f cx =
     rbind (popFrame cx) (\<lambda>cx. rbind (getFrame cx) (\<lambda>caller.
       goto_vertex (fr_cfg caller) (fr_return_label f) cx))"

text \<open>Storing a value and going on behind an assignment.\<close>

definition store :: "VariableReference \<Rightarrow> 'e \<Rightarrow> 'e Context \<Rightarrow> 'e Context res" where
  "store r e cx =
     rbind (reference_name cx r) (\<lambda>n. rbind (updateConcreteValuation n e (cx_state cx)) (\<lambda>st.
       Inr (cx\<lparr>cx_state := st\<rparr>)))"

definition fall_through :: "'e Context \<Rightarrow> 'e Context res" where
  "fall_through cx =
     rbind (getFrame cx) (\<lambda>f. rbind (getIntraproceduralEdge (fr_cfg f) (vx_label (vertex (cx_state cx)))) (\<lambda>e.
       goto_vertex (fr_cfg f) (target_label e) cx))"

definition visitAssignment :: "'e Solver \<Rightarrow> shadow_mode \<Rightarrow> VariableReference \<Rightarrow> Expression \<Rightarrow> 'e Context \<Rightarrow> 'e Context res" where
  "visitAssignment sv mode r e cx =
     rbind (evaluate sv mode e cx) (\<lambda>v. rbind (store r v cx) fall_through)"

definition visitCall :: "Variable \<Rightarrow> 'e Context \<Rightarrow> 'e Context res" where
  "visitCall x cx =
     rbind (getFrame cx) (\<lambda>f.
       let caller = fr_cfg f; l = vx_label (vertex (cx_state cx))
       in rbind (getIntraproceduralCallToReturnEdge caller l) (\<lambda>ret.
          rbind (getInterproceduralCallEdge caller l) (\<lambda>call.
            case v_type x of
              Derived ty \<Rightarrow>
                rbind (getCfg caller ty) (\<lambda>callee.
                  goto_vertex callee (target_label call)
                    (pushFrame \<lparr>fr_cfg = callee, fr_scope = fr_scope f @ ''.'' @ v_name x, fr_return_label = target_label ret\<rparr> cx))
            | _ \<Rightarrow> Inl Assert_Failed)))"

definition visitIf :: "'e Solver \<Rightarrow> shadow_mode \<Rightarrow> Expression \<Rightarrow> 'e Context \<Rightarrow> 'e Context res" where
  "visitIf sv mode e cx =
     rbind (evaluate sv mode e cx) (\<lambda>v.
       rassert (is_bool (z3 sv) v \<and> (is_true (z3 sv) v \<or> is_false (z3 sv) v))
         (rbind (getFrame cx) (\<lambda>f.
            let c = fr_cfg f; l = vx_label (vertex (cx_state cx))
            in rbind (getTrueEdge c l) (\<lambda>te. rbind (getVertex c (target_label te)) (\<lambda>_.
               rbind (getFalseEdge c l) (\<lambda>fe. rbind (getVertex c (target_label fe)) (\<lambda>_.
                 goto_vertex c (target_label (if is_true (z3 sv) v then te else fe)) cx)))))))"

definition visitHavoc :: "'e Solver \<Rightarrow> VariableReference \<Rightarrow> Executor \<Rightarrow> 'e Context \<Rightarrow> (Executor \<times> 'e Context) res" where
  "visitHavoc sv r ex cx =
     rbind (reference_name cx r) (\<lambda>_.
       let ty = v_type (getVariableAccess r)
       in rbind (makeConstant ty) (\<lambda>_. rbind (makeRandomValue sv (drawn ex) ty) (\<lambda>(e, k).
          rbind (store r e cx) (\<lambda>cx. rbind (fall_through cx) (\<lambda>cx. Inr (ex\<lparr>drawn := k\<rparr>, cx))))))"

definition keep_executor :: "Executor \<Rightarrow> 'e Context res \<Rightarrow> (Executor \<times> 'e Context) res" where
  "keep_executor ex m = rbind m (\<lambda>cx. Inr (ex, cx))"

definition handleRegularVertex :: "'e Solver \<Rightarrow> shadow_mode \<Rightarrow> Vertex \<Rightarrow> Executor \<Rightarrow> 'e Context \<Rightarrow> (Executor \<times> 'e Context) res" where
  "handleRegularVertex sv mode v ex cx =
     (case vx_instruction v of
        None \<Rightarrow> Inl Assert_Failed
      | Some i \<Rightarrow>
          (case i of
             AssignmentInstruction r e \<Rightarrow> keep_executor ex (visitAssignment sv mode r e cx)
           | CallInstruction x _ _ \<Rightarrow> keep_executor ex (visitCall x cx)
           | IfInstruction e _ _ \<Rightarrow> keep_executor ex (visitIf sv mode e cx)
           | HavocInstruction r \<Rightarrow> visitHavoc sv r ex cx
           | _ \<Rightarrow> Inl (Logic_Error ''Not implemented yet.'')))"

definition execute :: "'e Solver \<Rightarrow> shadow_mode \<Rightarrow> Executor \<Rightarrow> 'e Context \<Rightarrow> (Executor \<times> 'e Context) res" where
  "execute sv mode ex cx =
     rbind (getFrame cx) (\<lambda>f.
       let v = vertex (cx_state cx); c = fr_cfg f
       in case vx_type v of
            ENTRY \<Rightarrow>
              (if cfg_type c = FUNCTION then Inl (Logic_Error ''Not implemented yet.'')
               else keep_executor ex (handleEntryVertex c v cx))
          | REGULAR \<Rightarrow> handleRegularVertex sv mode v ex cx
          | EXIT \<Rightarrow>
              (case cfg_type c of
                 PROGRAM \<Rightarrow> handleProgramExitVertex sv f ex cx
               | FUNCTION_BLOCK \<Rightarrow> keep_executor ex (handleFunctionBlockExitVertex f cx)
               | FUNCTION \<Rightarrow> Inl (Logic_Error ''Not implemented yet.'')))"

section \<open>The explorer\<close>

text \<open>
  A coverage is a quotient of two counts; without branches it is the quotient of zero by zero, which
  is not a number and compares with nothing.
\<close>

type_synonym coverage = "rat option"

definition quotient :: "nat \<Rightarrow> nat \<Rightarrow> coverage" where
  "quotient c n = (if n = 0 then None else Some (of_nat c / of_nat n))"

definition less_coverage :: "coverage \<Rightarrow> coverage \<Rightarrow> bool" where
  "less_coverage a b = (case (a, b) of (Some x, Some y) \<Rightarrow> x < y | _ \<Rightarrow> False)"

record Explorer =
  statement_coverage :: coverage
  covered_statements :: "(label, bool) std_map"
  branch_coverage :: coverage
  covered_branches :: "(label, bool \<times> bool) std_map"

definition new_explorer :: Explorer where
  "new_explorer = \<lparr>statement_coverage = Some 0, covered_statements = [], branch_coverage = Some 0, covered_branches = []\<rparr>"

definition add_statement :: "label \<Rightarrow> Explorer \<Rightarrow> Explorer" where
  "add_statement l xp = xp\<lparr>covered_statements := emplace l False (covered_statements xp)\<rparr>"

definition add_branch :: "label \<Rightarrow> Explorer \<Rightarrow> Explorer" where
  "add_branch l xp = xp\<lparr>covered_branches := emplace l (False, False) (covered_branches xp)\<rparr>"

definition add_vertex :: "Vertex \<Rightarrow> Explorer \<Rightarrow> Explorer res" where
  "add_vertex v xp =
     (let l = vx_label v
      in case vx_type v of
           ENTRY \<Rightarrow> Inr (add_statement l xp)
         | EXIT \<Rightarrow> Inr (add_statement l xp)
         | REGULAR \<Rightarrow>
             (case vx_instruction v of
                None \<Rightarrow> Inl Assert_Failed
              | Some i \<Rightarrow>
                  (case i of
                     AssignmentInstruction _ _ \<Rightarrow> Inr (add_statement l xp)
                   | HavocInstruction _ \<Rightarrow> Inr (add_statement l xp)
                   | CallInstruction _ _ _ \<Rightarrow> Inr (add_statement l xp)
                   | SequenceInstruction body \<Rightarrow> rbind (containsIfInstruction body) (\<lambda>b.
                       Inr (if b then add_branch l (add_statement l xp) else add_statement l xp))
                   | IfInstruction _ _ _ \<Rightarrow> Inr (add_branch l (add_statement l xp))
                   | WhileInstruction _ _ _ \<Rightarrow> Inr (add_branch l (add_statement l xp))
                   | GotoInstruction _ \<Rightarrow> Inl (Runtime_Error ''Unexpected instruction encountered during coverage initialization.''))))"

fun add_vertices :: "Vertex list \<Rightarrow> Explorer \<Rightarrow> Explorer res" where
  "add_vertices [] xp = Inr xp"
| "add_vertices (v # vs) xp = rbind (add_vertex v xp) (add_vertices vs)"

fun initializeCoverage :: "Cfg \<Rightarrow> string list \<times> Explorer \<Rightarrow> (string list \<times> Explorer) res"
  and initialize_callees :: "(string \<times> Cfg) list \<Rightarrow> string list \<times> Explorer \<Rightarrow> (string list \<times> Explorer) res" where
  "initializeCoverage (Cfg ty name vars cfgs vertices edges en ex) (visited, xp) =
     rassert (name \<notin> set visited)
       (rbind (initialize_callees cfgs (name # visited, xp)) (\<lambda>(visited, xp).
          rbind (add_vertices (map snd vertices) xp) (\<lambda>xp. Inr (visited, xp))))"
| "initialize_callees [] (visited, xp) = Inr (visited, xp)"
| "initialize_callees ((n, c) # cs) (visited, xp) =
     rbind (if cfg_name c \<in> set visited then Inr (visited, xp) else initializeCoverage c (visited, xp)) (initialize_callees cs)"

definition initialize_explorer :: "Cfg \<Rightarrow> Explorer \<Rightarrow> Explorer res" where
  "initialize_explorer c xp = rbind (initializeCoverage c ([], xp)) (\<lambda>(_, xp). Inr xp)"

definition map_write :: "('k, 'v) std_map \<Rightarrow> 'k \<Rightarrow> ('v \<Rightarrow> 'v) \<Rightarrow> ('k, 'v) std_map res" where
  "map_write m k f = (if map_of m k = None then Inl Out_Of_Bounds else Inr (map (\<lambda>(k', v). (k', if k' = k then f v else v)) m))"

fun cover_branches :: "label \<Rightarrow> label \<Rightarrow> Edge list \<Rightarrow> (label, bool \<times> bool) std_map \<Rightarrow> (label, bool \<times> bool) std_map res" where
  "cover_branches l succeeding [] bs = Inr bs"
| "cover_branches l succeeding (e # es) bs =
     rbind (if succeeding \<noteq> target_label e then Inr bs
            else if edge_type e = TRUE_BRANCH then map_write bs l (\<lambda>(_, b). (True, b))
            else if edge_type e = FALSE_BRANCH then map_write bs l (\<lambda>(a, _). (a, True))
            else Inr bs) (cover_branches l succeeding es)"

definition count_statements :: "(label, bool) std_map \<Rightarrow> nat" where
  "count_statements m = length (filter snd m)"

definition count_branches :: "(label, bool \<times> bool) std_map \<Rightarrow> nat" where
  "count_branches m = sum_list (map (\<lambda>(_, a, b). of_bool a + of_bool b) m)"

definition updateCoverage :: "label \<Rightarrow> 'e Context \<Rightarrow> Explorer \<Rightarrow> ((bool \<times> bool) \<times> Explorer) res" where
  "updateCoverage l cx xp =
     rbind (getFrame cx) (\<lambda>f.
     rbind (map_write (covered_statements xp) l (\<lambda>_. True)) (\<lambda>ss.
     rbind (cover_branches l (vx_label (vertex (cx_state cx))) (getOutgoingEdges (fr_cfg f) l) (covered_branches xp)) (\<lambda>bs.
       let sc = quotient (count_statements ss) (length ss); bc = quotient (count_branches bs) (2 * length bs)
       in Inr ((less_coverage (statement_coverage xp) sc, less_coverage (branch_coverage xp) bc),
               \<lparr>statement_coverage = sc, covered_statements = ss, branch_coverage = bc, covered_branches = bs\<rparr>))))"

section \<open>The engine\<close>

record Engine =
  eng_cycle :: cycle
  explorer :: Explorer
  executor :: Executor

definition initialize_engine :: "Cfg \<Rightarrow> Engine \<Rightarrow> Engine res" where
  "initialize_engine c eg =
     rbind (initialize_explorer c (explorer eg)) (\<lambda>xp.
       Inr \<lparr>eng_cycle = 0, explorer = xp, executor = initialize_executor c (executor eg)\<rparr>)"

text \<open>Each variable starts with the value of the test case; inputs with their initialization.\<close>

fun initial_valuations ::
  "'e Solver \<Rightarrow> Engine \<Rightarrow> (string, 'e) std_map \<Rightarrow> Variable list \<Rightarrow> (string \<Rightarrow> 'e option) \<Rightarrow> (string \<Rightarrow> 'e option) res" where
  "initial_valuations sv eg initial [] m = Inr m"
| "initial_valuations sv eg initial (v # vs) m =
     (let n = getFullyQualifiedName v; k = contextualized_name n (eng_cycle eg)
      in rbind (if isWholeProgramInput (executor eg) n then
                  (case v_init v of Some c \<Rightarrow> makeValue sv c | None \<Rightarrow> makeDefaultValue sv (v_type v))
                else map_at initial n) (\<lambda>e.
         initial_valuations sv eg initial vs (if m k = None then m(k \<mapsto> e) else m)))"

definition initializeFromConcreteValuation :: "'e Solver \<Rightarrow> Engine \<Rightarrow> Cfg \<Rightarrow> (string, 'e) std_map \<Rightarrow> 'e Context res" where
  "initializeFromConcreteValuation sv eg c initial =
     rbind (getEntry c) (\<lambda>v.
     rbind (flattened_interface c) (\<lambda>vs.
     rbind (initial_valuations sv eg initial (map snd vs) (\<lambda>_. None)) (\<lambda>m.
       Inr \<lparr>cx_cycle = eng_cycle eg, cx_state = \<lparr>vertex = v, concrete_valuations = m\<rparr>,
            call_stack = [\<lparr>fr_cfg = c, fr_scope = cfg_name c, fr_return_label = entry_label c\<rparr>]\<rparr>)))"

text \<open>
  The labels executed in a cycle, grouped by the scope they ran in.  The step without a history is the
  step with one that is not kept.
\<close>

type_synonym history = "(cycle, ((string \<times> Cfg) \<times> label list) list) std_map"

definition record_label :: "'e Context \<Rightarrow> history \<Rightarrow> history res" where
  "record_label cx h =
     rbind (getFrame cx) (\<lambda>f.
       let l = vx_label (vertex (cx_state cx)); entry = ((fr_scope f, fr_cfg f), [l])
       in case map_of h (cx_cycle cx) of
            None \<Rightarrow> Inr (emplace (cx_cycle cx) [entry] h)
          | Some groups \<Rightarrow>
              (if groups = [] then Inl Out_Of_Bounds
               else map_write h (cx_cycle cx) (\<lambda>gs.
                 let (sc, ls) = last gs in if fst sc = fr_scope f then butlast gs @ [(sc, ls @ [l])] else gs @ [entry])))"

partial_function (option) step_loop ::
  "'e Solver \<Rightarrow> shadow_mode \<Rightarrow> ('e Context \<Rightarrow> 'h \<Rightarrow> 'h res) \<Rightarrow> Engine \<Rightarrow> 'e Context \<Rightarrow> 'h \<Rightarrow> (Engine \<times> 'e Context \<times> 'h) res option" where
  "step_loop sv mode note_label eg cx h =
     (if cx_cycle cx \<noteq> eng_cycle eg then Some (Inr (eg, cx, h))
      else
        (case rbind (note_label cx h) (\<lambda>h. rbind (execute sv mode (executor eg) cx) (\<lambda>(ex, cx').
                rbind (updateCoverage (vx_label (vertex (cx_state cx))) cx' (explorer eg)) (\<lambda>(_, xp).
                  Inr (eg\<lparr>explorer := xp, executor := ex\<rparr>, cx', h)))) of
           Inl e \<Rightarrow> Some (Inl e)
         | Inr (eg, cx, h) \<Rightarrow> step_loop sv mode note_label eg cx h))"

declare step_loop.simps [code]

definition step_with :: "'e Solver \<Rightarrow> shadow_mode \<Rightarrow> ('e Context \<Rightarrow> 'h \<Rightarrow> 'h res) \<Rightarrow> Engine \<Rightarrow> 'e Context \<Rightarrow> 'h \<Rightarrow> (Engine \<times> 'e Context \<times> 'h) res" where
  "step_with sv mode note_label eg cx h =
     rbind (case step_loop sv mode note_label eg cx h of None \<Rightarrow> Inl Diverges | Some r \<Rightarrow> r) (\<lambda>(eg, cx, h).
       Inr (eg\<lparr>eng_cycle := eng_cycle eg + 1\<rparr>, cx, h))"

definition step :: "'e Solver \<Rightarrow> shadow_mode \<Rightarrow> Engine \<Rightarrow> 'e Context \<Rightarrow> (Engine \<times> 'e Context) res" where
  "step sv mode eg cx = rbind (step_with sv mode (\<lambda>_ h. Inr h) eg cx ()) (\<lambda>(eg, cx, _). Inr (eg, cx))"

definition step_recording :: "'e Solver \<Rightarrow> shadow_mode \<Rightarrow> Engine \<Rightarrow> 'e Context \<Rightarrow> history \<Rightarrow> (Engine \<times> 'e Context \<times> history) res" where
  "step_recording sv mode eg cx h = step_with sv mode record_label eg cx h"

text \<open>The inputs of a cycle replace the values the exit of the program chose.\<close>

fun update_inputs :: "cycle \<Rightarrow> (string, 'e) std_map \<Rightarrow> 'e State \<Rightarrow> 'e State res" where
  "update_inputs cycle [] st = Inr st"
| "update_inputs cycle ((n, e) # ins) st =
     rbind (updateConcreteValuation (contextualized_name n cycle) e st) (update_inputs cycle ins)"

fun reached_valuations :: "Executor \<Rightarrow> cycle \<Rightarrow> Variable list \<Rightarrow> 'e State \<Rightarrow> (string, 'e) std_map \<Rightarrow> (string, 'e) std_map res" where
  "reached_valuations ex cycle [] st m = Inr m"
| "reached_valuations ex cycle (v # vs) st m =
     (let n = getFullyQualifiedName v
      in if isWholeProgramInput ex n then reached_valuations ex cycle vs st m
         else rbind (getConcreteValuation st (contextualized_name n cycle)) (\<lambda>e.
                reached_valuations ex cycle vs st (emplace n e m)))"

type_synonym 'e inputs = "(cycle, (string, 'e) std_map) std_map"

fun run_cycles :: "'e Solver \<Rightarrow> shadow_mode \<Rightarrow> Variable list \<Rightarrow> 'e inputs \<Rightarrow> Engine \<Rightarrow> 'e Context \<Rightarrow> history \<Rightarrow> 'e inputs \<Rightarrow>
    (Engine \<times> 'e Context \<times> history \<times> 'e inputs) res" where
  "run_cycles sv mode vs [] eg cx h reached = Inr (eg, cx, h, reached)"
| "run_cycles sv mode vs ((cycle, ins) # rest) eg cx h reached =
     rbind (update_inputs cycle ins (cx_state cx)) (\<lambda>st.
     rbind (step_recording sv mode eg (cx\<lparr>cx_state := st\<rparr>) h) (\<lambda>(eg, cx, h).
     rbind (reached_valuations (executor eg) cycle vs (cx_state cx) []) (\<lambda>m.
       run_cycles sv mode vs rest eg cx h (emplace cycle m reached))))"

definition run :: "'e Solver \<Rightarrow> shadow_mode \<Rightarrow> Engine \<Rightarrow> Cfg \<Rightarrow> (string, 'e) std_map \<Rightarrow> 'e inputs \<Rightarrow> (Engine \<times> history \<times> 'e inputs) res" where
  "run sv mode eg c initial inputs =
     rassert (initial \<noteq> [])
       (rbind (initialize_engine c eg) (\<lambda>eg.
        rbind (initializeFromConcreteValuation sv eg c initial) (\<lambda>cx.
        rassert (inputs \<noteq> [])
          (rbind (flattened_interface c) (\<lambda>vs.
           rbind (run_cycles sv mode (map snd vs) inputs eg cx [] []) (\<lambda>(eg, _, h, reached). Inr (eg, h, reached)))))))"

fun run_test_cycles :: "'e Solver \<Rightarrow> shadow_mode \<Rightarrow> 'e inputs \<Rightarrow> Engine \<Rightarrow> 'e Context \<Rightarrow> Engine res" where
  "run_test_cycles sv mode [] eg cx = Inr eg"
| "run_test_cycles sv mode ((cycle, ins) # rest) eg cx =
     rbind (update_inputs cycle ins (cx_state cx)) (\<lambda>st.
     rbind (step sv mode eg (cx\<lparr>cx_state := st\<rparr>)) (\<lambda>(eg, cx). run_test_cycles sv mode rest eg cx))"

definition reset :: "Engine \<Rightarrow> Engine" where
  "reset eg = eg\<lparr>eng_cycle := 0\<rparr>"

fun run_tests :: "'e Solver \<Rightarrow> shadow_mode \<Rightarrow> Cfg \<Rightarrow> ((string, 'e) std_map \<times> 'e inputs) list \<Rightarrow> Engine \<Rightarrow> Engine res" where
  "run_tests sv mode c [] eg = Inr eg"
| "run_tests sv mode c ((initial, inputs) # tests) eg =
     rbind (initializeFromConcreteValuation sv eg c initial) (\<lambda>cx.
     rbind (run_test_cycles sv mode inputs eg cx) (\<lambda>eg. run_tests sv mode c tests (reset eg)))"

definition run_test_cases :: "'e Solver \<Rightarrow> shadow_mode \<Rightarrow> Engine \<Rightarrow> Cfg \<Rightarrow> ((string, 'e) std_map \<times> 'e inputs) list \<Rightarrow> Engine res" where
  "run_test_cases sv mode eg c tests = rbind (initialize_engine c eg) (run_tests sv mode c tests)"

end
