(* ===== verification/Ahorn_Meaning.thy ===== *)
theory Ahorn_Meaning
  imports Ahorn_Simulator
begin

text \<open>
  What the evaluator of the simulator computes: the meaning of an expression over integers and truth
  values, and a type system under which it never fails.
\<close>


section \<open>Constants\<close>

text \<open>
  What the simulator relies on (the documentation of Z3): numerals and truth values are constants of
  sorts of their own, and the operators on constants simplify to the constant of their result; numbers
  are mathematical integers.
\<close>

definition z3_values :: "'e z3_api \<Rightarrow> bool" where
  "z3_values z \<longleftrightarrow>
     (\<forall>i. is_arith z (int_val z i) \<and> \<not> is_bool z (int_val z i))
   \<and> (\<forall>b. is_bool z (bool_val z b) \<and> \<not> is_arith z (bool_val z b) \<and> is_true z (bool_val z b) = b \<and> is_false z (bool_val z b) = (\<not> b))
   \<and> (\<forall>i j. z3_ge z (int_val z i) (int_val z j) = bool_val z (j \<le> i) \<and> z3_gt z (int_val z i) (int_val z j) = bool_val z (j < i)
        \<and> z3_lt z (int_val z i) (int_val z j) = bool_val z (i < j) \<and> z3_eq z (int_val z i) (int_val z j) = bool_val z (i = j)
        \<and> z3_add z (int_val z i) (int_val z j) = int_val z (i + j) \<and> z3_sub z (int_val z i) (int_val z j) = int_val z (i - j)
        \<and> z3_neg z (int_val z i) = int_val z (- i))
   \<and> (\<forall>a b. z3_eq z (bool_val z a) (bool_val z b) = bool_val z (a = b) \<and> z3_and z (bool_val z a) (bool_val z b) = bool_val z (a \<and> b)
        \<and> z3_or z (bool_val z a) (bool_val z b) = bool_val z (a \<or> b) \<and> z3_not z (bool_val z a) = bool_val z (\<not> a))"

datatype val = IntV int | BoolV bool

fun const_of :: "'e z3_api \<Rightarrow> val \<Rightarrow> 'e" where
  "const_of z (IntV i) = int_val z i"
| "const_of z (BoolV b) = bool_val z b"

fun type_of :: "val \<Rightarrow> expression_type" where
  "type_of (IntV _) = ARITHMETIC"
| "type_of (BoolV _) = BOOLEAN"

lemma z3_embed:
  assumes "z3_values z"
  shows "is_arith z (const_of z v) \<longleftrightarrow> type_of v = ARITHMETIC" "is_bool z (const_of z v) \<longleftrightarrow> type_of v = BOOLEAN"
  using assms by (cases v; simp add: z3_values_def)+

lemma embed_inject: "z3_values z \<Longrightarrow> is_bool z (const_of z (BoolV b)) \<and> (is_true z (const_of z (BoolV b)) \<longleftrightarrow> b) \<and> (is_false z (const_of z (BoolV b)) \<longleftrightarrow> \<not> b)"
  by (simp add: z3_values_def)

section \<open>The meaning of expressions\<close>

fun mean_binary :: "BinaryOperator \<Rightarrow> val \<Rightarrow> val \<Rightarrow> val option" where
  "mean_binary ADD (IntV i) (IntV j) = Some (IntV (i + j))"
| "mean_binary SUBTRACT (IntV i) (IntV j) = Some (IntV (i - j))"
| "mean_binary GREATER_THAN (IntV i) (IntV j) = Some (BoolV (i > j))"
| "mean_binary LESS_THAN (IntV i) (IntV j) = Some (BoolV (i < j))"
| "mean_binary GREATER_THAN_OR_EQUAL_TO (IntV i) (IntV j) = Some (BoolV (i \<ge> j))"
| "mean_binary EQUALITY (IntV i) (IntV j) = Some (BoolV (i = j))"
| "mean_binary EQUALITY (BoolV a) (BoolV b) = Some (BoolV (a = b))"
| "mean_binary BOOLEAN_AND (BoolV a) (BoolV b) = Some (BoolV (a \<and> b))"
| "mean_binary BOOLEAN_OR (BoolV a) (BoolV b) = Some (BoolV (a \<or> b))"
| "mean_binary _ _ _ = None"

fun mean_unary :: "UnaryOperator \<Rightarrow> val \<Rightarrow> val option" where
  "mean_unary NEGATION (IntV i) = Some (IntV (- i))"
| "mean_unary COMPLEMENT (BoolV b) = Some (BoolV (\<not> b))"
| "mean_unary _ _ = None"

fun mean_constant :: "Constant \<Rightarrow> val option" where
  "mean_constant (BooleanConstant b) = Some (BoolV b)"
| "mean_constant (IntegerConstant i) = Some (IntV i)"
| "mean_constant (TimeConstant i) = Some (IntV i)"
| "mean_constant (EnumeratedValue _ i) = (if i = - 1 then None else Some (IntV i))"
| "mean_constant (NondeterministicConstant _) = None"

definition bind2 :: "'a option \<Rightarrow> 'b option \<Rightarrow> ('a \<Rightarrow> 'b \<Rightarrow> 'c option) \<Rightarrow> 'c option" where
  "bind2 a b f = Option.bind a (\<lambda>x. Option.bind b (f x))"

fun meaning :: "shadow_mode \<Rightarrow> (string \<Rightarrow> val option) \<Rightarrow> Expression \<Rightarrow> val option" where
  "meaning mode \<rho> (ConstantExpression c) = mean_constant c"
| "meaning mode \<rho> (Reference r) = \<rho> (getName r)"
| "meaning mode \<rho> (BinaryExpression bop l r) = bind2 (meaning mode \<rho> l) (meaning mode \<rho> r) (mean_binary bop)"
| "meaning mode \<rho> (UnaryExpression uop e) = Option.bind (meaning mode \<rho> e) (mean_unary uop)"
| "meaning mode \<rho> (ChangeExpression old new) =
     (case mode of NONE \<Rightarrow> None | OLD \<Rightarrow> meaning mode \<rho> old | NEW \<Rightarrow> meaning mode \<rho> new)"
| "meaning mode \<rho> _ = None"

text \<open>The values a frame sees under the names of its expressions.\<close>

definition sees :: "'e z3_api \<Rightarrow> 'e Context \<Rightarrow> Frame \<Rightarrow> (string \<Rightarrow> val option) \<Rightarrow> bool" where
  "sees z cx f \<rho> \<longleftrightarrow> (\<forall>n. concrete_valuations (cx_state cx) (contextualized_name (fr_scope f @ ''.'' @ n) (cx_cycle cx)) = map_option (const_of z) (\<rho> n))"

lemma apply_binary_means:
  assumes z: "z3_values z"
  shows "apply_binary z bop (const_of z a) (const_of z b) = Inr e \<longleftrightarrow> (\<exists>v. mean_binary bop a b = Some v \<and> e = const_of z v)"
  using z by (cases bop; cases a; cases b) (auto simp: z3_values_def both_def)

lemma apply_unary_means:
  assumes z: "z3_values z"
  shows "apply_unary z uop (const_of z a) = Inr e \<longleftrightarrow> (\<exists>v. mean_unary uop a = Some v \<and> e = const_of z v)"
  using z by (cases uop; cases a) (auto simp: z3_values_def)

lemma visit_constant_means:
  "visit_constant sv c st = Inr st' \<longleftrightarrow> (\<exists>v. mean_constant c = Some v \<and> st' = const_of (z3 sv) v # st)"
  by (cases c) (auto simp: makeBooleanValue_def makeIntegerValue_def)

lemma visit_means:
  assumes z: "z3_values (z3 sv)" and f: "getFrame cx = Inr f" and s: "sees (z3 sv) cx f \<rho>"
  shows "visit sv mode cx e st = Inr st' \<longleftrightarrow> (\<exists>v. meaning mode \<rho> e = Some v \<and> st' = const_of (z3 sv) v # st)"
proof (induction e arbitrary: st st')
  case (BinaryExpression bop l r)
  show ?case
    by (auto simp: rbind_eq_Inr BinaryExpression.IH apply_binary_means [OF z] bind2_def bind_eq_Some_conv)
next
  case (UnaryExpression uop e)
  show ?case by (auto simp: rbind_eq_Inr UnaryExpression.IH apply_unary_means [OF z] bind_eq_Some_conv)
next
  case (Reference r)
  have "concrete_valuations (cx_state cx) (contextualized_name (fr_scope f @ ''.'' @ getName r) (cx_cycle cx)) = map_option (const_of (z3 sv)) (\<rho> (getName r))"
    using s unfolding sees_def by blast
  then show ?case by (cases "\<rho> (getName r)") (auto simp: reference_name_def f getConcreteValuation_def)
next
  case (ChangeExpression old new)
  then show ?case by (cases mode) simp_all
qed (simp_all add: visit_constant_means)

lemma evaluate_means:
  assumes "z3_values (z3 sv)" "getFrame cx = Inr f" "sees (z3 sv) cx f \<rho>"
  shows "evaluate sv mode e cx = Inr w \<longleftrightarrow> (\<exists>v. meaning mode \<rho> e = Some v \<and> w = const_of (z3 sv) v)"
  unfolding evaluate_def by (auto simp: rbind_eq_Inr visit_means [OF assms])

section \<open>Types\<close>

fun type_binary :: "BinaryOperator \<Rightarrow> expression_type \<Rightarrow> expression_type \<Rightarrow> expression_type option" where
  "type_binary bop a b =
     (if bop \<in> {ADD, SUBTRACT} \<and> a = ARITHMETIC \<and> b = ARITHMETIC then Some ARITHMETIC
      else if bop \<in> {GREATER_THAN, LESS_THAN, GREATER_THAN_OR_EQUAL_TO} \<and> a = ARITHMETIC \<and> b = ARITHMETIC then Some BOOLEAN
      else if bop = EQUALITY \<and> a = b \<and> a \<noteq> UNDEFINED then Some BOOLEAN
      else if bop \<in> {BOOLEAN_AND, BOOLEAN_OR} \<and> a = BOOLEAN \<and> b = BOOLEAN then Some BOOLEAN
      else None)"

fun type_unary :: "UnaryOperator \<Rightarrow> expression_type \<Rightarrow> expression_type option" where
  "type_unary uop a =
     (if uop = NEGATION \<and> a = ARITHMETIC then Some ARITHMETIC
      else if uop = COMPLEMENT \<and> a = BOOLEAN then Some BOOLEAN else None)"

fun typed :: "shadow_mode \<Rightarrow> (string \<Rightarrow> expression_type option) \<Rightarrow> Expression \<Rightarrow> expression_type option" where
  "typed mode \<Gamma> (ConstantExpression c) = map_option type_of (mean_constant c)"
| "typed mode \<Gamma> (Reference r) = \<Gamma> (getName r)"
| "typed mode \<Gamma> (BinaryExpression bop l r) = bind2 (typed mode \<Gamma> l) (typed mode \<Gamma> r) (type_binary bop)"
| "typed mode \<Gamma> (UnaryExpression uop e) = Option.bind (typed mode \<Gamma> e) (type_unary uop)"
| "typed mode \<Gamma> (ChangeExpression old new) =
     (case mode of NONE \<Rightarrow> None | OLD \<Rightarrow> typed mode \<Gamma> old | NEW \<Rightarrow> typed mode \<Gamma> new)"
| "typed mode \<Gamma> _ = None"

lemma type_of_cases: "type_of v = ARITHMETIC \<longleftrightarrow> (\<exists>i. v = IntV i)" "type_of v = BOOLEAN \<longleftrightarrow> (\<exists>b. v = BoolV b)" "type_of v \<noteq> UNDEFINED"
  by (cases v; simp)+

lemma binary_typed: "type_binary bop (type_of a) (type_of b) = Some t \<Longrightarrow> \<exists>v. mean_binary bop a b = Some v \<and> type_of v = t"
  by (cases bop; cases a; cases b) auto

lemma unary_typed: "type_unary uop (type_of a) = Some t \<Longrightarrow> \<exists>v. mean_unary uop a = Some v \<and> type_of v = t"
  by (cases uop; cases a) auto

lemma meaning_typed:
  assumes "\<And>n t. \<Gamma> n = Some t \<Longrightarrow> \<exists>v. \<rho> n = Some v \<and> type_of v = t"
  shows "typed mode \<Gamma> e = Some t \<Longrightarrow> \<exists>v. meaning mode \<rho> e = Some v \<and> type_of v = t"
proof (induction e arbitrary: t)
  case (BinaryExpression bop l r)
  then obtain a b where ab: "typed mode \<Gamma> l = Some a" "typed mode \<Gamma> r = Some b" "type_binary bop a b = Some t"
    by (auto simp: bind2_def bind_eq_Some_conv)
  from BinaryExpression.IH(1) [OF ab(1)] BinaryExpression.IH(2) [OF ab(2)]
  obtain x y where "meaning mode \<rho> l = Some x" "type_of x = a" "meaning mode \<rho> r = Some y" "type_of y = b" by blast
  then show ?case using ab(3) binary_typed [of bop x y t] by (simp add: bind2_def)
next
  case (UnaryExpression uop e)
  then obtain a where a: "typed mode \<Gamma> e = Some a" "type_unary uop a = Some t" by (auto simp: bind_eq_Some_conv)
  from UnaryExpression.IH [OF a(1)] obtain x where "meaning mode \<rho> e = Some x" "type_of x = a" by blast
  then show ?case using a(2) unary_typed [of uop x t] by simp
qed (use assms in \<open>auto split: shadow_mode.splits\<close>)

end
