(* ===== verification/Ahorn_Flat.thy ===== *)
theory Ahorn_Flat
  imports Ahorn_Simulator
begin

text \<open>
  The flattened interface of a control-flow graph: under which names it has the variables of the graph
  and of the graphs its variables stand for.
\<close>


section \<open>Insertions\<close>

lemma fold_emplace:
  assumes "sorted_map m"
  shows "sorted_map (fold (\<lambda>p. emplace (fst p) (snd p)) kvs m)"
    and "map_of (fold (\<lambda>p. emplace (fst p) (snd p)) kvs m) = map_of (m @ kvs)"
proof -
  have "sorted_map (fold (\<lambda>p. emplace (fst p) (snd p)) kvs m) \<and> map_of (fold (\<lambda>p. emplace (fst p) (snd p)) kvs m) = map_of (m @ kvs)"
    using assms
  proof (induction kvs arbitrary: m)
    case (Cons p kvs)
    have s: "sorted_map (emplace (fst p) (snd p) m)" by (rule sorted_emplace [OF Cons.prems])
    have "map_of (emplace (fst p) (snd p) m @ kvs) = map_of (m @ p # kvs)"
      by (cases p) (auto simp: map_add_def fun_eq_iff map_of_emplace [OF Cons.prems] split: option.splits)
    then show ?case using Cons.IH [OF s] by simp
  qed simp
  then show "sorted_map (fold (\<lambda>p. emplace (fst p) (snd p)) kvs m)" "map_of (fold (\<lambda>p. emplace (fst p) (snd p)) kvs m) = map_of (m @ kvs)"
    by simp_all
qed

lemma map_of_sorted: "sorted_map m \<Longrightarrow> (k, v) \<in> set m \<Longrightarrow> map_of m k = Some v"
  by (rule map_of_is_SomeI) (auto simp: strict_sorted_iff)

text \<open>
  Entries whose keys have different roots do not hide each other.
\<close>

lemma map_of_concat_roots:
  assumes "distinct (map rt vs)" "v \<in> set vs" "\<And>v k w. v \<in> set vs \<Longrightarrow> (k, w) \<in> set (gen v) \<Longrightarrow> rootk k = rt v" "rootk k = rt v"
  shows "map_of (concat (map gen vs)) k = map_of (gen v) k"
  using assms
proof (induction vs)
  case (Cons u vs)
  show ?case
  proof (cases "u = v")
    case True
    have "map_of (concat (map gen vs)) k = None"
    proof (rule map_of_notin)
      fix x assume "x \<in> set (map fst (concat (map gen vs)))"
      then obtain v' w where v': "v' \<in> set vs" "(x, w) \<in> set (gen v')" by auto
      then have "rootk x = rt v'" "rt v' \<noteq> rt u" using Cons.prems(1) Cons.prems(3) [of v' x w] by (auto simp: rev_image_eqI)
      then show "k \<noteq> x" using Cons.prems(4) True by auto
    qed
    then show ?thesis using True by (simp add: map_add_def split: option.splits)
  next
    case False
    then have v: "v \<in> set vs" using Cons.prems(2) by simp
    have "map_of (gen u) k = None"
    proof (rule map_of_notin)
      fix x assume "x \<in> set (map fst (gen u))"
      then obtain w where "(x, w) \<in> set (gen u)" by auto
      then have "rootk x = rt u" using Cons.prems(3) by simp
      moreover have "rt u \<noteq> rt v" using Cons.prems(1) v by (auto simp: rev_image_eqI)
      ultimately show "k \<noteq> x" using Cons.prems(4) by auto
    qed
    then show ?thesis using Cons.IH [OF _ v Cons.prems(3)] Cons.prems(1,4) by (simp add: map_add_def split: option.splits)
  qed
qed simp

section \<open>Names\<close>

definition plain :: "string \<Rightarrow> bool" where
  "plain n \<longleftrightarrow> CHR ''.'' \<notin> set n"

definition root_name :: "string \<Rightarrow> string" where
  "root_name n = takeWhile (\<lambda>c. c \<noteq> CHR ''.'') n"

lemma root_name_plain [simp]: "plain x \<Longrightarrow> root_name x = x" "plain x \<Longrightarrow> root_name (x @ CHR ''.'' # n) = x"
  by (auto simp: root_name_def plain_def takeWhile_append)

fun wf_names :: "Cfg \<Rightarrow> bool" where
  "wf_names (Cfg ty name vars cfgs vertices edges en ex) \<longleftrightarrow>
     sorted_map vars
   \<and> (\<forall>p \<in> set vars. v_name (snd p) = fst p \<and> plain (fst p)
        \<and> (case v_type (snd p) of Derived t \<Rightarrow> t \<in> fst ` set cfgs | _ \<Rightarrow> True))
   \<and> (\<forall>p \<in> set cfgs. fst p = cfg_name (snd p) \<and> wf_names (snd p))"

definition flat :: "Cfg \<Rightarrow> (string, Variable) std_map" where
  "flat c = (case flattened_interface c of Inr m \<Rightarrow> m | Inl _ \<Rightarrow> [])"

section \<open>What a variable adds\<close>

definition adds :: "string \<Rightarrow> (string \<times> Cfg) list \<Rightarrow> Variable \<Rightarrow> (string, Variable) std_map" where
  "adds parent cfgs v =
     (case v_type v of
        Derived ty \<Rightarrow> (case map_of cfgs ty of None \<Rightarrow> []
          | Some d \<Rightarrow> map (\<lambda>p. let w = flatten_nested parent (v_name v) ty (snd p) in (v_name w, w)) (flat d))
      | _ \<Rightarrow> [(v_name v, flatten_own parent v)])"

definition flat_ok :: "Cfg \<Rightarrow> bool" where
  "flat_ok c \<longleftrightarrow> flattened_interface c = Inr (flat c) \<and> sorted_map (flat c)
     \<and> (\<forall>p \<in> set (flat c). v_name (snd p) = fst p \<and> v_parent (snd p) = Some (cfg_name c))"

lemma map_of_subs: "map_of (map (\<lambda>p. (fst p, f (snd p))) cs) k = map_option f (map_of cs k)"
  by (induction cs) auto

lemma flatten_variable_adds:
  assumes "case v_type v of Derived t \<Rightarrow> t \<in> fst ` set cfgs | _ \<Rightarrow> True" "\<forall>p \<in> set cfgs. flat_ok (snd p)"
  shows "flatten_variable name (map (\<lambda>p. (fst p, flattened_interface (snd p))) cfgs) v acc
    = Inr (fold (\<lambda>p. emplace (fst p) (snd p)) (adds name cfgs v) acc)"
proof (cases "v_type v")
  case (Derived t)
  then have "map_of cfgs t \<noteq> None" using assms(1) by (simp add: map_of_eq_None_iff)
  then obtain d where d: "map_of cfgs t = Some d" by blast
  then have "flattened_interface d = Inr (flat d)" using assms(2) map_of_SomeD [OF d] by (force simp: flat_ok_def)
  then show ?thesis using Derived d
    by (simp add: flatten_variable_def adds_def map_at_def map_of_subs fold_map comp_def Let_def)
qed (simp_all add: flatten_variable_def adds_def flatten_own_def)

lemma flatten_variables_adds:
  assumes "\<forall>v \<in> set vs. case v_type v of Derived t \<Rightarrow> t \<in> fst ` set cfgs | _ \<Rightarrow> True" "\<forall>p \<in> set cfgs. flat_ok (snd p)"
  shows "flatten_variables name (map (\<lambda>p. (fst p, flattened_interface (snd p))) cfgs) vs acc
    = Inr (fold (\<lambda>p. emplace (fst p) (snd p)) (concat (map (adds name cfgs) vs)) acc)"
  using assms(1)
proof (induction vs arbitrary: acc)
  case (Cons v vs)
  then show ?case using flatten_variable_adds [OF _ assms(2), of v name acc] by simp
qed simp

lemma nested_name:
  assumes "v_parent w = Some ty"
  shows "v_name (flatten_nested parent x ty w) = x @ ''.'' @ v_name w"
  using assms by (simp add: flatten_nested_def replace_prefix_def getFullyQualifiedName_def)

lemma adds_name:
  assumes "\<forall>p \<in> set cfgs. flat_ok (snd p) \<and> fst p = cfg_name (snd p)" "plain (v_name v)" "p \<in> set (adds name cfgs v)"
  shows "v_name (snd p) = fst p" "v_parent (snd p) = Some name" "root_name (fst p) = v_name v"
proof -
  show "v_name (snd p) = fst p" "v_parent (snd p) = Some name"
    using assms(3) by (auto simp: adds_def flatten_own_def flatten_nested_def Let_def split: data_type.splits option.splits)
  show "root_name (fst p) = v_name v"
  proof (cases "v_type v")
    case (Derived ty)
    then obtain d where d0: "map_of cfgs ty = Some d" using assms(3) by (cases "map_of cfgs ty") (simp_all add: adds_def)
    then obtain q where "q \<in> set (flat d)" "fst p = v_name (flatten_nested name (v_name v) ty (snd q))"
      using assms(3) Derived by (auto simp: adds_def Let_def)
    note d = d0 this
    have "v_parent (snd q) = Some ty" using assms(1) map_of_SomeD [OF d(1)] d(2) by (force simp: flat_ok_def)
    then show ?thesis using d(3) assms(2) by (simp add: nested_name)
  qed (use assms in \<open>auto simp: adds_def\<close>)
qed

lemma flat_adds:
  assumes wf: "wf_names (Cfg ty name vars cfgs vertices edges en ex)" and ok: "\<forall>p \<in> set cfgs. flat_ok (snd p)"
  shows "flat_ok (Cfg ty name vars cfgs vertices edges en ex)"
    and "map_of (flat (Cfg ty name vars cfgs vertices edges en ex)) = map_of (concat (map (adds name cfgs) (map snd vars)))"
proof -
  let ?c = "Cfg ty name vars cfgs vertices edges en ex"
  let ?kvs = "concat (map (adds name cfgs) (map snd vars))"
  let ?m = "fold (\<lambda>p. emplace (fst p) (snd p)) ?kvs []"
  have "flattened_interface ?c = Inr ?m"
    unfolding flattened_interface.simps by (rule flatten_variables_adds) (use wf ok in auto)
  then have f: "flattened_interface ?c = Inr (flat ?c)" "flat ?c = ?m" by (simp_all add: flat_def del: flattened_interface.simps)
  have m: "sorted_map ?m" "map_of ?m = map_of ?kvs" using fold_emplace [of "[]" ?kvs] by simp_all
  have "v_name (snd p) = fst p \<and> v_parent (snd p) = Some name" if "p \<in> set ?m" for p
  proof -
    have "map_of ?kvs (fst p) = Some (snd p)" using map_of_sorted [OF m(1), of "fst p" "snd p"] that m(2) by simp
    then have "(fst p, snd p) \<in> set ?kvs" by (rule map_of_SomeD)
    then obtain q where q: "q \<in> set vars" "(fst p, snd p) \<in> set (adds name cfgs (snd q))" by auto
    then have "plain (v_name (snd q))" using wf by auto
    from adds_name(1,2) [OF _ this q(2)] wf ok show ?thesis by auto
  qed
  then show "flat_ok ?c" using f m by (simp add: flat_ok_def)
  show "map_of (flat ?c) = map_of ?kvs" using f(2) m(2) by simp
qed

lemma wf_names_flat: "wf_names c \<Longrightarrow> flat_ok c"
proof (induction c)
  case (Cfg ty name vars cfgs vertices edges en ex)
  have "\<forall>p \<in> set cfgs. flat_ok (snd p)"
  proof
    fix p assume p: "p \<in> set cfgs"
    then have "wf_names (snd p)" using Cfg.prems by auto
    then show "flat_ok (snd p)" using Cfg.IH [OF p, of "snd p"] by (cases p) auto
  qed
  then show ?case using flat_adds(1) [OF Cfg.prems] by blast
qed

lemma flat_lookup:
  assumes wf: "wf_names c" and v: "(x, v) \<in> set (cfg_interface c)" and k: "root_name k = x"
  shows "map_of (flat c) k = map_of (adds (cfg_name c) (name_to_cfg c) v) k"
proof (cases c)
  case (Cfg ty name vars cfgs vertices edges en ex)
  note w = wf [unfolded Cfg]
  have ok: "\<forall>p \<in> set cfgs. flat_ok (snd p)" using w wf_names_flat by auto
  have v': "(x, v) \<in> set vars" using v Cfg by simp
  have names: "map v_name (map snd vars) = map fst vars" using w by (induction vars) auto
  have "map_of (concat (map (adds name cfgs) (map snd vars))) k = map_of (adds name cfgs v) k"
  proof (rule map_of_concat_roots [where rt = v_name and rootk = root_name])
    show "distinct (map v_name (map snd vars))" unfolding names using w by (simp add: strict_sorted_iff)
    show "v \<in> set (map snd vars)" using v' by force
    show "root_name k = v_name v" using k v' w by auto
  next
    fix u j w' assume u: "u \<in> set (map snd vars)" "(j, w') \<in> set (adds name cfgs u)"
    then have "plain (v_name u)" using w by auto
    from adds_name(3) [OF _ this u(2)] w ok show "root_name j = v_name u" by auto
  qed
  then show ?thesis using flat_adds(2) [OF w ok] Cfg by simp
qed

text \<open>
  The flattened interface has the variables of the graph under their own names, and those of the
  graphs of its variables under the path that leads to them.
\<close>

lemma flat_own:
  assumes wf: "wf_names c" and v: "(x, v) \<in> set (cfg_interface c)" and t: "\<forall>ty. v_type v \<noteq> Derived ty"
  shows "map_of (flat c) x = Some (flatten_own (cfg_name c) v)"
proof -
  have "v_name v = x" "plain x" using wf v by (cases c; force)+
  then show ?thesis using flat_lookup [OF wf v, of x] t by (cases "v_type v") (auto simp: adds_def)
qed

lemma flat_nested:
  assumes wf: "wf_names c" and v: "(x, v) \<in> set (cfg_interface c)" and t: "v_type v = Derived ty"
    and d: "map_of (name_to_cfg c) ty = Some d" and n: "map_of (flat d) n = Some w"
  shows "map_of (flat c) (x @ ''.'' @ n) = Some (flatten_nested (cfg_name c) x ty w)"
proof -
  have x: "v_name v = x" "plain x" using wf v by (cases c; force)+
  have wd: "wf_names d" "cfg_name d = ty" using wf map_of_SomeD [OF d] by (cases c; force)+
  note ok = wf_names_flat [OF wd(1), unfolded flat_ok_def]
  let ?f = "\<lambda>p. let w = flatten_nested (cfg_name c) x ty (snd p) in (v_name w, w)"
  have "map_of (map ?f (flat d)) (x @ ''.'' @ n) = Some (flatten_nested (cfg_name c) x ty w)"
  proof (rule map_of_is_SomeI)
    have e: "map fst (map ?f (flat d)) = map (\<lambda>n. x @ ''.'' @ n) (map fst (flat d))"
      using ok wd(2) by (auto simp: nested_name Let_def)
    have "distinct (map fst (flat d))" using ok strict_sorted_iff by blast
    then show "distinct (map fst (map ?f (flat d)))"
      unfolding e by (subst distinct_map) (simp add: inj_on_def)
    have "(n, w) \<in> set (flat d)" by (rule map_of_SomeD [OF n])
    then show "(x @ ''.'' @ n, flatten_nested (cfg_name c) x ty w) \<in> set (map ?f (flat d))"
      using ok wd(2) by (force simp: nested_name Let_def)
  qed
  then show ?thesis using flat_lookup [OF wf v, of "x @ ''.'' @ n"] x t d by (simp add: adds_def)
qed

end
