(* ===== verification/Ahorn_Names.thy ===== *)
theory Ahorn_Names
  imports Ahorn_Simulator
begin

text \<open>
  The names of values in cycles: no two variables and no two cycles share one, and the number in a name
  can be read back.
\<close>

section \<open>Contextualized names\<close>

lemma digit_char [simp]: "n < 10 \<Longrightarrow> digit (char_of (48 + n :: nat))" "n < 10 \<Longrightarrow> (of_char (char_of (48 + n :: nat)) :: nat) = 48 + n"
  by (simp_all add: digit_def)

lemma not_digit_mark [simp]: "\<not> digit (CHR ''_'')"
  by (simp add: digit_def)

lemma to_string_digits: "\<forall>c \<in> set (to_string n). digit c" "to_string n \<noteq> []"
  by (induction n rule: to_string.induct; subst to_string.simps; simp)+

lemma number_to_string: "number (to_string n) = n"
proof (induction n rule: to_string.induct)
  case (1 n)
  then show ?case by (cases "n < 10") (simp_all add: number_def to_string.simps [of n])
qed

lemma digit_not_white: "digit c \<Longrightarrow> \<not> white c \<and> c \<noteq> CHR ''-'' \<and> c \<noteq> CHR ''+''"
  by (auto simp: digit_def white_def)

lemma stoi_to_string: "n \<le> 2147483647 \<Longrightarrow> stoi (to_string n) = Inr (int n)"
proof -
  assume n: "n \<le> 2147483647"
  have t: "takeWhile digit (to_string n) = to_string n"
    unfolding takeWhile_eq_all_conv by (rule to_string_digits(1))
  obtain c r where c: "to_string n = c # r" "digit c" using to_string_digits [of n] by (cases "to_string n") auto
  have d: "dropWhile white (to_string n) = to_string n" using c digit_not_white by (simp add: c(1))
  have r: "takeWhile digit r = r" using t c by simp
  show ?thesis unfolding stoi_def Let_def d using c digit_not_white [OF c(2)] number_to_string [of n] n by (simp add: r)
qed

lemma to_string_inject: "to_string m = to_string n \<longleftrightarrow> m = n"
  using number_to_string by metis

lemma split_mark:
  assumes "\<forall>c \<in> set d. digit c" "\<forall>c \<in> set e. digit c" "a @ ''__'' @ d = b @ ''__'' @ e"
  shows "a = b \<and> d = e"
proof -
  have r: "rev d @ CHR ''_'' # CHR ''_'' # rev a = rev e @ CHR ''_'' # CHR ''_'' # rev b"
    using arg_cong [OF assms(3), of rev] by simp
  have t: "takeWhile digit (rev x @ CHR ''_'' # y) = rev x" if "\<forall>c \<in> set x. digit c" for x y
    using that by (simp add: takeWhile_append)
  have "rev d = rev e" using arg_cong [OF r, of "takeWhile digit"] t assms(1,2) by simp
  then show ?thesis using r by simp
qed

lemma contextualized_inject: "contextualized_name m c = contextualized_name n k \<longleftrightarrow> m = n \<and> c = k"
proof
  assume "contextualized_name m c = contextualized_name n k"
  then have "m = n \<and> to_string (unat c) = to_string (unat k)"
    unfolding contextualized_name_def by (intro split_mark to_string_digits)
  then show "m = n \<and> c = k" unfolding to_string_inject word_unat_eq_iff .
qed simp

end
