(* ===== verification/Ahorn_Ok.thy ===== *)
theory Ahorn_Ok
  imports Ahorn_Meaning Ahorn_Flat Ahorn_Names
begin

text \<open>
  Well-formed programs, and the invariant of the contexts the simulator executes: the call stack follows
  the variables of the graphs, every variable has a value of its type in the current cycle, and later cycles
  have none.
\<close>

section \<open>Well-formed programs\<close>

text \<open>What the variables of a graph may hold, by their flattened names.\<close>

definition env :: "Cfg \<Rightarrow> string \<Rightarrow> expression_type option" where
  "env c n = (case map_of (flat c) n of None \<Rightarrow> None
     | Some v \<Rightarrow> (case access_type (v_type v) of Inr t \<Rightarrow> Some t | Inl _ \<Rightarrow> None))"

definition has_vertex :: "Cfg \<Rightarrow> label \<Rightarrow> bool" where
  "has_vertex c l \<longleftrightarrow> map_of (label_to_vertex c) l \<noteq> None"

definition leads :: "Cfg \<Rightarrow> Edge res \<Rightarrow> bool" where
  "leads c m = (case m of Inr e \<Rightarrow> has_vertex c (target_label e) | Inl _ \<Rightarrow> False)"

fun random_ok :: "data_type \<Rightarrow> bool" where
  "random_ok (Elementary t) \<longleftrightarrow> t \<noteq> REAL_Type"
| "random_ok Safebool \<longleftrightarrow> True"
| "random_ok _ \<longleftrightarrow> False"

definition wf_call :: "Cfg \<Rightarrow> label \<Rightarrow> Variable \<Rightarrow> bool" where
  "wf_call c l x \<longleftrightarrow> leads c (getIntraproceduralCallToReturnEdge c l)
     \<and> (case map_of (cfg_interface c) (v_name x) of None \<Rightarrow> False | Some v \<Rightarrow> v_type v = v_type x)
     \<and> (case v_type x of
          Derived ty \<Rightarrow> (case map_of (name_to_cfg c) ty of None \<Rightarrow> False
            | Some d \<Rightarrow> cfg_type d = FUNCTION_BLOCK \<and> leads d (getInterproceduralCallEdge c l))
        | _ \<Rightarrow> False)"

fun wf_instruction :: "shadow_mode \<Rightarrow> Cfg \<Rightarrow> label \<Rightarrow> Instruction \<Rightarrow> bool" where
  "wf_instruction mode c l (AssignmentInstruction r e) \<longleftrightarrow>
     env c (getName r) \<noteq> None \<and> typed mode (env c) e = env c (getName r) \<and> leads c (getIntraproceduralEdge c l)"
| "wf_instruction mode c l (CallInstruction x _ _) \<longleftrightarrow> wf_call c l x"
| "wf_instruction mode c l (IfInstruction e _ _) \<longleftrightarrow>
     typed mode (env c) e = Some BOOLEAN \<and> leads c (getTrueEdge c l) \<and> leads c (getFalseEdge c l)"
| "wf_instruction mode c l (HavocInstruction r) \<longleftrightarrow>
     random_ok (v_type (getVariableAccess r)) \<and> env c (getName r) \<noteq> None
   \<and> access_type (v_type (getVariableAccess r)) = Inr (the (env c (getName r))) \<and> leads c (getIntraproceduralEdge c l)"
| "wf_instruction mode c l _ \<longleftrightarrow> False"

definition wf_vertex :: "shadow_mode \<Rightarrow> Cfg \<Rightarrow> label \<times> Vertex \<Rightarrow> bool" where
  "wf_vertex mode c p \<longleftrightarrow> vx_label (snd p) = fst p
     \<and> (case vx_type (snd p) of
          ENTRY \<Rightarrow> (case getSucceedingLabels c (fst p) of [t] \<Rightarrow> has_vertex c t | _ \<Rightarrow> False)
        | EXIT \<Rightarrow> True
        | REGULAR \<Rightarrow> (case vx_instruction (snd p) of None \<Rightarrow> False | Some i \<Rightarrow> wf_instruction mode c (fst p) i))"

definition wf_graph :: "shadow_mode \<Rightarrow> Cfg \<Rightarrow> bool" where
  "wf_graph mode c \<longleftrightarrow> cfg_type c \<noteq> FUNCTION \<and> has_vertex c (entry_label c) \<and> (\<forall>p \<in> set (label_to_vertex c). wf_vertex mode c p)"

text \<open>A graph and the graphs below it.\<close>

fun parts :: "Cfg \<Rightarrow> Cfg list" where
  "parts (Cfg ty name vars cfgs vertices edges en ex) =
     Cfg ty name vars cfgs vertices edges en ex # concat (map (\<lambda>p. parts (snd p)) cfgs)"

definition program_ok :: "shadow_mode \<Rightarrow> Cfg \<Rightarrow> bool" where
  "program_ok mode c \<longleftrightarrow> cfg_type c = PROGRAM \<and> wf_names c \<and> (\<forall>d \<in> set (parts c). wf_graph mode d)"

lemma parts_self: "c \<in> set (parts c)"
  by (cases c) simp

lemma parts_child: "d \<in> set (parts c) \<Longrightarrow> q \<in> set (name_to_cfg d) \<Longrightarrow> snd q \<in> set (parts c)"
proof (induction c)
  case (Cfg ty name vars cfgs vertices edges en ex)
  show ?case
  proof (cases "d = Cfg ty name vars cfgs vertices edges en ex")
    case True
    then show ?thesis using Cfg.prems(2) parts_self [of "snd q"] by force
  next
    case False
    then obtain p where p: "p \<in> set cfgs" "d \<in> set (parts (snd p))" using Cfg.prems(1) by auto
    have "snd p \<in> Basic_BNFs.snds p" by (cases p) simp
    from Cfg.IH [OF p(1) this p(2) Cfg.prems(2)] have "snd q \<in> set (parts (snd p))" .
    then show ?thesis using p(1) by auto
  qed
qed

lemma parts_trans: "d \<in> set (parts c) \<Longrightarrow> map_of (name_to_cfg d) n = Some e \<Longrightarrow> e \<in> set (parts c)"
  using parts_child [of d c "(n, e)"] by (simp add: map_of_SomeD)

lemma wf_names_parts: "wf_names c \<Longrightarrow> d \<in> set (parts c) \<Longrightarrow> wf_names d"
proof (induction c)
  case (Cfg ty name vars cfgs vertices edges en ex)
  show ?case
  proof (cases "d = Cfg ty name vars cfgs vertices edges en ex")
    case False
    then obtain p where p: "p \<in> set cfgs" "d \<in> set (parts (snd p))" using Cfg.prems(2) by auto
    have "snd p \<in> Basic_BNFs.snds p" by (cases p) simp
    then show ?thesis using Cfg.IH [OF p(1) _ _ p(2)] Cfg.prems(1) p(1) by simp
  qed (use Cfg.prems in simp)
qed

lemma access_type_clone [simp]: "access_type (clone_type t) = access_type t" "random_ok (clone_type t) = random_ok t"
  by (cases t; simp)+

section \<open>Call stacks\<close>

text \<open>
  Each frame runs the graph of a variable of the frame below it, in the scope named after the variable.
\<close>

inductive frames_ok :: "Cfg \<Rightarrow> Frame list \<Rightarrow> bool" for main where
  frames_main: "frames_ok main [\<lparr>fr_cfg = main, fr_scope = cfg_name main, fr_return_label = entry_label main\<rparr>]"
| frames_call: "frames_ok main (g # fs) \<Longrightarrow> (x, v) \<in> set (cfg_interface (fr_cfg g)) \<Longrightarrow> v_type v = Derived ty
    \<Longrightarrow> map_of (name_to_cfg (fr_cfg g)) ty = Some d \<Longrightarrow> cfg_type d = FUNCTION_BLOCK \<Longrightarrow> has_vertex (fr_cfg g) r
    \<Longrightarrow> frames_ok main (\<lparr>fr_cfg = d, fr_scope = fr_scope g @ ''.'' @ x, fr_return_label = r\<rparr> # g # fs)"

inductive_cases frames_consE: "frames_ok main (f # fs)"

lemma frames_nonempty: "frames_ok main fs \<Longrightarrow> fs \<noteq> []"
  by (cases rule: frames_ok.cases) auto

lemma frames_parts: "frames_ok main fs \<Longrightarrow> f \<in> set fs \<Longrightarrow> fr_cfg f \<in> set (parts main)"
proof (induction arbitrary: f rule: frames_ok.induct)
  case (frames_call g fs x v ty d r)
  have "fr_cfg g \<in> set (parts main)" using frames_call.IH by simp
  then have "d \<in> set (parts main)" using parts_trans frames_call.hyps(4) by blast
  then show ?case using frames_call.prems frames_call.IH by auto
qed (simp add: parts_self)

text \<open>
  What a frame sees under a name is a variable of the flattened interface of the program.
\<close>

lemma frames_flat:
  assumes wf: "wf_names main"
  shows "frames_ok main fs \<Longrightarrow> map_of (flat (fr_cfg (hd fs))) n = Some w \<Longrightarrow>
     \<exists>v \<in> snd ` set (flat main). getFullyQualifiedName v = fr_scope (hd fs) @ ''.'' @ n \<and> access_type (v_type v) = access_type (v_type w)"
proof (induction arbitrary: n w rule: frames_ok.induct)
  case frames_main
  then have "(n, w) \<in> set (flat main)" by (simp add: map_of_SomeD)
  moreover have "v_name w = n" "v_parent w = Some (cfg_name main)"
    using wf_names_flat [OF wf] calculation by (auto simp: flat_ok_def)
  ultimately show ?case by (force simp: getFullyQualifiedName_def)
next
  case (frames_call g fs x v ty d r)
  have "wf_names (fr_cfg g)"
    using wf_names_parts [OF wf] frames_parts [OF frames_call.hyps(1)] by simp
  from flat_nested [OF this frames_call.hyps(2-4)] frames_call.prems
  have "map_of (flat (fr_cfg (hd (g # fs)))) (x @ ''.'' @ n) = Some (flatten_nested (cfg_name (fr_cfg g)) x ty w)" by simp
  from frames_call.IH [OF this] show ?case by (simp add: flatten_nested_def)
qed

section \<open>Contexts\<close>

definition values_ok :: "'e z3_api \<Rightarrow> Cfg \<Rightarrow> cycle \<Rightarrow> (string \<Rightarrow> 'e option) \<Rightarrow> bool" where
  "values_ok z main k m \<longleftrightarrow>
     (\<forall>v \<in> snd ` set (flat main). \<exists>w. m (contextualized_name (getFullyQualifiedName v) k) = Some (const_of z w) \<and> access_type (v_type v) = Inr (type_of w))"

definition data_ok :: "'e z3_api \<Rightarrow> Cfg \<Rightarrow> cycle \<Rightarrow> (string \<Rightarrow> 'e option) \<Rightarrow> bool" where
  "data_ok z main k m \<longleftrightarrow> values_ok z main k m \<and> ran m \<subseteq> range (const_of z)
     \<and> (\<forall>n j. k < j \<longrightarrow> m (contextualized_name n j) = None)"

definition context_ok :: "'e z3_api \<Rightarrow> Cfg \<Rightarrow> 'e Context \<Rightarrow> bool" where
  "context_ok z main cx \<longleftrightarrow> frames_ok main (call_stack cx)
     \<and> (let v = vertex (cx_state cx) in map_of (label_to_vertex (fr_cfg (hd (call_stack cx)))) (vx_label v) = Some v)
     \<and> data_ok z main (cx_cycle cx) (concrete_valuations (cx_state cx))"

definition inputs_ok :: "Cfg \<Rightarrow> Executor \<Rightarrow> bool" where
  "inputs_ok main ex \<longleftrightarrow> (\<forall>v \<in> snd ` set (flat main). isWholeProgramInput ex (getFullyQualifiedName v) \<longrightarrow> random_ok (v_type v))"

lemma context_frame:
  assumes "context_ok z main cx"
  obtains f fs where "call_stack cx = f # fs" "getFrame cx = Inr f" "frames_ok main (f # fs)" "fr_cfg f \<in> set (parts main)"
    "map_of (label_to_vertex (fr_cfg f)) (vx_label (vertex (cx_state cx))) = Some (vertex (cx_state cx))"
proof -
  have fr: "frames_ok main (call_stack cx)" using assms by (simp add: context_ok_def)
  obtain f fs where f: "call_stack cx = f # fs" using frames_nonempty [OF fr] by (cases "call_stack cx") auto
  show thesis
    by (rule that [OF f]) (use fr f frames_parts [OF fr, of f] assms in \<open>simp_all add: getFrame_def context_ok_def Let_def\<close>)
qed

lemma context_sees:
  assumes ok: "context_ok z main cx" and wf: "wf_names main" and f: "call_stack cx = f # fs"
  obtains \<rho> where "sees z cx f \<rho>" "\<And>n t. env (fr_cfg f) n = Some t \<Longrightarrow> \<exists>v. \<rho> n = Some v \<and> type_of v = t"
proof -
  let ?m = "\<lambda>n. concrete_valuations (cx_state cx) (contextualized_name (fr_scope f @ ''.'' @ n) (cx_cycle cx))"
  have "\<exists>r. ?m n = map_option (const_of z) r \<and> (\<forall>t. env (fr_cfg f) n = Some t \<longrightarrow> (\<exists>v. r = Some v \<and> type_of v = t))" for n
  proof (cases "env (fr_cfg f) n")
    case None
    show ?thesis
    proof (cases "?m n")
      case (Some e)
      then have "e \<in> range (const_of z)" using ok by (auto simp: context_ok_def data_ok_def ran_def)
      then show ?thesis using None Some by (force intro: exI [of _ "Some w" for w])
    qed (use None in simp)
  next
    case (Some t)
    then obtain w where w: "map_of (flat (fr_cfg f)) n = Some w" "access_type (v_type w) = Inr t"
      by (auto simp: env_def split: option.splits sum.splits)
    have "frames_ok main (f # fs)" using ok f by (simp add: context_ok_def)
    from frames_flat [OF wf this, of n w] w
    obtain v where v: "v \<in> snd ` set (flat main)" "getFullyQualifiedName v = fr_scope f @ ''.'' @ n" "access_type (v_type v) = Inr t"
      unfolding list.sel(1) by metis
    then obtain u where "?m n = Some (const_of z u)" "type_of u = t" using ok by (force simp: context_ok_def data_ok_def values_ok_def)
    then show ?thesis using Some by (intro exI [of _ "Some u"]) simp
  qed
  then obtain \<rho> where "\<forall>n. ?m n = map_option (const_of z) (\<rho> n) \<and> (\<forall>t. env (fr_cfg f) n = Some t \<longrightarrow> (\<exists>v. \<rho> n = Some v \<and> type_of v = t))"
    by metis
  then show thesis using that [of \<rho>] by (simp add: sees_def)
qed

end
