(* ===== verification/Ahorn_Steps.thy ===== *)
theory Ahorn_Steps
  imports Ahorn_Ok
begin

text \<open>
  What one step of the executor does in a well-formed program: it never fails, keeps the invariant, and
  moves along an edge, into a callee or back to a caller, or starts the next cycle.
\<close>

section \<open>Control\<close>

text \<open>
  What a step within a cycle does to the control state: it follows an edge of the graph that runs,
  enters the graph of a variable, or leaves it for the label the caller wants to go on at.
\<close>

inductive control :: "Frame list \<times> label \<Rightarrow> Frame list \<times> label \<Rightarrow> bool" where
  control_stay: "e \<in> set (cfg_edges (fr_cfg f)) \<Longrightarrow> has_vertex (fr_cfg f) (source_label e) \<Longrightarrow> has_vertex (fr_cfg f) (target_label e)
     \<Longrightarrow> control (f # fs, source_label e) (f # fs, target_label e)"
| control_call: "e \<in> set (cfg_edges (fr_cfg f)) \<Longrightarrow> edge_type e = INTRAPROCEDURAL_CALL_TO_RETURN \<Longrightarrow> has_vertex (fr_cfg f) (source_label e)
     \<Longrightarrow> has_vertex (fr_cfg f) (target_label e) \<Longrightarrow> map_of (name_to_cfg (fr_cfg f)) ty = Some d \<Longrightarrow> has_vertex d l
     \<Longrightarrow> control (f # fs, source_label e) (\<lparr>fr_cfg = d, fr_scope = sc, fr_return_label = target_label e\<rparr> # f # fs, l)"
| control_return: "has_vertex (fr_cfg f) l \<Longrightarrow> control (f # g # fs, l) (g # fs, fr_return_label f)"

definition position :: "'e Context \<Rightarrow> Frame list \<times> label" where
  "position cx = (call_stack cx, vx_label (vertex (cx_state cx)))"

lemma find_edge_Inr: "find_edge msg P c = Inr e \<Longrightarrow> e \<in> set (cfg_edges c) \<and> P e"
  by (auto simp: find_edge_def find_Some_iff split: option.splits)

lemma with_instruction_Inr: "with_instruction c l P m = Inr x \<Longrightarrow> m = Inr x \<and> has_vertex c l"
  by (auto simp: with_instruction_def has_vertex_def rbind_eq_Inr map_at_eq_Inr)

lemma edge_at:
  "getIntraproceduralEdge c l = Inr e \<Longrightarrow> e \<in> set (cfg_edges c) \<and> source_label e = l"
  "getTrueEdge c l = Inr e \<Longrightarrow> e \<in> set (cfg_edges c) \<and> source_label e = l"
  "getFalseEdge c l = Inr e \<Longrightarrow> e \<in> set (cfg_edges c) \<and> source_label e = l"
  "getIntraproceduralCallToReturnEdge c l = Inr e \<Longrightarrow> e \<in> set (cfg_edges c) \<and> source_label e = l \<and> edge_type e = INTRAPROCEDURAL_CALL_TO_RETURN"
  unfolding getIntraproceduralEdge_def getTrueEdge_def getFalseEdge_def getIntraproceduralCallToReturnEdge_def
  by (auto dest!: with_instruction_Inr find_edge_Inr)

lemma stay:
  assumes "e \<in> set (cfg_edges (fr_cfg f)) \<and> source_label e = l" "has_vertex (fr_cfg f) l" "has_vertex (fr_cfg f) (target_label e)"
  shows "control (f # fs, l) (f # fs, target_label e)"
  using control_stay [of e f fs] assms by auto

lemma here:
  assumes "context_ok z main cx" "call_stack cx = f # fs"
  shows "has_vertex (fr_cfg f) (vx_label (vertex (cx_state cx)))"
  using assms by (simp add: context_ok_def has_vertex_def Let_def)

section \<open>Moves\<close>

lemma goto_ok:
  assumes p: "program_ok mode main" and f: "call_stack cx = f # fs" "frames_ok main (f # fs)"
    and d: "data_ok z main (cx_cycle cx) (concrete_valuations (cx_state cx))" and l: "has_vertex (fr_cfg f) l"
  shows "\<exists>cx'. goto_vertex (fr_cfg f) l cx = Inr cx' \<and> context_ok z main cx' \<and> cx_cycle cx' = cx_cycle cx \<and> call_stack cx' = f # fs
     \<and> vx_label (vertex (cx_state cx')) = l \<and> concrete_valuations (cx_state cx') = concrete_valuations (cx_state cx)"
proof -
  obtain v where v: "map_of (label_to_vertex (fr_cfg f)) l = Some v" using l by (auto simp: has_vertex_def)
  have "fr_cfg f \<in> set (parts main)" using frames_parts [OF f(2)] by simp
  then have "wf_graph mode (fr_cfg f)" using p by (simp add: program_ok_def)
  then have "vx_label v = l" using map_of_SomeD [OF v] by (auto simp: wf_graph_def wf_vertex_def)
  then show ?thesis using v f d by (simp add: goto_vertex_def getVertex_def context_ok_def)
qed

lemma leadsE:
  assumes "leads c m" obtains e where "m = Inr e" "has_vertex c (target_label e)"
  using assms by (cases m) (simp_all add: leads_def)

lemma flat_entry:
  assumes "wf_names main" "p \<in> set (flat main)" "q \<in> set (flat main)" "getFullyQualifiedName (snd p) = getFullyQualifiedName (snd q)"
  shows "p = q"
proof -
  note ok = wf_names_flat [OF assms(1), unfolded flat_ok_def]
  have "v_name (snd p) = v_name (snd q)" using assms ok by (simp add: getFullyQualifiedName_def)
  then have "fst p = fst q" using ok assms(2,3) by simp
  moreover have "map_of (flat main) (fst r) = Some (snd r)" if "r \<in> set (flat main)" for r
    using map_of_sorted [of "flat main" "fst r" "snd r"] ok that by simp
  ultimately show ?thesis using assms(2,3) by (metis option.inject prod.collapse)
qed

text \<open>
  Writing a value of the right type to a variable.
\<close>

lemma data_update:
  assumes wf: "wf_names main" and d: "data_ok z main k m" and p: "p \<in> set (flat main)" "access_type (v_type (snd p)) = Inr (type_of w)"
  shows "data_ok z main k (m(contextualized_name (getFullyQualifiedName (snd p)) k \<mapsto> const_of z w))"
    and "\<exists>e. m (contextualized_name (getFullyQualifiedName (snd p)) k) = Some e"
proof -
  let ?n = "contextualized_name (getFullyQualifiedName (snd p)) k"
  show "\<exists>e. m ?n = Some e" using d p(1) by (fastforce simp: data_ok_def values_ok_def)
  have "values_ok z main k (m(?n \<mapsto> const_of z w))"
    unfolding values_ok_def
  proof
    fix v assume "v \<in> snd ` set (flat main)"
    then obtain q where q: "q \<in> set (flat main)" "v = snd q" by auto
    show "\<exists>w'. (m(?n \<mapsto> const_of z w)) (contextualized_name (getFullyQualifiedName v) k) = Some (const_of z w') \<and> access_type (v_type v) = Inr (type_of w')"
    proof (cases "getFullyQualifiedName v = getFullyQualifiedName (snd p)")
      case True
      then have "q = p" using flat_entry [OF wf q(1) p(1)] q(2) by simp
      then show ?thesis using True p(2) q(2) by auto
    next
      case False
      then show ?thesis using d q by (force simp: data_ok_def values_ok_def contextualized_inject)
    qed
  qed
  moreover have "\<forall>n j. k < j \<longrightarrow> (m(?n \<mapsto> const_of z w)) (contextualized_name n j) = None"
    using d by (auto simp: data_ok_def contextualized_inject)
  moreover have "ran (m(?n \<mapsto> const_of z w)) \<subseteq> range (const_of z)" using d by (auto simp: data_ok_def ran_def)
  ultimately show "data_ok z main k (m(?n \<mapsto> const_of z w))" by (simp add: data_ok_def)
qed

lemma store_ok:
  assumes wf: "wf_names main" and ok: "context_ok z main cx" and f: "call_stack cx = f # fs"
    and t: "env (fr_cfg f) (getName r) = Some (type_of w)"
  shows "\<exists>cx'. store r (const_of z w) cx = Inr cx' \<and> data_ok z main (cx_cycle cx) (concrete_valuations (cx_state cx'))
     \<and> cx_cycle cx' = cx_cycle cx \<and> call_stack cx' = call_stack cx \<and> vertex (cx_state cx') = vertex (cx_state cx)
     \<and> concrete_valuations (cx_state cx') = (concrete_valuations (cx_state cx))(contextualized_name (fr_scope f @ ''.'' @ getName r) (cx_cycle cx) \<mapsto> const_of z w)"
proof -
  obtain u where u: "map_of (flat (fr_cfg f)) (getName r) = Some u" "access_type (v_type u) = Inr (type_of w)"
    using t by (auto simp: env_def split: option.splits sum.splits)
  have "frames_ok main (f # fs)" using ok f by (simp add: context_ok_def)
  from frames_flat [OF wf this, of "getName r" u] u
  obtain p where p: "p \<in> set (flat main)" "getFullyQualifiedName (snd p) = fr_scope f @ ''.'' @ getName r" "access_type (v_type (snd p)) = Inr (type_of w)"
    by auto
  have d: "data_ok z main (cx_cycle cx) (concrete_valuations (cx_state cx))" using ok by (simp add: context_ok_def)
  from data_update [OF wf d p(1,3)] show ?thesis
    using p(2) f by (auto simp: store_def reference_name_def getFrame_def updateConcreteValuation_def)
qed

lemma fall_through_ok:
  assumes p: "program_ok mode main" and f: "call_stack cx = f # fs" "frames_ok main (f # fs)"
    and d: "data_ok z main (cx_cycle cx) (concrete_valuations (cx_state cx))"
    and l: "leads (fr_cfg f) (getIntraproceduralEdge (fr_cfg f) (vx_label (vertex (cx_state cx))))"
    and here: "has_vertex (fr_cfg f) (vx_label (vertex (cx_state cx)))"
  shows "\<exists>cx'. fall_through cx = Inr cx' \<and> context_ok z main cx' \<and> cx_cycle cx' = cx_cycle cx \<and> call_stack cx' = f # fs
     \<and> concrete_valuations (cx_state cx') = concrete_valuations (cx_state cx) \<and> control (position cx) (position cx')"
proof -
  obtain e where e: "getIntraproceduralEdge (fr_cfg f) (vx_label (vertex (cx_state cx))) = Inr e" "has_vertex (fr_cfg f) (target_label e)"
    using l by (rule leadsE)
  from goto_ok [OF p f d e(2)] show ?thesis using e(1) f(1) stay [OF edge_at(1) [OF e(1)] here e(2)]
    by (auto simp: fall_through_def getFrame_def position_def)
qed

section \<open>Instructions\<close>

lemma assignment_ok:
  assumes z: "z3_values (z3 sv)" and p: "program_ok mode main" and ok: "context_ok (z3 sv) main cx" and f: "call_stack cx = f # fs"
    and wf: "wf_instruction mode (fr_cfg f) (vx_label (vertex (cx_state cx))) (AssignmentInstruction r e)"
  shows "\<exists>cx'. visitAssignment sv mode r e cx = Inr cx' \<and> context_ok (z3 sv) main cx' \<and> cx_cycle cx' = cx_cycle cx \<and> control (position cx) (position cx')"
proof -
  have names: "wf_names main" using p by (simp add: program_ok_def)
  have fr: "getFrame cx = Inr f" "frames_ok main (f # fs)" using f ok by (simp_all add: getFrame_def context_ok_def)
  obtain \<rho> where s: "sees (z3 sv) cx f \<rho>" "\<And>n t. env (fr_cfg f) n = Some t \<Longrightarrow> \<exists>v. \<rho> n = Some v \<and> type_of v = t"
    using context_sees [OF ok names f] by blast
  obtain t where t: "env (fr_cfg f) (getName r) = Some t" "typed mode (env (fr_cfg f)) e = Some t" using wf by auto
  obtain v where v: "meaning mode \<rho> e = Some v" "type_of v = t" using meaning_typed [where \<Gamma> = "env (fr_cfg f)" and \<rho> = \<rho>, OF _ t(2)] s(2) by blast
  have ev: "evaluate sv mode e cx = Inr (const_of (z3 sv) v)" using evaluate_means [OF z fr(1) s(1)] v(1) by blast
  obtain cx1 where cx1: "store r (const_of (z3 sv) v) cx = Inr cx1" "data_ok (z3 sv) main (cx_cycle cx) (concrete_valuations (cx_state cx1))"
      "cx_cycle cx1 = cx_cycle cx" "call_stack cx1 = call_stack cx" "vertex (cx_state cx1) = vertex (cx_state cx)"
    using store_ok [OF names ok f, of r v] t(1) v(2) by blast
  have "leads (fr_cfg f) (getIntraproceduralEdge (fr_cfg f) (vx_label (vertex (cx_state cx1))))"
      "has_vertex (fr_cfg f) (vx_label (vertex (cx_state cx1)))" "position cx1 = position cx"
    using wf cx1(4,5) here [OF ok f] by (simp_all add: position_def)
  from fall_through_ok [OF p _ fr(2) _ this(1,2), of "z3 sv"] this(3) show ?thesis
    using ev cx1 f by (auto simp: visitAssignment_def)
qed

lemma havoc_value:
  assumes "random_ok ty" "access_type ty = Inr t"
  shows "\<exists>v k'. makeConstant ty = Inr () \<and> makeRandomValue sv k ty = Inr (const_of (z3 sv) v, k') \<and> type_of v = t"
proof (cases ty)
  case (Elementary el)
  then show ?thesis using assms
    by (cases el) (auto simp: makeIntegerValue_def makeBooleanValue_def intro: exI [of _ "IntV i" for i] exI [of _ "BoolV b" for b])
next
  case Safebool
  then show ?thesis using assms by (auto simp: makeBooleanValue_def intro: exI [of _ "BoolV b" for b])
qed (use assms in simp_all)

lemma havoc_ok:
  assumes p: "program_ok mode main" and ok: "context_ok (z3 sv) main cx" and f: "call_stack cx = f # fs"
    and wf: "wf_instruction mode (fr_cfg f) (vx_label (vertex (cx_state cx))) (HavocInstruction r)"
  shows "\<exists>ex' cx'. visitHavoc sv r ex cx = Inr (ex', cx') \<and> context_ok (z3 sv) main cx' \<and> cx_cycle cx' = cx_cycle cx
     \<and> whole_program_inputs ex' = whole_program_inputs ex \<and> control (position cx) (position cx')"
proof -
  have names: "wf_names main" using p by (simp add: program_ok_def)
  have fr: "getFrame cx = Inr f" "frames_ok main (f # fs)" using f ok by (simp_all add: getFrame_def context_ok_def)
  obtain t where t: "env (fr_cfg f) (getName r) = Some t" "access_type (v_type (getVariableAccess r)) = Inr t" using wf by auto
  obtain v k where v: "makeConstant (v_type (getVariableAccess r)) = Inr ()"
      "makeRandomValue sv (drawn ex) (v_type (getVariableAccess r)) = Inr (const_of (z3 sv) v, k)" "type_of v = t"
    using havoc_value [OF _ t(2), of sv "drawn ex"] wf by auto
  obtain cx1 where cx1: "store r (const_of (z3 sv) v) cx = Inr cx1" "data_ok (z3 sv) main (cx_cycle cx) (concrete_valuations (cx_state cx1))"
      "cx_cycle cx1 = cx_cycle cx" "call_stack cx1 = call_stack cx" "vertex (cx_state cx1) = vertex (cx_state cx)"
    using store_ok [OF names ok f, of r v] t(1) v(3) by blast
  have "leads (fr_cfg f) (getIntraproceduralEdge (fr_cfg f) (vx_label (vertex (cx_state cx1))))"
      "has_vertex (fr_cfg f) (vx_label (vertex (cx_state cx1)))" "position cx1 = position cx"
    using wf cx1(4,5) here [OF ok f] by (simp_all add: position_def)
  from fall_through_ok [OF p _ fr(2) _ this(1,2), of "z3 sv"] this(3) show ?thesis
    using v cx1 f fr(1) by (auto simp: visitHavoc_def reference_name_def)
qed

lemma if_ok:
  assumes z: "z3_values (z3 sv)" and p: "program_ok mode main" and ok: "context_ok (z3 sv) main cx" and f: "call_stack cx = f # fs"
    and wf: "wf_instruction mode (fr_cfg f) (vx_label (vertex (cx_state cx))) (IfInstruction e l1 l2)"
  shows "\<exists>cx'. visitIf sv mode e cx = Inr cx' \<and> context_ok (z3 sv) main cx' \<and> cx_cycle cx' = cx_cycle cx \<and> control (position cx) (position cx')"
proof -
  have names: "wf_names main" using p by (simp add: program_ok_def)
  have fr: "getFrame cx = Inr f" "frames_ok main (f # fs)" using f ok by (simp_all add: getFrame_def context_ok_def)
  obtain \<rho> where s: "sees (z3 sv) cx f \<rho>" "\<And>n t. env (fr_cfg f) n = Some t \<Longrightarrow> \<exists>v. \<rho> n = Some v \<and> type_of v = t"
    using context_sees [OF ok names f] by blast
  have "typed mode (env (fr_cfg f)) e = Some BOOLEAN" using wf by simp
  then obtain v where "meaning mode \<rho> e = Some v" "type_of v = BOOLEAN"
    using meaning_typed [where \<Gamma> = "env (fr_cfg f)" and \<rho> = \<rho>] s(2) by blast
  then obtain b where b: "meaning mode \<rho> e = Some (BoolV b)" by (auto simp: type_of_cases)
  have ev: "evaluate sv mode e cx = Inr (const_of (z3 sv) (BoolV b))" using evaluate_means [OF z fr(1) s(1)] b by blast
  let ?l = "vx_label (vertex (cx_state cx))"
  obtain te where te: "getTrueEdge (fr_cfg f) ?l = Inr te" "has_vertex (fr_cfg f) (target_label te)" using wf by (auto elim: leadsE)
  obtain fe where fe: "getFalseEdge (fr_cfg f) ?l = Inr fe" "has_vertex (fr_cfg f) (target_label fe)" using wf by (auto elim: leadsE)
  have d: "data_ok (z3 sv) main (cx_cycle cx) (concrete_valuations (cx_state cx))" using ok by (simp add: context_ok_def)
  have vs: "\<exists>v. getVertex (fr_cfg f) (target_label te) = Inr v" "\<exists>v. getVertex (fr_cfg f) (target_label fe) = Inr v"
    using te(2) fe(2) by (auto simp: getVertex_def has_vertex_def)
  have "has_vertex (fr_cfg f) (target_label (if b then te else fe))" using te(2) fe(2) by simp
  from goto_ok [OF p f fr(2) d this] show ?thesis
    using ev te(1) fe(1) fr(1) vs embed_inject [OF z, of b] stay [OF edge_at(2) [OF te(1)] here [OF ok f] te(2)]
      stay [OF edge_at(3) [OF fe(1)] here [OF ok f] fe(2)] f by (auto simp: visitIf_def Let_def position_def)
qed

lemma call_ok:
  assumes p: "program_ok mode main" and ok: "context_ok z main cx" and f: "call_stack cx = f # fs"
    and wf: "wf_instruction mode (fr_cfg f) (vx_label (vertex (cx_state cx))) (CallInstruction x l1 l2)"
  shows "\<exists>cx'. visitCall x cx = Inr cx' \<and> context_ok z main cx' \<and> cx_cycle cx' = cx_cycle cx \<and> control (position cx) (position cx')"
proof -
  have fr: "getFrame cx = Inr f" "frames_ok main (f # fs)" using f ok by (simp_all add: getFrame_def context_ok_def)
  let ?l = "vx_label (vertex (cx_state cx))"
  have wc: "wf_call (fr_cfg f) ?l x" using wf by simp
  obtain ret where ret: "getIntraproceduralCallToReturnEdge (fr_cfg f) ?l = Inr ret" "has_vertex (fr_cfg f) (target_label ret)"
    using wc by (auto simp: wf_call_def elim: leadsE)
  obtain ty where ty: "v_type x = Derived ty" using wc by (auto simp: wf_call_def split: data_type.splits)
  obtain d where d: "map_of (name_to_cfg (fr_cfg f)) ty = Some d" "cfg_type d = FUNCTION_BLOCK" "leads d (getInterproceduralCallEdge (fr_cfg f) ?l)"
    using wc ty by (auto simp: wf_call_def split: option.splits)
  obtain call where call: "getInterproceduralCallEdge (fr_cfg f) ?l = Inr call" "has_vertex d (target_label call)" using d(3) by (rule leadsE)
  obtain v where v: "(v_name x, v) \<in> set (cfg_interface (fr_cfg f))" "v_type v = Derived ty"
    using wc ty by (auto simp: wf_call_def dest: map_of_SomeD split: option.splits)
  let ?g = "\<lparr>fr_cfg = d, fr_scope = fr_scope f @ ''.'' @ v_name x, fr_return_label = target_label ret\<rparr>"
  have "frames_ok main (?g # f # fs)" by (rule frames_call [OF fr(2) v d(1,2) ret(2)])
  have "control (f # fs, ?l) (?g # f # fs, target_label call)"
    using control_call [of ret f ty d "target_label call"] edge_at(4) [OF ret(1)] here [OF ok f] ret(2) d(1) call(2) by auto
  with goto_ok [OF p _ \<open>frames_ok main (?g # f # fs)\<close>, of "pushFrame ?g cx" z "target_label call"] show ?thesis
    using ok call d(1) ret(1) ty f fr(1) by (auto simp: visitCall_def getCfg_def pushFrame_def context_ok_def position_def Let_def)
qed

section \<open>Entry and exit\<close>

lemma entry_ok:
  assumes p: "program_ok mode main" and ok: "context_ok z main cx" and f: "call_stack cx = f # fs"
    and ty: "vx_type (vertex (cx_state cx)) = ENTRY"
  shows "\<exists>cx'. handleEntryVertex (fr_cfg f) (vertex (cx_state cx)) cx = Inr cx' \<and> context_ok z main cx' \<and> cx_cycle cx' = cx_cycle cx
     \<and> control (position cx) (position cx')"
proof -
  let ?v = "vertex (cx_state cx)"
  have fr: "frames_ok main (f # fs)" "map_of (label_to_vertex (fr_cfg f)) (vx_label ?v) = Some ?v"
    and d: "data_ok z main (cx_cycle cx) (concrete_valuations (cx_state cx))" using f ok by (simp_all add: context_ok_def Let_def)
  have "fr_cfg f \<in> set (parts main)" using frames_parts [OF fr(1)] by simp
  then have "wf_graph mode (fr_cfg f)" using p by (simp add: program_ok_def)
  then have "wf_vertex mode (fr_cfg f) (vx_label ?v, ?v)" using map_of_SomeD [OF fr(2)] by (simp add: wf_graph_def)
  then obtain t where t: "getSucceedingLabels (fr_cfg f) (vx_label ?v) = [t]" "has_vertex (fr_cfg f) t"
    using ty by (auto simp: wf_vertex_def split: list.splits)
  have "t \<in> set (getSucceedingLabels (fr_cfg f) (vx_label ?v))" using t(1) by simp
  then obtain e where e: "e \<in> set (cfg_edges (fr_cfg f)) \<and> source_label e = vx_label ?v" "target_label e = t"
    by (auto simp: getSucceedingLabels_def getOutgoingEdges_def)
  from goto_ok [OF p f fr(1) d t(2)] stay [OF e(1) here [OF ok f]] e(2) t
  show ?thesis by (auto simp: handleEntryVertex_def position_def f idx_def)
qed

text \<open>What carrying the values of variables over to the next cycle achieves.\<close>

definition carried :: "'e z3_api \<Rightarrow> cycle \<Rightarrow> Variable list \<Rightarrow> Executor \<Rightarrow> 'e State \<Rightarrow> 'e State \<Rightarrow> bool" where
  "carried z k vs ex st st' \<longleftrightarrow>
     (\<forall>v \<in> set vs. (\<exists>w. concrete_valuations st' (contextualized_name (getFullyQualifiedName v) (k + 1)) = Some (const_of z w) \<and> access_type (v_type v) = Inr (type_of w))
       \<and> (\<not> isWholeProgramInput ex (getFullyQualifiedName v) \<longrightarrow>
            concrete_valuations st' (contextualized_name (getFullyQualifiedName v) (k + 1)) = concrete_valuations st (contextualized_name (getFullyQualifiedName v) k)))
   \<and> (\<forall>n. (\<forall>v \<in> set vs. n \<noteq> contextualized_name (getFullyQualifiedName v) (k + 1)) \<longrightarrow> concrete_valuations st' n = concrete_valuations st n)
   \<and> ran (concrete_valuations st') \<subseteq> ran (concrete_valuations st) \<union> range (const_of z)"

text \<open>
  The value a variable gets.
\<close>

lemma carried_value:
  assumes "concrete_valuations st (contextualized_name n k) = Some (const_of (z3 sv) w)" "access_type ty = Inr (type_of w)"
    and "isWholeProgramInput ex n \<Longrightarrow> random_ok ty"
  obtains ex' u where "(if isWholeProgramInput ex n then rbind (makeRandomValue sv (drawn ex) ty) (\<lambda>(e, k). Inr (ex\<lparr>drawn := k\<rparr>, e))
      else rbind (getConcreteValuation st (contextualized_name n k)) (\<lambda>e. Inr (ex, e))) = Inr (ex', const_of (z3 sv) u)"
    "whole_program_inputs ex' = whole_program_inputs ex" "access_type ty = Inr (type_of u)" "\<not> isWholeProgramInput ex n \<Longrightarrow> u = w"
proof (cases "isWholeProgramInput ex n")
  case True
  from havoc_value [OF assms(3) [OF this] assms(2), of sv "drawn ex"]
  obtain u k' where "makeRandomValue sv (drawn ex) ty = Inr (const_of (z3 sv) u, k')" "type_of u = type_of w" by blast
  then show thesis using True assms(2) that [of "ex\<lparr>drawn := k'\<rparr>" u] by simp
next
  case False
  then show thesis using that [of ex w] assms(1,2) by (simp add: getConcreteValuation_def)
qed

lemma carry_over_ok:
  assumes "\<forall>v \<in> set vs. \<exists>w. concrete_valuations st (contextualized_name (getFullyQualifiedName v) k) = Some (const_of (z3 sv) w) \<and> access_type (v_type v) = Inr (type_of w)"
    and "\<forall>v \<in> set vs. isWholeProgramInput ex (getFullyQualifiedName v) \<longrightarrow> random_ok (v_type v)"
    and "\<forall>v \<in> set vs. concrete_valuations st (contextualized_name (getFullyQualifiedName v) (k + 1)) = None"
    and "distinct (map getFullyQualifiedName vs)"
  shows "\<exists>ex' st'. carry_over sv k vs (ex, st) = Inr (ex', st') \<and> whole_program_inputs ex' = whole_program_inputs ex \<and> vertex st' = vertex st
     \<and> carried (z3 sv) k vs ex st st'"
  using assms
proof (induction vs arbitrary: ex st)
  case (Cons v vs)
  let ?n = "getFullyQualifiedName v"
  obtain w where w: "concrete_valuations st (contextualized_name ?n k) = Some (const_of (z3 sv) w)" "access_type (v_type v) = Inr (type_of w)"
    using Cons.prems(1) by auto
  have "isWholeProgramInput ex ?n \<Longrightarrow> random_ok (v_type v)" using Cons.prems(2) by simp
  from carried_value [OF w this]
  obtain ex1 u where u: "(if isWholeProgramInput ex ?n then rbind (makeRandomValue sv (drawn ex) (v_type v)) (\<lambda>(e, k). Inr (ex\<lparr>drawn := k\<rparr>, e))
        else rbind (getConcreteValuation st (contextualized_name ?n k)) (\<lambda>e. Inr (ex, e))) = Inr (ex1, const_of (z3 sv) u)"
    and ex1: "whole_program_inputs ex1 = whole_program_inputs ex" and tu: "access_type (v_type v) = Inr (type_of u)"
    and keep: "\<not> isWholeProgramInput ex ?n \<Longrightarrow> u = w" by blast
  define st1 where "st1 = st\<lparr>concrete_valuations := (concrete_valuations st)(contextualized_name ?n (k + 1) \<mapsto> const_of (z3 sv) u)\<rparr>"
  have inp: "isWholeProgramInput ex1 = isWholeProgramInput ex" by (simp add: isWholeProgramInput_def ex1 fun_eq_iff)
  have run: "carry_over sv k (v # vs) (ex, st) = carry_over sv k vs (ex1, st1)"
    using u Cons.prems(3) by (simp add: Let_def setConcreteValuation_def st1_def)
  have new: "?n \<notin> getFullyQualifiedName ` set vs" using Cons.prems(4) by simp
  have at: "concrete_valuations st1 (contextualized_name (getFullyQualifiedName v') j) = concrete_valuations st (contextualized_name (getFullyQualifiedName v') j)"
    if "v' \<in> set vs" for v' j using that new by (auto simp: st1_def contextualized_inject image_def)
  have "\<exists>ex' st'. carry_over sv k vs (ex1, st1) = Inr (ex', st') \<and> whole_program_inputs ex' = whole_program_inputs ex1 \<and> vertex st' = vertex st1
     \<and> carried (z3 sv) k vs ex1 st1 st'"
    by (rule Cons.IH) (use Cons.prems in \<open>simp_all add: at inp\<close>)
  then obtain ex' st' where st': "carry_over sv k vs (ex1, st1) = Inr (ex', st')" "whole_program_inputs ex' = whole_program_inputs ex1" "vertex st' = vertex st1"
    and c: "carried (z3 sv) k vs ex1 st1 st'" by blast
  have "concrete_valuations st' (contextualized_name ?n (k + 1)) = concrete_valuations st1 (contextualized_name ?n (k + 1))"
    using c new by (auto simp: carried_def contextualized_inject image_def)
  then have "concrete_valuations st' (contextualized_name ?n (k + 1)) = Some (const_of (z3 sv) u)" by (simp add: st1_def)
  moreover have "ran (concrete_valuations st') \<subseteq> ran (concrete_valuations st) \<union> range (const_of (z3 sv))"
    using c by (auto simp: st1_def carried_def ran_def split: if_splits)
  moreover have "\<forall>n. (\<forall>v \<in> set (v # vs). n \<noteq> contextualized_name (getFullyQualifiedName v) (k + 1)) \<longrightarrow> concrete_valuations st' n = concrete_valuations st n"
    using c by (simp add: st1_def carried_def)
  ultimately have "carried (z3 sv) k (v # vs) ex st st'"
    using c tu w(1) inp at keep unfolding carried_def by auto
  then show ?case unfolding run using st' ex1 by (simp add: st1_def)
qed (auto simp: carried_def)

lemma later: "k \<noteq> - 1 \<Longrightarrow> k < k + 1" for k :: "32 word"
proof -
  assume "k \<noteq> - 1"
  then have "1 + k \<noteq> 0" by (metis add.commute add.right_inverse add_left_cancel)
  then show ?thesis using unatSuc [of k] by (simp add: word_less_nat_alt add.commute)
qed

lemma flat_vars:
  assumes "wf_names main"
  shows "flattened_interface main = Inr (flat main)" "set (map snd (flat main)) = snd ` set (flat main)" "distinct (map getFullyQualifiedName (map snd (flat main)))"
proof -
  note ok = wf_names_flat [OF assms, unfolded flat_ok_def]
  show "flattened_interface main = Inr (flat main)" using ok by simp
  have "distinct (flat main)" using ok by (metis distinct_map strict_sorted_iff)
  moreover have "inj_on (\<lambda>p. getFullyQualifiedName (snd p)) (set (flat main))"
    by (rule inj_onI) (rule flat_entry [OF assms])
  ultimately show "distinct (map getFullyQualifiedName (map snd (flat main)))" by (simp add: distinct_map comp_def)
qed simp

text \<open>
  The end of a cycle.
\<close>

lemma program_exit_ok:
  assumes p: "program_ok mode main" and ok: "context_ok (z3 sv) main cx" and ins: "inputs_ok main ex" and k: "cx_cycle cx \<noteq> - 1"
    and f: "call_stack cx = [\<lparr>fr_cfg = main, fr_scope = cfg_name main, fr_return_label = entry_label main\<rparr>]"
  shows "\<exists>ex' cx'. handleProgramExitVertex sv (hd (call_stack cx)) ex cx = Inr (ex', cx') \<and> context_ok (z3 sv) main cx'
     \<and> whole_program_inputs ex' = whole_program_inputs ex \<and> cx_cycle cx' = cx_cycle cx + 1 \<and> position cx' = (call_stack cx, entry_label main)
     \<and> (\<forall>v \<in> snd ` set (flat main). \<not> isWholeProgramInput ex (getFullyQualifiedName v) \<longrightarrow>
          concrete_valuations (cx_state cx') (contextualized_name (getFullyQualifiedName v) (cx_cycle cx + 1))
            = concrete_valuations (cx_state cx) (contextualized_name (getFullyQualifiedName v) (cx_cycle cx)))
     \<and> (\<forall>n j. j \<noteq> cx_cycle cx + 1 \<longrightarrow> concrete_valuations (cx_state cx') (contextualized_name n j) = concrete_valuations (cx_state cx) (contextualized_name n j))"
proof -
  have names: "wf_names main" using p by (simp add: program_ok_def)
  note fl = flat_vars [OF names]
  let ?k = "cx_cycle cx" and ?m = "concrete_valuations (cx_state cx)"
  have d: "data_ok (z3 sv) main ?k ?m" using ok by (simp add: context_ok_def)
  have "\<exists>ex' st'. carry_over sv ?k (map snd (flat main)) (ex, cx_state cx) = Inr (ex', st') \<and> whole_program_inputs ex' = whole_program_inputs ex \<and> vertex st' = vertex (cx_state cx)
     \<and> carried (z3 sv) ?k (map snd (flat main)) ex (cx_state cx) st'"
  proof (rule carry_over_ok)
    show "\<forall>v \<in> set (map snd (flat main)). \<exists>w. ?m (contextualized_name (getFullyQualifiedName v) ?k) = Some (const_of (z3 sv) w) \<and> access_type (v_type v) = Inr (type_of w)"
      using d unfolding fl(2) data_ok_def values_ok_def by blast
    show "\<forall>v \<in> set (map snd (flat main)). isWholeProgramInput ex (getFullyQualifiedName v) \<longrightarrow> random_ok (v_type v)"
      using ins unfolding fl(2) inputs_ok_def .
    show "\<forall>v \<in> set (map snd (flat main)). ?m (contextualized_name (getFullyQualifiedName v) (?k + 1)) = None"
      using d later [OF k] by (simp add: data_ok_def)
  qed (rule fl(3))
  then obtain ex' st' where c: "carry_over sv ?k (map snd (flat main)) (ex, cx_state cx) = Inr (ex', st')" "whole_program_inputs ex' = whole_program_inputs ex"
    and ca: "carried (z3 sv) ?k (map snd (flat main)) ex (cx_state cx) st'" by blast
  have vals: "values_ok (z3 sv) main (?k + 1) (concrete_valuations st')"
    using ca unfolding values_ok_def carried_def fl(2) by blast
  have same: "\<forall>v \<in> snd ` set (flat main). \<not> isWholeProgramInput ex (getFullyQualifiedName v) \<longrightarrow>
      concrete_valuations st' (contextualized_name (getFullyQualifiedName v) (?k + 1)) = ?m (contextualized_name (getFullyQualifiedName v) ?k)"
    using ca unfolding carried_def fl(2) by blast
  have old: "concrete_valuations st' (contextualized_name n j) = ?m (contextualized_name n j)" if "j \<noteq> ?k + 1" for n j
    using ca that by (simp add: carried_def contextualized_inject)
  have "?m (contextualized_name n j) = None" if "?k + 1 < j" for n j
    using d less_trans [OF later [OF k] that] by (simp add: data_ok_def)
  then have d': "data_ok (z3 sv) main (?k + 1) (concrete_valuations st')"
    using vals ca d old by (auto simp: data_ok_def carried_def)
  have "main \<in> set (parts main)" by (rule parts_self)
  then have "wf_graph mode main" using p by (simp add: program_ok_def)
  then have "has_vertex main (entry_label main)" by (simp add: wf_graph_def)
  then obtain e where e: "map_of (label_to_vertex main) (entry_label main) = Some e" by (auto simp: has_vertex_def)
  define cx1 where "cx1 = cx\<lparr>cx_state := st'\<lparr>vertex := e\<rparr>\<rparr>"
  have cx1: "goto_vertex main (entry_label main) (cx\<lparr>cx_state := st'\<rparr>) = Inr cx1" "map_of (label_to_vertex main) (entry_label main) = Some (vertex (cx_state cx1))"
      "call_stack cx1 = call_stack cx" "concrete_valuations (cx_state cx1) = concrete_valuations st'" "cx_cycle cx1 = cx_cycle cx"
    using e by (simp_all add: cx1_def goto_vertex_def getVertex_def)
  have "vx_label (vertex (cx_state cx1)) = entry_label main"
    using map_of_SomeD [OF cx1(2)] \<open>wf_graph mode main\<close> by (auto simp: wf_graph_def wf_vertex_def)
  then have "context_ok (z3 sv) main (cx1\<lparr>cx_cycle := ?k + 1\<rparr>)" "position (cx1\<lparr>cx_cycle := ?k + 1\<rparr>) = (call_stack cx, entry_label main)"
    using cx1 d' ok f by (simp_all add: context_ok_def position_def)
  then show ?thesis using c cx1 f fl(1) same old by (simp add: handleProgramExitVertex_def)
qed

text \<open>
  The end of a function block.
\<close>

lemma block_exit_ok:
  assumes p: "program_ok mode main" and ok: "context_ok z main cx" and f: "call_stack cx = f # g # fs"
  shows "\<exists>cx'. handleFunctionBlockExitVertex f cx = Inr cx' \<and> context_ok z main cx' \<and> cx_cycle cx' = cx_cycle cx \<and> control (position cx) (position cx')"
proof -
  have fr: "frames_ok main (f # g # fs)" and d: "data_ok z main (cx_cycle cx) (concrete_valuations (cx_state cx))" using f ok by (simp_all add: context_ok_def)
  from fr have ret: "frames_ok main (g # fs)" "has_vertex (fr_cfg g) (fr_return_label f)" by (auto elim: frames_consE)
  from goto_ok [OF p _ ret(1), of "cx\<lparr>call_stack := g # fs\<rparr>" z "fr_return_label f"] d ret(2) control_return [OF here [OF ok f], of g fs] f
  show ?thesis by (auto simp: handleFunctionBlockExitVertex_def popFrame_def getFrame_def position_def)
qed

section \<open>A step\<close>

definition main_frame :: "Cfg \<Rightarrow> Frame" where
  "main_frame main = \<lparr>fr_cfg = main, fr_scope = cfg_name main, fr_return_label = entry_label main\<rparr>"

lemma stack_shape:
  assumes "frames_ok main (f # fs)" "cfg_type main = PROGRAM"
  shows "cfg_type (fr_cfg f) = PROGRAM \<and> f # fs = [main_frame main] \<or> cfg_type (fr_cfg f) = FUNCTION_BLOCK \<and> fs \<noteq> []"
  using assms by (auto elim: frames_consE simp: main_frame_def)

lemma regular_ok:
  assumes z: "z3_values (z3 sv)" and p: "program_ok mode main" and ok: "context_ok (z3 sv) main cx" and f: "call_stack cx = f # fs"
    and ty: "vx_type (vertex (cx_state cx)) = REGULAR"
  shows "\<exists>ex' cx'. handleRegularVertex sv mode (vertex (cx_state cx)) ex cx = Inr (ex', cx') \<and> context_ok (z3 sv) main cx'
     \<and> whole_program_inputs ex' = whole_program_inputs ex \<and> cx_cycle cx' = cx_cycle cx \<and> control (position cx) (position cx')"
proof -
  let ?v = "vertex (cx_state cx)"
  have fr: "frames_ok main (f # fs)" "map_of (label_to_vertex (fr_cfg f)) (vx_label ?v) = Some ?v" using f ok by (simp_all add: context_ok_def Let_def)
  have "fr_cfg f \<in> set (parts main)" using frames_parts [OF fr(1)] by simp
  then have "wf_graph mode (fr_cfg f)" using p by (simp add: program_ok_def)
  then have "wf_vertex mode (fr_cfg f) (vx_label ?v, ?v)" using map_of_SomeD [OF fr(2)] by (simp add: wf_graph_def)
  then obtain i where i: "vx_instruction ?v = Some i" "wf_instruction mode (fr_cfg f) (vx_label ?v) i"
    using ty by (auto simp: wf_vertex_def split: option.splits)
  show ?thesis
  proof (cases i)
    case (AssignmentInstruction r e)
    then show ?thesis using assignment_ok [OF z p ok f, of r e] i by (auto simp: handleRegularVertex_def keep_executor_def)
  next
    case (CallInstruction x l1 l2)
    then show ?thesis using call_ok [OF p ok f, of x l1 l2] i by (auto simp: handleRegularVertex_def keep_executor_def)
  next
    case (IfInstruction e l1 l2)
    then show ?thesis using if_ok [OF z p ok f, of e l1 l2] i by (auto simp: handleRegularVertex_def keep_executor_def)
  next
    case (HavocInstruction r)
    then show ?thesis using havoc_ok [OF p ok f, of r ex] i by (auto simp: handleRegularVertex_def)
  qed (use i in simp_all)
qed

text \<open>The next position: one by the control relation, or the start of the next cycle.\<close>

definition moves :: "Cfg \<Rightarrow> 'e Context \<Rightarrow> 'e Context \<Rightarrow> bool" where
  "moves main cx cx' \<longleftrightarrow>
     cx_cycle cx' = cx_cycle cx \<and> control (position cx) (position cx')
   \<or> cx_cycle cx' = cx_cycle cx + 1 \<and> fst (position cx) = [main_frame main] \<and> position cx' = ([main_frame main], entry_label main)"

lemma execute_ok:
  assumes z: "z3_values (z3 sv)" and p: "program_ok mode main" and ok: "context_ok (z3 sv) main cx"
    and ins: "inputs_ok main ex" and k: "cx_cycle cx \<noteq> - 1"
  obtains ex' cx' where "execute sv mode ex cx = Inr (ex', cx')" "context_ok (z3 sv) main cx'"
    "whole_program_inputs ex' = whole_program_inputs ex" "moves main cx cx'"
proof -
  obtain f fs where f: "call_stack cx = f # fs" "getFrame cx = Inr f" "frames_ok main (f # fs)" using context_frame [OF ok] by blast
  have main: "cfg_type main = PROGRAM" using p by (simp add: program_ok_def)
  note shape = stack_shape [OF f(3) main]
  have "\<exists>ex' cx'. execute sv mode ex cx = Inr (ex', cx') \<and> context_ok (z3 sv) main cx' \<and> whole_program_inputs ex' = whole_program_inputs ex \<and> moves main cx cx'"
  proof (cases "vx_type (vertex (cx_state cx))")
    case ENTRY
    then show ?thesis using entry_ok [OF p ok f(1) ENTRY] shape f(2) by (auto simp: execute_def keep_executor_def moves_def)
  next
    case REGULAR
    then show ?thesis using regular_ok [OF z p ok f(1) REGULAR, of ex] f(2) by (auto simp: execute_def moves_def)
  next
    case EXIT
    show ?thesis
    proof (cases "cfg_type (fr_cfg f) = PROGRAM")
      case True
      then have s: "f = main_frame main" "call_stack cx = [main_frame main]" using shape f(1) by auto
      show ?thesis using program_exit_ok [OF p ok ins k] s True EXIT f(2) by (auto simp: execute_def moves_def main_frame_def position_def)
    next
      case False
      then obtain g gs where "fs = g # gs" "cfg_type (fr_cfg f) = FUNCTION_BLOCK" using shape by (cases fs) auto
      then show ?thesis using block_exit_ok [OF p ok, of f g gs] EXIT f by (auto simp: execute_def keep_executor_def moves_def)
    qed
  qed
  then show thesis using that by blast
qed

end
