(* ===== verification/Ahorn_Cycle.thy ===== *)
theory Ahorn_Cycle
  imports Ahorn_Steps
begin

text \<open>
  A cycle of the simulator: in a program whose edges lead forward it takes no more steps than the positions
  have weight, no step fails, and every label it executes is one the coverage counts.
\<close>

section \<open>Programs whose edges lead forward\<close>

text \<open>
  Labels are given in the order of the text and a program has no loop within a cycle, so every edge
  between two vertices of a graph leads to a larger label.
\<close>

definition forward :: "Cfg \<Rightarrow> bool" where
  "forward c \<longleftrightarrow> (\<forall>e \<in> set (cfg_edges c). has_vertex c (source_label e) \<longrightarrow> has_vertex c (target_label e) \<longrightarrow> source_label e < target_label e)"

text \<open>How many steps a call of a graph takes at most, and how many are left at a position.\<close>

fun total :: "Cfg \<Rightarrow> nat" where
  "total (Cfg ty name vars cfgs vertices edges en ex) = length vertices * Suc (sum_list (map (\<lambda>p. total (snd p)) cfgs))"

definition below :: "Cfg \<Rightarrow> nat" where
  "below c = sum_list (map (\<lambda>p. total (snd p)) (name_to_cfg c))"

definition left :: "Cfg \<Rightarrow> label \<Rightarrow> nat" where
  "left c l = length (filter (\<lambda>p. l \<le> fst p) (label_to_vertex c))"

fun weight :: "Frame list \<times> label \<Rightarrow> nat" where
  "weight ([], l) = 0"
| "weight (f # fs, l) = left (fr_cfg f) l * Suc (below (fr_cfg f)) + weight (fs, fr_return_label f)"

lemma left_total: "left c l * Suc (below c) \<le> total c"
proof -
  have "total c = length (label_to_vertex c) * Suc (below c)" by (cases c) (simp add: below_def)
  then show ?thesis by (simp only:) (rule mult_le_mono1, simp add: left_def)
qed

lemma below_callee: "map_of (name_to_cfg c) n = Some d \<Longrightarrow> total d \<le> below c"
  unfolding below_def by (rule member_le_sum_list) (auto dest: map_of_SomeD simp: rev_image_eqI)

lemma left_pos: "has_vertex c l \<Longrightarrow> 0 < left c l"
  by (force simp: has_vertex_def left_def filter_empty_conv dest: map_of_SomeD)

lemma left_less:
  assumes "has_vertex c l" "l < l'"
  shows "left c l' < left c l"
proof -
  obtain v where v: "(l, v) \<in> set (label_to_vertex c)" using assms(1) by (auto simp: has_vertex_def dest: map_of_SomeD)
  have "length (filter (\<lambda>p. l' \<le> fst p) ps) < length (filter (\<lambda>p. l \<le> fst p) ps)" if "(l, v) \<in> set ps" for ps :: "(label \<times> Vertex) list"
    using that
  proof (induction ps)
    case (Cons p ps)
    have "length (filter (\<lambda>p. l' \<le> fst p) ps) \<le> length (filter (\<lambda>p. l \<le> fst p) ps)"
      using assms(2) by (induction ps) auto
    then show ?case using Cons assms(2) by auto
  qed simp
  then show ?thesis using v by (simp add: left_def)
qed

lemma control_weight:
  "control p q \<Longrightarrow> \<forall>f \<in> set (fst p). forward (fr_cfg f) \<Longrightarrow> weight q < weight p"
proof (induction rule: control.induct)
  case (control_stay e f fs)
  then have "left (fr_cfg f) (target_label e) < left (fr_cfg f) (source_label e)" by (auto simp: forward_def intro: left_less)
  then show ?case by (simp del: mult_Suc_right)
next
  case (control_call e f ty d l sc fs)
  then have "left (fr_cfg f) (target_label e) < left (fr_cfg f) (source_label e)" by (auto simp: forward_def intro: left_less)
  then have "Suc (left (fr_cfg f) (target_label e)) * Suc (below (fr_cfg f)) \<le> left (fr_cfg f) (source_label e) * Suc (below (fr_cfg f))"
    by (intro mult_le_mono1) simp
  moreover have "left d l * Suc (below d) \<le> below (fr_cfg f)"
    using left_total [of d l] below_callee [OF control_call.hyps(5)] by simp
  ultimately show ?case by simp
next
  case (control_return f l g fs)
  then show ?case using left_pos [of "fr_cfg f" l] by simp
qed

section \<open>Coverage\<close>

text \<open>The labels of a graph, and those of its branching vertices.\<close>

definition branch_labels :: "Cfg \<Rightarrow> label set" where
  "branch_labels c = fst ` set (filter (\<lambda>p. vx_type (snd p) = REGULAR \<and> (case vx_instruction (snd p) of None \<Rightarrow> False | Some i \<Rightarrow> is_if i)) (label_to_vertex c))"

definition labels :: "Cfg \<Rightarrow> label set" where
  "labels c = fst ` set (label_to_vertex c)"

definition branches_ok :: "Cfg \<Rightarrow> bool" where
  "branches_ok c \<longleftrightarrow> (\<forall>e \<in> set (cfg_edges c). edge_type e \<in> {TRUE_BRANCH, FALSE_BRANCH} \<longrightarrow> source_label e \<in> branch_labels c)"

definition explorer_ok :: "Cfg \<Rightarrow> Explorer \<Rightarrow> bool" where
  "explorer_ok main xp \<longleftrightarrow> sorted_map (covered_statements xp) \<and> sorted_map (covered_branches xp)
     \<and> (\<forall>d \<in> set (parts main). labels d \<subseteq> fst ` set (covered_statements xp) \<and> branch_labels d \<subseteq> fst ` set (covered_branches xp))"

lemma map_write_Inr:
  "k \<in> fst ` set m \<Longrightarrow> \<exists>m'. map_write m k f = Inr m' \<and> map fst m' = map fst m"
  by (auto simp: map_write_def map_of_eq_None_iff comp_def split_beta)

lemma cover_branches_Inr:
  assumes "\<And>e. e \<in> set es \<Longrightarrow> edge_type e \<in> {TRUE_BRANCH, FALSE_BRANCH} \<Longrightarrow> l \<in> fst ` set bs"
  shows "\<exists>bs'. cover_branches l s es bs = Inr bs' \<and> map fst bs' = map fst bs"
  using assms
proof (induction es arbitrary: bs)
  case (Cons e es)
  have same: "l \<in> fst ` set bs' \<longleftrightarrow> l \<in> fst ` set bs" if "map fst bs' = map fst bs" for bs' :: "(label, bool \<times> bool) std_map"
    using that by (metis set_map)
  let ?m = "if s \<noteq> target_label e then Inr bs
            else if edge_type e = TRUE_BRANCH then map_write bs l (\<lambda>(_, b). (True, b))
            else if edge_type e = FALSE_BRANCH then map_write bs l (\<lambda>(a, _). (a, True))
            else Inr bs"
  have "\<exists>bs1. ?m = Inr bs1 \<and> map fst bs1 = map fst bs"
    using map_write_Inr [of l bs "\<lambda>(_, b). (True, b)"] map_write_Inr [of l bs "\<lambda>(a, _). (a, True)"] Cons.prems by auto
  then obtain bs1 where 1: "?m = Inr bs1" "map fst bs1 = map fst bs" by blast
  have "\<exists>bs'. cover_branches l s es bs1 = Inr bs' \<and> map fst bs' = map fst bs1"
    by (rule Cons.IH) (use Cons.prems same [OF 1(2)] in auto)
  then show ?case using 1 by simp
qed simp

definition wf_program :: "shadow_mode \<Rightarrow> Cfg \<Rightarrow> bool" where
  "wf_program mode main \<longleftrightarrow> program_ok mode main \<and> (\<forall>d \<in> set (parts main). forward d \<and> branches_ok d)"

lemma updateCoverage_ok:
  assumes xp: "explorer_ok main xp" and d: "d \<in> set (parts main)" "has_vertex d l"
    and f: "getFrame cx = Inr f" "fr_cfg f \<in> set (parts main)" "branches_ok (fr_cfg f)"
  shows "\<exists>fl xp'. updateCoverage l cx xp = Inr (fl, xp') \<and> explorer_ok main xp'"
proof -
  have "l \<in> fst ` set (covered_statements xp)"
    using xp d by (force simp: explorer_ok_def labels_def has_vertex_def dest: map_of_SomeD)
  from map_write_Inr [OF this, of "\<lambda>_. True"] obtain ss where ss: "map_write (covered_statements xp) l (\<lambda>_. True) = Inr ss" "map fst ss = map fst (covered_statements xp)"
    by blast
  let ?es = "getOutgoingEdges (fr_cfg f) l" and ?s = "vx_label (vertex (cx_state cx))"
  have "\<exists>bs. cover_branches l ?s ?es (covered_branches xp) = Inr bs \<and> map fst bs = map fst (covered_branches xp)"
  proof (rule cover_branches_Inr)
    fix e assume "e \<in> set ?es" "edge_type e \<in> {TRUE_BRANCH, FALSE_BRANCH}"
    then have "l \<in> branch_labels (fr_cfg f)" using f(3) by (auto simp: branches_ok_def getOutgoingEdges_def)
    then show "l \<in> fst ` set (covered_branches xp)" using xp f(2) by (auto simp: explorer_ok_def)
  qed
  then obtain bs where bs: "cover_branches l ?s ?es (covered_branches xp) = Inr bs" "map fst bs = map fst (covered_branches xp)" by blast
  have "set (map fst ss) = set (map fst (covered_statements xp))" "set (map fst bs) = set (map fst (covered_branches xp))"
    using ss(2) bs(2) by simp_all
  then have "fst ` set ss = fst ` set (covered_statements xp)" "fst ` set bs = fst ` set (covered_branches xp)" by simp_all
  then show ?thesis using ss bs xp f(1) by (simp add: updateCoverage_def Let_def explorer_ok_def)
qed

section \<open>A cycle\<close>

lemma control_frames:
  assumes "context_ok z main cx" "f \<in> set (call_stack cx)"
  shows "fr_cfg f \<in> set (parts main)"
  using frames_parts assms by (auto simp: context_ok_def)

definition engine_ok :: "Cfg \<Rightarrow> Engine \<Rightarrow> bool" where
  "engine_ok main eg \<longleftrightarrow> inputs_ok main (executor eg) \<and> explorer_ok main (explorer eg)"

lemma inputs_ok_cong: "whole_program_inputs ex' = whole_program_inputs ex \<Longrightarrow> inputs_ok main ex' = inputs_ok main ex"
  by (simp add: inputs_ok_def isWholeProgramInput_def)

text \<open>
  One round of the loop.
\<close>

lemma round_ok:
  assumes z: "z3_values (z3 sv)" and p: "wf_program mode main" and ok: "context_ok (z3 sv) main cx" "engine_ok main eg"
    and k: "cx_cycle cx \<noteq> - 1"
  obtains ex' cx' fl xp' where "execute sv mode (executor eg) cx = Inr (ex', cx')" "whole_program_inputs ex' = whole_program_inputs (executor eg)"
    "updateCoverage (vx_label (vertex (cx_state cx))) cx' (explorer eg) = Inr (fl, xp')" "context_ok (z3 sv) main cx'"
    "engine_ok main (eg\<lparr>explorer := xp', executor := ex'\<rparr>)" "moves main cx cx'"
proof -
  have po: "program_ok mode main" using p by (simp add: wf_program_def)
  obtain ex' cx' where e: "execute sv mode (executor eg) cx = Inr (ex', cx')" "context_ok (z3 sv) main cx'"
    "whole_program_inputs ex' = whole_program_inputs (executor eg)" "moves main cx cx'"
    using execute_ok [OF z po ok(1) _ k] ok(2) by (auto simp: engine_ok_def)
  obtain f fs where f: "call_stack cx = f # fs" "fr_cfg f \<in> set (parts main)" using context_frame [OF ok(1)] by blast
  obtain g gs where g: "getFrame cx' = Inr g" "fr_cfg g \<in> set (parts main)" using context_frame [OF e(2)] by blast
  have "branches_ok (fr_cfg g)" using p g(2) by (simp add: wf_program_def)
  from updateCoverage_ok [OF _ f(2) here [OF ok(1) f(1)] g this] obtain fl xp' where
    u: "updateCoverage (vx_label (vertex (cx_state cx))) cx' (explorer eg) = Inr (fl, xp')" "explorer_ok main xp'"
    using ok(2) unfolding engine_ok_def by blast
  have "engine_ok main (eg\<lparr>explorer := xp', executor := ex'\<rparr>)"
    using u(2) ok(2) inputs_ok_cong [OF e(3)] by (simp add: engine_ok_def)
  then show thesis using that e u(1) by blast
qed

lemma step_loop_ok:
  assumes z: "z3_values (z3 sv)" and p: "wf_program mode main"
    and note_total: "\<And>cx h. context_ok (z3 sv) main cx \<Longrightarrow> good h \<Longrightarrow> \<exists>h'. note_label cx h = Inr h' \<and> good h'"
  shows "context_ok (z3 sv) main cx \<Longrightarrow> engine_ok main eg \<Longrightarrow> cx_cycle cx = eng_cycle eg \<Longrightarrow> eng_cycle eg \<noteq> - 1 \<Longrightarrow> good h \<Longrightarrow>
     \<exists>eg' cx' h'. step_loop sv mode note_label eg cx h = Some (Inr (eg', cx', h')) \<and> context_ok (z3 sv) main cx' \<and> engine_ok main eg'
       \<and> good h' \<and> eng_cycle eg' = eng_cycle eg \<and> cx_cycle cx' = eng_cycle eg + 1 \<and> position cx' = ([main_frame main], entry_label main)
       \<and> whole_program_inputs (executor eg') = whole_program_inputs (executor eg)"
proof (induction "weight (position cx)" arbitrary: eg cx h rule: less_induct)
  case less
  note prems = less.prems
  obtain h1 where h1: "note_label cx h = Inr h1" "good h1" using note_total [OF prems(1,5)] by blast
  have kc: "cx_cycle cx \<noteq> - 1" using prems(3,4) by simp
  obtain ex' cx1 fl xp' where r: "execute sv mode (executor eg) cx = Inr (ex', cx1)" "whole_program_inputs ex' = whole_program_inputs (executor eg)"
    "updateCoverage (vx_label (vertex (cx_state cx))) cx1 (explorer eg) = Inr (fl, xp')" "context_ok (z3 sv) main cx1"
    "engine_ok main (eg\<lparr>explorer := xp', executor := ex'\<rparr>)" "moves main cx cx1"
    by (rule round_ok [OF z p prems(1,2) kc])
  let ?eg = "eg\<lparr>explorer := xp', executor := ex'\<rparr>"
  have unfold: "step_loop sv mode note_label eg cx h = step_loop sv mode note_label ?eg cx1 h1"
    using prems(3) h1(1) r(1,3) by (subst step_loop.simps) simp
  from r(6) consider "cx_cycle cx1 = cx_cycle cx" "control (position cx) (position cx1)"
    | "cx_cycle cx1 = cx_cycle cx + 1" "position cx1 = ([main_frame main], entry_label main)"
    by (auto simp: moves_def)
  then show ?case
  proof cases
    case 1
    have "\<forall>f \<in> set (fst (position cx)). forward (fr_cfg f)"
      using control_frames [OF prems(1)] p by (simp add: position_def wf_program_def)
    from less.hyps [OF control_weight [OF 1(2) this] r(4,5) _ _ h1(2)] 1(1) prems(3,4)
    show ?thesis unfolding unfold using r(2) by auto
  next
    case 2
    then have "step_loop sv mode note_label ?eg cx1 h1 = Some (Inr (?eg, cx1, h1))"
      using prems(3) by (subst step_loop.simps) simp
    then show ?thesis unfolding unfold using 2 r h1(2) prems(3) by simp
  qed
qed

end
