(* ===== verification/Ahorn_Coverage.thy ===== *)
theory Ahorn_Coverage
  imports Ahorn_Cycle
begin

text \<open>
  The coverage of the explorer: the initialization finds the labels of every graph of the program, and the
  counts and quotients say what has been executed.
\<close>

section \<open>The labels the coverage counts\<close>

text \<open>Graphs are known by their names.\<close>

definition named_apart :: "Cfg \<Rightarrow> bool" where
  "named_apart main \<longleftrightarrow> (\<forall>d \<in> set (parts main). \<forall>e \<in> set (parts main). cfg_name d = cfg_name e \<longrightarrow> d = e)"

definition covers :: "Explorer \<Rightarrow> Cfg \<Rightarrow> bool" where
  "covers xp d \<longleftrightarrow> labels d \<subseteq> fst ` set (covered_statements xp) \<and> branch_labels d \<subseteq> fst ` set (covered_branches xp)"

definition sorted_explorer :: "Explorer \<Rightarrow> bool" where
  "sorted_explorer xp \<longleftrightarrow> sorted_map (covered_statements xp) \<and> sorted_map (covered_branches xp)"

definition extends :: "Explorer \<Rightarrow> Explorer \<Rightarrow> bool" where
  "extends xp xp' \<longleftrightarrow> (sorted_explorer xp \<longrightarrow> sorted_explorer xp')
     \<and> fst ` set (covered_statements xp) \<subseteq> fst ` set (covered_statements xp') \<and> fst ` set (covered_branches xp) \<subseteq> fst ` set (covered_branches xp')"

lemma extends_refl: "extends xp xp"
  by (simp add: extends_def)

lemma extends_trans: "extends xp xp' \<Longrightarrow> extends xp' xp'' \<Longrightarrow> extends xp xp''"
  unfolding extends_def by (meson subset_trans)

lemma extends_covers: "extends xp xp' \<Longrightarrow> covers xp d \<Longrightarrow> covers xp' d"
  unfolding extends_def covers_def by (meson subset_trans)

lemma extends_add: "extends xp (add_statement l xp)" "extends xp (add_branch l xp)"
  by (auto simp: extends_def add_statement_def add_branch_def sorted_explorer_def keys_emplace intro: sorted_emplace)

lemma add_vertex_ok:
  assumes "wf_vertex mode c p"
  shows "\<exists>xp'. add_vertex (snd p) xp = Inr xp' \<and> extends xp xp' \<and> fst p \<in> fst ` set (covered_statements xp')
     \<and> (vx_type (snd p) = REGULAR \<longrightarrow> (\<forall>i. vx_instruction (snd p) = Some i \<longrightarrow> is_if i \<longrightarrow> fst p \<in> fst ` set (covered_branches xp')))"
proof -
  have l: "vx_label (snd p) = fst p" using assms by (simp add: wf_vertex_def)
  let ?s = "add_statement (fst p) xp" and ?b = "add_branch (fst p) (add_statement (fst p) xp)"
  have s: "extends xp ?s" "fst p \<in> fst ` set (covered_statements ?s)" by (rule extends_add) (simp add: add_statement_def keys_emplace)
  have b: "extends xp ?b" "fst p \<in> fst ` set (covered_statements ?b)" "fst p \<in> fst ` set (covered_branches ?b)"
    using extends_trans [OF s(1) extends_add(2)] by (simp_all add: add_statement_def add_branch_def keys_emplace)
  show ?thesis
  proof (cases "vx_type (snd p)")
    case REGULAR
    then obtain i where i: "vx_instruction (snd p) = Some i" "wf_instruction mode c (fst p) i"
      using assms by (auto simp: wf_vertex_def split: option.splits)
    show ?thesis using REGULAR i l s b by (cases i) (simp_all add: add_vertex_def Let_def is_if_def)
  qed (use l s in \<open>simp_all add: add_vertex_def Let_def\<close>)
qed

lemma add_vertices_ok:
  assumes "\<forall>p \<in> set ps. wf_vertex mode c p"
  shows "\<exists>xp'. add_vertices (map snd ps) xp = Inr xp' \<and> extends xp xp' \<and> (\<forall>p \<in> set ps. fst p \<in> fst ` set (covered_statements xp')
     \<and> (vx_type (snd p) = REGULAR \<longrightarrow> (\<forall>i. vx_instruction (snd p) = Some i \<longrightarrow> is_if i \<longrightarrow> fst p \<in> fst ` set (covered_branches xp'))))"
  using assms
proof (induction ps arbitrary: xp)
  case (Cons p ps)
  obtain xp1 where 1: "add_vertex (snd p) xp = Inr xp1" "extends xp xp1" "fst p \<in> fst ` set (covered_statements xp1)"
    "vx_type (snd p) = REGULAR \<longrightarrow> (\<forall>i. vx_instruction (snd p) = Some i \<longrightarrow> is_if i \<longrightarrow> fst p \<in> fst ` set (covered_branches xp1))"
    using add_vertex_ok [of mode c p xp] Cons.prems by auto
  obtain xp2 where 2: "add_vertices (map snd ps) xp1 = Inr xp2" "extends xp1 xp2" "\<forall>p \<in> set ps. fst p \<in> fst ` set (covered_statements xp2)
     \<and> (vx_type (snd p) = REGULAR \<longrightarrow> (\<forall>i. vx_instruction (snd p) = Some i \<longrightarrow> is_if i \<longrightarrow> fst p \<in> fst ` set (covered_branches xp2)))"
    using Cons.IH [of xp1] Cons.prems by auto
  have "fst p \<in> fst ` set (covered_statements xp2)" "fst p \<in> fst ` set (covered_branches xp1) \<Longrightarrow> fst p \<in> fst ` set (covered_branches xp2)"
    using 1(3) 2(2) unfolding extends_def by blast+
  then show ?case using 1(1,4) 2(1,3) extends_trans [OF 1(2) 2(2)] by simp
qed (simp add: extends_refl)

lemma add_graph_ok:
  assumes "wf_graph mode c"
  shows "\<exists>xp'. add_vertices (map snd (label_to_vertex c)) xp = Inr xp' \<and> extends xp xp' \<and> covers xp' c"
proof -
  obtain xp' where xp': "add_vertices (map snd (label_to_vertex c)) xp = Inr xp'" "extends xp xp'"
    "\<forall>p \<in> set (label_to_vertex c). fst p \<in> fst ` set (covered_statements xp')
     \<and> (vx_type (snd p) = REGULAR \<longrightarrow> (\<forall>i. vx_instruction (snd p) = Some i \<longrightarrow> is_if i \<longrightarrow> fst p \<in> fst ` set (covered_branches xp')))"
    using add_vertices_ok [of "label_to_vertex c" mode c xp] assms unfolding wf_graph_def by blast
  have "covers xp' c" using xp'(3) by (auto simp: covers_def labels_def branch_labels_def split: option.splits)
  then show ?thesis using xp'(1,2) by blast
qed

text \<open>
  The search through the graphs: those visited and not still being searched are counted, and the graphs
  they use are visited.
\<close>

definition searched :: "Cfg \<Rightarrow> string set \<Rightarrow> string set \<Rightarrow> Explorer \<Rightarrow> bool" where
  "searched main S V xp \<longleftrightarrow> sorted_explorer xp
     \<and> (\<forall>d \<in> set (parts main). cfg_name d \<in> V - S \<longrightarrow> covers xp d \<and> (\<forall>p \<in> set (name_to_cfg d). cfg_name (snd p) \<in> V))"

lemma search_ok:
  assumes p: "\<And>d. d \<in> set (parts main) \<Longrightarrow> wf_graph mode d" and u: "named_apart main"
  shows "c \<in> set (parts main) \<Longrightarrow> cfg_name c \<notin> set (fst vx) \<Longrightarrow> searched main S (set (fst vx)) (snd vx) \<Longrightarrow>
     \<exists>V' xp'. initializeCoverage c vx = Inr (V', xp') \<and> insert (cfg_name c) (set (fst vx)) \<subseteq> set V' \<and> searched main S (set V') xp'"
   and "\<forall>q \<in> set cs. snd q \<in> set (parts main) \<Longrightarrow> searched main S (set (fst vx)) (snd vx) \<Longrightarrow>
     \<exists>V' xp'. initialize_callees cs vx = Inr (V', xp') \<and> cfg_name ` snd ` set cs \<union> set (fst vx) \<subseteq> set V' \<and> searched main S (set V') xp'"
proof (induction c vx and cs vx arbitrary: S and S rule: initializeCoverage_initialize_callees.induct)
  case (1 ty name vars cfgs vertices edges en ex visited xp)
  let ?c = "Cfg ty name vars cfgs vertices edges en ex"
  have sub: "\<forall>q \<in> set cfgs. snd q \<in> set (parts main)" using parts_child [OF 1(2)] by simp
  have "searched main (insert name S) (set (fst (name # visited, xp))) (snd (name # visited, xp))"
    using 1(4) by (auto simp: searched_def)
  from 1(1) [OF sub this] obtain V1 xp1 where
    1: "initialize_callees cfgs (name # visited, xp) = Inr (V1, xp1)" "cfg_name ` snd ` set cfgs \<union> insert name (set visited) \<subseteq> set V1" "searched main (insert name S) (set V1) xp1"
    by auto
  obtain xp2 where 2: "add_vertices (map snd vertices) xp1 = Inr xp2" "extends xp1 xp2" "covers xp2 ?c"
    using add_graph_ok [OF p [OF "1.prems"(1)], of xp1] by auto
  have kids: "cfg_name (snd q) \<in> set V1" if "q \<in> set cfgs" for q using 1(2) that by blast
  have "searched main S (set V1) xp2"
    unfolding searched_def
  proof (intro conjI ballI impI)
    show "sorted_explorer xp2" using 1(3) 2(2) by (simp add: searched_def extends_def)
    fix d assume d: "d \<in> set (parts main)" "cfg_name d \<in> set V1 - S"
    show "covers xp2 d" "\<And>q. q \<in> set (name_to_cfg d) \<Longrightarrow> cfg_name (snd q) \<in> set V1"
    proof -
      have "d = ?c \<or> cfg_name d \<in> set V1 - insert name S"
        using u d "1.prems"(1) by (force simp: named_apart_def)
      then show "covers xp2 d" "\<And>q. q \<in> set (name_to_cfg d) \<Longrightarrow> cfg_name (snd q) \<in> set V1"
        using 2(3) 1(3) kids d(1) extends_covers [OF 2(2)] by (auto simp: searched_def)
    qed
  qed
  then show ?case using "1.prems"(2) 1(1,2) 2(1) by simp
next
  case (3 n c cs visited xp)
  have "\<exists>V1 xp1. (if cfg_name c \<in> set visited then Inr (visited, xp) else initializeCoverage c (visited, xp)) = Inr (V1, xp1)
      \<and> insert (cfg_name c) (set visited) \<subseteq> set V1 \<and> searched main S (set V1) xp1"
  proof (cases "cfg_name c \<in> set visited")
    case False
    then show ?thesis using "3.IH"(1) [OF False, of S] "3.prems" by simp
  qed (use "3.prems"(2) in simp)
  then obtain V1 xp1 where 1: "(if cfg_name c \<in> set visited then Inr (visited, xp) else initializeCoverage c (visited, xp)) = Inr (V1, xp1)"
      "insert (cfg_name c) (set visited) \<subseteq> set V1" "searched main S (set V1) xp1" by blast
  obtain V2 xp2 where 2: "initialize_callees cs (V1, xp1) = Inr (V2, xp2)" "cfg_name ` snd ` set cs \<union> set V1 \<subseteq> set V2" "searched main S (set V2) xp2"
    using "3.IH"(2) [of S "(V1, xp1)"] "3.prems"(1) 1(3) by auto
  have "insert (cfg_name c) (cfg_name ` snd ` set cs \<union> set visited) \<subseteq> set V2" using 1(2) 2(2) by blast
  then show ?case using 1(1) 2(1,3) by simp
qed simp

lemma initialize_explorer_ok:
  assumes p: "\<And>d. d \<in> set (parts main) \<Longrightarrow> wf_graph mode d" and u: "named_apart main" and s: "sorted_explorer xp"
  shows "\<exists>xp'. initialize_explorer main xp = Inr xp' \<and> explorer_ok main xp'"
proof -
  have "searched main {} (set (fst ([], xp))) (snd ([] :: string list, xp))" using s by (simp add: searched_def)
  from search_ok(1) [OF p u parts_self _ this] obtain V xp' where
    1: "initializeCoverage main ([], xp) = Inr (V, xp')" "cfg_name main \<in> set V" "searched main {} (set V) xp'" by auto
  have "cfg_name c \<in> set V \<Longrightarrow> c \<in> set (parts main) \<Longrightarrow> d \<in> set (parts c) \<Longrightarrow> cfg_name d \<in> set V" for c d
  proof (induction c)
    case (Cfg ty name vars cfgs vertices edges en ex)
    show ?case
    proof (cases "d = Cfg ty name vars cfgs vertices edges en ex")
      case False
      then obtain q where q: "q \<in> set cfgs" "d \<in> set (parts (snd q))" using Cfg.prems(3) by auto
      have "snd q \<in> Basic_BNFs.snds q" by (cases q) simp
      moreover have "cfg_name (snd q) \<in> set V" using 1(3) Cfg.prems(1,2) q(1) unfolding searched_def by fastforce
      moreover have "snd q \<in> set (parts main)" using parts_child [OF Cfg.prems(2)] q(1) by simp
      ultimately show ?thesis using Cfg.IH [OF q(1)] q(2) by blast
    qed (use Cfg.prems in simp)
  qed
  then have "\<forall>d \<in> set (parts main). cfg_name d \<in> set V" using 1(2) parts_self by blast
  then show ?thesis using 1(1,3) by (auto simp: initialize_explorer_def searched_def explorer_ok_def sorted_explorer_def covers_def)
qed

end
