(* ===== verification/Ahorn_Runs.thy ===== *)
theory Ahorn_Runs
  imports Ahorn_Coverage
begin

text \<open>
  Runs of the simulator: the start of a test, its inputs, and the tests of a suite one after the other, none of
  which fails in a well-formed program.
\<close>

section \<open>The start of a test\<close>

definition default_ok :: "Variable \<Rightarrow> bool" where
  "default_ok v \<longleftrightarrow> (case v_init v of
       None \<Rightarrow> random_ok (v_type v)
     | Some c \<Rightarrow> (case c of
           BooleanConstant _ \<Rightarrow> access_type (v_type v) = Inr BOOLEAN
         | IntegerConstant _ \<Rightarrow> access_type (v_type v) = Inr ARITHMETIC
         | _ \<Rightarrow> False))"

definition initial_ok :: "'e z3_api \<Rightarrow> Cfg \<Rightarrow> Executor \<Rightarrow> (string, 'e) std_map \<Rightarrow> bool" where
  "initial_ok z main ex initial \<longleftrightarrow> (\<forall>v \<in> snd ` set (flat main).
     if isWholeProgramInput ex (getFullyQualifiedName v) then default_ok v
     else \<exists>w. map_of initial (getFullyQualifiedName v) = Some (const_of z w) \<and> access_type (v_type v) = Inr (type_of w))"

lemma default_value:
  assumes "default_ok v"
  obtains w where "(case v_init v of Some c \<Rightarrow> makeValue sv c | None \<Rightarrow> makeDefaultValue sv (v_type v)) = Inr (const_of (z3 sv) w)"
    "access_type (v_type v) = Inr (type_of w)"
proof (cases "v_init v")
  case None
  show thesis
  proof (cases "v_type v")
    case (Elementary el)
    then show thesis using assms None that [of "IntV 0"] that [of "BoolV False"]
      by (cases el) (simp_all add: default_ok_def makeIntegerValue_def makeBooleanValue_def)
  next
    case Safebool
    then show thesis using None that [of "BoolV False"] by (simp add: makeBooleanValue_def)
  qed (use assms None in \<open>simp_all add: default_ok_def\<close>)
next
  case (Some c)
  then show thesis using assms that by (cases c) (auto simp: default_ok_def makeIntegerValue_def makeBooleanValue_def intro: that [of "IntV i" for i] that [of "BoolV b" for b])
qed

definition first_value :: "'e Solver \<Rightarrow> Executor \<Rightarrow> (string, 'e) std_map \<Rightarrow> Variable \<Rightarrow> 'e res" where
  "first_value sv ex initial v = (if isWholeProgramInput ex (getFullyQualifiedName v) then
       (case v_init v of Some c \<Rightarrow> makeValue sv c | None \<Rightarrow> makeDefaultValue sv (v_type v))
     else map_at initial (getFullyQualifiedName v))"

lemma first_value_ok:
  assumes "initial_ok (z3 sv) main ex initial" "v \<in> snd ` set (flat main)"
  obtains w where "first_value sv ex initial v = Inr (const_of (z3 sv) w)" "access_type (v_type v) = Inr (type_of w)"
proof (cases "isWholeProgramInput ex (getFullyQualifiedName v)")
  case True
  then have "default_ok v" using assms by (auto simp: initial_ok_def)
  then show thesis by (rule default_value [where sv = sv]) (use True that in \<open>simp add: first_value_def\<close>)
next
  case False
  then show thesis using assms that by (fastforce simp: initial_ok_def first_value_def)
qed

lemma initial_valuations_ok:
  assumes "\<forall>v \<in> set vs. \<exists>w. first_value sv (executor eg) initial v = Inr (const_of (z3 sv) w) \<and> access_type (v_type v) = Inr (type_of w)"
    and "distinct (map getFullyQualifiedName vs)" "\<forall>v \<in> set vs. m (contextualized_name (getFullyQualifiedName v) (eng_cycle eg)) = None"
  shows "\<exists>m'. initial_valuations sv eg initial vs m = Inr m'
     \<and> (\<forall>v \<in> set vs. \<exists>w. m' (contextualized_name (getFullyQualifiedName v) (eng_cycle eg)) = Some (const_of (z3 sv) w) \<and> access_type (v_type v) = Inr (type_of w))
     \<and> (\<forall>n. (\<forall>v \<in> set vs. n \<noteq> contextualized_name (getFullyQualifiedName v) (eng_cycle eg)) \<longrightarrow> m' n = m n)
     \<and> ran m' \<subseteq> ran m \<union> range (const_of (z3 sv))"
  using assms
proof (induction vs arbitrary: m)
  case (Cons v vs)
  let ?k = "\<lambda>v. contextualized_name (getFullyQualifiedName v) (eng_cycle eg)"
  obtain w where w: "first_value sv (executor eg) initial v = Inr (const_of (z3 sv) w)" "access_type (v_type v) = Inr (type_of w)"
    using Cons.prems(1) by auto
  define m1 where "m1 = m(?k v \<mapsto> const_of (z3 sv) w)"
  have run: "initial_valuations sv eg initial (v # vs) m = initial_valuations sv eg initial vs m1"
    using w(1) Cons.prems(3) by (simp add: m1_def first_value_def Let_def)
  have apart: "\<forall>v' \<in> set vs. ?k v' \<noteq> ?k v" using Cons.prems(2) by (auto simp: contextualized_inject image_def)
  have "\<exists>m'. initial_valuations sv eg initial vs m1 = Inr m'
     \<and> (\<forall>v \<in> set vs. \<exists>w. m' (?k v) = Some (const_of (z3 sv) w) \<and> access_type (v_type v) = Inr (type_of w))
     \<and> (\<forall>n. (\<forall>v \<in> set vs. n \<noteq> ?k v) \<longrightarrow> m' n = m1 n) \<and> ran m' \<subseteq> ran m1 \<union> range (const_of (z3 sv))"
    by (rule Cons.IH) (use Cons.prems apart in \<open>auto simp: m1_def\<close>)
  then obtain m' where m': "initial_valuations sv eg initial vs m1 = Inr m'"
     "\<forall>v \<in> set vs. \<exists>w. m' (?k v) = Some (const_of (z3 sv) w) \<and> access_type (v_type v) = Inr (type_of w)"
     "\<And>n. (\<forall>v \<in> set vs. n \<noteq> ?k v) \<Longrightarrow> m' n = m1 n" "ran m' \<subseteq> ran m1 \<union> range (const_of (z3 sv))" by blast
  have "m' (?k v) = Some (const_of (z3 sv) w)" using m'(3) [of "?k v"] apart by (force simp: m1_def)
  moreover have "ran m' \<subseteq> ran m \<union> range (const_of (z3 sv))" using m'(4) by (auto simp: m1_def ran_def split: if_splits)
  ultimately show ?case unfolding run using m' w(2) by (auto simp: m1_def)
qed simp

definition at_start :: "Cfg \<Rightarrow> 'e Context \<Rightarrow> bool" where
  "at_start main cx \<longleftrightarrow> position cx = ([main_frame main], entry_label main)"

lemma initialize_context_ok:
  assumes p: "program_ok mode main" and i: "initial_ok (z3 sv) main (executor eg) initial"
  shows "\<exists>cx. initializeFromConcreteValuation sv eg main initial = Inr cx \<and> context_ok (z3 sv) main cx \<and> cx_cycle cx = eng_cycle eg \<and> at_start main cx"
proof -
  have names: "wf_names main" using p by (simp add: program_ok_def)
  note fl = flat_vars [OF names]
  have "main \<in> set (parts main)" by (rule parts_self)
  then have g: "wf_graph mode main" using p by (simp add: program_ok_def)
  then obtain e where e: "map_of (label_to_vertex main) (entry_label main) = Some e" by (auto simp: wf_graph_def has_vertex_def)
  have l: "vx_label e = entry_label main" using map_of_SomeD [OF e] g by (auto simp: wf_graph_def wf_vertex_def)
  have "\<forall>v \<in> set (map snd (flat main)). \<exists>w. first_value sv (executor eg) initial v = Inr (const_of (z3 sv) w) \<and> access_type (v_type v) = Inr (type_of w)"
    unfolding fl(2) using first_value_ok [OF i] by blast
  from initial_valuations_ok [OF this fl(3), of "\<lambda>_. None"]
  obtain m where m: "initial_valuations sv eg initial (map snd (flat main)) (\<lambda>_. None) = Inr m"
    "\<forall>v \<in> set (map snd (flat main)). \<exists>w. m (contextualized_name (getFullyQualifiedName v) (eng_cycle eg)) = Some (const_of (z3 sv) w) \<and> access_type (v_type v) = Inr (type_of w)"
    "\<And>n. (\<forall>v \<in> set (map snd (flat main)). n \<noteq> contextualized_name (getFullyQualifiedName v) (eng_cycle eg)) \<Longrightarrow> m n = None"
    "ran m \<subseteq> range (const_of (z3 sv))" by auto
  have later: "\<forall>n j. eng_cycle eg < j \<longrightarrow> m (contextualized_name n j) = None"
    by (intro allI impI m(3)) (auto simp: contextualized_inject)
  have "data_ok (z3 sv) main (eng_cycle eg) m"
    using m(2,4) later unfolding data_ok_def values_ok_def fl(2) by blast
  then show ?thesis using e l m(1) fl(1) frames_main [of main]
    by (simp add: initializeFromConcreteValuation_def getEntry_def context_ok_def at_start_def position_def main_frame_def)
qed

section \<open>Inputs\<close>

definition fits :: "'e z3_api \<Rightarrow> Cfg \<Rightarrow> string \<times> 'e \<Rightarrow> bool" where
  "fits z main p \<longleftrightarrow> (\<exists>v \<in> snd ` set (flat main). getFullyQualifiedName v = fst p \<and> (\<exists>w. snd p = const_of z w \<and> access_type (v_type v) = Inr (type_of w)))"

lemma update_inputs_ok:
  assumes "wf_names main" "data_ok z main k (concrete_valuations st)" "\<forall>p \<in> set ins. fits z main p"
  shows "\<exists>st'. update_inputs k ins st = Inr st' \<and> data_ok z main k (concrete_valuations st') \<and> vertex st' = vertex st"
  using assms(2,3)
proof (induction ins arbitrary: st)
  case (Cons i ins)
  obtain n e where i: "i = (n, e)" by (cases i)
  obtain p w where p: "p \<in> set (flat main)" "getFullyQualifiedName (snd p) = n" "e = const_of z w" "access_type (v_type (snd p)) = Inr (type_of w)"
    using Cons.prems(2) i by (auto simp: fits_def)
  let ?st = "st\<lparr>concrete_valuations := (concrete_valuations st)(contextualized_name n k \<mapsto> e)\<rparr>"
  have "data_ok z main k (concrete_valuations ?st)" "concrete_valuations st (contextualized_name n k) \<noteq> None"
    using data_update [OF assms(1) Cons.prems(1) p(1,4)] p(2,3) by auto
  moreover have "\<exists>st'. update_inputs k ins ?st = Inr st' \<and> data_ok z main k (concrete_valuations st') \<and> vertex st' = vertex ?st"
    by (rule Cons.IH [OF calculation(1)]) (use Cons.prems(2) in simp)
  ultimately show ?case using i by (auto simp: updateConcreteValuation_def)
qed simp

fun inputs_in_order :: "'e z3_api \<Rightarrow> Cfg \<Rightarrow> cycle \<Rightarrow> 'e inputs \<Rightarrow> bool" where
  "inputs_in_order z main k [] \<longleftrightarrow> True"
| "inputs_in_order z main k ((j, ins) # rest) \<longleftrightarrow> j = k \<and> k \<noteq> - 1 \<and> (\<forall>p \<in> set ins. fits z main p) \<and> inputs_in_order z main (k + 1) rest"

section \<open>Runs\<close>

lemma step_with_ok:
  assumes z: "z3_values (z3 sv)" and p: "wf_program mode main"
    and note_total: "\<And>cx h. context_ok (z3 sv) main cx \<Longrightarrow> good h \<Longrightarrow> \<exists>h'. note_label cx h = Inr h' \<and> good h'"
    and ok: "context_ok (z3 sv) main cx" "engine_ok main eg" "cx_cycle cx = eng_cycle eg" "eng_cycle eg \<noteq> - 1" "good h"
  shows "\<exists>eg' cx' h'. step_with sv mode note_label eg cx h = Inr (eg', cx', h') \<and> context_ok (z3 sv) main cx' \<and> engine_ok main eg' \<and> good h'
       \<and> eng_cycle eg' = eng_cycle eg + 1 \<and> cx_cycle cx' = eng_cycle eg + 1 \<and> at_start main cx'
       \<and> whole_program_inputs (executor eg') = whole_program_inputs (executor eg)"
  using step_loop_ok [where good = good and note_label = note_label, OF z p note_total ok(1,2,3,4,5)]
  by (auto simp: step_with_def engine_ok_def at_start_def)

lemma step_ok:
  assumes "z3_values (z3 sv)" "wf_program mode main" "context_ok (z3 sv) main cx" "engine_ok main eg" "cx_cycle cx = eng_cycle eg" "eng_cycle eg \<noteq> - 1"
  shows "\<exists>eg' cx'. step sv mode eg cx = Inr (eg', cx') \<and> context_ok (z3 sv) main cx' \<and> engine_ok main eg'
       \<and> eng_cycle eg' = eng_cycle eg + 1 \<and> cx_cycle cx' = eng_cycle eg + 1 \<and> at_start main cx'
       \<and> whole_program_inputs (executor eg') = whole_program_inputs (executor eg)"
  using step_with_ok [where good = "\<lambda>_. True" and note_label = "\<lambda>_ h. Inr h" and h = "()", OF assms(1,2) _ assms(3-6)]
  by (auto simp: step_def)

lemma run_test_cycles_ok:
  assumes z: "z3_values (z3 sv)" and p: "wf_program mode main"
  shows "context_ok (z3 sv) main cx \<Longrightarrow> engine_ok main eg \<Longrightarrow> cx_cycle cx = eng_cycle eg \<Longrightarrow> inputs_in_order (z3 sv) main (eng_cycle eg) inputs \<Longrightarrow>
     \<exists>eg'. run_test_cycles sv mode inputs eg cx = Inr eg' \<and> engine_ok main eg' \<and> whole_program_inputs (executor eg') = whole_program_inputs (executor eg)"
proof (induction inputs arbitrary: eg cx)
  case (Cons i inputs)
  obtain ins where i: "i = (eng_cycle eg, ins)" "eng_cycle eg \<noteq> - 1" "\<forall>p \<in> set ins. fits (z3 sv) main p" "inputs_in_order (z3 sv) main (eng_cycle eg + 1) inputs"
    using Cons.prems(4) by (cases i) auto
  have names: "wf_names main" using p by (simp add: wf_program_def program_ok_def)
  have "data_ok (z3 sv) main (eng_cycle eg) (concrete_valuations (cx_state cx))" using Cons.prems(1,3) by (simp add: context_ok_def)
  from update_inputs_ok [OF names this i(3)] obtain st where st: "update_inputs (eng_cycle eg) ins (cx_state cx) = Inr st"
    "data_ok (z3 sv) main (eng_cycle eg) (concrete_valuations st)" "vertex st = vertex (cx_state cx)" by blast
  have "context_ok (z3 sv) main (cx\<lparr>cx_state := st\<rparr>)" using Cons.prems(1,3) st(2,3) by (simp add: context_ok_def)
  from step_ok [OF z p this Cons.prems(2) _ i(2)] Cons.prems(3) obtain eg1 cx1 where
    1: "step sv mode eg (cx\<lparr>cx_state := st\<rparr>) = Inr (eg1, cx1)" "context_ok (z3 sv) main cx1" "engine_ok main eg1" "eng_cycle eg1 = eng_cycle eg + 1"
      "cx_cycle cx1 = eng_cycle eg + 1" "whole_program_inputs (executor eg1) = whole_program_inputs (executor eg)" by auto
  from Cons.IH [OF 1(2,3)] 1(4,5) i(4) show ?case using st(1) 1(1,6) i(1) by auto
qed simp

definition test_ok :: "'e z3_api \<Rightarrow> Cfg \<Rightarrow> Executor \<Rightarrow> (string, 'e) std_map \<times> 'e inputs \<Rightarrow> bool" where
  "test_ok z main ex t \<longleftrightarrow> initial_ok z main ex (fst t) \<and> inputs_in_order z main 0 (snd t)"

lemma test_ok_cong: "whole_program_inputs ex' = whole_program_inputs ex \<Longrightarrow> test_ok z main ex' t = test_ok z main ex t"
  by (simp add: test_ok_def initial_ok_def isWholeProgramInput_def)

lemma run_tests_ok:
  assumes z: "z3_values (z3 sv)" and p: "wf_program mode main"
  shows "engine_ok main eg \<Longrightarrow> eng_cycle eg = 0 \<Longrightarrow> \<forall>t \<in> set tests. test_ok (z3 sv) main (executor eg) t \<Longrightarrow>
     \<exists>eg'. run_tests sv mode main tests eg = Inr eg' \<and> engine_ok main eg' \<and> eng_cycle eg' = 0 \<and> whole_program_inputs (executor eg') = whole_program_inputs (executor eg)"
proof (induction tests arbitrary: eg)
  case (Cons t tests)
  obtain initial inputs where t: "t = (initial, inputs)" by (cases t)
  have po: "program_ok mode main" using p by (simp add: wf_program_def)
  have i: "initial_ok (z3 sv) main (executor eg) initial" "inputs_in_order (z3 sv) main (eng_cycle eg) inputs" using Cons.prems(2,3) t by (simp_all add: test_ok_def)
  obtain cx where cx: "initializeFromConcreteValuation sv eg main initial = Inr cx" "context_ok (z3 sv) main cx" "cx_cycle cx = eng_cycle eg"
    using initialize_context_ok [OF po i(1)] by blast
  obtain eg1 where 1: "run_test_cycles sv mode inputs eg cx = Inr eg1" "engine_ok main eg1" "whole_program_inputs (executor eg1) = whole_program_inputs (executor eg)"
    using run_test_cycles_ok [OF z p cx(2) Cons.prems(1) cx(3) i(2)] by blast
  have "engine_ok main (reset eg1)" "eng_cycle (reset eg1) = 0" "executor (reset eg1) = executor eg1"
    using 1(2) by (simp_all add: reset_def engine_ok_def)
  moreover have "\<forall>t \<in> set tests. test_ok (z3 sv) main (executor eg1) t"
    using Cons.prems(3) test_ok_cong [OF 1(3), of "z3 sv" main] by auto
  ultimately show ?case using Cons.IH [of "reset eg1"] 1(1,3) cx(1) t by simp
qed simp

lemma run_test_cases_ok:
  assumes z: "z3_values (z3 sv)" and p: "wf_program mode main" and u: "named_apart main"
    and s: "sorted_explorer (explorer eg)" and i: "inputs_ok main (initialize_executor main (executor eg))"
    and t: "\<forall>t \<in> set tests. test_ok (z3 sv) main (initialize_executor main (executor eg)) t"
  shows "\<exists>eg'. run_test_cases sv mode eg main tests = Inr eg' \<and> engine_ok main eg'"
proof -
  have "\<And>d. d \<in> set (parts main) \<Longrightarrow> wf_graph mode d" using p by (simp add: wf_program_def program_ok_def)
  from initialize_explorer_ok [OF this u s] obtain xp where xp: "initialize_explorer main (explorer eg) = Inr xp" "explorer_ok main xp" by blast
  let ?eg = "\<lparr>eng_cycle = 0, explorer = xp, executor = initialize_executor main (executor eg)\<rparr>"
  have "engine_ok main ?eg" using xp(2) i by (simp add: engine_ok_def)
  from run_tests_ok [OF z p this _ ] t show ?thesis using xp(1) by (auto simp: run_test_cases_def initialize_engine_def)
qed

end
