(* ===== verification/Ahorn_Effects.thy ===== *)
theory Ahorn_Effects
  imports Ahorn_Runs
begin

text \<open>
  What a step and a cycle leave as it is, and what the counts of the coverage say.
\<close>

section \<open>What a step leaves alone\<close>

definition keeps_others :: "cycle set \<Rightarrow> 'e State \<Rightarrow> 'e State \<Rightarrow> bool" where
  "keeps_others ks st st' \<longleftrightarrow> (\<forall>n j. j \<notin> ks \<longrightarrow> concrete_valuations st' (contextualized_name n j) = concrete_valuations st (contextualized_name n j))"

lemma keeps_refl [simp]: "keeps_others ks st st"
  by (simp add: keeps_others_def)

lemma keeps_trans: "keeps_others ks st st' \<Longrightarrow> keeps_others ks st' st'' \<Longrightarrow> keeps_others ks st st''"
  by (simp add: keeps_others_def)

lemma keeps_goto: "goto_vertex c l cx = Inr cx' \<Longrightarrow> keeps_others ks st (cx_state cx) \<Longrightarrow> keeps_others ks st (cx_state cx') \<and> cx_cycle cx' = cx_cycle cx"
  by (auto simp: goto_vertex_def rbind_eq_Inr keeps_others_def)

lemma keeps_store:
  "store r e cx = Inr cx' \<Longrightarrow> cx_cycle cx \<in> ks \<Longrightarrow> keeps_others ks (cx_state cx) (cx_state cx') \<and> cx_cycle cx' = cx_cycle cx"
  by (auto simp: store_def reference_name_def rbind_eq_Inr updateConcreteValuation_def keeps_others_def contextualized_inject split: if_splits)

lemma keeps_fall:
  "fall_through cx = Inr cx' \<Longrightarrow> keeps_others ks st (cx_state cx) \<Longrightarrow> keeps_others ks st (cx_state cx') \<and> cx_cycle cx' = cx_cycle cx"
  by (auto simp: fall_through_def rbind_eq_Inr dest: keeps_goto)

lemma keeps_carry:
  "carry_over sv k vs (ex, st) = Inr (ex', st') \<Longrightarrow> keeps_others {k + 1} st st'"
proof (induction vs arbitrary: ex st)
  case (Cons v vs)
  let ?n = "getFullyQualifiedName v"
  from Cons.prems obtain ex1 e st1 where 1: "setConcreteValuation (contextualized_name ?n (k + 1)) e st = Inr st1"
    "carry_over sv k vs (ex1, st1) = Inr (ex', st')" by (auto simp: rbind_eq_Inr Let_def)
  have "keeps_others {k + 1} st st1" using 1(1) by (auto simp: setConcreteValuation_def keeps_others_def contextualized_inject)
  then show ?case using Cons.IH [OF 1(2)] keeps_trans by blast
qed simp

lemma keeps_regular:
  assumes "handleRegularVertex sv mode v ex cx = Inr (ex', cx')" "cx_cycle cx \<in> ks"
  shows "keeps_others ks (cx_state cx) (cx_state cx') \<and> cx_cycle cx' = cx_cycle cx"
proof -
  obtain i where i: "vx_instruction v = Some i" using assms(1) by (cases "vx_instruction v") (simp_all add: handleRegularVertex_def)
  show ?thesis
  proof (cases i)
    case (AssignmentInstruction r e)
    then show ?thesis using assms i
      by (auto simp: handleRegularVertex_def keep_executor_def visitAssignment_def rbind_eq_Inr) (metis keeps_store keeps_fall)+
  next
    case (CallInstruction x l1 l2)
    then show ?thesis using assms i
      by (cases "v_type x") (auto simp: handleRegularVertex_def keep_executor_def visitCall_def rbind_eq_Inr Let_def pushFrame_def
          dest!: keeps_goto [where ks = ks and st = "cx_state cx"])
  next
    case (IfInstruction e l1 l2)
    then show ?thesis using assms i
      by (auto simp: handleRegularVertex_def keep_executor_def visitIf_def rbind_eq_Inr Let_def dest!: keeps_goto [where ks = ks and st = "cx_state cx"])
  next
    case (HavocInstruction r)
    then show ?thesis using assms i
      by (auto simp: handleRegularVertex_def visitHavoc_def rbind_eq_Inr Let_def) (metis keeps_store keeps_fall)+
  qed (use assms i in \<open>simp_all add: handleRegularVertex_def\<close>)
qed

lemma keeps_execute:
  assumes "execute sv mode ex cx = Inr (ex', cx')"
  shows "keeps_others {cx_cycle cx, cx_cycle cx + 1} (cx_state cx) (cx_state cx') \<and> cx_cycle cx' \<in> {cx_cycle cx, cx_cycle cx + 1}"
proof -
  let ?ks = "{cx_cycle cx, cx_cycle cx + 1}"
  obtain f where f: "getFrame cx = Inr f" using assms by (auto simp: execute_def rbind_eq_Inr)
  show ?thesis
  proof (cases "vx_type (vertex (cx_state cx))")
    case ENTRY
    then show ?thesis using assms f
      by (auto simp: execute_def keep_executor_def handleEntryVertex_def rbind_eq_Inr Let_def split: if_splits dest!: keeps_goto [where ks = ?ks and st = "cx_state cx"])
  next
    case REGULAR
    then show ?thesis using assms f keeps_regular [of sv mode _ ex cx ex' cx' ?ks] by (auto simp: execute_def)
  next
    case EXIT
    show ?thesis
    proof (cases "cfg_type (fr_cfg f)")
      case PROGRAM
      then obtain vs ex1 st cx1 where 1: "carry_over sv (cx_cycle cx) vs (ex, cx_state cx) = Inr (ex1, st)"
        "goto_vertex (fr_cfg f) (fr_return_label f) (cx\<lparr>cx_state := st\<rparr>) = Inr cx1" "cx' = cx1\<lparr>cx_cycle := cx_cycle cx + 1\<rparr>"
        using assms f EXIT by (auto simp: execute_def handleProgramExitVertex_def rbind_eq_Inr)
      have "keeps_others ?ks (cx_state cx) st" using keeps_carry [OF 1(1)] by (simp add: keeps_others_def)
      then show ?thesis using keeps_goto [OF 1(2), of ?ks "cx_state cx"] 1(3) by simp
    next
      case FUNCTION_BLOCK
      then show ?thesis using assms f EXIT
        by (auto simp: execute_def keep_executor_def handleFunctionBlockExitVertex_def popFrame_def rbind_eq_Inr split: list.splits
            dest!: keeps_goto [where ks = ?ks and st = "cx_state cx"])
    qed (use assms f EXIT in \<open>simp add: execute_def\<close>)
  qed
qed

section \<open>Coverage counts\<close>

lemma map_write_map_of:
  "map_write m k g = Inr m' \<Longrightarrow> map_of m' = (\<lambda>j. if j = k then map_option g (map_of m j) else map_of m j) \<and> map fst m' = map fst m"
proof -
  assume a: "map_write m k g = Inr m'"
  then have m': "m' = map (\<lambda>(k', v). (k', if k' = k then g v else v)) m" by (simp add: map_write_def split: if_splits)
  show ?thesis unfolding m' by (induction m) (auto simp: fun_eq_iff comp_def split_beta)
qed

lemma count_write:
  assumes "sorted_map m" "map_write m l (\<lambda>_. True) = Inr m'"
  shows "count_statements m' = count_statements m + (if map_of m l = Some False then 1 else 0)" "length m' = length m" "map_of m l \<noteq> None"
proof -
  have m': "m' = map (\<lambda>(k', v). (k', if k' = l then True else v)) m" and l: "map_of m l \<noteq> None"
    using assms(2) by (auto simp: map_write_def split: if_splits)
  show "length m' = length m" "map_of m l \<noteq> None" by (simp add: m') (rule l)
  show "count_statements m' = count_statements m + (if map_of m l = Some False then 1 else 0)"
    unfolding m' using assms(1)
  proof (induction m)
    case (Cons p m)
    have "count_statements (map (\<lambda>(k', v). (k', if k' = l then True else v)) m) = count_statements m" if "fst p = l"
    proof -
      have "map (\<lambda>(k', v). (k', if k' = l then True else v)) m = m"
        using Cons.prems that by (intro map_idI) (auto split: if_splits)
      then show ?thesis by simp
    qed
    then show ?case using Cons by (cases p) (auto simp: count_statements_def split: if_splits)
  qed (simp add: count_statements_def)
qed

lemma quotient_le:
  assumes "c \<le> c'" "c' \<le> n" "0 < n"
  shows "\<exists>q q'. quotient c n = Some q \<and> quotient c' n = Some q' \<and> 0 \<le> q \<and> q \<le> q' \<and> q' \<le> 1 \<and> (q < q' \<longleftrightarrow> c < c')"
  using assms by (simp add: quotient_def divide_right_mono divide_less_cancel)

text \<open>
  A whole cycle changes the values of that cycle and the next only.
\<close>

lemma loop_keeps:
  "step_loop sv mode note_label eg cx h = Some r \<Longrightarrow> r = Inr (eg', cx', h') \<Longrightarrow>
     keeps_others {eng_cycle eg, eng_cycle eg + 1} (cx_state cx) (cx_state cx')"
proof (induction sv mode note_label eg cx h r rule: step_loop.raw_induct [rotated, consumes 1, case_names step])
  case (step loop sv mode note_label eg cx h r)
  show ?case
  proof (cases "cx_cycle cx = eng_cycle eg")
    case True
    let ?m = "rbind (note_label cx h) (\<lambda>h. rbind (execute sv mode (executor eg) cx) (\<lambda>(ex, cx').
        rbind (updateCoverage (vx_label (vertex (cx_state cx))) cx' (explorer eg)) (\<lambda>(_, xp). Inr (eg\<lparr>explorer := xp, executor := ex\<rparr>, cx', h))))"
    have body: "(case ?m of Inl e \<Rightarrow> Some (Inl e) | Inr (eg, cx, h) \<Rightarrow> loop sv mode note_label eg cx h) = Some r"
      using step(2) True by simp
    then obtain eg1 cx1 h1 where m: "?m = Inr (eg1, cx1, h1)" "loop sv mode note_label eg1 cx1 h1 = Some r"
      using step(3) by (cases ?m) auto
    then obtain ex1 where e: "execute sv mode (executor eg) cx = Inr (ex1, cx1)" "eng_cycle eg1 = eng_cycle eg"
      by (auto simp: rbind_eq_Inr)
    then show ?thesis using step(1) [OF m(2) step(3)] keeps_execute [OF e(1)] True keeps_trans by fastforce
  qed (use step(2,3) in simp)
qed

end
