(* ===== verification/Ahorn_Example.thy ===== *)
theory Ahorn_Example
  imports Ahorn_Effects
begin

text \<open>
  A small program with a function block, run by the simulator on concrete values.
\<close>

section \<open>A program\<close>

text \<open>
  A program with an input, a local variable and a function block that counts; when the input is positive it is
  added to the local variable, otherwise the function block is called.
\<close>

definition var :: "string \<Rightarrow> data_type \<Rightarrow> storage_type \<Rightarrow> Variable" where
  "var n ty s = \<lparr>v_name = n, v_type = ty, v_storage = s, v_init = None, v_parent = None\<rparr>"

definition vx :: "label \<Rightarrow> vertex_type \<Rightarrow> Instruction option \<Rightarrow> label \<times> Vertex" where
  "vx l ty i = (l, \<lparr>vx_label = l, vx_instruction = i, vx_type = ty\<rparr>)"

abbreviation int_type :: data_type where "int_type \<equiv> Elementary INT_Type"

definition var_a :: Variable where "var_a = var ''a'' int_type INPUT"
definition var_x :: Variable where "var_x = var ''x'' int_type LOCAL"
definition var_f :: Variable where "var_f = var ''f'' (Derived ''F'') LOCAL"
definition var_i :: Variable where "var_i = var ''i'' int_type LOCAL"

definition block_ex :: Cfg where
  "block_ex = Cfg FUNCTION_BLOCK ''F'' [(''i'', var_i)] []
     [vx 10 ENTRY None,
      vx 11 REGULAR (Some (AssignmentInstruction (VariableAccess var_i) (BinaryExpression ADD (Reference (VariableAccess var_i)) (ConstantExpression (IntegerConstant 1))))),
      vx 12 EXIT None]
     [make_edge 10 11 INTRAPROCEDURAL, make_edge 11 12 INTRAPROCEDURAL] 10 12"

definition main_ex :: Cfg where
  "main_ex = Cfg PROGRAM ''P'' [(''a'', var_a), (''f'', var_f), (''x'', var_x)] [(''F'', block_ex)]
     [vx 0 ENTRY None,
      vx 1 REGULAR (Some (IfInstruction (BinaryExpression GREATER_THAN (Reference (VariableAccess var_a)) (ConstantExpression (IntegerConstant 0))) 2 3)),
      vx 2 REGULAR (Some (AssignmentInstruction (VariableAccess var_x) (BinaryExpression ADD (Reference (VariableAccess var_x)) (Reference (VariableAccess var_a))))),
      vx 3 REGULAR (Some (CallInstruction var_f 4 10)),
      vx 4 EXIT None]
     [make_edge 0 1 INTRAPROCEDURAL, make_edge 1 2 TRUE_BRANCH, make_edge 1 3 FALSE_BRANCH, make_edge 2 4 INTRAPROCEDURAL,
      make_edge 3 4 INTRAPROCEDURAL_CALL_TO_RETURN, make_edge 3 10 INTERPROCEDURAL_CALL] 0 4"

text \<open>Values as constants of Z3, and a generator that always draws the lower bound.\<close>

definition val_api :: "val z3_api" where
  "val_api = \<lparr>bool_val = BoolV, int_val = IntV, is_arith = (\<lambda>v. type_of v = ARITHMETIC), is_bool = (\<lambda>v. type_of v = BOOLEAN),
     is_true = (\<lambda>v. v = BoolV True), is_false = (\<lambda>v. v = BoolV False),
     z3_ge = (\<lambda>a b. the (mean_binary GREATER_THAN_OR_EQUAL_TO a b)), z3_gt = (\<lambda>a b. the (mean_binary GREATER_THAN a b)),
     z3_lt = (\<lambda>a b. the (mean_binary LESS_THAN a b)), z3_eq = (\<lambda>a b. the (mean_binary EQUALITY a b)),
     z3_add = (\<lambda>a b. the (mean_binary ADD a b)), z3_sub = (\<lambda>a b. the (mean_binary SUBTRACT a b)),
     z3_and = (\<lambda>a b. the (mean_binary BOOLEAN_AND a b)), z3_or = (\<lambda>a b. the (mean_binary BOOLEAN_OR a b)),
     z3_neg = (\<lambda>a. the (mean_unary NEGATION a)), z3_not = (\<lambda>a. the (mean_unary COMPLEMENT a))\<rparr>"

definition solver_ex :: "val Solver" where
  "solver_ex = \<lparr>z3 = val_api, draw = (\<lambda>_ lo _. lo)\<rparr>"

lemma val_api_values [simp]: "z3_values (z3 solver_ex)" "const_of (z3 solver_ex) = id"
proof -
  show "z3_values (z3 solver_ex)" by (auto simp: z3_values_def solver_ex_def val_api_def)
  have "const_of (z3 solver_ex) v = v" for v by (cases v) (simp_all add: solver_ex_def val_api_def)
  then show "const_of (z3 solver_ex) = id" by (simp add: fun_eq_iff)
qed

lemma main_ex_ok: "wf_program NONE main_ex" "named_apart main_ex"
  unfolding wf_program_def program_ok_def wf_graph_def forward_def branches_ok_def branch_labels_def has_vertex_def
  by code_simp+

end
