(* ===== verification/Ahorn_Theorems.thy ===== *)
theory Ahorn_Theorems
  imports Ahorn_Example
begin

text \<open>
  The properties of the simulator: what it evaluates, that its steps and runs do not fail and end, what they leave
  alone, and what its coverage counts.
\<close>

section \<open>Expressions\<close>

text \<open>
  C9: The evaluator returns a constant exactly when the expression has a meaning over integers and truth values, and then the constant of the meaning.
\<close>

theorem evaluate_is_meaning:
  assumes "z3_values (z3 sv)" "getFrame cx = Inr f" "sees (z3 sv) cx f \<rho>"
  shows "evaluate sv mode e cx = Inr w \<longleftrightarrow> (\<exists>v. meaning mode \<rho> e = Some v \<and> w = const_of (z3 sv) v)"
  by (rule evaluate_means [OF assms])

text \<open>The main frame of the example, in a state whose input is 7.\<close>

definition context_7 :: "val Context" where
  "context_7 = \<lparr>cx_cycle = 0, cx_state = \<lparr>vertex = snd (vx 1 REGULAR None), concrete_valuations = [''P.a__0'' \<mapsto> IntV 7]\<rparr>,
     call_stack = [main_frame main_ex]\<rparr>"

lemma sees_7: "sees (z3 solver_ex) context_7 (main_frame main_ex) [''a'' \<mapsto> IntV 7]"
proof -
  have "contextualized_name (''P.'' @ n) 0 = ''P.a__0'' \<longleftrightarrow> n = ''a''" for n
  proof -
    have "contextualized_name (''P.'' @ ''a'') 0 = ''P.a__0''" by code_simp
    then show ?thesis using contextualized_inject [of "''P.'' @ n" 0 "''P.'' @ ''a''" 0] by simp
  qed
  then show ?thesis by (simp add: sees_def context_7_def main_frame_def main_ex_def option.map_id)
qed

theorem evaluate_is_meaning_witness:
  "evaluate solver_ex NONE (BinaryExpression GREATER_THAN (Reference (VariableAccess var_a)) (ConstantExpression (IntegerConstant 0))) context_7 = Inr (BoolV True)"
  using evaluate_is_meaning [OF val_api_values(1) _ sees_7, of NONE "BinaryExpression GREATER_THAN (Reference (VariableAccess var_a)) (ConstantExpression (IntegerConstant 0))" "BoolV True"]
  by (simp add: getFrame_def context_7_def bind2_def var_a_def var_def)

text \<open>
  C22: Evaluating an expression of a type in a context the invariant allows never fails and gives a value of that type.
\<close>

theorem evaluate_typed:
  assumes "z3_values (z3 sv)" "program_ok mode main" "context_ok (z3 sv) main cx" "getFrame cx = Inr f"
    and "typed mode (env (fr_cfg f)) e = Some t"
  shows "\<exists>v. evaluate sv mode e cx = Inr (const_of (z3 sv) v) \<and> type_of v = t"
proof -
  obtain fs where f: "call_stack cx = f # fs" using assms(4) by (auto simp: getFrame_def split: list.splits)
  have "wf_names main" using assms(2) by (simp add: program_ok_def)
  from context_sees [OF assms(3) this f] obtain \<rho> where
    s: "sees (z3 sv) cx f \<rho>" "\<And>n t. env (fr_cfg f) n = Some t \<Longrightarrow> \<exists>v. \<rho> n = Some v \<and> type_of v = t" by blast
  from meaning_typed [where \<Gamma> = "env (fr_cfg f)" and \<rho> = \<rho>, OF s(2) assms(5)]
  obtain v where "meaning mode \<rho> e = Some v" "type_of v = t" by blast
  then show ?thesis using evaluate_means [OF assms(1,4) s(1)] by blast
qed

text \<open>The start of the example with both variables zero.\<close>

definition initial_ex :: "(string, val) std_map" where
  "initial_ex = [(''P.f.i'', IntV 0), (''P.x'', IntV 0)]"

definition engine_ex :: Engine where
  "engine_ex = \<lparr>eng_cycle = 0, explorer = new_explorer, executor = \<lparr>whole_program_inputs = [''P.a''], drawn = 0\<rparr>\<rparr>"

definition start_ex :: "val Context" where
  "start_ex = (case initializeFromConcreteValuation solver_ex engine_ex main_ex initial_ex of Inr cx \<Rightarrow> cx | Inl _ \<Rightarrow> context_7)"

lemma flat_ex: "flat main_ex = [(''a'', var_a\<lparr>v_parent := Some ''P''\<rparr>), (''f.i'', (var ''f.i'' int_type LOCAL)\<lparr>v_parent := Some ''P''\<rparr>), (''x'', var_x\<lparr>v_parent := Some ''P''\<rparr>)]"
  by code_simp

lemma ex_ok: "program_ok NONE main_ex" "initial_ok (z3 solver_ex) main_ex (executor engine_ex) initial_ex" "inputs_ok main_ex (executor engine_ex)"
  using main_ex_ok(1)
  by (auto simp: wf_program_def initial_ok_def inputs_ok_def flat_ex var_a_def var_x_def var_def getFullyQualifiedName_def isWholeProgramInput_def
      engine_ex_def initial_ex_def default_ok_def intro: exI [of _ "IntV 0"])

lemma start_ok: "context_ok (z3 solver_ex) main_ex start_ex" "cx_cycle start_ex = 0" "position start_ex = ([main_frame main_ex], 0)"
  using initialize_context_ok [OF ex_ok(1,2)] by (auto simp: start_ex_def engine_ex_def at_start_def main_ex_def)

lemma start_frame: "getFrame start_ex = Inr (main_frame main_ex)"
  using start_ok(3) by (simp add: position_def getFrame_def)

theorem evaluate_typed_witness:
  "\<exists>v. evaluate solver_ex NONE (BinaryExpression ADD (Reference (VariableAccess var_x)) (Reference (VariableAccess var_a))) start_ex = Inr v \<and> type_of v = ARITHMETIC"
proof -
  have "typed NONE (env (fr_cfg (main_frame main_ex))) (BinaryExpression ADD (Reference (VariableAccess var_x)) (Reference (VariableAccess var_a))) = Some ARITHMETIC"
    by code_simp
  from evaluate_typed [OF val_api_values(1) ex_ok(1) start_ok(1) start_frame this] show ?thesis by simp
qed

section \<open>Steps\<close>

text \<open>
  C3: In a well-formed program a step of the executor never fails and keeps the invariant of the context: the call stack
  follows the variables of the graphs, and every variable has a value of its type in the current cycle and none in later ones.
\<close>

theorem execute_keeps_invariant:
  assumes "z3_values (z3 sv)" "program_ok mode main" "context_ok (z3 sv) main cx" "inputs_ok main ex" "cx_cycle cx \<noteq> - 1"
  shows "\<exists>ex' cx'. execute sv mode ex cx = Inr (ex', cx') \<and> context_ok (z3 sv) main cx' \<and> inputs_ok main ex'"
  using execute_ok [OF assms] inputs_ok_cong assms(4) by metis

theorem execute_keeps_invariant_witness:
  "\<exists>ex' cx'. execute solver_ex NONE (executor engine_ex) start_ex = Inr (ex', cx') \<and> context_ok (z3 solver_ex) main_ex cx' \<and> inputs_ok main_ex ex'"
  using execute_keeps_invariant [OF val_api_values(1) ex_ok(1) start_ok(1) ex_ok(3)] start_ok(2) by simp

text \<open>
  C10: The executor refines the control relation of the graphs: within a cycle a step follows an edge, enters a callee or returns
  from one, and the step that ends a cycle leads from the program's own frame to its entry.
\<close>

theorem execute_refines_control:
  assumes "z3_values (z3 sv)" "program_ok mode main" "context_ok (z3 sv) main cx" "inputs_ok main ex" "cx_cycle cx \<noteq> - 1"
    and "execute sv mode ex cx = Inr (ex', cx')"
  shows "cx_cycle cx' = cx_cycle cx \<and> control (position cx) (position cx')
     \<or> cx_cycle cx' = cx_cycle cx + 1 \<and> fst (position cx) = [main_frame main] \<and> position cx' = ([main_frame main], entry_label main)"
proof -
  obtain ex1 cx1 where "execute sv mode ex cx = Inr (ex1, cx1)" "moves main cx cx1" by (rule execute_ok [OF assms(1-5)])
  then show ?thesis using assms(6) by (simp add: moves_def)
qed

theorem execute_refines_control_witness:
  "\<exists>ex' cx'. execute solver_ex NONE (executor engine_ex) start_ex = Inr (ex', cx')
     \<and> (cx_cycle cx' = 0 \<and> control ([main_frame main_ex], 0) (position cx') \<or> cx_cycle cx' = 1 \<and> position cx' = ([main_frame main_ex], 0))"
proof -
  obtain ex' cx' where e: "execute solver_ex NONE (executor engine_ex) start_ex = Inr (ex', cx')"
    using execute_ok [OF val_api_values(1) ex_ok(1) start_ok(1) ex_ok(3)] start_ok(2) by force
  have "entry_label main_ex = 0" by (simp add: main_ex_def)
  then show ?thesis using execute_refines_control [OF val_api_values(1) ex_ok(1) start_ok(1) ex_ok(3) _ e] start_ok(2,3) e by auto
qed

text \<open>
  C20: The end of a cycle gives every variable of the program that is not an input its value for the next cycle, the one it had,
  changes no value of another cycle, and goes back to the entry.
\<close>

theorem program_exit_carries:
  assumes "program_ok mode main" "context_ok (z3 sv) main cx" "inputs_ok main ex" "cx_cycle cx \<noteq> - 1" "call_stack cx = [main_frame main]"
  shows "\<exists>ex' cx'. handleProgramExitVertex sv (main_frame main) ex cx = Inr (ex', cx') \<and> cx_cycle cx' = cx_cycle cx + 1
     \<and> position cx' = ([main_frame main], entry_label main)
     \<and> (\<forall>v \<in> snd ` set (flat main). \<not> isWholeProgramInput ex (getFullyQualifiedName v) \<longrightarrow>
          concrete_valuations (cx_state cx') (contextualized_name (getFullyQualifiedName v) (cx_cycle cx + 1))
            = concrete_valuations (cx_state cx) (contextualized_name (getFullyQualifiedName v) (cx_cycle cx)))
     \<and> (\<forall>n j. j \<noteq> cx_cycle cx + 1 \<longrightarrow> concrete_valuations (cx_state cx') (contextualized_name n j) = concrete_valuations (cx_state cx) (contextualized_name n j))"
  using program_exit_ok [OF assms(1-4)] assms(5) by (force simp: main_frame_def)

theorem program_exit_carries_witness:
  "\<exists>ex' cx'. handleProgramExitVertex solver_ex (main_frame main_ex) (executor engine_ex) start_ex = Inr (ex', cx') \<and> cx_cycle cx' = 1
     \<and> concrete_valuations (cx_state cx') (contextualized_name ''P.x'' 1) = concrete_valuations (cx_state start_ex) (contextualized_name ''P.x'' 0)"
proof -
  have "call_stack start_ex = [main_frame main_ex]" using start_ok(3) by (simp add: position_def)
  from program_exit_carries [OF ex_ok(1) start_ok(1) ex_ok(3) _ this] start_ok(2)
  show ?thesis by (auto simp: flat_ex getFullyQualifiedName_def isWholeProgramInput_def engine_ex_def var_x_def var_a_def var_def)
qed

text \<open>
  C11: A cycle of the simulator ends, without failing, in a well-formed program whose edges lead forward: the step returns with the
  engine and the context at the start of the next cycle, the invariants kept.
\<close>

theorem step_ends:
  assumes "z3_values (z3 sv)" "wf_program mode main" "context_ok (z3 sv) main cx" "engine_ok main eg" "cx_cycle cx = eng_cycle eg" "eng_cycle eg \<noteq> - 1"
  shows "\<exists>eg' cx'. step sv mode eg cx = Inr (eg', cx') \<and> eng_cycle eg' = eng_cycle eg + 1 \<and> cx_cycle cx' = eng_cycle eg + 1
     \<and> position cx' = ([main_frame main], entry_label main) \<and> context_ok (z3 sv) main cx' \<and> engine_ok main eg'"
  using step_ok [OF assms] by (auto simp: at_start_def)

lemma engine_started:
  obtains xp where "initialize_explorer main_ex new_explorer = Inr xp" "explorer_ok main_ex xp" "engine_ok main_ex (engine_ex\<lparr>explorer := xp\<rparr>)"
proof -
  have "\<And>d. d \<in> set (parts main_ex) \<Longrightarrow> wf_graph NONE d" using ex_ok(1) by (simp add: program_ok_def)
  moreover have "sorted_explorer new_explorer" by (simp add: sorted_explorer_def new_explorer_def)
  ultimately obtain xp where "initialize_explorer main_ex new_explorer = Inr xp" "explorer_ok main_ex xp"
    using initialize_explorer_ok main_ex_ok(2) by blast
  then show thesis using that ex_ok(3) by (simp add: engine_ok_def)
qed

theorem step_ends_witness:
  "\<exists>xp eg' cx'. step solver_ex NONE (engine_ex\<lparr>explorer := xp\<rparr>) start_ex = Inr (eg', cx') \<and> eng_cycle eg' = 1 \<and> cx_cycle cx' = 1"
proof -
  obtain xp where "engine_ok main_ex (engine_ex\<lparr>explorer := xp\<rparr>)" by (rule engine_started)
  from step_ends [OF val_api_values(1) main_ex_ok(1) start_ok(1) this] start_ok(2) show ?thesis
    by (auto simp: engine_ex_def)
qed

text \<open>
  C21: A cycle of the simulator changes no value of an earlier cycle, nor of one after the next.
\<close>

theorem step_keeps_history:
  assumes "step sv mode eg cx = Inr (eg', cx')" "j \<notin> {eng_cycle eg, eng_cycle eg + 1}"
  shows "concrete_valuations (cx_state cx') (contextualized_name n j) = concrete_valuations (cx_state cx) (contextualized_name n j)"
proof -
  obtain eg1 where "step_loop sv mode (\<lambda>_ h. Inr h) eg cx () = Some (Inr (eg1, cx', ()))"
    using assms(1) by (auto simp: step_def step_with_def rbind_eq_Inr split: option.splits)
  from loop_keeps [OF this refl] show ?thesis using assms(2) by (simp add: keeps_others_def)
qed

theorem step_keeps_history_witness:
  "\<exists>xp eg' cx'. step solver_ex NONE (engine_ex\<lparr>explorer := xp\<rparr>) start_ex = Inr (eg', cx')
     \<and> concrete_valuations (cx_state cx') (contextualized_name ''P.x'' 2) = concrete_valuations (cx_state start_ex) (contextualized_name ''P.x'' 2)"
proof -
  obtain xp where "engine_ok main_ex (engine_ex\<lparr>explorer := xp\<rparr>)" by (rule engine_started)
  from step_ok [OF val_api_values(1) main_ex_ok(1) start_ok(1) this] start_ok(2)
  obtain eg' cx' where "step solver_ex NONE (engine_ex\<lparr>explorer := xp\<rparr>) start_ex = Inr (eg', cx')" by (auto simp: engine_ex_def)
  from step_keeps_history [OF this, of 2 "''P.x''"] this show ?thesis by (auto simp: engine_ex_def)
qed

text \<open>
  C2: A run over a suite of test cases never fails in a well-formed program, when each test gives every variable that is not an
  input a value of its type and every cycle, in order, values that fit.
\<close>

theorem run_test_cases_completes:
  assumes "z3_values (z3 sv)" "wf_program mode main" "named_apart main" "sorted_explorer (explorer eg)"
    and "inputs_ok main (initialize_executor main (executor eg))"
    and "\<forall>t \<in> set tests. test_ok (z3 sv) main (initialize_executor main (executor eg)) t"
  shows "\<exists>eg'. run_test_cases sv mode eg main tests = Inr eg'"
  using run_test_cases_ok [OF assms] by blast

definition fresh_engine :: Engine where
  "fresh_engine = \<lparr>eng_cycle = 0, explorer = new_explorer, executor = \<lparr>whole_program_inputs = [], drawn = 0\<rparr>\<rparr>"

theorem run_test_cases_completes_witness:
  "\<exists>eg'. run_test_cases solver_ex NONE fresh_engine main_ex [(initial_ex, [(0, [(''P.a'', IntV 7)]), (1, [(''P.a'', IntV (- 3))])])] = Inr eg'"
proof (rule run_test_cases_completes [OF val_api_values(1) main_ex_ok])
  have i: "initialize_executor main_ex (executor fresh_engine) = executor engine_ex" by code_simp
  show "sorted_explorer (explorer fresh_engine)" by (simp add: sorted_explorer_def fresh_engine_def new_explorer_def)
  show "inputs_ok main_ex (initialize_executor main_ex (executor fresh_engine))" unfolding i by (rule ex_ok)
  show "\<forall>t \<in> set [(initial_ex, [(0, [(''P.a'', IntV 7)]), (1, [(''P.a'', IntV (- 3))])])].
      test_ok (z3 solver_ex) main_ex (initialize_executor main_ex (executor fresh_engine)) t"
    unfolding i using ex_ok(2) by (simp add: test_ok_def fits_def flat_ex var_a_def var_def getFullyQualifiedName_def)
qed

section \<open>Coverage\<close>

lemma updateCoverage_shape:
  assumes "updateCoverage l cx xp = Inr ((s, b), xp')"
  shows "map_write (covered_statements xp) l (\<lambda>_. True) = Inr (covered_statements xp')"
    and "statement_coverage xp' = quotient (count_statements (covered_statements xp')) (length (covered_statements xp'))
       \<and> (s \<longleftrightarrow> less_coverage (statement_coverage xp) (statement_coverage xp'))"
    and "\<exists>es. cover_branches l (vx_label (vertex (cx_state cx))) es (covered_branches xp) = Inr (covered_branches xp')"
    and "branch_coverage xp' = quotient (count_branches (covered_branches xp')) (2 * length (covered_branches xp'))"
    and "b \<longleftrightarrow> less_coverage (branch_coverage xp) (branch_coverage xp')"
  using assms by (auto simp: updateCoverage_def rbind_eq_Inr Let_def)

text \<open>
  C23: Initializing the coverage of a well-formed program succeeds and counts every label of every graph of the program, and every
  branching label among the branches.
\<close>

theorem coverage_complete:
  assumes "\<forall>d \<in> set (parts main). wf_graph mode d" "named_apart main" "sorted_explorer xp"
  shows "\<exists>xp'. initialize_explorer main xp = Inr xp' \<and> (\<forall>d \<in> set (parts main).
     labels d \<subseteq> fst ` set (covered_statements xp') \<and> branch_labels d \<subseteq> fst ` set (covered_branches xp'))"
  using initialize_explorer_ok [of main mode, OF _ assms(2,3)] assms(1) by (auto simp: explorer_ok_def)

theorem coverage_complete_witness:
  "\<exists>xp'. initialize_explorer main_ex new_explorer = Inr xp' \<and> {0, 1, 2, 3, 4} \<subseteq> fst ` set (covered_statements xp') \<and> {10, 11, 12} \<subseteq> fst ` set (covered_statements xp')"
proof -
  have "\<forall>d \<in> set (parts main_ex). wf_graph NONE d" using ex_ok(1) by (simp add: program_ok_def)
  moreover have "sorted_explorer new_explorer" by (simp add: sorted_explorer_def new_explorer_def)
  moreover have "labels main_ex = {0, 1, 2, 3, 4}" "labels block_ex = {10, 11, 12}" "block_ex \<in> set (parts main_ex)"
    by (auto simp: labels_def main_ex_def block_ex_def vx_def)
  ultimately show ?thesis using coverage_complete [OF _ main_ex_ok(2)] parts_self [of main_ex] by metis
qed

text \<open>
  C24: Executing a label marks it and nothing else; the statement coverage is the share of marked labels, stays between zero and
  one, never falls, and is reported as increased exactly when the label had not been executed before.
\<close>

theorem statement_coverage_grows:
  assumes "updateCoverage l cx xp = Inr ((new_statement, new_branch), xp')" "sorted_map (covered_statements xp)"
    and "statement_coverage xp = quotient (count_statements (covered_statements xp)) (length (covered_statements xp))"
  shows "map_of (covered_statements xp') = (map_of (covered_statements xp))(l \<mapsto> True)
     \<and> statement_coverage xp' = quotient (count_statements (covered_statements xp')) (length (covered_statements xp'))
     \<and> (new_statement \<longleftrightarrow> map_of (covered_statements xp) l = Some False)
     \<and> (\<exists>q q'. statement_coverage xp = Some q \<and> statement_coverage xp' = Some q' \<and> 0 \<le> q \<and> q \<le> q' \<and> q' \<le> 1)"
proof -
  let ?m = "covered_statements xp" and ?m' = "covered_statements xp'"
  have w: "map_write ?m l (\<lambda>_. True) = Inr ?m'" and sc: "statement_coverage xp' = quotient (count_statements ?m') (length ?m')"
    and new: "new_statement \<longleftrightarrow> less_coverage (statement_coverage xp) (statement_coverage xp')"
    using updateCoverage_shape [OF assms(1)] by auto
  note c = count_write [OF assms(2) w]
  have len: "0 < length ?m" using c(3) by (cases ?m) auto
  have le: "count_statements ?m \<le> count_statements ?m'" "count_statements ?m' \<le> length ?m"
    using c(1) length_filter_le [of snd ?m'] c(2) by (auto simp: count_statements_def)
  from quotient_le [OF le len] obtain q q' where q: "statement_coverage xp = Some q" "statement_coverage xp' = Some q'" "0 \<le> q" "q \<le> q'" "q' \<le> 1"
    "q < q' \<longleftrightarrow> count_statements ?m < count_statements ?m'"
    using assms(3) sc c(2) by auto
  have "map_of ?m' = (map_of ?m)(l \<mapsto> True)" using map_write_map_of [OF w] c(3) by (auto simp: fun_eq_iff)
  moreover have "new_statement \<longleftrightarrow> map_of ?m l = Some False" using new q(1,2,6) c(1) by (simp add: less_coverage_def)
  ultimately show ?thesis using q sc by blast
qed

definition two_statements :: Explorer where
  "two_statements = \<lparr>statement_coverage = Some 0, covered_statements = [(0, False), (1, False)], branch_coverage = Some 0, covered_branches = []\<rparr>"

lemma update_ex: "updateCoverage 1 start_ex two_statements = Inr ((True, False), \<lparr>statement_coverage = Some (1 / 2), covered_statements = [(0, False), (1, True)], branch_coverage = None, covered_branches = []\<rparr>)"
proof -
  have p: "call_stack start_ex = [main_frame main_ex]" "vx_label (vertex (cx_state start_ex)) = 0" using start_ok(3) by (simp_all add: position_def)
  have "getOutgoingEdges main_ex 1 = [make_edge 1 2 TRUE_BRANCH, make_edge 1 3 FALSE_BRANCH]" by code_simp
  then show ?thesis using p
    by (simp add: updateCoverage_def getFrame_def main_frame_def two_statements_def map_write_def make_edge_def count_statements_def count_branches_def
        quotient_def less_coverage_def)
qed

theorem statement_coverage_grows_witness:
  "map_of [(0, False), (1 :: label, True)] = (map_of (covered_statements two_statements))(1 \<mapsto> True) \<and> (\<exists>q q'. statement_coverage two_statements = Some q \<and> Some (1 / 2) = Some q' \<and> q \<le> q')"
  using statement_coverage_grows [OF update_ex] by (auto simp: two_statements_def quotient_def count_statements_def)

text \<open>
  Without a branching label the branch coverage becomes the quotient of zero by zero, which is no number, and no new branch
  is ever reported.
\<close>

theorem branch_coverage_undefined:
  assumes "updateCoverage l cx xp = Inr ((new_statement, new_branch), xp')" "covered_branches xp = []"
  shows "branch_coverage xp' = None \<and> covered_branches xp' = [] \<and> \<not> new_branch"
proof -
  have e: "cover_branches l s es [] = Inr bs \<Longrightarrow> bs = []" for s es bs
    by (induction es) (auto simp: rbind_eq_Inr map_write_def split: if_splits)
  have "covered_branches xp' = []" using updateCoverage_shape(3) [OF assms(1)] assms(2) e by auto
  then show ?thesis using updateCoverage_shape(4,5) [OF assms(1)] by (simp add: quotient_def less_coverage_def split: option.splits)
qed

theorem branch_coverage_undefined_witness:
  "branch_coverage \<lparr>statement_coverage = Some (1 / 2), covered_statements = [(0, False), (1, True)], branch_coverage = None, covered_branches = []\<rparr> = None"
  using branch_coverage_undefined [OF update_ex] by (simp add: two_statements_def)

section \<open>Names\<close>

text \<open>
  The names of values in cycles are unambiguous: no two variables, and no two cycles, share one.
\<close>

theorem names_unambiguous: "contextualized_name m j = contextualized_name n k \<longleftrightarrow> m = n \<and> j = k"
  by (rule contextualized_inject)

lemma find_mark_append: "find_mark (n @ ''_'') = None \<Longrightarrow> find_mark (n @ CHR ''_'' # CHR ''_'' # s) = Some s"
proof (induction n rule: find_mark.induct)
  case (1 a b n)
  then show ?case by (auto split: if_splits)
qed (auto split: if_splits)

text \<open>
  C33: The cycle can be read back from the name of a value when the name of the variable has no pair of underscores in it and
  does not end in an underscore, as long as the cycle is a number of type int.
\<close>

theorem cycle_read_back:
  assumes "find_mark (n @ ''_'') = None" "k < 2 ^ 31"
  shows "extract_cycle (contextualized_name n k) = Inr k"
proof -
  have "unat k \<le> 2147483647" using assms(2) by (simp add: word_less_nat_alt)
  then show ?thesis using find_mark_append [OF assms(1), of "to_string (unat k)"]
    by (simp add: extract_cycle_def contextualized_name_def stoi_to_string)
qed

theorem cycle_read_back_witness: "extract_cycle (contextualized_name ''P.x_1'' 42) = Inr 42"
  using cycle_read_back [of "''P.x_1''" 42] by simp

text \<open>
  The first pair of underscores is taken for the mark of the cycle, so for a variable whose name ends in an underscore the
  text read as a number starts with an underscore, and reading it fails.
\<close>

theorem cycle_misread:
  assumes "find_mark (n @ ''_'') = None"
  shows "extract_cycle (contextualized_name (n @ ''_'') k) = Inl (Logic_Error ''invalid_argument'')"
proof -
  have "find_mark (contextualized_name (n @ ''_'') k) = Some (CHR ''_'' # to_string (unat k))"
    using find_mark_append [OF assms, of "CHR ''_'' # to_string (unat k)"] by (simp add: contextualized_name_def)
  moreover have "\<not> white (CHR ''_'')" "\<not> digit (CHR ''_'')" by (simp_all add: white_def digit_def)
  ultimately show ?thesis by (simp add: extract_cycle_def stoi_def)
qed

theorem cycle_misread_witness: "extract_cycle (contextualized_name ''P.x_'' 42) = Inl (Logic_Error ''invalid_argument'')"
  using cycle_misread [of "''P.x''" 42] by simp

end
