(* ===== verification/Ahorn_Graph_Theorems.thy ===== *)
theory Ahorn_Graph_Theorems
  imports Ahorn_Theorems
begin

text \<open>
  The properties of the control-flow graphs and types the simulator works on.
\<close>

section \<open>Graphs and types\<close>

text \<open>
  Flattening the interface of a graph with well-formed names succeeds; a variable of a derived type stands for every variable of
  the flattened interface of that type, under its own name in front, and each other variable for itself.
\<close>

theorem interface_flattens:
  assumes "wf_names c"
  shows "\<exists>m. flattened_interface c = Inr m \<and> sorted_map m
     \<and> (\<forall>x v ty d n w. (x, v) \<in> set (cfg_interface c) \<longrightarrow> v_type v = Derived ty \<longrightarrow> map_of (name_to_cfg c) ty = Some d
          \<longrightarrow> map_of (flat d) n = Some w \<longrightarrow> (\<exists>u. map_of m (x @ ''.'' @ n) = Some u \<and> v_name u = x @ ''.'' @ n \<and> v_type u = clone_type (v_type w)))"
proof -
  have ok: "flattened_interface c = Inr (flat c)" "sorted_map (flat c)" "\<And>p. p \<in> set (flat c) \<Longrightarrow> v_name (snd p) = fst p"
    using wf_names_flat [OF assms] by (auto simp: flat_ok_def)
  have "\<exists>u. map_of (flat c) (x @ ''.'' @ n) = Some u \<and> v_name u = x @ ''.'' @ n \<and> v_type u = clone_type (v_type w)"
    if "(x, v) \<in> set (cfg_interface c)" "v_type v = Derived ty" "map_of (name_to_cfg c) ty = Some d" "map_of (flat d) n = Some w" for x v ty d n w
  proof -
    have "map_of (flat c) (x @ ''.'' @ n) = Some (flatten_nested (cfg_name c) x ty w)" using flat_nested [OF assms that] .
    moreover from this have "v_name (flatten_nested (cfg_name c) x ty w) = x @ ''.'' @ n" using ok(3) map_of_SomeD by fastforce
    ultimately show ?thesis by (simp add: flatten_nested_def)
  qed
  then show ?thesis using ok(1,2) by blast
qed

theorem interface_flattens_witness:
  "\<exists>m u. flattened_interface main_ex = Inr m \<and> map_of m ''f.i'' = Some u \<and> v_name u = ''f.i'' \<and> v_type u = int_type"
proof -
  have n: "wf_names main_ex" using ex_ok(1) by (simp add: program_ok_def)
  have "map_of (flat block_ex) ''i'' = Some (var_i\<lparr>v_parent := Some ''F''\<rparr>)" by code_simp
  moreover have "(''f'', var_f) \<in> set (cfg_interface main_ex)" "v_type var_f = Derived ''F''" "map_of (name_to_cfg main_ex) ''F'' = Some block_ex"
    by (simp_all add: main_ex_def var_f_def var_def)
  ultimately show ?thesis using interface_flattens [OF n] by (fastforce simp: var_i_def var_def)
qed

text \<open>
  Adding a vertex fails its assertion in every graph that does not use the largest label there is: the label looked for starts
  at minus one and no smaller label changes it.
\<close>

theorem addVertex_fails:
  assumes "\<forall>p \<in> set (label_to_vertex c). fst p \<noteq> - 1" "\<forall>p \<in> set (name_to_cfg c). exit_label (snd p) \<noteq> - 1"
  shows "addVertex c = Inl Assert_Failed"
proof -
  have n: "l \<noteq> - 1 \<Longrightarrow> next_free l (- 1) = - 1" for l :: label
    by (simp add: next_free_def word_order.extremum_unique)
  have "fold (\<lambda>p. next_free (fst p)) ps (- 1) = - 1" if "\<forall>p \<in> set ps. fst p \<noteq> - 1" for ps :: "(label \<times> Vertex) list"
    using that by (induction ps) (simp_all add: n)
  moreover have "fold (\<lambda>p. next_free (exit_label (snd p))) ps (- 1) = - 1" if "\<forall>p \<in> set ps. exit_label (snd p) \<noteq> - 1" for ps :: "(string \<times> Cfg) list"
    using that by (induction ps) (simp_all add: n)
  ultimately show ?thesis using assms by (simp add: addVertex_def rassert_def)
qed

theorem addVertex_fails_witness: "addVertex main_ex = Inl Assert_Failed"
  by (rule addVertex_fails) (simp_all add: main_ex_def block_ex_def vx_def)

lemma push_callees_direct:
  "push_callees cs acc = Inr ds \<Longrightarrow> ds = acc @ map fst cs"
proof (induction cs arbitrary: acc)
  case (Cons p cs)
  have f: "push_found bs es = Inr gs \<Longrightarrow> gs = bs" for bs es gs
    by (induction es) (auto split: if_splits)
  obtain c below where "p = (c, below)" by (cases p)
  then have "push_callees cs (acc @ [c]) = Inr ds" using Cons.prems by (auto simp: rbind_eq_Inr dest: f)
  from Cons.IH [OF this] show ?case by (simp add: \<open>p = (c, below)\<close>)
qed simp

text \<open>
  The graphs found by flattening the callees are the direct callees only: a callee of a callee is never added, and when it is
  not there already the code reads behind the end of the list.
\<close>

theorem flattened_callees_direct:
  assumes "getFlattenedCallees c = Inr ds"
  shows "ds = map snd (name_to_cfg c)"
  using assms push_callees_direct by (cases c) (fastforce simp: comp_def)

theorem flattened_callees_direct_witness: "getFlattenedCallees main_ex = Inr [block_ex] \<and> [block_ex] = map snd (name_to_cfg main_ex)"
proof -
  have "getFlattenedCallees main_ex = Inr [block_ex]" by (simp add: main_ex_def block_ex_def)
  then show ?thesis using flattened_callees_direct by blast
qed

lemma addValue_fold:
  assumes "sorted_map (value_to_index t @ m)" "length (value_to_index t) = en_index t"
  shows "value_to_index (fold (\<lambda>p. addValue (fst p)) m t) = value_to_index t @ zip (map fst m) [en_index t ..< en_index t + length m]"
  using assms
proof (induction m arbitrary: t)
  case (Cons p m)
  have "sorted_wrt (<) (map fst xs @ [k]) \<Longrightarrow> emplace k i xs = xs @ [(k, i)]" for k :: string and i :: nat and xs
    by (induction k i xs rule: emplace.induct) (auto simp: sorted_wrt_append)
  then have e: "emplace (fst p) (en_index t) (value_to_index t) = value_to_index t @ [(fst p, en_index t)]"
    using Cons.prems(1) by (simp add: sorted_wrt_append)
  then have v: "value_to_index (addValue (fst p) t) = value_to_index t @ [(fst p, en_index t)]" "en_index (addValue (fst p) t) = Suc (en_index t)"
    by (simp_all add: addValue_def)
  have "sorted_map (value_to_index (addValue (fst p) t) @ m)" "length (value_to_index (addValue (fst p) t)) = en_index (addValue (fst p) t)"
    using Cons.prems by (simp_all add: v sorted_wrt_append)
  from Cons.IH [OF this] show ?case by (simp add: v upt_conv_Cons del: upt_Suc)
qed simp

text \<open>
  Copying an enumerated type numbers its values anew, in the order of their names instead of the order they were added in.
\<close>

theorem clone_renumbers:
  assumes "sorted_map (value_to_index t)"
  shows "value_to_index (clone_enumerated t) = zip (map fst (value_to_index t)) [0 ..< length (value_to_index t)]"
  using addValue_fold [of "enumerated_type (en_name t)" "value_to_index t"] assms by (simp add: clone_enumerated_def enumerated_type_def)

theorem clone_renumbers_witness:
  "(let t = addValue ''GREEN'' (addValue ''RED'' (enumerated_type ''Light'')) in getIndex t ''RED'' = Inr 0 \<and> getIndex (clone_enumerated t) ''RED'' = Inr 1)"
proof -
  let ?t = "addValue ''GREEN'' (addValue ''RED'' (enumerated_type ''Light''))"
  have t: "value_to_index ?t = [(''GREEN'', 1), (''RED'', 0)]" by code_simp
  have "value_to_index (clone_enumerated ?t) = zip (map fst (value_to_index ?t)) [0 ..< length (value_to_index ?t)]"
    by (rule clone_renumbers) (unfold t, code_simp)
  then show ?thesis by (simp add: Let_def getIndex_def t upt_rec)
qed

text \<open>
  A program with an input of an enumerated type never gets past its first cycle: its exit cannot choose a value for the input.
\<close>

theorem enumerated_input_fails:
  assumes "flattened_interface (fr_cfg f) = Inr vs" "p \<in> set vs" "v_type (snd p) = Enumerated t" "isWholeProgramInput ex (getFullyQualifiedName (snd p))"
  shows "\<exists>e. handleProgramExitVertex sv f ex cx = Inl e"
proof -
  have "\<exists>e. carry_over sv k ws (ex, st) = Inl e" if "snd p \<in> set ws" "isWholeProgramInput ex (getFullyQualifiedName (snd p))" for k ws ex and st :: "'a State"
    using that
  proof (induction ws arbitrary: ex st)
    case (Cons w ws)
    show ?case
    proof (cases "w = snd p")
      case True
      then show ?thesis using assms(3) Cons.prems(2) by (simp add: Let_def)
    next
      case False
      show ?thesis
      proof (cases "carry_over sv k (w # ws) (ex, st)")
        case (Inr r)
        then obtain ex1 st1 where 1: "carry_over sv k ws (ex1, st1) = Inr r" "whole_program_inputs ex1 = whole_program_inputs ex"
          by (auto simp: rbind_eq_Inr Let_def split: if_splits)
        then show ?thesis using Cons.IH [of ex1 st1] Cons.prems False by (simp add: isWholeProgramInput_def)
      qed simp
    qed
  qed simp
  from this [of "map snd vs" ex "cx_cycle cx" "cx_state cx"] assms show ?thesis by (auto simp: handleProgramExitVertex_def)
qed

definition light_ex :: Cfg where
  "light_ex = Cfg PROGRAM ''P'' [(''l'', var ''l'' (Enumerated (addValue ''RED'' (enumerated_type ''Light''))) INPUT)] [] [vx 0 ENTRY None, vx 1 EXIT None]
     [make_edge 0 1 INTRAPROCEDURAL] 0 1"

theorem enumerated_input_fails_witness:
  "\<exists>e. handleProgramExitVertex solver_ex (main_frame light_ex) (initialize_executor light_ex (executor fresh_engine)) start_ex = Inl e"
proof -
  let ?v = "(var ''l'' (Enumerated (addValue ''RED'' (enumerated_type ''Light''))) INPUT)\<lparr>v_parent := Some ''P''\<rparr>"
  have f: "flattened_interface (fr_cfg (main_frame light_ex)) = Inr [(''l'', ?v)]" by code_simp
  have "isWholeProgramInput (initialize_executor light_ex (executor fresh_engine)) (getFullyQualifiedName ?v)" by code_simp
  then show ?thesis by (intro enumerated_input_fails [OF f, of "(''l'', ?v)"]) (simp_all add: var_def)
qed

end
