(* ===== verification/Ahorn_Pass.thy ===== *)
theory Ahorn_Pass
  imports Ahorn_Cfg
begin

text \<open>
  What every pass over a control-flow graph does: it copies the interface and the instructions, builds the
  graphs of the types used first and then a new graph.
\<close>

section \<open>New graphs\<close>

definition make_interface :: "Variable list \<Rightarrow> (string, Variable) std_map" where
  "make_interface vs = fold (\<lambda>v. emplace (v_name v) v) vs []"

definition copy_variable :: "Variable \<Rightarrow> Variable" where
  "copy_variable v = v\<lparr>v_type := clone_type (v_type v), v_parent := None\<rparr>"

definition copy_interface :: "Cfg \<Rightarrow> (string, Variable) std_map" where
  "copy_interface c = make_interface (map (copy_variable \<circ> snd) (cfg_interface c))"

text \<open>The constructor flattens the interface, which fails when the graph of a type is missing.\<close>

definition new_cfg ::
  "cfg_type \<Rightarrow> string \<Rightarrow> (string, Variable) std_map \<Rightarrow> (string, Cfg) std_map \<Rightarrow> (label, Vertex) std_map \<Rightarrow> Edge list \<Rightarrow> label \<Rightarrow> label \<Rightarrow> Cfg res" where
  "new_cfg ty name vars cfgs vertices edges en ex =
     (let c = Cfg ty name vars cfgs vertices edges en ex in rbind (flattened_interface c) (\<lambda>_. Inr c))"

text \<open>The new graphs of the types used, each under its own name.\<close>

fun new_callees :: "Cfg res list \<Rightarrow> (string, Cfg) std_map \<Rightarrow> (string, Cfg) std_map res" where
  "new_callees [] m = Inr m"
| "new_callees (r # rs) m = rbind r (\<lambda>d. new_callees rs (emplace (cfg_name d) d m))"

definition plain_vertex :: "label \<Rightarrow> vertex_type \<Rightarrow> Vertex" where
  "plain_vertex l ty = \<lparr>vx_label = l, vx_instruction = None, vx_type = ty\<rparr>"

definition instruction_vertex :: "label \<Rightarrow> Instruction \<Rightarrow> Vertex" where
  "instruction_vertex l i = \<lparr>vx_label = l, vx_instruction = Some i, vx_type = REGULAR\<rparr>"

definition copy_edge :: "Edge \<Rightarrow> Edge" where
  "copy_edge e = make_edge (source_label e) (target_label e) (edge_type e)"

definition copy_return_edge :: "label \<Rightarrow> Edge \<Rightarrow> Edge res" where
  "copy_return_edge l e = rbind (getCallerName e) (\<lambda>n. make_return_edge (source_label e) (target_label e) n l INTERPROCEDURAL_RETURN)"

section \<open>Sets of labels\<close>

lemma fold_insort: "set (fold insort_insert xs ls) = set xs \<union> set ls"
  by (induction xs arbitrary: ls) (auto simp: set_insort_insert)

end
