(* ===== verification/Ahorn_Build.thy ===== *)
theory Ahorn_Build
  imports Ahorn_Pass
begin

text \<open>
  Modules of the intermediate representation (\<^verbatim>\<open>src/ahorn/src/ir\<close>) and the builder of control-flow graphs
  (\<^verbatim>\<open>src/ahorn/src/cfg/builder.cpp\<close>).
\<close>

section \<open>Modules and projects\<close>

text \<open>The kinds of modules are the types of graphs.\<close>

record Module =
  mod_name :: string
  mod_kind :: cfg_type
  mod_interface :: "(string, Variable) std_map"
  mod_instructions :: "(label, Instruction) std_map"
  mod_entry :: label
  mod_exit :: label

type_synonym Project = "(string, Module) std_map"

definition getModule :: "Project \<Rightarrow> string \<Rightarrow> Module res" where
  "getModule p n = (case map_of p n of None \<Rightarrow> Inl (Logic_Error ''No module for given name exists.'') | Some m \<Rightarrow> Inr m)"

definition getMain :: "Project \<Rightarrow> Module res" where
  "getMain p = (case find (\<lambda>q. mod_kind (snd q) = PROGRAM) p of
     None \<Rightarrow> Inl (Logic_Error ''No main module found in project.'') | Some q \<Rightarrow> Inr (snd q))"

section \<open>Instructions\<close>

text \<open>
  The graphs built so far are looked up under the name of a type; elementary types have no graphs.
\<close>

definition cfg_of_type :: "(string, Cfg) std_map \<Rightarrow> data_type \<Rightarrow> Cfg res" where
  "cfg_of_type cfgs ty =
     (case ty of
        Derived n \<Rightarrow> map_at cfgs n
      | Enumerated t \<Rightarrow> map_at cfgs (en_name t)
      | Inconclusive n \<Rightarrow> map_at cfgs n
      | Simple n \<Rightarrow> map_at cfgs n
      | _ \<Rightarrow> Inl Out_Of_Bounds)"

type_synonym graph_parts = "(label, Vertex) std_map \<times> Edge list"

text \<open>An instruction replaces that of the vertex found under its label.\<close>

definition set_instruction :: "label \<Rightarrow> Instruction \<Rightarrow> (label, Vertex) std_map \<Rightarrow> (label, Vertex) std_map" where
  "set_instruction l i vs = map (\<lambda>(k, v). (k, if k = l then v\<lparr>vx_instruction := Some i\<rparr> else v)) (emplace l (plain_vertex l REGULAR) vs)"

text \<open>A jump is an edge from the instruction in front of it.\<close>

definition visit_instruction :: "string \<Rightarrow> (string, Cfg) std_map \<Rightarrow> label \<Rightarrow> Instruction \<Rightarrow> graph_parts \<Rightarrow> graph_parts res" where
  "visit_instruction name cfgs l i b =
     (let vs = set_instruction l i (fst b) in
      case i of
        AssignmentInstruction _ _ \<Rightarrow> Inr (vs, snd b)
      | CallInstruction x here callee \<Rightarrow>
          rbind (cfg_of_type cfgs (v_type x)) (\<lambda>d.
          rbind (make_return_edge (exit_label d) here name l INTERPROCEDURAL_RETURN) (\<lambda>r.
            Inr (vs, snd b @ [make_edge l callee INTERPROCEDURAL_CALL, make_edge l here INTRAPROCEDURAL_CALL_TO_RETURN, r])))
      | IfInstruction _ t f \<Rightarrow> Inr (vs, snd b @ [make_edge l t TRUE_BRANCH, make_edge l f FALSE_BRANCH])
      | SequenceInstruction _ \<Rightarrow> Inl (Logic_Error ''Not implemented yet.'')
      | WhileInstruction _ t f \<Rightarrow> Inr (vs, snd b @ [make_edge l t TRUE_BRANCH, make_edge l f FALSE_BRANCH])
      | GotoInstruction t \<Rightarrow> Inr (fst b, snd b @ [make_edge (l - 1) t INTRAPROCEDURAL])
      | HavocInstruction _ \<Rightarrow> Inr (vs, snd b))"

fun visit_instructions :: "string \<Rightarrow> (string, Cfg) std_map \<Rightarrow> (label, Instruction) std_map \<Rightarrow> graph_parts \<Rightarrow> graph_parts res" where
  "visit_instructions name cfgs [] b = Inr b"
| "visit_instructions name cfgs ((l, i) # is) b =
     rbind (visit_instruction name cfgs l i b) (visit_instructions name cfgs is)"

section \<open>The builder\<close>

definition initial_parts :: "Module \<Rightarrow> graph_parts" where
  "initial_parts m =
     (emplace (mod_exit m) (plain_vertex (mod_exit m) EXIT) (emplace (mod_entry m) (plain_vertex (mod_entry m) ENTRY) []),
      [make_edge (mod_entry m) (mod_entry m + 1) INTRAPROCEDURAL])"

definition build_graph :: "Module \<Rightarrow> (string, Cfg) std_map \<Rightarrow> (string, Cfg) std_map \<Rightarrow> Cfg res" where
  "build_graph m own cfgs =
     rbind (visit_instructions (mod_name m) cfgs (mod_instructions m) (initial_parts m)) (\<lambda>(vs, es).
       new_cfg (mod_kind m) (mod_name m) (make_interface (map snd (mod_interface m))) own vs es (mod_entry m) (mod_exit m))"

text \<open>
  A module is built after the modules of its variables; the code does not end on types that depend on
  themselves.  The graphs under construction are empty again when a nested module is built, since each
  module takes them with it.
\<close>

fun build_module :: "nat \<Rightarrow> Project \<Rightarrow> Module \<Rightarrow> (string, Cfg) std_map \<Rightarrow> (string, Cfg) std_map res"
  and build_types :: "nat \<Rightarrow> Project \<Rightarrow> Variable list \<Rightarrow> (string, Cfg) std_map \<times> (string, Cfg) std_map \<Rightarrow> ((string, Cfg) std_map \<times> (string, Cfg) std_map) res" where
  "build_module 0 p m cfgs = Inl Diverges"
| "build_module (Suc n) p m cfgs =
     (if map_of cfgs (mod_name m) \<noteq> None then Inr cfgs
      else rbind (build_types n p (map snd (mod_interface m)) ([], cfgs)) (\<lambda>(own, cfgs).
             rbind (build_graph m own cfgs) (\<lambda>c. Inr (emplace (cfg_name c) c cfgs))))"
| "build_types n p [] b = Inr b"
| "build_types n p (v # vs) (own, cfgs) =
     rbind (case v_type v of
              Derived ty \<Rightarrow> rbind (getModule p ty) (\<lambda>m. rbind (build_module n p m cfgs) (\<lambda>cfgs.
                rbind (map_at cfgs ty) (\<lambda>c. Inr (emplace (cfg_name c) c own, cfgs))))
            | _ \<Rightarrow> Inr (own, cfgs)) (build_types n p vs)"

fun build_modules :: "nat \<Rightarrow> Project \<Rightarrow> Module list \<Rightarrow> (string, Cfg) std_map \<Rightarrow> (string, Cfg) std_map res" where
  "build_modules n p [] cfgs = Inr cfgs"
| "build_modules n p (m # ms) cfgs = rbind (build_module n p m cfgs) (build_modules n p ms)"

text \<open>A chain of types longer than the project has modules repeats one.\<close>

definition build :: "Project \<Rightarrow> Cfg res" where
  "build p = rbind (build_modules (Suc (length p)) p (map snd p) []) (\<lambda>cfgs.
     rbind (getMain p) (\<lambda>m. map_at cfgs (mod_name m)))"

end
