(* ===== verification/Ahorn_Paths.thy ===== *)
theory Ahorn_Paths
  imports Ahorn_Pass
begin

text \<open>
  What control-flow graphs do, apart from how they are cut into vertices: the instructions on their paths
  within a cycle of one graph, where a call is one step, and the branches taken.
\<close>

section \<open>Paths\<close>

datatype event = Execute Instruction | Branch bool

definition intra :: "Edge \<Rightarrow> bool" where
  "intra e \<longleftrightarrow> edge_type e \<noteq> INTERPROCEDURAL_CALL \<and> edge_type e \<noteq> INTERPROCEDURAL_RETURN"

fun body :: "Instruction \<Rightarrow> Instruction list" where
  "body (SequenceInstruction is) = is"
| "body i = [i]"

definition vertex_events :: "Vertex \<Rightarrow> event list" where
  "vertex_events v = (case vx_instruction v of None \<Rightarrow> [] | Some i \<Rightarrow> map Execute (body i))"

definition events_at :: "Cfg \<Rightarrow> label \<Rightarrow> event list" where
  "events_at c l = (case map_of (label_to_vertex c) l of None \<Rightarrow> [] | Some v \<Rightarrow> vertex_events v)"

fun branch_events :: "edge_type \<Rightarrow> event list" where
  "branch_events TRUE_BRANCH = [Branch True]"
| "branch_events FALSE_BRANCH = [Branch False]"
| "branch_events _ = []"

fun path :: "Cfg \<Rightarrow> label \<Rightarrow> Edge list \<Rightarrow> label \<Rightarrow> bool" where
  "path c l [] l' \<longleftrightarrow> l = l'"
| "path c l (e # es) l' \<longleftrightarrow> e \<in> set (cfg_edges c) \<and> intra e \<and> source_label e = l \<and> path c (target_label e) es l'"

fun events :: "Cfg \<Rightarrow> Edge list \<Rightarrow> event list" where
  "events c [] = []"
| "events c (e # es) = events_at c (source_label e) @ branch_events (edge_type e) @ events c es"

definition steps :: "Cfg \<Rightarrow> label \<Rightarrow> (label \<times> edge_type) set" where
  "steps c l = (\<lambda>e. (target_label e, edge_type e)) ` {e \<in> set (cfg_edges c). intra e \<and> source_label e = l}"

lemma steps_edge: "(t, ty) \<in> steps c l \<longleftrightarrow> (\<exists>e \<in> set (cfg_edges c). intra e \<and> source_label e = l \<and> target_label e = t \<and> edge_type e = ty)"
  by (auto simp: steps_def)

section \<open>Straight lines\<close>

text \<open>
  A straight line of vertices that no other vertex leads into, and a graph that has one vertex for each
  such line of another one.
\<close>

fun chain :: "Cfg \<Rightarrow> label set \<Rightarrow> label list \<Rightarrow> bool" where
  "chain c L [] \<longleftrightarrow> False"
| "chain c L [b] \<longleftrightarrow> True"
| "chain c L (b # b' # bs) \<longleftrightarrow> b' \<notin> L \<and> steps c b = {(b', INTRAPROCEDURAL)} \<and> chain c L (b' # bs)"

definition joins :: "Cfg \<Rightarrow> label set \<Rightarrow> label \<Rightarrow> event list \<Rightarrow> (label \<times> edge_type) set \<Rightarrow> bool" where
  "joins c L l evs out \<longleftrightarrow> (\<exists>bs. chain c L bs \<and> hd bs = l \<and> evs = concat (map (events_at c) bs)
     \<and> out = steps c (last bs) \<and> fst ` out \<subseteq> L)"

lemma chain_path:
  assumes "chain c L bs" "path c (last bs) (e # es) l'"
  shows "\<exists>es'. path c (hd bs) es' l' \<and> events c es' = concat (map (events_at c) bs) @ branch_events (edge_type e) @ events c es"
  using assms
proof (induction bs rule: induct_list012)
  case (2 b)
  then show ?case by (intro exI [of _ "e # es"]) simp
next
  case (3 b b' bs)
  then obtain es' where es': "path c b' es' l'" "events c es' = concat (map (events_at c) (b' # bs)) @ branch_events (edge_type e) @ events c es"
    by auto
  have "(b', INTRAPROCEDURAL) \<in> steps c b" using 3(3) by simp
  then obtain e' where "e' \<in> set (cfg_edges c)" "intra e'" "source_label e' = b" "target_label e' = b'" "edge_type e' = INTRAPROCEDURAL"
    by (auto simp: steps_edge)
  then show ?case using es' by (intro exI [of _ "e' # es'"]) simp
qed simp

lemma path_chain:
  assumes "chain c L bs" "path c (hd bs) es l'" "es \<noteq> []" "l' \<notin> set (tl bs)"
  shows "\<exists>e es'. path c (last bs) (e # es') l' \<and> length es' < length es
     \<and> events c es = concat (map (events_at c) bs) @ branch_events (edge_type e) @ events c es'"
  using assms
proof (induction bs arbitrary: es rule: induct_list012)
  case (2 b)
  then show ?case by (cases es) auto
next
  case (3 b b' bs)
  obtain e1 es1 where es: "es = e1 # es1" using 3(5) by (cases es) auto
  have e1: "e1 \<in> set (cfg_edges c)" "intra e1" "source_label e1 = b" "path c (target_label e1) es1 l'" using 3(4) es by auto
  have "(target_label e1, edge_type e1) \<in> steps c b" using e1 by (auto simp: steps_edge)
  then have t: "target_label e1 = b'" "edge_type e1 = INTRAPROCEDURAL" using 3(3) by auto
  have "es1 \<noteq> []" using e1(4) t(1) 3(6) by (cases es1) auto
  from 3(2) [OF _ _ this] 3(3,6) e1(4) t(1) obtain e es'
    where "path c (last (b' # bs)) (e # es') l'" "length es' < length es1"
      "events c es1 = concat (map (events_at c) (b' # bs)) @ branch_events (edge_type e) @ events c es'" by auto
  then show ?case using es e1(3) t(2) by (intro exI [of _ e] exI [of _ es']) simp
qed simp

lemma joined_to:
  assumes j: "\<And>l. l \<in> L \<Longrightarrow> joins c L l (events_at d l) (steps d l)"
  shows "path d l es l' \<Longrightarrow> l \<in> L \<Longrightarrow> \<exists>es'. path c l es' l' \<and> events c es' = events d es"
proof (induction es arbitrary: l)
  case Nil
  then show ?case by (intro exI [of _ "[]"]) simp
next
  case (Cons e es)
  obtain bs where bs: "chain c L bs" "hd bs = l" "events_at d l = concat (map (events_at c) bs)" "steps d l = steps c (last bs)" "fst ` steps d l \<subseteq> L"
    using j [OF Cons.prems(2)] by (auto simp: joins_def)
  have s: "(target_label e, edge_type e) \<in> steps d l" using Cons.prems(1) by (auto simp: steps_edge)
  then have t: "target_label e \<in> L" using bs(5) by force
  obtain e' where e': "e' \<in> set (cfg_edges c)" "intra e'" "source_label e' = last bs" "target_label e' = target_label e" "edge_type e' = edge_type e"
    using s bs(4) by (auto simp: steps_edge)
  obtain es' where es': "path c (target_label e) es' l'" "events c es' = events d es" using Cons.IH [OF _ t] Cons.prems(1) by auto
  have "path c (last bs) (e' # es') l'" using e' es'(1) by simp
  from chain_path [OF bs(1) this] show ?case using bs(2,3) e'(5) es'(2) Cons.prems(1) by auto
qed

lemma chain_inner: "chain c L bs \<Longrightarrow> b \<in> set (tl bs) \<Longrightarrow> b \<notin> L"
  by (induction bs rule: induct_list012) auto

lemma joined_from:
  assumes j: "\<And>l. l \<in> L \<Longrightarrow> joins c L l (events_at d l) (steps d l)" and l': "l' \<in> L"
  shows "path c l es l' \<Longrightarrow> l \<in> L \<Longrightarrow> \<exists>es'. path d l es' l' \<and> events d es' = events c es"
proof (induction "length es" arbitrary: l es rule: less_induct)
  case less
  show ?case
  proof (cases "es = []")
    case True
    then show ?thesis using less.prems by (intro exI [of _ "[]"]) simp
  next
    case False
    obtain bs where bs: "chain c L bs" "hd bs = l" "events_at d l = concat (map (events_at c) bs)" "steps d l = steps c (last bs)" "fst ` steps d l \<subseteq> L"
      using j [OF less.prems(2)] by (auto simp: joins_def)
    have "l' \<notin> set (tl bs)" using chain_inner [OF bs(1)] l' by blast
    from path_chain [OF bs(1) _ False this, unfolded bs(2), OF less.prems(1)]
    obtain e es' where e: "path c (last bs) (e # es') l'" "length es' < length es"
      "events c es = concat (map (events_at c) bs) @ branch_events (edge_type e) @ events c es'" by blast
    have s: "(target_label e, edge_type e) \<in> steps d l" using e(1) bs(4) by (auto simp: steps_edge)
    then have t: "target_label e \<in> L" using bs(5) by force
    obtain f where f: "f \<in> set (cfg_edges d)" "intra f" "source_label f = l" "target_label f = target_label e" "edge_type f = edge_type e"
      using s by (auto simp: steps_edge)
    obtain fs where "path d (target_label e) fs l'" "events d fs = events c es'" using less.hyps [OF e(2) _ t] e(1) by auto
    then show ?thesis using f e(3) bs(3) by (intro exI [of _ "f # fs"]) simp
  qed
qed

text \<open>The runs from one vertex to another.\<close>

definition runs :: "Cfg \<Rightarrow> label \<Rightarrow> event list \<Rightarrow> label \<Rightarrow> bool" where
  "runs c l w l' \<longleftrightarrow> (\<exists>es. path c l es l' \<and> events c es = w)"

lemma joined_runs:
  assumes "\<And>l. l \<in> L \<Longrightarrow> joins c L l (events_at d l) (steps d l)" "l \<in> L" "l' \<in> L"
  shows "runs d l w l' \<longleftrightarrow> runs c l w l'"
  using joined_to [OF assms(1)] joined_from [OF assms(1)] assms(2,3) unfolding runs_def by metis

end
