(* ===== verification/Ahorn_Blocks.thy ===== *)
theory Ahorn_Blocks
  imports Ahorn_Pass
begin

text \<open>
  The pass that joins the vertices of a control-flow graph to basic blocks
  (\<^verbatim>\<open>src/ahorn/src/pass/basic_block_pass.cpp\<close>).
\<close>

section \<open>Leaders of basic blocks\<close>

text \<open>
  The set of leaders is kept in the order of the labels.
\<close>

definition vertex_leaders :: "Cfg \<Rightarrow> Vertex \<Rightarrow> label list res" where
  "vertex_leaders c v =
     (let l = vx_label v; succeeding = getSucceedingLabels c l in
      case vx_type v of
        ENTRY \<Rightarrow> rassert (length succeeding = 1) (rbind (idx succeeding 0) (\<lambda>s. Inr [l, s]))
      | REGULAR \<Rightarrow>
          (case vx_instruction v of
             None \<Rightarrow> Inl Assert_Failed
           | Some i \<Rightarrow>
               (case i of
                  AssignmentInstruction _ _ \<Rightarrow> Inr []
                | CallInstruction _ _ _ \<Rightarrow> rbind (getIntraproceduralCallToReturnEdge c l) (\<lambda>e. Inr [target_label e])
                | GotoInstruction _ \<Rightarrow> Inr []
                | IfInstruction _ _ _ \<Rightarrow> rassert (length succeeding = 2) (Inr succeeding)
                | WhileInstruction _ _ _ \<Rightarrow> rassert (length succeeding = 2) (Inr (l # succeeding))
                | HavocInstruction _ \<Rightarrow> Inr []
                | SequenceInstruction _ \<Rightarrow> Inl (Runtime_Error ''Invalid instruction kind.'')))
      | EXIT \<Rightarrow> Inr [l])"

fun determine_leaders :: "Cfg \<Rightarrow> Vertex list \<Rightarrow> label list \<Rightarrow> label list res" where
  "determine_leaders c [] ls = Inr ls"
| "determine_leaders c (v # vs) ls =
     (let ls = (if 1 < length (getPrecedingLabels c (vx_label v)) then insort_insert (vx_label v) ls else ls)
      in rbind (vertex_leaders c v) (\<lambda>new. determine_leaders c vs (fold insort_insert new ls)))"

section \<open>Basic blocks\<close>

text \<open>
  A vertex of the graph that is asserted to be regular and to hold an instruction.
\<close>

definition regular_instruction :: "Cfg \<Rightarrow> label \<Rightarrow> Instruction res" where
  "regular_instruction c l = rbind (getVertex c l) (\<lambda>v. rassert (vx_type v = REGULAR)
     (case vx_instruction v of None \<Rightarrow> Inl Assert_Failed | Some i \<Rightarrow> Inr i))"

text \<open>
  A block that starts with an assignment goes on with the only successor as long as that leads no block;
  a decision or a call ends it.
\<close>

definition is_goto :: "Instruction \<Rightarrow> bool" where
  "is_goto i = (case i of GotoInstruction _ \<Rightarrow> True | _ \<Rightarrow> False)"

partial_function (option) block_labels :: "Cfg \<Rightarrow> label list \<Rightarrow> label list \<Rightarrow> label list \<Rightarrow> label list res option" where
  "block_labels c leaders labels succeeding =
     (if length succeeding \<noteq> 1 then Some (Inl Assert_Failed)
      else
        let l = hd succeeding in
        if l \<in> set leaders then Some (Inr labels)
        else
          case regular_instruction c l of
            Inl e \<Rightarrow> Some (Inl e)
          | Inr i \<Rightarrow>
              if is_if i \<or> is_call i then Some (Inr (labels @ [l]))
              else if is_while i \<or> is_goto i \<or> is_sequence i then Some (Inl (Logic_Error ''Not implemented yet.''))
              else block_labels c leaders (labels @ [l]) (getSucceedingLabels c l))"

declare block_labels.simps [code]

type_synonym blocks = "(label, Vertex) std_map \<times> Edge list"

fun instructions_at :: "Cfg \<Rightarrow> label list \<Rightarrow> Instruction list res" where
  "instructions_at c [] = Inr []"
| "instructions_at c (l # ls) =
     rbind (getVertex c l) (\<lambda>v. rbind (deref (vx_instruction v)) (\<lambda>i. rbind (instructions_at c ls) (\<lambda>is. Inr (i # is))))"

definition build_single :: "Cfg \<Rightarrow> label \<Rightarrow> blocks \<Rightarrow> blocks res" where
  "build_single c l b =
     rbind (regular_instruction c l) (\<lambda>i.
       let out = getOutgoingEdges c l in
       rassert (length out = 1) (rbind (idx out 0) (\<lambda>e.
         Inr (emplace l (instruction_vertex l i) (fst b), snd b @ [copy_edge e]))))"

text \<open>A block that ends with a call replaces the label of the call in the edge that returns from it.\<close>

definition build_sequence :: "Cfg \<Rightarrow> label \<Rightarrow> label list \<Rightarrow> blocks \<Rightarrow> blocks res" where
  "build_sequence c l labels b =
     rbind (instructions_at c labels) (\<lambda>is.
       let vs = emplace l (instruction_vertex l (SequenceInstruction is)) (fst b);
           es = snd b @ map (\<lambda>e. make_edge l (target_label e) (edge_type e)) (getOutgoingEdges c (last labels))
       in rbind (getVertex c (last labels)) (\<lambda>v. rbind (deref (vx_instruction v)) (\<lambda>i.
            if is_call i then
              rbind (getIntraproceduralCallToReturnEdge c (last labels)) (\<lambda>r.
              rbind (getInterproceduralReturnEdge c (target_label r)) (\<lambda>e.
              rbind (copy_return_edge l e) (\<lambda>e. Inr (vs, es @ [e]))))
            else if is_assignment i \<or> is_havoc i \<or> is_if i then Inr (vs, es)
            else Inl (Logic_Error ''Not implemented yet.''))))"

definition build_straight :: "Cfg \<Rightarrow> label list \<Rightarrow> label \<Rightarrow> blocks \<Rightarrow> blocks res" where
  "build_straight c leaders l b =
     rbind (case block_labels c leaders [l] (getSucceedingLabels c l) of None \<Rightarrow> Inl Diverges | Some r \<Rightarrow> r) (\<lambda>labels.
       if length labels = 1 then build_single c l b else build_sequence c l labels b)"

definition build_call :: "Cfg \<Rightarrow> label \<Rightarrow> Instruction \<Rightarrow> blocks \<Rightarrow> blocks res" where
  "build_call c l i b =
     rbind (getInterproceduralCallEdge c l) (\<lambda>call.
     rbind (getIntraproceduralCallToReturnEdge c l) (\<lambda>r.
     rbind (getInterproceduralReturnEdge c (target_label r)) (\<lambda>e.
     rbind (getCallLabel e) (\<lambda>k.
     rbind (copy_return_edge k e) (\<lambda>e.
       Inr (emplace l (instruction_vertex l i) (fst b), snd b @ [copy_edge call, copy_edge r, e]))))))"

definition build_decision :: "Cfg \<Rightarrow> label \<Rightarrow> Instruction \<Rightarrow> blocks \<Rightarrow> blocks res" where
  "build_decision c l i b =
     Inr (emplace l (instruction_vertex l i) (fst b), snd b @ map copy_edge (getOutgoingEdges c l))"

definition build_block :: "Cfg \<Rightarrow> label list \<Rightarrow> label \<Rightarrow> blocks \<Rightarrow> blocks res" where
  "build_block c leaders l b =
     (if l = entry_label c then
        let out = getOutgoingEdges c l in
        rassert (length out = 1) (rbind (idx out 0) (\<lambda>e.
          Inr (emplace l (plain_vertex l ENTRY) (fst b), snd b @ [copy_edge e])))
      else if l = exit_label c then
        rassert (getOutgoingEdges c l = []) (Inr (emplace l (plain_vertex l EXIT) (fst b), snd b))
      else
        rbind (regular_instruction c l) (\<lambda>i.
          case i of
            HavocInstruction _ \<Rightarrow> build_straight c leaders l b
          | AssignmentInstruction _ _ \<Rightarrow> build_straight c leaders l b
          | CallInstruction _ _ _ \<Rightarrow> build_call c l i b
          | IfInstruction _ _ _ \<Rightarrow> build_decision c l i b
          | WhileInstruction _ _ _ \<Rightarrow> build_decision c l i b
          | GotoInstruction _ \<Rightarrow> Inl (Logic_Error ''Not implemented yet.'')
          | SequenceInstruction _ \<Rightarrow> Inl (Logic_Error ''Not implemented yet.'')))"

fun build_blocks :: "Cfg \<Rightarrow> label list \<Rightarrow> label list \<Rightarrow> blocks \<Rightarrow> blocks res" where
  "build_blocks c leaders [] b = Inr b"
| "build_blocks c leaders (l # ls) b = rbind (build_block c leaders l b) (build_blocks c leaders ls)"

definition block_graph :: "Cfg \<Rightarrow> (string, Cfg) std_map \<Rightarrow> Cfg res" where
  "block_graph c cfgs =
     rbind (determine_leaders c (map snd (label_to_vertex c)) []) (\<lambda>leaders.
     rbind (build_blocks c leaders leaders ([], [])) (\<lambda>(vs, es).
       new_cfg (cfg_type c) (cfg_name c) (copy_interface c) cfgs vs es (entry_label c) (exit_label c)))"

fun basic_block_pass :: "Cfg \<Rightarrow> Cfg res" where
  "basic_block_pass (Cfg ty name vars cfgs vertices edges en ex) =
     rbind (new_callees (map (\<lambda>p. basic_block_pass (snd p)) cfgs) [])
       (block_graph (Cfg ty name vars cfgs vertices edges en ex))"

end
