(* ===== verification/Ahorn_Leaders.thy ===== *)
theory Ahorn_Leaders
  imports Ahorn_Paths Ahorn_Blocks
begin

text \<open>
  The leaders of basic blocks and the loop that follows a block: it ends, and takes a straight line of
  assignments with at most a decision or a call behind it.
\<close>

section \<open>Leaders\<close>

text \<open>
  Graphs as they are before blocks are built: a vertex is kept under its label, entry and exit have no
  instruction, an assignment leads on within the graph, and a call has one edge to the place it returns to.
\<close>

definition plain_at :: "Cfg \<Rightarrow> label \<times> Vertex \<Rightarrow> bool" where
  "plain_at c p \<longleftrightarrow> vx_label (snd p) = fst p
     \<and> (vx_type (snd p) = ENTRY \<longleftrightarrow> fst p = entry_label c) \<and> (vx_type (snd p) = EXIT \<longleftrightarrow> fst p = exit_label c)
     \<and> (vx_type (snd p) \<noteq> REGULAR \<longrightarrow> vx_instruction (snd p) = None)
     \<and> (case vx_instruction (snd p) of None \<Rightarrow> True
        | Some i \<Rightarrow> \<not> is_sequence i
          \<and> (is_assignment i \<or> is_havoc i \<longrightarrow> (\<forall>e \<in> set (getOutgoingEdges c (fst p)). edge_type e = INTRAPROCEDURAL))
          \<and> (is_call i \<longrightarrow> (case filter intra (getOutgoingEdges c (fst p)) of [e] \<Rightarrow> edge_type e = INTRAPROCEDURAL_CALL_TO_RETURN | _ \<Rightarrow> False)))"

definition plain_graph :: "Cfg \<Rightarrow> bool" where
  "plain_graph c \<longleftrightarrow> sorted_map (label_to_vertex c) \<and> entry_label c \<in> fst ` set (label_to_vertex c) \<and> (\<forall>p \<in> set (label_to_vertex c). plain_at c p)"

lemma fold_insort_ok: "sorted ls \<and> distinct ls \<Longrightarrow> sorted (fold insort_insert xs ls) \<and> distinct (fold insort_insert xs ls)"
  by (induction xs arbitrary: ls) (simp_all add: sorted_insort_insert distinct_insort_insert)

lemma determine_leaders_distinct:
  "determine_leaders c vs ls = Inr ls' \<Longrightarrow> sorted ls \<and> distinct ls \<Longrightarrow> sorted ls' \<and> distinct ls'"
proof (induction vs arbitrary: ls)
  case (Cons v vs)
  let ?ls = "if 1 < length (getPrecedingLabels c (vx_label v)) then insort_insert (vx_label v) ls else ls"
  obtain new where "vertex_leaders c v = Inr new" "determine_leaders c vs (fold insort_insert new ?ls) = Inr ls'"
    using Cons.prems(1) by (auto simp: Let_def rbind_eq_Inr)
  moreover have "sorted ?ls \<and> distinct ?ls" using Cons.prems(2) by (simp add: sorted_insort_insert distinct_insort_insert)
  ultimately show ?case using Cons.IH fold_insort_ok by blast
qed simp

lemma determine_leaders_ok:
  "determine_leaders c vs ls = Inr ls' \<Longrightarrow> set ls \<subseteq> set ls'
     \<and> (\<forall>v \<in> set vs. (1 < length (getPrecedingLabels c (vx_label v)) \<longrightarrow> vx_label v \<in> set ls')
         \<and> (\<exists>new. vertex_leaders c v = Inr new \<and> set new \<subseteq> set ls'))"
proof (induction vs arbitrary: ls)
  case (Cons v vs)
  let ?ls = "if 1 < length (getPrecedingLabels c (vx_label v)) then insort_insert (vx_label v) ls else ls"
  obtain new where new: "vertex_leaders c v = Inr new" "determine_leaders c vs (fold insort_insert new ?ls) = Inr ls'"
    using Cons.prems by (auto simp: Let_def rbind_eq_Inr)
  have "set new \<union> set ?ls \<subseteq> set ls'" using Cons.IH [OF new(2)] by (simp add: fold_insort)
  moreover have "set ls \<subseteq> set ?ls" "1 < length (getPrecedingLabels c (vx_label v)) \<Longrightarrow> vx_label v \<in> set ?ls"
    by (auto simp: set_insort_insert)
  ultimately show ?case using Cons.IH [OF new(2)] new(1) by auto
qed simp

definition leaders_of :: "Cfg \<Rightarrow> label list res" where
  "leaders_of c = determine_leaders c (map snd (label_to_vertex c)) []"

text \<open>What the loops below need to know of the leaders.\<close>

definition leads_blocks :: "Cfg \<Rightarrow> label list \<Rightarrow> bool" where
  "leads_blocks c ls \<longleftrightarrow> (\<forall>l v. map_of (label_to_vertex c) l = Some v \<longrightarrow>
     (1 < length (getPrecedingLabels c l) \<longrightarrow> l \<in> set ls) \<and> (\<exists>new. vertex_leaders c v = Inr new \<and> set new \<subseteq> set ls))"

lemma plain_vertex_at: "plain_graph c \<Longrightarrow> map_of (label_to_vertex c) l = Some v \<Longrightarrow> plain_at c (l, v)"
  by (auto simp: plain_graph_def dest: map_of_SomeD)

lemma leaders_lead:
  assumes "plain_graph c" "leaders_of c = Inr ls"
  shows "leads_blocks c ls" "distinct ls"
proof -
  show "distinct ls" using determine_leaders_distinct assms(2) by (fastforce simp: leaders_of_def)
  show "leads_blocks c ls"
    unfolding leads_blocks_def
  proof (intro allI impI)
    fix l v assume v: "map_of (label_to_vertex c) l = Some v"
    have "vx_label v = l" using plain_vertex_at [OF assms(1) v] by (simp add: plain_at_def)
    moreover have "v \<in> set (map snd (label_to_vertex c))" using map_of_SomeD [OF v] by force
    ultimately show "(1 < length (getPrecedingLabels c l) \<longrightarrow> l \<in> set ls) \<and> (\<exists>new. vertex_leaders c v = Inr new \<and> set new \<subseteq> set ls)"
      using determine_leaders_ok [OF assms(2) [unfolded leaders_of_def]] by blast
  qed
qed

section \<open>The loop that follows a block\<close>

lemma regular_instruction_Inr:
  "regular_instruction c l = Inr i \<longleftrightarrow> (\<exists>v. map_of (label_to_vertex c) l = Some v \<and> vx_type v = REGULAR \<and> vx_instruction v = Some i)"
  by (auto simp: regular_instruction_def getVertex_def rbind_eq_Inr split: option.splits)

lemma no_events_type: "is_assignment i \<or> is_havoc i \<or> is_if i \<or> is_call i \<or> is_while i \<or> is_goto i \<or> is_sequence i"
  by (cases i) (simp_all add: is_assignment_def is_havoc_def is_if_def is_call_def is_while_def is_goto_def is_sequence_def)

text \<open>Labels the loop has taken: all but the first lead no block, and each is the only successor of the one in front.\<close>

fun taken :: "Cfg \<Rightarrow> label set \<Rightarrow> label list \<Rightarrow> bool" where
  "taken c L [] \<longleftrightarrow> False"
| "taken c L [b] \<longleftrightarrow> True"
| "taken c L (b # b' # bs) \<longleftrightarrow> b' \<notin> L \<and> getSucceedingLabels c b = [b'] \<and> taken c L (b' # bs)"

lemma taken_append: "taken c L bs \<Longrightarrow> getSucceedingLabels c (last bs) = [b'] \<Longrightarrow> b' \<notin> L \<Longrightarrow> taken c L (bs @ [b'])"
  by (induction bs rule: induct_list012) auto

lemma taken_inner: "taken c L bs \<Longrightarrow> b \<in> set (tl bs) \<Longrightarrow> b \<notin> L"
  by (induction bs rule: induct_list012) auto

lemma taken_before:
  "taken c L bs \<Longrightarrow> b \<in> set (tl bs) \<Longrightarrow> \<exists>a \<in> set (butlast bs). getSucceedingLabels c a = [b]"
  by (induction bs rule: induct_list012) auto

lemma succeeding_edge: "b \<in> set (getSucceedingLabels c a) \<longleftrightarrow> (\<exists>e \<in> set (cfg_edges c). source_label e = a \<and> target_label e = b)"
  by (auto simp: getSucceedingLabels_def getOutgoingEdges_def)

text \<open>
  Without two edges into a label there is one label in front of it.
\<close>

lemma one_before:
  assumes "length (getPrecedingLabels c b) \<le> 1" "b \<in> set (getSucceedingLabels c a)" "b \<in> set (getSucceedingLabels c a')"
  shows "a = a'"
proof -
  have "a \<in> set (getPrecedingLabels c b)" "a' \<in> set (getPrecedingLabels c b)"
    using assms(2,3) unfolding succeeding_edge by (auto simp: getPrecedingLabels_def getIncomingEdges_def)
  then show ?thesis using assms(1) by (cases "getPrecedingLabels c b"; cases "tl (getPrecedingLabels c b)") auto
qed

lemma taken_fresh:
  assumes "taken c L bs" "distinct bs" "hd bs \<in> L" "getSucceedingLabels c (last bs) = [b]" "b \<notin> L" "length (getPrecedingLabels c b) \<le> 1"
  shows "b \<notin> set bs"
proof
  assume b: "b \<in> set bs"
  have "bs \<noteq> []" using assms(1) by auto
  then have "b \<in> set (tl bs)" using b assms(3,5) by (cases bs) auto
  from taken_before [OF assms(1) this] obtain a where a: "a \<in> set (butlast bs)" "getSucceedingLabels c a = [b]" by blast
  have "a = last bs" by (rule one_before [OF assms(6)]) (simp_all add: a(2) assms(4))
  moreover have "last bs \<notin> set (butlast bs)"
    using assms(2) \<open>bs \<noteq> []\<close> by (metis append_butlast_last_id distinct_append disjoint_iff list.set_intros(1))
  ultimately show False using a(1) by simp
qed

text \<open>
  The loop ends: it takes each vertex of the graph at most once.
\<close>

lemma block_labels_ends:
  assumes p: "plain_graph c" "leads_blocks c ls"
  shows "taken c (set ls) bs \<Longrightarrow> distinct bs \<Longrightarrow> hd bs \<in> set ls \<Longrightarrow> set bs \<subseteq> fst ` set (label_to_vertex c)
     \<Longrightarrow> block_labels c ls bs (getSucceedingLabels c (last bs)) \<noteq> None"
proof (induction "card (fst ` set (label_to_vertex c)) - length bs" arbitrary: bs rule: less_induct)
  case less
  show ?case
  proof (cases "length (getSucceedingLabels c (last bs)) = 1")
    case True
    then obtain b where b: "getSucceedingLabels c (last bs) = [b]" by (cases "getSucceedingLabels c (last bs)") auto
    have "block_labels c ls (bs @ [b]) (getSucceedingLabels c b) \<noteq> None" if nb: "b \<notin> set ls" and ri: "regular_instruction c b = Inr i" for i
    proof -
      obtain v where v: "map_of (label_to_vertex c) b = Some v" using ri by (auto simp: regular_instruction_Inr)
      then have one: "length (getPrecedingLabels c b) \<le> 1" using p(2) nb unfolding leads_blocks_def by force
      have new: "b \<notin> set bs" by (rule taken_fresh [OF less.prems(1-3) b nb one])
      have in_graph: "b \<in> fst ` set (label_to_vertex c)" using map_of_SomeD [OF v] by force
      have sub: "set (bs @ [b]) \<subseteq> fst ` set (label_to_vertex c)" using less.prems(4) in_graph by simp
      have d: "distinct (bs @ [b])" using less.prems(2) new by simp
      have "length (bs @ [b]) \<le> card (fst ` set (label_to_vertex c))"
        using card_mono [OF _ sub] distinct_card [OF d] by simp
      then have "card (fst ` set (label_to_vertex c)) - length (bs @ [b]) < card (fst ` set (label_to_vertex c)) - length bs" by simp
      from less.hyps [OF this taken_append [OF less.prems(1) b nb] d _ sub] less.prems(1,3)
      show ?thesis by (cases bs) auto
    qed
    then show ?thesis using b by (subst block_labels.simps) (auto split: sum.splits)
  qed (subst block_labels.simps, simp)
qed

text \<open>What the loop takes: assignments, and at the end perhaps a decision or a call.\<close>

definition simple_at :: "Cfg \<Rightarrow> label \<Rightarrow> bool" where
  "simple_at c l \<longleftrightarrow> (\<exists>i. regular_instruction c l = Inr i \<and> (is_assignment i \<or> is_havoc i))"

definition ends_at :: "Cfg \<Rightarrow> label set \<Rightarrow> label \<Rightarrow> bool" where
  "ends_at c L l \<longleftrightarrow> (\<exists>i. regular_instruction c l = Inr i \<and> (is_if i \<or> is_call i))
     \<or> simple_at c l \<and> (\<exists>s \<in> L. getSucceedingLabels c l = [s])"

definition block_of :: "Cfg \<Rightarrow> label set \<Rightarrow> label \<Rightarrow> label list \<Rightarrow> bool" where
  "block_of c L l bs \<longleftrightarrow> taken c L bs \<and> hd bs = l \<and> (\<forall>b \<in> set (butlast bs). simple_at c b) \<and> ends_at c L (last bs)"

lemma block_labels_block:
  "block_labels c ls bs succeeding = Some r \<Longrightarrow> r = Inr bs' \<Longrightarrow> succeeding = getSucceedingLabels c (last bs)
     \<Longrightarrow> taken c (set ls) bs \<Longrightarrow> \<forall>b \<in> set bs. simple_at c b \<Longrightarrow> block_of c (set ls) (hd bs) bs'"
proof (induction arbitrary: bs' rule: block_labels.raw_induct [rotated, consumes 1, case_names loop])
  case (loop f c ls bs succeeding r)
  have "bs \<noteq> []" using loop.prems(3) by auto
  have one: "length succeeding = 1" using loop.hyps loop.prems(1) by (auto split: if_splits)
  then obtain b where b: "succeeding = [b]" by (cases succeeding) auto
  show ?case
  proof (cases "b \<in> set ls")
    case True
    then have "bs' = bs" using loop.hyps loop.prems(1) b by simp
    moreover have "getSucceedingLabels c (last bs) = [b]" using loop.prems(2) b by simp
    ultimately show ?thesis using loop.prems(3,4) True \<open>bs \<noteq> []\<close> by (auto simp: block_of_def ends_at_def dest: in_set_butlastD)
  next
    case False
    note step = loop.hyps [unfolded b loop.prems(1)]
    obtain i where i: "regular_instruction c b = Inr i" using step False by (cases "regular_instruction c b") auto
    have t: "taken c (set ls) (bs @ [b])" using taken_append loop.prems(2,3) b False by metis
    show ?thesis
    proof (cases "is_if i \<or> is_call i")
      case True
      then have "bs' = bs @ [b]" using step False i by simp
      then show ?thesis using t i True loop.prems(4) \<open>bs \<noteq> []\<close> by (auto simp: block_of_def ends_at_def)
    next
      case no: False
      then have s: "is_assignment i \<or> is_havoc i" "f c ls (bs @ [b]) (getSucceedingLabels c b) = Some (Inr bs')"
        using step False i no_events_type [of i] by (auto split: if_splits)
      have "\<forall>a \<in> set (bs @ [b]). simple_at c a" using loop.prems(4) i s(1) by (auto simp: simple_at_def)
      from loop.IH [OF s(2) refl _ t this] show ?thesis using \<open>bs \<noteq> []\<close> by simp
    qed
  qed
qed

section \<open>What one block holds\<close>

lemma steps_out: "steps c l = (\<lambda>e. (target_label e, edge_type e)) ` set (filter intra (getOutgoingEdges c l))"
  by (auto simp: steps_def getOutgoingEdges_def)

lemma simple_steps:
  assumes "plain_graph c" "simple_at c l" "getSucceedingLabels c l = [s]"
  shows "steps c l = {(s, INTRAPROCEDURAL)}"
proof -
  obtain i v where v: "map_of (label_to_vertex c) l = Some v" "vx_instruction v = Some i" "is_assignment i \<or> is_havoc i"
    using assms(2) by (auto simp: simple_at_def regular_instruction_Inr)
  have ty: "\<forall>e \<in> set (getOutgoingEdges c l). edge_type e = INTRAPROCEDURAL"
    using plain_vertex_at [OF assms(1) v(1)] v(2,3) by (simp add: plain_at_def)
  obtain e where "getOutgoingEdges c l = [e]" "target_label e = s" using assms(3) by (auto simp: getSucceedingLabels_def)
  then show ?thesis using ty by (simp add: steps_out intra_def)
qed

lemma taken_chain:
  assumes "plain_graph c"
  shows "taken c L bs \<Longrightarrow> \<forall>b \<in> set (butlast bs). simple_at c b \<Longrightarrow> chain c L bs"
  by (induction bs rule: induct_list012) (auto simp: simple_steps [OF assms])

lemma regular_events:
  assumes "plain_graph c" "regular_instruction c l = Inr i"
  shows "events_at c l = [Execute i]" "\<not> is_sequence i"
proof -
  obtain v where v: "map_of (label_to_vertex c) l = Some v" "vx_instruction v = Some i" using assms(2) by (auto simp: regular_instruction_Inr)
  show "\<not> is_sequence i" using plain_vertex_at [OF assms(1) v(1)] v(2) by (simp add: plain_at_def)
  then have "body i = [i]" by (cases i) (simp_all add: is_sequence_def)
  then show "events_at c l = [Execute i]" using v by (simp add: events_at_def vertex_events_def)
qed

text \<open>
  The last vertex of a block leads to leaders.
\<close>

lemma vertex_leaders_at:
  assumes "leads_blocks c ls" "regular_instruction c l = Inr i"
  obtains v new where "map_of (label_to_vertex c) l = Some v" "vx_type v = REGULAR" "vx_instruction v = Some i" "vertex_leaders c v = Inr new" "set new \<subseteq> set ls"
proof -
  obtain v where v: "map_of (label_to_vertex c) l = Some v" "vx_type v = REGULAR" "vx_instruction v = Some i"
    using assms(2) by (auto simp: regular_instruction_Inr)
  then show thesis using assms(1) that unfolding leads_blocks_def by blast
qed

lemma steps_succeeding: "fst ` steps c l \<subseteq> set (getSucceedingLabels c l)"
  by (auto simp: steps_def getSucceedingLabels_def getOutgoingEdges_def)

lemma decision_leads:
  assumes "plain_graph c" "leads_blocks c ls" "regular_instruction c l = Inr i" "is_if i \<or> is_while i"
  shows "fst ` steps c l \<subseteq> set ls"
proof -
  obtain v new where v: "map_of (label_to_vertex c) l = Some v" "vx_type v = REGULAR" "vx_instruction v = Some i" "vertex_leaders c v = Inr new" "set new \<subseteq> set ls"
    by (rule vertex_leaders_at [OF assms(2,3)])
  have "vx_label v = l" using plain_vertex_at [OF assms(1) v(1)] by (simp add: plain_at_def)
  then have "set (getSucceedingLabels c l) \<subseteq> set new"
    using v(2-4) assms(4) by (auto simp: vertex_leaders_def Let_def is_if_def is_while_def split: Instruction.splits)
  then show ?thesis using v(5) steps_succeeding by blast
qed

lemma call_leads:
  assumes "plain_graph c" "leads_blocks c ls" "regular_instruction c l = Inr i" "is_call i" "getIntraproceduralCallToReturnEdge c l = Inr r"
  shows "steps c l = {(target_label r, INTRAPROCEDURAL_CALL_TO_RETURN)}" "target_label r \<in> set ls"
    "edge_type r = INTRAPROCEDURAL_CALL_TO_RETURN" "source_label r = l"
proof -
  obtain v new where v: "map_of (label_to_vertex c) l = Some v" "vx_type v = REGULAR" "vx_instruction v = Some i" "vertex_leaders c v = Inr new" "set new \<subseteq> set ls"
    by (rule vertex_leaders_at [OF assms(2,3)])
  have p: "plain_at c (l, v)" using plain_vertex_at [OF assms(1) v(1)] .
  have r: "r \<in> set (cfg_edges c)" "source_label r = l" "edge_type r = INTRAPROCEDURAL_CALL_TO_RETURN"
    using assms(5) by (auto simp: getIntraproceduralCallToReturnEdge_def with_instruction_def find_edge_def find_Some_iff rbind_eq_Inr split: option.splits)
  then have "r \<in> set (filter intra (getOutgoingEdges c l))" by (simp add: intra_def getOutgoingEdges_def)
  moreover obtain e where "filter intra (getOutgoingEdges c l) = [e]"
    using p v(3) assms(4) by (auto simp: plain_at_def split: list.splits)
  ultimately show "steps c l = {(target_label r, INTRAPROCEDURAL_CALL_TO_RETURN)}" using r(3) by (simp add: steps_out)
  have "vx_label v = l" using p by (simp add: plain_at_def)
  then have "target_label r \<in> set new" using v(2-4) assms(4,5) by (auto simp: vertex_leaders_def is_call_def split: Instruction.splits)
  then show "target_label r \<in> set ls" using v(5) by blast
  show "edge_type r = INTRAPROCEDURAL_CALL_TO_RETURN" "source_label r = l" using r by simp_all
qed

end
