(* ===== verification/Ahorn_Joins.thy ===== *)
theory Ahorn_Joins
  imports Ahorn_Leaders
begin

text \<open>
  The graph of basic blocks has the runs of the graph it is built from.
\<close>

section \<open>Blocks made\<close>

definition ways :: "Edge list \<Rightarrow> (label \<times> edge_type) set" where
  "ways es = (\<lambda>e. (target_label e, edge_type e)) ` set (filter intra es)"

definition made :: "Cfg \<Rightarrow> label set \<Rightarrow> label \<Rightarrow> Vertex \<Rightarrow> Edge list \<Rightarrow> bool" where
  "made c L l v es \<longleftrightarrow> joins c L l (vertex_events v) (ways es) \<and> (\<forall>e \<in> set es. intra e \<longrightarrow> source_label e = l)"

lemma edge_simps [simp]:
  "intra (make_edge l (target_label e) (edge_type e)) = intra e" "intra (copy_edge e) = intra e" "source_label (copy_edge e) = source_label e" "target_label (copy_edge e) = target_label e"
  "edge_type (copy_edge e) = edge_type e" "source_label (make_edge l t ty) = l" "target_label (make_edge l t ty) = t" "edge_type (make_edge l t ty) = ty"
  by (simp_all add: copy_edge_def make_edge_def intra_def)

lemma ways_simps [simp]:
  "ways [] = {}" "ways (e # es) = (if intra e then insert (target_label e, edge_type e) (ways es) else ways es)"
  "ways (es @ es') = ways es \<union> ways es'"
  by (auto simp: ways_def)

lemma ways_copies [simp]:
  "ways (map copy_edge es) = ways es"
  "ways (map (\<lambda>e. make_edge l (target_label e) (edge_type e)) es) = ways es"
  by (induction es) simp_all

lemma steps_ways: "steps c l = ways (getOutgoingEdges c l)"
  by (simp add: steps_out ways_def)

lemma return_edge_type: "copy_return_edge k e = Inr e' \<Longrightarrow> \<not> intra e'"
  by (auto simp: copy_return_edge_def make_return_edge_def rbind_eq_Inr intra_def)

lemma out_source: "e \<in> set (getOutgoingEdges c l) \<Longrightarrow> source_label e = l"
  by (simp add: getOutgoingEdges_def)

lemma made_alone:
  assumes "vertex_events v = events_at c l" "ways es = steps c l" "fst ` steps c l \<subseteq> L" "\<And>e. e \<in> set es \<Longrightarrow> intra e \<Longrightarrow> source_label e = l"
  shows "made c L l v es"
  using assms by (auto simp: made_def joins_def intro!: exI [of _ "[l]"])

lemma instruction_vertex_events: "\<not> is_sequence i \<Longrightarrow> vertex_events (instruction_vertex l i) = [Execute i]"
  by (cases i) (simp_all add: vertex_events_def instruction_vertex_def is_sequence_def)

lemma instructions_events:
  "plain_graph c \<Longrightarrow> instructions_at c bs = Inr is \<Longrightarrow> \<forall>b \<in> set bs. \<exists>i. regular_instruction c b = Inr i
     \<Longrightarrow> map Execute is = concat (map (events_at c) bs)"
proof (induction bs arbitrary: "is")
  case (Cons b bs)
  obtain i where i: "regular_instruction c b = Inr i" using Cons.prems(3) by auto
  then obtain is' where "is = i # is'" "instructions_at c bs = Inr is'"
    using Cons.prems(2) by (auto simp: regular_instruction_Inr getVertex_def rbind_eq_Inr)
  then show ?case using Cons.IH [of is'] Cons.prems(1,3) regular_events(1) [OF Cons.prems(1) i] by simp
qed simp

lemma simple_not_decision: "is_assignment i \<or> is_havoc i \<Longrightarrow> \<not> is_if i \<and> \<not> is_call i \<and> \<not> is_while i \<and> \<not> is_sequence i"
  by (cases i) (simp_all add: is_assignment_def is_havoc_def is_if_def is_call_def is_while_def is_sequence_def)

lemma simple_leads:
  assumes "plain_graph c" "ends_at c L l" "simple_at c l"
  shows "fst ` steps c l \<subseteq> L"
proof -
  obtain i where i: "regular_instruction c l = Inr i" "is_assignment i \<or> is_havoc i" using assms(3) by (auto simp: simple_at_def)
  then have "\<not> is_if i" "\<not> is_call i" using simple_not_decision by auto
  then obtain s where "s \<in> L" "getSucceedingLabels c l = [s]" using assms(2) i(1) by (auto simp: ends_at_def)
  then show ?thesis using simple_steps [OF assms(1,3)] by simp
qed

lemma block_regular: "block_of c L l bs \<Longrightarrow> b \<in> set bs \<Longrightarrow> \<exists>i. regular_instruction c b = Inr i"
proof -
  assume a: "block_of c L l bs" "b \<in> set bs"
  then have "bs \<noteq> []" by auto
  then have "b \<in> set (butlast bs) \<or> b = last bs" using a(2) by (metis append_butlast_last_id in_set_conv_decomp rotate1.simps(2) set_ConsD set_rotate1)
  then show ?thesis using a(1) by (auto simp: block_of_def simple_at_def ends_at_def)
qed

lemma made_sequence:
  assumes p: "plain_graph c" "leads_blocks c ls" and b: "block_of c (set ls) l bs" and r: "build_sequence c l bs b = Inr b'"
  shows "\<exists>v es. b' = (emplace l v (fst b), snd b @ es) \<and> made c (set ls) l v es"
proof -
  let ?out = "map (\<lambda>e. make_edge l (target_label e) (edge_type e)) (getOutgoingEdges c (last bs))"
  have "bs \<noteq> []" using b by (auto simp: block_of_def)
  then obtain i where i: "regular_instruction c (last bs) = Inr i" using block_regular [OF b, of "last bs"] by auto
  obtain "is" where ins: "instructions_at c bs = Inr is" using r by (auto simp: build_sequence_def rbind_eq_Inr)
  let ?v = "instruction_vertex l (SequenceInstruction is)"
  note r' = r [unfolded build_sequence_def ins, simplified]
  have at: "getVertex c (last bs) = Inr v \<Longrightarrow> vx_instruction v = Some i" for v
    using i by (auto simp: regular_instruction_Inr getVertex_def)
  have join: "joins c (set ls) l (vertex_events ?v) (steps c (last bs))" if "fst ` steps c (last bs) \<subseteq> set ls"
  proof -
    have "vertex_events ?v = concat (map (events_at c) bs)"
      using instructions_events [OF p(1) ins] block_regular [OF b] by (simp add: vertex_events_def instruction_vertex_def)
    moreover have "chain c (set ls) bs" "hd bs = l" using taken_chain [OF p(1)] b by (auto simp: block_of_def)
    ultimately show ?thesis using that by (auto simp: joins_def)
  qed
  show ?thesis
  proof (cases "is_call i")
    case True
    then obtain ret e e' where e: "getIntraproceduralCallToReturnEdge c (last bs) = Inr ret" "copy_return_edge l e = Inr e'"
      "b' = (emplace l ?v (fst b), (snd b @ ?out) @ [e'])"
      using r' at by (auto simp: rbind_eq_Inr Let_def)
    have "made c (set ls) l ?v (?out @ [e'])"
      using join call_leads(1,2) [OF p i True e(1)] return_edge_type [OF e(2)] by (auto simp: made_def steps_ways)
    then show ?thesis using e(3) by auto
  next
    case False
    then have b': "b' = (emplace l ?v (fst b), snd b @ ?out)" and k: "is_assignment i \<or> is_havoc i \<or> is_if i"
      using r' at by (auto simp: rbind_eq_Inr Let_def split: if_splits)
    have "fst ` steps c (last bs) \<subseteq> set ls"
    proof (cases "is_if i")
      case True
      then show ?thesis using decision_leads [OF p i] by blast
    next
      case no: False
      then have "simple_at c (last bs)" using k i by (auto simp: simple_at_def)
      then show ?thesis using simple_leads p(1) b by (auto simp: block_of_def)
    qed
    then have "made c (set ls) l ?v ?out" using join by (auto simp: made_def steps_ways)
    then show ?thesis using b' by auto
  qed
qed

lemma made_single:
  assumes p: "plain_graph c" and b: "block_of c (set ls) l [l]" and r: "build_single c l b = Inr b'" and s: "simple_at c l"
  shows "\<exists>v es. b' = (emplace l v (fst b), snd b @ es) \<and> made c (set ls) l v es"
proof -
  obtain i where i: "regular_instruction c l = Inr i" using s by (auto simp: simple_at_def)
  obtain e where e: "getOutgoingEdges c l = [e]" "b' = (emplace l (instruction_vertex l i) (fst b), snd b @ [copy_edge e])"
    using r i by (cases "getOutgoingEdges c l") (auto simp: build_single_def Let_def rbind_eq_Inr)
  have "made c (set ls) l (instruction_vertex l i) [copy_edge e]"
  proof (rule made_alone)
    show "vertex_events (instruction_vertex l i) = events_at c l" using regular_events [OF p i] by (simp add: instruction_vertex_events)
    show "ways [copy_edge e] = steps c l" by (simp add: steps_ways e(1))
    show "fst ` steps c l \<subseteq> set ls" using simple_leads [OF p _ s] b by (simp add: block_of_def)
    have "source_label e = l" using out_source [of e c l] e(1) by simp
    then show "\<And>e'. e' \<in> set [copy_edge e] \<Longrightarrow> intra e' \<Longrightarrow> source_label e' = l" by simp
  qed
  then show ?thesis using e(2) by blast
qed

lemma made_call:
  assumes p: "plain_graph c" "leads_blocks c ls" and i: "regular_instruction c l = Inr i" "is_call i" and r: "build_call c l i b = Inr b'"
  shows "\<exists>v es. b' = (emplace l v (fst b), snd b @ es) \<and> made c (set ls) l v es"
proof -
  obtain call ret e k e' where e: "getInterproceduralCallEdge c l = Inr call" "getIntraproceduralCallToReturnEdge c l = Inr ret"
    "copy_return_edge k e = Inr e'" "b' = (emplace l (instruction_vertex l i) (fst b), snd b @ [copy_edge call, copy_edge ret, e'])"
    using r by (auto simp: build_call_def rbind_eq_Inr)
  have "edge_type call = INTERPROCEDURAL_CALL"
    using e(1) by (auto simp: getInterproceduralCallEdge_def with_instruction_def find_edge_def find_Some_iff rbind_eq_Inr split: option.splits)
  then have no: "\<not> intra call" "\<not> intra e'" using return_edge_type [OF e(3)] by (simp_all add: intra_def)
  note ret = call_leads [OF p i e(2)]
  then have "intra ret" by (simp add: intra_def)
  have "made c (set ls) l (instruction_vertex l i) [copy_edge call, copy_edge ret, e']"
  proof (rule made_alone)
    show "vertex_events (instruction_vertex l i) = events_at c l" using regular_events [OF p(1) i(1)] by (simp add: instruction_vertex_events)
    show "ways [copy_edge call, copy_edge ret, e'] = steps c l" unfolding ret(1) using no ret(3) \<open>intra ret\<close> by simp
    show "fst ` steps c l \<subseteq> set ls" unfolding ret(1) using ret(2) by simp
    show "\<And>d. d \<in> set [copy_edge call, copy_edge ret, e'] \<Longrightarrow> intra d \<Longrightarrow> source_label d = l" using no ret(4) by auto
  qed
  then show ?thesis using e(4) by blast
qed

lemma made_decision:
  assumes p: "plain_graph c" "leads_blocks c ls" and i: "regular_instruction c l = Inr i" "is_if i \<or> is_while i" and r: "build_decision c l i b = Inr b'"
  shows "\<exists>v es. b' = (emplace l v (fst b), snd b @ es) \<and> made c (set ls) l v es"
proof -
  have "made c (set ls) l (instruction_vertex l i) (map copy_edge (getOutgoingEdges c l))"
  proof (rule made_alone)
    show "vertex_events (instruction_vertex l i) = events_at c l" using regular_events [OF p(1) i(1)] by (simp add: instruction_vertex_events)
    show "ways (map copy_edge (getOutgoingEdges c l)) = steps c l" by (simp add: steps_ways)
    show "fst ` steps c l \<subseteq> set ls" using decision_leads [OF p i] .
    show "\<And>d. d \<in> set (map copy_edge (getOutgoingEdges c l)) \<Longrightarrow> intra d \<Longrightarrow> source_label d = l" using out_source [of _ c l] by auto
  qed
  then show ?thesis using r by (auto simp: build_decision_def)
qed

lemma made_straight:
  assumes p: "plain_graph c" "leads_blocks c ls" and s: "simple_at c l" and r: "build_straight c ls l b = Inr b'"
  shows "\<exists>v es. b' = (emplace l v (fst b), snd b @ es) \<and> made c (set ls) l v es"
proof -
  obtain bs where bs: "block_labels c ls [l] (getSucceedingLabels c l) = Some (Inr bs)"
    "(if length bs = 1 then build_single c l b else build_sequence c l bs b) = Inr b'"
    using r by (auto simp: build_straight_def rbind_eq_Inr split: option.splits)
  have b: "block_of c (set ls) l bs" using block_labels_block [OF bs(1) refl] s by simp
  show ?thesis
  proof (cases "length bs = 1")
    case True
    then have "bs = [l]" using b by (cases bs) (auto simp: block_of_def)
    then show ?thesis using made_single [OF p(1) _ _ s] b bs(2) by simp
  qed (use made_sequence [OF p b] bs(2) in simp)
qed

lemma made_end:
  assumes p: "plain_graph c" and v: "\<And>v. map_of (label_to_vertex c) l = Some v \<Longrightarrow> vx_type v \<noteq> REGULAR" and t: "fst ` steps c l \<subseteq> L"
  shows "made c L l (plain_vertex l ty) (map copy_edge (getOutgoingEdges c l))"
proof (rule made_alone)
  have "events_at c l = []"
    using plain_vertex_at [OF p] v by (fastforce simp: events_at_def vertex_events_def plain_at_def split: option.splits)
  then show "vertex_events (plain_vertex l ty) = events_at c l" by (simp add: vertex_events_def plain_vertex_def)
  show "ways (map copy_edge (getOutgoingEdges c l)) = steps c l" by (simp add: steps_ways)
  show "\<And>d. d \<in> set (map copy_edge (getOutgoingEdges c l)) \<Longrightarrow> intra d \<Longrightarrow> source_label d = l" using out_source [of _ c l] by auto
qed (rule t)

lemma entry_leads:
  assumes p: "plain_graph c" "leads_blocks c ls"
  shows "fst ` steps c (entry_label c) \<subseteq> set ls"
proof -
  obtain v where v: "map_of (label_to_vertex c) (entry_label c) = Some v"
    using p(1) by (metis plain_graph_def map_of_eq_None_iff option.exhaust)
  have a: "vx_type v = ENTRY" "vx_label v = entry_label c" using plain_vertex_at [OF p(1) v] by (auto simp: plain_at_def)
  obtain new where new: "vertex_leaders c v = Inr new" "set new \<subseteq> set ls" using p(2) v unfolding leads_blocks_def by blast
  then have "set (getSucceedingLabels c (entry_label c)) \<subseteq> set new"
    using a by (cases "getSucceedingLabels c (entry_label c)") (auto simp: vertex_leaders_def Let_def rbind_eq_Inr)
  then show ?thesis using new(2) steps_succeeding by blast
qed

lemma made_block:
  assumes p: "plain_graph c" "leads_blocks c ls" and r: "build_block c ls l b = Inr b'"
  shows "\<exists>v es. b' = (emplace l v (fst b), snd b @ es) \<and> made c (set ls) l v es"
proof -
  consider "l = entry_label c" | "l \<noteq> entry_label c" "l = exit_label c" | "l \<noteq> entry_label c" "l \<noteq> exit_label c" by blast
  then show ?thesis
  proof cases
    case 1
    then obtain e where e: "getOutgoingEdges c l = [e]" "b' = (emplace l (plain_vertex l ENTRY) (fst b), snd b @ [copy_edge e])"
      using r by (cases "getOutgoingEdges c l") (auto simp: build_block_def Let_def rbind_eq_Inr)
    have t: "vx_type v \<noteq> REGULAR" if "map_of (label_to_vertex c) l = Some v" for v
      using plain_vertex_at [OF p(1) that] 1 by (auto simp: plain_at_def)
    have "made c (set ls) l (plain_vertex l ENTRY) (map copy_edge (getOutgoingEdges c l))"
      by (rule made_end [OF p(1) t]) (use entry_leads [OF p] 1 in simp_all)
    then show ?thesis using e by auto
  next
    case 2
    then have e: "getOutgoingEdges c l = []" "b' = (emplace l (plain_vertex l EXIT) (fst b), snd b)"
      using r by (auto simp: build_block_def rassert_def split: if_splits)
    have t: "vx_type v \<noteq> REGULAR" if "map_of (label_to_vertex c) l = Some v" for v
      using plain_vertex_at [OF p(1) that] 2 by (auto simp: plain_at_def)
    have "made c (set ls) l (plain_vertex l EXIT) (map copy_edge (getOutgoingEdges c l))"
      by (rule made_end [OF p(1) t]) (simp_all add: steps_ways e(1))
    then show ?thesis using e by auto
  next
    case 3
    then obtain i where i: "regular_instruction c l = Inr i" using r by (auto simp: build_block_def rbind_eq_Inr)
    note r' = r [unfolded build_block_def] i 3
    consider "is_assignment i \<or> is_havoc i" | "is_call i" | "is_if i \<or> is_while i" | "is_goto i \<or> is_sequence i"
      using no_events_type [of i] by blast
    then show ?thesis
    proof cases
      case 1
      then have "simple_at c l" using i by (auto simp: simple_at_def)
      moreover have "build_straight c ls l b = Inr b'"
        using r' 1 by (cases i) (simp_all add: is_assignment_def is_havoc_def)
      ultimately show ?thesis using made_straight [OF p] by blast
    next
      case c: 2
      have "build_call c l i b = Inr b'" using r' c by (cases i) (simp_all add: is_call_def)
      then show ?thesis using made_call [OF p i c] by blast
    next
      case d: 3
      have "build_decision c l i b = Inr b'" using r' d by (cases i) (simp_all add: is_if_def is_while_def)
      then show ?thesis using made_decision [OF p i d] by blast
    next
      case 4
      then show ?thesis using r' by (cases i) (simp_all add: is_goto_def is_sequence_def)
    qed
  qed
qed

lemma made_blocks:
  assumes p: "plain_graph c" "leads_blocks c ls"
  shows "build_blocks c ls ks b = Inr b' \<Longrightarrow> sorted_map (fst b) \<Longrightarrow> distinct ks \<Longrightarrow> \<forall>l \<in> set ks. map_of (fst b) l = None \<Longrightarrow>
     \<exists>V N. (\<forall>l \<in> set ks. made c (set ls) l (V l) (N l)) \<and> snd b' = snd b @ concat (map N ks)
       \<and> (\<forall>l. map_of (fst b') l = (if l \<in> set ks then Some (V l) else map_of (fst b) l))"
proof (induction ks arbitrary: b)
  case (Cons k ks)
  obtain b1 where b1: "build_block c ls k b = Inr b1" "build_blocks c ls ks b1 = Inr b'" using Cons.prems(1) by (auto simp: rbind_eq_Inr)
  obtain v es where m: "b1 = (emplace k v (fst b), snd b @ es)" "made c (set ls) k v es" using made_block [OF p b1(1)] by blast
  have at: "map_of (fst b1) l = (if l = k then Some v else map_of (fst b) l)" for l
    using map_of_emplace [OF Cons.prems(2)] Cons.prems(4) m(1) by simp
  have "\<forall>l \<in> set ks. map_of (fst b1) l = None" using at Cons.prems(3,4) by auto
  from Cons.IH [OF b1(2) _ _ this] sorted_emplace [OF Cons.prems(2), of k v] obtain V N where vn: "\<forall>l \<in> set ks. made c (set ls) l (V l) (N l)" "snd b' = snd b1 @ concat (map N ks)"
    "\<forall>l. map_of (fst b') l = (if l \<in> set ks then Some (V l) else map_of (fst b1) l)"
    using Cons.prems(3) m(1) by auto
  have "map (N(k := es)) ks = map N ks" using Cons.prems(3) by auto
  then have "concat (map (N(k := es)) (k # ks)) = es @ concat (map N ks)" by (simp only: list.map concat.simps fun_upd_same)
  then have "snd b' = snd b @ concat (map (N(k := es)) (k # ks))" using vn(2) m(1) by (simp only: snd_conv append_assoc)
  moreover have "\<forall>l \<in> set (k # ks). made c (set ls) l ((V(k := v)) l) ((N(k := es)) l)" using vn(1) m(2) Cons.prems(3) by simp
  moreover have "\<forall>l. map_of (fst b') l = (if l \<in> set (k # ks) then Some ((V(k := v)) l) else map_of (fst b) l)" using vn(3) at Cons.prems(3) by simp
  ultimately show ?case by blast
qed auto

section \<open>The graph of blocks\<close>

definition vertex_labels :: "Cfg \<Rightarrow> label set" where
  "vertex_labels c = fst ` set (label_to_vertex c)"

lemma vertex_labels_map_of: "l \<in> vertex_labels c \<longleftrightarrow> map_of (label_to_vertex c) l \<noteq> None"
  by (simp add: vertex_labels_def map_of_eq_None_iff)

lemma block_graph_joins:
  assumes p: "plain_graph c" and r: "block_graph c cfgs = Inr d" and l: "l \<in> vertex_labels d"
  shows "joins c (vertex_labels d) l (events_at d l) (steps d l)"
proof -
  obtain ls b where b: "leaders_of c = Inr ls" "build_blocks c ls ls ([], []) = Inr b"
    "d = Cfg (cfg_type c) (cfg_name c) (copy_interface c) cfgs (fst b) (snd b) (entry_label c) (exit_label c)"
    using r by (auto simp: block_graph_def leaders_of_def new_cfg_def rbind_eq_Inr Let_def)
  note lead = leaders_lead [OF p b(1)]
  from made_blocks [OF p lead(1) b(2)] lead(2) obtain V N where vn: "\<forall>l \<in> set ls. made c (set ls) l (V l) (N l)"
    "snd b = concat (map N ls)" "\<forall>l. map_of (fst b) l = (if l \<in> set ls then Some (V l) else None)" by auto
  have L: "vertex_labels d = set ls" using vn(3) vertex_labels_map_of [of _ d] b(3) by (auto split: if_splits)
  then have m: "made c (set ls) l (V l) (N l)" using vn(1) l by blast
  have "events_at d l = vertex_events (V l)" using vn(3) b(3) l L by (simp add: events_at_def)
  moreover have "steps d l = ways (N l)"
  proof -
    have "{e \<in> set (cfg_edges d). intra e \<and> source_label e = l} = {e \<in> set (N l). intra e}"
      using vn(1,2) b(3) l L unfolding made_def by auto
    then show ?thesis by (simp add: steps_def ways_def)
  qed
  ultimately show ?thesis using m L by (simp add: made_def)
qed

lemma block_graph_runs:
  assumes "plain_graph c" "block_graph c cfgs = Inr d" "l \<in> vertex_labels d" "l' \<in> vertex_labels d"
  shows "runs d l w l' \<longleftrightarrow> runs c l w l'"
  by (rule joined_runs [OF block_graph_joins [OF assms(1,2)] assms(3,4)])

lemma basic_block_pass_graph:
  "basic_block_pass c = rbind (new_callees (map (\<lambda>p. basic_block_pass (snd p)) (name_to_cfg c)) []) (block_graph c)"
  by (cases c) simp

lemma block_loop_ends:
  assumes "plain_graph c" "leaders_of c = Inr ls" "l \<in> set ls" "l \<in> vertex_labels c"
  shows "block_labels c ls [l] (getSucceedingLabels c l) \<noteq> None"
  using block_labels_ends [OF assms(1) leaders_lead(1) [OF assms(1,2)], of "[l]"] assms(3,4) by (simp add: vertex_labels_def)

section \<open>Edges that return from a call\<close>

text \<open>
  A call is named by return edges only when one of the edges the pass looks up names it: the pass looks an edge
  up by the label it returns to, and gives the label of the block to calls at the end of a longer one.
\<close>

definition names_call :: "label \<Rightarrow> Edge list \<Rightarrow> bool" where
  "names_call k es \<longleftrightarrow> (\<exists>e \<in> set es. call_label e = Some k)"

lemma names_call_simps [simp]:
  "\<not> names_call k []" "names_call k (e # es) \<longleftrightarrow> call_label e = Some k \<or> names_call k es"
  "names_call k (es @ es') \<longleftrightarrow> names_call k es \<or> names_call k es'"
  by (auto simp: names_call_def)

lemma edges_name_none [simp]: "call_label (make_edge a b ty) = None" "call_label (copy_edge e) = None" "\<not> names_call k (map copy_edge es)"
    "\<not> names_call k (map (\<lambda>e. make_edge l (f e) (g e)) es)"
  by (auto simp: make_edge_def copy_edge_def names_call_def)

lemma copy_return_label: "copy_return_edge l e = Inr e' \<Longrightarrow> call_label e' = Some l"
  by (auto simp: copy_return_edge_def make_return_edge_def rbind_eq_Inr)

lemma build_straight_names:
  "build_straight c leaders l b = Inr b' \<Longrightarrow> l \<noteq> k \<Longrightarrow> names_call k (snd b') \<Longrightarrow> names_call k (snd b)"
  by (auto simp: build_straight_def build_single_def build_sequence_def rbind_eq_Inr Let_def dest!: copy_return_label split: if_splits)

definition returning :: "Cfg \<Rightarrow> label \<Rightarrow> bool" where
  "returning c k \<longleftrightarrow> (\<exists>t e. getInterproceduralReturnEdge c t = Inr e \<and> call_label e = Some k)"

lemma build_call_names:
  assumes b: "build_call c l i b = Inr b'" "names_call k (snd b')" "\<not> names_call k (snd b)"
  shows "returning c k"
proof -
  have "\<exists>t e. getInterproceduralReturnEdge c t = Inr e \<and> getCallLabel e = Inr k"
    using b by (auto simp: build_call_def rbind_eq_Inr dest!: copy_return_label) blast
  then show ?thesis unfolding returning_def getCallLabel_def by (auto split: option.splits)
qed

lemma build_block_names:
  assumes b: "build_block c leaders l b = Inr b'" "names_call k (snd b')" and k: "regular_instruction c k = Inr (CallInstruction x r en)"
  shows "names_call k (snd b) \<or> returning c k"
proof -
  show ?thesis
  proof (cases "l = entry_label c \<or> l = exit_label c")
    case True
    then show ?thesis using b by (auto simp: build_block_def rbind_eq_Inr Let_def split: if_splits)
  next
    case False
    then obtain i where inner: "regular_instruction c l = Inr i" using b(1) by (auto simp: build_block_def rbind_eq_Inr)
    have straight: "l \<noteq> k" if "\<not> is_call i" using that k inner by (auto simp: is_call_def)
    show ?thesis
      using False inner b straight build_straight_names [of c leaders l b b' k] build_call_names [of c l i b b' k]
      by (cases i) (auto simp: build_block_def is_call_def build_decision_def)
  qed
qed

lemma build_blocks_names:
  "build_blocks c leaders ls b = Inr b' \<Longrightarrow> names_call k (snd b') \<Longrightarrow> regular_instruction c k = Inr (CallInstruction x r en)
     \<Longrightarrow> names_call k (snd b) \<or> returning c k"
proof (induction ls arbitrary: b)
  case (Cons l ls)
  obtain b1 where b1: "build_block c leaders l b = Inr b1" "build_blocks c leaders ls b1 = Inr b'" using Cons.prems(1) by (auto simp: rbind_eq_Inr)
  show ?case using Cons.IH [OF b1(2) Cons.prems(2,3)] build_block_names [OF b1(1) _ Cons.prems(3)] by blast
qed simp

lemma new_cfg_edges: "new_cfg ty name vars cfgs vs es en ex = Inr d \<Longrightarrow> cfg_edges d = es"
  by (auto simp: new_cfg_def rbind_eq_Inr)

lemma block_graph_names:
  assumes d: "block_graph c cfgs = Inr d" and k: "regular_instruction c k = Inr (CallInstruction x r en)" "names_call k (cfg_edges d)"
  shows "returning c k"
proof -
  obtain leaders b where b: "build_blocks c leaders leaders ([], []) = Inr b" "cfg_edges d = snd b"
    using d by (auto simp: block_graph_def rbind_eq_Inr dest!: new_cfg_edges)
  then show ?thesis using build_blocks_names [OF b(1) _ k(1)] k(2) by simp
qed

end
