(* ===== verification/Ahorn_Ready.thy ===== *)
theory Ahorn_Ready
  imports Ahorn_Joins Ahorn_Ok
begin

text \<open>
  The pass that builds basic blocks succeeds on well-formed graphs.
\<close>

section \<open>When the pass succeeds\<close>

text \<open>
  Well-formed graphs: every vertex has the edges its instruction needs, they lead to
  vertices of the graph, and the graph that is called returns by an edge that names the call.
\<close>

definition returns :: "Cfg \<Rightarrow> label \<Rightarrow> bool" where
  "returns c l = (case getIntraproceduralCallToReturnEdge c l of Inl _ \<Rightarrow> False
     | Inr r \<Rightarrow> target_label r \<in> vertex_labels c
       \<and> (case getInterproceduralCallEdge c l of Inl _ \<Rightarrow> False | Inr _ \<Rightarrow> True)
       \<and> (case getInterproceduralReturnEdge c (target_label r) of Inl _ \<Rightarrow> False | Inr e \<Rightarrow> caller_name e \<noteq> None \<and> call_label e \<noteq> None))"

definition ready_at :: "Cfg \<Rightarrow> label \<times> Vertex \<Rightarrow> bool" where
  "ready_at c p \<longleftrightarrow>
     (case vx_type (snd p) of
        ENTRY \<Rightarrow> length (getOutgoingEdges c (fst p)) = 1 \<and> set (getSucceedingLabels c (fst p)) \<subseteq> vertex_labels c
      | EXIT \<Rightarrow> getOutgoingEdges c (fst p) = []
      | REGULAR \<Rightarrow> (case vx_instruction (snd p) of None \<Rightarrow> False
          | Some i \<Rightarrow> \<not> is_goto i \<and> \<not> is_sequence i
            \<and> (is_assignment i \<or> is_havoc i \<longrightarrow> length (getOutgoingEdges c (fst p)) = 1 \<and> set (getSucceedingLabels c (fst p)) \<subseteq> vertex_labels c)
            \<and> (is_if i \<or> is_while i \<longrightarrow> length (getOutgoingEdges c (fst p)) = 2 \<and> set (getSucceedingLabels c (fst p)) \<subseteq> vertex_labels c)
            \<and> (is_call i \<longrightarrow> returns c (fst p))))"

definition ready_graph :: "Cfg \<Rightarrow> bool" where
  "ready_graph c \<longleftrightarrow> plain_graph c \<and> (\<forall>p \<in> set (label_to_vertex c). ready_at c p)"

lemma ready_vertex: "ready_graph c \<Longrightarrow> map_of (label_to_vertex c) l = Some v \<Longrightarrow> ready_at c (l, v)"
  by (auto simp: ready_graph_def dest: map_of_SomeD)

lemma succeeding_length: "length (getSucceedingLabels c l) = length (getOutgoingEdges c l)"
  by (simp add: getSucceedingLabels_def)

lemma ready_leaders_at:
  assumes "plain_at c p" "ready_at c p" "fst p \<in> vertex_labels c"
  shows "\<exists>new. vertex_leaders c (snd p) = Inr new \<and> set new \<subseteq> vertex_labels c"
proof -
  have l: "vx_label (snd p) = fst p" using assms(1) by (simp add: plain_at_def)
  show ?thesis
  proof (cases "vx_type (snd p)")
    case ENTRY
    then have "length (getSucceedingLabels c (fst p)) = 1" "set (getSucceedingLabels c (fst p)) \<subseteq> vertex_labels c"
      using assms(2) by (simp_all add: ready_at_def succeeding_length)
    then show ?thesis using ENTRY assms(3) l
      by (cases "getSucceedingLabels c (fst p)") (auto simp: vertex_leaders_def)
  next
    case EXIT
    then show ?thesis using assms(3) l by (simp add: vertex_leaders_def)
  next
    case REGULAR
    then obtain i where i: "vx_instruction (snd p) = Some i" using assms(2) by (auto simp: ready_at_def split: option.splits)
    note r = assms(2) [unfolded ready_at_def REGULAR i, simplified]
    show ?thesis
    proof (cases i)
      case CallInstruction
      then have "returns c (fst p)" using r by (simp add: is_call_def)
      then show ?thesis using REGULAR i l CallInstruction
        by (auto simp: vertex_leaders_def returns_def split: sum.splits)
    qed (use r REGULAR i l assms(3) in \<open>auto simp: vertex_leaders_def Let_def succeeding_length is_call_def is_if_def is_while_def is_sequence_def\<close>)
  qed
qed

lemma determine_leaders_succeeds:
  "\<forall>v \<in> set vs. vx_label v \<in> vertex_labels c \<and> (\<exists>new. vertex_leaders c v = Inr new \<and> set new \<subseteq> vertex_labels c) \<Longrightarrow> set ls \<subseteq> vertex_labels c
     \<Longrightarrow> \<exists>ls'. determine_leaders c vs ls = Inr ls' \<and> set ls' \<subseteq> vertex_labels c"
proof (induction vs arbitrary: ls)
  case (Cons v vs)
  let ?ls = "if 1 < length (getPrecedingLabels c (vx_label v)) then insort_insert (vx_label v) ls else ls"
  obtain new where new: "vertex_leaders c v = Inr new" "set new \<subseteq> vertex_labels c" using Cons.prems(1) by auto
  have "set (fold insort_insert new ?ls) \<subseteq> vertex_labels c"
    using new(2) Cons.prems by (auto simp: fold_insort set_insort_insert)
  then show ?case using Cons.IH [of "fold insort_insert new ?ls"] Cons.prems(1) new(1) by (simp add: Let_def)
qed simp

lemma leaders_succeed:
  assumes "ready_graph c"
  obtains ls where "leaders_of c = Inr ls" "set ls \<subseteq> vertex_labels c"
proof -
  have "\<forall>v \<in> set (map snd (label_to_vertex c)). vx_label v \<in> vertex_labels c \<and> (\<exists>new. vertex_leaders c v = Inr new \<and> set new \<subseteq> vertex_labels c)"
  proof
    fix v assume "v \<in> set (map snd (label_to_vertex c))"
    then obtain p where p: "p \<in> set (label_to_vertex c)" "v = snd p" by auto
    have "plain_at c p" "ready_at c p" using assms p(1) by (auto simp: ready_graph_def plain_graph_def)
    then show "vx_label v \<in> vertex_labels c \<and> (\<exists>new. vertex_leaders c v = Inr new \<and> set new \<subseteq> vertex_labels c)"
      using ready_leaders_at [of c p] p by (simp add: plain_at_def vertex_labels_def)
  qed
  from determine_leaders_succeeds [OF this, of "[]"] that show thesis by (auto simp: leaders_of_def)
qed

text \<open>
  Vertices that lead no block are regular, hold an instruction and are no loops.
\<close>

lemma ready_inner:
  assumes "ready_graph c" "leads_blocks c ls" "l \<in> vertex_labels c" "l \<notin> set ls"
  obtains i where "regular_instruction c l = Inr i" "\<not> is_goto i" "\<not> is_sequence i" "\<not> is_while i"
proof -
  obtain v where v: "map_of (label_to_vertex c) l = Some v" using assms(3) by (auto simp: vertex_labels_map_of)
  have p: "vx_label v = l" using plain_vertex_at [OF _ v] assms(1) by (simp add: ready_graph_def plain_at_def)
  obtain new where new: "vertex_leaders c v = Inr new" "set new \<subseteq> set ls" using assms(2) v unfolding leads_blocks_def by blast
  then have no: "l \<notin> set new" using assms(4) by blast
  have ty: "vx_type v = REGULAR"
    using new(1) no p by (cases "vx_type v") (auto simp: vertex_leaders_def Let_def rbind_eq_Inr)
  then obtain i where i: "vx_instruction v = Some i" using ready_vertex [OF assms(1) v] by (auto simp: ready_at_def split: option.splits)
  have "\<not> is_while i" using new(1) no p ty i by (auto simp: vertex_leaders_def Let_def is_while_def split: Instruction.splits)
  moreover have "\<not> is_goto i" "\<not> is_sequence i" using ready_vertex [OF assms(1) v] ty i by (simp_all add: ready_at_def)
  ultimately show thesis using that v ty i by (simp add: regular_instruction_Inr)
qed

lemma ready_simple:
  assumes "ready_graph c" "simple_at c l"
  obtains b where "getSucceedingLabels c l = [b]" "b \<in> vertex_labels c"
proof -
  obtain i v where v: "map_of (label_to_vertex c) l = Some v" "vx_type v = REGULAR" "vx_instruction v = Some i" "is_assignment i \<or> is_havoc i"
    using assms(2) by (auto simp: simple_at_def regular_instruction_Inr)
  have "length (getSucceedingLabels c l) = 1" "set (getSucceedingLabels c l) \<subseteq> vertex_labels c"
    using ready_vertex [OF assms(1) v(1)] v(2-4) by (simp_all add: ready_at_def succeeding_length)
  then show thesis using that by (cases "getSucceedingLabels c l") auto
qed

lemma block_labels_no_error:
  assumes g: "ready_graph c" "leads_blocks c ls"
  shows "block_labels c' ls' bs succeeding = Some r \<Longrightarrow> c' = c \<Longrightarrow> ls' = ls \<Longrightarrow> succeeding = getSucceedingLabels c (last bs)
     \<Longrightarrow> bs \<noteq> [] \<Longrightarrow> simple_at c (last bs) \<Longrightarrow> \<exists>bs'. r = Inr bs'"
proof (induction rule: block_labels.raw_induct [rotated, consumes 1, case_names loop])
  case (loop f c' ls' bs succeeding r)
  obtain b where b: "getSucceedingLabels c (last bs) = [b]" "b \<in> vertex_labels c" by (rule ready_simple [OF g(1) loop.prems(5)])
  note step = loop.hyps [unfolded loop.prems(1-3) b(1)]
  show ?case
  proof (cases "b \<in> set ls")
    case False
    obtain i where i: "regular_instruction c b = Inr i" "\<not> is_goto i" "\<not> is_sequence i" "\<not> is_while i"
      by (rule ready_inner [OF g b(2) False])
    show ?thesis
    proof (cases "is_if i \<or> is_call i")
      case no: False
      then have "f c ls (bs @ [b]) (getSucceedingLabels c b) = Some r" using step False i by simp
      moreover have "simple_at c b" using i no no_events_type [of i] by (auto simp: simple_at_def)
      ultimately show ?thesis using loop.IH [of c ls "bs @ [b]"] by simp
    qed (use step False i in auto)
  qed (use step in auto)
qed

lemma ready_parts:
  assumes "ready_graph c" "regular_instruction c l = Inr i"
  obtains v where "map_of (label_to_vertex c) l = Some v" "vx_label v = l" "getVertex c l = Inr v" "vx_instruction v = Some i"
    "\<not> is_goto i" "\<not> is_sequence i" "is_call i \<Longrightarrow> returns c l"
    "is_assignment i \<or> is_havoc i \<Longrightarrow> length (getOutgoingEdges c l) = 1"
proof -
  obtain v where v: "map_of (label_to_vertex c) l = Some v" "vx_type v = REGULAR" "vx_instruction v = Some i"
    using assms(2) by (auto simp: regular_instruction_Inr)
  have "vx_label v = l" using plain_vertex_at [OF _ v(1)] assms(1) by (simp add: ready_graph_def plain_at_def)
  then show thesis using that v ready_vertex [OF assms(1) v(1)] by (auto simp: ready_at_def getVertex_def)
qed

lemma returnsE:
  assumes "returns c l"
  obtains r call e n k where "getIntraproceduralCallToReturnEdge c l = Inr r" "getInterproceduralCallEdge c l = Inr call"
    "getInterproceduralReturnEdge c (target_label r) = Inr e" "caller_name e = Some n" "call_label e = Some k"
  using assms by (auto simp: returns_def split: sum.splits)

lemma copy_return_edge_Inr: "caller_name e = Some n \<Longrightarrow> \<exists>e'. copy_return_edge k e = Inr e'"
  by (simp add: copy_return_edge_def getCallerName_def make_return_edge_def)

lemma instructions_at_succeeds: "\<forall>b \<in> set bs. \<exists>i. regular_instruction c b = Inr i \<Longrightarrow> \<exists>is. instructions_at c bs = Inr is"
  by (induction bs) (auto simp: regular_instruction_Inr getVertex_def)

lemma sequence_succeeds:
  assumes g: "ready_graph c" and b: "block_of c L l bs"
  shows "\<exists>b'. build_sequence c l bs b = Inr b'"
proof -
  have "bs \<noteq> []" using b by (auto simp: block_of_def)
  then obtain i where i: "regular_instruction c (last bs) = Inr i" using block_regular [OF b, of "last bs"] by auto
  obtain v where v: "getVertex c (last bs) = Inr v" "vx_instruction v = Some i" "is_call i \<Longrightarrow> returns c (last bs)"
    by (rule ready_parts [OF g i]) blast
  obtain "is" where ins: "instructions_at c bs = Inr is" using instructions_at_succeeds [of bs c] block_regular [OF b] by blast
  show ?thesis
  proof (cases "is_call i")
    case True
    obtain r call e n k where e: "getIntraproceduralCallToReturnEdge c (last bs) = Inr r"
      "getInterproceduralReturnEdge c (target_label r) = Inr e" "caller_name e = Some n"
      by (rule returnsE [OF v(3) [OF True]])
    obtain e' where "copy_return_edge l e = Inr e'" using copy_return_edge_Inr [OF e(3)] by blast
    then show ?thesis using True v(1,2) ins e by (simp add: build_sequence_def Let_def)
  next
    case False
    have "is_assignment i \<or> is_havoc i \<or> is_if i" using b i False by (auto simp: block_of_def ends_at_def simple_at_def)
    then show ?thesis using False v(1,2) ins by (simp add: build_sequence_def Let_def)
  qed
qed

lemma straight_succeeds:
  assumes g: "ready_graph c" "leaders_of c = Inr ls" and l: "l \<in> set ls" "l \<in> vertex_labels c" and s: "simple_at c l"
  shows "\<exists>b'. build_straight c ls l b = Inr b'"
proof -
  have p: "plain_graph c" using g(1) by (simp add: ready_graph_def)
  note lead = leaders_lead(1) [OF p g(2)]
  obtain r where r: "block_labels c ls [l] (getSucceedingLabels c l) = Some r" using block_loop_ends [OF p g(2) l] by blast
  obtain bs where bs: "r = Inr bs" using block_labels_no_error [OF g(1) lead r] s by auto
  have b: "block_of c (set ls) l bs" using block_labels_block [OF r bs] s by simp
  show ?thesis
  proof (cases "length bs = 1")
    case True
    obtain i where i: "regular_instruction c l = Inr i" "is_assignment i \<or> is_havoc i" using s by (auto simp: simple_at_def)
    have "length (getOutgoingEdges c l) = 1" by (rule ready_parts [OF g(1) i(1)]) (use i(2) in blast)
    then have "\<exists>b'. build_single c l b = Inr b'" using i(1) by (simp add: build_single_def Let_def)
    then show ?thesis using True r bs by (simp add: build_straight_def)
  next
    case False
    then show ?thesis using sequence_succeeds [OF g(1) b, of b] r bs by (simp add: build_straight_def)
  qed
qed

lemma block_succeeds:
  assumes g: "ready_graph c" "leaders_of c = Inr ls" and l: "l \<in> set ls" "l \<in> vertex_labels c"
  shows "\<exists>b'. build_block c ls l b = Inr b'"
proof -
  obtain v where v: "map_of (label_to_vertex c) l = Some v" using l(2) by (auto simp: vertex_labels_map_of)
  have p: "(vx_type v = ENTRY) = (l = entry_label c)" "(vx_type v = EXIT) = (l = exit_label c)"
    using plain_vertex_at [OF _ v] g(1) by (simp_all add: ready_graph_def plain_at_def)
  note r = ready_vertex [OF g(1) v, unfolded ready_at_def, simplified]
  show ?thesis
  proof (cases "vx_type v")
    case ENTRY
    then have "length (getOutgoingEdges c l) = 1" using r by simp
    then show ?thesis using p ENTRY by (simp add: build_block_def Let_def)
  next
    case EXIT
    then show ?thesis using r p by (simp add: build_block_def)
  next
    case REGULAR
    then obtain i where iv: "vx_instruction v = Some i" using r by (auto split: option.splits)
    then have i: "regular_instruction c l = Inr i" using v REGULAR by (simp add: regular_instruction_Inr)
    have le: "l \<noteq> entry_label c" "l \<noteq> exit_label c" using p REGULAR by auto
    have k: "\<not> is_goto i" "\<not> is_sequence i" "is_call i \<Longrightarrow> returns c l" by (rule ready_parts [OF g(1) i]; blast)+
    have st: "\<exists>b'. build_straight c ls l b = Inr b'" if "is_assignment i \<or> is_havoc i"
      using straight_succeeds [OF g l] i that by (auto simp: simple_at_def)
    have ca: "\<exists>b'. build_call c l i b = Inr b'" if kc: "is_call i"
    proof -
      obtain ret call e n k where e: "getIntraproceduralCallToReturnEdge c l = Inr ret" "getInterproceduralCallEdge c l = Inr call"
        "getInterproceduralReturnEdge c (target_label ret) = Inr e" "caller_name e = Some n" "call_label e = Some k"
        by (rule returnsE [OF k(3) [OF kc]])
      obtain e' where "copy_return_edge k e = Inr e'" using copy_return_edge_Inr [OF e(4)] by blast
      then show ?thesis using e by (simp add: build_call_def getCallLabel_def)
    qed
    have bd: "\<exists>b'. build_decision c l i b = Inr b'" by (simp add: build_decision_def)
    show ?thesis using i le k(1,2) st ca bd
      by (cases i) (simp_all add: build_block_def is_assignment_def is_havoc_def is_call_def is_goto_def is_sequence_def)
  qed
qed

lemma blocks_succeed:
  assumes "\<And>l b. l \<in> set ks \<Longrightarrow> \<exists>b'. build_block c ls l b = Inr b'"
  shows "\<exists>b'. build_blocks c ls ks b = Inr b'"
  using assms
proof (induction ks arbitrary: b)
  case (Cons k ks)
  obtain b1 where "build_block c ls k b = Inr b1" using Cons.prems [of k b] by auto
  then show ?case using Cons.IH [of b1] Cons.prems by simp
qed simp

section \<open>Interfaces and graphs of the types used\<close>

lemma fold_make_interface: "fold (\<lambda>v. emplace (v_name v) v) vs m = fold (\<lambda>p. emplace (fst p) (snd p)) (map (\<lambda>v. (v_name v, v)) vs) m"
  by (induction vs arbitrary: m) simp_all

lemma copy_interface_ok:
  assumes "wf_names c"
  shows "sorted_map (copy_interface c)" "p \<in> set (copy_interface c) \<Longrightarrow> \<exists>v. (fst p, v) \<in> set (cfg_interface c) \<and> snd p = copy_variable v"
proof -
  let ?kvs = "map (\<lambda>v. (v_name v, v)) (map (copy_variable \<circ> snd) (cfg_interface c))"
  have e: "copy_interface c = fold (\<lambda>p. emplace (fst p) (snd p)) ?kvs []"
    by (simp only: copy_interface_def make_interface_def fold_make_interface)
  note f = fold_emplace [of "[]" ?kvs, folded e, simplified]
  show s: "sorted_map (copy_interface c)" using f(1) by simp
  assume p: "p \<in> set (copy_interface c)"
  then have "map_of (copy_interface c) (fst p) = Some (snd p)" using map_of_sorted [OF s, of "fst p" "snd p"] by simp
  then have "map_of ?kvs (fst p) = Some (snd p)" using f(2) by (simp add: comp_def)
  then have "(fst p, snd p) \<in> set ?kvs" by (rule map_of_SomeD)
  then show "\<exists>v. (fst p, v) \<in> set (cfg_interface c) \<and> snd p = copy_variable v"
    using assms by (cases c) (force simp: copy_variable_def)
qed

text \<open>
  A pass that succeeds for the graphs of the types used and keeps their names gives the new graph
  a well-formed interface.
\<close>

lemma new_callees_ok:
  "\<forall>p \<in> set ps. \<exists>d. f (snd p) = Inr d \<and> wf_names d \<and> cfg_name d = fst p \<Longrightarrow>
   \<forall>q \<in> set m. fst q = cfg_name (snd q) \<and> wf_names (snd q) \<Longrightarrow>
   \<exists>cfgs. new_callees (map (\<lambda>p. f (snd p)) ps) m = Inr cfgs \<and> fst ` set cfgs = fst ` set ps \<union> fst ` set m
     \<and> (\<forall>q \<in> set cfgs. fst q = cfg_name (snd q) \<and> wf_names (snd q))"
proof (induction ps arbitrary: m)
  case (Cons p ps)
  obtain d where d: "f (snd p) = Inr d" "wf_names d" "cfg_name d = fst p" using Cons.prems(1) by auto
  have sub: "set (emplace k v m) \<subseteq> insert (k, v) (set m)" for k v and m :: "(string, Cfg) std_map"
    by (induction k v m rule: emplace.induct) auto
  have "\<forall>q \<in> set (emplace (cfg_name d) d m). fst q = cfg_name (snd q) \<and> wf_names (snd q)"
    using sub [of "cfg_name d" d m] Cons.prems(2) d(2) by fastforce
  from Cons.IH [OF _ this] Cons.prems(1) obtain cfgs where
    "new_callees (map (\<lambda>p. f (snd p)) ps) (emplace (cfg_name d) d m) = Inr cfgs"
    "fst ` set cfgs = fst ` set ps \<union> fst ` set (emplace (cfg_name d) d m)"
    "\<forall>q \<in> set cfgs. fst q = cfg_name (snd q) \<and> wf_names (snd q)" by auto
  then show ?case using d keys_emplace [of "cfg_name d" d m] by auto
qed simp

lemma wf_names_variable:
  assumes "wf_names c" "(x, v) \<in> set (cfg_interface c)"
  shows "v_name v = x" "plain x" "case v_type v of Derived t \<Rightarrow> t \<in> fst ` set (name_to_cfg c) | _ \<Rightarrow> True"
proof -
  obtain ty name vars cfgs vertices edges en ex where c: "c = Cfg ty name vars cfgs vertices edges en ex" by (cases c)
  have "\<forall>p \<in> set vars. v_name (snd p) = fst p \<and> plain (fst p) \<and> (case v_type (snd p) of Derived t \<Rightarrow> t \<in> fst ` set cfgs | _ \<Rightarrow> True)"
    using assms(1) unfolding c wf_names.simps by (elim conjE)
  from bspec [OF this, of "(x, v)"] show "v_name v = x" "plain x" "case v_type v of Derived t \<Rightarrow> t \<in> fst ` set (name_to_cfg c) | _ \<Rightarrow> True"
    using assms(2) unfolding c Cfg.sel by simp_all
qed

lemma copied_names:
  assumes "wf_names c" "fst ` set cfgs = fst ` set (name_to_cfg c)" "\<forall>q \<in> set cfgs. fst q = cfg_name (snd q) \<and> wf_names (snd q)"
  shows "wf_names (Cfg ty name (copy_interface c) cfgs vs es en ex)"
proof -
  have "v_name (snd p) = fst p \<and> plain (fst p) \<and> (case v_type (snd p) of Derived t \<Rightarrow> t \<in> fst ` set cfgs | _ \<Rightarrow> True)"
    if pc: "p \<in> set (copy_interface c)" for p
  proof -
    obtain v where v: "(fst p, v) \<in> set (cfg_interface c)" "snd p = copy_variable v"
      using copy_interface_ok(2) [OF assms(1) pc] by blast
    note w = wf_names_variable [OF assms(1) v(1), folded assms(2)]
    show ?thesis using w v(2) by (cases "v_type v") (simp_all add: copy_variable_def)
  qed
  then show ?thesis using copy_interface_ok(1) [OF assms(1)] assms(3) by simp
qed

lemma new_cfg_succeeds:
  assumes "wf_names (Cfg ty name vars cfgs vs es en ex)"
  shows "new_cfg ty name vars cfgs vs es en ex = Inr (Cfg ty name vars cfgs vs es en ex)"
  using wf_names_flat [OF assms] by (simp add: new_cfg_def flat_ok_def del: flattened_interface.simps)

lemma basic_block_pass_succeeds:
  "wf_names c \<Longrightarrow> \<forall>d \<in> set (parts c). ready_graph d \<Longrightarrow> \<exists>d. basic_block_pass c = Inr d \<and> wf_names d \<and> cfg_name d = cfg_name c
     \<and> entry_label c \<in> vertex_labels d"
proof (induction c)
  case (Cfg ty name vars cfgs vertices edges en ex)
  let ?c = "Cfg ty name vars cfgs vertices edges en ex"
  have "\<forall>p \<in> set cfgs. \<exists>d. basic_block_pass (snd p) = Inr d \<and> wf_names d \<and> cfg_name d = fst p"
  proof
    fix p assume p: "p \<in> set cfgs"
    then have a: "wf_names (snd p)" "cfg_name (snd p) = fst p" "\<forall>d \<in> set (parts (snd p)). ready_graph d" using Cfg.prems by auto
    have "snd p \<in> Basic_BNFs.snds p" by (cases p) simp
    then show "\<exists>d. basic_block_pass (snd p) = Inr d \<and> wf_names d \<and> cfg_name d = fst p" using Cfg.IH [OF p _ a(1,3)] a(2) by auto
  qed
  from new_callees_ok [OF this, of "[]"] obtain ds where ds: "new_callees (map (\<lambda>p. basic_block_pass (snd p)) cfgs) [] = Inr ds"
    "fst ` set ds = fst ` set cfgs" "\<forall>q \<in> set ds. fst q = cfg_name (snd q) \<and> wf_names (snd q)" by auto
  have g: "ready_graph ?c" using Cfg.prems(2) by simp
  obtain ls where ls: "leaders_of ?c = Inr ls" "set ls \<subseteq> vertex_labels ?c" by (rule leaders_succeed [OF g])
  obtain b where b: "build_blocks ?c ls ls ([], []) = Inr b"
    using blocks_succeed [of ls ?c ls] block_succeeds [OF g ls(1)] ls(2) by blast
  let ?d = "Cfg ty name (copy_interface ?c) ds (fst b) (snd b) en ex"
  have wf: "wf_names ?d" by (rule copied_names [OF Cfg.prems(1) _ ds(3)]) (simp add: ds(2))
  have d: "block_graph ?c ds = Inr ?d"
    using ls(1) b new_cfg_succeeds [OF wf] by (simp add: block_graph_def leaders_of_def case_prod_beta)
  have p: "plain_graph ?c" using g by (simp add: ready_graph_def)
  have "en \<in> fst ` set vertices" using p by (simp add: plain_graph_def)
  then obtain v where v: "map_of vertices en = Some v" by (metis map_of_eq_None_iff option.exhaust)
  then have "plain_at ?c (en, v)" using plain_vertex_at [OF p, of en] by simp
  then have v: "map_of vertices en = Some v" "vx_type v = ENTRY" "vx_label v = en" using v by (simp_all add: plain_at_def)
  obtain new where new: "vertex_leaders ?c v = Inr new" "set new \<subseteq> set ls"
    using leaders_lead(1) [OF p ls(1)] v(1) unfolding leads_blocks_def by (metis Cfg.sel(5))
  have "en \<in> set new" using new(1) v(2,3) by (auto simp: vertex_leaders_def Let_def rbind_eq_Inr)
  then have "en \<in> set ls" using new(2) by blast
  moreover have "vertex_labels ?d = set ls"
    using made_blocks [OF p leaders_lead(1) [OF p ls(1)] b] leaders_lead(2) [OF p ls(1)] vertex_labels_map_of [of _ ?d] by (auto split: if_splits)
  ultimately show ?case using ds(1) d wf by simp
qed

end
