(* ===== verification/Ahorn_Modules.thy ===== *)
theory Ahorn_Modules
  imports Ahorn_Build Ahorn_Ready
begin

text \<open>
  The graph the builder makes of a well-formed module: its vertices, and the edges out of each.
\<close>

section \<open>Well-formed modules\<close>

text \<open>
  The labels of a module: its entry, its exit and those of its instructions, except jumps.
\<close>

definition module_labels :: "Module \<Rightarrow> label set" where
  "module_labels m = insert (mod_entry m) (insert (mod_exit m) (fst ` {p \<in> set (mod_instructions m). \<not> is_goto (snd p)}))"

fun targets :: "Instruction \<Rightarrow> label set" where
  "targets (CallInstruction x here callee) = {here}"
| "targets (IfInstruction e t f) = {t, f}"
| "targets (WhileInstruction e t f) = {t, f}"
| "targets (GotoInstruction t) = {t}"
| "targets _ = {}"

text \<open>
  As the compiler makes them: each assignment, and nothing else, has a jump behind it, everything leads
  to labels of the module, and the types called have graphs whose exits are no labels of the module.
\<close>

definition ready_module :: "(string, Cfg) std_map \<Rightarrow> Module \<Rightarrow> bool" where
  "ready_module cfgs m \<longleftrightarrow> sorted_map (mod_instructions m)
     \<and> mod_entry m \<notin> fst ` set (mod_instructions m) \<and> mod_exit m \<notin> fst ` set (mod_instructions m)
     \<and> mod_entry m \<noteq> mod_exit m \<and> mod_entry m + 1 \<in> module_labels m
     \<and> (\<forall>p \<in> set (mod_instructions m). \<not> is_sequence (snd p) \<and> targets (snd p) \<subseteq> module_labels m
          \<and> (is_assignment (snd p) \<or> is_havoc (snd p) \<longrightarrow> (\<exists>j \<in> set (mod_instructions m). fst j = fst p + 1 \<and> is_goto (snd j)))
          \<and> (is_goto (snd p) \<longrightarrow> (\<exists>j \<in> set (mod_instructions m). fst j = fst p - 1 \<and> (is_assignment (snd j) \<or> is_havoc (snd j))))
          \<and> (case snd p of CallInstruction x _ _ \<Rightarrow>
               (case cfg_of_type cfgs (v_type x) of Inr d \<Rightarrow> exit_label d \<notin> module_labels m | Inl _ \<Rightarrow> False) | _ \<Rightarrow> True))"

section \<open>Edges of a module\<close>

definition return_edge :: "label \<Rightarrow> label \<Rightarrow> string \<Rightarrow> label \<Rightarrow> Edge" where
  "return_edge s t name l = \<lparr>source_label = s, target_label = t, edge_type = INTERPROCEDURAL_RETURN, caller_name = Some name, call_label = Some l\<rparr>"

fun edges_of :: "string \<Rightarrow> (string, Cfg) std_map \<Rightarrow> label \<times> Instruction \<Rightarrow> Edge list" where
  "edges_of name cfgs (l, CallInstruction x here callee) =
     (case cfg_of_type cfgs (v_type x) of Inl _ \<Rightarrow> []
      | Inr d \<Rightarrow> [make_edge l callee INTERPROCEDURAL_CALL, make_edge l here INTRAPROCEDURAL_CALL_TO_RETURN, return_edge (exit_label d) here name l])"
| "edges_of name cfgs (l, IfInstruction e t f) = [make_edge l t TRUE_BRANCH, make_edge l f FALSE_BRANCH]"
| "edges_of name cfgs (l, WhileInstruction e t f) = [make_edge l t TRUE_BRANCH, make_edge l f FALSE_BRANCH]"
| "edges_of name cfgs (l, GotoInstruction t) = [make_edge (l - 1) t INTRAPROCEDURAL]"
| "edges_of name cfgs (l, _) = []"

definition callable :: "(string, Cfg) std_map \<Rightarrow> Instruction \<Rightarrow> bool" where
  "callable cfgs i \<longleftrightarrow> \<not> is_sequence i \<and> (case i of CallInstruction x _ _ \<Rightarrow> (case cfg_of_type cfgs (v_type x) of Inr _ \<Rightarrow> True | Inl _ \<Rightarrow> False) | _ \<Rightarrow> True)"

lemma visit_instruction_ok:
  assumes "callable cfgs i"
  shows "visit_instruction name cfgs l i b = Inr (if is_goto i then fst b else set_instruction l i (fst b), snd b @ edges_of name cfgs (l, i))"
proof (cases i)
  case (CallInstruction x here callee)
  then obtain d where "cfg_of_type cfgs (v_type x) = Inr d" using assms by (auto simp: callable_def split: sum.splits)
  then show ?thesis using CallInstruction
    by (simp add: visit_instruction_def Let_def make_return_edge_def return_edge_def is_goto_def)
qed (use assms in \<open>simp_all add: visit_instruction_def Let_def is_goto_def callable_def is_sequence_def\<close>)

lemma set_instruction_at:
  assumes "sorted_map vs"
  shows "sorted_map (set_instruction l i vs)"
    and "map_of vs l = None \<Longrightarrow> map_of (set_instruction l i vs) k = (if k = l then Some (instruction_vertex l i) else map_of vs k)"
proof -
  let ?f = "\<lambda>k v. if k = l then v\<lparr>vx_instruction := Some i\<rparr> else v"
  have e: "set_instruction l i vs = map (\<lambda>(k, v). (k, ?f k v)) (emplace l (plain_vertex l REGULAR) vs)"
    by (simp add: set_instruction_def)
  have "map fst (set_instruction l i vs) = map fst (emplace l (plain_vertex l REGULAR) vs)" unfolding e by auto
  then show "sorted_map (set_instruction l i vs)" using sorted_emplace [OF assms] by simp
  have m: "map_of (map (\<lambda>(k, v). (k, ?f k v)) ps) k = map_option (?f k) (map_of ps k)" for ps by (induction ps) auto
  show "map_of (set_instruction l i vs) k = (if k = l then Some (instruction_vertex l i) else map_of vs k)" if "map_of vs l = None"
    unfolding e m using that assms by (simp add: map_of_emplace plain_vertex_def instruction_vertex_def option.map_ident)
qed

lemma visit_instructions_ok:
  "\<forall>p \<in> set ps. callable cfgs (snd p) \<Longrightarrow> distinct (map fst ps) \<Longrightarrow> \<forall>p \<in> set ps. map_of vs (fst p) = None \<Longrightarrow> sorted_map vs \<Longrightarrow>
     \<exists>vs'. visit_instructions name cfgs ps (vs, es) = Inr (vs', es @ concat (map (edges_of name cfgs) ps)) \<and> sorted_map vs'
       \<and> (\<forall>k. map_of vs' k = (case map_of ps k of None \<Rightarrow> map_of vs k | Some i \<Rightarrow> if is_goto i then map_of vs k else Some (instruction_vertex k i)))"
proof (induction ps arbitrary: vs es)
  case (Cons p ps)
  obtain l i where p: "p = (l, i)" by (cases p)
  let ?vs = "if is_goto i then vs else set_instruction l i vs"
  have one: "visit_instruction name cfgs l i (vs, es) = Inr (?vs, es @ edges_of name cfgs (l, i))"
    using visit_instruction_ok [of cfgs i name l "(vs, es)"] Cons.prems(1) p by simp
  have vs: "sorted_map ?vs" "\<And>k. map_of ?vs k = (if \<not> is_goto i \<and> k = l then Some (instruction_vertex l i) else map_of vs k)"
    using set_instruction_at [of vs l i] Cons.prems(3,4) p by auto
  have "\<forall>q \<in> set ps. map_of ?vs (fst q) = None" using Cons.prems(2,3) vs(2) p by (auto simp: rev_image_eqI)
  from Cons.IH [OF _ _ this vs(1), of "es @ edges_of name cfgs (l, i)"] Cons.prems(1,2) obtain vs' where
    i': "visit_instructions name cfgs ps (?vs, es @ edges_of name cfgs (l, i)) = Inr (vs', (es @ edges_of name cfgs (l, i)) @ concat (map (edges_of name cfgs) ps))"
    "sorted_map vs'" "\<forall>k. map_of vs' k = (case map_of ps k of None \<Rightarrow> map_of ?vs k | Some i \<Rightarrow> if is_goto i then map_of ?vs k else Some (instruction_vertex k i))"
    by auto
  have "map_of ps l = None" using Cons.prems(2) p by (simp add: map_of_eq_None_iff)
  then have "\<forall>k. map_of vs' k = (case map_of (p # ps) k of None \<Rightarrow> map_of vs k | Some i \<Rightarrow> if is_goto i then map_of vs k else Some (instruction_vertex k i))"
    using i'(3) vs(2) Cons.prems(3) p by (auto split: option.splits)
  then show ?case using i'(1,2) one p by simp
qed simp

lemma concat_single:
  assumes "(k, x) \<in> set ps" "distinct (map fst ps)" "\<And>p. p \<in> set ps \<Longrightarrow> fst p \<noteq> k \<Longrightarrow> f p = []"
  shows "concat (map f ps) = f (k, x)"
  using assms
proof (induction ps)
  case (Cons p ps)
  show ?case
  proof (cases "p = (k, x)")
    case True
    then have "\<forall>q \<in> set ps. f q = []" using Cons.prems(2,3) by force
    then have "concat (map f ps) = []" by simp
    then show ?thesis using True by simp
  next
    case False
    then have kx: "(k, x) \<in> set ps" using Cons.prems(1) by simp
    then have "k \<in> fst ` set ps" by (rule rev_image_eqI) simp
    then have "fst p \<noteq> k" using Cons.prems(2) by auto
    with kx show ?thesis using Cons by simp
  qed
qed simp

section \<open>The graph of a module\<close>

text \<open>Vertices, edges and labels of the graph of a well-formed module.\<close>

definition graph_of :: "Module \<Rightarrow> (string, Cfg) std_map \<Rightarrow> Cfg \<Rightarrow> bool" where
  "graph_of m cfgs c \<longleftrightarrow> sorted_map (label_to_vertex c) \<and> entry_label c = mod_entry m \<and> exit_label c = mod_exit m
     \<and> cfg_edges c = make_edge (mod_entry m) (mod_entry m + 1) INTRAPROCEDURAL # concat (map (edges_of (mod_name m) cfgs) (mod_instructions m))
     \<and> (\<forall>k. map_of (label_to_vertex c) k =
          (case map_of (mod_instructions m) k of
             Some i \<Rightarrow> if is_goto i then None else Some (instruction_vertex k i)
           | None \<Rightarrow> if k = mod_entry m then Some (plain_vertex k ENTRY) else if k = mod_exit m then Some (plain_vertex k EXIT) else None))"

lemma ready_module_at:
  assumes "ready_module cfgs m" "(k, i) \<in> set (mod_instructions m)"
  shows "\<not> is_sequence i" "targets i \<subseteq> module_labels m"
    "is_assignment i \<or> is_havoc i \<Longrightarrow> \<exists>j. (k + 1, j) \<in> set (mod_instructions m) \<and> is_goto j"
    "is_goto i \<Longrightarrow> \<exists>j. (k - 1, j) \<in> set (mod_instructions m) \<and> (is_assignment j \<or> is_havoc j)"
    "i = CallInstruction x here callee \<Longrightarrow> \<exists>d. cfg_of_type cfgs (v_type x) = Inr d \<and> exit_label d \<notin> module_labels m"
proof -
  have "\<forall>p \<in> set (mod_instructions m). \<not> is_sequence (snd p) \<and> targets (snd p) \<subseteq> module_labels m
          \<and> (is_assignment (snd p) \<or> is_havoc (snd p) \<longrightarrow> (\<exists>j \<in> set (mod_instructions m). fst j = fst p + 1 \<and> is_goto (snd j)))
          \<and> (is_goto (snd p) \<longrightarrow> (\<exists>j \<in> set (mod_instructions m). fst j = fst p - 1 \<and> (is_assignment (snd j) \<or> is_havoc (snd j))))
          \<and> (case snd p of CallInstruction x _ _ \<Rightarrow>
               (case cfg_of_type cfgs (v_type x) of Inr d \<Rightarrow> exit_label d \<notin> module_labels m | Inl _ \<Rightarrow> False) | _ \<Rightarrow> True)"
    using assms(1) unfolding ready_module_def by (elim conjE)
  note w = bspec [OF this assms(2), unfolded fst_conv snd_conv]
  show "\<not> is_sequence i" "targets i \<subseteq> module_labels m"
    "is_assignment i \<or> is_havoc i \<Longrightarrow> \<exists>j. (k + 1, j) \<in> set (mod_instructions m) \<and> is_goto j"
    "is_goto i \<Longrightarrow> \<exists>j. (k - 1, j) \<in> set (mod_instructions m) \<and> (is_assignment j \<or> is_havoc j)"
    using w by force+
  show "i = CallInstruction x here callee \<Longrightarrow> \<exists>d. cfg_of_type cfgs (v_type x) = Inr d \<and> exit_label d \<notin> module_labels m"
    using w by (auto split: sum.splits)
qed

lemma ready_module_keys:
  assumes "ready_module cfgs m"
  shows "sorted_map (mod_instructions m)" "distinct (map fst (mod_instructions m))" "mod_entry m \<notin> fst ` set (mod_instructions m)"
    "mod_exit m \<notin> fst ` set (mod_instructions m)" "mod_entry m \<noteq> mod_exit m" "mod_entry m + 1 \<in> module_labels m"
  using assms by (simp_all add: ready_module_def strict_sorted_iff)

lemma ready_callable:
  assumes "ready_module cfgs m" "p \<in> set (mod_instructions m)"
  shows "callable cfgs (snd p)"
proof -
  obtain k i where p: "p = (k, i)" by (cases p)
  note w = ready_module_at [OF assms(1), of k i]
  show ?thesis
  proof (cases i)
    case (CallInstruction x here callee)
    obtain d where "cfg_of_type cfgs (v_type x) = Inr d" using w(5) [OF _ CallInstruction] assms(2) p by blast
    then show ?thesis using CallInstruction p by (simp add: callable_def is_sequence_def)
  qed (use w(1) assms(2) p in \<open>simp_all add: callable_def\<close>)
qed

lemma build_graph_parts:
  assumes r: "ready_module cfgs m" and b: "build_graph m own cfgs = Inr c"
  shows "graph_of m cfgs c"
proof -
  let ?is = "mod_instructions m"
  obtain vs0 es0 where i: "initial_parts m = (vs0, es0)" by (cases "initial_parts m")
  note so = ready_module_keys(1,2) [OF r] and ne = ready_module_keys(5) [OF r] and no = ready_module_keys(3,4) [OF r]
  have v0: "sorted_map vs0" "\<And>k. map_of vs0 k = (if k = mod_entry m then Some (plain_vertex k ENTRY) else if k = mod_exit m then Some (plain_vertex k EXIT) else None)"
    "es0 = [make_edge (mod_entry m) (mod_entry m + 1) INTRAPROCEDURAL]"
    using i ne by (auto simp: initial_parts_def map_of_emplace sorted_emplace)
  have "\<forall>p \<in> set ?is. callable cfgs (snd p)" using ready_callable [OF r] by blast
  moreover have "\<forall>p \<in> set ?is. map_of vs0 (fst p) = None" using no v0(2) by (auto simp: rev_image_eqI)
  ultimately obtain vs where vs: "visit_instructions (mod_name m) cfgs ?is (vs0, es0) = Inr (vs, es0 @ concat (map (edges_of (mod_name m) cfgs) ?is))" "sorted_map vs"
    "\<forall>k. map_of vs k = (case map_of ?is k of None \<Rightarrow> map_of vs0 k | Some i \<Rightarrow> if is_goto i then map_of vs0 k else Some (instruction_vertex k i))"
    using visit_instructions_ok [of ?is cfgs vs0 "mod_name m" es0] so(2) v0(1) by blast
  have "map_of vs k = (case map_of ?is k of Some i \<Rightarrow> if is_goto i then None else Some (instruction_vertex k i) | None \<Rightarrow> map_of vs0 k)" for k
    using vs(3) no v0(2) by (auto split: option.splits dest!: map_of_SomeD simp: rev_image_eqI)
  note at = this [unfolded v0(2)]
  have "c = Cfg (mod_kind m) (mod_name m) (make_interface (map snd (mod_interface m))) own vs (es0 @ concat (map (edges_of (mod_name m) cfgs) ?is)) (mod_entry m) (mod_exit m)"
    using b i vs(1) by (auto simp: build_graph_def new_cfg_def Let_def rbind_eq_Inr)
  then show ?thesis using at vs(2) v0(3) by (simp add: graph_of_def)
qed

lemma graph_labels:
  assumes r: "ready_module cfgs m" and g: "graph_of m cfgs c"
  shows "vertex_labels c = module_labels m"
proof -
  note so = ready_module_keys(2) [OF r] and no = ready_module_keys(3,4) [OF r]
  then have none: "map_of (mod_instructions m) (mod_entry m) = None" "map_of (mod_instructions m) (mod_exit m) = None" by (simp_all add: map_of_eq_None_iff)
  have key: "k \<in> fst ` {p \<in> set (mod_instructions m). \<not> is_goto (snd p)} \<longleftrightarrow> (\<exists>i. map_of (mod_instructions m) k = Some i \<and> \<not> is_goto i)" for k
    using so by (force simp: map_of_eq_Some_iff)
  have "k \<in> vertex_labels c \<longleftrightarrow> k \<in> module_labels m" for k
    using g none unfolding vertex_labels_map_of module_labels_def insert_iff key by (auto simp: graph_of_def split: option.splits)
  then show ?thesis by blast
qed

lemma graph_instruction:
  assumes r: "ready_module cfgs m" and g: "graph_of m cfgs c"
  shows "regular_instruction c l = Inr i \<longleftrightarrow> (l, i) \<in> set (mod_instructions m) \<and> \<not> is_goto i"
proof -
  have at: "map_of (label_to_vertex c) l = (case map_of (mod_instructions m) l of
      Some i \<Rightarrow> if is_goto i then None else Some (instruction_vertex l i)
    | None \<Rightarrow> if l = mod_entry m then Some (plain_vertex l ENTRY) else if l = mod_exit m then Some (plain_vertex l EXIT) else None)"
    using g unfolding graph_of_def by blast
  have k: "(l, i) \<in> set (mod_instructions m) \<longleftrightarrow> map_of (mod_instructions m) l = Some i"
    using ready_module_keys(2) [OF r] by (simp add: map_of_eq_Some_iff)
  show ?thesis
    unfolding regular_instruction_Inr at k by (auto simp: instruction_vertex_def plain_vertex_def split: option.splits)
qed

text \<open>What leads out of each vertex.\<close>

definition out_of :: "label \<Rightarrow> Edge list \<Rightarrow> Edge list" where
  "out_of l es = filter (\<lambda>e. source_label e = l) es"

lemma edge_sources:
  assumes r: "ready_module cfgs m" and p: "p \<in> set (mod_instructions m)" and e: "e \<in> set (edges_of name cfgs p)" and l: "source_label e \<in> module_labels m"
  shows "if is_goto (snd p) then source_label e = fst p - 1 else source_label e = fst p"
proof (cases p)
  case (Pair k i)
  show ?thesis
  proof (cases i)
    case (CallInstruction x here callee)
    then obtain d where d: "cfg_of_type cfgs (v_type x) = Inr d" "exit_label d \<notin> module_labels m"
      using ready_module_at(5) [OF r, of k i x here callee] p Pair by auto
    then have "e \<noteq> return_edge (exit_label d) here name k" using l by (auto simp: return_edge_def)
    then show ?thesis using e d(1) Pair CallInstruction by (auto simp: is_goto_def)
  qed (use e Pair in \<open>auto simp: is_goto_def\<close>)
qed

lemma out_concat: "out_of l (concat (map f ps)) = concat (map (\<lambda>p. out_of l (f p)) ps)"
  by (induction ps) (simp_all add: out_of_def)

lemma out_of_empty: "(\<And>e. e \<in> set es \<Longrightarrow> source_label e \<noteq> l) \<Longrightarrow> out_of l es = []"
  by (simp add: out_of_def filter_empty_conv)

text \<open>
  An instruction that is no jump gives the edges out of its own label, a jump the one out of the label in front.
\<close>

lemma graph_out:
  assumes r: "ready_module cfgs m" and g: "graph_of m cfgs c" and i: "(l, i) \<in> set (mod_instructions m)" "\<not> is_goto i"
  shows "getOutgoingEdges c l = (if is_assignment i \<or> is_havoc i
    then (case map_of (mod_instructions m) (l + 1) of Some (GotoInstruction t) \<Rightarrow> [make_edge l t INTRAPROCEDURAL] | _ \<Rightarrow> [])
    else out_of l (edges_of (mod_name m) cfgs (l, i)))"
proof -
  let ?is = "mod_instructions m"
  note so = ready_module_keys(2) [OF r]
  have l: "l \<in> module_labels m" using i by (force simp: module_labels_def)
  have le: "l \<noteq> mod_entry m" using ready_module_keys(3) [OF r] i(1) by force
  have out: "getOutgoingEdges c l = concat (map (\<lambda>p. out_of l (edges_of (mod_name m) cfgs p)) ?is)"
    using g le by (simp add: getOutgoingEdges_def graph_of_def out_of_def filter_concat comp_def)
  have src: "if is_goto (snd p) then l = fst p - 1 else l = fst p" if "p \<in> set ?is" "e \<in> set (edges_of (mod_name m) cfgs p)" "source_label e = l" for p e
    using edge_sources [OF r that(1,2)] that(3) l by (auto split: if_splits)
  show ?thesis
  proof (cases "is_assignment i \<or> is_havoc i")
    case True
    have w: "\<exists>j. (l + 1, j) \<in> set ?is \<and> is_goto j" using ready_module_at(3) [OF r i(1) True] .
    then obtain j where j: "(l + 1, j) \<in> set ?is" "is_goto j" by blast
    then obtain t where "j = GotoInstruction t" by (cases j) (simp_all add: is_goto_def)
    then have t: "(l + 1, GotoInstruction t) \<in> set ?is" using j(1) by simp
    have none: "out_of l (edges_of (mod_name m) cfgs p) = []" if p: "p \<in> set ?is" "fst p \<noteq> l + 1" for p
    proof (rule out_of_empty)
      fix e assume e: "e \<in> set (edges_of (mod_name m) cfgs p)"
      show "source_label e \<noteq> l"
      proof
        assume "source_label e = l"
        from src [OF p(1) e this] p(2) have "fst p = l" by (auto split: if_splits)
        then have "snd p = i" using p(1) i(1) so by (metis eq_key_imp_eq_value prod.collapse)
        then show False using e True \<open>fst p = l\<close> by (cases p; cases i) (auto simp: is_assignment_def is_havoc_def)
      qed
    qed
    have "getOutgoingEdges c l = out_of l (edges_of (mod_name m) cfgs (l + 1, GotoInstruction t))"
      unfolding out by (rule concat_single [OF t so none])
    then show ?thesis using True t so by (simp add: out_of_def)
  next
    case False
    have none: "out_of l (edges_of (mod_name m) cfgs p) = []" if p: "p \<in> set ?is" "fst p \<noteq> l" for p
    proof (rule out_of_empty)
      fix e assume e: "e \<in> set (edges_of (mod_name m) cfgs p)"
      show "source_label e \<noteq> l"
      proof
        assume "source_label e = l"
        from src [OF p(1) e this] p(2) have gt: "is_goto (snd p)" "fst p - 1 = l" by (auto split: if_splits)
        then obtain j where "(l, j) \<in> set ?is" "is_assignment j \<or> is_havoc j" using ready_module_at(4) [OF r, of "fst p" "snd p"] p(1) by auto
        then show False using i(1) so False by (metis eq_key_imp_eq_value)
      qed
    qed
    have "getOutgoingEdges c l = out_of l (edges_of (mod_name m) cfgs (l, i))"
      unfolding out by (rule concat_single [OF i(1) so none])
    then show ?thesis using False by simp
  qed
qed

lemma graph_ends_out:
  assumes r: "ready_module cfgs m" and g: "graph_of m cfgs c"
  shows "getOutgoingEdges c (mod_entry m) = [make_edge (mod_entry m) (mod_entry m + 1) INTRAPROCEDURAL]" "getOutgoingEdges c (mod_exit m) = []"
proof -
  have none: "out_of l (concat (map (edges_of (mod_name m) cfgs) (mod_instructions m))) = []"
    if l: "l \<in> module_labels m" "l \<notin> fst ` set (mod_instructions m)" for l
  proof (rule out_of_empty)
    fix e assume "e \<in> set (concat (map (edges_of (mod_name m) cfgs) (mod_instructions m)))"
    then obtain p where p: "p \<in> set (mod_instructions m)" "e \<in> set (edges_of (mod_name m) cfgs p)" by auto
    show "source_label e \<noteq> l"
    proof
      assume s: "source_label e = l"
      show False
      proof (cases "is_goto (snd p)")
        case True
        then obtain j where "(fst p - 1, j) \<in> set (mod_instructions m)" using ready_module_at(4) [OF r, of "fst p" "snd p"] p(1) by auto
        moreover have "l = fst p - 1" using edge_sources [OF r p] s l(1) True by simp
        ultimately show False using l(2) by force
      next
        case False
        then show False using edge_sources [OF r p] s l p(1) by auto
      qed
    qed
  qed
  have e: "cfg_edges c = make_edge (mod_entry m) (mod_entry m + 1) INTRAPROCEDURAL # concat (map (edges_of (mod_name m) cfgs) (mod_instructions m))"
    using g by (simp add: graph_of_def)
  have i: "mod_entry m \<in> module_labels m" "mod_exit m \<in> module_labels m" by (simp_all add: module_labels_def)
  show "getOutgoingEdges c (mod_entry m) = [make_edge (mod_entry m) (mod_entry m + 1) INTRAPROCEDURAL]"
    using none [OF i(1) ready_module_keys(3) [OF r]] unfolding getOutgoingEdges_def e out_of_def by simp
  show "getOutgoingEdges c (mod_exit m) = []"
    using none [OF i(2) ready_module_keys(4) [OF r]] ready_module_keys(5) [OF r] unfolding getOutgoingEdges_def e out_of_def by simp
qed

lemma find_edge_some: "e \<in> set (cfg_edges c) \<Longrightarrow> P e \<Longrightarrow> \<exists>e'. find_edge msg P c = Inr e' \<and> e' \<in> set (cfg_edges c) \<and> P e'"
proof -
  assume "e \<in> set (cfg_edges c)" "P e"
  then have "find P (cfg_edges c) \<noteq> None" by (auto simp: find_None_iff)
  then obtain e' where "find P (cfg_edges c) = Some e'" by blast
  moreover from this have "e' \<in> set (cfg_edges c) \<and> P e'" by (auto simp: find_Some_iff)
  ultimately show ?thesis by (simp add: find_edge_def)
qed

lemma graph_call:
  assumes r: "ready_module cfgs m" and g: "graph_of m cfgs c" and i: "(l, CallInstruction x here callee) \<in> set (mod_instructions m)"
  shows "getOutgoingEdges c l = [make_edge l callee INTERPROCEDURAL_CALL, make_edge l here INTRAPROCEDURAL_CALL_TO_RETURN]" "returns c l"
proof -
  let ?i = "CallInstruction x here callee"
  have ng: "\<not> is_goto ?i" by (simp add: is_goto_def)
  obtain d where d: "cfg_of_type cfgs (v_type x) = Inr d" "exit_label d \<notin> module_labels m" using ready_module_at(5) [OF r i refl] by blast
  have "l \<in> module_labels m" using i ng by (force simp: module_labels_def)
  then have "exit_label d \<noteq> l" using d(2) by blast
  then show out: "getOutgoingEdges c l = [make_edge l callee INTERPROCEDURAL_CALL, make_edge l here INTRAPROCEDURAL_CALL_TO_RETURN]"
    using graph_out [OF r g i ng] d(1) by (simp add: is_assignment_def is_havoc_def out_of_def return_edge_def)
  have reg: "regular_instruction c l = Inr ?i" using graph_instruction [OF r g, of l ?i] i ng by simp
  then obtain v where v: "map_of (label_to_vertex c) l = Some v" "vx_instruction v = Some ?i" by (auto simp: regular_instruction_Inr)
  have w: "with_instruction c l P a = (if P ?i then a else Inl Assert_Failed)" for P and a :: "'a res"
    using v by (simp add: with_instruction_def rassert_def)
  have mem: "set (edges_of (mod_name m) cfgs (l, ?i)) \<subseteq> set (cfg_edges c)"
  proof -
    have "set (edges_of (mod_name m) cfgs (l, ?i)) \<subseteq> (\<Union>p \<in> set (mod_instructions m). set (edges_of (mod_name m) cfgs p))" using i by blast
    moreover have "cfg_edges c = make_edge (mod_entry m) (mod_entry m + 1) INTRAPROCEDURAL # concat (map (edges_of (mod_name m) cfgs) (mod_instructions m))"
      using g unfolding graph_of_def by blast
    ultimately show ?thesis by auto
  qed
  have es: "make_edge l here INTRAPROCEDURAL_CALL_TO_RETURN \<in> set (cfg_edges c)" "make_edge l callee INTERPROCEDURAL_CALL \<in> set (cfg_edges c)"
    "return_edge (exit_label d) here (mod_name m) l \<in> set (cfg_edges c)"
    using mem d(1) by auto
  have k: "is_call ?i" by (simp add: is_call_def)
  obtain ret where "getIntraproceduralCallToReturnEdge c l = Inr ret \<and> ret \<in> set (cfg_edges c) \<and> source_label ret = l \<and> edge_type ret = INTRAPROCEDURAL_CALL_TO_RETURN"
    unfolding getIntraproceduralCallToReturnEdge_def w using k
      find_edge_some [OF es(1), of "\<lambda>e. source_label e = l \<and> edge_type e = INTRAPROCEDURAL_CALL_TO_RETURN"] by (simp only: edge_simps simp_thms if_True) blast
  then have ret: "getIntraproceduralCallToReturnEdge c l = Inr ret" "ret \<in> set (cfg_edges c)" "source_label ret = l" "edge_type ret = INTRAPROCEDURAL_CALL_TO_RETURN" by simp_all
  then have "ret \<in> set (getOutgoingEdges c l)" by (simp add: getOutgoingEdges_def)
  then have t: "target_label ret = here" using out ret(4) by auto
  obtain call where call: "getInterproceduralCallEdge c l = Inr call"
    unfolding getInterproceduralCallEdge_def w using k
      find_edge_some [OF es(2), of "\<lambda>e. source_label e = l \<and> edge_type e = INTERPROCEDURAL_CALL"] by (simp only: edge_simps simp_thms if_True) blast
  obtain e where "getInterproceduralReturnEdge c here = Inr e \<and> e \<in> set (cfg_edges c) \<and> target_label e = here \<and> edge_type e = INTERPROCEDURAL_RETURN"
    unfolding getInterproceduralReturnEdge_def
    using find_edge_some [OF es(3), of "\<lambda>e. target_label e = here \<and> edge_type e = INTERPROCEDURAL_RETURN"] by (simp add: return_edge_def) blast
  then have e: "getInterproceduralReturnEdge c here = Inr e" "e \<in> set (cfg_edges c)" "edge_type e = INTERPROCEDURAL_RETURN" by simp_all
  have "e \<in> set (concat (map (edges_of (mod_name m) cfgs) (mod_instructions m)))"
    using e(2,3) g by (auto simp: graph_of_def)
  then obtain p where p: "e \<in> set (edges_of (mod_name m) cfgs p)" by auto
  have "caller_name e \<noteq> None \<and> call_label e \<noteq> None"
  proof (cases p)
    case (Pair k j)
    then show ?thesis using p e(3) by (cases j) (auto simp: return_edge_def split: sum.splits)
  qed
  moreover have "here \<in> vertex_labels c" using ready_module_at(2) [OF r i] graph_labels [OF r g] by simp
  ultimately show "returns c l" using ret(1) t call e(1) by (simp add: returns_def)
qed

lemma graph_assignment:
  assumes r: "ready_module cfgs m" and g: "graph_of m cfgs c" and i: "(l, i) \<in> set (mod_instructions m)" "is_assignment i \<or> is_havoc i"
  shows "\<exists>t. getOutgoingEdges c l = [make_edge l t INTRAPROCEDURAL] \<and> t \<in> vertex_labels c"
proof -
  have ng: "\<not> is_goto i" using i(2) by (cases i) (simp_all add: is_goto_def is_assignment_def is_havoc_def)
  obtain j where j: "(l + 1, j) \<in> set (mod_instructions m)" "is_goto j" using ready_module_at(3) [OF r i] by blast
  then obtain t where t: "j = GotoInstruction t" by (cases j) (simp_all add: is_goto_def)
  have "map_of (mod_instructions m) (l + 1) = Some (GotoInstruction t)" using j(1) t ready_module_keys(2) [OF r] by simp
  moreover have "t \<in> vertex_labels c" using ready_module_at(2) [OF r j(1)] t graph_labels [OF r g] by simp
  ultimately show ?thesis using graph_out [OF r g i(1) ng] i(2) by auto
qed

lemma graph_decision:
  assumes r: "ready_module cfgs m" and g: "graph_of m cfgs c" and i: "(l, i) \<in> set (mod_instructions m)" "is_if i \<or> is_while i"
  shows "\<exists>t f. getOutgoingEdges c l = [make_edge l t TRUE_BRANCH, make_edge l f FALSE_BRANCH] \<and> t \<in> vertex_labels c \<and> f \<in> vertex_labels c"
proof -
  have k: "\<not> is_goto i" "\<not> (is_assignment i \<or> is_havoc i)"
    using i(2) by (cases i; simp add: is_goto_def is_assignment_def is_havoc_def is_if_def is_while_def)+
  have t: "targets i \<subseteq> vertex_labels c" using ready_module_at(2) [OF r i(1)] graph_labels [OF r g] by simp
  have "getOutgoingEdges c l = out_of l (edges_of (mod_name m) cfgs (l, i))" using graph_out [OF r g i(1) k(1)] k(2) by simp
  then show ?thesis using i(2) t by (cases i) (auto simp: is_if_def is_while_def out_of_def)
qed

lemma graph_vertex:
  assumes r: "ready_module cfgs m" and g: "graph_of m cfgs c" and p: "p \<in> set (label_to_vertex c)"
  shows "(\<exists>i. p = (fst p, instruction_vertex (fst p) i) \<and> (fst p, i) \<in> set (mod_instructions m) \<and> \<not> is_goto i
       \<and> fst p \<noteq> mod_entry m \<and> fst p \<noteq> mod_exit m)
     \<or> p = (mod_entry m, plain_vertex (mod_entry m) ENTRY) \<or> p = (mod_exit m, plain_vertex (mod_exit m) EXIT)"
proof -
  have at: "\<forall>k. map_of (label_to_vertex c) k = (case map_of (mod_instructions m) k of
      Some i \<Rightarrow> if is_goto i then None else Some (instruction_vertex k i)
    | None \<Rightarrow> if k = mod_entry m then Some (plain_vertex k ENTRY) else if k = mod_exit m then Some (plain_vertex k EXIT) else None)"
    and so: "sorted_map (label_to_vertex c)"
    using g unfolding graph_of_def by blast+
  have e: "map_of (label_to_vertex c) (fst p) = Some (snd p)" using map_of_sorted [OF so, of "fst p" "snd p"] p by simp
  show ?thesis
  proof (cases "map_of (mod_instructions m) (fst p)")
    case None
    then show ?thesis using e [unfolded at [rule_format]] by (cases p) (auto split: if_splits)
  next
    case (Some i)
    have "fst p \<noteq> mod_entry m" "fst p \<noteq> mod_exit m" using map_of_SomeD [OF Some] ready_module_keys(3,4) [OF r] by force+
    moreover have "\<not> is_goto i" "snd p = instruction_vertex (fst p) i" using e [unfolded at [rule_format]] Some by (auto split: if_splits)
    ultimately show ?thesis using map_of_SomeD [OF Some] by (cases p) auto
  qed
qed

lemma graph_ready:
  assumes r: "ready_module cfgs m" and g: "graph_of m cfgs c"
  shows "ready_graph c"
proof -
  have L: "vertex_labels c = module_labels m" by (rule graph_labels [OF r g])
  have e: "entry_label c = mod_entry m" "exit_label c = mod_exit m" and so: "sorted_map (label_to_vertex c)" using g by (simp_all add: graph_of_def)
  have ne: "mod_entry m \<noteq> mod_exit m" by (rule ready_module_keys(5) [OF r])
  have "plain_at c p \<and> ready_at c p" if p: "p \<in> set (label_to_vertex c)" for p
  proof -
    consider (instruction) i where "p = (fst p, instruction_vertex (fst p) i)" "(fst p, i) \<in> set (mod_instructions m)" "\<not> is_goto i" "fst p \<noteq> mod_entry m" "fst p \<noteq> mod_exit m"
      | (entry) "p = (mod_entry m, plain_vertex (mod_entry m) ENTRY)" | (exit) "p = (mod_exit m, plain_vertex (mod_exit m) EXIT)"
      using graph_vertex [OF r g p] by blast
    then show ?thesis
    proof cases
      case entry
      then show ?thesis using e ne graph_ends_out(1) [OF r g] ready_module_keys(6) [OF r] L
        by (simp add: plain_at_def ready_at_def plain_vertex_def getSucceedingLabels_def)
    next
      case exit
      then show ?thesis using e ne graph_ends_out(2) [OF r g] by (simp add: plain_at_def ready_at_def plain_vertex_def)
    next
      case instruction
      note i = instruction
      have v: "vx_label (snd p) = fst p" "vx_type (snd p) = REGULAR" "vx_instruction (snd p) = Some i"
        using i(1) by (metis instruction_vertex_def Vertex.select_convs snd_conv)+
      have ns: "\<not> is_sequence i" using ready_module_at(1) [OF r i(2)] .
      consider (call) x here callee where "i = CallInstruction x here callee" | (assign) "is_assignment i \<or> is_havoc i" | (decide) "is_if i \<or> is_while i"
        using i(3) ns by (cases i) (auto simp: is_goto_def is_sequence_def is_assignment_def is_havoc_def is_if_def is_while_def)
      then show ?thesis
      proof cases
        case call
        note c = graph_call [OF r g, of "fst p"] i(2) call
        show ?thesis using v e i(4,5) c
          by (simp add: plain_at_def ready_at_def is_goto_def is_sequence_def is_assignment_def is_havoc_def is_if_def is_while_def is_call_def intra_def)
      next
        case assign
        obtain t where "getOutgoingEdges c (fst p) = [make_edge (fst p) t INTRAPROCEDURAL]" "t \<in> vertex_labels c" using graph_assignment [OF r g i(2) assign] by blast
        then show ?thesis using v e i(3-5) ns assign simple_not_decision [OF assign]
          by (simp add: plain_at_def ready_at_def getSucceedingLabels_def)
      next
        case decide
        obtain t f where "getOutgoingEdges c (fst p) = [make_edge (fst p) t TRUE_BRANCH, make_edge (fst p) f FALSE_BRANCH]" "t \<in> vertex_labels c" "f \<in> vertex_labels c"
          using graph_decision [OF r g i(2) decide] by blast
        moreover have "\<not> is_assignment i" "\<not> is_havoc i" "\<not> is_call i"
          using decide by (cases i; simp add: is_assignment_def is_havoc_def is_call_def is_if_def is_while_def)+
        ultimately show ?thesis using v e i(3-5) ns by (simp add: plain_at_def ready_at_def getSucceedingLabels_def)
      qed
    qed
  qed
  moreover have "entry_label c \<in> fst ` set (label_to_vertex c)" using L e(1) by (simp add: vertex_labels_def [symmetric] module_labels_def)
  ultimately show ?thesis using so by (simp add: ready_graph_def plain_graph_def)
qed

end
