(* ===== verification/Ahorn_Projects.thy ===== *)
theory Ahorn_Projects
  imports Ahorn_Modules
begin

text \<open>
  The builder succeeds on projects of well-formed modules whose types do not depend on themselves.
\<close>

section \<open>Projects\<close>

text \<open>
  Projects of well-formed modules whose types do not depend on themselves: the rank of a module is
  larger than that of the modules of its variables.
\<close>

definition ready_calls :: "Project \<Rightarrow> Module \<Rightarrow> bool" where
  "ready_calls p m \<longleftrightarrow> (\<forall>q \<in> set (mod_instructions m). case snd q of
     CallInstruction x _ _ \<Rightarrow>
       (case v_type x of
          Derived t \<Rightarrow> (\<exists>v \<in> snd ` set (mod_interface m). v_type v = Derived t)
            \<and> (case map_of p t of None \<Rightarrow> False | Some m' \<Rightarrow> mod_exit m' \<notin> module_labels m)
        | _ \<Rightarrow> False)
   | _ \<Rightarrow> True)"

definition ready_shape :: "Module \<Rightarrow> bool" where
  "ready_shape m \<longleftrightarrow> sorted_map (mod_instructions m)
     \<and> mod_entry m \<notin> fst ` set (mod_instructions m) \<and> mod_exit m \<notin> fst ` set (mod_instructions m)
     \<and> mod_entry m \<noteq> mod_exit m \<and> mod_entry m + 1 \<in> module_labels m
     \<and> (\<forall>q \<in> set (mod_instructions m). \<not> is_sequence (snd q) \<and> targets (snd q) \<subseteq> module_labels m
          \<and> (is_assignment (snd q) \<or> is_havoc (snd q) \<longrightarrow> (\<exists>j \<in> set (mod_instructions m). fst j = fst q + 1 \<and> is_goto (snd j)))
          \<and> (is_goto (snd q) \<longrightarrow> (\<exists>j \<in> set (mod_instructions m). fst j = fst q - 1 \<and> (is_assignment (snd j) \<or> is_havoc (snd j)))))"

definition ready_interface :: "Project \<Rightarrow> (string \<Rightarrow> nat) \<Rightarrow> Module \<Rightarrow> bool" where
  "ready_interface p rank m \<longleftrightarrow> sorted_map (mod_interface m)
     \<and> (\<forall>q \<in> set (mod_interface m). v_name (snd q) = fst q \<and> plain (fst q)
          \<and> (case v_type (snd q) of Derived t \<Rightarrow> t \<in> fst ` set p \<and> rank t < rank (mod_name m) | _ \<Rightarrow> True))"

definition ready_project :: "(string \<Rightarrow> nat) \<Rightarrow> Project \<Rightarrow> bool" where
  "ready_project rank p \<longleftrightarrow> sorted_map p
     \<and> (\<forall>q \<in> set p. mod_name (snd q) = fst q \<and> rank (fst q) \<le> length p
          \<and> ready_shape (snd q) \<and> ready_calls p (snd q) \<and> ready_interface p rank (snd q))"

text \<open>The graphs built: well-formed, and with the exits of their modules.\<close>

definition built_entry :: "Project \<Rightarrow> string \<times> Cfg \<Rightarrow> bool" where
  "built_entry p q \<longleftrightarrow> fst q = cfg_name (snd q) \<and> wf_names (snd q) \<and> (\<forall>d \<in> set (parts (snd q)). ready_graph d)
     \<and> (\<exists>m. map_of p (fst q) = Some m \<and> exit_label (snd q) = mod_exit m \<and> cfg_type (snd q) = mod_kind m
       \<and> (\<exists>cfgs. ready_module cfgs m \<and> graph_of m cfgs (snd q)))"

definition built :: "Project \<Rightarrow> (string, Cfg) std_map \<Rightarrow> bool" where
  "built p cfgs \<longleftrightarrow> (\<forall>q \<in> set cfgs. built_entry p q)"

lemma set_emplace: "set (emplace k v m) \<subseteq> insert (k, v) (set m)"
  by (induction k v m rule: emplace.induct) auto

lemma built_emplace: "built p cfgs \<Longrightarrow> built p [(k, c)] \<Longrightarrow> built p (emplace k c cfgs)"
  using set_emplace [of k c cfgs] unfolding built_def by auto

lemma built_at: "built p cfgs \<Longrightarrow> map_of cfgs n = Some c \<Longrightarrow> built p [(n, c)]"
  by (auto simp: built_def dest: map_of_SomeD)

lemma ready_module_of:
  assumes "ready_shape m" "ready_calls p m" "built p cfgs" and types: "\<And>v t. v \<in> snd ` set (mod_interface m) \<Longrightarrow> v_type v = Derived t \<Longrightarrow> t \<in> fst ` set cfgs"
  shows "ready_module cfgs m"
proof -
  have "case snd q of CallInstruction x _ _ \<Rightarrow> (case cfg_of_type cfgs (v_type x) of Inr d \<Rightarrow> exit_label d \<notin> module_labels m | Inl _ \<Rightarrow> False) | _ \<Rightarrow> True"
    if q: "q \<in> set (mod_instructions m)" for q
  proof (cases "snd q")
    case (CallInstruction x here callee)
    have "case snd q of CallInstruction x _ _ \<Rightarrow> (case v_type x of
        Derived t \<Rightarrow> (\<exists>v \<in> snd ` set (mod_interface m). v_type v = Derived t) \<and> (case map_of p t of None \<Rightarrow> False | Some m' \<Rightarrow> mod_exit m' \<notin> module_labels m)
      | _ \<Rightarrow> False) | _ \<Rightarrow> True"
      using assms(2) q unfolding ready_calls_def by blast
    then have w: "case v_type x of
        Derived t \<Rightarrow> (\<exists>v \<in> snd ` set (mod_interface m). v_type v = Derived t) \<and> (case map_of p t of None \<Rightarrow> False | Some m' \<Rightarrow> mod_exit m' \<notin> module_labels m)
      | _ \<Rightarrow> False"
      using CallInstruction by simp
    then obtain t where t: "v_type x = Derived t" by (cases "v_type x") auto
    then obtain v m' where v: "v \<in> snd ` set (mod_interface m)" "v_type v = Derived t" "map_of p t = Some m'" "mod_exit m' \<notin> module_labels m"
      using w by (auto split: option.splits)
    have "map_of cfgs t \<noteq> None" using types [OF v(1,2)] by (simp add: map_of_eq_None_iff)
    then obtain d where d: "map_of cfgs t = Some d" by blast
    then have "exit_label d = mod_exit m'" using built_at [OF assms(3) d] v(3) by (simp add: built_def built_entry_def)
    then show ?thesis using CallInstruction t d v(4) by (simp add: cfg_of_type_def)
  qed simp_all
  then show ?thesis using assms(1) unfolding ready_shape_def ready_module_def by blast
qed

lemma make_interface_ok:
  assumes "sorted_map vars" "\<forall>q \<in> set vars. v_name (snd q) = fst q"
  shows "sorted_map (make_interface (map snd vars))" "q \<in> set (make_interface (map snd vars)) \<Longrightarrow> q \<in> set vars"
proof -
  have names: "map (\<lambda>v. (v_name v, v)) (map snd vars) = vars" using assms(2) by (induction vars) auto
  have "make_interface (map snd vars) = fold (\<lambda>p. emplace (fst p) (snd p)) vars []"
    unfolding make_interface_def fold_make_interface names ..
  note f = fold_emplace [of "[]" vars, folded this, simplified]
  show s: "sorted_map (make_interface (map snd vars))" using f(1) .
  assume "q \<in> set (make_interface (map snd vars))"
  then have "map_of (make_interface (map snd vars)) (fst q) = Some (snd q)" using map_of_sorted [OF s, of "fst q" "snd q"] by simp
  then show "q \<in> set vars" using f(2) map_of_SomeD [of vars "fst q" "snd q"] by simp
qed

lemma build_graph_built:
  assumes m: "ready_shape m" "ready_calls p m" "ready_interface p rank m" "map_of p (mod_name m) = Some m" and b: "built p cfgs" "built p own"
    and types: "\<And>v t. v \<in> snd ` set (mod_interface m) \<Longrightarrow> v_type v = Derived t \<Longrightarrow> t \<in> fst ` set cfgs \<and> t \<in> fst ` set own"
  shows "\<exists>c. build_graph m own cfgs = Inr c \<and> built p [(mod_name m, c)] \<and> cfg_name c = mod_name m"
proof -
  have r: "ready_module cfgs m" using ready_module_of [OF m(1,2) b(1)] types by blast
  let ?i = "make_interface (map snd (mod_interface m))"
  have vars: "sorted_map (mod_interface m)" "\<forall>q \<in> set (mod_interface m). v_name (snd q) = fst q"
    using m(3) by (simp_all add: ready_interface_def)
  note i = make_interface_ok [OF vars]
  have "v_name (snd q) = fst q \<and> plain (fst q) \<and> (case v_type (snd q) of Derived t \<Rightarrow> t \<in> fst ` set own | _ \<Rightarrow> True)" if "q \<in> set ?i" for q
  proof -
    have q: "q \<in> set (mod_interface m)" by (rule i(2) [OF that])
    then have "v_name (snd q) = fst q \<and> plain (fst q)" using m(3) by (simp add: ready_interface_def)
    then show ?thesis using types [of "snd q"] q by (cases "v_type (snd q)") auto
  qed
  then have wf: "wf_names (Cfg (mod_kind m) (mod_name m) ?i own vs es (mod_entry m) (mod_exit m))" for vs es
    using i(1) b(2) by (auto simp: built_def built_entry_def)
  obtain vs0 es0 where init: "initial_parts m = (vs0, es0)" by (cases "initial_parts m")
  have v0: "sorted_map vs0" "\<And>k. map_of vs0 k = (if k = mod_entry m then Some (plain_vertex k ENTRY) else if k = mod_exit m then Some (plain_vertex k EXIT) else None)"
    using init ready_module_keys(5) [OF r] by (auto simp: initial_parts_def map_of_emplace sorted_emplace)
  have "\<forall>q \<in> set (mod_instructions m). map_of vs0 (fst q) = None" using ready_module_keys(3,4) [OF r] v0(2) by (auto simp: rev_image_eqI)
  then obtain vs es where "visit_instructions (mod_name m) cfgs (mod_instructions m) (vs0, es0) = Inr (vs, es)"
    using visit_instructions_ok [of "mod_instructions m" cfgs vs0 "mod_name m" es0] ready_callable [OF r] ready_module_keys(2) [OF r] v0(1) by blast
  then have c: "build_graph m own cfgs = Inr (Cfg (mod_kind m) (mod_name m) ?i own vs es (mod_entry m) (mod_exit m))"
    using init new_cfg_succeeds [OF wf] by (simp add: build_graph_def)
  have "ready_graph (Cfg (mod_kind m) (mod_name m) ?i own vs es (mod_entry m) (mod_exit m))"
    using graph_ready [OF r build_graph_parts [OF r c]] .
  with r build_graph_parts [OF r c] have "built p [(mod_name m, Cfg (mod_kind m) (mod_name m) ?i own vs es (mod_entry m) (mod_exit m))]"
    using wf b(2) m(4) by (auto simp: built_def built_entry_def simp del: wf_names.simps)
  then show ?thesis using c by auto
qed

lemma build_succeeds_aux:
  assumes p: "ready_project rank p"
  shows "rank (mod_name m) < n \<Longrightarrow> map_of p (mod_name m) = Some m \<Longrightarrow> built p cfgs \<Longrightarrow>
     \<exists>cfgs'. build_module n p m cfgs = Inr cfgs' \<and> built p cfgs' \<and> fst ` set cfgs \<union> {mod_name m} \<subseteq> fst ` set cfgs'"
proof (induction n arbitrary: m cfgs)
  case (Suc n)
  have mp: "ready_shape m" "ready_calls p m" "ready_interface p rank m"
    using p map_of_SomeD [OF Suc.prems(2)] by (auto simp: ready_project_def)
  have types: "\<exists>own' cfgs'. build_types n p vs (own, cfgs) = Inr (own', cfgs') \<and> built p own' \<and> built p cfgs'
     \<and> fst ` set cfgs \<subseteq> fst ` set cfgs' \<and> fst ` set own \<subseteq> fst ` set own'
     \<and> (\<forall>v \<in> set vs. \<forall>t. v_type v = Derived t \<longrightarrow> t \<in> fst ` set cfgs' \<and> t \<in> fst ` set own')"
    if "\<forall>v \<in> set vs. \<forall>t. v_type v = Derived t \<longrightarrow> t \<in> fst ` set p \<and> rank t < rank (mod_name m)" "built p own" "built p cfgs" for vs own cfgs
    using that
  proof (induction vs arbitrary: own cfgs)
    case (Cons v vs)
    show ?case
    proof (cases "\<exists>t. v_type v = Derived t")
      case True
      then obtain t where t: "v_type v = Derived t" by blast
      then have tp: "t \<in> fst ` set p" "rank t < n" using Cons.prems(1) Suc.prems(1) by auto
      then obtain mt where mt: "map_of p t = Some mt" by (metis map_of_eq_None_iff option.exhaust)
      have name: "mod_name mt = t" using p map_of_SomeD [OF mt] by (auto simp: ready_project_def)
      obtain cfgs1 where c1: "build_module n p mt cfgs = Inr cfgs1" "built p cfgs1" "fst ` set cfgs \<union> {t} \<subseteq> fst ` set cfgs1"
        using Suc.IH [of mt cfgs] tp(2) mt name Cons.prems(3) by auto
      have "map_of cfgs1 t \<noteq> None" using c1(3) by (auto simp: map_of_eq_None_iff)
      then obtain c where c: "map_of cfgs1 t = Some c" by blast
      then have cn: "cfg_name c = t" "built p [(t, c)]" using built_at [OF c1(2)] by (auto simp: built_def built_entry_def)
      have own: "built p (emplace t c own)" by (rule built_emplace [OF Cons.prems(2) cn(2)])
      from Cons.IH [OF _ own c1(2)] Cons.prems(1) obtain own' cfgs' where
        "build_types n p vs (emplace t c own, cfgs1) = Inr (own', cfgs')" "built p own'" "built p cfgs'" "fst ` set cfgs1 \<subseteq> fst ` set cfgs'"
        "fst ` set (emplace t c own) \<subseteq> fst ` set own'" "\<forall>v \<in> set vs. \<forall>t. v_type v = Derived t \<longrightarrow> t \<in> fst ` set cfgs' \<and> t \<in> fst ` set own'" by auto
      note r = this
      have "build_types n p (v # vs) (own, cfgs) = Inr (own', cfgs')"
        using t mt c1(1) c cn(1) r(1) by (simp add: getModule_def)
      moreover have "insert t (fst ` set cfgs) \<subseteq> fst ` set cfgs'" using subset_trans [OF c1(3) r(4)] by simp
      then have "t \<in> fst ` set cfgs'" "fst ` set cfgs \<subseteq> fst ` set cfgs'" by (simp_all only: insert_subset)
      moreover have "insert t (fst ` set own) \<subseteq> fst ` set own'" using r(5) by (simp only: keys_emplace)
      then have "t \<in> fst ` set own'" "fst ` set own \<subseteq> fst ` set own'" by (simp_all only: insert_subset)
      ultimately show ?thesis using r(2,3,6) t by auto
    next
      case False
      then have "build_types n p (v # vs) (own, cfgs) = build_types n p vs (own, cfgs)" by (cases "v_type v") auto
      then show ?thesis using Cons.IH [of own cfgs] Cons.prems False by auto
    qed
  qed auto
  show ?case
  proof (cases "map_of cfgs (mod_name m) = None")
    case True
    have "\<forall>v \<in> set (map snd (mod_interface m)). \<forall>t. v_type v = Derived t \<longrightarrow> t \<in> fst ` set p \<and> rank t < rank (mod_name m)"
    proof (intro ballI allI impI)
      fix v t assume "v \<in> set (map snd (mod_interface m))" "v_type v = Derived t"
      then obtain q where q: "q \<in> set (mod_interface m)" "v_type (snd q) = Derived t" by auto
      have "case v_type (snd q) of Derived t \<Rightarrow> t \<in> fst ` set p \<and> rank t < rank (mod_name m) | _ \<Rightarrow> True"
        using mp(3) q(1) unfolding ready_interface_def by blast
      then show "t \<in> fst ` set p \<and> rank t < rank (mod_name m)" using q(2) by simp
    qed
    moreover have "built p []" by (simp add: built_def)
    ultimately obtain own cfgs1 where
      t: "build_types n p (map snd (mod_interface m)) ([], cfgs) = Inr (own, cfgs1)" "built p own" "built p cfgs1" "fst ` set cfgs \<subseteq> fst ` set cfgs1"
      "\<forall>v \<in> set (map snd (mod_interface m)). \<forall>t. v_type v = Derived t \<longrightarrow> t \<in> fst ` set cfgs1 \<and> t \<in> fst ` set own"
      using types [of "map snd (mod_interface m)" "[]" cfgs] Suc.prems(3) by blast
    obtain c where c: "build_graph m own cfgs1 = Inr c" "built p [(mod_name m, c)]" "cfg_name c = mod_name m"
      using build_graph_built [OF mp Suc.prems(2) t(3,2)] t(5) by auto
    have "build_module (Suc n) p m cfgs = Inr (emplace (mod_name m) c cfgs1)" using True t(1) c(1,3) by simp
    moreover have "built p (emplace (mod_name m) c cfgs1)" by (rule built_emplace [OF t(3) c(2)])
    ultimately show ?thesis using t(4) keys_emplace [of "mod_name m" c cfgs1] by auto
  next
    case False
    then have "mod_name m \<in> fst ` set cfgs" by (metis map_of_eq_None_iff)
    then show ?thesis using False Suc.prems(3) by auto
  qed
qed simp

lemma build_modules_succeed:
  assumes p: "ready_project rank p"
  shows "\<forall>m \<in> set ms. rank (mod_name m) < n \<and> map_of p (mod_name m) = Some m \<Longrightarrow> built p cfgs \<Longrightarrow>
     \<exists>cfgs'. build_modules n p ms cfgs = Inr cfgs' \<and> built p cfgs' \<and> fst ` set cfgs \<union> mod_name ` set ms \<subseteq> fst ` set cfgs'"
proof (induction ms arbitrary: cfgs)
  case (Cons m ms)
  obtain cfgs1 where c1: "build_module n p m cfgs = Inr cfgs1" "built p cfgs1" "fst ` set cfgs \<union> {mod_name m} \<subseteq> fst ` set cfgs1"
    using build_succeeds_aux [OF p, of m n cfgs] Cons.prems by auto
  obtain cfgs' where "build_modules n p ms cfgs1 = Inr cfgs'" "built p cfgs'" "fst ` set cfgs1 \<union> mod_name ` set ms \<subseteq> fst ` set cfgs'"
    using Cons.IH [OF _ c1(2)] Cons.prems(1) by auto
  note r = this
  have "fst ` set cfgs \<union> {mod_name m} \<subseteq> fst ` set cfgs'" using c1(3) r(3) by (meson Un_subset_iff subset_trans)
  then have "fst ` set cfgs \<union> mod_name ` set (m # ms) \<subseteq> fst ` set cfgs'" using r(3) by simp
  then show ?case using c1(1) r(1,2) by simp
qed simp

lemma build_main:
  assumes p: "ready_project rank p" and main: "q \<in> set p" "mod_kind (snd q) = PROGRAM"
  shows "\<exists>c m cfgs. build p = Inr c \<and> cfg_type c = PROGRAM \<and> wf_names c \<and> (\<forall>d \<in> set (parts c). ready_graph d)
     \<and> getMain p = Inr m \<and> ready_module cfgs m \<and> graph_of m cfgs c"
proof -
  have "\<forall>m \<in> set (map snd p). rank (mod_name m) < Suc (length p) \<and> map_of p (mod_name m) = Some m"
  proof
    fix m assume "m \<in> set (map snd p)"
    then obtain r where r: "r \<in> set p" "m = snd r" by auto
    then have "mod_name m = fst r" "rank (fst r) \<le> length p" "sorted_map p" using p by (auto simp: ready_project_def)
    then show "rank (mod_name m) < Suc (length p) \<and> map_of p (mod_name m) = Some m"
      using map_of_sorted [of p "fst r" m] r by simp
  qed
  moreover have "built p []" by (simp add: built_def)
  ultimately obtain cfgs where c: "build_modules (Suc (length p)) p (map snd p) [] = Inr cfgs" "built p cfgs"
    "mod_name ` set (map snd p) \<subseteq> fst ` set cfgs" using build_modules_succeed [OF p, of "map snd p" "Suc (length p)" "[]"] by auto
  have "find (\<lambda>q. mod_kind (snd q) = PROGRAM) p \<noteq> None" using main unfolding find_None_iff by blast
  then obtain r where r: "find (\<lambda>q. mod_kind (snd q) = PROGRAM) p = Some r" by blast
  then have rp: "r \<in> set p" "mod_kind (snd r) = PROGRAM" by (auto simp: find_Some_iff)
  then have rn: "mod_name (snd r) = fst r" "map_of p (fst r) = Some (snd r)"
    using p map_of_sorted [of p "fst r" "snd r"] by (auto simp: ready_project_def)
  have "mod_name (snd r) \<in> mod_name ` set (map snd p)" using rp(1) by force
  then have "map_of cfgs (mod_name (snd r)) \<noteq> None" using c(3) by (metis map_of_eq_None_iff subsetD)
  then obtain d where d: "map_of cfgs (mod_name (snd r)) = Some d" by blast
  have "built p [(mod_name (snd r), d)]" by (rule built_at [OF c(2) d])
  then obtain cfgs' where "cfg_type d = PROGRAM \<and> wf_names d \<and> (\<forall>e \<in> set (parts d). ready_graph e)" "ready_module cfgs' (snd r)" "graph_of (snd r) cfgs' d"
    using rn rp(2) by (auto simp: built_def built_entry_def simp del: wf_names.simps)
  moreover have "build p = Inr d" "getMain p = Inr (snd r)" using c(1) r d by (simp_all add: build_def getMain_def)
  ultimately show ?thesis by blast
qed

lemma build_succeeds:
  assumes "ready_project rank p" "q \<in> set p" "mod_kind (snd q) = PROGRAM"
  shows "\<exists>c. build p = Inr c \<and> cfg_type c = PROGRAM \<and> wf_names c \<and> (\<forall>d \<in> set (parts c). ready_graph d)"
  using build_main [OF assms] by blast

end
