(* ===== verification/Ahorn_Decisions.thy ===== *)
theory Ahorn_Decisions
  imports Ahorn_Pass
begin

text \<open>
  The pass that puts a vertex of its own on both branches of every decision
  (\<^verbatim>\<open>src/ahorn/src/pass/decision_transformation_pass.cpp\<close>).
\<close>

section \<open>The pass\<close>

text \<open>
  The labels of new vertices are counted from 9000; the labels given to the branches of a decision are
  kept by its label for all graphs.
\<close>

record Decisions =
  next_label :: label
  intermediate_successors :: "(label, label \<times> label) std_map"

definition new_decisions :: Decisions where
  "new_decisions = \<lparr>next_label = 9000, intermediate_successors = []\<rparr>"

type_synonym vertices = "(label, Vertex) std_map"

definition transform_decision :: "label \<Rightarrow> Instruction \<Rightarrow> Decisions \<times> vertices \<Rightarrow> Decisions \<times> vertices" where
  "transform_decision l i s =
     (let vs = emplace l (instruction_vertex l i) (snd s);
          t = next_label (fst s); vs = emplace t (plain_vertex t REGULAR) vs;
          f = t + 1; vs = emplace f (plain_vertex f REGULAR) vs
      in (\<lparr>next_label = f + 1, intermediate_successors = emplace l (t, f) (intermediate_successors (fst s))\<rparr>, vs))"

definition transform_vertex :: "Vertex \<Rightarrow> Decisions \<times> vertices \<Rightarrow> (Decisions \<times> vertices) res" where
  "transform_vertex v s =
     (let l = vx_label v; keep = (\<lambda>w. Inr (fst s, emplace l w (snd s))) in
      case vx_type v of
        ENTRY \<Rightarrow> keep (plain_vertex l ENTRY)
      | REGULAR \<Rightarrow>
          (case vx_instruction v of
             None \<Rightarrow> Inl Assert_Failed
           | Some i \<Rightarrow>
               (case i of
                  AssignmentInstruction _ _ \<Rightarrow> keep (instruction_vertex l i)
                | HavocInstruction _ \<Rightarrow> keep (instruction_vertex l i)
                | CallInstruction _ _ _ \<Rightarrow> keep (instruction_vertex l i)
                | GotoInstruction _ \<Rightarrow> keep (instruction_vertex l i)
                | IfInstruction _ _ _ \<Rightarrow> Inr (transform_decision l i s)
                | SequenceInstruction _ \<Rightarrow> Inl (Logic_Error ''Not implemented yet.'')
                | WhileInstruction _ _ _ \<Rightarrow> Inl (Logic_Error ''Not implemented yet.'')))
      | EXIT \<Rightarrow> keep (plain_vertex l EXIT))"

fun transform_vertices :: "Vertex list \<Rightarrow> Decisions \<times> vertices \<Rightarrow> (Decisions \<times> vertices) res" where
  "transform_vertices [] s = Inr s"
| "transform_vertices (v # vs) s = rbind (transform_vertex v s) (transform_vertices vs)"

definition transform_branch :: "(label, label \<times> label) std_map \<Rightarrow> Edge \<Rightarrow> Edge list res" where
  "transform_branch m e =
     rassert (map_of m (source_label e) \<noteq> None)
       (rbind (map_at m (source_label e)) (\<lambda>(t, f).
          let l = (if edge_type e = TRUE_BRANCH then t else f)
          in Inr [make_edge (source_label e) l (edge_type e), make_edge l (target_label e) INTRAPROCEDURAL]))"

definition transform_edge :: "(label, label \<times> label) std_map \<Rightarrow> Edge \<Rightarrow> Edge list res" where
  "transform_edge m e =
     (case edge_type e of
        INTRAPROCEDURAL_CALL_TO_RETURN \<Rightarrow> Inr [copy_edge e]
      | INTRAPROCEDURAL \<Rightarrow> Inr [copy_edge e]
      | INTERPROCEDURAL_CALL \<Rightarrow> Inr [copy_edge e]
      | TRUE_BRANCH \<Rightarrow> transform_branch m e
      | FALSE_BRANCH \<Rightarrow> transform_branch m e
      | INTERPROCEDURAL_RETURN \<Rightarrow> rbind (getCallLabel e) (\<lambda>k. rbind (copy_return_edge k e) (\<lambda>e. Inr [e])))"

fun transform_edges :: "(label, label \<times> label) std_map \<Rightarrow> Edge list \<Rightarrow> Edge list res" where
  "transform_edges m [] = Inr []"
| "transform_edges m (e # es) = rbind (transform_edge m e) (\<lambda>new. rbind (transform_edges m es) (\<lambda>rest. Inr (new @ rest)))"

definition decision_graph :: "Cfg \<Rightarrow> (string, Cfg) std_map \<Rightarrow> Decisions \<Rightarrow> (Cfg \<times> Decisions) res" where
  "decision_graph c cfgs s =
     rbind (transform_vertices (map snd (label_to_vertex c)) (s, [])) (\<lambda>(s, vs).
     rbind (transform_edges (intermediate_successors s) (cfg_edges c)) (\<lambda>es.
     rbind (new_cfg (cfg_type c) (cfg_name c) (copy_interface c) cfgs vs es (entry_label c) (exit_label c)) (\<lambda>d. Inr (d, s))))"

fun decision_transformation_pass :: "Cfg \<Rightarrow> Decisions \<Rightarrow> (Cfg \<times> Decisions) res"
  and transform_callees :: "(string \<times> Cfg) list \<Rightarrow> (string, Cfg) std_map \<Rightarrow> Decisions \<Rightarrow> ((string, Cfg) std_map \<times> Decisions) res" where
  "decision_transformation_pass (Cfg ty name vars cfgs vertices edges en ex) s =
     rbind (transform_callees cfgs [] s) (\<lambda>(ds, s). decision_graph (Cfg ty name vars cfgs vertices edges en ex) ds s)"
| "transform_callees [] ds s = Inr (ds, s)"
| "transform_callees ((n, c) # cs) ds s =
     rbind (decision_transformation_pass c s) (\<lambda>(d, s). transform_callees cs (emplace (cfg_name d) d ds) s)"

end
