(* ===== verification/Ahorn_Splits.thy ===== *)
theory Ahorn_Splits
  imports Ahorn_Decisions Ahorn_Joins
begin

text \<open>
  The graph with a vertex on each branch of a decision has the runs of the graph it is built from, as long
  as the labels of the new vertices and of the decisions are fresh.
\<close>

section \<open>Vertices made\<close>

text \<open>
  What holds of new vertices: they are kept under labels from the first one on, and each branch of a
  decision has its own.
\<close>

definition branch_label :: "(label, label \<times> label) std_map \<Rightarrow> label \<Rightarrow> bool \<Rightarrow> label" where
  "branch_label m l b = (case map_of m l of None \<Rightarrow> l | Some (t, f) \<Rightarrow> if b then t else f)"

definition fresh :: "(label, label \<times> label) std_map \<Rightarrow> (label, label \<times> label) std_map \<Rightarrow> label \<Rightarrow> bool" where
  "fresh m0 m l \<longleftrightarrow> map_of m0 l = None \<and> map_of m l \<noteq> None"

definition decided :: "(label, label \<times> label) std_map \<Rightarrow> label \<Rightarrow> Decisions \<Rightarrow> vertices \<Rightarrow> bool" where
  "decided m0 n s vs \<longleftrightarrow> sorted_map vs \<and> sorted_map (intermediate_successors s) \<and> n \<le> next_label s
     \<and> (\<forall>k. map_of vs k \<noteq> None \<longrightarrow> k < next_label s)
     \<and> (\<forall>l b. fresh m0 (intermediate_successors s) l \<longrightarrow> n \<le> branch_label (intermediate_successors s) l b \<and> branch_label (intermediate_successors s) l b < next_label s)
     \<and> (\<forall>l b l' b'. fresh m0 (intermediate_successors s) l \<longrightarrow> fresh m0 (intermediate_successors s) l'
          \<longrightarrow> branch_label (intermediate_successors s) l b = branch_label (intermediate_successors s) l' b' \<longrightarrow> l = l' \<and> b = b')"

definition events_in :: "vertices \<Rightarrow> label \<Rightarrow> event list" where
  "events_in vs k = (case map_of vs k of None \<Rightarrow> [] | Some v \<Rightarrow> vertex_events v)"

lemma events_in_emplace: "sorted_map vs \<Longrightarrow> map_of vs l = None \<Longrightarrow> events_in (emplace l v vs) k = (if k = l then vertex_events v else events_in vs k)"
  by (simp add: events_in_def map_of_emplace)

lemma plain_vertex_events [simp]: "vertex_events (plain_vertex l ty) = []"
  by (simp add: vertex_events_def plain_vertex_def)

lemma decided_keep:
  assumes "decided m0 n s vs" "l < n"
  shows "decided m0 n s (emplace l v vs)"
proof -
  have "l < next_label s" using assms by (auto simp: decided_def)
  then show ?thesis using assms(1) by (auto simp: decided_def sorted_emplace map_of_emplace)
qed

lemma decided_decision:
  assumes d: "decided m0 n s vs" and l: "l < n" "map_of (intermediate_successors s) l = None" and w: "unat (next_label s) + 2 < 2 ^ 32"
    and r: "transform_decision l i (s, vs) = (s', vs')" and new: "map_of vs l = None" and i: "is_if i"
  shows "decided m0 n s' vs'" "next_label s' = next_label s + 2" "events_in vs' = (events_in vs)(l := [Execute i])"
    "intermediate_successors s' = emplace l (next_label s, next_label s + 1) (intermediate_successors s)"
proof -
  let ?t = "next_label s" let ?f = "next_label s + 1" let ?m = "intermediate_successors s"
  have s': "next_label s' = ?t + 2" "intermediate_successors s' = emplace l (?t, ?f) ?m"
    "vs' = emplace ?f (plain_vertex ?f REGULAR) (emplace ?t (plain_vertex ?t REGULAR) (emplace l (instruction_vertex l i) vs))"
    using r by (auto simp: transform_decision_def Let_def add.commute)
  then show "next_label s' = next_label s + 2" "intermediate_successors s' = emplace l (?t, ?f) ?m" by simp_all
  have u: "unat ?f = unat ?t + 1" "unat (?t + 2) = unat ?t + 2" using w by (simp_all add: unat_word_ariths)
  then have less: "?t < ?f" "?f < ?t + 2" "?t < ?t + 2" by (simp_all add: word_less_nat_alt)
  have lt: "l < ?t" using l(1) d by (auto simp: decided_def)
  have ne: "l \<noteq> ?t" "l \<noteq> ?f" "?t \<noteq> ?f" using lt less less_trans [OF lt less(1)] by auto
  have so: "sorted_map vs" "sorted_map ?m" using d by (auto simp: decided_def)
  have none: "map_of vs ?t = None" "map_of vs ?f = None" using d less(1) unfolding decided_def by (meson less_irrefl less_trans)+
  let ?vs1 = "emplace l (instruction_vertex l i) vs" let ?vs2 = "emplace ?t (plain_vertex ?t REGULAR) ?vs1"
  have so1: "sorted_map ?vs1" "sorted_map ?vs2" using so(1) by (simp_all add: sorted_emplace)
  have n1: "map_of ?vs1 ?t = None" "map_of ?vs2 ?f = None"
    using lt less so(1) so1(1) none by (auto simp: map_of_emplace)
  have "\<not> is_sequence i" using i by (cases i) (simp_all add: is_if_def is_sequence_def)
  then have "vertex_events (instruction_vertex l i) = [Execute i]" by (rule instruction_vertex_events)
  moreover have "events_in vs ?t = []" "events_in vs ?f = []" using none by (simp_all add: events_in_def)
  ultimately show "events_in vs' = (events_in vs)(l := [Execute i])"
    using ne unfolding s'(3) fun_eq_iff by (simp add: events_in_emplace so so1 n1 new)
  have m: "map_of (emplace l (?t, ?f) ?m) k = (if k = l then Some (?t, ?f) else map_of ?m k)" for k
    using l(2) so(2) by (simp add: map_of_emplace)
  have b: "branch_label (emplace l (?t, ?f) ?m) k x = (if k = l then if x then ?t else ?f else branch_label ?m k x)" for k x
    by (simp add: branch_label_def m)
  have fr: "fresh m0 (emplace l (?t, ?f) ?m) k \<Longrightarrow> k \<noteq> l \<Longrightarrow> fresh m0 ?m k" for k by (simp add: fresh_def m)
  have old: "n \<le> branch_label ?m k x" "branch_label ?m k x < ?t" if "fresh m0 ?m k" for k x
    using d that by (auto simp: decided_def)
  have ninj: "fresh m0 ?m k \<Longrightarrow> fresh m0 ?m k' \<Longrightarrow> branch_label ?m k x = branch_label ?m k' x' \<Longrightarrow> k = k' \<and> x = x'" for k k' x x'
    using d by (auto simp: decided_def)
  have nt: "n \<le> ?t" using d by (simp add: decided_def)
  have "map_of vs' k \<noteq> None \<Longrightarrow> k < ?t + 2" for k
    using d less lt so1 so(1) unfolding s'(3) by (auto simp: map_of_emplace decided_def split: if_splits intro: less_trans)
  moreover have "n \<le> branch_label (emplace l (?t, ?f) ?m) k x \<and> branch_label (emplace l (?t, ?f) ?m) k x < ?t + 2"
    if "fresh m0 (emplace l (?t, ?f) ?m) k" for k x
    using old [of k x] fr [OF that] nt less unfolding b by (auto intro: less_trans order.strict_implies_order order_trans)
  moreover have "k = k' \<and> x = x'"
    if "fresh m0 (emplace l (?t, ?f) ?m) k" "fresh m0 (emplace l (?t, ?f) ?m) k'"
      "branch_label (emplace l (?t, ?f) ?m) k x = branch_label (emplace l (?t, ?f) ?m) k' x'" for k k' x x'
    using ninj [of k k' x x'] old(2) [of k x] old(2) [of k' x'] fr [OF that(1)] fr [OF that(2)] that(3) less unfolding b
    by (auto split: if_splits dest: less_trans)
  ultimately show "decided m0 n s' vs'"
    using so so1 nt less by (auto simp: decided_def s'(1,2) sorted_emplace s'(3))
qed

text \<open>Vertices still to come have labels below the new ones and are not kept yet.\<close>

definition coming :: "label \<Rightarrow> Decisions \<Rightarrow> vertices \<Rightarrow> Vertex list \<Rightarrow> bool" where
  "coming n s vs ws \<longleftrightarrow> distinct (map vx_label ws) \<and> unat (next_label s) + 2 * length ws < 2 ^ 32
     \<and> (\<forall>w \<in> set ws. vx_label w < n \<and> map_of (intermediate_successors s) (vx_label w) = None \<and> map_of vs (vx_label w) = None
          \<and> (vx_type w \<noteq> REGULAR \<longrightarrow> vx_instruction w = None))"

lemma transform_vertex_ok:
  assumes d: "decided m0 n s vs" and c: "coming n s vs (w # ws)" and r: "transform_vertex w (s, vs) = Inr (s', vs')"
  shows "decided m0 n s' vs' \<and> coming n s' vs' ws \<and> events_in vs' = (events_in vs)(vx_label w := vertex_events w) \<and> map_of vs' (vx_label w) \<noteq> None
    \<and> (\<forall>k. map_of vs k \<noteq> None \<longrightarrow> map_of vs' k \<noteq> None)"
proof -
  let ?l = "vx_label w"
  have w: "?l < n" "map_of (intermediate_successors s) ?l = None" "map_of vs ?l = None" "vx_type w \<noteq> REGULAR \<Longrightarrow> vx_instruction w = None"
    using c by (auto simp: coming_def)
  have so: "sorted_map vs" using d by (simp add: decided_def)
  have "?l \<notin> vx_label ` set ws" using c by (simp add: coming_def)
  then have differ: "\<forall>x \<in> set ws. vx_label x \<noteq> ?l" by (metis imageI)
  then have keep: ?thesis if k: "s' = s" "vs' = emplace ?l v vs" "vertex_events v = vertex_events w" for v
    using decided_keep [OF d w(1)] c so w(3) k by (auto simp: coming_def map_of_emplace fun_eq_iff events_in_emplace)
  show ?thesis
  proof (cases "\<exists>i. vx_type w = REGULAR \<and> vx_instruction w = Some i \<and> is_if i")
    case True
    then obtain i where i: "vx_type w = REGULAR" "vx_instruction w = Some i" "is_if i" by blast
    have td: "transform_decision ?l i (s, vs) = (s', vs')"
      using r i by (cases i) (auto simp: transform_vertex_def Let_def is_if_def)
    have fit: "unat (next_label s) + 2 < 2 ^ 32" "unat (next_label s) + 2 + 2 * length ws < 2 ^ 32" using c by (simp_all add: coming_def)
    note t = decided_decision [OF d w(1,2) fit(1) td w(3) i(3)]
    have ev: "vertex_events w = [Execute i]" using i by (cases i) (auto simp: vertex_events_def is_if_def)
    have nxt: "unat (next_label s') = unat (next_label s) + 2" using fit(1) t(2) by (simp add: unat_word_ariths)
    have vs': "map_of vs' k = (if map_of vs k \<noteq> None then map_of vs k else if k = ?l then Some (instruction_vertex ?l i)
        else if k = next_label s then Some (plain_vertex k REGULAR) else if k = next_label s + 1 then Some (plain_vertex k REGULAR) else None)" for k
      using td so by (auto simp: transform_decision_def Let_def map_of_emplace sorted_emplace)
    have "n \<le> next_label s" "next_label s < next_label s + 1"
      using d fit(1) by (auto simp: decided_def word_less_nat_alt unat_word_ariths)
    then have new: "n \<le> next_label s" "n \<le> next_label s + 1" by auto
    have other: "vx_label x \<noteq> ?l" "vx_label x \<noteq> next_label s" "vx_label x \<noteq> next_label s + 1" "map_of vs (vx_label x) = None"
      "map_of (intermediate_successors s) (vx_label x) = None" "vx_label x < n" "vx_type x \<noteq> REGULAR \<longrightarrow> vx_instruction x = None" if "x \<in> set ws" for x
      using c that new differ by (auto simp: coming_def)
    have "coming n s' vs' ws"
      unfolding coming_def
    proof (intro conjI ballI)
      show "distinct (map vx_label ws)" using c by (simp add: coming_def)
      show "unat (next_label s') + 2 * length ws < 2 ^ 32" using fit(2) nxt by simp
      fix x assume x: "x \<in> set ws"
      have "sorted_map (intermediate_successors s)" using d by (simp add: decided_def)
      then show "map_of (intermediate_successors s') (vx_label x) = None" using t(4) other(1,5) [OF x] by (simp add: map_of_emplace)
      show "map_of vs' (vx_label x) = None" using vs' other [OF x] by simp
      show "vx_label x < n" "vx_type x \<noteq> REGULAR \<longrightarrow> vx_instruction x = None" using other(6,7) [OF x] by simp_all
    qed
    then show ?thesis using t(1,3) ev vs' by auto
  next
    case False
    show ?thesis
    proof (cases "vx_type w")
      case REGULAR
      then obtain i where i: "vx_instruction w = Some i" using r by (auto simp: transform_vertex_def Let_def split: option.splits)
      then have "\<not> is_if i" using False REGULAR by simp
      then have "s' = s \<and> vs' = emplace ?l (instruction_vertex ?l i) vs"
        using r REGULAR i by (cases i) (auto simp: transform_vertex_def Let_def is_if_def)
      then show ?thesis using keep [of "instruction_vertex ?l i"] i by (simp add: vertex_events_def instruction_vertex_def)
    next
      case ENTRY
      then have "s' = s \<and> vs' = emplace ?l (plain_vertex ?l ENTRY) vs" using r by (auto simp: transform_vertex_def Let_def)
      then show ?thesis using keep [of "plain_vertex ?l ENTRY"] w(4) ENTRY by (simp add: vertex_events_def plain_vertex_def)
    next
      case EXIT
      then have "s' = s \<and> vs' = emplace ?l (plain_vertex ?l EXIT) vs" using r by (auto simp: transform_vertex_def Let_def)
      then show ?thesis using keep [of "plain_vertex ?l EXIT"] w(4) EXIT by (simp add: vertex_events_def plain_vertex_def)
    qed
  qed
qed

lemma transform_vertices_ok:
  "transform_vertices ws (s, vs) = Inr (s', vs') \<Longrightarrow> decided m0 n s vs \<Longrightarrow> coming n s vs ws \<Longrightarrow>
     decided m0 n s' vs' \<and> (\<forall>w \<in> set ws. events_in vs' (vx_label w) = vertex_events w \<and> map_of vs' (vx_label w) \<noteq> None)
     \<and> (\<forall>k. k \<notin> vx_label ` set ws \<longrightarrow> events_in vs' k = events_in vs k) \<and> (\<forall>k. map_of vs k \<noteq> None \<longrightarrow> map_of vs' k \<noteq> None)"
proof (induction ws arbitrary: s vs)
  case (Cons w ws)
  obtain s1 vs1 where t: "transform_vertex w (s, vs) = Inr (s1, vs1)" "transform_vertices ws (s1, vs1) = Inr (s', vs')"
    using Cons.prems(1) by (auto simp: rbind_eq_Inr)
  note one = transform_vertex_ok [OF Cons.prems(2,3) t(1)]
  have "vx_label w \<notin> vx_label ` set ws" using Cons.prems(3) by (simp add: coming_def)
  then show ?case using Cons.IH [OF t(2)] one by simp
qed simp

section \<open>Edges made\<close>

definition is_branch :: "Edge \<Rightarrow> bool" where
  "is_branch e \<longleftrightarrow> edge_type e = TRUE_BRANCH \<or> edge_type e = FALSE_BRANCH"

text \<open>The edges within a graph that the pass makes of one edge.\<close>

definition splits_to :: "(label, label \<times> label) std_map \<Rightarrow> Edge \<Rightarrow> Edge \<Rightarrow> bool" where
  "splits_to m e d \<longleftrightarrow>
     (if is_branch e then
        (let l = branch_label m (source_label e) (edge_type e = TRUE_BRANCH)
         in d = make_edge (source_label e) l (edge_type e) \<or> d = make_edge l (target_label e) INTRAPROCEDURAL)
      else d = copy_edge e)"

lemma transform_edge_ok:
  assumes "transform_edge m e = Inr new"
  shows "intra e \<Longrightarrow> d \<in> set new \<longleftrightarrow> splits_to m e d" "\<not> intra e \<Longrightarrow> d \<in> set new \<Longrightarrow> \<not> intra d"
    "is_branch e \<Longrightarrow> map_of m (source_label e) \<noteq> None"
proof -
  show "is_branch e \<Longrightarrow> map_of m (source_label e) \<noteq> None"
    using assms by (auto simp: transform_edge_def is_branch_def transform_branch_def)
  show "\<not> intra e \<Longrightarrow> d \<in> set new \<Longrightarrow> \<not> intra d"
    using assms by (cases "edge_type e") (auto simp: transform_edge_def rbind_eq_Inr intra_def [of e] dest: return_edge_type)
  show "intra e \<Longrightarrow> d \<in> set new \<longleftrightarrow> splits_to m e d"
    using assms by (cases "edge_type e")
      (auto simp: transform_edge_def intra_def is_branch_def splits_to_def transform_branch_def rbind_eq_Inr map_at_eq_Inr branch_label_def Let_def)
qed

lemma transform_edges_ok:
  "transform_edges m es = Inr es' \<Longrightarrow>
     (\<forall>d. intra d \<longrightarrow> (d \<in> set es' \<longleftrightarrow> (\<exists>e \<in> set es. intra e \<and> splits_to m e d))) \<and> (\<forall>e \<in> set es. is_branch e \<longrightarrow> map_of m (source_label e) \<noteq> None)"
proof (induction es arbitrary: es')
  case (Cons e es)
  obtain new rest where n: "transform_edge m e = Inr new" "transform_edges m es = Inr rest" "es' = new @ rest"
    using Cons.prems by (auto simp: rbind_eq_Inr)
  note one = transform_edge_ok [OF n(1)]
  show ?case using Cons.IH [OF n(2)] one n(3) by auto
qed simp

section \<open>Runs of the new graph\<close>

text \<open>
  A graph whose vertices are kept under their labels, which are below those of new vertices and have no
  branches yet, and whose edges within a cycle stay in the graph.
\<close>

definition decidable_graph :: "Decisions \<Rightarrow> Cfg \<Rightarrow> bool" where
  "decidable_graph s c \<longleftrightarrow> sorted_map (label_to_vertex c) \<and> sorted_map (intermediate_successors s)
     \<and> unat (next_label s) + 2 * length (label_to_vertex c) < 2 ^ 32
     \<and> (\<forall>p \<in> set (label_to_vertex c). vx_label (snd p) = fst p \<and> fst p < next_label s \<and> map_of (intermediate_successors s) (fst p) = None
          \<and> (vx_type (snd p) \<noteq> REGULAR \<longrightarrow> vx_instruction (snd p) = None))
     \<and> (\<forall>e \<in> set (cfg_edges c). intra e \<longrightarrow> source_label e \<in> vertex_labels c \<and> target_label e \<in> vertex_labels c)"

text \<open>What the new graph has in common with the old one.\<close>

definition branches_apart :: "Cfg \<Rightarrow> Cfg \<Rightarrow> (label, label \<times> label) std_map \<Rightarrow> bool" where
  "branches_apart c d m \<longleftrightarrow> vertex_labels c \<subseteq> vertex_labels d \<and> (\<forall>l \<in> vertex_labels c. events_at d l = events_at c l) \<and> (\<forall>l. l \<notin> vertex_labels c \<longrightarrow> events_at d l = [])
     \<and> (\<forall>e. intra e \<longrightarrow> (e \<in> set (cfg_edges d) \<longleftrightarrow> (\<exists>q \<in> set (cfg_edges c). intra q \<and> splits_to m q e)))
     \<and> (\<forall>e \<in> set (cfg_edges c). intra e \<longrightarrow> source_label e \<in> vertex_labels c \<and> target_label e \<in> vertex_labels c)
     \<and> (\<forall>e \<in> set (cfg_edges c). is_branch e \<longrightarrow> branch_label m (source_label e) (edge_type e = TRUE_BRANCH) \<notin> vertex_labels c)
     \<and> (\<forall>e \<in> set (cfg_edges c). \<forall>q \<in> set (cfg_edges c). is_branch e \<longrightarrow> is_branch q
          \<longrightarrow> branch_label m (source_label e) (edge_type e = TRUE_BRANCH) = branch_label m (source_label q) (edge_type q = TRUE_BRANCH)
          \<longrightarrow> source_label e = source_label q \<and> edge_type e = edge_type q)"

lemma branch_intra: "is_branch e \<Longrightarrow> intra e" "is_branch e \<Longrightarrow> branch_events (edge_type e) = [Branch (edge_type e = TRUE_BRANCH)]"
  by (auto simp: is_branch_def intra_def)

lemma apart_to:
  assumes a: "branches_apart c d m"
  shows "path c l es l' \<Longrightarrow> \<exists>ds. path d l ds l' \<and> events d ds = events c es"
proof (induction es arbitrary: l)
  case Nil
  then show ?case by (intro exI [of _ "[]"]) simp
next
  case (Cons e es)
  have e: "e \<in> set (cfg_edges c)" "intra e" "source_label e = l" using Cons.prems by auto
  obtain ds where ds: "path d (target_label e) ds l'" "events d ds = events c es" using Cons by auto
  have l: "events_at d l = events_at c l" using a e by (auto simp: branches_apart_def)
  show ?case
  proof (cases "is_branch e")
    case False
    then have "copy_edge e \<in> set (cfg_edges d)" using a e(1,2) by (auto simp: branches_apart_def splits_to_def)
    then show ?thesis using ds e l by (intro exI [of _ "copy_edge e # ds"]) simp
  next
    case True
    let ?k = "branch_label m l (edge_type e = TRUE_BRANCH)"
    let ?e1 = "make_edge l ?k (edge_type e)" let ?e2 = "make_edge ?k (target_label e) INTRAPROCEDURAL"
    have i: "intra ?e1" "intra ?e2" using e(2) by (simp_all add: intra_def)
    have "splits_to m e ?e1" "splits_to m e ?e2" using True e(3) by (simp_all add: splits_to_def Let_def)
    then have "?e1 \<in> set (cfg_edges d)" "?e2 \<in> set (cfg_edges d)" using a e(1,2) i unfolding branches_apart_def by blast+
    moreover have "events_at d ?k = []" using a e True by (auto simp: branches_apart_def)
    ultimately show ?thesis using ds e(3) l i by (intro exI [of _ "?e1 # ?e2 # ds"]) simp
  qed
qed

lemma apart_from:
  assumes a: "branches_apart c d m" and l': "l' \<in> vertex_labels c"
  shows "path d l ds l' \<Longrightarrow> l \<in> vertex_labels c \<Longrightarrow> \<exists>es. path c l es l' \<and> events c es = events d ds"
proof (induction "length ds" arbitrary: l ds rule: less_induct)
  case less
  show ?case
  proof (cases ds)
    case Nil
    then show ?thesis using less.prems by (intro exI [of _ "[]"]) simp
  next
    case (Cons e1 ds1)
    have e1: "e1 \<in> set (cfg_edges d)" "intra e1" "source_label e1 = l" "path d (target_label e1) ds1 l'" using less.prems(1) Cons by auto
    obtain q where q: "q \<in> set (cfg_edges c)" "intra q" "splits_to m q e1" using a e1(1,2) unfolding branches_apart_def by blast
    have ev: "events_at d l = events_at c l" using a less.prems(2) by (simp add: branches_apart_def)
    show ?thesis
    proof (cases "is_branch q")
      case False
      then have e: "e1 = copy_edge q" using q(3) by (simp add: splits_to_def)
      have "target_label q \<in> vertex_labels c" using a q(1,2) by (auto simp: branches_apart_def)
      then obtain es where "path c (target_label q) es l'" "events c es = events d ds1"
        using less.hyps [of ds1 "target_label q"] Cons e1(4) e by auto
      then show ?thesis using q e1 e Cons ev by (intro exI [of _ "q # es"]) simp
    next
      case True
      let ?k = "branch_label m (source_label q) (edge_type q = TRUE_BRANCH)"
      have k: "?k \<notin> vertex_labels c" using a q(1) True by (auto simp: branches_apart_def)
      then have e: "e1 = make_edge (source_label q) ?k (edge_type q)" "source_label q = l"
        using q(3) True e1(3) less.prems(2) by (auto simp: splits_to_def Let_def)
      have "ds1 \<noteq> []" using e1(4) e(1) k l' by (cases ds1) auto
      then obtain e2 ds2 where d2: "ds1 = e2 # ds2" by (cases ds1) auto
      have e2: "e2 \<in> set (cfg_edges d)" "intra e2" "source_label e2 = ?k" "path d (target_label e2) ds2 l'" using e1(4) d2 e(1) by auto
      obtain p where p: "p \<in> set (cfg_edges c)" "intra p" "splits_to m p e2" using a e2(1,2) unfolding branches_apart_def by blast
      have sp: "source_label p \<in> vertex_labels c" using a p(1,2) by (auto simp: branches_apart_def)
      then have "is_branch p" "e2 = make_edge (branch_label m (source_label p) (edge_type p = TRUE_BRANCH)) (target_label p) INTRAPROCEDURAL"
        using p(3) e2(3) k by (auto simp: splits_to_def Let_def split: if_splits)
      note p' = this
      then have same: "source_label p = l" "edge_type p = edge_type q" using a q(1) p(1) True e2(3) e(2) unfolding branches_apart_def by auto
      have "target_label p \<in> vertex_labels c" using a p(1,2) by (auto simp: branches_apart_def)
      then obtain es where es: "path c (target_label p) es l'" "events c es = events d ds2"
        using less.hyps [of ds2 "target_label p"] Cons d2 e2(4) p'(2) by auto
      have "events_at d ?k = []" using a k by (simp add: branches_apart_def)
      then have "events d ds = events c (p # es)" using Cons d2 e e2(3) p'(2) es(2) same ev by simp
      then show ?thesis using es(1) p same by (intro exI [of _ "p # es"]) simp
    qed
  qed
qed

lemma decision_graph_apart:
  assumes g: "decidable_graph s c" and r: "decision_graph c cfgs s = Inr (d, s')"
  shows "branches_apart c d (intermediate_successors s')"
proof -
  let ?m = "intermediate_successors s'" let ?ws = "map snd (label_to_vertex c)"
  obtain vs es where t: "transform_vertices ?ws (s, []) = Inr (s', vs)" "transform_edges ?m (cfg_edges c) = Inr es"
    "d = Cfg (cfg_type c) (cfg_name c) (copy_interface c) cfgs vs es (entry_label c) (exit_label c)"
    using r by (auto simp: decision_graph_def new_cfg_def Let_def rbind_eq_Inr)
  have so: "sorted_map (label_to_vertex c)" using g by (simp add: decidable_graph_def)
  have names: "map vx_label ?ws = map fst (label_to_vertex c)" using g by (auto simp: decidable_graph_def)
  have L: "vx_label ` set ?ws = vertex_labels c" using names unfolding vertex_labels_def by (metis list.set_map)
  have "decided (intermediate_successors s) (next_label s) s []" using g by (auto simp: decided_def fresh_def decidable_graph_def)
  moreover have "coming (next_label s) s [] ?ws"
    unfolding coming_def names using g so by (auto simp: decidable_graph_def strict_sorted_iff)
  ultimately have v: "decided (intermediate_successors s) (next_label s) s' vs"
    "\<forall>w \<in> set ?ws. events_in vs (vx_label w) = vertex_events w \<and> map_of vs (vx_label w) \<noteq> None" "\<forall>k. k \<notin> vertex_labels c \<longrightarrow> events_in vs k = []"
    using transform_vertices_ok [OF t(1)] L by (auto simp: events_in_def)
  have ev: "events_at d k = events_in vs k" for k using t(3) by (simp add: events_at_def events_in_def)
  have old: "events_at d l = events_at c l \<and> l \<in> vertex_labels d" if lc: "l \<in> vertex_labels c" for l
  proof -
    obtain w where w: "map_of (label_to_vertex c) l = Some w" using lc by (auto simp: vertex_labels_map_of)
    have "vx_label w = l" "w \<in> set ?ws" using map_of_SomeD [OF w] g by (force simp: decidable_graph_def)+
    then show ?thesis using v(2) w ev t(3) vertex_labels_map_of [of l d] by (auto simp: events_at_def)
  qed
  note e = transform_edges_ok [OF t(2)]
  have closed: "\<forall>e \<in> set (cfg_edges c). intra e \<longrightarrow> source_label e \<in> vertex_labels c \<and> target_label e \<in> vertex_labels c"
    using g by (simp add: decidable_graph_def)
  have small: "l < next_label s \<and> map_of (intermediate_successors s) l = None" if "l \<in> vertex_labels c" for l
    using g that by (auto simp: decidable_graph_def vertex_labels_def)
  have fr: "fresh (intermediate_successors s) ?m (source_label q)" if "q \<in> set (cfg_edges c)" "is_branch q" for q
    using e that closed branch_intra(1) small by (simp add: fresh_def)
  have apart: "branch_label ?m (source_label q) b \<notin> vertex_labels c" if "q \<in> set (cfg_edges c)" "is_branch q" for q b
    using fr [OF that] v(1) small unfolding decided_def by (meson leD)
  have types: "edge_type x = edge_type y" if "is_branch x" "is_branch y" "(edge_type x = TRUE_BRANCH) = (edge_type y = TRUE_BRANCH)" for x y
    using that by (auto simp: is_branch_def)
  have inj: "source_label x = source_label y \<and> edge_type x = edge_type y"
    if x: "x \<in> set (cfg_edges c)" "is_branch x" and y: "y \<in> set (cfg_edges c)" "is_branch y"
      and eq: "branch_label ?m (source_label x) (edge_type x = TRUE_BRANCH) = branch_label ?m (source_label y) (edge_type y = TRUE_BRANCH)" for x y
    using v(1) fr [OF x] fr [OF y] eq types [OF x(2) y(2)] unfolding decided_def by blast
  have edges: "\<forall>x. intra x \<longrightarrow> (x \<in> set (cfg_edges d) \<longleftrightarrow> (\<exists>q \<in> set (cfg_edges c). intra q \<and> splits_to ?m q x))"
    using e t(3) by simp
  have sub: "vertex_labels c \<subseteq> vertex_labels d" "\<forall>l \<in> vertex_labels c. events_at d l = events_at c l" using old by auto
  have no: "\<forall>l. l \<notin> vertex_labels c \<longrightarrow> events_at d l = []" using v(3) ev by simp
  show ?thesis
    unfolding branches_apart_def using sub no edges closed apart inj by blast
qed

lemma decision_graph_runs:
  assumes g: "decidable_graph s c" and r: "decision_graph c cfgs s = Inr (d, s')" and l: "l \<in> vertex_labels c" "l' \<in> vertex_labels c"
  shows "runs d l w l' \<longleftrightarrow> runs c l w l'"
  using apart_to [OF decision_graph_apart [OF g r]] apart_from [OF decision_graph_apart [OF g r] l(2)] l(1)
  unfolding runs_def by metis

lemma decision_pass_graph:
  "decision_transformation_pass c s = rbind (transform_callees (name_to_cfg c) [] s) (\<lambda>(ds, s). decision_graph c ds s)"
  by (cases c) simp

section \<open>Graphs transformed twice\<close>

text \<open>
  The labels given to the branches of a decision are never given up, and vertices get new ones every time.
\<close>

lemma transform_vertex_cases:
  assumes "transform_vertex w s = Inr s'"
  obtains v where "fst s' = fst s" "snd s' = emplace (vx_label w) v (snd s)" | i where "s' = transform_decision (vx_label w) i s"
proof -
  have "(fst s' = fst s \<and> (\<exists>v. snd s' = emplace (vx_label w) v (snd s))) \<or> (\<exists>i. s' = transform_decision (vx_label w) i s)"
    using assms by (auto simp: transform_vertex_def Let_def split: vertex_type.splits option.splits Instruction.splits)
  then show thesis using that by blast
qed

lemma transform_vertex_keeps:
  assumes "transform_vertex w s = Inr s'" "sorted_map (intermediate_successors (fst s))"
  shows "sorted_map (intermediate_successors (fst s'))" "map_of (intermediate_successors (fst s)) \<subseteq>\<^sub>m map_of (intermediate_successors (fst s'))"
  using assms(1) by (cases rule: transform_vertex_cases;
    use assms(2) in \<open>auto simp: transform_decision_def Let_def sorted_emplace map_of_emplace map_le_def\<close>)+

lemma transform_vertices_keep:
  "transform_vertices ws s = Inr s' \<Longrightarrow> sorted_map (intermediate_successors (fst s))
     \<Longrightarrow> map_of (intermediate_successors (fst s)) \<subseteq>\<^sub>m map_of (intermediate_successors (fst s'))"
proof (induction ws arbitrary: s)
  case (Cons w ws)
  obtain s1 where s1: "transform_vertex w s = Inr s1" "transform_vertices ws s1 = Inr s'" using Cons.prems(1) by (auto simp: rbind_eq_Inr)
  show ?case using Cons.IH [OF s1(2)] transform_vertex_keeps [OF s1(1) Cons.prems(2)] map_le_trans by blast
qed simp

text \<open>
  The labels under which vertices are kept: those of the graph, and new ones.
\<close>

lemma transform_vertex_labels:
  assumes "transform_vertex w s = Inr s'" "unat (next_label (fst s)) + 2 < 2 ^ 32"
  shows "\<exists>m \<le> 2. unat (next_label (fst s')) = unat (next_label (fst s)) + m"
    "k \<in> fst ` set (snd s') \<Longrightarrow> k \<in> fst ` set (snd s) \<or> k = vx_label w \<or> next_label (fst s) \<le> k"
proof -
  let ?n = "next_label (fst s)"
  have u: "unat (?n + 1) = unat ?n + 1" "unat (?n + 2) = unat ?n + 2" using assms(2) by (simp_all add: unat_word_ariths)
  then have le: "?n \<le> ?n + 1" by (simp add: word_le_nat_alt)
  show "\<exists>m \<le> 2. unat (next_label (fst s')) = unat ?n + m"
    using assms(1)
  proof (cases rule: transform_vertex_cases)
    case (2 i)
    then show ?thesis using u by (intro exI [of _ 2]) (simp add: transform_decision_def Let_def add.commute)
  qed (auto intro: exI [of _ 0])
  show "k \<in> fst ` set (snd s') \<Longrightarrow> k \<in> fst ` set (snd s) \<or> k = vx_label w \<or> ?n \<le> k"
    using assms(1) by (cases rule: transform_vertex_cases) (use le in \<open>auto simp: transform_decision_def Let_def keys_emplace\<close>)
qed

lemma transform_vertices_labels:
  "transform_vertices ws s = Inr s' \<Longrightarrow> unat (next_label (fst s)) + 2 * length ws < 2 ^ 32
     \<Longrightarrow> k \<in> fst ` set (snd s') \<Longrightarrow> k \<in> fst ` set (snd s) \<or> k \<in> vx_label ` set ws \<or> next_label (fst s) \<le> k"
proof (induction ws arbitrary: s)
  case (Cons w ws)
  obtain s1 where s1: "transform_vertex w s = Inr s1" "transform_vertices ws s1 = Inr s'" using Cons.prems(1) by (auto simp: rbind_eq_Inr)
  have room: "unat (next_label (fst s)) + 2 < 2 ^ 32" using Cons.prems(2) by simp
  obtain m where m: "m \<le> 2" "unat (next_label (fst s1)) = unat (next_label (fst s)) + m" using transform_vertex_labels(1) [OF s1(1) room] by blast
  then have "next_label (fst s) \<le> next_label (fst s1)" "unat (next_label (fst s1)) + 2 * length ws < 2 ^ 32"
    using Cons.prems(2) by (simp_all add: word_le_nat_alt)
  then show ?case using Cons.IH [OF s1(2) _ Cons.prems(3)] transform_vertex_labels(2) [OF s1(1) room, of k] by (auto dest: order_trans)
qed simp

lemma transform_vertices_has:
  "transform_vertices ws s = Inr s' \<Longrightarrow> fst ` set (snd s) \<union> vx_label ` set ws \<subseteq> fst ` set (snd s')"
proof (induction ws arbitrary: s)
  case (Cons w ws)
  obtain s1 where s1: "transform_vertex w s = Inr s1" "transform_vertices ws s1 = Inr s'" using Cons.prems(1) by (auto simp: rbind_eq_Inr)
  have "fst ` set (snd s) \<union> {vx_label w} \<subseteq> fst ` set (snd s1)"
    using s1(1) by (cases rule: transform_vertex_cases) (auto simp: transform_decision_def Let_def keys_emplace)
  then show ?case using Cons.IH [OF s1(2)] by auto
qed simp

lemma decision_graph_parts:
  assumes "decision_graph c ds s = Inr (d, s')"
  shows "transform_vertices (map snd (label_to_vertex c)) (s, []) = Inr (s', label_to_vertex d)"
    "transform_edges (intermediate_successors s') (cfg_edges c) = Inr (cfg_edges d)"
  using assms by (auto simp: decision_graph_def new_cfg_def rbind_eq_Inr)

lemma given_labels:
  assumes g: "decidable_graph s c" and r: "decision_graph c ds s = Inr (d, s')" and e: "e \<in> set (cfg_edges c)" "is_branch e"
  obtains t f where "map_of (intermediate_successors s') (source_label e) = Some (t, f)"
    "next_label s \<le> (if edge_type e = TRUE_BRANCH then t else f)" "(if edge_type e = TRUE_BRANCH then t else f) < next_label s'"
proof -
  note p = decision_graph_parts [OF r]
  let ?m = "intermediate_successors s" and ?m' = "intermediate_successors s'"
  have so: "sorted_map (label_to_vertex c)" using g by (simp add: decidable_graph_def)
  have names: "map vx_label (map snd (label_to_vertex c)) = map fst (label_to_vertex c)" using g by (auto simp: decidable_graph_def)
  have "decided ?m (next_label s) s []" using g by (auto simp: decided_def fresh_def decidable_graph_def)
  moreover have "coming (next_label s) s [] (map snd (label_to_vertex c))"
    unfolding coming_def names using g so by (auto simp: decidable_graph_def strict_sorted_iff)
  ultimately have d: "decided ?m (next_label s) s' (label_to_vertex d)" using transform_vertices_ok [OF p(1)] by blast
  obtain t f where tf: "map_of ?m' (source_label e) = Some (t, f)"
    using transform_edges_ok [OF p(2)] e by fastforce
  have "source_label e \<in> vertex_labels c" using g e by (auto simp: decidable_graph_def branch_intra)
  then have "map_of ?m (source_label e) = None" using g by (auto simp: decidable_graph_def vertex_labels_def)
  then have "fresh ?m ?m' (source_label e)" using tf by (simp add: fresh_def)
  then have "next_label s \<le> branch_label ?m' (source_label e) (edge_type e = TRUE_BRANCH)" "branch_label ?m' (source_label e) (edge_type e = TRUE_BRANCH) < next_label s'"
    using d unfolding decided_def by blast+
  then show thesis using that [OF tf] tf by (simp add: branch_label_def)
qed

end
