(* ===== verification/Ahorn_Changes.thy ===== *)
theory Ahorn_Changes
  imports Ahorn_Pass Ahorn_Ok
begin

text \<open>
  The pass that collects the labels of instructions with a change annotation
  (\<^verbatim>\<open>src/ahorn/src/pass/change_annotation_collection_pass.cpp\<close>), and what the simulator does elsewhere.
\<close>

section \<open>The visitor\<close>

text \<open>The visitor sets a flag at a change annotation and keeps it otherwise.\<close>

fun changes_constant :: "Constant \<Rightarrow> bool \<Rightarrow> bool res" where
  "changes_constant (NondeterministicConstant _) flag = Inl (Logic_Error ''Not implemented yet.'')"
| "changes_constant _ flag = Inr flag"

fun changes_expression :: "Expression \<Rightarrow> bool \<Rightarrow> bool res" where
  "changes_expression (BinaryExpression bop l r) flag = rbind (changes_expression r flag) (changes_expression l)"
| "changes_expression (BooleanToIntegerCast e) flag = Inl (Logic_Error ''Not implemented yet.'')"
| "changes_expression (ChangeExpression old new) flag = Inr True"
| "changes_expression (UnaryExpression uop e) flag = changes_expression e flag"
| "changes_expression (ConstantExpression k) flag = changes_constant k flag"
| "changes_expression Undefined flag = Inl (Logic_Error ''Not implemented yet.'')"
| "changes_expression (Reference r) flag = Inr flag"
| "changes_expression (IntegerToBooleanCast e) flag = Inl (Logic_Error ''Not implemented yet.'')"
| "changes_expression (Phi v ops) flag = Inl (Logic_Error ''Not implemented yet.'')"

fun changes_instruction :: "Instruction \<Rightarrow> bool \<Rightarrow> bool res"
  and changes_instructions :: "Instruction list \<Rightarrow> bool \<Rightarrow> bool res" where
  "changes_instruction (AssignmentInstruction r e) flag = changes_expression e flag"
| "changes_instruction (CallInstruction x k k') flag = Inr flag"
| "changes_instruction (IfInstruction e t f) flag = changes_expression e flag"
| "changes_instruction (SequenceInstruction is) flag = changes_instructions is flag"
| "changes_instruction (WhileInstruction e t f) flag = Inl (Logic_Error ''Not implemented yet.'')"
| "changes_instruction (GotoInstruction l) flag = Inl (Logic_Error ''Not implemented yet.'')"
| "changes_instruction (HavocInstruction r) flag = Inr flag"
| "changes_instructions [] flag = Inr flag"
| "changes_instructions (i # is) flag = rbind (changes_instruction i flag) (changes_instructions is)"

definition containsChangeExpression :: "Instruction \<Rightarrow> bool res" where
  "containsChangeExpression i = changes_instruction i False"

section \<open>The pass\<close>

text \<open>The set of labels is kept in their order.\<close>

definition collect_vertex :: "Cfg \<Rightarrow> Vertex \<Rightarrow> label list \<Rightarrow> label list res" where
  "collect_vertex c v ls =
     (let l = vx_label v in
      if l = entry_label c \<or> l = exit_label c then Inr ls
      else case vx_instruction v of
             None \<Rightarrow> Inr ls
           | Some i \<Rightarrow> rbind (containsChangeExpression i) (\<lambda>b. Inr (if b then insort_insert l ls else ls)))"

fun collect_vertices :: "Cfg \<Rightarrow> Vertex list \<Rightarrow> label list \<Rightarrow> label list res" where
  "collect_vertices c [] ls = Inr ls"
| "collect_vertices c (v # vs) ls = rbind (collect_vertex c v ls) (collect_vertices c vs)"

fun collect_callees :: "label list res list \<Rightarrow> label list \<Rightarrow> label list res" where
  "collect_callees [] ls = Inr ls"
| "collect_callees (r # rs) ls = rbind r (\<lambda>new. collect_callees rs (fold insort_insert new ls))"

fun change_annotation_collection_pass :: "Cfg \<Rightarrow> bool \<Rightarrow> label list res" where
  "change_annotation_collection_pass (Cfg ty name vars cfgs vertices edges en ex) recurse =
     rbind (if recurse then collect_callees (map (\<lambda>p. change_annotation_collection_pass (snd p) True) cfgs) [] else Inr [])
       (collect_vertices (Cfg ty name vars cfgs vertices edges en ex) (map snd vertices))"

section \<open>Instructions without annotation\<close>

lemma changes_flag: "changes_expression e flag = Inr False \<Longrightarrow> \<not> flag"
proof (induction e arbitrary: flag)
  case (ConstantExpression k)
  then show ?case by (cases k) auto
next
  case (BinaryExpression bop l r)
  then obtain b where "changes_expression r flag = Inr b" "changes_expression l b = Inr False" by (auto simp: rbind_eq_Inr)
  then show ?case using BinaryExpression.IH(1) [of b] BinaryExpression.IH(2) [of flag] by (cases b) auto
qed auto

lemma unchanged_visit: "changes_expression e flag = Inr False \<Longrightarrow> visit sv m cx e st = visit sv m' cx e st"
proof (induction e arbitrary: flag st)
  case (BinaryExpression bop l r)
  then obtain b where b: "changes_expression r flag = Inr b" "changes_expression l b = Inr False" by (auto simp: rbind_eq_Inr)
  then have "\<not> b" using changes_flag by blast
  then have "\<And>st. visit sv m cx l st = visit sv m' cx l st" "\<And>st. visit sv m cx r st = visit sv m' cx r st"
    using BinaryExpression.IH(1) [OF b(2)] BinaryExpression.IH(2) [of flag] b(1) by auto
  then show ?case by simp
next
  case (UnaryExpression uop e)
  then have "\<And>st. visit sv m cx e st = visit sv m' cx e st" by (simp add: UnaryExpression.IH [of flag])
  then show ?case by simp
qed auto

lemma unchanged_regular:
  assumes "vx_instruction v = Some i" "containsChangeExpression i = Inr False"
  shows "handleRegularVertex sv m v ex cx = handleRegularVertex sv m' v ex cx"
proof (cases i)
  case (AssignmentInstruction r e)
  then have "evaluate sv m e cx = evaluate sv m' e cx"
    using assms(2) unchanged_visit [of e False sv m cx "[]" m'] by (simp add: containsChangeExpression_def evaluate_def)
  then show ?thesis using assms(1) AssignmentInstruction by (simp add: handleRegularVertex_def visitAssignment_def)
next
  case (IfInstruction e t f)
  then have "evaluate sv m e cx = evaluate sv m' e cx"
    using assms(2) unchanged_visit [of e False sv m cx "[]" m'] by (simp add: containsChangeExpression_def evaluate_def)
  then show ?thesis using assms(1) IfInstruction by (simp add: handleRegularVertex_def visitIf_def)
qed (simp_all add: assms(1) handleRegularVertex_def)

section \<open>What is collected\<close>

lemma collect_vertices_ok:
  "collect_vertices c vs ls = Inr ls' \<Longrightarrow> set ls' = set ls \<union> {vx_label v | v i. v \<in> set vs \<and> vx_label v \<noteq> entry_label c
     \<and> vx_label v \<noteq> exit_label c \<and> vx_instruction v = Some i \<and> containsChangeExpression i = Inr True}
   \<and> (\<forall>v \<in> set vs. \<forall>i. vx_label v \<noteq> entry_label c \<and> vx_label v \<noteq> exit_label c \<and> vx_instruction v = Some i
         \<longrightarrow> (\<exists>b. containsChangeExpression i = Inr b))"
proof (induction vs arbitrary: ls)
  case (Cons v vs)
  obtain ls1 where ls1: "collect_vertex c v ls = Inr ls1" "collect_vertices c vs ls1 = Inr ls'" using Cons.prems by (auto simp: rbind_eq_Inr)
  let ?P = "\<lambda>i. vx_label v \<noteq> entry_label c \<and> vx_label v \<noteq> exit_label c \<and> vx_instruction v = Some i"
  have "set ls1 = set ls \<union> {vx_label v | i. ?P i \<and> containsChangeExpression i = Inr True}
     \<and> (\<forall>i. ?P i \<longrightarrow> (\<exists>b. containsChangeExpression i = Inr b))"
  proof (cases "\<exists>i. ?P i")
    case True
    then obtain i where i: "?P i" by blast
    then obtain b where b: "containsChangeExpression i = Inr b" "ls1 = (if b then insort_insert (vx_label v) ls else ls)"
      using ls1(1) by (auto simp: collect_vertex_def Let_def rbind_eq_Inr)
    then show ?thesis using i by (cases b) (auto simp: set_insort_insert)
  next
    case False
    then have "ls1 = ls" using ls1(1) by (auto simp: collect_vertex_def Let_def split: if_splits option.splits)
    then show ?thesis using False by auto
  qed
  then show ?case using Cons.IH [OF ls1(2)] by auto
qed simp

lemma collect_callees_ok:
  "collect_callees rs ls = Inr ls' \<Longrightarrow> set ls \<subseteq> set ls' \<and> (\<forall>r \<in> set rs. \<exists>new. r = Inr new \<and> set new \<subseteq> set ls')"
proof (induction rs arbitrary: ls)
  case (Cons r rs)
  then obtain new where "r = Inr new" "collect_callees rs (fold insort_insert new ls) = Inr ls'" by (auto simp: rbind_eq_Inr)
  then show ?case using Cons.IH [of "fold insort_insert new ls"] by (auto simp: fold_insort)
qed simp

section \<open>The labels collected\<close>

text \<open>Which expressions and instructions hold a change annotation.\<close>

fun annotated :: "Expression \<Rightarrow> bool" where
  "annotated (ChangeExpression old new) \<longleftrightarrow> True"
| "annotated (BinaryExpression bop l r) \<longleftrightarrow> annotated l \<or> annotated r"
| "annotated (UnaryExpression uop e) \<longleftrightarrow> annotated e"
| "annotated _ \<longleftrightarrow> False"

fun annotated_instruction :: "Instruction \<Rightarrow> bool" where
  "annotated_instruction (AssignmentInstruction r e) \<longleftrightarrow> annotated e"
| "annotated_instruction (IfInstruction e t f) \<longleftrightarrow> annotated e"
| "annotated_instruction (SequenceInstruction is) \<longleftrightarrow> (\<exists>i \<in> set is. annotated_instruction i)"
| "annotated_instruction _ \<longleftrightarrow> False"

lemma changes_expression_annotated: "changes_expression e flag = Inr b \<Longrightarrow> b \<longleftrightarrow> flag \<or> annotated e"
proof (induction e arbitrary: flag b)
  case (ConstantExpression k)
  then show ?case by (cases k) auto
next
  case (BinaryExpression bop l r)
  then obtain b' where "changes_expression r flag = Inr b'" "changes_expression l b' = Inr b" by (auto simp: rbind_eq_Inr)
  then show ?case using BinaryExpression.IH(1) [of b' b] BinaryExpression.IH(2) [of flag b'] by auto
qed auto

lemma changes_instruction_annotated:
  "changes_instruction i flag = Inr b \<Longrightarrow> b \<longleftrightarrow> flag \<or> annotated_instruction i"
  "changes_instructions is flag = Inr b \<Longrightarrow> b \<longleftrightarrow> flag \<or> (\<exists>i \<in> set is. annotated_instruction i)"
proof (induction i flag and "is" flag arbitrary: b and b rule: changes_instruction_changes_instructions.induct)
  case (9 i "is" flag)
  then obtain b' where "changes_instruction i flag = Inr b'" "changes_instructions is b' = Inr b" by (auto simp: rbind_eq_Inr)
  then show ?case using 9(1) [of b'] 9(2) [of b' b] by auto
qed (auto dest: changes_expression_annotated)

lemma contains_annotated: "containsChangeExpression i = Inr b \<Longrightarrow> b \<longleftrightarrow> annotated_instruction i"
  unfolding containsChangeExpression_def using changes_instruction_annotated(1) by blast

definition annotated_labels :: "Cfg \<Rightarrow> label set" where
  "annotated_labels c = {vx_label v | v i. v \<in> snd ` set (label_to_vertex c) \<and> vx_label v \<noteq> entry_label c \<and> vx_label v \<noteq> exit_label c
     \<and> vx_instruction v = Some i \<and> annotated_instruction i}"

lemma collect_vertices_labels:
  assumes "collect_vertices c (map snd (label_to_vertex c)) ls = Inr ls'"
  shows "set ls' = set ls \<union> annotated_labels c"
    and "v \<in> snd ` set (label_to_vertex c) \<Longrightarrow> vx_label v \<noteq> entry_label c \<Longrightarrow> vx_label v \<noteq> exit_label c \<Longrightarrow> vx_instruction v = Some i
      \<Longrightarrow> \<exists>b. containsChangeExpression i = Inr b"
proof -
  note ok = collect_vertices_ok [OF assms]
  show "\<exists>b. containsChangeExpression i = Inr b" if "v \<in> snd ` set (label_to_vertex c)" "vx_label v \<noteq> entry_label c" "vx_label v \<noteq> exit_label c" "vx_instruction v = Some i"
    using ok that by auto
  have same: "containsChangeExpression i = Inr True \<longleftrightarrow> annotated_instruction i"
    if at: "v \<in> snd ` set (label_to_vertex c)" "vx_label v \<noteq> entry_label c" "vx_label v \<noteq> exit_label c" "vx_instruction v = Some i" for v i
  proof -
    have "\<exists>b. containsChangeExpression i = Inr b" using ok at by auto
    then obtain b where "containsChangeExpression i = Inr b" by blast
    then show ?thesis using contains_annotated by auto
  qed
  have "{vx_label v | v i. v \<in> set (map snd (label_to_vertex c)) \<and> vx_label v \<noteq> entry_label c \<and> vx_label v \<noteq> exit_label c
     \<and> vx_instruction v = Some i \<and> containsChangeExpression i = Inr True} = annotated_labels c"
    unfolding annotated_labels_def set_map using same by (intro Collect_cong ex_cong1 conj_cong refl) blast
  then show "set ls' = set ls \<union> annotated_labels c" using ok by simp
qed

lemma collect_callees_set:
  "collect_callees rs ls = Inr ls' \<Longrightarrow> set ls' = set ls \<union> (\<Union>r \<in> set rs. case r of Inr new \<Rightarrow> set new | Inl _ \<Rightarrow> {})"
proof (induction rs arbitrary: ls)
  case (Cons r rs)
  then obtain new where "r = Inr new" "collect_callees rs (fold insort_insert new ls) = Inr ls'" by (auto simp: rbind_eq_Inr)
  then show ?case using Cons.IH [of "fold insort_insert new ls"] by (auto simp: fold_insort)
qed simp

lemma pass_collects: "change_annotation_collection_pass c True = Inr ls \<Longrightarrow> set ls = (\<Union>d \<in> set (parts c). annotated_labels d)"
proof (induction c arbitrary: ls)
  case (Cfg ty name vars cfgs vertices edges en ex)
  let ?c = "Cfg ty name vars cfgs vertices edges en ex"
  obtain ls1 where ls1: "collect_callees (map (\<lambda>p. change_annotation_collection_pass (snd p) True) cfgs) [] = Inr ls1"
    "collect_vertices ?c (map snd vertices) ls1 = Inr ls"
    using Cfg.prems by (auto simp: rbind_eq_Inr)
  have sub: "set new = (\<Union>d \<in> set (parts (snd p)). annotated_labels d)" if p: "p \<in> set cfgs" and "change_annotation_collection_pass (snd p) True = Inr new" for p new
  proof -
    have "snd p \<in> Basic_BNFs.snds p" by (cases p) simp
    from Cfg.IH [OF p this that(2)] show ?thesis .
  qed
  have "\<exists>new. change_annotation_collection_pass (snd p) True = Inr new" if "p \<in> set cfgs" for p
    using collect_callees_ok [OF ls1(1)] that by auto
  then have "(case change_annotation_collection_pass (snd p) True of Inr new \<Rightarrow> set new | Inl _ \<Rightarrow> {}) = (\<Union>d \<in> set (parts (snd p)). annotated_labels d)"
    if "p \<in> set cfgs" for p
    using sub that by fastforce
  then have "set ls1 = (\<Union>p \<in> set cfgs. \<Union>d \<in> set (parts (snd p)). annotated_labels d)"
    using collect_callees_set [OF ls1(1)] by simp
  then show ?case using collect_vertices_labels(1) [of ?c ls1 ls] ls1(2) by auto
qed

lemma pass_visits:
  "change_annotation_collection_pass c True = Inr ls \<Longrightarrow> d \<in> set (parts c) \<Longrightarrow> \<exists>ls1 ls2. collect_vertices d (map snd (label_to_vertex d)) ls1 = Inr ls2"
proof (induction c arbitrary: ls)
  case (Cfg ty name vars cfgs vertices edges en ex)
  let ?c = "Cfg ty name vars cfgs vertices edges en ex"
  obtain ls1 where ls1: "collect_callees (map (\<lambda>p. change_annotation_collection_pass (snd p) True) cfgs) [] = Inr ls1"
    "collect_vertices ?c (map snd vertices) ls1 = Inr ls"
    using Cfg.prems(1) by (auto simp: rbind_eq_Inr)
  show ?case
  proof (cases "d = ?c")
    case False
    then obtain p where p: "p \<in> set cfgs" "d \<in> set (parts (snd p))" using Cfg.prems(2) by auto
    obtain new where "change_annotation_collection_pass (snd p) True = Inr new" using collect_callees_ok [OF ls1(1)] p(1) by auto
    moreover have "snd p \<in> Basic_BNFs.snds p" by (cases p) simp
    ultimately show ?thesis using Cfg.IH [OF p(1) _ _ p(2)] by blast
  qed (use ls1(2) in auto)
qed

lemma unannotated_execute:
  assumes pass: "change_annotation_collection_pass c True = Inr ls" and f: "call_stack cx = f # fs" "fr_cfg f \<in> set (parts c)"
    and v: "(l, vertex (cx_state cx)) \<in> set (label_to_vertex (fr_cfg f))" "vx_label (vertex (cx_state cx)) = l" "l \<notin> set ls"
    and r: "vx_type (vertex (cx_state cx)) = REGULAR \<Longrightarrow> l \<noteq> entry_label (fr_cfg f) \<and> l \<noteq> exit_label (fr_cfg f)"
  shows "execute sv m ex cx = execute sv m' ex cx"
proof -
  let ?v = "vertex (cx_state cx)"
  have "handleRegularVertex sv m ?v ex cx = handleRegularVertex sv m' ?v ex cx" if "vx_type ?v = REGULAR"
  proof (cases "vx_instruction ?v")
    case (Some i)
    have at: "?v \<in> snd ` set (label_to_vertex (fr_cfg f))" "vx_label ?v \<noteq> entry_label (fr_cfg f)" "vx_label ?v \<noteq> exit_label (fr_cfg f)"
      using v(1,2) r [OF that] by (force, simp_all)
    obtain ls1 ls2 where "collect_vertices (fr_cfg f) (map snd (label_to_vertex (fr_cfg f))) ls1 = Inr ls2"
      using pass_visits [OF pass f(2)] by blast
    from collect_vertices_labels(2) [OF this at Some] obtain b where b: "containsChangeExpression i = Inr b" by blast
    have "\<not> annotated_instruction i"
    proof
      assume "annotated_instruction i"
      then have "l \<in> annotated_labels (fr_cfg f)" using at Some v(2) unfolding annotated_labels_def by blast
      then show False using pass_collects [OF pass] f(2) v(3) by blast
    qed
    then show ?thesis using unchanged_regular [OF Some] b contains_annotated [OF b] by simp
  qed (simp add: handleRegularVertex_def)
  then show ?thesis using f(1) by (cases "vx_type ?v") (simp_all add: execute_def getFrame_def Let_def)
qed

end
