(* ===== verification/Ahorn_Pass_Theorems.thy ===== *)
theory Ahorn_Pass_Theorems
  imports Ahorn_Projects Ahorn_Splits Ahorn_Changes Ahorn_Example
begin

text \<open>
  The properties of the builder of control-flow graphs and of the passes over them.
\<close>

section \<open>A project\<close>

text \<open>
  A program that adds, decides, and calls a function block on one of the branches.
\<close>

definition count_up :: "Variable \<Rightarrow> Instruction" where
  "count_up v = AssignmentInstruction (VariableAccess v) (BinaryExpression ADD (Reference (VariableAccess v)) (ConstantExpression (IntegerConstant 1)))"

definition module_f :: Module where
  "module_f = \<lparr>mod_name = ''F'', mod_kind = FUNCTION_BLOCK, mod_interface = [(''i'', var_i)],
     mod_instructions = [(11, count_up var_i), (12, GotoInstruction 13)], mod_entry = 10, mod_exit = 13\<rparr>"

definition module_p :: Module where
  "module_p = \<lparr>mod_name = ''P'', mod_kind = PROGRAM, mod_interface = [(''a'', var_a), (''f'', var_f), (''x'', var_x)],
     mod_instructions =
       [(1, count_up var_x), (2, GotoInstruction 3),
        (3, IfInstruction (BinaryExpression GREATER_THAN (Reference (VariableAccess var_a)) (ConstantExpression (IntegerConstant 0))) 4 6),
        (4, count_up var_x), (5, GotoInstruction 7), (6, CallInstruction var_f 7 10), (7, count_up var_x), (8, GotoInstruction 9)],
     mod_entry = 0, mod_exit = 9\<rparr>"

definition project_ex :: Project where
  "project_ex = [(''F'', module_f), (''P'', module_p)]"

definition rank_ex :: "string \<Rightarrow> nat" where
  "rank_ex n = (if n = ''P'' then 1 else 0)"

lemma project_ex_ready: "ready_project rank_ex project_ex"
  unfolding ready_project_def ready_shape_def ready_calls_def ready_interface_def module_labels_def by code_simp

section \<open>The builder\<close>

text \<open>
  On a project of well-formed modules whose types do not depend on themselves the builder ends and
  returns a program whose graphs have the edges their instructions need, all of them leading to vertices.
\<close>

theorem project_builds:
  assumes "ready_project rank p" "q \<in> set p" "mod_kind (snd q) = PROGRAM"
  shows "\<exists>c. build p = Inr c \<and> cfg_type c = PROGRAM \<and> wf_names c \<and> (\<forall>d \<in> set (parts c). ready_graph d)"
  by (rule build_succeeds [OF assms])

lemma project_builds_ex: "\<exists>c. build project_ex = Inr c"
proof -
  have "(''P'', module_p) \<in> set project_ex" "mod_kind (snd (''P'', module_p)) = PROGRAM" by (simp_all add: project_ex_def module_p_def)
  then show ?thesis using build_succeeds [OF project_ex_ready] by blast
qed

theorem project_builds_witness: "\<exists>c. build project_ex = Inr c \<and> cfg_type c = PROGRAM \<and> wf_names c \<and> (\<forall>d \<in> set (parts c). ready_graph d)"
proof -
  have "(''P'', module_p) \<in> set project_ex" "mod_kind (snd (''P'', module_p)) = PROGRAM" by (simp_all add: project_ex_def module_p_def)
  then show ?thesis by (rule project_builds [OF project_ex_ready])
qed

lemma find_edge_at: "find_edge msg (\<lambda>e. source_label e = l \<and> Q e) c = (case find Q (getOutgoingEdges c l) of None \<Rightarrow> Inl (Logic_Error msg) | Some e \<Rightarrow> Inr e)"
proof -
  have "find Q (filter (\<lambda>e. source_label e = l) es) = find (\<lambda>e. source_label e = l \<and> Q e) es" for es by (induction es) auto
  then show ?thesis by (simp add: find_edge_def getOutgoingEdges_def)
qed

text \<open>
  C16: The graph of a well-formed module has, for each instruction, the edge the engines look up: from an
  assignment to the target of the jump behind it, from a decision to both branches, from a call to the entry
  of the callee and to where the call returns.
\<close>

theorem module_edges:
  assumes r: "ready_module cfgs m" and b: "build_graph m own cfgs = Inr c" and i: "(l, i) \<in> set (mod_instructions m)"
  shows "case i of
      AssignmentInstruction _ _ \<Rightarrow> \<exists>t. (l + 1, GotoInstruction t) \<in> set (mod_instructions m) \<and> getIntraproceduralEdge c l = Inr (make_edge l t INTRAPROCEDURAL)
    | HavocInstruction _ \<Rightarrow> \<exists>t. (l + 1, GotoInstruction t) \<in> set (mod_instructions m) \<and> getIntraproceduralEdge c l = Inr (make_edge l t INTRAPROCEDURAL)
    | IfInstruction _ t f \<Rightarrow> getTrueEdge c l = Inr (make_edge l t TRUE_BRANCH) \<and> getFalseEdge c l = Inr (make_edge l f FALSE_BRANCH)
    | WhileInstruction _ t f \<Rightarrow> getTrueEdge c l = Inr (make_edge l t TRUE_BRANCH) \<and> getFalseEdge c l = Inr (make_edge l f FALSE_BRANCH)
    | CallInstruction _ here callee \<Rightarrow> getIntraproceduralCallToReturnEdge c l = Inr (make_edge l here INTRAPROCEDURAL_CALL_TO_RETURN)
        \<and> getInterproceduralCallEdge c l = Inr (make_edge l callee INTERPROCEDURAL_CALL)
    | _ \<Rightarrow> True"
proof -
  note g = build_graph_parts [OF r b]
  have w: "with_instruction c l P a = rassert (P i) a" if "\<not> is_goto i" for P and a :: "'a res"
    using graph_instruction [OF r g, of l i] i that by (auto simp: regular_instruction_Inr with_instruction_def)
  have assign: "\<exists>t. (l + 1, GotoInstruction t) \<in> set (mod_instructions m) \<and> getIntraproceduralEdge c l = Inr (make_edge l t INTRAPROCEDURAL)"
    if a: "is_assignment i \<or> is_havoc i"
  proof -
    have ng: "\<not> is_goto i" using a by (cases i) (simp_all add: is_goto_def is_assignment_def is_havoc_def)
    obtain j where j: "(l + 1, j) \<in> set (mod_instructions m)" "is_goto j" using ready_module_at(3) [OF r i a] by blast
    then obtain t where t: "j = GotoInstruction t" by (cases j) (simp_all add: is_goto_def)
    have "map_of (mod_instructions m) (l + 1) = Some (GotoInstruction t)" using j(1) t ready_module_keys(2) [OF r] by simp
    then have "getOutgoingEdges c l = [make_edge l t INTRAPROCEDURAL]" using graph_out [OF r g i ng] a by simp
    then show ?thesis using j(1) t a
      by (intro exI [of _ t]) (simp add: getIntraproceduralEdge_def w [OF ng] getSucceedingLabels_def find_edge_at)
  qed
  show ?thesis
  proof (cases i)
    case (IfInstruction e t f)
    then have ng: "\<not> is_goto i" by (simp add: is_goto_def)
    have "getOutgoingEdges c l = [make_edge l t TRUE_BRANCH, make_edge l f FALSE_BRANCH]"
      using graph_out [OF r g i ng] IfInstruction by (simp add: is_assignment_def is_havoc_def out_of_def)
    then show ?thesis using IfInstruction by (simp add: getTrueEdge_def getFalseEdge_def w [OF ng] is_if_def find_edge_at)
  next
    case (WhileInstruction e t f)
    then have ng: "\<not> is_goto i" by (simp add: is_goto_def)
    have "getOutgoingEdges c l = [make_edge l t TRUE_BRANCH, make_edge l f FALSE_BRANCH]"
      using graph_out [OF r g i ng] WhileInstruction by (simp add: is_assignment_def is_havoc_def out_of_def)
    then show ?thesis using WhileInstruction by (simp add: getTrueEdge_def getFalseEdge_def w [OF ng] is_while_def is_if_def find_edge_at)
  next
    case (CallInstruction x here callee)
    then have ng: "\<not> is_goto i" by (simp add: is_goto_def)
    have "getOutgoingEdges c l = [make_edge l callee INTERPROCEDURAL_CALL, make_edge l here INTRAPROCEDURAL_CALL_TO_RETURN]"
      using graph_call(1) [OF r g] i CallInstruction by simp
    then show ?thesis using CallInstruction
      by (simp add: getIntraproceduralCallToReturnEdge_def getInterproceduralCallEdge_def w [OF ng] is_call_def find_edge_at)
  qed (use assign in \<open>simp_all add: is_assignment_def is_havoc_def\<close>)
qed

theorem module_edges_witness:
  "\<exists>c. build_graph module_f [] [] = Inr c \<and> getIntraproceduralEdge c 11 = Inr (make_edge 11 13 INTRAPROCEDURAL)"
proof -
  have r: "ready_module [] module_f" unfolding ready_module_def module_labels_def by code_simp
  have "case build_graph module_f [] [] of Inl _ \<Rightarrow> False | Inr c \<Rightarrow> True" by code_simp
  then obtain c where c: "build_graph module_f [] [] = Inr c" by (auto split: sum.splits)
  from module_edges [OF r c, of 11 "count_up var_i"]
  have "\<exists>t. (12, GotoInstruction t) \<in> set (mod_instructions module_f) \<and> getIntraproceduralEdge c 11 = Inr (make_edge 11 t INTRAPROCEDURAL)"
    by (simp add: module_f_def count_up_def)
  then show ?thesis using c by (auto simp: module_f_def count_up_def)
qed

section \<open>Basic blocks\<close>

text \<open>
  C7: The pass that builds basic blocks keeps what a graph does: between two labels its result keeps, the
  sequences of instructions executed and branches taken are those of the graph it is applied to.
\<close>

theorem basic_blocks_keep_runs:
  assumes "plain_graph c" "basic_block_pass c = Inr d" "l \<in> vertex_labels d" "l' \<in> vertex_labels d"
  shows "runs d l w l' \<longleftrightarrow> runs c l w l'"
proof -
  obtain cfgs where "block_graph c cfgs = Inr d" using assms(2) by (auto simp: basic_block_pass_graph [of c] rbind_eq_Inr)
  then show ?thesis by (rule block_graph_runs [OF assms(1) _ assms(3,4)])
qed

definition graph_ex :: Cfg where
  "graph_ex = (case build project_ex of Inr c \<Rightarrow> c | Inl _ \<Rightarrow> main_ex)"

lemma graph_ex_built: "build project_ex = Inr graph_ex"
  using project_builds_ex by (auto simp: graph_ex_def)

definition if_ex :: Instruction where
  "if_ex = IfInstruction (BinaryExpression GREATER_THAN (Reference (VariableAccess var_a)) (ConstantExpression (IntegerConstant 0))) 4 6"

lemma blocks_ex:
  "case basic_block_pass graph_ex of Inl _ \<Rightarrow> False
     | Inr d \<Rightarrow> map fst (label_to_vertex d) = [0, 1, 4, 6, 7, 9]
         \<and> map_of (label_to_vertex d) 1 = Some (instruction_vertex 1 (SequenceInstruction [count_up var_x, if_ex]))"
  by code_simp

theorem basic_blocks_keep_runs_witness:
  "\<exists>d. basic_block_pass graph_ex = Inr d
     \<and> runs d 1 [Execute (count_up var_x), Execute if_ex, Branch True, Execute (count_up var_x)] 7"
proof -
  obtain d where d: "basic_block_pass graph_ex = Inr d" "map fst (label_to_vertex d) = [0, 1, 4, 6, 7, 9]" using blocks_ex by (auto split: sum.splits)
  have "set (map fst (label_to_vertex d)) = {0, 1, 4, 6, 7, 9}" by (simp only: d(2) list.set)
  then have l: "1 \<in> vertex_labels d" "7 \<in> vertex_labels d" by (simp_all add: vertex_labels_def)
  have p: "plain_graph graph_ex" unfolding plain_graph_def by code_simp
  have "path graph_ex 1 [make_edge 1 3 INTRAPROCEDURAL, make_edge 3 4 TRUE_BRANCH, make_edge 4 7 INTRAPROCEDURAL] 7" by code_simp
  moreover have "events graph_ex [make_edge 1 3 INTRAPROCEDURAL, make_edge 3 4 TRUE_BRANCH, make_edge 4 7 INTRAPROCEDURAL]
    = [Execute (count_up var_x), Execute if_ex, Branch True, Execute (count_up var_x)]" by code_simp
  ultimately have "runs graph_ex 1 [Execute (count_up var_x), Execute if_ex, Branch True, Execute (count_up var_x)] 7"
    unfolding runs_def by blast
  then show ?thesis using basic_blocks_keep_runs [OF p d(1) l] d(1) by blast
qed

text \<open>
  The loop that follows a block ends for every leader, also in graphs with loops: the vertices it takes
  have one edge that leads to them, so it takes none of them twice.
\<close>

theorem block_loop_terminates:
  assumes "plain_graph c" "leaders_of c = Inr ls" "l \<in> set ls" "l \<in> vertex_labels c"
  shows "block_labels c ls [l] (getSucceedingLabels c l) \<noteq> None"
  by (rule block_loop_ends [OF assms])

theorem block_loop_terminates_witness: "block_labels graph_ex [0, 1, 4, 6, 7, 9] [1] (getSucceedingLabels graph_ex 1) \<noteq> None"
proof (rule block_loop_terminates)
  show "plain_graph graph_ex" unfolding plain_graph_def by code_simp
  show "leaders_of graph_ex = Inr [0, 1, 4, 6, 7, 9]" by code_simp
  show "1 \<in> vertex_labels graph_ex" by code_simp
qed simp

text \<open>
  C6: What is built from a project of well-formed modules is accepted by the pass that builds basic blocks, and
  the program of blocks has the runs of the program: the entry is kept, and between any labels kept the same
  instructions are executed and branches taken.
\<close>

theorem built_blocks:
  assumes "ready_project rank p" "q \<in> set p" "mod_kind (snd q) = PROGRAM"
  shows "\<exists>c d. build p = Inr c \<and> basic_block_pass c = Inr d \<and> wf_names d \<and> entry_label c \<in> vertex_labels d
     \<and> (\<forall>l \<in> vertex_labels d. \<forall>l' \<in> vertex_labels d. \<forall>w. runs d l w l' \<longleftrightarrow> runs c l w l')"
proof -
  obtain c where c: "build p = Inr c" "wf_names c" "\<forall>d \<in> set (parts c). ready_graph d" using build_succeeds [OF assms] by blast
  obtain d where d: "basic_block_pass c = Inr d" "wf_names d" "entry_label c \<in> vertex_labels d" using basic_block_pass_succeeds [OF c(2,3)] by blast
  obtain cfgs where "block_graph c cfgs = Inr d" using d(1) by (auto simp: basic_block_pass_graph [of c] rbind_eq_Inr)
  moreover have "plain_graph c" using c(3) parts_self [of c] by (auto simp: ready_graph_def)
  ultimately show ?thesis using c(1) d block_graph_runs by blast
qed

theorem built_blocks_witness:
  "\<exists>c d. build project_ex = Inr c \<and> basic_block_pass c = Inr d \<and> wf_names d \<and> entry_label c \<in> vertex_labels d"
proof -
  have "(''P'', module_p) \<in> set project_ex" "mod_kind (snd (''P'', module_p)) = PROGRAM" by (simp_all add: project_ex_def module_p_def)
  then show ?thesis using built_blocks [OF project_ex_ready] by blast
qed




section \<open>Change annotations\<close>

text \<open>
  C36: The pass that collects change annotations returns the labels of exactly the instructions with an
  annotation, of the graph and of all graphs it uses.
\<close>

theorem change_annotations_collected:
  assumes "change_annotation_collection_pass c True = Inr ls"
  shows "set ls = (\<Union>d \<in> set (parts c). annotated_labels d)"
  by (rule pass_collects [OF assms])

text \<open>A program whose old and new versions assign different values.\<close>

definition changed_ex :: Cfg where
  "changed_ex = Cfg PROGRAM ''P'' [(''x'', var_x)] []
     [vx 0 ENTRY None, vx 1 REGULAR (Some (count_up var_x)),
      vx 2 REGULAR (Some (AssignmentInstruction (VariableAccess var_x) (ChangeExpression (ConstantExpression (IntegerConstant 1)) (ConstantExpression (IntegerConstant 2))))),
      vx 3 EXIT None]
     [make_edge 0 1 INTRAPROCEDURAL, make_edge 1 2 INTRAPROCEDURAL, make_edge 2 3 INTRAPROCEDURAL] 0 3"

theorem change_annotations_collected_witness: "change_annotation_collection_pass changed_ex True = Inr [2] \<and> (\<Union>d \<in> set (parts changed_ex). annotated_labels d) = {2}"
proof -
  have "change_annotation_collection_pass changed_ex True = Inr [2]" by code_simp
  then show ?thesis using change_annotations_collected [of changed_ex "[2]"] by simp
qed

text \<open>
  C35: An instruction whose label the pass does not collect is executed in the same way for the old and the new
  version of the program, and when no version is asked for.
\<close>

theorem unannotated_alike:
  assumes "change_annotation_collection_pass c True = Inr ls" "call_stack cx = f # fs" "fr_cfg f \<in> set (parts c)"
    "(l, vertex (cx_state cx)) \<in> set (label_to_vertex (fr_cfg f))" "vx_label (vertex (cx_state cx)) = l" "l \<notin> set ls"
    "vx_type (vertex (cx_state cx)) = REGULAR \<longrightarrow> l \<noteq> entry_label (fr_cfg f) \<and> l \<noteq> exit_label (fr_cfg f)"
  shows "execute sv m ex cx = execute sv m' ex cx"
  by (rule unannotated_execute [OF assms(1-6)]) (use assms(7) in blast)

definition changed_context :: "val Context" where
  "changed_context = \<lparr>cx_cycle = 0, cx_state = \<lparr>vertex = snd (vx 1 REGULAR (Some (count_up var_x))), concrete_valuations = [''P.x__0'' \<mapsto> IntV 7]\<rparr>,
     call_stack = [main_frame changed_ex]\<rparr>"

theorem unannotated_alike_witness: "execute solver_ex OLD (\<lparr>whole_program_inputs = [], drawn = 0\<rparr>) changed_context = execute solver_ex NEW \<lparr>whole_program_inputs = [], drawn = 0\<rparr> changed_context"
proof (rule unannotated_alike)
  show "change_annotation_collection_pass changed_ex True = Inr [2]" by code_simp
  show "call_stack changed_context = main_frame changed_ex # []" by (simp add: changed_context_def)
  show "fr_cfg (main_frame changed_ex) \<in> set (parts changed_ex)" by (simp add: main_frame_def parts_self)
  show "(1, vertex (cx_state changed_context)) \<in> set (label_to_vertex (fr_cfg (main_frame changed_ex)))"
    by (simp add: changed_context_def main_frame_def changed_ex_def vx_def)
qed (simp_all add: changed_context_def main_frame_def changed_ex_def vx_def)

section \<open>Decisions\<close>

text \<open>
  C13: The pass that puts a vertex on each branch of a decision keeps what a graph does, as long as the labels
  of the graph are smaller than the new ones and no graph transformed before has its decisions.
\<close>

theorem decisions_keep_runs:
  assumes "transform_callees (name_to_cfg c) [] new_decisions = Inr (ds, s)" "decidable_graph s c"
    "decision_transformation_pass c new_decisions = Inr (d, s')" "l \<in> vertex_labels c" "l' \<in> vertex_labels c"
  shows "runs d l w l' \<longleftrightarrow> runs c l w l'"
proof -
  have "decision_graph c ds s = Inr (d, s')" using assms(1,3) by (simp add: decision_pass_graph [of c])
  then show ?thesis by (rule decision_graph_runs [OF assms(2) _ assms(4,5)])
qed

theorem decisions_keep_runs_witness:
  "\<exists>d s. decision_transformation_pass graph_ex new_decisions = Inr (d, s)
     \<and> map fst (label_to_vertex d) = [0, 1, 3, 4, 6, 7, 9, 9000, 9001]
     \<and> runs d 1 [Execute (count_up var_x), Execute if_ex, Branch True, Execute (count_up var_x)] 7"
proof -
  have "case decision_transformation_pass graph_ex new_decisions of Inl _ \<Rightarrow> False | Inr (d, s) \<Rightarrow> map fst (label_to_vertex d) = [0, 1, 3, 4, 6, 7, 9, 9000, 9001]"
    by code_simp
  then obtain d s where d: "decision_transformation_pass graph_ex new_decisions = Inr (d, s)" "map fst (label_to_vertex d) = [0, 1, 3, 4, 6, 7, 9, 9000, 9001]" by (auto split: sum.splits)
  have "case transform_callees (name_to_cfg graph_ex) [] new_decisions of Inl _ \<Rightarrow> False | Inr (ds, s) \<Rightarrow> s = new_decisions" by code_simp
  then obtain ds where ds: "transform_callees (name_to_cfg graph_ex) [] new_decisions = Inr (ds, new_decisions)" by (auto split: sum.splits)
  have g: "decidable_graph new_decisions graph_ex"
    unfolding decidable_graph_def
  proof (intro conjI)
    have "length (label_to_vertex graph_ex) = 7" by code_simp
    then show "unat (next_label new_decisions) + 2 * length (label_to_vertex graph_ex) < 2 ^ 32" by (simp add: new_decisions_def)
  qed code_simp+
  have l: "1 \<in> vertex_labels graph_ex" "7 \<in> vertex_labels graph_ex" by code_simp+
  have "path graph_ex 1 [make_edge 1 3 INTRAPROCEDURAL, make_edge 3 4 TRUE_BRANCH, make_edge 4 7 INTRAPROCEDURAL] 7" by code_simp
  moreover have "events graph_ex [make_edge 1 3 INTRAPROCEDURAL, make_edge 3 4 TRUE_BRANCH, make_edge 4 7 INTRAPROCEDURAL]
    = [Execute (count_up var_x), Execute if_ex, Branch True, Execute (count_up var_x)]" by code_simp
  ultimately have "runs graph_ex 1 [Execute (count_up var_x), Execute if_ex, Branch True, Execute (count_up var_x)] 7"
    unfolding runs_def by blast
  then have "runs d 1 [Execute (count_up var_x), Execute if_ex, Branch True, Execute (count_up var_x)] 7"
    using decisions_keep_runs [OF ds g d(1) l] by simp
  with d show ?thesis by (intro exI [of _ d] exI [of _ s] conjI)
qed

text \<open>A function block with a decision that is used twice: by the program and by a function block of the program.\<close>

definition deciding_f :: Cfg where
  "deciding_f = Cfg FUNCTION_BLOCK ''F'' [(''i'', var_i)] []
     [vx 10 ENTRY None, vx 11 REGULAR (Some (IfInstruction (BinaryExpression GREATER_THAN (Reference (VariableAccess var_i)) (ConstantExpression (IntegerConstant 0))) 12 13)),
      vx 12 REGULAR (Some (count_up var_i)), vx 13 EXIT None]
     [make_edge 10 11 INTRAPROCEDURAL, make_edge 11 12 TRUE_BRANCH, make_edge 11 13 FALSE_BRANCH, make_edge 12 13 INTRAPROCEDURAL] 10 13"

definition using_g :: Cfg where
  "using_g = Cfg FUNCTION_BLOCK ''G'' [(''f'', var_f)] [(''F'', deciding_f)] [vx 20 ENTRY None, vx 21 EXIT None] [make_edge 20 21 INTRAPROCEDURAL] 20 21"

definition using_both :: Cfg where
  "using_both = Cfg PROGRAM ''P'' [(''f'', var_f), (''g'', var ''g'' (Derived ''G'') LOCAL)] [(''F'', deciding_f), (''G'', using_g)]
     [vx 30 ENTRY None, vx 31 EXIT None] [make_edge 30 31 INTRAPROCEDURAL] 30 31"

definition dangling :: "Cfg \<Rightarrow> bool" where
  "dangling c \<longleftrightarrow> (\<exists>e \<in> set (cfg_edges c). intra e \<and> source_label e \<in> vertex_labels c \<and> target_label e \<notin> vertex_labels c)"

text \<open>
  In the program, the pass meets the function block twice: once as its callee, once as a callee of its callee.
\<close>

lemma shared_decision_in_pass:
  "\<not> (\<exists>c \<in> set (parts using_both). dangling c)
   \<and> (case rbind (decision_transformation_pass using_both new_decisions) (\<lambda>(d, s). rbind (getCfg d ''G'') (\<lambda>g. getCfg g ''F'')) of
        Inl _ \<Rightarrow> False | Inr f \<Rightarrow> dangling f)"
  by code_simp

text \<open>
  C38: A graph with a decision that is transformed twice, as a function block that two graphs use is, is broken
  the second time: the vertices on the branches of the decision get new labels, but the labels kept for the
  decision are those of the first time, so that an edge of the second copy leads to a label without vertex.
  Between the two times the labels of new vertices are only counted on and labels kept are not given up.
\<close>

theorem shared_decision_dangles:
  assumes first: "decidable_graph s c" "decision_graph c ds s = Inr (d, s1)"
    and later: "next_label s1 \<le> next_label s2" "map_of (intermediate_successors s1) \<subseteq>\<^sub>m map_of (intermediate_successors s2)" "sorted_map (intermediate_successors s2)"
    and second: "decision_graph c ds' s2 = Inr (d', s3)" "unat (next_label s2) + 2 * length (label_to_vertex c) < 2 ^ 32"
    and e: "e \<in> set (cfg_edges c)" "is_branch e"
  shows "\<exists>t. make_edge (source_label e) t (edge_type e) \<in> set (cfg_edges d) \<inter> set (cfg_edges d') \<and> source_label e \<in> vertex_labels d' \<and> t \<notin> vertex_labels d'"
proof -
  note p = decision_graph_parts [OF first(2)] decision_graph_parts [OF second(1)]
  obtain t f where tf: "map_of (intermediate_successors s1) (source_label e) = Some (t, f)"
    "next_label s \<le> (if edge_type e = TRUE_BRANCH then t else f)" "(if edge_type e = TRUE_BRANCH then t else f) < next_label s1"
    using given_labels [OF first e] .
  let ?t = "if edge_type e = TRUE_BRANCH then t else f" and ?e = "\<lambda>t. make_edge (source_label e) t (edge_type e)"
  have "map_of (intermediate_successors s2) \<subseteq>\<^sub>m map_of (intermediate_successors s3)"
    using transform_vertices_keep [OF p(3)] later(3) by simp
  then have tf3: "map_of (intermediate_successors s3) (source_label e) = Some (t, f)"
    using later(2) tf(1) by (auto simp: map_le_def dom_def)
  have i: "intra e" "intra (?e t)" for t using e(2) by (auto simp: is_branch_def intra_def make_edge_def)
  have edge: "?e ?t \<in> set (cfg_edges x)" if r: "transform_edges m (cfg_edges c) = Inr (cfg_edges x)" and m: "map_of m (source_label e) = Some (t, f)" for m x
  proof -
    have "splits_to m e (?e ?t)" using m e(2) by (simp add: splits_to_def branch_label_def Let_def)
    then show ?thesis using transform_edges_ok [OF r, THEN conjunct1, rule_format, OF i(2) [of ?t]] i(1) e(1) by blast
  qed
  have labels: "vx_label ` set (map snd (label_to_vertex c)) = vertex_labels c"
  proof -
    have "map vx_label (map snd (label_to_vertex c)) = map fst (label_to_vertex c)" using first(1) by (auto simp: decidable_graph_def)
    then show ?thesis unfolding vertex_labels_def by (metis list.set_map)
  qed
  have old: "l < next_label s" if "l \<in> vertex_labels c" for l using first(1) that by (auto simp: decidable_graph_def vertex_labels_def)
  have "?t \<notin> vertex_labels d'"
  proof
    assume "?t \<in> vertex_labels d'"
    then have "?t \<in> vertex_labels c \<or> next_label s2 \<le> ?t"
      using transform_vertices_labels [OF p(3), of ?t] second(2) labels by (simp add: vertex_labels_def)
    then show False using old [of ?t] tf(2) order.strict_trans2 [OF tf(3) later(1)] by (metis leD)
  qed
  moreover have "source_label e \<in> vertex_labels c" using first(1) e(1) i(1) by (auto simp: decidable_graph_def)
  then have "source_label e \<in> vertex_labels d'"
    using transform_vertices_has [OF p(3)] labels by (auto simp: vertex_labels_def)
  ultimately show ?thesis using edge [OF p(2) tf(1)] edge [OF p(4) tf3] by (intro exI [of _ ?t]) simp
qed

lemma deciding_decidable: "decidable_graph new_decisions deciding_f"
  unfolding decidable_graph_def
proof (intro conjI)
  show "unat (next_label new_decisions) + 2 * length (label_to_vertex deciding_f) < 2 ^ 32" by (simp add: new_decisions_def deciding_f_def)
qed code_simp+

theorem shared_decision_dangles_witness:
  "\<exists>d s d' s' t. decision_graph deciding_f [] new_decisions = Inr (d, s) \<and> decision_graph deciding_f [] s = Inr (d', s')
     \<and> make_edge 11 t TRUE_BRANCH \<in> set (cfg_edges d) \<inter> set (cfg_edges d') \<and> 11 \<in> vertex_labels d' \<and> t \<notin> vertex_labels d'"
proof -
  have "case decision_graph deciding_f [] new_decisions of Inl _ \<Rightarrow> False | Inr (d, s) \<Rightarrow> next_label s = 9002 \<and> sorted_map (intermediate_successors s)
      \<and> (case decision_graph deciding_f [] s of Inl _ \<Rightarrow> False | Inr (d', s') \<Rightarrow> next_label s' = 9004)"
    by code_simp
  then obtain d s where ds: "decision_graph deciding_f [] new_decisions = Inr (d, s)"
    "next_label s = 9002 \<and> sorted_map (intermediate_successors s) \<and> (case decision_graph deciding_f [] s of Inl _ \<Rightarrow> False | Inr (d', s') \<Rightarrow> next_label s' = 9004)"
    by (cases "decision_graph deciding_f [] new_decisions") auto
  then obtain d' s' where "decision_graph deciding_f [] s = Inr (d', s')" by (cases "decision_graph deciding_f [] s") auto
  with ds have r: "decision_graph deciding_f [] new_decisions = Inr (d, s)" "next_label s = 9002" "sorted_map (intermediate_successors s)"
    "decision_graph deciding_f [] s = Inr (d', s')" by simp_all
  have room: "unat (next_label s) + 2 * length (label_to_vertex deciding_f) < 2 ^ 32" using r(2) by (simp add: deciding_f_def)
  have e: "make_edge 11 12 TRUE_BRANCH \<in> set (cfg_edges deciding_f)" "is_branch (make_edge 11 12 TRUE_BRANCH)" by (simp_all add: deciding_f_def is_branch_def make_edge_def)
  from shared_decision_dangles [OF deciding_decidable r(1) order_refl map_le_refl r(3,4) room e] r(1,4) show ?thesis
    by (auto simp: make_edge_def)
qed

end
