(* ===== verification/Ahorn_Compiler.thy ===== *)
theory Ahorn_Compiler
  imports Ahorn_Build
begin

text \<open>
  The compiler from the statements of program organization units to modules of instructions
  (\<^verbatim>\<open>src/ahorn/src/compiler/compiler.cpp\<close>, \<^verbatim>\<open>statement\<close>, \<^verbatim>\<open>pou\<close>).
\<close>

section \<open>Statements\<close>

datatype Statement =
    AssertStatement Expression
  | AssumeStatement Expression
  | AssignmentStatement VariableReference Expression
  | IfStatement Expression "Statement list" "(Expression \<times> Statement list) list" "Statement list"
  | InvocationStatement Variable "(VariableReference \<times> Expression) list" "(VariableReference \<times> Expression) list"
  | WhileStatement Expression "Statement list"
  | CaseStatement Expression "(Expression \<times> Statement list) list" "Statement list"

section \<open>State of the compiler\<close>

text \<open>
  Labels are counted up over all units.  A label that is not known yet is a placeholder, a negative number,
  and the stack has the placeholders of the statements that are being compiled.
\<close>

record Compiler =
  name_to_module :: "(string, Module) std_map"
  label_to_instruction :: "(label, Instruction) std_map"
  current_label :: label
  next_label_placeholder :: label
  next_label_placeholders :: "label list"
  last_statement :: bool

definition new_compiler :: Compiler where
  "new_compiler = \<lparr>name_to_module = [], label_to_instruction = [], current_label = 0,
     next_label_placeholder = - 1, next_label_placeholders = [], last_statement = False\<rparr>"

definition new_label :: "Compiler \<Rightarrow> (label \<times> Compiler) res" where
  "new_label s = (if current_label s = 0x7FFFFFFF then Inl Signed_Overflow
     else Inr (current_label s, s\<lparr>current_label := current_label s + 1\<rparr>))"

definition push_placeholder :: "Compiler \<Rightarrow> Compiler res" where
  "push_placeholder s = (if next_label_placeholder s = 0x80000000 then Inl Signed_Overflow
     else let p = next_label_placeholder s - 1
          in Inr (s\<lparr>next_label_placeholder := p, next_label_placeholders := p # next_label_placeholders s\<rparr>))"

definition top_placeholder :: "Compiler \<Rightarrow> label res" where
  "top_placeholder s = (case next_label_placeholders s of [] \<Rightarrow> Inl Out_Of_Bounds | p # _ \<Rightarrow> Inr p)"

definition pop_placeholder :: "Compiler \<Rightarrow> Compiler res" where
  "pop_placeholder s = (case next_label_placeholders s of [] \<Rightarrow> Inl Out_Of_Bounds | _ # ps \<Rightarrow> Inr (s\<lparr>next_label_placeholders := ps\<rparr>))"

definition emit :: "label \<Rightarrow> Instruction \<Rightarrow> Compiler \<Rightarrow> Compiler" where
  "emit l i s = s\<lparr>label_to_instruction := emplace l i (label_to_instruction s)\<rparr>"

definition last_instruction :: "Compiler \<Rightarrow> Instruction res" where
  "last_instruction s = (if label_to_instruction s = [] then Inl Out_Of_Bounds else Inr (snd (last (label_to_instruction s))))"

text \<open>When a placeholder is known, all instructions that lead to it are changed.\<close>

fun set_target :: "label \<Rightarrow> label \<Rightarrow> Instruction \<Rightarrow> Instruction" where
  "set_target p k (IfInstruction e t f) = IfInstruction e (if t = p then k else t) (if f = p then k else f)"
| "set_target p k (WhileInstruction e b x) = WhileInstruction e b (if x = p then k else x)"
| "set_target p k (CallInstruction x here callee) = CallInstruction x (if here = p then k else here) callee"
| "set_target p k (GotoInstruction t) = GotoInstruction (if t = p then k else t)"
| "set_target p k i = i"

definition resolve :: "label \<Rightarrow> label \<Rightarrow> Compiler \<Rightarrow> Compiler" where
  "resolve p k s = s\<lparr>label_to_instruction := map (\<lambda>(l, i). (l, set_target p k i)) (label_to_instruction s)\<rparr>"

section \<open>Assignments\<close>

definition assignment :: "VariableReference \<Rightarrow> Expression \<Rightarrow> Instruction" where
  "assignment r e = (case e of ConstantExpression (NondeterministicConstant _) \<Rightarrow> HavocInstruction r | _ \<Rightarrow> AssignmentInstruction r e)"

definition visit_assignment :: "VariableReference \<Rightarrow> Expression \<Rightarrow> Compiler \<Rightarrow> Compiler res" where
  "visit_assignment r e s =
     rbind (new_label s) (\<lambda>(l, s).
       let s = emit l (assignment r e) s in
       rbind (new_label s) (\<lambda>(l, s).
         if last_statement s then rbind (top_placeholder s) (\<lambda>p. Inr (emit l (GotoInstruction p) s))
         else Inr (emit l (GotoInstruction (current_label s)) s)))"

section \<open>Invocations\<close>

text \<open>
  An invocation assigns the inputs of the callee, calls it and assigns its outputs; inputs and outputs that
  are not given are assigned to themselves.
\<close>

definition module_of_type :: "(string, Module) std_map \<Rightarrow> data_type \<Rightarrow> Module res" where
  "module_of_type ms ty =
     (case ty of
        Derived n \<Rightarrow> map_at ms n
      | Enumerated t \<Rightarrow> map_at ms (en_name t)
      | Inconclusive n \<Rightarrow> map_at ms n
      | Simple n \<Rightarrow> map_at ms n
      | _ \<Rightarrow> Inl Out_Of_Bounds)"

definition variable_names :: "storage_type \<Rightarrow> Module \<Rightarrow> string list" where
  "variable_names st m = fold insort_insert (map v_name (filter (\<lambda>v. v_storage v = st) (map snd (mod_interface m)))) []"

definition getVariable :: "Module \<Rightarrow> string \<Rightarrow> Variable res" where
  "getVariable m n = (case map_of (mod_interface m) n of None \<Rightarrow> Inl (Logic_Error ''Variable does not exist.'') | Some v \<Rightarrow> Inr v)"

text \<open>The assignment compiled last is looked up under the label it was given and taken for no other instruction.\<close>

definition compiled_assignment :: "label \<Rightarrow> Compiler \<Rightarrow> Compiler res" where
  "compiled_assignment l s = rbind (map_at (label_to_instruction s) l) (\<lambda>i. if is_assignment i then Inr s else Inl Null_Deref)"

definition field_variable :: "VariableReference \<Rightarrow> Variable res" where
  "field_variable r = (case r of FieldAccess _ (VariableAccess v) \<Rightarrow> Inr v | _ \<Rightarrow> Inl Assert_Failed)"

fun visit_pre_assignments :: "(VariableReference \<times> Expression) list \<Rightarrow> string list \<Rightarrow> Compiler \<Rightarrow> (string list \<times> Compiler) res" where
  "visit_pre_assignments [] names s = Inr (names, s)"
| "visit_pre_assignments ((r, e) # as) names s =
     rbind (field_variable r) (\<lambda>v.
     rassert (v_name v \<in> set names)
       (rbind (visit_assignment r e s) (\<lambda>s'.
        rbind (compiled_assignment (current_label s) s') (visit_pre_assignments as (removeAll (v_name v) names)))))"

definition visit_identity :: "Variable \<Rightarrow> Module \<Rightarrow> string \<Rightarrow> Compiler \<Rightarrow> Compiler res" where
  "visit_identity x m n s =
     rbind (getVariable m n) (\<lambda>v.
       let r = FieldAccess x (VariableAccess v) in
       rbind (visit_assignment r (Reference r) s) (compiled_assignment (current_label s)))"

fun complete_inputs :: "Variable \<Rightarrow> Module \<Rightarrow> string list \<Rightarrow> Compiler \<Rightarrow> Compiler res" where
  "complete_inputs x m [] s = Inr s"
| "complete_inputs x m (n # ns) s = rbind (visit_identity x m n s) (complete_inputs x m ns)"

definition output_variable :: "Variable \<Rightarrow> VariableReference \<Rightarrow> Expression \<Rightarrow> Variable res" where
  "output_variable x r e =
     (case r of
        VariableAccess _ \<Rightarrow>
          (case e of
             Reference (FieldAccess y f) \<Rightarrow>
               rassert (v_name y = v_name x) (case f of VariableAccess v \<Rightarrow> Inr v | _ \<Rightarrow> Inl Assert_Failed)
           | _ \<Rightarrow> Inl Assert_Failed)
      | _ \<Rightarrow> Inl Assert_Failed)"

text \<open>The last output is assigned as the last statement when the invocation is the last one.\<close>

fun visit_post_assignments :: "bool \<Rightarrow> Variable \<Rightarrow> (VariableReference \<times> Expression) list \<Rightarrow> string list \<Rightarrow> Compiler \<Rightarrow> (string list \<times> Compiler) res" where
  "visit_post_assignments final x [] names s = Inr (names, s)"
| "visit_post_assignments final x ((r, e) # as) names s =
     rbind (output_variable x r e) (\<lambda>v.
     rassert (v_name v \<in> set names)
       (let names = removeAll (v_name v) names;
            s = (if names = [] \<and> as = [] then s\<lparr>last_statement := final\<rparr> else s)
        in rbind (visit_assignment r e s) (\<lambda>s'.
           rbind (compiled_assignment (current_label s) s') (visit_post_assignments final x as names))))"

fun complete_outputs :: "bool \<Rightarrow> Variable \<Rightarrow> Module \<Rightarrow> string list \<Rightarrow> Compiler \<Rightarrow> Compiler res" where
  "complete_outputs final x m [] s = Inr s"
| "complete_outputs final x m (n # ns) s =
     rbind (visit_identity x m n (if ns = [] then s\<lparr>last_statement := final\<rparr> else s)) (complete_outputs final x m ns)"

definition visit_invocation :: "Variable \<Rightarrow> (VariableReference \<times> Expression) list \<Rightarrow> (VariableReference \<times> Expression) list \<Rightarrow> Compiler \<Rightarrow> Compiler res" where
  "visit_invocation x pre post s =
     (let final = last_statement s; s = s\<lparr>last_statement := False\<rparr> in
      rbind (module_of_type (name_to_module s) (v_type x)) (\<lambda>m.
      rbind (visit_pre_assignments pre (variable_names INPUT m) s) (\<lambda>(names, s).
      rbind (complete_inputs x m names s) (\<lambda>s.
      rbind (new_label s) (\<lambda>(l, s).
        if variable_names OUTPUT m = [] then
          let s = s\<lparr>last_statement := final\<rparr> in
          rbind (if final then top_placeholder s else Inr (current_label s)) (\<lambda>k.
            Inr (emit l (CallInstruction x k (mod_entry m)) s))
        else
          let k = current_label s in
          rbind (visit_post_assignments final x post (variable_names OUTPUT m) s) (\<lambda>(names, s).
          rbind (complete_outputs final x m names s) (\<lambda>s.
            Inr (emit l (CallInstruction x k (mod_entry m)) s))))))))"

section \<open>Decisions and loops\<close>

text \<open>
  Without other branches, a decision leads to where the last instruction of its branch leads.
\<close>

definition then_target :: "Compiler \<Rightarrow> label res" where
  "then_target s = rbind (last_instruction s) (\<lambda>i.
     case i of
       CallInstruction _ here _ \<Rightarrow> Inr here
     | GotoInstruction t \<Rightarrow> Inr t
     | _ \<Rightarrow> Inl (Logic_Error ''Invalid instruction, expected call or goto.''))"

definition else_target :: "Compiler \<Rightarrow> label res" where
  "else_target s = rbind (last_instruction s) (\<lambda>i. case i of GotoInstruction t \<Rightarrow> Inr t | _ \<Rightarrow> Inl Assert_Failed)"

definition leave_if :: "bool \<Rightarrow> Compiler \<Rightarrow> Compiler res" where
  "leave_if final s =
     (if final then Inr (s\<lparr>last_statement := True\<rparr>)
      else rbind (top_placeholder s) (\<lambda>p. pop_placeholder (resolve p (current_label s) s)))"

lemma rbind_cong [fundef_cong]: "m = m' \<Longrightarrow> (\<And>x. m' = Inr x \<Longrightarrow> k x = k' x) \<Longrightarrow> rbind m k = rbind m' k'"
  by (cases m') auto

text \<open>
  The last statement of a branch is marked.  The alternatives are compiled if one of them has statements,
  and then all of them; a case statement is compiled as the decision between its cases.
\<close>

function (sequential) visit_statement :: "Statement \<Rightarrow> Compiler \<Rightarrow> Compiler res"
  and visit_branch :: "Statement list \<Rightarrow> Compiler \<Rightarrow> Compiler res"
  and visit_else_ifs :: "bool \<Rightarrow> (Expression \<times> Statement list) list \<Rightarrow> Compiler \<Rightarrow> Compiler res"
  and visit_if :: "Expression \<Rightarrow> Statement list \<Rightarrow> (Expression \<times> Statement list) list \<Rightarrow> Statement list \<Rightarrow> Compiler \<Rightarrow> Compiler res" where
  "visit_statement (AssertStatement e) s = Inl (Logic_Error ''Not implemented yet.'')"
| "visit_statement (AssumeStatement e) s = Inl (Logic_Error ''Not implemented yet.'')"
| "visit_statement (AssignmentStatement r e) s = visit_assignment r e s"
| "visit_statement (IfStatement e thens alts elses) s = visit_if e thens alts elses s"
| "visit_statement (InvocationStatement x pre post) s = visit_invocation x pre post s"
| "visit_statement (WhileStatement e ts) s =
     (let final = last_statement s; s = s\<lparr>last_statement := False\<rparr> in
      if ts = [] then Inr s
      else
        rbind (push_placeholder s) (\<lambda>s.
        rbind (new_label s) (\<lambda>(h, s).
          let b = current_label s in
          rbind (visit_branch ts s) (\<lambda>s.
          rbind (top_placeholder s) (\<lambda>p.
          rbind (pop_placeholder (resolve p h s)) (\<lambda>s.
            let s = s\<lparr>last_statement := final\<rparr> in
            rbind (if final then top_placeholder s else Inr (current_label s)) (\<lambda>k.
              Inr (emit h (WhileInstruction e b k) s))))))))"
| "visit_statement (CaseStatement e [] elses) s = Inl Out_Of_Bounds"
| "visit_statement (CaseStatement e ((e', ts) # alts) elses) s = visit_if e' ts alts elses s"
| "visit_branch [] s = Inl Out_Of_Bounds"
| "visit_branch [t] s = rbind (visit_statement t (s\<lparr>last_statement := True\<rparr>)) (\<lambda>s. Inr (s\<lparr>last_statement := False\<rparr>))"
| "visit_branch (t # ts) s = rbind (visit_statement t s) (\<lambda>s. visit_branch ts s)"
| "visit_else_ifs has_else [] s = Inr s"
| "visit_else_ifs has_else ((e, ts) # alts) s =
     rbind (new_label s) (\<lambda>(l, s).
       let b = current_label s in
       rbind (visit_branch ts s) (\<lambda>s.
       rbind (if alts = [] \<and> \<not> has_else then else_target s else Inr (current_label s)) (\<lambda>k.
         visit_else_ifs has_else alts (emit l (IfInstruction e b k) s))))"
| "visit_if e thens alts elses s =
     (let final = last_statement s; non_empty = filter (\<lambda>a. snd a \<noteq> []) alts; alone = (thens = [] \<and> non_empty = []) in
      rbind (if final then Inr (s\<lparr>last_statement := False\<rparr>) else push_placeholder s) (\<lambda>s.
        if thens = [] \<and> non_empty = [] \<and> elses = [] then (if final then Inr s else pop_placeholder s)
        else
          rbind (if thens = [] then Inr s
                 else rbind (new_label s) (\<lambda>(l, s).
                   let b = current_label s in
                   rbind (visit_branch thens s) (\<lambda>s.
                   rbind (if non_empty = [] \<and> elses = [] then then_target s else Inr (current_label s)) (\<lambda>k.
                     Inr (emit l (IfInstruction e b k) s))))) (\<lambda>s.
          rbind (if non_empty = [] then Inr s else visit_else_ifs (elses \<noteq> []) alts s) (\<lambda>s.
          rbind (if elses = [] then Inr s
                 else rbind (if alone then new_label s else Inr (current_label s, s)) (\<lambda>(l, s).
                   let b = current_label s in
                   rbind (visit_branch elses s) (\<lambda>s.
                     if alone then
                       rbind (else_target s) (\<lambda>k. Inr (emit l (IfInstruction (if alts = [] then e else fst (last alts)) k b) s))
                     else Inr s))) (\<lambda>s.
            leave_if final s)))))"
  by pat_completeness auto

termination
proof (relation "measure (\<lambda>x. case x of
      Inl (Inl (t, _)) \<Rightarrow> 2 * size t
    | Inl (Inr (ts, _)) \<Rightarrow> 2 * size_list size ts
    | Inr (Inl (_, alts, _)) \<Rightarrow> 2 * size_list (size_prod (\<lambda>_. 0) (size_list size)) alts
    | Inr (Inr (_, thens, alts, elses, _)) \<Rightarrow> 2 * (size_list size thens + size_list (size_prod (\<lambda>_. 0) (size_list size)) alts + size_list size elses) + 1)",
   goal_cases)
qed simp_all


section \<open>Program organization units\<close>

text \<open>The kinds of units are those of modules.\<close>

record Pou =
  pou_name :: string
  pou_kind :: cfg_type
  pou_interface :: "(string, Variable) std_map"
  pou_body :: "Statement list"

type_synonym Pous = "(string, Pou) std_map"

definition getPou :: "Pous \<Rightarrow> string \<Rightarrow> Pou res" where
  "getPou ps n = (case map_of ps n of None \<Rightarrow> Inl (Logic_Error ''No pou for given name exists.'') | Some u \<Rightarrow> Inr u)"

fun visit_body :: "Statement list \<Rightarrow> Compiler \<Rightarrow> Compiler res" where
  "visit_body [] s = Inr s"
| "visit_body (t # ts) s = rbind (visit_statement t s) (visit_body ts)"

text \<open>The new module takes the instructions with it and leaves none.\<close>

definition compile_body :: "Pou \<Rightarrow> Compiler \<Rightarrow> Compiler res" where
  "compile_body u s =
     rbind (new_label s) (\<lambda>(en, s).
     rbind (visit_body (pou_body u) s) (\<lambda>s.
     rbind (new_label s) (\<lambda>(ex, s).
       let m = \<lparr>mod_name = pou_name u, mod_kind = pou_kind u, mod_interface = make_interface (map snd (pou_interface u)),
                mod_instructions = label_to_instruction s, mod_entry = en, mod_exit = ex\<rparr>
       in Inr (s\<lparr>name_to_module := emplace (pou_name u) m (name_to_module s), label_to_instruction := []\<rparr>))))"

text \<open>A unit is compiled after the units of its variables; the code does not end on types that depend on themselves.\<close>

fun compile_pou :: "nat \<Rightarrow> Pous \<Rightarrow> Pou \<Rightarrow> Compiler \<Rightarrow> Compiler res"
  and compile_types :: "nat \<Rightarrow> Pous \<Rightarrow> Variable list \<Rightarrow> Compiler \<Rightarrow> Compiler res" where
  "compile_pou 0 ps u s = Inl Diverges"
| "compile_pou (Suc n) ps u s =
     (if map_of (name_to_module s) (pou_name u) \<noteq> None then Inr s
      else rbind (compile_types n ps (map snd (pou_interface u)) s) (compile_body u))"
| "compile_types n ps [] s = Inr s"
| "compile_types n ps (v # vs) s =
     rbind (case v_type v of
              Derived ty \<Rightarrow> rbind (getPou ps ty) (\<lambda>u. rbind (compile_pou n ps u s) (\<lambda>s.
                rbind (map_at (name_to_module s) ty) (\<lambda>_. Inr s)))
            | _ \<Rightarrow> Inr s) (compile_types n ps vs)"

fun compile_pous :: "nat \<Rightarrow> Pous \<Rightarrow> Pou list \<Rightarrow> Compiler \<Rightarrow> Compiler res" where
  "compile_pous n ps [] s = Inr s"
| "compile_pous n ps (u # us) s = rbind (compile_pou n ps u s) (compile_pous n ps us)"

text \<open>A chain of types longer than the project has units repeats one.\<close>

definition compile :: "Pous \<Rightarrow> Project res" where
  "compile ps = rbind (compile_pous (Suc (length ps)) ps (map snd ps) new_compiler) (\<lambda>s. Inr (name_to_module s))"

end
