(* ===== verification/Ahorn_Code.thy ===== *)
theory Ahorn_Code
  imports Ahorn_Compiler Ahorn_Modules
begin

text \<open>
  The instructions of statements, written down with the place they go on to: what the compiler makes of
  placeholders that it replaces afterwards.
\<close>

section \<open>Code with a continuation\<close>

fun number :: "label \<Rightarrow> Instruction list \<Rightarrow> (label, Instruction) std_map" where
  "number n [] = []"
| "number n (i # is) = (n, i) # number (n + 1) is"

text \<open>The inputs and outputs of an invocation, completed by assignments to themselves.\<close>

definition identity :: "Variable \<Rightarrow> Module \<Rightarrow> string \<Rightarrow> VariableReference \<times> Expression" where
  "identity x m n = (case map_of (mod_interface m) n of None \<Rightarrow> (VariableAccess x, Undefined)
     | Some v \<Rightarrow> (FieldAccess x (VariableAccess v), Reference (FieldAccess x (VariableAccess v))))"

definition target_name :: "VariableReference \<Rightarrow> string" where
  "target_name r = (case r of FieldAccess _ (VariableAccess v) \<Rightarrow> v_name v | _ \<Rightarrow> [])"

definition source_name :: "Expression \<Rightarrow> string" where
  "source_name e = (case e of Reference r \<Rightarrow> target_name r | _ \<Rightarrow> [])"

definition others :: "string list \<Rightarrow> string list \<Rightarrow> string list" where
  "others given names = filter (\<lambda>n. n \<notin> set given) names"

definition inputs_of :: "Variable \<Rightarrow> Module \<Rightarrow> (VariableReference \<times> Expression) list \<Rightarrow> (VariableReference \<times> Expression) list" where
  "inputs_of x m pre = pre @ map (identity x m) (others (map (target_name \<circ> fst) pre) (variable_names INPUT m))"

definition outputs_of :: "Variable \<Rightarrow> Module \<Rightarrow> (VariableReference \<times> Expression) list \<Rightarrow> (VariableReference \<times> Expression) list" where
  "outputs_of x m post = (if variable_names OUTPUT m = [] then []
     else post @ map (identity x m) (others (map (source_name \<circ> snd) post) (variable_names OUTPUT m)))"

fun assigns :: "label \<Rightarrow> label \<Rightarrow> (VariableReference \<times> Expression) list \<Rightarrow> Instruction list" where
  "assigns n k [] = []"
| "assigns n k [(r, e)] = [assignment r e, GotoInstruction k]"
| "assigns n k ((r, e) # as) = assignment r e # GotoInstruction (n + 2) # assigns (n + 2) k as"

definition gen_invocation :: "Module \<Rightarrow> label \<Rightarrow> label \<Rightarrow> Variable \<Rightarrow> (VariableReference \<times> Expression) list \<Rightarrow> (VariableReference \<times> Expression) list \<Rightarrow> Instruction list" where
  "gen_invocation m n k x pre post =
     (let ins = inputs_of x m pre; outs = outputs_of x m post; c = n + of_nat (2 * length ins) in
      assigns n c ins @ CallInstruction x (if outs = [] then k else c + 1) (mod_entry m) # assigns (c + 1) k outs)"

definition called :: "(string, Module) std_map \<Rightarrow> Variable \<Rightarrow> Module" where
  "called M x = (case module_of_type M (v_type x) of Inr m \<Rightarrow> m | Inl _ \<Rightarrow> undefined)"

text \<open>The number of instructions of a statement.\<close>

fun code_size :: "(string, Module) std_map \<Rightarrow> Statement \<Rightarrow> nat"
  and branch_size :: "(string, Module) std_map \<Rightarrow> Statement list \<Rightarrow> nat"
  and alts_size :: "(string, Module) std_map \<Rightarrow> (Expression \<times> Statement list) list \<Rightarrow> nat" where
  "code_size M (AssertStatement e) = 0"
| "code_size M (AssumeStatement e) = 0"
| "code_size M (AssignmentStatement r e) = 2"
| "code_size M (IfStatement e thens alts elses) =
     (if thens = [] then 1 + branch_size M elses else 1 + branch_size M thens + alts_size M alts + branch_size M elses)"
| "code_size M (InvocationStatement x pre post) =
     2 * length (inputs_of x (called M x) pre) + 1 + 2 * length (outputs_of x (called M x) post)"
| "code_size M (WhileStatement e ts) = 1 + branch_size M ts"
| "code_size M (CaseStatement e alts elses) = alts_size M alts + branch_size M elses"
| "branch_size M [] = 0"
| "branch_size M (t # ts) = code_size M t + branch_size M ts"
| "alts_size M [] = 0"
| "alts_size M ((e, ts) # alts) = 1 + branch_size M ts + alts_size M alts"

text \<open>The code at a label that goes on to another one.\<close>

function (sequential) gen :: "(string, Module) std_map \<Rightarrow> label \<Rightarrow> label \<Rightarrow> Statement \<Rightarrow> Instruction list"
  and gen_branch :: "(string, Module) std_map \<Rightarrow> label \<Rightarrow> label \<Rightarrow> Statement list \<Rightarrow> Instruction list"
  and gen_alts :: "(string, Module) std_map \<Rightarrow> label \<Rightarrow> label \<Rightarrow> bool \<Rightarrow> (Expression \<times> Statement list) list \<Rightarrow> Instruction list" where
  "gen M n k (AssertStatement e) = []"
| "gen M n k (AssumeStatement e) = []"
| "gen M n k (AssignmentStatement r e) = [assignment r e, GotoInstruction k]"
| "gen M n k (IfStatement e thens alts elses) =
     (if thens = [] then IfInstruction e k (n + 1) # gen_branch M (n + 1) k elses
      else let l = n + 1 + of_nat (branch_size M thens) in
        IfInstruction e (n + 1) (if alts = [] \<and> elses = [] then k else l) # gen_branch M (n + 1) k thens
          @ gen_alts M l k (elses \<noteq> []) alts @ gen_branch M (l + of_nat (alts_size M alts)) k elses)"
| "gen M n k (InvocationStatement x pre post) = gen_invocation (called M x) n k x pre post"
| "gen M n k (WhileStatement e ts) = WhileInstruction e (n + 1) k # gen_branch M (n + 1) n ts"
| "gen M n k (CaseStatement e alts elses) =
     gen_alts M n k (elses \<noteq> []) alts @ gen_branch M (n + of_nat (alts_size M alts)) k elses"
| "gen_branch M n k [] = []"
| "gen_branch M n k [t] = gen M n k t"
| "gen_branch M n k (t # ts) = (let l = n + of_nat (code_size M t) in gen M n l t @ gen_branch M l k ts)"
| "gen_alts M n k has_else [] = []"
| "gen_alts M n k has_else ((e, ts) # alts) =
     (let l = n + 1 + of_nat (branch_size M ts) in
      IfInstruction e (n + 1) (if alts = [] \<and> \<not> has_else then k else l) # gen_branch M (n + 1) k ts @ gen_alts M l k has_else alts)"
  by pat_completeness auto

termination
  by (relation "measure (\<lambda>x. case x of
      Inl (_, _, _, t) \<Rightarrow> 2 * size t
    | Inr (Inl (_, _, _, ts)) \<Rightarrow> 2 * size_list size ts
    | Inr (Inr (_, _, _, _, alts)) \<Rightarrow> 2 * size_list (size_prod (\<lambda>_. 0) (size_list size)) alts)") simp_all

lemma length_assigns [simp]: "length (assigns n k as) = 2 * length as"
  by (induction n k as rule: assigns.induct) auto

lemma gen_lengths [simp]:
  "length (gen M n k t) = code_size M t"
  "length (gen_branch M n k ts) = branch_size M ts"
  "length (gen_alts M n k b alts) = alts_size M alts"
  by (induction M n k t and M n k ts and M n k b alts rule: gen_gen_branch_gen_alts.induct)
    (auto simp: gen_invocation_def Let_def)

section \<open>Statements without empty parts\<close>

text \<open>
  The compiler takes the place a decision goes on to from the last instruction of its last branch, which is
  right when that instruction leads on: it is no loop and, for alternatives, no call.
\<close>

fun leads :: "(string, Module) std_map \<Rightarrow> bool \<Rightarrow> Statement \<Rightarrow> bool"
  and leads_branch :: "(string, Module) std_map \<Rightarrow> bool \<Rightarrow> Statement list \<Rightarrow> bool"
  and leads_alts :: "(string, Module) std_map \<Rightarrow> bool \<Rightarrow> (Expression \<times> Statement list) list \<Rightarrow> bool" where
  "leads M c (AssertStatement e) \<longleftrightarrow> False"
| "leads M c (AssumeStatement e) \<longleftrightarrow> False"
| "leads M c (AssignmentStatement r e) \<longleftrightarrow> True"
| "leads M c (IfStatement e thens alts elses) \<longleftrightarrow>
     (if elses \<noteq> [] then leads_branch M c elses else if alts \<noteq> [] then leads_alts M c alts else leads_branch M c thens)"
| "leads M c (InvocationStatement x pre post) \<longleftrightarrow> c \<or> outputs_of x (called M x) post \<noteq> []"
| "leads M c (WhileStatement e ts) \<longleftrightarrow> False"
| "leads M c (CaseStatement e alts elses) \<longleftrightarrow> (if elses \<noteq> [] then leads_branch M c elses else leads_alts M c alts)"
| "leads_branch M c [] \<longleftrightarrow> False"
| "leads_branch M c (t # ts) \<longleftrightarrow> (if ts = [] then leads M c t else leads_branch M c ts)"
| "leads_alts M c [] \<longleftrightarrow> False"
| "leads_alts M c ((e, ts) # alts) \<longleftrightarrow> (if alts = [] then leads_branch M c ts else leads_alts M c alts)"

definition ok_input :: "Module \<Rightarrow> VariableReference \<times> Expression \<Rightarrow> bool" where
  "ok_input m a \<longleftrightarrow> is_assignment (assignment (fst a) (snd a))
     \<and> (case field_variable (fst a) of Inl _ \<Rightarrow> False | Inr v \<Rightarrow> v_name v \<in> set (variable_names INPUT m))"

definition ok_output :: "Variable \<Rightarrow> Module \<Rightarrow> VariableReference \<times> Expression \<Rightarrow> bool" where
  "ok_output x m a \<longleftrightarrow> (case output_variable x (fst a) (snd a) of Inl _ \<Rightarrow> False | Inr v \<Rightarrow> v_name v \<in> set (variable_names OUTPUT m))"

definition ok_invocation :: "(string, Module) std_map \<Rightarrow> Variable \<Rightarrow> (VariableReference \<times> Expression) list \<Rightarrow> (VariableReference \<times> Expression) list \<Rightarrow> bool" where
  "ok_invocation M x pre post \<longleftrightarrow>
     (case module_of_type M (v_type x) of Inl _ \<Rightarrow> False
      | Inr m \<Rightarrow> (\<forall>q \<in> set (mod_interface m). v_name (snd q) = fst q)
          \<and> (\<forall>a \<in> set pre. ok_input m a) \<and> distinct (map (target_name \<circ> fst) pre)
          \<and> (variable_names OUTPUT m \<noteq> [] \<longrightarrow> (\<forall>a \<in> set post. ok_output x m a) \<and> distinct (map (source_name \<circ> snd) post)))"

fun ok_statement :: "(string, Module) std_map \<Rightarrow> Statement \<Rightarrow> bool"
  and ok_branch :: "(string, Module) std_map \<Rightarrow> Statement list \<Rightarrow> bool"
  and ok_alts :: "(string, Module) std_map \<Rightarrow> (Expression \<times> Statement list) list \<Rightarrow> bool" where
  "ok_statement M (AssertStatement e) \<longleftrightarrow> False"
| "ok_statement M (AssumeStatement e) \<longleftrightarrow> False"
| "ok_statement M (AssignmentStatement r e) \<longleftrightarrow> True"
| "ok_statement M (IfStatement e thens alts elses) \<longleftrightarrow> (thens \<noteq> [] \<or> alts = [] \<and> elses \<noteq> [])
     \<and> ok_branch M thens \<and> ok_alts M alts \<and> ok_branch M elses
     \<and> (thens = [] \<longrightarrow> leads_branch M False elses)
     \<and> (elses = [] \<longrightarrow> (if alts = [] then leads_branch M True thens else leads_alts M False alts))"
| "ok_statement M (InvocationStatement x pre post) \<longleftrightarrow> ok_invocation M x pre post"
| "ok_statement M (WhileStatement e ts) \<longleftrightarrow> ts \<noteq> [] \<and> ok_branch M ts"
| "ok_statement M (CaseStatement e alts elses) \<longleftrightarrow> alts \<noteq> [] \<and> ok_alts M alts \<and> ok_branch M elses
     \<and> (elses = [] \<longrightarrow> leads_alts M (tl alts = []) alts)"
| "ok_branch M [] \<longleftrightarrow> True"
| "ok_branch M (t # ts) \<longleftrightarrow> ok_statement M t \<and> ok_branch M ts"
| "ok_alts M [] \<longleftrightarrow> True"
| "ok_alts M ((e, ts) # alts) \<longleftrightarrow> ts \<noteq> [] \<and> ok_branch M ts \<and> ok_alts M alts"

section \<open>What compiling adds\<close>

definition added :: "Compiler \<Rightarrow> Instruction list \<Rightarrow> label \<Rightarrow> bool \<Rightarrow> Compiler" where
  "added s is p b = s\<lparr>label_to_instruction := label_to_instruction s @ number (current_label s) is,
     current_label := current_label s + of_nat (length is), next_label_placeholder := p, last_statement := b\<rparr>"

text \<open>
  There is room for more labels and placeholders, the labels used are smaller than the current one, and
  placeholders are used only since they were made.
\<close>

definition known :: "label \<Rightarrow> label \<Rightarrow> bool" where
  "known p t \<longleftrightarrow> unat t < 2 ^ 31 \<or> p \<le> t"

definition has_room :: "(string, Module) std_map \<Rightarrow> Compiler \<Rightarrow> nat \<Rightarrow> bool" where
  "has_room M s m \<longleftrightarrow> name_to_module s = M \<and> sorted_map (label_to_instruction s)
     \<and> (\<forall>q \<in> set (label_to_instruction s). fst q < current_label s \<and> (\<forall>t \<in> targets (snd q). known (next_label_placeholder s) t))
     \<and> (\<forall>p \<in> set (next_label_placeholders s). 2 ^ 31 \<le> unat p \<and> next_label_placeholder s \<le> p)
     \<and> unat (current_label s) + m < 2 ^ 31 \<and> 2 ^ 31 + m \<le> unat (next_label_placeholder s)"

lemma number_append: "number n (xs @ ys) = number n xs @ number (n + of_nat (length xs)) ys"
  by (induction xs arbitrary: n) (simp_all add: algebra_simps)

lemma added_added [simp]: "added (added s is p b) is' p' b' = added s (is @ is') p' b'"
  by (simp add: added_def number_append algebra_simps)

lemma added_fields [simp]:
  "label_to_instruction (added s is p b) = label_to_instruction s @ number (current_label s) is"
  "current_label (added s is p b) = current_label s + of_nat (length is)"
  "next_label_placeholder (added s is p b) = p" "last_statement (added s is p b) = b"
  "next_label_placeholders (added s is p b) = next_label_placeholders s"
  "name_to_module (added s is p b) = name_to_module s"
  by (simp_all add: added_def)

lemma added_none: "added s [] (next_label_placeholder s) (last_statement s) = s"
  by (simp add: added_def)

lemma unat_plus: "unat (n :: label) + m < 2 ^ 31 \<Longrightarrow> unat (n + of_nat m) = unat n + m"
  by (simp add: unat_word_ariths unat_of_nat take_bit_eq_mod mod_simps)

lemma number_at: "q \<in> set (number n is) \<longleftrightarrow> (\<exists>j < length is. q = (n + of_nat j, is ! j))"
proof (induction "is" arbitrary: n)
  case (Cons i "is")
  have "(\<exists>j < length (i # is). q = (n + of_nat j, (i # is) ! j)) \<longleftrightarrow> q = (n, i) \<or> (\<exists>j < length is. q = (n + 1 + of_nat j, is ! j))"
    by (auto simp: less_Suc_eq_0_disj algebra_simps)
  then show ?case using Cons.IH [of "n + 1"] by simp
qed simp

lemma number_keys: "q \<in> set (number n is) \<Longrightarrow> unat n + length is < 2 ^ 31 \<Longrightarrow> n \<le> fst q \<and> unat (fst q) < unat n + length is"
  by (auto simp: number_at word_le_nat_alt unat_plus)

lemma sorted_number: "unat n + length is < 2 ^ 31 \<Longrightarrow> sorted_map (number n is)"
proof (induction "is" arbitrary: n)
  case (Cons i "is")
  have n: "unat (n + 1) = unat n + 1" using unat_plus [of n 1] Cons.prems by simp
  then have "\<forall>q \<in> set (number (n + 1) is). n < fst q"
    using number_keys [of _ "n + 1" "is"] Cons.prems by (auto simp: word_less_nat_alt word_le_nat_alt dest!: number_keys)
  then show ?case using Cons.IH [of "n + 1"] Cons.prems n by auto
qed simp

lemma emplace_front: "\<forall>q \<in> set m. fst q < l \<Longrightarrow> \<forall>q \<in> set m'. l < fst q \<Longrightarrow> emplace l i (m @ m') = m @ (l, i) # m'"
proof (induction m)
  case Nil
  then show ?case by (cases m') auto
next
  case (Cons q m)
  then show ?case by (cases q) auto
qed

lemma emplace_after: "\<forall>q \<in> set m. fst q < l \<Longrightarrow> emplace l i m = m @ [(l, i)]"
  using emplace_front [of m l "[]"] by simp

lemma emit_after:
  assumes "has_room M s m" "l = current_label s" "0 < m"
  shows "emit l i (s\<lparr>current_label := l + 1\<rparr>) = added s [i] (next_label_placeholder s) (last_statement s)"
  using assms emplace_after [of "label_to_instruction s" l i] by (simp add: emit_def added_def has_room_def)

lemma fits_less: "has_room M s m \<Longrightarrow> m' \<le> m \<Longrightarrow> has_room M s m'"
  by (simp add: has_room_def)

lemma known_mono: "known p t \<Longrightarrow> p' \<le> p \<Longrightarrow> known p' t"
  by (auto simp: known_def)

lemma fits_added:
  assumes f: "has_room M s (length is + m)" and t: "\<forall>i \<in> set is. \<forall>t \<in> targets i. known p t"
    and p: "p \<le> next_label_placeholder s" "unat (next_label_placeholder s) \<le> unat p + length is"
  shows "has_room M (added s is p b) m"
proof -
  let ?n = "current_label s"
  have u: "unat (?n + of_nat (length is)) = unat ?n + length is" "unat ?n + length is < 2 ^ 31"
    using f unat_plus [of ?n "length is"] by (simp_all add: has_room_def)
  have key: "q \<in> set (number ?n is) \<Longrightarrow> ?n \<le> fst q \<and> fst q < ?n + of_nat (length is) \<and> snd q \<in> set is" for q
    using number_keys [of q ?n "is"] u by (auto simp: word_less_nat_alt number_at)
  have old: "q \<in> set (label_to_instruction s) \<Longrightarrow> fst q < ?n \<and> (\<forall>t \<in> targets (snd q). known (next_label_placeholder s) t)" for q
    using f by (simp add: has_room_def)
  have le: "?n \<le> ?n + of_nat (length is)" using u(1) by (simp add: word_le_nat_alt)
  have "sorted_map (label_to_instruction s @ number ?n is)"
    using f sorted_number [OF u(2)] old key by (force simp: has_room_def sorted_wrt_append intro: less_le_trans)
  moreover have "fst q < ?n + of_nat (length is) \<and> (\<forall>t \<in> targets (snd q). known p t)" if "q \<in> set (label_to_instruction s @ number ?n is)" for q
    using that old [of q] key [of q] t p(1) le less_le_trans [OF _ le] by (auto intro: known_mono)
  moreover have "\<forall>q \<in> set (next_label_placeholders s). 2 ^ 31 \<le> unat q \<and> p \<le> q" using f p(1) by (auto simp: has_room_def)
  ultimately show ?thesis using f u(1) p(2) by (simp add: has_room_def)
qed


section \<open>Assignments and invocations\<close>

lemma new_label_fits: "has_room M s m \<Longrightarrow> 0 < m \<Longrightarrow> new_label s = Inr (current_label s, s\<lparr>current_label := current_label s + 1\<rparr>)"
  by (auto simp: has_room_def new_label_def)

definition last_target :: "Compiler \<Rightarrow> nat \<Rightarrow> label" where
  "last_target s m = (if last_statement s then hd (next_label_placeholders s) else current_label s + of_nat m)"

lemma top_placeholder_hd: "next_label_placeholders s \<noteq> [] \<Longrightarrow> top_placeholder s = Inr (hd (next_label_placeholders s))"
  by (cases "next_label_placeholders s") (simp_all add: top_placeholder_def)

lemma targets_assignment [simp]: "targets (assignment r e) = {}"
  by (simp add: assignment_def split: Expression.splits Constant.splits)

lemma visit_assignment_ok:
  assumes f: "has_room M s 2" and p: "last_statement s \<Longrightarrow> next_label_placeholders s \<noteq> []"
  shows "visit_assignment r e s = Inr (added s [assignment r e, GotoInstruction (last_target s 2)] (next_label_placeholder s) (last_statement s))"
proof -
  let ?s = "added s [assignment r e] (next_label_placeholder s) (last_statement s)"
  have f1: "has_room M ?s 1" using fits_added [of M s "[assignment r e]" 1 "next_label_placeholder s" "last_statement s"] f by (simp add: numeral_2_eq_2)
  have e: "emit (current_label s) (assignment r e) (s\<lparr>current_label := current_label s + 1\<rparr>) = ?s"
    by (rule emit_after [OF f]) simp_all
  have e1: "emit (current_label ?s) (GotoInstruction k) (?s\<lparr>current_label := current_label ?s + 1\<rparr>)
    = added s [assignment r e, GotoInstruction k] (next_label_placeholder s) (last_statement s)" for k
    using emit_after [OF f1 refl] by simp
  have "visit_assignment r e s = (if last_statement s then rbind (top_placeholder s) (\<lambda>p. Inr (emit (current_label ?s) (GotoInstruction p) (?s\<lparr>current_label := current_label ?s + 1\<rparr>)))
      else Inr (emit (current_label ?s) (GotoInstruction (current_label ?s + 1)) (?s\<lparr>current_label := current_label ?s + 1\<rparr>)))"
    using new_label_fits [OF f] new_label_fits [OF f1] e by (simp add: visit_assignment_def Let_def top_placeholder_def)
  then show ?thesis using p unfolding e1 by (auto simp: last_target_def top_placeholder_hd)
qed

text \<open>
  The assignments in front of the last one.
\<close>

lemma assigns_append: "assigns n (n + of_nat (2 * length (as @ bs))) (as @ bs)
    = assigns n (n + of_nat (2 * length as)) as @ assigns (n + of_nat (2 * length as)) (n + of_nat (2 * length (as @ bs))) bs"
proof (induction as arbitrary: n)
  case (Cons a as)
  show ?case
  proof (cases "as @ bs")
    case Nil
    then show ?thesis by (cases a) simp
  next
    case (Cons c cs)
    show ?thesis using Cons.IH [of "n + 2"] Cons by (cases a; cases as) (simp_all add: algebra_simps)
  qed
qed simp


lemma compiled_ok:
  assumes f: "has_room M s m" and a: "is_assignment (assignment r e)"
  shows "compiled_assignment (current_label s) (added s (assignment r e # is) p b) = Inr (added s (assignment r e # is) p b)"
proof -
  have "map_of (label_to_instruction s) (current_label s) = None" using f by (intro map_of_notin) (auto simp: has_room_def)
  then have "map_of (label_to_instruction s @ number (current_label s) (assignment r e # is)) (current_label s) = Some (assignment r e)"
    by (simp add: map_add_def)
  then show ?thesis using a by (simp add: compiled_assignment_def)
qed

lemma others_Cons: "others (n # given) names = others given (removeAll n names)"
  by (induction names) (auto simp: others_def)

lemma fits_last: "has_room M (s\<lparr>last_statement := b\<rparr>) m \<longleftrightarrow> has_room M s m"
  by (simp add: has_room_def)

lemma added_last: "added (s\<lparr>last_statement := b'\<rparr>) is p b = added s is p b"
  by (simp add: added_def)

lemma fits_assign:
  "has_room M s (2 + m) \<Longrightarrow> last_statement s \<longrightarrow> next_label_placeholders s \<noteq> []
     \<Longrightarrow> has_room M (added s [assignment r e, GotoInstruction (last_target s 2)] (next_label_placeholder s) b) m"
  by (rule fits_added) (use unat_plus [of "current_label s" 2] in \<open>auto simp: last_target_def known_def has_room_def\<close>)

lemma target_name_field: "field_variable r = Inr v \<Longrightarrow> target_name r = v_name v"
  by (auto simp: field_variable_def target_name_def split: VariableReference.splits)

lemma visit_pre_ok:
  "has_room M s (2 * length as + m) \<Longrightarrow> \<not> last_statement s \<Longrightarrow> \<forall>a \<in> set as. ok_input c a \<and> target_name (fst a) \<in> set names
     \<Longrightarrow> distinct (map (target_name \<circ> fst) as)
     \<Longrightarrow> visit_pre_assignments as names s = Inr (others (map (target_name \<circ> fst) as) names,
           added s (assigns (current_label s) (current_label s + of_nat (2 * length as)) as) (next_label_placeholder s) False)"
proof (induction as arbitrary: names s)
  case Nil
  then show ?case using added_none [of s] by (simp add: others_def)
next
  case (Cons a as)
  obtain r e where a: "a = (r, e)" by (cases a)
  let ?k = "last_target s 2"
  let ?s = "added s [assignment r e, GotoInstruction ?k] (next_label_placeholder s) False"
  obtain v where v: "field_variable r = Inr v" "is_assignment (assignment r e)"
    using Cons.prems(3) a by (auto simp: ok_input_def split: sum.splits)
  note n = target_name_field [OF v(1)]
  have f2: "has_room M s (2 + (2 * length as + m))" using Cons.prems(1) by (rule fits_less) simp
  then have va: "visit_assignment r e s = Inr ?s"
    using visit_assignment_ok [OF fits_less [OF f2], of r e] Cons.prems(2) by simp
  have f: "has_room M ?s (2 * length as + m)" by (rule fits_assign [OF f2]) (use Cons.prems(2) in simp)
  have c: "compiled_assignment (current_label s) ?s = Inr ?s" by (rule compiled_ok [OF Cons.prems(1) v(2)])
  have "visit_pre_assignments as (removeAll (v_name v) names) ?s = Inr (others (map (target_name \<circ> fst) as) (removeAll (v_name v) names),
           added ?s (assigns (current_label ?s) (current_label ?s + of_nat (2 * length as)) as) (next_label_placeholder ?s) False)"
    by (rule Cons.IH [OF f]) (use Cons.prems(3,4) a n in \<open>auto simp: rev_image_eqI\<close>)
  moreover have "v_name v \<in> set names" using Cons.prems(3) a n by simp
  moreover have "[assignment r e, GotoInstruction ?k] @ assigns (current_label s + 2) (current_label s + 2 + of_nat (2 * length as)) as
    = assigns (current_label s) (current_label s + of_nat (2 * length (a # as))) (a # as)"
    using a Cons.prems(2) by (cases as) (simp_all add: last_target_def algebra_simps)
  ultimately show ?case using a v(1) va c n by (simp add: others_Cons comp_def)
qed


lemma variable_names_interface:
  assumes "\<forall>q \<in> set (mod_interface m). v_name (snd q) = fst q" "n \<in> set (variable_names st m)"
  obtains v where "getVariable m n = Inr v" "identity x m n = (FieldAccess x (VariableAccess v), Reference (FieldAccess x (VariableAccess v)))"
proof -
  have "n \<in> fst ` set (mod_interface m)" using assms by (force simp: variable_names_def fold_insort)
  then obtain v where "map_of (mod_interface m) n = Some v" by (metis map_of_eq_None_iff not_None_eq)
  then show thesis using that by (simp add: getVariable_def identity_def)
qed

lemma visit_identity_ok:
  assumes f: "has_room M s 2" and p: "last_statement s \<longrightarrow> next_label_placeholders s \<noteq> []"
    and m: "\<forall>q \<in> set (mod_interface m). v_name (snd q) = fst q" "n \<in> set (variable_names st m)"
  shows "visit_identity x m n s = Inr (added s [assignment (fst (identity x m n)) (snd (identity x m n)), GotoInstruction (last_target s 2)]
    (next_label_placeholder s) (last_statement s))"
proof -
  obtain v where v: "getVariable m n = Inr v" "identity x m n = (FieldAccess x (VariableAccess v), Reference (FieldAccess x (VariableAccess v)))"
    by (rule variable_names_interface [OF m])
  let ?r = "FieldAccess x (VariableAccess v)"
  have "is_assignment (assignment ?r (Reference ?r))" by (simp add: assignment_def is_assignment_def)
  from compiled_ok [OF f this] visit_assignment_ok [OF f, of ?r "Reference ?r"] p show ?thesis
    by (simp add: visit_identity_def v Let_def)
qed

lemma complete_inputs_ok:
  "has_room M s (2 * length ns + k) \<Longrightarrow> \<not> last_statement s \<Longrightarrow> \<forall>q \<in> set (mod_interface m). v_name (snd q) = fst q
     \<Longrightarrow> \<forall>n \<in> set ns. n \<in> set (variable_names st m)
     \<Longrightarrow> complete_inputs x m ns s = Inr (added s (assigns (current_label s) (current_label s + of_nat (2 * length ns)) (map (identity x m) ns))
           (next_label_placeholder s) False)"
proof (induction ns arbitrary: s)
  case Nil
  then show ?case using added_none [of s] by simp
next
  case (Cons n ns)
  obtain r e where i: "identity x m n = (r, e)" by (cases "identity x m n")
  let ?s = "added s [assignment r e, GotoInstruction (last_target s 2)] (next_label_placeholder s) False"
  have f2: "has_room M s (2 + (2 * length ns + k))" using Cons.prems(1) by (rule fits_less) simp
  have "visit_identity x m n s = Inr ?s"
    using visit_identity_ok [OF fits_less [OF f2], of m n st x] Cons.prems(2-4) i by simp
  moreover have "has_room M ?s (2 * length ns + k)" by (rule fits_assign [OF f2]) (use Cons.prems(2) in simp)
  moreover note Cons.IH [OF this]
  moreover have "[assignment r e, GotoInstruction (last_target s 2)]
      @ assigns (current_label s + 2) (current_label s + 2 + of_nat (2 * length ns)) (map (identity x m) ns)
    = assigns (current_label s) (current_label s + of_nat (2 * length (n # ns))) (map (identity x m) (n # ns))"
    using i Cons.prems(2) by (cases ns) (simp_all add: last_target_def algebra_simps)
  ultimately show ?case using Cons.prems(3,4) by simp
qed

lemma complete_outputs_ok:
  "has_room M s (2 * length ns + k) \<Longrightarrow> \<not> last_statement s \<Longrightarrow> (final \<Longrightarrow> next_label_placeholders s \<noteq> [])
     \<Longrightarrow> \<forall>q \<in> set (mod_interface m). v_name (snd q) = fst q \<Longrightarrow> \<forall>n \<in> set ns. n \<in> set (variable_names st m) \<Longrightarrow> ns \<noteq> []
     \<Longrightarrow> complete_outputs final x m ns s = Inr (added s (assigns (current_label s)
           (if final then hd (next_label_placeholders s) else current_label s + of_nat (2 * length ns)) (map (identity x m) ns))
           (next_label_placeholder s) final)"
proof (induction ns arbitrary: s)
  case (Cons n ns)
  obtain r e where i: "identity x m n = (r, e)" by (cases "identity x m n")
  show ?case
  proof (cases ns)
    case Nil
    let ?s = "s\<lparr>last_statement := final\<rparr>"
    have f: "has_room M ?s 2" using Cons.prems(1) by (simp add: fits_last fits_less)
    show ?thesis using visit_identity_ok [OF f _ Cons.prems(4), of n st x] Cons.prems(3,5) i Nil
      by (simp add: last_target_def added_last)
  next
    case (Cons c cs)
    let ?s = "added s [assignment r e, GotoInstruction (last_target s 2)] (next_label_placeholder s) False"
    have f2: "has_room M s (2 + (2 * length ns + k))" using Cons.prems(1) by (rule fits_less) simp
    have "visit_identity x m n s = Inr ?s"
      using visit_identity_ok [OF fits_less [OF f2], of m n st x] Cons.prems(2,4,5) i by simp
    moreover have "has_room M ?s (2 * length ns + k)" by (rule fits_assign [OF f2]) (use Cons.prems(2) in simp)
    moreover note Cons.IH [OF this]
    ultimately show ?thesis using Cons.prems(2-5) i Cons by (simp add: last_target_def algebra_simps)
  qed
qed simp


lemma output_name: "output_variable x r e = Inr v \<Longrightarrow> source_name e = v_name v"
  by (auto simp: output_variable_def source_name_def target_name_def split: VariableReference.splits Expression.splits)

lemma output_assignment: "output_variable x r e = Inr v \<Longrightarrow> is_assignment (assignment r e)"
  by (auto simp: output_variable_def assignment_def is_assignment_def split: VariableReference.splits Expression.splits)

lemma visit_post_ok:
  "has_room M s (2 * length as + k) \<Longrightarrow> \<not> last_statement s \<Longrightarrow> (final \<Longrightarrow> next_label_placeholders s \<noteq> [])
     \<Longrightarrow> \<forall>a \<in> set as. ok_output x c a \<and> source_name (snd a) \<in> set names \<Longrightarrow> distinct (map (source_name \<circ> snd) as)
     \<Longrightarrow> rest = others (map (source_name \<circ> snd) as) names \<Longrightarrow> now = (rest = [] \<and> as \<noteq> [] \<and> final)
     \<Longrightarrow> visit_post_assignments final x as names s = Inr (rest,
           added s (assigns (current_label s) (if now then hd (next_label_placeholders s) else current_label s + of_nat (2 * length as)) as)
             (next_label_placeholder s) now)"
proof (induction as arbitrary: names s)
  case Nil
  then show ?case using added_none [of s] by (simp add: others_def)
next
  case (Cons a as)
  obtain r e where a: "a = (r, e)" by (cases a)
  obtain v where v: "output_variable x r e = Inr v" using Cons.prems(4) a by (auto simp: ok_output_def split: sum.splits)
  note n = output_name [OF v] and ia = output_assignment [OF v]
  have nm: "v_name v \<in> set names" using Cons.prems(4) a n by simp
  have rest: "rest = others (map (source_name \<circ> snd) as) (removeAll (v_name v) names)"
    using Cons.prems(6) a n by (simp add: others_Cons comp_def)
  have more: "as \<noteq> [] \<Longrightarrow> removeAll (v_name v) names \<noteq> []"
    using Cons.prems(4,5) a n by (cases as) (auto simp: filter_empty_conv removeAll_filter_not_eq)
  have f2: "has_room M s (2 + (2 * length as + k))" using Cons.prems(1) by (rule fits_less) simp
  show ?case
  proof (cases "as = []")
    case True
    define s1 where "s1 = (if removeAll (v_name v) names = [] then s\<lparr>last_statement := final\<rparr> else s)"
    have f1: "has_room M s1 2" using fits_less [OF f2, of 2] by (simp add: s1_def fits_last)
    have "visit_assignment r e s1 = Inr (added s1 [assignment r e, GotoInstruction (last_target s1 2)] (next_label_placeholder s1) (last_statement s1))"
      by (rule visit_assignment_ok [OF f1]) (use Cons.prems(2,3) in \<open>auto simp: s1_def split: if_splits\<close>)
    moreover note compiled_ok [OF f1 ia]
    moreover have "current_label s1 = current_label s" by (simp add: s1_def)
    ultimately have "visit_post_assignments final x (a # as) names s
        = Inr (removeAll (v_name v) names, added s1 [assignment r e, GotoInstruction (last_target s1 2)] (next_label_placeholder s1) (last_statement s1))"
      using True a v nm by (simp add: s1_def Let_def)
    then show ?thesis using True a rest Cons.prems(2,7)
      by (auto simp: others_def last_target_def added_last s1_def)
  next
    case False
    let ?s = "added s [assignment r e, GotoInstruction (last_target s 2)] (next_label_placeholder s) False"
    have va: "visit_assignment r e s = Inr ?s"
      using visit_assignment_ok [OF fits_less [OF f2], of r e] Cons.prems(2) by simp
    have f: "has_room M ?s (2 * length as + k)" by (rule fits_assign [OF f2]) (use Cons.prems(2) in simp)
    have c: "compiled_assignment (current_label s) ?s = Inr ?s" by (rule compiled_ok [OF Cons.prems(1) ia])
    have "visit_post_assignments final x as (removeAll (v_name v) names) ?s = Inr (rest,
           added ?s (assigns (current_label ?s) (if now then hd (next_label_placeholders ?s) else current_label ?s + of_nat (2 * length as)) as)
             (next_label_placeholder ?s) now)"
      by (rule Cons.IH [OF f]) (use Cons.prems(3-5,7) a n False rest in \<open>auto simp: rev_image_eqI comp_def\<close>)
    then show ?thesis using a v nm va c False Cons.prems(2)
      by (cases as) (simp_all add: last_target_def algebra_simps)
  qed
qed

lemma emit_front:
  assumes f: "has_room M s (Suc (length is))" and l: "l = current_label s"
  shows "emit l i (added (s\<lparr>current_label := l + 1\<rparr>) is p b) = added s (i # is) p b"
proof -
  have u: "unat (l + 1) = unat l + 1" "unat (l + 1) + length is < 2 ^ 31"
    using f unat_plus [of l 1] l by (simp_all add: has_room_def)
  have "l < fst q" if "q \<in> set (number (l + 1) is)" for q
    using number_keys [OF that u(2)] u(1) by (simp add: word_less_nat_alt word_le_nat_alt)
  moreover have "\<forall>q \<in> set (label_to_instruction s). fst q < l" using f l by (auto simp: has_room_def)
  ultimately show ?thesis using emplace_front [of "label_to_instruction s" l "number (l + 1) is" i] l
    by (simp add: emit_def added_def algebra_simps)
qed


lemma assigns_then: "bs \<noteq> [] \<Longrightarrow> assigns n k (as @ bs) = assigns n (n + of_nat (2 * length as)) as @ assigns (n + of_nat (2 * length as)) k bs"
proof (induction as arbitrary: n)
  case (Cons a as)
  obtain c cs where c: "as @ bs = c # cs" using Cons.prems by (cases "as @ bs") auto
  show ?case using Cons.IH [of "n + 2"] Cons.prems c by (cases a; cases as) (simp_all add: algebra_simps)
qed simp

lemma known_assigns: "known q k \<Longrightarrow> unat n + 2 * length as < 2 ^ 31 \<Longrightarrow> \<forall>i \<in> set (assigns n k as). \<forall>t \<in> targets i. known q t"
proof (induction n k as rule: assigns.induct)
  case (3 n k r e a as)
  have "unat (n + 2) = unat n + 2" using unat_plus [of n 2] 3(3) by simp
  then show ?case using 3 by (auto simp: known_def)
qed auto

lemma known_small: "unat n + m < 2 ^ 31 \<Longrightarrow> known q (n + of_nat m)"
  by (simp add: known_def unat_plus)

lemma fits_next: "has_room M s (Suc m) \<Longrightarrow> has_room M (s\<lparr>current_label := current_label s + 1\<rparr>) m"
  using unat_plus [of "current_label s" 1] by (auto simp: has_room_def word_less_nat_alt)

lemma label_first: "s\<lparr>last_statement := b, current_label := l\<rparr> = s\<lparr>current_label := l, last_statement := b\<rparr>"
  by simp

definition good :: "(string, Module) std_map \<Rightarrow> Statement \<Rightarrow> bool" where
  "good M t \<longleftrightarrow> (\<forall>s. has_room M s (code_size M t) \<longrightarrow> (last_statement s \<longrightarrow> next_label_placeholders s \<noteq> []) \<longrightarrow>
     (\<exists>p b. visit_statement t s = Inr (added s (gen M (current_label s) (last_target s (code_size M t)) t) p b)
        \<and> p \<le> next_label_placeholder s \<and> unat (next_label_placeholder s) \<le> unat p + code_size M t \<and> (b \<longrightarrow> last_statement s)))"

lemma visit_invocation_ok:
  assumes ok: "ok_invocation M x pre post"
  shows "good M (InvocationStatement x pre post)"
  unfolding good_def
proof (intro allI impI)
  fix s assume f: "has_room M s (code_size M (InvocationStatement x pre post))" and p: "last_statement s \<longrightarrow> next_label_placeholders s \<noteq> []"
  obtain m where m: "module_of_type M (v_type x) = Inr m" "\<forall>q \<in> set (mod_interface m). v_name (snd q) = fst q"
    "\<forall>a \<in> set pre. ok_input m a" "distinct (map (target_name \<circ> fst) pre)"
    "variable_names OUTPUT m \<noteq> [] \<longrightarrow> (\<forall>a \<in> set post. ok_output x m a) \<and> distinct (map (source_name \<circ> snd) post)"
    using ok by (auto simp: ok_invocation_def split: sum.splits)
  have call: "called M x = m" using m(1) by (simp add: called_def)
  let ?n = "current_label s" and ?q = "next_label_placeholder s" and ?final = "last_statement s"
  let ?ins = "inputs_of x m pre" and ?outs = "outputs_of x m post"
  let ?names = "others (map (target_name \<circ> fst) pre) (variable_names INPUT m)"
  let ?c = "?n + of_nat (2 * length ?ins)"
  let ?s0 = "s\<lparr>last_statement := False\<rparr>"
  have nm: "name_to_module s = M" using f by (simp add: has_room_def)
  have size: "code_size M (InvocationStatement x pre post) = 2 * length pre + (2 * length ?names + (1 + 2 * length ?outs))"
    by (simp add: call inputs_of_def)
  have f0: "has_room M ?s0 (2 * length pre + (2 * length ?names + (1 + 2 * length ?outs)))" using f unfolding size by (simp add: fits_last)
  let ?s1 = "added s (assigns ?n (?n + of_nat (2 * length pre)) pre) ?q False"
  have "\<forall>a \<in> set pre. ok_input m a \<and> target_name (fst a) \<in> set (variable_names INPUT m)"
    using m(3) target_name_field by (fastforce simp: ok_input_def split: sum.splits)
  from visit_pre_ok [OF f0 _ this m(4)] have v1: "visit_pre_assignments pre (variable_names INPUT m) ?s0 = Inr (?names, ?s1)"
    by (simp add: added_last)
  have room: "unat ?n + (2 * length pre + (2 * length ?names + (1 + 2 * length ?outs))) < 2 ^ 31" using f0 by (simp add: has_room_def)
  have "has_room M (added ?s0 (assigns ?n (?n + of_nat (2 * length pre)) pre) ?q False) (2 * length ?names + (1 + 2 * length ?outs))"
    by (rule fits_added) (use f0 known_assigns [OF known_small, of ?n "2 * length pre" ?n pre ?q] room in auto)
  then have f1: "has_room M ?s1 (2 * length ?names + (1 + 2 * length ?outs))" by (simp add: added_last)
  let ?s2 = "added s (assigns ?n ?c ?ins) ?q False"
  have il: "2 * length ?ins = 2 * length pre + 2 * length ?names" by (simp add: inputs_of_def)
  have "assigns ?n (?n + of_nat (2 * length pre)) pre @ assigns (?n + of_nat (2 * length pre)) (?n + of_nat (2 * length pre) + of_nat (2 * length ?names)) (map (identity x m) ?names)
    = assigns ?n ?c ?ins"
    using assigns_append [of ?n pre "map (identity x m) ?names"] by (simp add: inputs_of_def algebra_simps)
  then have v2: "complete_inputs x m ?names ?s1 = Inr ?s2"
    using complete_inputs_ok [OF f1 _ m(2), of INPUT x] by (simp add: others_def)
  have "has_room M (added ?s0 (assigns ?n ?c ?ins) ?q False) (1 + 2 * length ?outs)"
    by (rule fits_added) (use f0 il known_assigns [OF known_small, of ?n "2 * length ?ins" ?n ?ins ?q] room in \<open>auto simp: add.assoc\<close>)
  then have f2: "has_room M ?s2 (Suc (2 * length ?outs))" by (simp add: added_last)
  note nl = new_label_fits [OF f2 zero_less_Suc]
  have k: "last_target s (code_size M (InvocationStatement x pre post)) = (if ?final then hd (next_label_placeholders s) else ?c + 1 + of_nat (2 * length ?outs))"
    by (simp add: last_target_def call)
  have "\<exists>b. visit_statement (InvocationStatement x pre post) s
      = Inr (added s (gen M ?n (last_target s (code_size M (InvocationStatement x pre post))) (InvocationStatement x pre post)) ?q b) \<and> (b \<longrightarrow> ?final)"
  proof (cases "variable_names OUTPUT m = []")
    case True
    then have outs: "?outs = []" by (simp add: outputs_of_def)
    let ?s3 = "?s2\<lparr>current_label := ?c + 1, last_statement := ?final\<rparr>"
    have f3: "has_room M (?s2\<lparr>last_statement := ?final\<rparr>) 1" using f2 outs by (simp add: fits_last)
    have e: "emit ?c i ?s3 = added s (assigns ?n ?c ?ins @ [i]) ?q ?final" for i
      using emit_after [OF f3 refl, of i] by (simp add: added_last label_first)
    have "visit_statement (InvocationStatement x pre post) s
      = rbind (if ?final then top_placeholder ?s3 else Inr (?c + 1)) (\<lambda>k. Inr (emit ?c (CallInstruction x k (mod_entry m)) ?s3))"
      using nm m(1) v1 v2 nl True by (simp add: visit_invocation_def Let_def)
    moreover have "?final \<Longrightarrow> top_placeholder ?s3 = Inr (hd (next_label_placeholders s))" using p by (simp add: top_placeholder_hd)
    ultimately show ?thesis unfolding e k using outs call by (intro exI [of _ ?final]) (simp add: gen_invocation_def Let_def)
  next
    case False
    let ?s3 = "?s2\<lparr>current_label := ?c + 1\<rparr>"
    let ?rest = "others (map (source_name \<circ> snd) post) (variable_names OUTPUT m)"
    let ?k = "if ?final then hd (next_label_placeholders s) else ?c + 1 + of_nat (2 * length ?outs)"
    have outs: "?outs = post @ map (identity x m) ?rest" "?outs \<noteq> []" using False by (auto simp: outputs_of_def others_def)
    have f3: "has_room M ?s3 (2 * length post + 2 * length ?rest)" using fits_next [OF f2] outs(1) by simp
    have e: "emit ?c i (added ?s3 is ?q b) = added s (assigns ?n ?c ?ins @ i # is) ?q b" if "length is = 2 * length ?outs" for i "is" b
      using emit_front [of M ?s2 "is" ?c i ?q b] f2 that by simp
    define now where "now \<longleftrightarrow> ?rest = [] \<and> post \<noteq> [] \<and> ?final"
    let ?k1 = "if now then hd (next_label_placeholders s) else ?c + 1 + of_nat (2 * length post)"
    let ?s4 = "added ?s3 (assigns (?c + 1) ?k1 post) ?q now"
    have "\<forall>a \<in> set post. ok_output x m a \<and> source_name (snd a) \<in> set (variable_names OUTPUT m)"
      using m(5) False output_name by (fastforce simp: ok_output_def split: sum.splits)
    from visit_post_ok [OF f3 _ _ this _ refl now_def] have v3: "visit_post_assignments ?final x post (variable_names OUTPUT m) ?s3 = Inr (?rest, ?s4)"
      using m(5) False p by simp
    have "complete_outputs ?final x m ?rest ?s4 = Inr (added ?s3 (assigns (?c + 1) ?k ?outs) ?q ?final)"
    proof (cases "?rest = []")
      case True
      then have "post \<noteq> []" using outs by auto
      then show ?thesis using True outs(1) by (simp add: now_def)
    next
      case rest: False
      then have now: "\<not> now" by (simp add: now_def)
      have "has_room M ?s4 (2 * length ?rest + 0)"
        by (rule fits_added) (use f3 known_assigns [OF known_small, of "?c + 1" "2 * length post" "?c + 1" post ?q] now in \<open>auto simp: has_room_def\<close>)
      from complete_outputs_ok [OF this _ _ m(2), of ?final OUTPUT x] show ?thesis
        using now rest p outs(1) assigns_then [of "map (identity x m) ?rest" "?c + 1" ?k post]
        by (simp add: others_def algebra_simps)
    qed
    note v4 = this
    have "visit_statement (InvocationStatement x pre post) s
      = Inr (emit ?c (CallInstruction x (?c + 1) (mod_entry m)) (added ?s3 (assigns (?c + 1) ?k ?outs) ?q ?final))"
      using nm m(1) v1 v2 nl False v3 v4 by (simp add: visit_invocation_def Let_def)
    then show ?thesis unfolding k using e outs(2) call by (intro exI [of _ ?final]) (simp add: gen_invocation_def Let_def)
  qed
  then show "\<exists>p b. visit_statement (InvocationStatement x pre post) s
      = Inr (added s (gen M ?n (last_target s (code_size M (InvocationStatement x pre post))) (InvocationStatement x pre post)) p b)
     \<and> p \<le> ?q \<and> unat ?q \<le> unat p + code_size M (InvocationStatement x pre post) \<and> (b \<longrightarrow> ?final)"
    by (metis le_add1 order_refl)
qed

end
