(* ===== verification/Ahorn_Branches.thy ===== *)
theory Ahorn_Branches
  imports Ahorn_Code
begin

text \<open>
  What the compiler adds for a statement without empty parts is the code of the statement: loops, decisions with
  their alternatives, and the placeholders they replace.
\<close>

section \<open>Targets of the code\<close>

lemma gen_branch_Cons:
  "gen_branch M n k (t # ts) = (if ts = [] then gen M n k t else gen M n (n + of_nat (code_size M t)) t @ gen_branch M (n + of_nat (code_size M t)) k ts)"
  by (cases ts) (simp_all add: Let_def)

lemma unat_next: "unat (n :: label) + Suc m < 2 ^ 31 \<Longrightarrow> unat (n + 1) = unat n + 1"
  using unat_plus [of n 1] by simp

definition all_known :: "label \<Rightarrow> Instruction list \<Rightarrow> bool" where
  "all_known q is \<longleftrightarrow> (\<forall>i \<in> set is. \<forall>t \<in> targets i. known q t)"

lemma all_known_simps [simp]:
  "all_known q []" "all_known q (i # is) \<longleftrightarrow> (\<forall>t \<in> targets i. known q t) \<and> all_known q is"
  "all_known q (is @ is') \<longleftrightarrow> all_known q is \<and> all_known q is'"
  by (auto simp: all_known_def)

lemma known_next: "unat n + Suc m < 2 ^ 31 \<Longrightarrow> known q (n + 1)"
  using known_small [of n 1 q] by simp

lemma known_here: "unat n < 2 ^ 31 \<Longrightarrow> known q n"
  by (simp add: known_def)

lemma unat_behind: "unat (n :: label) + Suc m < 2 ^ 31 \<Longrightarrow> unat (n + 1 + of_nat m) = unat n + Suc m"
  using unat_plus [of n "Suc m"] by (simp add: algebra_simps)

lemma gen_known:
  "known q k \<Longrightarrow> unat n + code_size M t < 2 ^ 31 \<Longrightarrow> all_known q (gen M n k t)"
  "known q k \<Longrightarrow> unat n + branch_size M ts < 2 ^ 31 \<Longrightarrow> all_known q (gen_branch M n k ts)"
  "known q k \<Longrightarrow> unat n + alts_size M alts < 2 ^ 31 \<Longrightarrow> all_known q (gen_alts M n k b alts)"
proof (induction M n k t and M n k ts and M n k b alts rule: gen_gen_branch_gen_alts.induct)
  case (4 M n k e thens alts elses)
  show ?case
  proof (cases "thens = []")
    case True
    then show ?thesis using 4(1,5,6) unat_next [of n "branch_size M elses"] known_next [of n "branch_size M elses"] by simp
  next
    case False
    let ?l = "n + 1 + of_nat (branch_size M thens)"
    have l: "unat ?l = unat n + Suc (branch_size M thens)" "unat (n + 1) = unat n + 1" "known q (n + 1)"
      using 4(5,6) False unat_behind [of n "branch_size M thens"] unat_next [of n 0] known_next [of n 0] by simp_all
    then have l2: "unat (?l + of_nat (alts_size M alts)) = unat ?l + alts_size M alts" "known q ?l"
      using 4(5,6) False unat_plus [of ?l "alts_size M alts"] known_here [of ?l] by simp_all
    show ?thesis using 4 False l l2 by (simp add: Let_def)
  qed
next
  case (5 M n k x pre post)
  let ?c = "n + of_nat (2 * length (inputs_of x (called M x) pre))"
  have c: "unat ?c = unat n + 2 * length (inputs_of x (called M x) pre)" by (rule unat_plus) (use 5(2) in simp)
  then have "unat (?c + 1) = unat ?c + 1" by (intro unat_next [of _ 0]) (use 5(2) in simp)
  note u = c this
  have "all_known q (assigns n ?c (inputs_of x (called M x) pre))"
    unfolding all_known_def by (rule known_assigns [OF known_here]) (use u 5(2) in simp_all)
  moreover have "all_known q (assigns (?c + 1) k (outputs_of x (called M x) post))"
    unfolding all_known_def by (rule known_assigns [OF 5(1)]) (use u 5(2) in simp)
  moreover have "known q (?c + 1)" by (rule known_here) (use u 5(2) in simp)
  ultimately show ?case using 5(1) by (simp add: gen_invocation_def Let_def)
next
  case (6 M n k e ts)
  then show ?case using unat_next [of n "branch_size M ts"] known_next [of n "branch_size M ts"] known_here [of n] by simp
next
  case (7 M n k e alts elses)
  then show ?case using unat_plus [of n "alts_size M alts"] by simp
next
  case (10 M n k t v va)
  then show ?case using unat_plus [of n "code_size M t"] known_small [of n "code_size M t" q] by (simp add: Let_def)
next
  case (12 M n k b e ts alts)
  let ?l = "n + 1 + of_nat (branch_size M ts)"
  have l: "unat ?l = unat n + Suc (branch_size M ts)" "unat (n + 1) = unat n + 1" "known q (n + 1)"
    using 12(4) unat_behind [of n "branch_size M ts"] unat_next [of n 0] known_next [of n 0] by simp_all
  then have "known q ?l" using 12(4) known_here [of ?l] by simp
  then show ?case using 12 l by (simp add: Let_def)
qed simp_all


section \<open>Placeholders replaced\<close>

lemma set_target_assignment [simp]: "set_target p k (assignment r e) = assignment r e"
  by (simp add: assignment_def split: Expression.splits Constant.splits)

lemma small_not: "unat (x :: label) < 2 ^ 31 \<Longrightarrow> 2 ^ 31 \<le> unat p \<Longrightarrow> x \<noteq> p"
  by auto

lemma retarget_assigns:
  "2 ^ 31 \<le> unat p \<Longrightarrow> unat n + 2 * length as < 2 ^ 31 \<Longrightarrow> map (set_target p k') (assigns n k as) = assigns n (if k = p then k' else k) as"
proof (induction n k as rule: assigns.induct)
  case (3 n k r e a as)
  have "unat (n + 2) = unat n + 2" using unat_plus [of n 2] 3(3) by simp
  then show ?case using 3 small_not [of "n + 2" p] by simp
qed simp_all

lemma retarget:
  "2 ^ 31 \<le> unat p \<Longrightarrow> unat n + code_size M t < 2 ^ 31 \<Longrightarrow> map (set_target p k') (gen M n k t) = gen M n (if k = p then k' else k) t"
  "2 ^ 31 \<le> unat p \<Longrightarrow> unat n + branch_size M ts < 2 ^ 31 \<Longrightarrow> map (set_target p k') (gen_branch M n k ts) = gen_branch M n (if k = p then k' else k) ts"
  "2 ^ 31 \<le> unat p \<Longrightarrow> unat n + alts_size M alts < 2 ^ 31 \<Longrightarrow> map (set_target p k') (gen_alts M n k b alts) = gen_alts M n (if k = p then k' else k) b alts"
proof (induction M n k t and M n k ts and M n k b alts rule: gen_gen_branch_gen_alts.induct)
  case (4 M n k e thens alts elses)
  show ?case
  proof (cases "thens = []")
    case True
    then have "unat (n + 1) = unat n + 1" using 4(6) unat_next [of n "branch_size M elses"] by simp
    then show ?thesis using 4(1,5,6) True small_not [of "n + 1" p] by simp
  next
    case False
    let ?l = "n + 1 + of_nat (branch_size M thens)"
    have l: "unat ?l = unat n + Suc (branch_size M thens)" "unat (n + 1) = unat n + 1"
      using 4(6) False unat_behind [of n "branch_size M thens"] unat_next [of n 0] by simp_all
    then have l2: "unat (?l + of_nat (alts_size M alts)) = unat ?l + alts_size M alts" "?l \<noteq> p" "n + 1 \<noteq> p"
      using 4(5,6) False unat_plus [of ?l "alts_size M alts"] small_not [of ?l p] small_not [of "n + 1" p] by simp_all
    show ?thesis using 4(2-6) False l l2 by (auto simp: Let_def)
  qed
next
  case (5 M n k x pre post)
  let ?c = "n + of_nat (2 * length (inputs_of x (called M x) pre))"
  have c: "unat ?c = unat n + 2 * length (inputs_of x (called M x) pre)" by (rule unat_plus) (use 5(2) in simp)
  then have "unat (?c + 1) = unat ?c + 1" by (intro unat_next [of _ 0]) (use 5(2) in simp)
  note u = c this
  have "map (set_target p k') (assigns n ?c (inputs_of x (called M x) pre)) = assigns n ?c (inputs_of x (called M x) pre)"
    using retarget_assigns [OF 5(1), of n "inputs_of x (called M x) pre" k' ?c] small_not [of ?c p] u 5 by simp
  moreover have "map (set_target p k') (assigns (?c + 1) k (outputs_of x (called M x) post)) = assigns (?c + 1) (if k = p then k' else k) (outputs_of x (called M x) post)"
    by (rule retarget_assigns [OF 5(1)]) (use u 5(2) in simp)
  moreover have "?c + 1 \<noteq> p" by (rule small_not) (use u 5 in simp_all)
  ultimately show ?case by (simp add: gen_invocation_def Let_def)
next
  case (6 M n k e ts)
  then show ?case using unat_next [of n "branch_size M ts"] small_not [of n p] by simp
next
  case (7 M n k e alts elses)
  then show ?case using unat_plus [of n "alts_size M alts"] by simp
next
  case (10 M n k t v va)
  then show ?case using unat_plus [of n "code_size M t"] small_not [of "n + of_nat (code_size M t)" p] by (simp add: Let_def)
next
  case (12 M n k b e ts alts)
  let ?l = "n + 1 + of_nat (branch_size M ts)"
  have l: "unat ?l = unat n + Suc (branch_size M ts)" "unat (n + 1) = unat n + 1"
    using 12(4) unat_behind [of n "branch_size M ts"] unat_next [of n 0] by simp_all
  then have "?l \<noteq> p" "n + 1 \<noteq> p" using 12(3,4) small_not [of ?l p] small_not [of "n + 1" p] by simp_all
  then show ?case using 12 l by (auto simp: Let_def)
qed simp_all

section \<open>The end of a branch\<close>

definition ends :: "bool \<Rightarrow> label \<Rightarrow> Instruction list \<Rightarrow> bool" where
  "ends c k is \<longleftrightarrow> is \<noteq> [] \<and> (last is = GotoInstruction k \<or> c \<and> (\<exists>x en. last is = CallInstruction x k en))"

lemma ends_behind: "ends c k is' \<Longrightarrow> ends c k (is @ is')" "ends c k is \<Longrightarrow> ends c k (i # is)"
  by (auto simp: ends_def)

lemma ends_assigns: "as \<noteq> [] \<Longrightarrow> ends c k (assigns n k as)"
  by (induction n k as rule: assigns.induct) (auto simp: ends_def)

lemma leads_ends:
  "ok_statement M t \<Longrightarrow> leads M c t \<Longrightarrow> ends c k (gen M n k t)"
  "ok_branch M ts \<Longrightarrow> leads_branch M c ts \<Longrightarrow> ends c k (gen_branch M n k ts)"
  "ok_alts M alts \<Longrightarrow> leads_alts M c alts \<Longrightarrow> ends c k (gen_alts M n k False alts)"
proof (induction M c t and M c ts and M c alts arbitrary: n and n and n rule: leads_leads_branch_leads_alts.induct)
  case (3 M c r e)
  then show ?case by (simp add: ends_def)
next
  case (4 M c e thens alts elses)
  have "ends c k (gen_branch M n k elses)" if "elses \<noteq> []" for n using 4 that by simp
  moreover have "ends c k (gen_alts M n k False alts)" if "elses = []" "alts \<noteq> []" for n using 4 that by simp
  moreover have "ends c k (gen_branch M n k thens)" if "elses = []" "alts = []" for n using 4 that by simp
  ultimately show ?case using 4(4)
    by (cases "elses = []"; cases "alts = []") (auto simp: Let_def intro!: ends_behind)
next
  case (5 M c x pre post)
  show ?case
  proof (cases "outputs_of x (called M x) post = []")
    case True
    then show ?thesis using 5 by (auto simp: gen_invocation_def Let_def ends_def)
  next
    case False
    then show ?thesis by (simp add: gen_invocation_def Let_def ends_assigns ends_behind)
  qed
next
  case (7 M c e alts elses)
  have "ends c k (gen_branch M n k elses)" if "elses \<noteq> []" for n using 7 that by simp
  moreover have "ends c k (gen_alts M n k False alts)" if "elses = []" for n using 7 that by simp
  ultimately show ?case by (cases "elses = []") (auto intro!: ends_behind)
next
  case (9 M c t ts)
  then show ?case by (auto simp: gen_branch_Cons intro!: ends_behind split: if_splits)
next
  case (11 M c e ts alts)
  then show ?case by (auto simp: Let_def intro!: ends_behind split: if_splits)
qed simp_all


section \<open>Branches\<close>

lemma gen_fits:
  assumes f: "has_room M s (length is + m)" and t: "all_known (next_label_placeholder s) is"
    and p: "p \<le> next_label_placeholder s" "unat (next_label_placeholder s) \<le> unat p + length is"
  shows "has_room M (added s is p b) m"
  by (rule fits_added [OF f _ p]) (use t p(1) in \<open>auto simp: all_known_def intro: known_mono\<close>)

lemma fits_room: "has_room M s m \<Longrightarrow> unat (current_label s) + m < 2 ^ 31"
  by (simp add: has_room_def)

lemma stack_known: "has_room M s m \<Longrightarrow> next_label_placeholders s \<noteq> [] \<Longrightarrow> known (next_label_placeholder s) (hd (next_label_placeholders s))"
  by (auto simp: has_room_def known_def)

lemma last_target_known: "has_room M s m \<Longrightarrow> (last_statement s \<longrightarrow> next_label_placeholders s \<noteq> []) \<Longrightarrow> known (next_label_placeholder s) (last_target s m)"
  using known_small [OF fits_room] stack_known by (auto simp: last_target_def)

definition bounded :: "label \<Rightarrow> label \<Rightarrow> nat \<Rightarrow> bool" where
  "bounded p q m \<longleftrightarrow> p \<le> q \<and> unat q \<le> unat p + m"

lemma bounded_trans: "bounded p q m \<Longrightarrow> bounded p' p m' \<Longrightarrow> bounded p' q (m + m')"
  by (auto simp: bounded_def)

definition good_branch :: "(string, Module) std_map \<Rightarrow> Statement list \<Rightarrow> bool" where
  "good_branch M ts \<longleftrightarrow> (\<forall>s. ts \<noteq> [] \<longrightarrow> has_room M s (branch_size M ts) \<longrightarrow> \<not> last_statement s \<longrightarrow> next_label_placeholders s \<noteq> [] \<longrightarrow>
     (\<exists>p. visit_branch ts s = Inr (added s (gen_branch M (current_label s) (hd (next_label_placeholders s)) ts) p False)
        \<and> bounded p (next_label_placeholder s) (branch_size M ts)))"

lemma good_at:
  assumes "good M t" "has_room M s (code_size M t)" "last_statement s \<longrightarrow> next_label_placeholders s \<noteq> []"
  obtains p b where "visit_statement t s = Inr (added s (gen M (current_label s) (last_target s (code_size M t)) t) p b)"
    "bounded p (next_label_placeholder s) (code_size M t)" "b \<longrightarrow> last_statement s"
  using assms unfolding good_def bounded_def by blast

lemma good_next:
  assumes g: "good M t" and f: "has_room M s (code_size M t + m)" and l: "\<not> last_statement s"
  obtains p where "visit_statement t s = Inr (added s (gen M (current_label s) (current_label s + of_nat (code_size M t)) t) p False)"
    "bounded p (next_label_placeholder s) (code_size M t)"
    "has_room M (added s (gen M (current_label s) (current_label s + of_nat (code_size M t)) t) p False) m"
proof -
  let ?k = "current_label s + of_nat (code_size M t)"
  have f1: "has_room M s (code_size M t)" using f by (rule fits_less) simp
  obtain p where p: "visit_statement t s = Inr (added s (gen M (current_label s) ?k t) p False)" "bounded p (next_label_placeholder s) (code_size M t)"
    using good_at [OF g f1] l by (metis last_target_def)
  have "all_known (next_label_placeholder s) (gen M (current_label s) ?k t)"
    by (rule gen_known(1) [OF known_small]) (use fits_room [OF f1] in simp_all)
  then have "has_room M (added s (gen M (current_label s) ?k t) p False) m"
    by (intro gen_fits) (use f p(2) in \<open>simp_all add: bounded_def\<close>)
  with p show thesis by (rule that)
qed

lemma good_branch_all: "\<forall>t \<in> set ts. good M t \<Longrightarrow> good_branch M ts"
proof (induction ts)
  case Nil
  then show ?case by (simp add: good_branch_def)
next
  case (Cons t ts)
  show ?case
    unfolding good_branch_def
  proof (intro allI impI)
    fix s assume f: "has_room M s (branch_size M (t # ts))" and l: "\<not> last_statement s" and st: "next_label_placeholders s \<noteq> []"
    show "\<exists>p. visit_branch (t # ts) s = Inr (added s (gen_branch M (current_label s) (hd (next_label_placeholders s)) (t # ts)) p False)
        \<and> bounded p (next_label_placeholder s) (branch_size M (t # ts))"
    proof (cases ts)
      case Nil
      let ?s = "s\<lparr>last_statement := True\<rparr>"
      have "has_room M ?s (code_size M t)" using f Nil by (simp add: fits_last)
      moreover have "last_target ?s (code_size M t) = hd (next_label_placeholders s)" by (simp add: last_target_def)
      ultimately obtain p b where p: "visit_statement t ?s = Inr (added s (gen M (current_label s) (hd (next_label_placeholders s)) t) p b)"
        "bounded p (next_label_placeholder s) (code_size M t)"
        using good_at [of M t ?s] Cons.prems st by (simp add: added_last) blast
      then show ?thesis using Nil by (intro exI [of _ p]) (simp add: added_def)
    next
      case (Cons t' ts')
      let ?n = "current_label s"
      have "has_room M s (code_size M t + branch_size M ts)" using f by simp
      then obtain p where p: "visit_statement t s = Inr (added s (gen M ?n (?n + of_nat (code_size M t)) t) p False)"
        "bounded p (next_label_placeholder s) (code_size M t)"
        "has_room M (added s (gen M ?n (?n + of_nat (code_size M t)) t) p False) (branch_size M ts)"
        using good_next [OF _ _ l] Cons.prems by (metis list.set_intros(1))
      obtain p' where p': "visit_branch ts (added s (gen M ?n (?n + of_nat (code_size M t)) t) p False)
          = Inr (added (added s (gen M ?n (?n + of_nat (code_size M t)) t) p False) (gen_branch M (?n + of_nat (code_size M t)) (hd (next_label_placeholders s)) ts) p' False)"
        "bounded p' p (branch_size M ts)"
        using Cons.IH [unfolded good_branch_def, rule_format, OF _ _ p(3)] Cons.prems st Cons by auto
      then show ?thesis using p(1) bounded_trans [OF p(2) p'(2)] Cons by (intro exI [of _ p']) (simp add: gen_branch_Cons)
    qed
  qed
qed


lemma branch_at:
  assumes g: "good_branch M ts" "ts \<noteq> []" and f: "has_room M s (branch_size M ts + m)" and l: "\<not> last_statement s" "next_label_placeholders s \<noteq> []"
  obtains p where "visit_branch ts s = Inr (added s (gen_branch M (current_label s) (hd (next_label_placeholders s)) ts) p False)"
    "bounded p (next_label_placeholder s) (branch_size M ts)"
    "has_room M (added s (gen_branch M (current_label s) (hd (next_label_placeholders s)) ts) p False) m"
proof -
  let ?k = "hd (next_label_placeholders s)"
  have f1: "has_room M s (branch_size M ts)" using f by (rule fits_less) simp
  obtain p where p: "visit_branch ts s = Inr (added s (gen_branch M (current_label s) ?k ts) p False)" "bounded p (next_label_placeholder s) (branch_size M ts)"
    using g f1 l unfolding good_branch_def by blast
  have "all_known (next_label_placeholder s) (gen_branch M (current_label s) ?k ts)"
    by (rule gen_known(2) [OF stack_known [OF f1 l(2)]]) (rule fits_room [OF f1])
  then have "has_room M (added s (gen_branch M (current_label s) ?k ts) p False) m"
    by (intro gen_fits) (use f p(2) in \<open>simp_all add: bounded_def\<close>)
  with p show thesis by (rule that)
qed

lemma number_Nil [simp]: "number n is = [] \<longleftrightarrow> is = []"
  by (cases "is") simp_all

lemma last_number: "is \<noteq> [] \<Longrightarrow> snd (last (number n is)) = last is"
proof (induction "is" arbitrary: n)
  case (Cons i "is")
  then show ?case by (cases "is = []") simp_all
qed simp

lemma last_added: "is \<noteq> [] \<Longrightarrow> last_instruction (added s is p b) = Inr (last is)"
  by (simp add: last_instruction_def last_number)

lemma then_target_added: "ends True k is \<Longrightarrow> then_target (added s is p b) = Inr k"
  by (auto simp: then_target_def last_added ends_def)

lemma else_target_added: "ends False k is \<Longrightarrow> else_target (added s is p b) = Inr k"
  by (auto simp: else_target_def last_added ends_def)

lemma gen_alts_Cons: "gen_alts M n k h ((e, ts) # alts) = gen_alts M n k (h \<or> alts \<noteq> []) [(e, ts)] @ gen_alts M (n + 1 + of_nat (branch_size M ts)) k h alts"
  by (simp add: Let_def)

lemma new_label_room: "has_room M s (Suc m) \<Longrightarrow> new_label s = Inr (current_label s, s\<lparr>current_label := current_label s + 1\<rparr>)"
  by (erule new_label_fits) simp

lemma visit_else_ifs_ok:
  "\<forall>a \<in> set alts. good_branch M (snd a) \<Longrightarrow> ok_alts M alts \<Longrightarrow> (\<not> h \<Longrightarrow> alts \<noteq> [] \<Longrightarrow> leads_alts M False alts)
     \<Longrightarrow> has_room M s (alts_size M alts + m) \<Longrightarrow> \<not> last_statement s \<Longrightarrow> next_label_placeholders s \<noteq> []
     \<Longrightarrow> \<exists>p. visit_else_ifs h alts s = Inr (added s (gen_alts M (current_label s) (hd (next_label_placeholders s)) h alts) p False)
       \<and> bounded p (next_label_placeholder s) (alts_size M alts)"
proof (induction alts arbitrary: s)
  case Nil
  then show ?case using added_none [of s] by (intro exI [of _ "next_label_placeholder s"]) (simp add: bounded_def)
next
  case (Cons a alts)
  obtain e ts where a: "a = (e, ts)" by (cases a)
  let ?n = "current_label s" and ?k = "hd (next_label_placeholders s)"
  let ?l = "?n + 1 + of_nat (branch_size M ts)"
  let ?s1 = "s\<lparr>current_label := ?n + 1\<rparr>"
  let ?one = "gen_alts M ?n ?k (h \<or> alts \<noteq> []) [(e, ts)]"
  have f0: "has_room M s (Suc (branch_size M ts + (alts_size M alts + m)))" using Cons.prems(4) a by (simp add: algebra_simps)
  then have f1: "has_room M ?s1 (branch_size M ts + (alts_size M alts + m))" by (rule fits_next)
  have "ts \<noteq> []" "good_branch M ts" using Cons.prems(1,2) a by auto
  then obtain p where p: "visit_branch ts ?s1 = Inr (added ?s1 (gen_branch M (?n + 1) ?k ts) p False)" "bounded p (next_label_placeholder s) (branch_size M ts)"
    using branch_at [OF _ _ f1] Cons.prems(5,6) by auto
  have e: "emit ?n i (added ?s1 (gen_branch M (?n + 1) ?k ts) p False) = added s (i # gen_branch M (?n + 1) ?k ts) p False" for i
    by (rule emit_front [OF fits_less [OF f0]]) simp_all
  have "else_target (added ?s1 (gen_branch M (?n + 1) ?k ts) p False) = Inr ?k" if "alts = []" "\<not> h"
    by (rule else_target_added [OF leads_ends(2)]) (use Cons.prems(2,3) a that in simp_all)
  then have v: "visit_else_ifs h (a # alts) s = visit_else_ifs h alts (added s ?one p False)"
    using new_label_room [OF f0] p(1) e a by (simp add: Let_def)
  have "all_known (next_label_placeholder s) ?one"
    by (rule gen_known(3) [OF stack_known [OF f0 Cons.prems(6)]]) (use fits_room [OF f0] in simp)
  then have f2: "has_room M (added s ?one p False) (alts_size M alts + m)"
    by (intro gen_fits) (use f0 p(2) in \<open>simp_all add: bounded_def Let_def\<close>)
  obtain p' where p': "visit_else_ifs h alts (added s ?one p False) = Inr (added (added s ?one p False) (gen_alts M ?l ?k h alts) p' False)"
    "bounded p' p (alts_size M alts)"
    using Cons.IH [OF _ _ _ f2] Cons.prems(1-3,6) a by (auto simp: algebra_simps)
  have "bounded p (next_label_placeholder s) (Suc (branch_size M ts))" using p(2) by (simp add: bounded_def)
  from bounded_trans [OF this p'(2)] show ?case
    using v p'(1) a by (intro exI [of _ p']) (simp add: gen_alts_Cons [of M _ _ h] del: gen_alts.simps)
qed


section \<open>Loops\<close>

lemma set_target_other: "p \<notin> targets i \<Longrightarrow> set_target p k i = i"
  by (cases i) auto

lemma resolve_added:
  assumes "\<forall>q \<in> set (label_to_instruction s). p \<notin> targets (snd q)"
  shows "resolve p k (added s is q b) = added s (map (set_target p k) is) q b"
proof -
  have "map (\<lambda>(l, i). (l, set_target p k i)) (number n is) = number n (map (set_target p k) is)" for n
    by (induction "is" arbitrary: n) simp_all
  moreover have "map (\<lambda>(l, i). (l, set_target p k i)) (label_to_instruction s) = label_to_instruction s"
    using assms by (intro map_idI) (auto simp: set_target_other)
  ultimately show ?thesis by (simp add: resolve_def added_def)
qed

lemma added_ignores [simp]:
  "added (s\<lparr>next_label_placeholder := q\<rparr>) is p b = added s is p b" "added (s\<lparr>last_statement := b'\<rparr>) is p b = added s is p b"
  by (simp_all add: added_def)

lemma added_updates:
  "(added s is p b)\<lparr>next_label_placeholders := st\<rparr> = added (s\<lparr>next_label_placeholders := st\<rparr>) is p b"
  "(added s is p b)\<lparr>last_statement := b'\<rparr> = added s is p b'"
  by (simp_all add: added_def)

text \<open>A new placeholder, on top of the others, together with a new label.\<close>

definition pushed :: "Compiler \<Rightarrow> Compiler" where
  "pushed s = s\<lparr>next_label_placeholder := next_label_placeholder s - 1,
     next_label_placeholders := (next_label_placeholder s - 1) # next_label_placeholders s, last_statement := False\<rparr>"

lemma pushed_fields [simp]:
  "label_to_instruction (pushed s) = label_to_instruction s" "current_label (pushed s) = current_label s"
  "next_label_placeholder (pushed s) = next_label_placeholder s - 1" "last_statement (pushed s) = False"
  "next_label_placeholders (pushed s) = (next_label_placeholder s - 1) # next_label_placeholders s"
  "name_to_module (pushed s) = name_to_module s"
  by (simp_all add: pushed_def)

lemma fits_pushed:
  assumes f: "has_room M s (Suc m)"
  shows "push_placeholder (s\<lparr>last_statement := False\<rparr>) = Inr (pushed s)"
    and "has_room M (pushed s\<lparr>current_label := current_label s + 1\<rparr>) m"
    and "2 ^ 31 \<le> unat (next_label_placeholder s - 1)"
    and "\<forall>q \<in> set (label_to_instruction s). next_label_placeholder s - 1 \<notin> targets (snd q)"
    and "bounded (next_label_placeholder s - 1) (next_label_placeholder s) 1"
    and "new_label (pushed s) = Inr (current_label s, pushed s\<lparr>current_label := current_label s + 1\<rparr>)"
proof -
  let ?q = "next_label_placeholder s"
  have q: "2 ^ 31 < unat ?q" using f by (simp add: has_room_def)
  then have "?q \<noteq> 0" by auto
  from unat_minus_one [OF this] q have u: "unat (?q - 1) = unat ?q - 1" "2 ^ 31 < unat ?q" by simp_all
  then have le: "?q - 1 \<le> ?q" "\<not> ?q \<le> ?q - 1" by (simp_all add: word_le_nat_alt)
  show "push_placeholder (s\<lparr>last_statement := False\<rparr>) = Inr (pushed s)"
    using u(2) by (auto simp: push_placeholder_def pushed_def Let_def)
  show "2 ^ 31 \<le> unat (?q - 1)" using u by simp
  show "bounded (?q - 1) ?q 1" using u le by (simp add: bounded_def)
  have old: "known ?q t \<Longrightarrow> t \<noteq> ?q - 1" for t using le(2) u by (auto simp: known_def)
  then show "\<forall>q \<in> set (label_to_instruction s). ?q - 1 \<notin> targets (snd q)" using f by (auto simp: has_room_def)
  have n: "unat (current_label s + 1) = unat (current_label s) + 1" by (rule unat_next [of _ m]) (use f in \<open>simp add: has_room_def\<close>)
  show "has_room M (pushed s\<lparr>current_label := current_label s + 1\<rparr>) m"
    using f u le(1) n known_mono [OF _ le(1)] order_trans [OF le(1)]
    by (auto simp: has_room_def word_less_nat_alt)
  show "new_label (pushed s) = Inr (current_label s, pushed s\<lparr>current_label := current_label s + 1\<rparr>)"
    using f by (auto simp: new_label_def has_room_def)
qed


lemma good_while:
  assumes g: "good_branch M ts" "ts \<noteq> []"
  shows "good M (WhileStatement e ts)"
  unfolding good_def
proof (intro allI impI)
  fix s assume f: "has_room M s (code_size M (WhileStatement e ts))" and st: "last_statement s \<longrightarrow> next_label_placeholders s \<noteq> []"
  let ?n = "current_label s" and ?q = "next_label_placeholder s" and ?st = "next_label_placeholders s"
  let ?s1 = "pushed s\<lparr>current_label := ?n + 1\<rparr>" and ?P = "?q - 1"
  have f0: "has_room M s (Suc (branch_size M ts))" using f by simp
  note w = fits_pushed [OF f0]
  from branch_at [OF g, of ?s1 0] w(2) obtain p where
    p: "visit_branch ts ?s1 = Inr (added ?s1 (gen_branch M (?n + 1) ?P ts) p False)" "bounded p ?P (branch_size M ts)" by auto
  have "unat (?n + 1) + branch_size M ts < 2 ^ 31" using fits_room [OF w(2)] by simp
  then have "resolve ?P ?n (added ?s1 (gen_branch M (?n + 1) ?P ts) p False) = added ?s1 (gen_branch M (?n + 1) ?n ts) p False"
    using resolve_added [of ?s1 ?P] w(3,4) retarget(2) [OF w(3), of "?n + 1" M ts ?n ?P] by simp
  note r = this
  let ?k = "last_target s (code_size M (WhileStatement e ts))"
  let ?s2 = "(added ?s1 (gen_branch M (?n + 1) ?n ts) p False)\<lparr>next_label_placeholders := ?st, last_statement := last_statement s\<rparr>"
  have s2: "?s2 = added (s\<lparr>current_label := ?n + 1\<rparr>) (gen_branch M (?n + 1) ?n ts) p (last_statement s)"
    by (simp add: added_def pushed_def)
  have "emit ?n (WhileInstruction e (?n + 1) ?k) ?s2 = added s (gen M ?n ?k (WhileStatement e ts)) p (last_statement s)"
    unfolding s2 using emit_front [of M s "gen_branch M (?n + 1) ?n ts" ?n] f0 by simp
  moreover have "(if last_statement s then top_placeholder ?s2 else Inr (current_label ?s2)) = Inr ?k"
    using st by (simp add: last_target_def top_placeholder_hd)
  ultimately have "visit_statement (WhileStatement e ts) s = Inr (added s (gen M ?n ?k (WhileStatement e ts)) p (last_statement s))"
    using w(1,6) p(1) r g(2) by (simp add: Let_def top_placeholder_def pop_placeholder_def)
  moreover have "bounded p ?q (code_size M (WhileStatement e ts))" using bounded_trans [OF w(5) p(2)] by simp
  ultimately show "\<exists>p b. visit_statement (WhileStatement e ts) s = Inr (added s (gen M ?n ?k (WhileStatement e ts)) p b)
     \<and> p \<le> ?q \<and> unat ?q \<le> unat p + code_size M (WhileStatement e ts) \<and> (b \<longrightarrow> last_statement s)"
    unfolding bounded_def by blast
qed


section \<open>Decisions\<close>

lemma emit_before:
  assumes k: "\<forall>q \<in> set (label_to_instruction s). fst q < current_label s" and r: "unat (current_label s) + Suc (length is) < 2 ^ 31"
    and l: "l = current_label s"
  shows "emit l i (added (s\<lparr>current_label := l + 1\<rparr>) is p b) = added s (i # is) p b"
proof -
  have u: "unat (l + 1) = unat l + 1" "unat (l + 1) + length is < 2 ^ 31" using r unat_next [of l "length is"] l by simp_all
  have "l < fst q" if "q \<in> set (number (l + 1) is)" for q
    using number_keys [OF that u(2)] u(1) by (simp add: word_less_nat_alt word_le_nat_alt)
  then show ?thesis using emplace_front [of "label_to_instruction s" l "number (l + 1) is" i] k l
    by (simp add: emit_def added_def algebra_simps)
qed

lemma fits_before:
  assumes f: "has_room M (added (s\<lparr>current_label := current_label s + 1\<rparr>) is p b) m"
    and k: "\<forall>q \<in> set (label_to_instruction s). fst q < current_label s" and r: "unat (current_label s) + Suc (length is) < 2 ^ 31"
    and i: "\<forall>t \<in> targets i. known p t"
  shows "has_room M (added s (i # is) p b) m"
proof -
  let ?n = "current_label s"
  have u: "unat (?n + 1) = unat ?n + 1" "unat (?n + 1) + length is < 2 ^ 31" using r unat_next [of ?n "length is"] by simp_all
  have above: "?n < fst q" if "q \<in> set (number (?n + 1) is)" for q
    using number_keys [OF that u(2)] u(1) by (simp add: word_less_nat_alt word_le_nat_alt)
  have "sorted_map (label_to_instruction s @ (?n, i) # number (?n + 1) is)"
    using f k above by (force simp: has_room_def sorted_wrt_append)
  moreover have "?n < ?n + 1 + of_nat (length is)" using u unat_plus [OF u(2)] by (simp add: word_less_nat_alt)
  ultimately show ?thesis using f i by (auto simp: has_room_def algebra_simps)
qed

lemma leave_ok:
  assumes s0: "s0 = (if last_statement s then s\<lparr>last_statement := False\<rparr> else pushed s)" and f: "has_room M s (Suc m)"
    and P: "P = hd (next_label_placeholders s0)" and sz: "code_size M t = Suc m"
  shows "leave_if (last_statement s) (added s0 (gen M (current_label s) P t) p False)
    = Inr (added s (gen M (current_label s) (last_target s (Suc m)) t) p (last_statement s))"
proof (cases "last_statement s")
  case True
  then show ?thesis using s0 P by (simp add: leave_if_def last_target_def added_updates)
next
  case False
  let ?n = "current_label s"
  note w = fits_pushed [OF f]
  have P': "P = next_label_placeholder s - 1" using False s0 P by simp
  have "unat ?n + code_size M t < 2 ^ 31" using fits_room [OF f] sz by simp
  then have "resolve P (?n + of_nat (Suc m)) (added s0 (gen M ?n P t) p False) = added s0 (gen M ?n (?n + of_nat (Suc m)) t) p False"
    using resolve_added [of s0 P] retarget(1) [of P ?n M t "?n + of_nat (Suc m)" P] w(3,4) False s0 P' by simp
  moreover have "(added s0 (gen M ?n k t) p False)\<lparr>next_label_placeholders := next_label_placeholders s\<rparr> = added s (gen M ?n k t) p False" for k
    using False s0 by (simp add: added_def pushed_def)
  ultimately show ?thesis using False s0 P' sz
    by (simp add: leave_if_def top_placeholder_def pop_placeholder_def last_target_def)
qed

lemma enter_ok:
  assumes s0: "s0 = (if last_statement s then s\<lparr>last_statement := False\<rparr> else pushed s)" and f: "has_room M s (Suc m)"
    and st: "last_statement s \<longrightarrow> next_label_placeholders s \<noteq> []"
  shows "(if last_statement s then Inr (s\<lparr>last_statement := False\<rparr>) else push_placeholder s) = Inr s0"
    and "new_label s0 = Inr (current_label s, s0\<lparr>current_label := current_label s + 1\<rparr>)"
    and "has_room M (s0\<lparr>current_label := current_label s + 1\<rparr>) m" "\<not> last_statement s0" "next_label_placeholders s0 \<noteq> []"
    and "current_label s0 = current_label s" "label_to_instruction s0 = label_to_instruction s"
    and "bounded (next_label_placeholder s0) (next_label_placeholder s) 1"
    and "\<forall>q \<in> set (label_to_instruction s0). fst q < current_label s0"
    and "known (next_label_placeholder s0) (hd (next_label_placeholders s0))"
proof -
  have "push_placeholder s = Inr (pushed s)" if "\<not> last_statement s"
  proof -
    have "s\<lparr>last_statement := False\<rparr> = s" using that by simp
    from fits_pushed(1) [OF f, unfolded this] show ?thesis .
  qed
  then show "(if last_statement s then Inr (s\<lparr>last_statement := False\<rparr>) else push_placeholder s) = Inr s0"
    using s0 by simp
  have "has_room M (s\<lparr>last_statement := False\<rparr>) (Suc m)" using f by (simp add: fits_last)
  from fits_next [OF this] fits_pushed(2) [OF f] show n: "has_room M (s0\<lparr>current_label := current_label s + 1\<rparr>) m" using s0 by simp
  show "new_label s0 = Inr (current_label s, s0\<lparr>current_label := current_label s + 1\<rparr>)"
    using s0 fits_pushed(6) [OF f] new_label_room [of M "s\<lparr>last_statement := False\<rparr>" m] f by (simp add: fits_last)
  show "bounded (next_label_placeholder s0) (next_label_placeholder s) 1"
    using s0 fits_pushed(5) [OF f] by (simp add: bounded_def)
  show "next_label_placeholders s0 \<noteq> []" using s0 st by simp
  then show "known (next_label_placeholder s0) (hd (next_label_placeholders s0))" using stack_known [OF n] by simp
qed (use s0 f in \<open>auto simp: has_room_def\<close>)


lemma visit_if_then:
  assumes g: "good_branch M thens" "thens \<noteq> []" "\<forall>a \<in> set alts. good_branch M (snd a)" "good_branch M elses"
    and ok: "ok_statement M (IfStatement e thens alts elses)"
    and f: "has_room M s (code_size M (IfStatement e thens alts elses))" and st: "last_statement s \<longrightarrow> next_label_placeholders s \<noteq> []"
  shows "\<exists>p. visit_if e thens alts elses s = Inr (added s (gen M (current_label s) (last_target s (code_size M (IfStatement e thens alts elses))) (IfStatement e thens alts elses)) p (last_statement s))
     \<and> bounded p (next_label_placeholder s) (code_size M (IfStatement e thens alts elses))"
proof -
  define s0 where s0: "s0 = (if last_statement s then s\<lparr>last_statement := False\<rparr> else pushed s)"
  let ?n = "current_label s" and ?P = "hd (next_label_placeholders s0)"
  let ?s1 = "s0\<lparr>current_label := ?n + 1\<rparr>"
  let ?B = "gen_branch M (?n + 1) ?P thens" and ?l = "?n + 1 + of_nat (branch_size M thens)"
  let ?A = "gen_alts M ?l ?P (elses \<noteq> []) alts" and ?E = "gen_branch M (?l + of_nat (alts_size M alts)) ?P elses"
  let ?k = "if alts = [] \<and> elses = [] then ?P else ?l"
  let ?m = "branch_size M thens + (alts_size M alts + branch_size M elses)"
  have f0: "has_room M s (Suc ?m)" using f g(2) by (simp add: add.assoc)
  note w = enter_ok [OF s0 f0 st]
  from branch_at [OF g(1,2) w(3)] w(4,5) obtain p1 where
    p1: "visit_branch thens ?s1 = Inr (added ?s1 ?B p1 False)" "bounded p1 (next_label_placeholder s0) (branch_size M thens)"
      "has_room M (added ?s1 ?B p1 False) (alts_size M alts + branch_size M elses)" by auto
  have room: "unat ?n + Suc ?m < 2 ^ 31" using fits_room [OF f0] .
  have "emit ?n i (added ?s1 ?B p1 False) = added s0 (i # ?B) p1 False" for i
    by (rule emit_before [OF w(9)]) (use w(6) room in simp_all)
  note em = this
  have "then_target (added ?s1 ?B p1 False) = Inr ?P" if "alts = []" "elses = []"
    by (rule then_target_added [OF leads_ends(2)]) (use ok that g(2) in simp_all)
  note tt = this
  have ne: "filter (\<lambda>a. snd a \<noteq> []) alts = alts"
  proof -
    have "ok_alts M alts" using ok by simp
    then show ?thesis by (induction alts) auto
  qed
  let ?i = "IfInstruction e (?n + 1) ?k"
  have kn: "known p1 (?n + 1)" "known p1 ?k"
    using known_next [of ?n ?m p1] known_small [of ?n "Suc (branch_size M thens)" p1] room w(10) p1(2)
    by (auto simp: bounded_def algebra_simps intro: known_mono)
  have "has_room M (added s0 (?i # ?B) p1 False) (alts_size M alts + branch_size M elses)"
    by (rule fits_before) (use p1(3) w(6,9) room kn in \<open>auto simp: add.assoc\<close>)
  note fits2 = this
  define s2 where "s2 = added s0 (?i # ?B) p1 False"
  have f2: "has_room M s2 (alts_size M alts + branch_size M elses)" using fits2 unfolding s2_def .
  have at2: "current_label s2 = ?l" "next_label_placeholders s2 = next_label_placeholders s0" "\<not> last_statement s2" "next_label_placeholder s2 = p1"
    using w(6) by (simp_all add: s2_def algebra_simps)
  have "\<exists>p. visit_else_ifs (elses \<noteq> []) alts s2 = Inr (added s2 (gen_alts M (current_label s2) (hd (next_label_placeholders s2)) (elses \<noteq> []) alts) p False)
      \<and> bounded p (next_label_placeholder s2) (alts_size M alts)"
    by (rule visit_else_ifs_ok [OF g(3) _ _ f2]) (use ok w(5) at2(2,3) in auto)
  then obtain p2 where p2: "visit_else_ifs (elses \<noteq> []) alts s2 = Inr (added s2 ?A p2 False)" "bounded p2 p1 (alts_size M alts)"
    unfolding at2 by blast
  define s3 where "s3 = added s2 ?A p2 False"
  have "all_known p1 ?A"
    by (rule gen_known(3)) (use stack_known [OF f2] at2 w(5) fits_room [OF f2] in simp_all)
  then have f3: "has_room M s3 (branch_size M elses)"
    unfolding s3_def by (intro gen_fits) (use f2 p2(2) at2(4) in \<open>simp_all add: bounded_def\<close>)
  have at3: "current_label s3 = ?l + of_nat (alts_size M alts)" "next_label_placeholders s3 = next_label_placeholders s0" "\<not> last_statement s3" "next_label_placeholder s3 = p2"
    using at2 by (simp_all add: s3_def)
  obtain p3 where p3: "(if elses = [] then Inr s3 else visit_branch elses s3) = Inr (added s3 ?E p3 False)" "bounded p3 p2 (branch_size M elses)"
  proof (cases "elses = []")
    case True
    then show thesis using that [of p2] added_none [of s3] at3(3,4) by (simp add: bounded_def)
  next
    case False
    from branch_at [OF g(4) False, of s3 0] f3 at3 w(5) obtain p where
      "visit_branch elses s3 = Inr (added s3 ?E p False)" "bounded p p2 (branch_size M elses)" by auto
    then show thesis using that False by simp
  qed
  have G: "added s3 ?E p3 False = added s0 (gen M ?n ?P (IfStatement e thens alts elses)) p3 False"
    using g(2) by (simp add: s3_def s2_def Let_def)
  have h1: "rbind (new_label s0) (\<lambda>(l, s). let b = current_label s in
      rbind (visit_branch thens s) (\<lambda>s. rbind (if alts = [] \<and> elses = [] then then_target s else Inr (current_label s))
        (\<lambda>k. Inr (emit l (IfInstruction e b k) s)))) = Inr s2"
    using w(2) p1(1) em tt by (cases "alts = [] \<and> elses = []") (auto simp: s2_def Let_def)
  have h2: "(if alts = [] then Inr s2 else visit_else_ifs (elses \<noteq> []) alts s2) = Inr s3"
    using p2(1) by (cases "alts = []") (simp_all add: s3_def)
  have "visit_if e thens alts elses s = leave_if (last_statement s) (added s3 ?E p3 False)"
    using w(1) h1 h2 p3(1) ne g(2) by (cases "elses = []"; cases "alts = []") (auto simp: Let_def)
  moreover have "bounded p3 (next_label_placeholder s) (code_size M (IfStatement e thens alts elses))"
    using bounded_trans [OF w(8) bounded_trans [OF p1(2) bounded_trans [OF p2(2) p3(2)]]] g(2) by (simp add: add.assoc)
  ultimately show ?thesis
    unfolding G using leave_ok [OF s0 f0 refl, of "IfStatement e thens alts elses" p3] g(2) by (auto simp: add.assoc)
qed


lemma visit_if_else:
  assumes g: "good_branch M elses" "elses \<noteq> []"
    and ok: "ok_statement M (IfStatement e [] [] elses)"
    and f: "has_room M s (code_size M (IfStatement e [] [] elses))" and st: "last_statement s \<longrightarrow> next_label_placeholders s \<noteq> []"
  shows "\<exists>p. visit_if e [] [] elses s = Inr (added s (gen M (current_label s) (last_target s (code_size M (IfStatement e [] [] elses))) (IfStatement e [] [] elses)) p (last_statement s))
     \<and> bounded p (next_label_placeholder s) (code_size M (IfStatement e [] [] elses))"
proof -
  define s0 where s0: "s0 = (if last_statement s then s\<lparr>last_statement := False\<rparr> else pushed s)"
  let ?n = "current_label s" and ?P = "hd (next_label_placeholders s0)"
  let ?s1 = "s0\<lparr>current_label := ?n + 1\<rparr>" and ?B = "gen_branch M (?n + 1) ?P elses"
  have f0: "has_room M s (Suc (branch_size M elses))" using f by simp
  note w = enter_ok [OF s0 f0 st]
  from branch_at [OF g, of ?s1 0] w(3-5) obtain p1 where
    p1: "visit_branch elses ?s1 = Inr (added ?s1 ?B p1 False)" "bounded p1 (next_label_placeholder s0) (branch_size M elses)" by auto
  have room: "unat ?n + Suc (branch_size M elses) < 2 ^ 31" using fits_room [OF f0] .
  have "emit ?n i (added ?s1 ?B p1 False) = added s0 (i # ?B) p1 False" for i
    by (rule emit_before [OF w(9)]) (use w(6) room in simp_all)
  moreover have "else_target (added ?s1 ?B p1 False) = Inr ?P"
    by (rule else_target_added [OF leads_ends(2)]) (use ok in simp_all)
  ultimately have "visit_if e [] [] elses s = leave_if (last_statement s) (added s0 (gen M ?n ?P (IfStatement e [] [] elses)) p1 False)"
    using w(1,2) p1(1) g(2) by (simp add: Let_def)
  moreover have "bounded p1 (next_label_placeholder s) (code_size M (IfStatement e [] [] elses))"
    using bounded_trans [OF w(8) p1(2)] by simp
  ultimately show ?thesis
    using leave_ok [OF s0 f0 refl, of "IfStatement e [] [] elses" p1] by auto
qed

lemma good_if:
  assumes "good_branch M thens" "\<forall>a \<in> set alts. good_branch M (snd a)" "good_branch M elses" "ok_statement M (IfStatement e thens alts elses)"
  shows "good M (IfStatement e thens alts elses)"
proof (cases "thens = []")
  case True
  then have "alts = []" "elses \<noteq> []" using assms(4) by auto
  then show ?thesis using visit_if_else [of M elses e] assms(3,4) True unfolding good_def bounded_def by fastforce
next
  case False
  then show ?thesis using visit_if_then [OF assms(1) False assms(2-4)] unfolding good_def bounded_def by fastforce
qed

lemma good_case:
  assumes "\<forall>a \<in> set alts. good_branch M (snd a)" "good_branch M elses" "ok_statement M (CaseStatement e alts elses)"
  shows "good M (CaseStatement e alts elses)"
proof -
  obtain e' ts rest where a: "alts = (e', ts) # rest" using assms(3) by (cases alts) auto
  let ?i = "IfStatement e' ts rest elses"
  have ok: "ok_statement M ?i" using assms(3) a by auto
  have "good M ?i" by (rule good_if) (use assms(1,2) ok a in auto)
  moreover have "ts \<noteq> []" using assms(3) a by simp
  then have "gen M n k ?i = gen M n k (CaseStatement e alts elses)" "code_size M ?i = code_size M (CaseStatement e alts elses)" for n k
    using a by (simp_all add: Let_def algebra_simps)
  moreover have "visit_statement ?i s = visit_statement (CaseStatement e alts elses) s" for s using a by simp
  ultimately show ?thesis unfolding good_def by simp
qed

lemma ok_branch_all: "ok_branch M ts \<longleftrightarrow> (\<forall>t \<in> set ts. ok_statement M t)"
  by (induction ts) auto

lemma ok_alts_all: "ok_alts M alts \<longleftrightarrow> (\<forall>a \<in> set alts. snd a \<noteq> [] \<and> ok_branch M (snd a))"
  by (induction alts) auto

text \<open>
  What the compiler adds for a statement is its code.
\<close>

lemma ok_good: "ok_statement M t \<Longrightarrow> good M t"
proof (induction t)
  case (AssignmentStatement r e)
  then show ?case unfolding good_def using visit_assignment_ok by fastforce
next
  case (IfStatement e thens alts elses)
  have snds: "snd a \<in> Basic_BNFs.snds a" for a :: "Expression \<times> Statement list" by (cases a) simp
  have "good_branch M thens" "good_branch M elses"
    by (rule good_branch_all; use IfStatement in \<open>simp add: ok_branch_all\<close>)+
  moreover have "\<forall>a \<in> set alts. good_branch M (snd a)"
    using IfStatement.IH(2) [OF _ snds] IfStatement.prems by (intro ballI good_branch_all) (simp add: ok_alts_all ok_branch_all)
  ultimately show ?case using good_if IfStatement.prems by blast
next
  case (InvocationStatement x pre post)
  then show ?case by (simp add: visit_invocation_ok)
next
  case (WhileStatement e ts)
  then have "good_branch M ts" by (intro good_branch_all) (simp add: ok_branch_all)
  then show ?case using good_while WhileStatement.prems by simp
next
  case (CaseStatement e alts elses)
  have snds: "snd a \<in> Basic_BNFs.snds a" for a :: "Expression \<times> Statement list" by (cases a) simp
  have "good_branch M elses" by (rule good_branch_all; use CaseStatement in \<open>simp add: ok_branch_all\<close>)
  moreover have "\<forall>a \<in> set alts. good_branch M (snd a)"
    using CaseStatement.IH(1) [OF _ snds] CaseStatement.prems by (intro ballI good_branch_all) (simp add: ok_alts_all ok_branch_all)
  ultimately show ?case using good_case CaseStatement.prems by blast
qed simp_all

section \<open>A branch that ends with a loop\<close>

text \<open>
  A decision without else whose branch ends with a loop: its code is that of the branch behind an instruction
  that leads to the head of the loop when the condition is false.
\<close>

lemma leave_added:
  assumes s0: "s0 = (if last_statement s then s\<lparr>last_statement := False\<rparr> else pushed s)" and f: "has_room M s (Suc m)"
    and P: "P = hd (next_label_placeholders s0)" and l: "length is = Suc m"
    and r: "\<not> last_statement s \<Longrightarrow> map (set_target P (current_label s + of_nat (Suc m))) is = is'" "last_statement s \<Longrightarrow> is' = is"
  shows "leave_if (last_statement s) (added s0 is p False) = Inr (added s is' p (last_statement s))"
proof (cases "last_statement s")
  case True
  then show ?thesis using s0 r(2) by (simp add: leave_if_def added_updates)
next
  case False
  note w = fits_pushed [OF f]
  have P': "P = next_label_placeholder s - 1" using False s0 P by simp
  have "resolve P (current_label s + of_nat (Suc m)) (added s0 is p False) = added s0 is' p False"
    using resolve_added [of s0 P] r(1) w(4) False s0 P' by simp
  moreover have "(added s0 is' p False)\<lparr>next_label_placeholders := next_label_placeholders s\<rparr> = added s is' p False"
    using False s0 by (simp add: added_def pushed_def)
  ultimately show ?thesis using False s0 P' l
    by (simp add: leave_if_def top_placeholder_def pop_placeholder_def)
qed

lemma gen_branch_last:
  "gen_branch M n k (ts @ [t]) = (if ts = [] then [] else gen_branch M n (n + of_nat (branch_size M ts)) ts) @ gen M (n + of_nat (branch_size M ts)) k t"
  by (induction ts arbitrary: n) (auto simp: gen_branch_Cons algebra_simps)

lemma branch_size_last: "branch_size M (ts @ [t]) = branch_size M ts + code_size M t"
  by (induction ts) simp_all

lemma number_at_length: "map_of (number n (is @ i # is')) (n + of_nat (length is)) = Some i"
  if "unat n + length (is @ i # is') < 2 ^ 31"
  using that
proof (induction "is" arbitrary: n)
  case (Cons j "is")
  have n: "unat (n + 1) = unat n + 1" using unat_next [of n 0] Cons.prems by simp
  have "unat (n + 1 + of_nat (length is)) \<noteq> unat n" using unat_behind [of n "length is"] Cons.prems by simp
  then have "n \<noteq> n + 1 + of_nat (length is)" by metis
  then show ?case using Cons.IH [of "n + 1"] Cons.prems n by (simp add: algebra_simps)
qed simp

lemma loop_entered:
  assumes ok: "\<forall>t \<in> set ts. ok_statement M t" "bs \<noteq> []" "ok_branch M bs" "leads_branch M True bs"
    and f: "has_room M s (code_size M (IfStatement e (ts @ [WhileStatement c bs]) [] []))"
    and st: "last_statement s \<longrightarrow> next_label_placeholders s \<noteq> []"
    and n: "n = current_label s" and h: "h = n + 1 + of_nat (branch_size M ts)"
    and k: "k = last_target s (code_size M (IfStatement e (ts @ [WhileStatement c bs]) [] []))"
  shows "\<exists>p. visit_statement (IfStatement e (ts @ [WhileStatement c bs]) [] []) s
    = Inr (added s (IfInstruction e (n + 1) h # gen_branch M (n + 1) k (ts @ [WhileStatement c bs])) p (last_statement s))"
proof -
  let ?thens = "ts @ [WhileStatement c bs]"
  define s0 where s0: "s0 = (if last_statement s then s\<lparr>last_statement := False\<rparr> else pushed s)"
  let ?P = "hd (next_label_placeholders s0)" and ?s1 = "s0\<lparr>current_label := n + 1\<rparr>" and ?m = "branch_size M ?thens"
  let ?B = "gen_branch M (n + 1) ?P ?thens"
  have f0: "has_room M s (Suc ?m)" using f by simp
  note w = enter_ok [OF s0 f0 st]
  have "ok_statement M (WhileStatement c bs)" using ok(2,3) by simp
  then have g: "good_branch M ?thens" using ok(1) by (intro good_branch_all) (auto intro: ok_good)
  from branch_at [OF g, of ?s1 0] w(3-5) n obtain p where
    p: "visit_branch ?thens ?s1 = Inr (added ?s1 ?B p False)" by auto
  have room: "unat n + Suc ?m < 2 ^ 31" using fits_room [OF f0] n by simp
  have em: "emit n i (added ?s1 ?B p False) = added s0 (i # ?B) p False" for i
    by (rule emit_before [OF w(9)]) (use w(6) room n in simp_all)
  have "ends True h (gen_branch M (h + 1) h bs)" by (rule leads_ends(2) [OF ok(3,4)])
  then have "ends True h ?B" unfolding gen_branch_last by (intro ends_behind(1)) (simp add: ends_behind(2) h)
  note tt = then_target_added [OF this]
  have v: "visit_statement (IfStatement e ?thens [] []) s = leave_if (last_statement s) (added s0 (IfInstruction e (n + 1) h # ?B) p False)"
    using w(1,2) p em tt n by (simp add: Let_def)
  have "leave_if (last_statement s) (added s0 (IfInstruction e (n + 1) h # ?B) p False)
      = Inr (added s (IfInstruction e (n + 1) h # gen_branch M (n + 1) k ?thens) p (last_statement s))"
  proof (rule leave_added [OF s0 f0 refl])
    show "length (IfInstruction e (n + 1) h # ?B) = Suc ?m" by simp
    assume l: "\<not> last_statement s"
    note q = fits_pushed(3) [OF f0]
    have P: "?P = next_label_placeholder s - 1" using l s0 by simp
    have kk: "k = current_label s + of_nat (Suc ?m)" using l k by (simp add: last_target_def)
    have u: "unat (n + 1) = unat n + 1" using unat_next [of n 0] room by simp
    have hs: "unat h = unat n + Suc (branch_size M ts)" unfolding h using room by (intro unat_behind) (simp add: branch_size_last)
    have "n + 1 \<noteq> ?P" "h \<noteq> ?P" using small_not [of _ "next_label_placeholder s - 1"] q room u hs P by (auto simp: branch_size_last)
    moreover have "map (set_target ?P k) ?B = gen_branch M (n + 1) k ?thens"
      using retarget(2) [of ?P "n + 1" M ?thens k ?P] q room u P by simp
    ultimately show "map (set_target ?P (current_label s + of_nat (Suc ?m))) (IfInstruction e (n + 1) h # ?B) = IfInstruction e (n + 1) h # gen_branch M (n + 1) k ?thens"
      by (simp add: kk)
  next
    assume "last_statement s"
    then show "IfInstruction e (n + 1) h # gen_branch M (n + 1) k ?thens = IfInstruction e (n + 1) h # ?B"
      using k s0 by (simp add: last_target_def)
  qed
  with v show ?thesis by auto
qed

lemma added_at:
  assumes f: "has_room M s (length (is @ i # is'))" and l: "l = current_label s + of_nat (length is)"
  shows "map_of (label_to_instruction (added s (is @ i # is') p b)) l = Some i"
proof -
  have room: "unat (current_label s) + length (is @ i # is') < 2 ^ 31" by (rule fits_room [OF f])
  have "current_label s \<le> l" unfolding l using unat_plus [of "current_label s" "length is"] room by (simp add: word_le_nat_alt)
  then have "map_of (label_to_instruction s) l = None" using f by (intro map_of_notin) (auto simp: has_room_def)
  then show ?thesis using number_at_length [OF room] l by (simp add: map_add_def)
qed

end
