(* ===== verification/Ahorn_Traces.thy ===== *)
theory Ahorn_Traces
  imports Ahorn_Branches Ahorn_Projects
begin

text \<open>
  What statements do, as the instructions executed and branches taken, and where their code is in a graph.
\<close>

section \<open>Executions of statements\<close>

text \<open>Instructions without the labels they lead to.\<close>

fun unlabelled :: "Instruction \<Rightarrow> Instruction" where
  "unlabelled (IfInstruction e t f) = IfInstruction e 0 0"
| "unlabelled (WhileInstruction e t f) = WhileInstruction e 0 0"
| "unlabelled (CallInstruction x here callee) = CallInstruction x 0 0"
| "unlabelled i = i"

fun shown :: "event \<Rightarrow> event" where
  "shown (Execute i) = Execute (unlabelled i)"
| "shown (Branch b) = Branch b"

definition decides_if :: "Expression \<Rightarrow> bool \<Rightarrow> event list" where
  "decides_if e b = [Execute (IfInstruction e 0 0), Branch b]"

definition decides_while :: "Expression \<Rightarrow> bool \<Rightarrow> event list" where
  "decides_while e b = [Execute (WhileInstruction e 0 0), Branch b]"

definition assigned :: "(VariableReference \<times> Expression) list \<Rightarrow> event list" where
  "assigned as = map (\<lambda>a. Execute (assignment (fst a) (snd a))) as"

definition invokes :: "Module \<Rightarrow> Variable \<Rightarrow> (VariableReference \<times> Expression) list \<Rightarrow> (VariableReference \<times> Expression) list \<Rightarrow> event list" where
  "invokes m x pre post = assigned (inputs_of x m pre) @ Execute (CallInstruction x 0 0) # assigned (outputs_of x m post)"

text \<open>
  The executions of a list of statements, with every outcome of the conditions.
\<close>

inductive exec :: "(string, Module) std_map \<Rightarrow> Statement list \<Rightarrow> event list \<Rightarrow> bool" for M where
  exec_end: "exec M [] []"
| exec_assignment: "exec M ts w \<Longrightarrow> exec M (AssignmentStatement r e # ts) (Execute (assignment r e) # w)"
| exec_invocation: "exec M ts w \<Longrightarrow> exec M (InvocationStatement x pre post # ts) (invokes (called M x) x pre post @ w)"
| exec_then: "exec M thens v \<Longrightarrow> exec M ts w \<Longrightarrow> exec M (IfStatement e thens alts elses # ts) (decides_if e True @ v @ w)"
| exec_else: "exec M elses v \<Longrightarrow> exec M ts w \<Longrightarrow> exec M (IfStatement e thens [] elses # ts) (decides_if e False @ v @ w)"
| exec_alt: "exec M (IfStatement e' thens' alts elses # ts) w
    \<Longrightarrow> exec M (IfStatement e thens ((e', thens') # alts) elses # ts) (decides_if e False @ w)"
| exec_done: "exec M ts w \<Longrightarrow> exec M (WhileStatement e ss # ts) (decides_while e False @ w)"
| exec_loop: "exec M ss v \<Longrightarrow> exec M (WhileStatement e ss # ts) w \<Longrightarrow> exec M (WhileStatement e ss # ts) (decides_while e True @ v @ w)"
| exec_case: "exec M (IfStatement e' thens alts elses # ts) w \<Longrightarrow> exec M (CaseStatement e ((e', thens) # alts) elses # ts) w"

inductive_cases exec_NilE: "exec M [] w"

section \<open>Code in a graph\<close>

definition leaving :: "Instruction \<Rightarrow> Instruction list \<Rightarrow> (label \<times> edge_type) set" where
  "leaving i is = (case i of
     IfInstruction _ t f \<Rightarrow> {(t, TRUE_BRANCH), (f, FALSE_BRANCH)}
   | WhileInstruction _ t f \<Rightarrow> {(t, TRUE_BRANCH), (f, FALSE_BRANCH)}
   | CallInstruction _ here _ \<Rightarrow> {(here, INTRAPROCEDURAL_CALL_TO_RETURN)}
   | _ \<Rightarrow> (case is of GotoInstruction t # _ \<Rightarrow> {(t, INTRAPROCEDURAL)} | _ \<Rightarrow> {}))"

fun located :: "Cfg \<Rightarrow> label \<Rightarrow> Instruction list \<Rightarrow> bool" where
  "located c n [] \<longleftrightarrow> True"
| "located c n (i # is) \<longleftrightarrow> (is_goto i \<or> events_at c n = [Execute i] \<and> steps c n = leaving i is) \<and> located c (n + 1) is"

text \<open>An assignment has a jump behind it, and nothing else has.\<close>

definition simple :: "Instruction \<Rightarrow> bool" where
  "simple i \<longleftrightarrow> is_assignment i \<or> is_havoc i"

fun paired :: "Instruction list \<Rightarrow> bool" where
  "paired [] \<longleftrightarrow> True"
| "paired [i] \<longleftrightarrow> \<not> simple i \<and> \<not> is_goto i"
| "paired (i # j # is) \<longleftrightarrow> (if simple i then is_goto j \<and> paired is else \<not> is_goto i \<and> paired (j # is))"

lemma paired_append: "paired is \<Longrightarrow> paired (is @ is') \<longleftrightarrow> paired is'"
proof (induction "is" rule: paired.induct)
  case (2 i)
  then show ?case by (cases is') simp_all
qed auto

lemma goto_not_simple: "is_goto i \<Longrightarrow> \<not> simple i"
  by (cases i) (simp_all add: is_goto_def simple_def is_assignment_def is_havoc_def)

lemma leaving_append: "is \<noteq> [] \<or> \<not> simple i \<and> \<not> is_sequence i \<and> \<not> is_goto i \<Longrightarrow> leaving i (is @ is') = leaving i is"
  by (cases "is"; cases i) (auto simp: leaving_def simple_def is_assignment_def is_havoc_def is_sequence_def is_goto_def)

lemma located_append:
  "paired is \<Longrightarrow> \<forall>i \<in> set is. \<not> is_sequence i \<Longrightarrow> located c n (is @ is') \<longleftrightarrow> located c n is \<and> located c (n + of_nat (length is)) is'"
proof (induction "is" arbitrary: n rule: paired.induct)
  case (2 i)
  then show ?case using leaving_append [of "[]" i is'] by auto
next
  case (3 i j "is")
  have e: "leaving i (j # is @ is') = leaving i (j # is)" using leaving_append [of "j # is" i is'] by simp
  show ?case
  proof (cases "simple i")
    case True
    then show ?thesis using 3(1) [of "n + 1 + 1"] 3(3,4) e by (auto simp: algebra_simps)
  next
    case False
    then show ?thesis using 3(2) [of "n + 1"] 3(3,4) e by (auto simp: algebra_simps)
  qed
qed simp

section \<open>The shape of code\<close>

lemma simple_assignment [simp]: "simple (assignment r e)" "\<not> is_goto (assignment r e)" "\<not> is_sequence (assignment r e)"
  by (simp_all add: simple_def assignment_def is_assignment_def is_havoc_def is_goto_def is_sequence_def split: Expression.splits Constant.splits)

lemma kinds [simp]:
  "\<not> simple (IfInstruction e t f)" "\<not> is_goto (IfInstruction e t f)" "\<not> is_sequence (IfInstruction e t f)"
  "\<not> simple (WhileInstruction e t f)" "\<not> is_goto (WhileInstruction e t f)" "\<not> is_sequence (WhileInstruction e t f)"
  "\<not> simple (CallInstruction x here callee)" "\<not> is_goto (CallInstruction x here callee)" "\<not> is_sequence (CallInstruction x here callee)"
  "is_goto (GotoInstruction t)" "\<not> is_sequence (GotoInstruction t)" "\<not> simple (GotoInstruction t)"
  by (simp_all add: simple_def is_assignment_def is_havoc_def is_goto_def is_sequence_def)

definition shaped :: "Instruction list \<Rightarrow> bool" where
  "shaped is \<longleftrightarrow> paired is \<and> (\<forall>i \<in> set is. \<not> is_sequence i)"

lemma paired_Cons: "\<not> simple i \<Longrightarrow> \<not> is_goto i \<Longrightarrow> paired (i # is) \<longleftrightarrow> paired is"
  by (cases "is") simp_all

lemma shaped_Cons: "\<not> simple i \<Longrightarrow> \<not> is_goto i \<Longrightarrow> \<not> is_sequence i \<Longrightarrow> shaped (i # is) \<longleftrightarrow> shaped is"
  by (simp add: shaped_def paired_Cons)

lemma shaped_append: "shaped is \<Longrightarrow> shaped is' \<Longrightarrow> shaped (is @ is')"
  by (auto simp: shaped_def paired_append)

lemma shaped_Nil [simp]: "shaped []"
  by (simp add: shaped_def)

lemma shaped_assigns [simp]: "shaped (assigns n k as)"
proof (induction n k as rule: assigns.induct)
  case (3 n k r e a as)
  then show ?case by (simp add: shaped_def)
qed (simp_all add: shaped_def)

lemma shaped_gen [simp]: "shaped (gen M n k t)" "shaped (gen_branch M n k ts)" "shaped (gen_alts M n k b alts)"
proof (induction M n k t and M n k ts and M n k b alts rule: gen_gen_branch_gen_alts.induct)
  case (3 M n k r e)
  then show ?case by (simp add: shaped_def)
qed (auto simp: Let_def gen_invocation_def shaped_Cons intro!: shaped_append)

lemma located_shaped: "shaped is \<Longrightarrow> located c n (is @ is') \<longleftrightarrow> located c n is \<and> located c (n + of_nat (length is)) is'"
  by (simp add: shaped_def located_append)

section \<open>Code that is in place\<close>

fun inside :: "label \<Rightarrow> nat \<Rightarrow> label set" where
  "inside n 0 = {}"
| "inside n (Suc m) = insert n (inside (n + 1) m)"

lemma inside_plus: "inside n (a + b) = inside n a \<union> inside (n + of_nat a) b"
  by (induction n a rule: inside.induct) (simp_all add: algebra_simps)

lemma inside_less: "l \<in> inside n m \<Longrightarrow> unat n + m < 2 ^ 31 \<Longrightarrow> unat l < unat n + m"
proof (induction n m rule: inside.induct)
  case (2 n m)
  have "unat (n + 1) = unat n + 1" by (rule unat_next [of _ 0]) (use 2(3) in simp)
  then show ?case using 2 by auto
qed simp

lemma inside_branches: "inside n (1 + a + b + d) = insert n (inside (n + 1) a \<union> inside (n + 1 + of_nat a) b \<union> inside (n + 1 + of_nat a + of_nat b) d)"
  by (simp add: inside_plus add.assoc Un_assoc)

lemma located_branches:
  "shaped is \<Longrightarrow> shaped js \<Longrightarrow> located c n (is @ js @ ks) \<longleftrightarrow> located c n is \<and> located c (n + of_nat (length is)) js
     \<and> located c (n + of_nat (length is) + of_nat (length js)) ks"
  by (simp add: located_shaped)

text \<open>
  The code of statements is in the graph, goes on to a label, and has none of some labels in it.
\<close>

definition dest :: "(string, Module) std_map \<Rightarrow> label \<Rightarrow> label \<Rightarrow> Statement \<Rightarrow> Statement list \<Rightarrow> label" where
  "dest M n k t ts = (if ts = [] then k else n + of_nat (code_size M t))"

definition placed :: "(string, Module) std_map \<Rightarrow> Cfg \<Rightarrow> label set \<Rightarrow> label \<Rightarrow> label \<Rightarrow> Statement list \<Rightarrow> bool" where
  "placed M c X n k ts \<longleftrightarrow> ok_branch M ts \<and> (ts = [] \<longrightarrow> n = k) \<and> located c n (gen_branch M n k ts) \<and> X \<inter> inside n (branch_size M ts) = {}"

lemma placed_Nil [simp]: "placed M c X n k [] \<longleftrightarrow> n = k"
  by (simp add: placed_def)

lemma gen_branch_dest: "gen_branch M n k (t # ts) = gen M n (dest M n k t ts) t @ gen_branch M (n + of_nat (code_size M t)) k ts"
  by (cases ts) (simp_all add: dest_def Let_def)

lemma placed_Cons: "placed M c X n k (t # ts) \<longleftrightarrow> ok_statement M t \<and> located c n (gen M n (dest M n k t ts) t)
    \<and> X \<inter> inside n (code_size M t) = {} \<and> placed M c X (dest M n k t ts) k ts"
  unfolding placed_def gen_branch_dest
  by (cases "ts = []") (auto simp: located_shaped inside_plus dest_def)

lemma placed_assignment:
  assumes "placed M c X n k (AssignmentStatement r e # ts)"
  obtains d where "events_at c n = [Execute (assignment r e)]" "steps c n = {(d, INTRAPROCEDURAL)}" "n \<notin> X" "placed M c X d k ts"
proof -
  let ?d = "dest M n k (AssignmentStatement r e) ts"
  have "leaving (assignment r e) [GotoInstruction ?d] = {(?d, INTRAPROCEDURAL)}"
    by (simp add: leaving_def assignment_def split: Expression.splits Constant.splits)
  then show thesis using that [of ?d] assms by (simp add: placed_Cons numeral_2_eq_2)
qed

lemma placed_while:
  assumes "placed M c X n k (WhileStatement e ss # ts)"
  obtains d where "events_at c n = [Execute (WhileInstruction e (n + 1) d)]" "steps c n = {(n + 1, TRUE_BRANCH), (d, FALSE_BRANCH)}" "n \<notin> X"
    "placed M c X (n + 1) n ss" "placed M c X d k ts"
  using assms that [of "dest M n k (WhileStatement e ss) ts"] by (simp add: placed_Cons [of _ _ _ _ _ _ ts] placed_def [of _ _ _ "n + 1"] leaving_def)

lemma leads_weaker:
  "leads M False t \<Longrightarrow> leads M True t" "leads_branch M False ts \<Longrightarrow> leads_branch M True ts" "leads_alts M False alts \<Longrightarrow> leads_alts M True alts"
  by (induction M False t and M False ts and M False alts rule: leads_leads_branch_leads_alts.induct) (auto split: if_splits)

lemma placed_if:
  assumes "placed M c X n k (IfStatement e thens alts elses # ts)"
  obtains d a f where "events_at c n = [Execute (IfInstruction e a f)]" "steps c n = {(a, TRUE_BRANCH), (f, FALSE_BRANCH)}" "n \<notin> X"
    "placed M c X a d thens" "placed M c X d k ts" "alts = [] \<Longrightarrow> placed M c X f d elses"
    "\<And>e' thens' alts'. alts = (e', thens') # alts' \<Longrightarrow> placed M c X f k (IfStatement e' thens' alts' elses # ts)"
proof -
  let ?t = "IfStatement e thens alts elses"
  let ?d = "dest M n k ?t ts"
  note p = assms [unfolded placed_Cons]
  show thesis
  proof (cases "thens = []")
    case True
    then have alts: "alts = []" using p by simp
    have "elses \<noteq> []" "located c (n + 1) (gen_branch M (n + 1) ?d elses)" "X \<inter> inside (n + 1) (branch_size M elses) = {}"
      "events_at c n = [Execute (IfInstruction e ?d (n + 1))]" "steps c n = {(?d, TRUE_BRANCH), (n + 1, FALSE_BRANCH)}" "n \<notin> X" "ok_branch M elses"
      using p True alts by (simp_all add: leaving_def)
    then show thesis using that [of ?d "n + 1" ?d] True alts p by (simp add: placed_def)
  next
    case False
    let ?l = "n + 1 + of_nat (branch_size M thens)"
    let ?f = "if alts = [] \<and> elses = [] then ?d else ?l"
    have code: "located c n [IfInstruction e (n + 1) ?f]" "located c (n + 1) (gen_branch M (n + 1) ?d thens)" "located c ?l (gen_alts M ?l ?d (elses \<noteq> []) alts)"
      "located c (?l + of_nat (alts_size M alts)) (gen_branch M (?l + of_nat (alts_size M alts)) ?d elses)"
      using p False by (simp_all add: Let_def located_branches leaving_def)
    have "code_size M ?t = 1 + branch_size M thens + alts_size M alts + branch_size M elses" using False by simp
    then have x: "n \<notin> X" "X \<inter> inside (n + 1) (branch_size M thens) = {}" "X \<inter> inside ?l (alts_size M alts) = {}"
      "X \<inter> inside (?l + of_nat (alts_size M alts)) (branch_size M elses) = {}"
      using p by (simp_all only: inside_branches Int_insert_right Int_Un_distrib) (auto split: if_splits)
    have ok: "ok_branch M thens" "ok_branch M elses" "placed M c X ?d k ts" using p by simp_all
    have at: "events_at c n = [Execute (IfInstruction e (n + 1) ?f)]" "steps c n = {(n + 1, TRUE_BRANCH), (?f, FALSE_BRANCH)}"
      using code(1) by (simp_all add: leaving_def)
    have elses: "alts = [] \<Longrightarrow> placed M c X ?f ?d elses" using code(4) x(4) ok(2) by (auto simp: placed_def)
    have thens: "placed M c X (n + 1) ?d thens" using code(2) x(2) ok(1) False by (simp add: placed_def)
    show thesis
    proof (rule that [OF at x(1) thens ok(3) elses])
      show "placed M c X ?f k (IfStatement e' thens' alts' elses # ts)" if a: "alts = (e', thens') # alts'" for e' thens' alts'
      proof -
        have okt: "ok_statement M (IfStatement e' thens' alts' elses)" and t: "thens' \<noteq> []" using p a leads_weaker by (auto split: if_splits)
        have f: "?f = ?l" using a by simp
        have d: "dest M ?l k (IfStatement e' thens' alts' elses) ts = ?d"
          using a False t by (simp add: dest_def algebra_simps)
        have "alts_size M alts + branch_size M elses = code_size M (IfStatement e' thens' alts' elses)" using a t by simp
        then have "X \<inter> inside ?l (code_size M (IfStatement e' thens' alts' elses)) = {}"
          using x inside_plus [of ?l "alts_size M alts" "branch_size M elses"] by auto
        moreover have "gen_alts M ?l ?d (elses \<noteq> []) alts @ gen_branch M (?l + of_nat (alts_size M alts)) ?d elses = gen M ?l ?d (IfStatement e' thens' alts' elses)"
          using a t by (simp add: Let_def add.assoc)
        then have "located c ?l (gen M ?l ?d (IfStatement e' thens' alts' elses))"
          using code located_shaped [of "gen_alts M ?l ?d (elses \<noteq> []) alts" c ?l "gen_branch M (?l + of_nat (alts_size M alts)) ?d elses"] by simp
        ultimately show ?thesis unfolding f placed_Cons d using ok okt by blast
      qed
    qed
  qed
qed

lemma placed_case:
  assumes "placed M c X n k (CaseStatement e ((e', thens) # alts) elses # ts)"
  shows "placed M c X n k (IfStatement e' thens alts elses # ts)"
proof -
  let ?c = "CaseStatement e ((e', thens) # alts) elses" and ?i = "IfStatement e' thens alts elses"
  have ok: "ok_statement M ?c" using assms by (simp only: placed_Cons)
  then have t: "thens \<noteq> []" by simp
  have "code_size M ?i = code_size M ?c" using t by simp
  moreover have "gen M n l ?i = gen M n l ?c" for l using t by (simp add: Let_def add.assoc)
  moreover have "ok_statement M ?i" using ok t by (auto split: if_splits)
  moreover have "dest M n k ?i ts = dest M n k ?c ts" using t by (simp add: dest_def)
  ultimately show ?thesis using assms by (simp only: placed_Cons)
qed

lemma placed_invocation:
  assumes "placed M c X n k (InvocationStatement x pre post # ts)"
  obtains a b d i where "located c n (assigns n a (inputs_of x (called M x) pre))" "inputs_of x (called M x) pre = [] \<Longrightarrow> n = a"
    "X \<inter> inside n (2 * length (inputs_of x (called M x) pre)) = {}"
    "events_at c a = [Execute i]" "unlabelled i = CallInstruction x 0 0" "steps c a = {(b, INTRAPROCEDURAL_CALL_TO_RETURN)}" "a \<notin> X"
    "located c b (assigns b d (outputs_of x (called M x) post))" "outputs_of x (called M x) post = [] \<Longrightarrow> b = d"
    "X \<inter> inside b (2 * length (outputs_of x (called M x) post)) = {}" "placed M c X d k ts"
proof -
  let ?t = "InvocationStatement x pre post"
  let ?d = "dest M n k ?t ts" and ?ins = "inputs_of x (called M x) pre" and ?outs = "outputs_of x (called M x) post"
  let ?a = "n + of_nat (2 * length ?ins)"
  let ?b = "if ?outs = [] then ?d else ?a + 1"
  let ?call = "CallInstruction x ?b (mod_entry (called M x))"
  have p: "located c n (gen M n ?d ?t)" "X \<inter> inside n (code_size M ?t) = {}" and d: "placed M c X ?d k ts"
    using assms unfolding placed_Cons by blast+
  have "code_size M ?t = 2 * length ?ins + (1 + 2 * length ?outs)" by simp
  then have "inside n (code_size M ?t) = inside n (2 * length ?ins) \<union> insert ?a (inside (?a + 1) (2 * length ?outs))"
    by (simp only: inside_plus) simp
  then have x: "X \<inter> inside n (2 * length ?ins) = {}" "?a \<notin> X" "X \<inter> inside (?a + 1) (2 * length ?outs) = {}"
    using p(2) by (auto simp del: code_size.simps)
  have "gen M n ?d ?t = assigns n ?a ?ins @ ?call # assigns (?a + 1) ?d ?outs"
    by (simp only: gen.simps gen_invocation_def Let_def)
  then have "located c n (assigns n ?a ?ins) \<and> located c ?a (?call # assigns (?a + 1) ?d ?outs)"
    using p(1) located_shaped [OF shaped_assigns, of c n n ?a ?ins "?call # assigns (?a + 1) ?d ?outs"] by (simp only: length_assigns)
  then have l: "located c n (assigns n ?a ?ins)" "events_at c ?a = [Execute ?call]" "steps c ?a = {(?b, INTRAPROCEDURAL_CALL_TO_RETURN)}"
    "located c (?a + 1) (assigns (?a + 1) ?d ?outs)"
    by (simp_all only: located.simps kinds leaving_def Instruction.case simp_thms)
  have b: "?outs = [] \<Longrightarrow> ?b = ?d" by simp
  have o: "located c ?b (assigns ?b ?d ?outs)" "X \<inter> inside ?b (2 * length ?outs) = {}" using l(4) x(3) by (cases "?outs = []"; simp)+
  show thesis by (rule that [OF l(1) _ x(1) l(2) _ l(3) x(2) o(1) b o(2) d]) simp_all
qed

end
