(* ===== verification/Ahorn_Executions.thy ===== *)
theory Ahorn_Executions
  imports Ahorn_Traces
begin

text \<open>
  The runs of the code of statements show the executions of the statements.
\<close>

section \<open>Runs of code\<close>

definition reach :: "Cfg \<Rightarrow> label \<Rightarrow> event list \<Rightarrow> label \<Rightarrow> bool" where
  "reach c l w l' \<longleftrightarrow> (\<exists>es. path c l es l' \<and> map shown (events c es) = w)"

lemma reach_here [simp]: "reach c l [] l"
  by (auto simp: reach_def intro!: exI [of _ "[]"])

lemma path_append: "path c l (es @ es') l' \<longleftrightarrow> (\<exists>m. path c l es m \<and> path c m es' l')"
  by (induction es arbitrary: l) auto

lemma events_append [simp]: "events c (es @ es') = events c es @ events c es'"
  by (induction es) simp_all

lemma reach_trans: "reach c l v m \<Longrightarrow> reach c m w l' \<Longrightarrow> reach c l (v @ w) l'"
  unfolding reach_def by (metis path_append events_append map_append)

lemma branch_shown [simp]: "map shown (branch_events ty) = branch_events ty"
  by (cases ty) simp_all

lemma reach_step: "(t, ty) \<in> steps c l \<Longrightarrow> reach c t w l' \<Longrightarrow> reach c l (map shown (events_at c l) @ branch_events ty @ w) l'"
proof -
  assume "(t, ty) \<in> steps c l" "reach c t w l'"
  then obtain e es where "e \<in> set (cfg_edges c)" "intra e" "source_label e = l" "target_label e = t" "edge_type e = ty"
    "path c t es l'" "map shown (events c es) = w" by (auto simp: steps_edge reach_def)
  then show ?thesis unfolding reach_def by (intro exI [of _ "e # es"]) simp
qed

lemma unlabelled_assignment [simp]: "unlabelled (assignment r e) = assignment r e"
  by (simp add: assignment_def split: Expression.splits Constant.splits)

lemma assigned_simps [simp]: "assigned [] = []" "assigned ((r, e) # as) = Execute (assignment r e) # assigned as"
  by (simp_all add: assigned_def)

lemma located_assigns_Cons:
  assumes "located c n (assigns n k ((r, e) # as))"
  obtains d where "events_at c n = [Execute (assignment r e)]" "steps c n = {(d, INTRAPROCEDURAL)}" "located c d (assigns d k as)" "as = [] \<Longrightarrow> d = k"
    "as \<noteq> [] \<Longrightarrow> d = n + 2"
proof -
  have l: "leaving (assignment r e) (GotoInstruction d # is) = {(d, INTRAPROCEDURAL)}" for d "is"
    by (simp add: leaving_def assignment_def split: Expression.splits Constant.splits)
  show thesis
  proof (cases as)
    case Nil
    then show thesis using assms that [of k] l by simp
  next
    case (Cons a as')
    then show thesis using assms that [of "n + 2"] l by (cases a) (simp add: algebra_simps)
  qed
qed

lemma assigns_reach: "located c n (assigns n k as) \<Longrightarrow> (as = [] \<Longrightarrow> n = k) \<Longrightarrow> reach c n (assigned as) k"
proof (induction as arbitrary: n)
  case (Cons a as)
  obtain r e where a: "a = (r, e)" by (cases a)
  obtain d where d: "events_at c n = [Execute (assignment r e)]" "steps c n = {(d, INTRAPROCEDURAL)}" "located c d (assigns d k as)" "as = [] \<Longrightarrow> d = k"
    by (rule located_assigns_Cons [OF Cons.prems(1) [unfolded a]]) blast
  show ?case using reach_step [of d INTRAPROCEDURAL c n, OF _ Cons.IH [OF d(3,4)]] d(1,2) a by simp
qed simp

text \<open>
  Whatever the statements do, their code does.
\<close>

lemma exec_reach: "exec M ts w \<Longrightarrow> placed M c X n k ts \<Longrightarrow> reach c n w k"
proof (induction arbitrary: n k rule: exec.induct)
  case (exec_assignment ts w r e)
  obtain d where d: "events_at c n = [Execute (assignment r e)]" "steps c n = {(d, INTRAPROCEDURAL)}" "placed M c X d k ts"
    by (rule placed_assignment [OF exec_assignment.prems])
  show ?case using reach_step [of d INTRAPROCEDURAL c n, OF _ exec_assignment.IH [OF d(3)]] d(1,2) by simp
next
  case (exec_invocation ts w x pre post)
  obtain a b d i where p: "located c n (assigns n a (inputs_of x (called M x) pre))" "inputs_of x (called M x) pre = [] \<Longrightarrow> n = a"
    "events_at c a = [Execute i]" "unlabelled i = CallInstruction x 0 0" "steps c a = {(b, INTRAPROCEDURAL_CALL_TO_RETURN)}"
    "located c b (assigns b d (outputs_of x (called M x) post))" "outputs_of x (called M x) post = [] \<Longrightarrow> b = d" "placed M c X d k ts"
    by (rule placed_invocation [OF exec_invocation.prems]) blast
  have "reach c b (assigned (outputs_of x (called M x) post) @ w) k"
    by (rule reach_trans [OF assigns_reach [OF p(6,7)] exec_invocation.IH [OF p(8)]])
  from reach_step [of b INTRAPROCEDURAL_CALL_TO_RETURN c a, OF _ this] p(3,4,5)
  have "reach c a (Execute (CallInstruction x 0 0) # assigned (outputs_of x (called M x) post) @ w) k" by simp
  from reach_trans [OF assigns_reach [OF p(1,2)] this] show ?case by (simp add: invokes_def)
next
  case (exec_then thens v ts w e alts elses)
  obtain d a f where p: "events_at c n = [Execute (IfInstruction e a f)]" "steps c n = {(a, TRUE_BRANCH), (f, FALSE_BRANCH)}"
    "placed M c X a d thens" "placed M c X d k ts" by (rule placed_if [OF exec_then.prems])
  have "reach c a (v @ w) k" using reach_trans [OF exec_then.IH(1) [OF p(3)] exec_then.IH(2) [OF p(4)]] .
  then show ?case using reach_step [of a TRUE_BRANCH c n "v @ w" k] p(1,2) by (simp add: decides_if_def)
next
  case (exec_else elses v ts w e thens)
  obtain d a f where p: "events_at c n = [Execute (IfInstruction e a f)]" "steps c n = {(a, TRUE_BRANCH), (f, FALSE_BRANCH)}"
    "placed M c X d k ts" "placed M c X f d elses" by (rule placed_if [OF exec_else.prems]) blast
  have "reach c f (v @ w) k" using reach_trans [OF exec_else.IH(1) [OF p(4)] exec_else.IH(2) [OF p(3)]] .
  then show ?case using reach_step [of f FALSE_BRANCH c n "v @ w" k] p(1,2) by (simp add: decides_if_def)
next
  case (exec_alt e' thens' alts elses ts w e thens)
  obtain a f where p: "events_at c n = [Execute (IfInstruction e a f)]" "steps c n = {(a, TRUE_BRANCH), (f, FALSE_BRANCH)}"
    "placed M c X f k (IfStatement e' thens' alts elses # ts)" by (rule placed_if [OF exec_alt.prems]) blast
  show ?case using reach_step [of f FALSE_BRANCH c n, OF _ exec_alt.IH [OF p(3)]] p(1,2) by (simp add: decides_if_def)
next
  case (exec_done ts w e ss)
  obtain d where p: "events_at c n = [Execute (WhileInstruction e (n + 1) d)]" "steps c n = {(n + 1, TRUE_BRANCH), (d, FALSE_BRANCH)}"
    "placed M c X d k ts" by (rule placed_while [OF exec_done.prems])
  show ?case using reach_step [of d FALSE_BRANCH c n, OF _ exec_done.IH [OF p(3)]] p(1,2) by (simp add: decides_while_def)
next
  case (exec_loop ss v e ts w)
  obtain d where p: "events_at c n = [Execute (WhileInstruction e (n + 1) d)]" "steps c n = {(n + 1, TRUE_BRANCH), (d, FALSE_BRANCH)}"
    "placed M c X (n + 1) n ss" by (rule placed_while [OF exec_loop.prems])
  have "reach c (n + 1) (v @ w) k" using reach_trans [OF exec_loop.IH(1) [OF p(3)] exec_loop.IH(2) [OF exec_loop.prems]] .
  then show ?case using reach_step [of "n + 1" TRUE_BRANCH c n "v @ w" k] p(1,2) by (simp add: decides_while_def)
next
  case (exec_case e' thens alts elses ts w e)
  show ?case by (rule exec_case.IH [OF placed_case [OF exec_case.prems]])
qed simp

text \<open>
  A path through code, to a label that is not in it, comes by the place the code goes on to, and up to there
  shows what the statements do.
\<close>

definition parted :: "(event list \<Rightarrow> bool) \<Rightarrow> Cfg \<Rightarrow> label \<Rightarrow> label \<Rightarrow> Edge list \<Rightarrow> label \<Rightarrow> bool" where
  "parted P c n k es x \<longleftrightarrow> (\<exists>es1 es2. es = es1 @ es2 \<and> path c n es1 k \<and> P (map shown (events c es1)) \<and> path c k es2 x)"

lemma parted_here: "path c k es x \<Longrightarrow> P [] \<Longrightarrow> parted P c k k es x"
  unfolding parted_def by (intro exI [of _ "[]"] exI [of _ es]) simp

lemma parted_step:
  assumes "path c n es x" "n \<noteq> x"
  obtains t ty es' where "(t, ty) \<in> steps c n" "path c t es' x" "length es' < length es"
    "\<And>P k. parted (\<lambda>w. P (map shown (events_at c n) @ branch_events ty @ w)) c t k es' x \<Longrightarrow> parted P c n k es x"
proof -
  obtain e es' where es: "es = e # es'" using assms by (cases es) auto
  then have e: "e \<in> set (cfg_edges c)" "intra e" "source_label e = n" "path c (target_label e) es' x" using assms(1) by auto
  have "parted P c n k es x" if "parted (\<lambda>w. P (map shown (events_at c n) @ branch_events (edge_type e) @ w)) c (target_label e) k es' x" for P k
  proof -
    from that obtain es1 es2 where "es' = es1 @ es2" "path c (target_label e) es1 k"
      "P (map shown (events_at c n) @ branch_events (edge_type e) @ map shown (events c es1))" "path c k es2 x" by (auto simp: parted_def)
    then show ?thesis using es e unfolding parted_def by (intro exI [of _ "e # es1"] exI [of _ es2]) simp
  qed
  moreover have "(target_label e, edge_type e) \<in> steps c n" using e by (auto simp: steps_edge)
  ultimately show thesis using that es e(4) by simp
qed

lemma parted_trans:
  assumes "parted Q c n m es x" "\<And>v es'. Q v \<Longrightarrow> length es' \<le> length es \<Longrightarrow> path c m es' x \<Longrightarrow> parted (\<lambda>w. P (v @ w)) c m k es' x"
  shows "parted P c n k es x"
proof -
  from assms(1) obtain es1 es2 where a: "es = es1 @ es2" "path c n es1 m" "Q (map shown (events c es1))" "path c m es2 x" by (auto simp: parted_def)
  have "parted (\<lambda>w. P (map shown (events c es1) @ w)) c m k es2 x" by (rule assms(2) [OF a(3) _ a(4)]) (simp add: a(1))
  then obtain es3 es4 where b: "es2 = es3 @ es4" "path c m es3 k" "P (map shown (events c es1) @ map shown (events c es3))" "path c k es4 x"
    by (auto simp: parted_def)
  show ?thesis unfolding parted_def
  proof (intro exI conjI)
    show "es = (es1 @ es3) @ es4" using a(1) b(1) by simp
    show "path c n (es1 @ es3) k" using a(2) b(2) path_append by blast
    show "P (map shown (events c (es1 @ es3)))" using b(3) by simp
    show "path c k es4 x" by (rule b(4))
  qed
qed

lemma parted_mono: "parted Q c n k es x \<Longrightarrow> (\<And>w. Q w \<Longrightarrow> P w) \<Longrightarrow> parted P c n k es x"
  unfolding parted_def by blast

lemma assigns_parted:
  "located c n (assigns n k as) \<Longrightarrow> (as = [] \<Longrightarrow> n = k) \<Longrightarrow> x \<notin> inside n (2 * length as) \<Longrightarrow> path c n es x
     \<Longrightarrow> parted (\<lambda>w. w = assigned as) c n k es x"
proof (induction as arbitrary: n es)
  case Nil
  then show ?case by (simp add: parted_here)
next
  case (Cons a as)
  obtain r e where a: "a = (r, e)" by (cases a)
  obtain d where d: "events_at c n = [Execute (assignment r e)]" "steps c n = {(d, INTRAPROCEDURAL)}" "located c d (assigns d k as)" "as = [] \<Longrightarrow> d = k" "as \<noteq> [] \<Longrightarrow> d = n + 2"
    by (rule located_assigns_Cons [OF Cons.prems(1) [unfolded a]]) blast
  have x: "n \<noteq> x" "x \<notin> inside d (2 * length as)" using Cons.prems(3) d(5) by (cases as; auto simp: algebra_simps)+
  obtain t ty es' where s: "(t, ty) \<in> steps c n" "path c t es' x" "length es' < length es"
    "\<And>P k. parted (\<lambda>w. P (map shown (events_at c n) @ branch_events ty @ w)) c t k es' x \<Longrightarrow> parted P c n k es x"
    by (rule parted_step [OF Cons.prems(4) x(1)]) blast
  have t: "t = d" "ty = INTRAPROCEDURAL" using s(1) d(2) by auto
  have "parted (\<lambda>w. w = assigned as) c d k es' x" by (rule Cons.IH [OF d(3,4) x(2)]) (use s(2) t in simp_all)
  then show ?case by (intro s(4)) (use t d(1) a in simp)
qed

text \<open>Statements on a path that is split, with the rest of the path shorter.\<close>

definition split_below :: "(string, Module) std_map \<Rightarrow> Cfg \<Rightarrow> label \<Rightarrow> nat \<Rightarrow> bool" where
  "split_below M c x m \<longleftrightarrow> (\<forall>n k ts es. length es < m \<longrightarrow> path c n es x \<longrightarrow> placed M c {x} n k ts \<longrightarrow> parted (exec M ts) c n k es x)"

lemma splits: "split_below M c x m \<Longrightarrow> length es < m \<Longrightarrow> path c n es x \<Longrightarrow> placed M c {x} n k ts \<Longrightarrow> parted (exec M ts) c n k es x"
  unfolding split_below_def by blast

lemma splits_both:
  assumes "split_below M c x m" "length es < m" "path c n es x" "placed M c {x} n d us" "placed M c {x} d k ts"
    and "\<And>v w. exec M us v \<Longrightarrow> exec M ts w \<Longrightarrow> P (v @ w)"
  shows "parted P c n k es x"
proof (rule parted_trans [OF splits [OF assms(1-4)]])
  fix v es' assume "exec M us v" "length es' \<le> length es" "path c d es' x"
  then show "parted (\<lambda>w. P (v @ w)) c d k es' x"
    using parted_mono [OF splits [OF assms(1) _ _ assms(5), of es'], of "\<lambda>w. P (v @ w)"] assms(2,6) by simp
qed

lemma parted_if:
  assumes b: "split_below M c x (length es)" and p: "path c n es x" and pl: "placed M c {x} n k (IfStatement e thens alts elses # ts)"
  shows "parted (exec M (IfStatement e thens alts elses # ts)) c n k es x"
proof -
  obtain d a f where i: "events_at c n = [Execute (IfInstruction e a f)]" "steps c n = {(a, TRUE_BRANCH), (f, FALSE_BRANCH)}" "n \<notin> {x}"
    "placed M c {x} a d thens" "placed M c {x} d k ts" "alts = [] \<Longrightarrow> placed M c {x} f d elses"
    "\<And>e' thens' alts'. alts = (e', thens') # alts' \<Longrightarrow> placed M c {x} f k (IfStatement e' thens' alts' elses # ts)"
    by (rule placed_if [OF pl]) blast
  have "n \<noteq> x" using i(3) by simp
  from parted_step [OF p this] obtain t ty es' where s: "(t, ty) \<in> steps c n" "path c t es' x" "length es' < length es"
    "\<And>P k. parted (\<lambda>w. P (map shown (events_at c n) @ branch_events ty @ w)) c t k es' x \<Longrightarrow> parted P c n k es x" by blast
  have ev: "map shown (events_at c n) @ [Branch True] @ w = decides_if e True @ w" "map shown (events_at c n) @ [Branch False] @ w = decides_if e False @ w" for w
    using i(1) by (simp_all add: decides_if_def)
  consider "t = a" "ty = TRUE_BRANCH" | "t = f" "ty = FALSE_BRANCH" using s(1) i(2) by auto
  then show ?thesis
  proof cases
    case 1
    have "parted (\<lambda>w. exec M (IfStatement e thens alts elses # ts) (decides_if e True @ w)) c a k es' x"
      by (rule splits_both [OF b s(3) _ i(4,5)]) (use s(2) 1 in \<open>auto intro: exec_then\<close>)
    then show ?thesis by (intro s(4)) (simp only: 1 ev branch_events.simps)
  next
    case 2
    show ?thesis
    proof (cases alts)
      case Nil
      have "parted (\<lambda>w. exec M (IfStatement e thens [] elses # ts) (decides_if e False @ w)) c f k es' x"
        by (rule splits_both [OF b s(3) _ i(6) [OF Nil] i(5)]) (use s(2) 2 in \<open>auto intro: exec_else\<close>)
      then show ?thesis unfolding Nil by (intro s(4)) (simp only: 2 ev branch_events.simps)
    next
      case (Cons alt alts')
      obtain e' thens' where a: "alts = (e', thens') # alts'" using Cons by (cases alt) simp
      have "path c f es' x" using s(2) 2 by simp
      from parted_mono [OF splits [OF b s(3) this i(7) [OF a]], of "\<lambda>w. exec M (IfStatement e thens alts elses # ts) (decides_if e False @ w)"]
      have "parted (\<lambda>w. exec M (IfStatement e thens alts elses # ts) (decides_if e False @ w)) c f k es' x"
        unfolding a by (auto intro: exec_alt)
      then show ?thesis by (intro s(4)) (simp only: 2 ev branch_events.simps)
    qed
  qed
qed

lemma parted_while:
  assumes b: "split_below M c x (length es)" and p: "path c n es x" and pl: "placed M c {x} n k (WhileStatement e ss # ts)"
  shows "parted (exec M (WhileStatement e ss # ts)) c n k es x"
proof -
  obtain d where i: "events_at c n = [Execute (WhileInstruction e (n + 1) d)]" "steps c n = {(n + 1, TRUE_BRANCH), (d, FALSE_BRANCH)}" "n \<notin> {x}"
    "placed M c {x} (n + 1) n ss" "placed M c {x} d k ts" by (rule placed_while [OF pl])
  have "n \<noteq> x" using i(3) by simp
  from parted_step [OF p this] obtain t ty es' where s: "(t, ty) \<in> steps c n" "path c t es' x" "length es' < length es"
    "\<And>P k. parted (\<lambda>w. P (map shown (events_at c n) @ branch_events ty @ w)) c t k es' x \<Longrightarrow> parted P c n k es x" by blast
  have ev: "map shown (events_at c n) @ [Branch True] @ w = decides_while e True @ w" "map shown (events_at c n) @ [Branch False] @ w = decides_while e False @ w" for w
    using i(1) by (simp_all add: decides_while_def)
  consider "t = n + 1" "ty = TRUE_BRANCH" | "t = d" "ty = FALSE_BRANCH" using s(1) i(2) by auto
  then show ?thesis
  proof cases
    case 1
    have "parted (\<lambda>w. exec M (WhileStatement e ss # ts) (decides_while e True @ w)) c (n + 1) k es' x"
      by (rule splits_both [OF b s(3) _ i(4) pl]) (use s(2) 1 in \<open>auto intro: exec_loop\<close>)
    then show ?thesis by (intro s(4)) (simp only: 1 ev branch_events.simps)
  next
    case 2
    have "path c d es' x" using s(2) 2 by simp
    from parted_mono [OF splits [OF b s(3) this i(5)], of "\<lambda>w. exec M (WhileStatement e ss # ts) (decides_while e False @ w)"]
    have "parted (\<lambda>w. exec M (WhileStatement e ss # ts) (decides_while e False @ w)) c d k es' x" by (auto intro: exec_done)
    then show ?thesis by (intro s(4)) (simp only: 2 ev branch_events.simps)
  qed
qed

lemma parted_invocation:
  assumes b: "split_below M c y (length es)" and p: "path c n es y" and pl: "placed M c {y} n k (InvocationStatement x pre post # ts)"
  shows "parted (exec M (InvocationStatement x pre post # ts)) c n k es y"
proof -
  let ?ins = "inputs_of x (called M x) pre" and ?outs = "outputs_of x (called M x) post"
  obtain a r d i where q: "located c n (assigns n a ?ins)" "?ins = [] \<Longrightarrow> n = a" "{y} \<inter> inside n (2 * length ?ins) = {}"
    "events_at c a = [Execute i]" "unlabelled i = CallInstruction x 0 0" "steps c a = {(r, INTRAPROCEDURAL_CALL_TO_RETURN)}" "a \<notin> {y}"
    "located c r (assigns r d ?outs)" "?outs = [] \<Longrightarrow> r = d" "{y} \<inter> inside r (2 * length ?outs) = {}" "placed M c {y} d k ts"
    by (rule placed_invocation [OF pl]) blast
  have "parted (\<lambda>w. w = assigned ?ins) c n a es y" by (rule assigns_parted [OF q(1,2) _ p]) (use q(3) in auto)
  then show ?thesis
  proof (rule parted_trans)
    fix v es1 assume v: "v = assigned ?ins" "length es1 \<le> length es" "path c a es1 y"
    have "a \<noteq> y" using q(7) by simp
    from parted_step [OF v(3) this] obtain t ty es2 where s: "(t, ty) \<in> steps c a" "path c t es2 y" "length es2 < length es1"
      "\<And>P k. parted (\<lambda>w. P (map shown (events_at c a) @ branch_events ty @ w)) c t k es2 y \<Longrightarrow> parted P c a k es1 y" by blast
    have t: "t = r" "ty = INTRAPROCEDURAL_CALL_TO_RETURN" using s(1) q(6) by auto
    have o: "parted (\<lambda>w. w = assigned ?outs) c r d es2 y" by (rule assigns_parted [OF q(8,9)]) (use q(10) s(2) t in auto)
    have "parted (\<lambda>w. exec M (InvocationStatement x pre post # ts) (v @ [Execute (CallInstruction x 0 0)] @ w)) c r k es2 y"
    proof (rule parted_trans [OF o])
      fix u es3 assume u: "u = assigned ?outs" "length es3 \<le> length es2" "path c d es3 y"
      have "length es3 < length es" using u(2) s(3) v(2) by simp
      from parted_mono [OF splits [OF b this u(3) q(11)], of "\<lambda>w. exec M (InvocationStatement x pre post # ts) (v @ [Execute (CallInstruction x 0 0)] @ u @ w)"]
      show "parted (\<lambda>w. exec M (InvocationStatement x pre post # ts) (v @ [Execute (CallInstruction x 0 0)] @ u @ w)) c d k es3 y"
        using exec_invocation [of M ts _ x pre post] u(1) v(1) by (simp add: invokes_def)
    qed
    then show "parted (\<lambda>w. exec M (InvocationStatement x pre post # ts) (v @ w)) c a k es1 y"
      by (intro s(4)) (use t q(4,5) in simp)
  qed
qed

lemma parted_assignment:
  assumes b: "split_below M c x (length es)" and p: "path c n es x" and pl: "placed M c {x} n k (AssignmentStatement r e # ts)"
  shows "parted (exec M (AssignmentStatement r e # ts)) c n k es x"
proof -
  obtain d where i: "events_at c n = [Execute (assignment r e)]" "steps c n = {(d, INTRAPROCEDURAL)}" "n \<notin> {x}" "placed M c {x} d k ts"
    by (rule placed_assignment [OF pl])
  have "n \<noteq> x" using i(3) by simp
  from parted_step [OF p this] obtain t ty es' where s: "(t, ty) \<in> steps c n" "path c t es' x" "length es' < length es"
    "\<And>P k. parted (\<lambda>w. P (map shown (events_at c n) @ branch_events ty @ w)) c t k es' x \<Longrightarrow> parted P c n k es x" by blast
  have t: "t = d" "ty = INTRAPROCEDURAL" using s(1) i(2) by auto
  have "path c d es' x" using s(2) t by simp
  from parted_mono [OF splits [OF b s(3) this i(4)], of "\<lambda>w. exec M (AssignmentStatement r e # ts) (Execute (assignment r e) # w)"]
  have "parted (\<lambda>w. exec M (AssignmentStatement r e # ts) (Execute (assignment r e) # w)) c d k es' x" by (auto intro: exec_assignment)
  then show ?thesis by (intro s(4)) (simp add: t i(1))
qed

lemma path_parted: "path c n es x \<Longrightarrow> placed M c {x} n k ts \<Longrightarrow> parted (exec M ts) c n k es x"
proof (induction "length es" arbitrary: n k ts es rule: less_induct)
  case less
  have b: "split_below M c x (length es)" unfolding split_below_def using less.hyps by blast
  show ?case
  proof (cases ts)
    case Nil
    then show ?thesis using less.prems parted_here [of c k es x "exec M []"] by (simp add: exec_end)
  next
    case (Cons t ts')
    note p = less.prems(1) and pl = less.prems(2) [unfolded Cons]
    have ok: "ok_statement M t" using pl by (simp add: placed_Cons)
    show ?thesis
    proof (cases t)
      case (CaseStatement e alts elses)
      then obtain e' thens alts' where a: "alts = (e', thens) # alts'" using ok by (cases alts) auto
      from parted_mono [OF parted_if [OF b p placed_case [OF pl [unfolded CaseStatement a]]] exec_case]
      show ?thesis unfolding Cons CaseStatement a .
    qed (use ok parted_assignment [OF b p] parted_if [OF b p] parted_while [OF b p] parted_invocation [OF b p] pl Cons in simp_all)
  qed
qed

text \<open>
  The runs of the code of statements show the executions of the statements.
\<close>

lemma placed_runs:
  assumes "placed M c {k} n k ts" "steps c k = {}"
  shows "reach c n w k \<longleftrightarrow> exec M ts w"
proof
  assume "reach c n w k"
  then obtain es where es: "path c n es k" "map shown (events c es) = w" by (auto simp: reach_def)
  from path_parted [OF es(1) assms(1)] obtain es1 es2 where s: "es = es1 @ es2" "exec M ts (map shown (events c es1))" "path c k es2 k"
    by (auto simp: parted_def)
  have "es2 = []" using s(3) assms(2) by (cases es2) (auto simp: steps_def)
  then show "exec M ts w" using s es(2) by simp
next
  assume "exec M ts w"
  then show "reach c n w k" by (rule exec_reach [OF _ assms(1)])
qed

end
