(* ===== verification/Ahorn_Units.thy ===== *)
theory Ahorn_Units
  imports Ahorn_Executions
begin

text \<open>
  Code in the graph of a module, and the modules of well-formed units.
\<close>

section \<open>Code in the graph of its module\<close>

lemma instruction_located:
  assumes r: "ready_module cfgs m" and g: "graph_of m cfgs c" and i: "(n, i) \<in> set (mod_instructions m)" "\<not> is_goto i"
    and j: "simple i \<Longrightarrow> \<exists>j is'. is = j # is' \<and> is_goto j \<and> (n + 1, j) \<in> set (mod_instructions m)"
  shows "events_at c n = [Execute i] \<and> steps c n = leaving i is"
proof
  have "plain_graph c" using graph_ready [OF r g] by (simp add: ready_graph_def)
  moreover have "regular_instruction c n = Inr i" using graph_instruction [OF r g] i by simp
  ultimately show "events_at c n = [Execute i]" by (rule regular_events(1))
  show "steps c n = leaving i is"
  proof (cases "simple i")
    case True
    obtain j is' where j: "is = j # is'" "is_goto j" "(n + 1, j) \<in> set (mod_instructions m)" using assms(5) [OF True] by blast
    then obtain t where t: "j = GotoInstruction t" by (cases j) (simp_all add: is_goto_def)
    then have "map_of (mod_instructions m) (n + 1) = Some (GotoInstruction t)" using j(3) ready_module_keys(2) [OF r] by simp
    then have "steps c n = {(t, INTRAPROCEDURAL)}" using graph_out [OF r g i] True by (simp add: steps_out simple_def intra_def)
    then show ?thesis using True j(1) t by (cases i) (simp_all add: leaving_def simple_def is_assignment_def is_havoc_def)
  next
    case False
    then have out: "getOutgoingEdges c n = out_of n (edges_of (mod_name m) cfgs (n, i))" using graph_out [OF r g i] by (simp add: simple_def)
    show ?thesis
    proof (cases i)
      case (CallInstruction x here callee)
      then show ?thesis using graph_call(1) [OF r g, of n x here callee] i by (simp add: steps_out leaving_def intra_def)
    qed (use out False i ready_module_at(1) [OF r i(1)] in \<open>simp_all add: steps_out leaving_def out_of_def intra_def simple_def is_assignment_def is_havoc_def is_goto_def is_sequence_def\<close>)
  qed
qed

lemma graph_located:
  assumes r: "ready_module cfgs m" and g: "graph_of m cfgs c"
  shows "set (number n is) \<subseteq> set (mod_instructions m) \<Longrightarrow> paired is \<Longrightarrow> located c n is"
proof (induction "is" arbitrary: n rule: paired.induct)
  case (2 i)
  then show ?case using instruction_located [OF r g, of n i "[]"] by simp
next
  case (3 i j "is")
  have i: "(n, i) \<in> set (mod_instructions m)" "(n + 1, j) \<in> set (mod_instructions m)" using 3(3) by simp_all
  note at = instruction_located [OF r g i(1), of "j # is"]
  show ?case
  proof (cases "simple i")
    case True
    then have "is_goto j" "located c (n + 1 + 1) is" using 3 by simp_all
    moreover have "events_at c n = [Execute i] \<and> steps c n = leaving i (j # is)"
      by (rule at) (use True goto_not_simple i(2) 3(4) in auto)
    ultimately show ?thesis by simp
  next
    case False
    have "located c (n + 1) (j # is)" "\<not> is_goto i" using 3(2) [OF False, of "n + 1"] 3(3,4) False by simp_all
    moreover have "events_at c n = [Execute i] \<and> steps c n = leaving i (j # is)"
      by (rule at) (use False calculation(2) in auto)
    ultimately show ?thesis by simp
  qed
qed simp

section \<open>Closed code\<close>

text \<open>Where instructions are that are no jumps.\<close>

fun heads :: "label \<Rightarrow> Instruction list \<Rightarrow> label set" where
  "heads n [] = {}"
| "heads n (i # is) = (if is_goto i then heads (n + 1) is else insert n (heads (n + 1) is))"

lemma heads_append: "heads n (is @ js) = heads n is \<union> heads (n + of_nat (length is)) js"
  by (induction "is" arbitrary: n) (auto simp: algebra_simps)

lemma heads_number: "fst ` {p \<in> set (number n is). \<not> is_goto (snd p)} = heads n is"
proof (induction "is" arbitrary: n)
  case (Cons i "is")
  have "{p \<in> set (number n (i # is)). \<not> is_goto (snd p)}
    = (if is_goto i then {} else {(n, i)}) \<union> {p \<in> set (number (n + 1) is). \<not> is_goto (snd p)}" by auto
  then show ?case using Cons.IH [of "n + 1"] by (simp add: image_Un)
qed simp

text \<open>Code starts with no jump, and leads to its own instructions and some other labels only.\<close>

definition sealed :: "label set \<Rightarrow> label \<Rightarrow> Instruction list \<Rightarrow> bool" where
  "sealed K n is \<longleftrightarrow> (is \<noteq> [] \<longrightarrow> \<not> is_goto (hd is)) \<and> (\<forall>i \<in> set is. targets i \<subseteq> K \<union> heads n is)"

lemma sealed_head: "sealed K n is \<Longrightarrow> is \<noteq> [] \<Longrightarrow> n \<in> heads n is"
  by (cases "is") (simp_all add: sealed_def)

lemma sealed_Nil [simp]: "sealed K n []"
  by (simp add: sealed_def)

lemma sealed_append: "sealed K n is \<Longrightarrow> sealed K' (n + of_nat (length is)) js \<Longrightarrow> K \<subseteq> K' \<union> heads (n + of_nat (length is)) js \<Longrightarrow> sealed K' n (is @ js)"
proof (cases "is")
  case (Cons i is')
  assume s: "sealed K n is" "sealed K' (n + of_nat (length is)) js" "K \<subseteq> K' \<union> heads (n + of_nat (length is)) js"
  have "\<not> is_goto (hd (is @ js))" using s(1) Cons by (simp add: sealed_def)
  moreover have "targets j \<subseteq> K' \<union> heads n (is @ js)" if "j \<in> set (is @ js)" for j
    using that s unfolding sealed_def heads_append by auto
  ultimately show "sealed K' n (is @ js)" unfolding sealed_def by blast
qed simp

lemma sealed_Cons: "\<not> is_goto i \<Longrightarrow> sealed K (n + 1) is \<Longrightarrow> K \<subseteq> insert n (K' \<union> heads (n + 1) is) \<Longrightarrow> targets i \<subseteq> insert n (K' \<union> heads (n + 1) is) \<Longrightarrow> sealed K' n (i # is)"
  by (auto simp: sealed_def; blast)

lemma assigns_empty [simp]: "assigns n k as = [] \<longleftrightarrow> as = []"
  by (induction n k as rule: assigns.induct) simp_all

lemma sealed_assigns: "sealed {k} n (assigns n k as)"
proof (induction n k as rule: assigns.induct)
  case (2 n k r e)
  then show ?case by (simp add: sealed_def)
next
  case (3 n k r e a as)
  have "assigns (n + 2) k (a # as) \<noteq> []" by (cases a; cases as) simp_all
  from sealed_head [OF 3 this] have h: "n + 2 \<in> heads (n + 2) (assigns (n + 2) k (a # as))" .
  have "sealed {n + 2} n [assignment r e, GotoInstruction (n + 2)]" by (simp add: sealed_def)
  from sealed_append [OF this, of "{k}" "assigns (n + 2) k (a # as)"] 3 h show ?case by simp
qed simp

lemma gen_size_pos: "ok_statement M t \<Longrightarrow> 0 < code_size M t"
proof (cases t)
  case (CaseStatement e alts elses)
  then show "ok_statement M t \<Longrightarrow> ?thesis" by (cases alts) auto
qed auto

lemma branch_size_pos: "ok_branch M ts \<Longrightarrow> ts \<noteq> [] \<Longrightarrow> 0 < branch_size M ts"
  using gen_size_pos by (cases ts) auto

lemma gen_nonempty: "ok_statement M t \<Longrightarrow> gen M n k t \<noteq> []" "ok_branch M ts \<Longrightarrow> ts \<noteq> [] \<Longrightarrow> gen_branch M n k ts \<noteq> []"
  "alts \<noteq> [] \<Longrightarrow> gen_alts M n k b alts \<noteq> []"
  using gen_size_pos [of M t] branch_size_pos [of M ts] gen_lengths(1) [of M n k t] gen_lengths(2) [of M n k ts]
  by (auto simp del: gen_lengths) (cases alts; auto simp: Let_def)

lemma sealed_alts:
  assumes "sealed (if elses \<noteq> [] then {k, l + of_nat (alts_size M alts)} else {k}) l (gen_alts M l k (elses \<noteq> []) alts)"
    "sealed {k} (l + of_nat (alts_size M alts)) (gen_branch M (l + of_nat (alts_size M alts)) k elses)" "ok_branch M elses"
  shows "sealed {k} l (gen_alts M l k (elses \<noteq> []) alts @ gen_branch M (l + of_nat (alts_size M alts)) k elses)"
proof (rule sealed_append [OF assms(1)])
  let ?l = "l + of_nat (alts_size M alts)"
  have "?l \<in> heads ?l (gen_branch M ?l k elses)" if "elses \<noteq> []" using sealed_head [OF assms(2) gen_nonempty(2) [OF assms(3) that]] .
  then show "(if elses \<noteq> [] then {k, ?l} else {k}) \<subseteq> {k} \<union> heads (l + of_nat (length (gen_alts M l k (elses \<noteq> []) alts))) (gen_branch M ?l k elses)"
    by simp
qed (use assms(2) in simp)

lemma sealed_gen:
  "ok_statement M t \<Longrightarrow> sealed {k} n (gen M n k t)"
  "ok_branch M ts \<Longrightarrow> sealed {k} n (gen_branch M n k ts)"
  "ok_alts M alts \<Longrightarrow> sealed (if b then {k, n + of_nat (alts_size M alts)} else {k}) n (gen_alts M n k b alts)"
proof (induction M n k t and M n k ts and M n k b alts rule: gen_gen_branch_gen_alts.induct)
  case (3 M n k r e)
  then show ?case by (simp add: sealed_def)
next
  case (4 M n k e thens alts elses)
  show ?case
  proof (cases "thens = []")
    case True
    then have "sealed {k} (n + 1) (gen_branch M (n + 1) k elses)" "n + 1 \<in> heads (n + 1) (gen_branch M (n + 1) k elses)"
      using 4 gen_nonempty(2) sealed_head by auto
    then show ?thesis using True by (auto intro: sealed_Cons)
  next
    case False
    let ?l = "n + 1 + of_nat (branch_size M thens)"
    let ?A = "gen_branch M (n + 1) k thens" and ?B = "gen_alts M ?l k (elses \<noteq> []) alts" and ?C = "gen_branch M (?l + of_nat (alts_size M alts)) k elses"
    have A: "sealed {k} (n + 1) ?A" "?A \<noteq> []" using 4 False gen_nonempty(2) by (simp_all add: Let_def)
    have "sealed {k} ?l (?B @ ?C)"
      by (rule sealed_alts) (use 4 False in \<open>simp_all add: Let_def\<close>)
    note BC = this
    have AB: "sealed {k} (n + 1) (?A @ ?B @ ?C)" using sealed_append [OF A(1), of "{k}" "?B @ ?C"] BC by simp
    have "n + 1 \<in> heads (n + 1) (?A @ ?B @ ?C)" using sealed_head [OF AB] A(2) by simp
    moreover have "?l \<in> heads (n + 1) (?A @ ?B @ ?C)" if "alts \<noteq> [] \<or> elses \<noteq> []"
    proof -
      have "?B @ ?C \<noteq> []" using that gen_nonempty(3) gen_nonempty(2) 4(5) by auto
      from sealed_head [OF BC this] show ?thesis unfolding heads_append [of "n + 1" ?A] by simp
    qed
    ultimately show ?thesis using AB False by (auto simp: Let_def intro!: sealed_Cons)
  qed
next
  case (5 M n k x pre post)
  let ?ins = "inputs_of x (called M x) pre" and ?outs = "outputs_of x (called M x) post"
  let ?a = "n + of_nat (2 * length ?ins)"
  let ?b = "if ?outs = [] then k else ?a + 1"
  have "?b \<in> insert k (heads (?a + 1) (assigns (?a + 1) k ?outs))"
  proof (cases "?outs = []")
    case False
    then have "assigns (?a + 1) k ?outs \<noteq> []" by simp
    from sealed_head [OF sealed_assigns this] show ?thesis using False by simp
  qed simp
  then have "sealed {k} ?a (CallInstruction x ?b (mod_entry (called M x)) # assigns (?a + 1) k ?outs)"
    by (intro sealed_Cons [OF _ sealed_assigns]) auto
  then show ?case unfolding gen.simps gen_invocation_def Let_def
    by (intro sealed_append [OF sealed_assigns]) simp_all
next
  case (6 M n k e ts)
  then have "sealed {n} (n + 1) (gen_branch M (n + 1) n ts)" "n + 1 \<in> heads (n + 1) (gen_branch M (n + 1) n ts)"
    using gen_nonempty(2) sealed_head by auto
  then show ?case by (auto intro: sealed_Cons)
next
  case (7 M n k e alts elses)
  show ?case unfolding gen.simps by (rule sealed_alts) (use 7 in simp_all)
next
  case (10 M n k t v va)
  let ?l = "n + of_nat (code_size M t)"
  have "?l \<in> heads ?l (gen_branch M ?l k (v # va))" using 10 gen_nonempty(2) sealed_head by auto
  then show ?case using sealed_append [of "{?l}" n "gen M n ?l t" "{k}" "gen_branch M ?l k (v # va)"] 10 by (simp add: Let_def)
next
  case (12 M n k b e ts alts)
  let ?l = "n + 1 + of_nat (branch_size M ts)"
  let ?K = "if b then {k, n + of_nat (alts_size M ((e, ts) # alts))} else {k}"
  let ?A = "gen_branch M (n + 1) k ts" and ?B = "gen_alts M ?l k b alts"
  have A: "sealed {k} (n + 1) ?A" "?A \<noteq> []" using 12 gen_nonempty(2) by (simp_all add: Let_def)
  have K: "?K = (if b then {k, ?l + of_nat (alts_size M alts)} else {k})" by (simp add: algebra_simps)
  have B: "sealed ?K ?l ?B" unfolding K using 12 by (simp add: Let_def)
  then have AB: "sealed ?K (n + 1) (?A @ ?B)" by (intro sealed_append [OF A(1)]) auto
  have "n + 1 \<in> heads (n + 1) (?A @ ?B)" using sealed_head [OF AB] A(2) by simp
  moreover have "?l \<in> heads (n + 1) (?A @ ?B)" if "alts \<noteq> []"
    using sealed_head [OF B gen_nonempty(3) [OF that]] unfolding heads_append by simp
  moreover have "alts = [] \<Longrightarrow> b \<Longrightarrow> ?l \<in> ?K" unfolding K by simp
  ultimately show ?case using AB by (auto simp: Let_def intro!: sealed_Cons simp del: alts_size.simps)
qed auto

section \<open>Interfaces\<close>

text \<open>
  Of the modules compiled, a statement needs the interfaces of those it calls.
\<close>

fun invoked :: "Statement \<Rightarrow> Variable set"
  and invoked_branch :: "Statement list \<Rightarrow> Variable set"
  and invoked_alts :: "(Expression \<times> Statement list) list \<Rightarrow> Variable set" where
  "invoked (IfStatement e thens alts elses) = invoked_branch thens \<union> invoked_alts alts \<union> invoked_branch elses"
| "invoked (InvocationStatement x pre post) = {x}"
| "invoked (WhileStatement e ts) = invoked_branch ts"
| "invoked (CaseStatement e alts elses) = invoked_alts alts \<union> invoked_branch elses"
| "invoked t = {}"
| "invoked_branch [] = {}"
| "invoked_branch (t # ts) = invoked t \<union> invoked_branch ts"
| "invoked_alts [] = {}"
| "invoked_alts ((e, ts) # alts) = invoked_branch ts \<union> invoked_alts alts"

definition agree :: "(string, Module) std_map \<Rightarrow> (string, Module) std_map \<Rightarrow> Variable set \<Rightarrow> bool" where
  "agree M M' X \<longleftrightarrow> (\<forall>x \<in> X. \<exists>m m'. module_of_type M (v_type x) = Inr m \<and> module_of_type M' (v_type x) = Inr m' \<and> mod_interface m = mod_interface m')"

lemma agree_Un [simp]: "agree M M' (X \<union> Y) \<longleftrightarrow> agree M M' X \<and> agree M M' Y"
  by (auto simp: agree_def)

lemma agree_sym: "agree M M' X \<Longrightarrow> agree M' M X"
  unfolding agree_def by metis

lemma agree_called:
  assumes "agree M M' {x}"
  shows "inputs_of x (called M x) = inputs_of x (called M' x)" "outputs_of x (called M x) = outputs_of x (called M' x)"
    "ok_invocation M x = ok_invocation M' x"
proof -
  from assms obtain m m' where m: "module_of_type M (v_type x) = Inr m" "module_of_type M' (v_type x) = Inr m'" "mod_interface m = mod_interface m'"
    by (auto simp: agree_def)
  then have i: "identity x m = identity x m'" "variable_names st m = variable_names st m'" for st by (auto simp: identity_def variable_names_def)
  then show "inputs_of x (called M x) = inputs_of x (called M' x)" "outputs_of x (called M x) = outputs_of x (called M' x)"
    using m by (auto simp: called_def inputs_of_def outputs_of_def)
  have "ok_input m = ok_input m'" "ok_output x m = ok_output x m'"
    unfolding ok_input_def [abs_def] ok_output_def [abs_def] i(2) by (rule refl)+
  then show "ok_invocation M x = ok_invocation M' x"
    using m i(2) [of OUTPUT] by (intro ext) (simp add: ok_invocation_def)
qed

lemma agree_leads:
  "agree M M' (invoked t) \<Longrightarrow> leads M c t = leads M' c t"
  "agree M M' (invoked_branch ts) \<Longrightarrow> leads_branch M c ts = leads_branch M' c ts"
  "agree M M' (invoked_alts alts) \<Longrightarrow> leads_alts M c alts = leads_alts M' c alts"
  by (induction M c t and M c ts and M c alts rule: leads_leads_branch_leads_alts.induct) (auto simp: agree_called)

lemma agree_size:
  "agree M M' (invoked t) \<Longrightarrow> code_size M t = code_size M' t"
  "agree M M' (invoked_branch ts) \<Longrightarrow> branch_size M ts = branch_size M' ts"
  "agree M M' (invoked_alts alts) \<Longrightarrow> alts_size M alts = alts_size M' alts"
  by (induction M t and M ts and M alts rule: code_size_branch_size_alts_size.induct) (auto simp: agree_called)

lemma agree_ok:
  "agree M M' (invoked t) \<Longrightarrow> ok_statement M t = ok_statement M' t"
  "agree M M' (invoked_branch ts) \<Longrightarrow> ok_branch M ts = ok_branch M' ts"
  "agree M M' (invoked_alts alts) \<Longrightarrow> ok_alts M alts = ok_alts M' alts"
  by (induction M t and M ts and M alts rule: ok_statement_ok_branch_ok_alts.induct) (auto simp: agree_called agree_leads)

lemma agree_exec: "exec M ts w \<Longrightarrow> agree M M' (invoked_branch ts) \<Longrightarrow> exec M' ts w"
proof (induction rule: exec.induct)
  case (exec_invocation ts w x pre post)
  have "invokes (called M x) x pre post = invokes (called M' x) x pre post"
    using agree_called [of M M' x] exec_invocation.prems by (simp add: invokes_def agree_def)
  moreover have "agree M M' (invoked_branch ts)" using exec_invocation.prems by (simp add: agree_def)
  ultimately show ?case using exec.exec_invocation exec_invocation by simp
qed (auto intro: exec.intros)

lemma gen_calls:
  "CallInstruction x here callee \<in> set (gen M n k t) \<Longrightarrow> x \<in> invoked t"
  "CallInstruction x here callee \<in> set (gen_branch M n k ts) \<Longrightarrow> x \<in> invoked_branch ts"
  "CallInstruction x here callee \<in> set (gen_alts M n k b alts) \<Longrightarrow> x \<in> invoked_alts alts"
proof (induction M n k t and M n k ts and M n k b alts rule: gen_gen_branch_gen_alts.induct)
  case (3 M n k r e)
  then show ?case by (auto simp: assignment_def split: Expression.splits Constant.splits)
next
  case (5 M n k y pre post)
  have "CallInstruction x here callee \<notin> set (assigns n k as)" for n k as
    by (induction n k as rule: assigns.induct) (auto simp: assignment_def split: Expression.splits Constant.splits)
  then show ?case using 5 by (auto simp: gen_invocation_def Let_def)
qed (auto simp: Let_def split: if_splits)

section \<open>Well-formed units\<close>

definition interfaces :: "Pous \<Rightarrow> (string, Module) std_map" where
  "interfaces ps = map (\<lambda>q. (fst q, \<lparr>mod_name = fst q, mod_kind = pou_kind (snd q), mod_interface = pou_interface (snd q),
     mod_instructions = [], mod_entry = 0, mod_exit = 0\<rparr>)) ps"

definition pou_size :: "Pous \<Rightarrow> Pou \<Rightarrow> nat" where
  "pou_size ps u = branch_size (interfaces ps) (pou_body u) + 2"

definition wf_pou :: "Pous \<Rightarrow> (string \<Rightarrow> nat) \<Rightarrow> Pou \<Rightarrow> bool" where
  "wf_pou ps rank u \<longleftrightarrow> sorted_map (pou_interface u)
     \<and> (\<forall>q \<in> set (pou_interface u). v_name (snd q) = fst q \<and> plain (fst q)
          \<and> (case v_type (snd q) of Derived t \<Rightarrow> t \<in> fst ` set ps \<and> rank t < rank (pou_name u) | _ \<Rightarrow> True))
     \<and> (\<forall>x \<in> invoked_branch (pou_body u). case v_type x of Derived t \<Rightarrow> Derived t \<in> v_type ` snd ` set (pou_interface u) | _ \<Rightarrow> False)
     \<and> ok_branch (interfaces ps) (pou_body u)"

definition wf_pous :: "(string \<Rightarrow> nat) \<Rightarrow> Pous \<Rightarrow> bool" where
  "wf_pous rank ps \<longleftrightarrow> sorted_map ps \<and> (\<forall>q \<in> set ps. pou_name (snd q) = fst q \<and> rank (fst q) \<le> length ps \<and> wf_pou ps rank (snd q))
     \<and> sum_list (map (\<lambda>q. pou_size ps (snd q)) ps) < 2 ^ 31"

section \<open>Modules of units\<close>

definition unit_module :: "(string, Module) std_map \<Rightarrow> Pou \<Rightarrow> label \<Rightarrow> Module" where
  "unit_module M u n = (let ex = n + 1 + of_nat (branch_size M (pou_body u)) in
     \<lparr>mod_name = pou_name u, mod_kind = pou_kind u, mod_interface = make_interface (map snd (pou_interface u)),
      mod_instructions = number (n + 1) (gen_branch M (n + 1) ex (pou_body u)), mod_entry = n, mod_exit = ex\<rparr>)"

lemma visit_body_ok:
  "ok_branch M ts \<Longrightarrow> has_room M s (branch_size M ts + m) \<Longrightarrow> \<not> last_statement s \<Longrightarrow>
     \<exists>p. visit_body ts s = Inr (added s (gen_branch M (current_label s) (current_label s + of_nat (branch_size M ts)) ts) p False)
       \<and> bounded p (next_label_placeholder s) (branch_size M ts)"
proof (induction ts arbitrary: s m)
  case Nil
  then show ?case using added_none [of s] by (intro exI [of _ "next_label_placeholder s"]) (simp add: bounded_def)
next
  case (Cons t ts)
  let ?n = "current_label s"
  let ?k = "?n + of_nat (code_size M t)"
  have "has_room M s (code_size M t + (branch_size M ts + m))" using Cons.prems(2) by (simp add: add.assoc)
  from good_next [OF ok_good this Cons.prems(3)] Cons.prems(1) obtain p where p: "visit_statement t s = Inr (added s (gen M ?n ?k t) p False)"
    "bounded p (next_label_placeholder s) (code_size M t)" "has_room M (added s (gen M ?n ?k t) p False) (branch_size M ts + m)" by auto
  from Cons.IH [OF _ p(3)] Cons.prems(1) obtain p' where
    p': "visit_body ts (added s (gen M ?n ?k t) p False) = Inr (added (added s (gen M ?n ?k t) p False) (gen_branch M ?k (?k + of_nat (branch_size M ts)) ts) p' False)"
    "bounded p' p (branch_size M ts)" by auto
  have "gen M ?n ?k t @ gen_branch M ?k (?k + of_nat (branch_size M ts)) ts = gen_branch M ?n (?n + of_nat (branch_size M (t # ts))) (t # ts)"
    unfolding gen_branch_Cons by (simp add: add.assoc)
  then show ?case using p(1) p'(1) bounded_trans [OF p(2) p'(2)] by (intro exI [of _ p']) simp
qed

text \<open>Between units, the compiler holds no instructions and no placeholders.\<close>

definition idle :: "Compiler \<Rightarrow> bool" where
  "idle s \<longleftrightarrow> label_to_instruction s = [] \<and> next_label_placeholders s = [] \<and> \<not> last_statement s
     \<and> 2 ^ 32 \<le> unat (next_label_placeholder s) + unat (current_label s) + 1"

lemma compile_body_ok:
  assumes i: "idle s" and ok: "ok_branch M (pou_body u)" and M: "name_to_module s = M"
    and room: "unat (current_label s) + (branch_size M (pou_body u) + 2) < 2 ^ 31"
  shows "\<exists>s'. compile_body u s = Inr s' \<and> idle s' \<and> name_to_module s' = emplace (pou_name u) (unit_module M u (current_label s)) M
    \<and> unat (current_label s') = unat (current_label s) + (branch_size M (pou_body u) + 2)"
proof -
  let ?n = "current_label s" and ?m = "branch_size M (pou_body u)"
  let ?s = "s\<lparr>current_label := ?n + 1\<rparr>"
  let ?x = "?n + 1 + of_nat ?m"
  let ?is = "gen_branch M (?n + 1) ?x (pou_body u)"
  have n1: "unat (?n + 1) = unat ?n + 1" using room by (intro unat_next [of _ 0]) simp
  have f: "has_room M ?s (?m + 0)" using i M room n1 by (simp add: has_room_def idle_def)
  from visit_body_ok [OF ok f] i obtain p where p: "visit_body (pou_body u) ?s = Inr (added ?s ?is p False)" "bounded p (next_label_placeholder s) ?m"
    by (auto simp: idle_def)
  have l1: "new_label s = Inr (?n, ?s)" using room by (auto simp: new_label_def)
  have x: "unat ?x = unat ?n + 1 + ?m" "unat (?x + 1) = unat ?n + 2 + ?m" using room n1 unat_plus [of ?n "1 + ?m"] unat_plus [of ?n "2 + ?m"] by (simp_all add: algebra_simps)
  have "?x \<noteq> 0x7FFFFFFF"
  proof
    assume h: "?x = 0x7FFFFFFF"
    have "unat ?x = 2147483647" unfolding h by simp
    then show False using x(1) room by simp
  qed
  then have l2: "new_label (added ?s ?is p False) = Inr (?x, (added ?s ?is p False)\<lparr>current_label := ?x + 1\<rparr>)" by (simp add: new_label_def)
  let ?s' = "(added ?s ?is p False)\<lparr>current_label := ?x + 1, name_to_module := emplace (pou_name u) (unit_module M u ?n) M, label_to_instruction := []\<rparr>"
  have "label_to_instruction (added ?s ?is p False) = number (?n + 1) ?is" using i by (simp add: idle_def)
  then have "compile_body u s = Inr ?s'"
    using l1 l2 p(1) M by (simp add: compile_body_def unit_module_def Let_def added_def)
  moreover have "idle ?s'" using i p(2) x(2) by (simp add: idle_def bounded_def)
  ultimately show ?thesis using x(2) by (intro exI [of _ ?s']) simp
qed

end
