(* ===== verification/Ahorn_Linked.thy ===== *)
theory Ahorn_Linked
  imports Ahorn_Units
begin

text \<open>
  Compiling well-formed units: the project is one the builder accepts, and the graph of its program, as it is
  built and cut into blocks, has the runs of the statements of the program.
\<close>

section \<open>The module of a unit\<close>

lemma make_interface_same:
  assumes "sorted_map vars" "\<forall>q \<in> set vars. v_name (snd q) = fst q"
  shows "make_interface (map snd vars) = vars"
proof -
  have "sorted_map vars \<Longrightarrow> fold (\<lambda>p. emplace (fst p) (snd p)) vars [] = vars" for vars :: "(string, Variable) std_map"
  proof (induction vars rule: rev_induct)
    case (snoc q vars)
    then have "\<forall>p \<in> set vars. fst p < fst q" "sorted_map vars" by (auto simp: sorted_wrt_append)
    then show ?case using snoc.IH emplace_after [of vars "fst q" "snd q"] by simp
  qed simp
  moreover have "map (\<lambda>v. (v_name v, v)) (map snd vars) = vars" using assms(2) by (induction vars) auto
  ultimately show ?thesis using assms(1) by (simp add: make_interface_def fold_make_interface)
qed

lemma unit_labels:
  assumes "unat n + (branch_size M (pou_body u) + 2) < 2 ^ 31" "l \<in> module_labels (unit_module M u n)"
  shows "n \<le> l"
proof -
  let ?m = "branch_size M (pou_body u)"
  have n1: "unat (n + 1) = unat n + 1" using assms(1) by (intro unat_next [of _ 0]) simp
  have "unat (n + 1 + of_nat ?m) = unat n + 1 + ?m" using assms(1) unat_plus [of n "1 + ?m"] by (simp add: algebra_simps)
  moreover have "n \<le> fst p" if "p \<in> set (number (n + 1) (gen_branch M (n + 1) k (pou_body u)))" for p k
    using number_keys [OF that] n1 assms(1) by (simp add: word_le_nat_alt)
  ultimately show ?thesis using assms(2) by (auto simp: module_labels_def unit_module_def Let_def word_le_nat_alt)
qed

text \<open>
  In code, a jump is right behind the assignment it belongs to.
\<close>

lemma paired_number:
  "paired is \<Longrightarrow> q \<in> set (number n is) \<Longrightarrow>
     (simple (snd q) \<longrightarrow> (\<exists>j \<in> set (number n is). fst j = fst q + 1 \<and> is_goto (snd j)))
   \<and> (is_goto (snd q) \<longrightarrow> (\<exists>j \<in> set (number n is). fst j = fst q - 1 \<and> simple (snd j)))"
proof (induction "is" arbitrary: n rule: paired.induct)
  case (3 i j "is")
  let ?Q = "\<lambda>ps. (simple (snd q) \<longrightarrow> (\<exists>j \<in> set ps. fst j = fst q + 1 \<and> is_goto (snd j)))
   \<and> (is_goto (snd q) \<longrightarrow> (\<exists>j \<in> set ps. fst j = fst q - 1 \<and> simple (snd j)))"
  have more: "?Q ps \<Longrightarrow> set ps \<subseteq> set ps' \<Longrightarrow> ?Q ps'" for ps ps' by blast
  show ?case
  proof (cases "simple i")
    case True
    then have j: "is_goto j" "paired is" using 3(3) by simp_all
    then have "\<not> is_goto i" "\<not> simple j" using True goto_not_simple by auto
    moreover have "?Q (number n (i # j # is))" if "q \<in> set (number (n + 1 + 1) is)" by (rule more [OF 3(1) [OF True j(2) that]]) auto
    ultimately show ?thesis using 3(4) j(1) True by auto
  next
    case False
    then have pj: "\<not> is_goto i" "paired (j # is)" using 3(3) by simp_all
    have "?Q (number n (i # j # is))" if "q \<in> set (number (n + 1) (j # is))" by (rule more [OF 3(2) [OF False pj(2) that]]) auto
    then show ?thesis using 3(4) False pj(1) by (cases "q = (n, i)") auto
  qed
qed auto

lemma unit_ready:
  assumes room: "unat n + (branch_size M (pou_body u) + 2) < 2 ^ 31" and ok: "ok_branch M (pou_body u)"
  shows "ready_shape (unit_module M u n)"
proof -
  let ?m = "branch_size M (pou_body u)"
  let ?x = "n + 1 + of_nat ?m"
  let ?is = "gen_branch M (n + 1) ?x (pou_body u)"
  let ?u = "unit_module M u n"
  have n1: "unat (n + 1) = unat n + 1" using room by (intro unat_next [of _ 0]) simp
  have x: "unat ?x = unat n + 1 + ?m" using room unat_plus [of n "1 + ?m"] by (simp add: algebra_simps)
  have f: "mod_instructions ?u = number (n + 1) ?is" "mod_entry ?u = n" "mod_exit ?u = ?x" by (simp_all add: unit_module_def Let_def)
  have k: "n < fst q \<and> fst q < ?x" if "q \<in> set (number (n + 1) ?is)" for q
    using number_keys [OF that] n1 x room by (simp add: word_less_nat_alt word_le_nat_alt)
  have sh: "shaped ?is" and se: "sealed {?x} (n + 1) ?is" using sealed_gen(2) [OF ok] by simp_all
  have L: "module_labels ?u = insert n (insert ?x (heads (n + 1) ?is))" unfolding module_labels_def f heads_number ..
  have "n + 1 \<in> module_labels ?u"
  proof (cases "pou_body u = []")
    case True
    then show ?thesis unfolding L by simp
  next
    case False
    then show ?thesis unfolding L using sealed_head [OF se gen_nonempty(2) [OF ok]] by simp
  qed
  moreover have "n \<notin> fst ` set (mod_instructions ?u)" "?x \<notin> fst ` set (mod_instructions ?u)" unfolding f using k by fastforce+
  moreover have "n \<noteq> ?x"
  proof
    assume "n = ?x"
    then have "unat ?x = unat n" by (rule arg_cong [OF sym])
    then show False using x by linarith
  qed
  moreover have "sorted_map (mod_instructions ?u)" unfolding f by (rule sorted_number) (use n1 room in simp)
  moreover have "\<not> is_sequence (snd q) \<and> targets (snd q) \<subseteq> module_labels ?u
      \<and> (simple (snd q) \<longrightarrow> (\<exists>j \<in> set (mod_instructions ?u). fst j = fst q + 1 \<and> is_goto (snd j)))
      \<and> (is_goto (snd q) \<longrightarrow> (\<exists>j \<in> set (mod_instructions ?u). fst j = fst q - 1 \<and> simple (snd j)))" if q: "q \<in> set (mod_instructions ?u)" for q
  proof -
    have "snd q \<in> set ?is" using q by (auto simp: f number_at)
    then show ?thesis using sh se paired_number [of ?is q "n + 1"] q unfolding L f sealed_def shaped_def by auto
  qed
  ultimately show ?thesis unfolding ready_shape_def simple_def f(2,3) by blast
qed

section \<open>Compiling projects\<close>

definition pending :: "Pous \<Rightarrow> string set \<Rightarrow> nat" where
  "pending ps X = (\<Sum>q \<in> {q \<in> set ps. fst q \<notin> X}. pou_size ps (snd q))"

lemma pending_none:
  assumes "distinct (map fst ps)"
  shows "pending ps {} = sum_list (map (\<lambda>q. pou_size ps (snd q)) ps)"
  using assms by (simp add: pending_def sum_list_distinct_conv_sum_set distinct_map)

lemma pending_less:
  assumes "distinct (map fst ps)" "(n, u) \<in> set ps" "n \<notin> X"
  shows "pending ps X = pou_size ps u + pending ps (insert n X)"
proof -
  have "{q \<in> set ps. fst q \<notin> X} = insert (n, u) {q \<in> set ps. fst q \<notin> insert n X}"
    using assms eq_key_imp_eq_value [OF assms(1)] by force
  then show ?thesis by (simp add: pending_def)
qed

text \<open>What has been compiled so far.\<close>

definition compiled_unit :: "Pous \<Rightarrow> (string, Module) std_map \<Rightarrow> nat \<Rightarrow> string \<Rightarrow> Module \<Rightarrow> bool" where
  "compiled_unit ps p l n m \<longleftrightarrow> (\<exists>u M. map_of ps n = Some u \<and> m = unit_module M u (mod_entry m) \<and> agree M (interfaces ps) (invoked_branch (pou_body u))
     \<and> unat (mod_entry m) + pou_size ps u \<le> l \<and> l < 2 ^ 31 \<and> ready_calls p m)"

definition compiled :: "Pous \<Rightarrow> Compiler \<Rightarrow> bool" where
  "compiled ps s \<longleftrightarrow> idle s \<and> sorted_map (name_to_module s)
     \<and> (\<forall>n m. map_of (name_to_module s) n = Some m \<longrightarrow> compiled_unit ps (name_to_module s) (unat (current_label s)) n m)
     \<and> unat (current_label s) + pending ps (fst ` set (name_to_module s)) < 2 ^ 31"

lemma ready_calls_mono:
  assumes "ready_calls p m" "map_of p \<subseteq>\<^sub>m map_of p'"
  shows "ready_calls p' m"
  unfolding ready_calls_def
proof
  fix q assume "q \<in> set (mod_instructions m)"
  with assms(1) have "case snd q of CallInstruction x _ _ \<Rightarrow>
       (case v_type x of
          Derived t \<Rightarrow> (\<exists>v \<in> snd ` set (mod_interface m). v_type v = Derived t) \<and> (case map_of p t of None \<Rightarrow> False | Some m' \<Rightarrow> mod_exit m' \<notin> module_labels m)
        | _ \<Rightarrow> False) | _ \<Rightarrow> True" unfolding ready_calls_def by blast
  then show "case snd q of CallInstruction x _ _ \<Rightarrow>
       (case v_type x of
          Derived t \<Rightarrow> (\<exists>v \<in> snd ` set (mod_interface m). v_type v = Derived t) \<and> (case map_of p' t of None \<Rightarrow> False | Some m' \<Rightarrow> mod_exit m' \<notin> module_labels m)
        | _ \<Rightarrow> False) | _ \<Rightarrow> True"
    using assms(2) by (auto simp: map_le_def dom_def split: Instruction.splits data_type.splits option.splits)
qed

lemma compiled_unit_mono: "compiled_unit ps p l n m \<Longrightarrow> map_of p \<subseteq>\<^sub>m map_of p' \<Longrightarrow> l \<le> l' \<Longrightarrow> l' < 2 ^ 31 \<Longrightarrow> compiled_unit ps p' l' n m"
  unfolding compiled_unit_def using ready_calls_mono by (metis le_trans)

lemma unit_interface: "wf_pou ps rank u \<Longrightarrow> mod_interface (unit_module M u n) = pou_interface u"
  using make_interface_same [of "pou_interface u"] by (simp add: unit_module_def wf_pou_def Let_def)

lemma wf_unit:
  assumes "wf_pous rank ps" "map_of ps n = Some u"
  shows "wf_pou ps rank u" "pou_name u = n" "distinct (map fst ps)" "(n, u) \<in> set ps"
  using assms map_of_SomeD [OF assms(2)] by (auto simp: wf_pous_def strict_sorted_iff)

lemma interfaces_at: "map_of (interfaces ps) n = map_option (\<lambda>u. \<lparr>mod_name = n, mod_kind = pou_kind u, mod_interface = pou_interface u,
     mod_instructions = [], mod_entry = 0, mod_exit = 0\<rparr>) (map_of ps n)"
  by (induction ps) (auto simp: interfaces_def)

lemma compiled_agree:
  assumes w: "wf_pous rank ps" "map_of ps n = Some u" and c: "compiled ps s"
    and types: "\<And>v t. v \<in> snd ` set (pou_interface u) \<Longrightarrow> v_type v = Derived t \<Longrightarrow> t \<in> fst ` set (name_to_module s)"
  shows "agree (name_to_module s) (interfaces ps) (invoked_branch (pou_body u))"
  unfolding agree_def
proof
  fix x assume "x \<in> invoked_branch (pou_body u)"
  then have "case v_type x of Derived t \<Rightarrow> Derived t \<in> v_type ` snd ` set (pou_interface u) | _ \<Rightarrow> False"
    using wf_unit(1) [OF w] unfolding wf_pou_def by blast
  then obtain t where t: "v_type x = Derived t" "Derived t \<in> v_type ` snd ` set (pou_interface u)" by (auto split: data_type.splits)
  then have "t \<in> fst ` set (name_to_module s)" using types by force
  then obtain m where m: "map_of (name_to_module s) t = Some m" by (metis map_of_eq_None_iff option.exhaust)
  then obtain v M where v: "map_of ps t = Some v" "m = unit_module M v (mod_entry m)" using c unfolding compiled_def compiled_unit_def by blast
  have "mod_interface m = pou_interface v" using unit_interface [OF wf_unit(1) [OF w(1) v(1)]] v(2) by metis
  then show "\<exists>m m'. module_of_type (name_to_module s) (v_type x) = Inr m \<and> module_of_type (interfaces ps) (v_type x) = Inr m' \<and> mod_interface m = mod_interface m'"
    using t(1) m v(1) by (simp add: module_of_type_def interfaces_at)
qed

lemma unit_calls:
  assumes w: "wf_pous rank ps" "map_of ps n = Some u" and c: "compiled ps s" and le: "map_of (name_to_module s) \<subseteq>\<^sub>m map_of p"
    and room: "unat (current_label s) + (branch_size M (pou_body u) + 2) < 2 ^ 31"
    and types: "\<And>v t. v \<in> snd ` set (pou_interface u) \<Longrightarrow> v_type v = Derived t \<Longrightarrow> t \<in> fst ` set (name_to_module s)"
  shows "ready_calls p (unit_module M u (current_label s))"
  unfolding ready_calls_def
proof
  let ?u = "unit_module M u (current_label s)"
  have i: "mod_interface ?u = pou_interface u" by (rule unit_interface [OF wf_unit(1) [OF w]])
  fix q assume q: "q \<in> set (mod_instructions ?u)"
  show "case snd q of CallInstruction x _ _ \<Rightarrow>
       (case v_type x of
          Derived t \<Rightarrow> (\<exists>v \<in> snd ` set (mod_interface ?u). v_type v = Derived t) \<and> (case map_of p t of None \<Rightarrow> False | Some m' \<Rightarrow> mod_exit m' \<notin> module_labels ?u)
        | _ \<Rightarrow> False) | _ \<Rightarrow> True"
  proof (cases "snd q")
    case (CallInstruction x here callee)
    have "snd q \<in> set (gen_branch M (current_label s + 1) (mod_exit ?u) (pou_body u))" using q by (auto simp: unit_module_def Let_def number_at)
    then have "x \<in> invoked_branch (pou_body u)" using gen_calls(2) CallInstruction by metis
    then have "case v_type x of Derived t \<Rightarrow> Derived t \<in> v_type ` snd ` set (pou_interface u) | _ \<Rightarrow> False"
      using wf_unit(1) [OF w] unfolding wf_pou_def by blast
    then obtain t where x: "v_type x = Derived t" "Derived t \<in> v_type ` snd ` set (pou_interface u)" by (auto split: data_type.splits)
    then obtain v where "v \<in> snd ` set (pou_interface u)" "v_type v = Derived t" by force
    note t = x(1) this
    then have "t \<in> fst ` set (name_to_module s)" using types by blast
    then obtain m where m: "map_of (name_to_module s) t = Some m" by (metis map_of_eq_None_iff option.exhaust)
    then obtain v' M' where v: "map_of ps t = Some v'" "m = unit_module M' v' (mod_entry m)" "agree M' (interfaces ps) (invoked_branch (pou_body v'))"
      "unat (mod_entry m) + pou_size ps v' \<le> unat (current_label s)" using c unfolding compiled_def compiled_unit_def by blast
    have "mod_exit m = mod_entry m + of_nat (1 + branch_size M' (pou_body v'))"
      by (subst v(2)) (simp add: unit_module_def Let_def)
    moreover have "branch_size M' (pou_body v') + 2 = pou_size ps v'" using agree_size(2) [OF v(3)] by (simp add: pou_size_def)
    ultimately have "unat (mod_exit m) < unat (current_label s)"
      using v(4) room unat_plus [of "mod_entry m" "1 + branch_size M' (pou_body v')"] by simp
    then have "mod_exit m \<notin> module_labels ?u" using unit_labels [OF room, of "mod_exit m"] by (simp add: word_le_nat_alt) blast
    moreover have "map_of p t = Some m" using le m by (auto simp: map_le_def dom_def)
    ultimately show ?thesis using CallInstruction t by (auto simp: i)
  qed simp_all
qed

lemma compile_unit:
  assumes w: "wf_pous rank ps" "map_of ps n = Some u" and c: "compiled ps s" and new: "map_of (name_to_module s) n = None"
    and types: "\<And>v t. v \<in> snd ` set (pou_interface u) \<Longrightarrow> v_type v = Derived t \<Longrightarrow> t \<in> fst ` set (name_to_module s)"
  shows "\<exists>s'. compile_body u s = Inr s' \<and> compiled ps s' \<and> fst ` set (name_to_module s') = insert n (fst ` set (name_to_module s))"
proof -
  let ?M = "name_to_module s" and ?n = "current_label s"
  note a = compiled_agree [OF w c types]
  have size: "branch_size ?M (pou_body u) + 2 = pou_size ps u" using agree_size(2) [OF a] by (simp add: pou_size_def)
  have ok: "ok_branch ?M (pou_body u)" using agree_ok(2) [OF a] wf_unit(1) [OF w] by (simp add: wf_pou_def)
  have "n \<notin> fst ` set ?M" using new by (simp add: map_of_eq_None_iff)
  then have pend: "pending ps (fst ` set ?M) = pou_size ps u + pending ps (insert n (fst ` set ?M))" by (rule pending_less [OF wf_unit(3,4) [OF w]])
  have room: "unat ?n + (branch_size ?M (pou_body u) + 2) < 2 ^ 31" using c pend size by (simp add: compiled_def)
  have so: "sorted_map ?M" and idle: "idle s" using c by (simp_all add: compiled_def)
  from compile_body_ok [OF idle ok refl room] obtain s' where s': "compile_body u s = Inr s'" "idle s'"
    "name_to_module s' = emplace n (unit_module ?M u ?n) ?M" "unat (current_label s') = unat ?n + pou_size ps u"
    using wf_unit(2) [OF w] size by auto
  have at: "map_of (name_to_module s') = (map_of ?M)(n \<mapsto> unit_module ?M u ?n)" using map_of_emplace [OF so] new s'(3) by simp
  then have le: "map_of ?M \<subseteq>\<^sub>m map_of (name_to_module s')" using new by (auto simp: map_le_def)
  have keys: "fst ` set (name_to_module s') = insert n (fst ` set ?M)" using s'(3) by (simp add: keys_emplace)
  have "compiled_unit ps (name_to_module s') (unat (current_label s')) k m" if "map_of (name_to_module s') k = Some m" for k m
  proof (cases "k = n")
    case True
    then have m: "m = unit_module ?M u ?n" using that at by simp
    have "mod_entry m = ?n" by (simp add: m unit_module_def Let_def)
    then show ?thesis using True m w(2) a s'(4) room size unit_calls [OF w c le room types]
      unfolding compiled_unit_def by (intro exI [of _ u] exI [of _ ?M]) simp
  next
    case False
    then have "compiled_unit ps ?M (unat ?n) k m" using that at c by (simp add: compiled_def)
    then show ?thesis by (rule compiled_unit_mono [OF _ le]) (use s'(4) room size in simp_all)
  qed
  then have "compiled ps s'" unfolding compiled_def using s'(2-4) sorted_emplace [OF so] keys c pend by (simp add: compiled_def)
  then show ?thesis using s'(1) keys by blast
qed

text \<open>Compiling a unit adds modules of units whose rank is not higher.\<close>

definition adds_units :: "Pous \<Rightarrow> (string \<Rightarrow> bool) \<Rightarrow> Compiler \<Rightarrow> Compiler \<Rightarrow> bool" where
  "adds_units ps P s s' \<longleftrightarrow> compiled ps s' \<and> (\<forall>k \<in> fst ` set (name_to_module s). k \<in> fst ` set (name_to_module s'))
     \<and> (\<forall>k \<in> fst ` set (name_to_module s'). k \<in> fst ` set (name_to_module s) \<or> P k)"

lemma adds_none: "compiled ps s \<Longrightarrow> adds_units ps P s s"
  by (simp add: adds_units_def)

lemma adds_trans:
  assumes "adds_units ps P s s1" "adds_units ps P s1 s2"
  shows "adds_units ps P s s2"
proof -
  note a = assms [unfolded adds_units_def]
  have t: "\<forall>k \<in> X. k \<in> Y \<Longrightarrow> \<forall>k \<in> Y. k \<in> X \<or> P k \<Longrightarrow> \<forall>k \<in> Y. k \<in> Z \<Longrightarrow> \<forall>k \<in> Z. k \<in> Y \<or> P k
      \<Longrightarrow> (\<forall>k \<in> X. k \<in> Z) \<and> (\<forall>k \<in> Z. k \<in> X \<or> P k)" for X Y Z by blast
  show ?thesis unfolding adds_units_def
    by (rule conjI [OF a(2) [THEN conjunct1] t [OF a(1) [THEN conjunct2, THEN conjunct1] a(1) [THEN conjunct2, THEN conjunct2]
      a(2) [THEN conjunct2, THEN conjunct1] a(2) [THEN conjunct2, THEN conjunct2]]])
qed

lemma adds_mono: "adds_units ps P s s' \<Longrightarrow> (\<And>k. P k \<Longrightarrow> Q k) \<Longrightarrow> adds_units ps Q s s'"
  unfolding adds_units_def by blast

lemma adds_compiled: "adds_units ps P s s' \<Longrightarrow> compiled ps s'"
  by (simp add: adds_units_def)

lemma compile_types_ok:
  assumes pou: "\<And>t u s. rank t < k \<Longrightarrow> map_of ps t = Some u \<Longrightarrow> compiled ps s \<Longrightarrow>
     \<exists>s'. compile_pou k ps u s = Inr s' \<and> adds_units ps (\<lambda>x. rank x \<le> rank t) s s' \<and> t \<in> fst ` set (name_to_module s')" and r: "r \<le> k"
  shows "\<forall>v \<in> set vs. \<forall>t. v_type v = Derived t \<longrightarrow> t \<in> fst ` set ps \<and> rank t < r \<Longrightarrow> compiled ps s \<Longrightarrow>
     \<exists>s'. compile_types k ps vs s = Inr s' \<and> adds_units ps (\<lambda>x. rank x < r) s s'
       \<and> (\<forall>v \<in> set vs. \<forall>t. v_type v = Derived t \<longrightarrow> t \<in> fst ` set (name_to_module s'))"
proof (induction vs arbitrary: s)
  case Nil
  then show ?case using adds_none by auto
next
  case (Cons v vs)
  show ?case
  proof (cases "\<exists>t. v_type v = Derived t")
    case True
    then obtain t where t: "v_type v = Derived t" by blast
    then have tp: "t \<in> fst ` set ps" "rank t < r" using Cons.prems(1) by auto
    then obtain ut where ut: "map_of ps t = Some ut" by (metis map_of_eq_None_iff option.exhaust)
    have "rank t < k" using tp(2) r by simp
    from pou [OF this ut Cons.prems(2)] obtain s1 where
      s1: "compile_pou k ps ut s = Inr s1" "adds_units ps (\<lambda>x. rank x \<le> rank t) s s1" "t \<in> fst ` set (name_to_module s1)" by blast
    have a1: "adds_units ps (\<lambda>x. rank x < r) s s1" by (rule adds_mono [OF s1(2)]) (use tp(2) in simp)
    obtain mt where mt: "map_of (name_to_module s1) t = Some mt" using s1(3) by (metis map_of_eq_None_iff option.exhaust)
    obtain s' where s': "compile_types k ps vs s1 = Inr s'" "adds_units ps (\<lambda>x. rank x < r) s1 s'"
      "\<forall>v \<in> set vs. \<forall>t. v_type v = Derived t \<longrightarrow> t \<in> fst ` set (name_to_module s')"
      using Cons.IH [OF _ adds_compiled [OF a1]] Cons.prems(1) by auto
    have "compile_types k ps (v # vs) s = Inr s'" using t ut s1(1) mt s'(1) by (simp add: getPou_def)
    moreover have "t \<in> fst ` set (name_to_module s')" using s1(3) s'(2) unfolding adds_units_def by blast
    moreover have "\<forall>w \<in> set (v # vs). \<forall>t'. v_type w = Derived t' \<longrightarrow> t' \<in> fst ` set (name_to_module s')" using s'(3) t calculation(2) by simp
    ultimately show ?thesis using adds_trans [OF a1 s'(2)] by blast
  next
    case False
    then have "compile_types k ps (v # vs) s = compile_types k ps vs s" by (cases "v_type v") auto
    then show ?thesis using Cons.IH [of s] Cons.prems False by auto
  qed
qed

lemma wf_types:
  assumes "wf_pous rank ps" "map_of ps n = Some u"
  shows "\<forall>v \<in> set (map snd (pou_interface u)). \<forall>t. v_type v = Derived t \<longrightarrow> t \<in> fst ` set ps \<and> rank t < rank n"
proof (intro ballI allI impI)
  fix v t assume "v \<in> set (map snd (pou_interface u))" "v_type v = Derived t"
  then obtain q where q: "q \<in> set (pou_interface u)" "v_type (snd q) = Derived t" by auto
  have "case v_type (snd q) of Derived t \<Rightarrow> t \<in> fst ` set ps \<and> rank t < rank (pou_name u) | _ \<Rightarrow> True"
    using wf_unit(1) [OF assms] q(1) unfolding wf_pou_def by blast
  then show "t \<in> fst ` set ps \<and> rank t < rank n" using q(2) wf_unit(2) [OF assms] by simp
qed

lemma compile_pou_ok:
  assumes w: "wf_pous rank ps"
  shows "rank n < k \<Longrightarrow> map_of ps n = Some u \<Longrightarrow> compiled ps s \<Longrightarrow>
     \<exists>s'. compile_pou k ps u s = Inr s' \<and> adds_units ps (\<lambda>x. rank x \<le> rank n) s s' \<and> n \<in> fst ` set (name_to_module s')"
proof (induction k arbitrary: n u s)
  case (Suc k)
  have name: "pou_name u = n" by (rule wf_unit(2) [OF w Suc.prems(2)])
  show ?case
  proof (cases "map_of (name_to_module s) n = None")
    case True
    have "rank n \<le> k" using Suc.prems(1) by simp
    from compile_types_ok [of rank k ps, OF Suc.IH this wf_types [OF w Suc.prems(2)] Suc.prems(3)]
    obtain s1 where s1: "compile_types k ps (map snd (pou_interface u)) s = Inr s1" "adds_units ps (\<lambda>x. rank x < rank n) s s1"
      "\<forall>v \<in> set (map snd (pou_interface u)). \<forall>t. v_type v = Derived t \<longrightarrow> t \<in> fst ` set (name_to_module s1)" by blast
    have "n \<notin> fst ` set (name_to_module s)" using True by (simp add: map_of_eq_None_iff)
    then have "n \<notin> fst ` set (name_to_module s1)" using s1(2) unfolding adds_units_def by blast
    then have new: "map_of (name_to_module s1) n = None" by (simp add: map_of_eq_None_iff)
    have "\<exists>s'. compile_body u s1 = Inr s' \<and> compiled ps s' \<and> fst ` set (name_to_module s') = insert n (fst ` set (name_to_module s1))"
      by (rule compile_unit [OF w Suc.prems(2) adds_compiled [OF s1(2)] new]) (use s1(3) in auto)
    then obtain s' where s': "compile_body u s1 = Inr s'" "compiled ps s'" "fst ` set (name_to_module s') = insert n (fst ` set (name_to_module s1))" by blast
    have "compile_pou (Suc k) ps u s = Inr s'" using True name s1(1) s'(1) by simp
    moreover have a: "adds_units ps (\<lambda>x. rank x \<le> rank n) s1 s'" using s'(2,3) by (auto simp: adds_units_def)
    have "adds_units ps (\<lambda>x. rank x \<le> rank n) s s'" by (rule adds_trans [OF adds_mono [OF s1(2)] a]) simp
    ultimately show ?thesis using s'(3) by auto
  next
    case False
    then have "n \<in> fst ` set (name_to_module s)" by (metis map_of_eq_None_iff)
    then show ?thesis using False Suc.prems(3) name adds_none by auto
  qed
qed simp

lemma compile_pous_ok:
  assumes w: "wf_pous rank ps"
  shows "\<forall>u \<in> set us. rank (pou_name u) < k \<and> map_of ps (pou_name u) = Some u \<Longrightarrow> compiled ps s \<Longrightarrow>
     \<exists>s'. compile_pous k ps us s = Inr s' \<and> adds_units ps (\<lambda>x. True) s s' \<and> pou_name ` set us \<subseteq> fst ` set (name_to_module s')"
proof (induction us arbitrary: s)
  case Nil
  then show ?case using adds_none by auto
next
  case (Cons u us)
  obtain s1 where s1: "compile_pou k ps u s = Inr s1" "adds_units ps (\<lambda>x. rank x \<le> rank (pou_name u)) s s1" "pou_name u \<in> fst ` set (name_to_module s1)"
    using compile_pou_ok [OF w _ _ Cons.prems(2)] Cons.prems(1) by (metis list.set_intros(1))
  obtain s' where s': "compile_pous k ps us s1 = Inr s'" "adds_units ps (\<lambda>x. True) s1 s'" "pou_name ` set us \<subseteq> fst ` set (name_to_module s')"
    using Cons.IH [OF _ adds_compiled [OF s1(2)]] Cons.prems(1) by auto
  have "adds_units ps (\<lambda>x. True) s s'" by (rule adds_trans [OF adds_mono [OF s1(2)] s'(2)]) simp
  moreover have "pou_name u \<in> fst ` set (name_to_module s')" using s1(3) s'(2) unfolding adds_units_def by blast
  ultimately show ?case using s1(1) s'(1,3) by auto
qed

lemma first_placeholder: "unat (- 1 :: label) = 4294967295"
proof -
  have "(- 1 :: label) = 0xFFFFFFFF" by simp
  then show ?thesis by (simp only:) simp
qed

text \<open>
  What compiling well-formed units makes.
\<close>

lemma compile_ok:
  assumes w: "wf_pous rank ps"
  shows "\<exists>p. compile ps = Inr p \<and> ready_project rank p \<and> fst ` set p = fst ` set ps
     \<and> (\<forall>n m. map_of p n = Some m \<longrightarrow> (\<exists>u M. map_of ps n = Some u \<and> m = unit_module M u (mod_entry m) \<and> agree M (interfaces ps) (invoked_branch (pou_body u))
          \<and> unat (mod_entry m) + (branch_size M (pou_body u) + 2) < 2 ^ 31 \<and> ok_branch M (pou_body u)))"
proof -
  have so: "sorted_map ps" and d: "distinct (map fst ps)" using w by (simp_all add: wf_pous_def strict_sorted_iff)
  have us: "\<forall>u \<in> set (map snd ps). rank (pou_name u) < Suc (length ps) \<and> map_of ps (pou_name u) = Some u"
  proof
    fix u assume "u \<in> set (map snd ps)"
    then obtain q where q: "q \<in> set ps" "u = snd q" by auto
    then show "rank (pou_name u) < Suc (length ps) \<and> map_of ps (pou_name u) = Some u" using w d by (auto simp: wf_pous_def)
  qed
  have "compiled ps new_compiler" using w pending_none [OF d] first_placeholder
    by (simp add: compiled_def idle_def new_compiler_def wf_pous_def)
  from compile_pous_ok [OF w us this] obtain s where s: "compile_pous (Suc (length ps)) ps (map snd ps) new_compiler = Inr s"
    "compiled ps s" "pou_name ` set (map snd ps) \<subseteq> fst ` set (name_to_module s)" by (auto dest: adds_compiled)
  let ?p = "name_to_module s"
  have unit: "compiled_unit ps ?p (unat (current_label s)) n m" if "map_of ?p n = Some m" for n m using s(2) that by (simp add: compiled_def)
  have sp: "sorted_map ?p" and dp: "distinct (map fst ?p)" using s(2) by (simp_all add: compiled_def strict_sorted_iff)
  have "(\<lambda>q. pou_name (snd q)) ` set ps = fst ` set ps" by (rule image_cong) (use w in \<open>auto simp: wf_pous_def\<close>)
  then have "fst ` set ps \<subseteq> fst ` set ?p" using s(3) by (simp add: image_image)
  moreover have "n \<in> fst ` set ps" if "n \<in> fst ` set ?p" for n
  proof -
    have "map_of ?p n \<noteq> None" using that by (simp add: map_of_eq_None_iff)
    then obtain m where "map_of ?p n = Some m" by blast
    then obtain u where "map_of ps n = Some u" using unit unfolding compiled_unit_def by blast
    then show ?thesis using wf_unit(4) [OF w] by force
  qed
  ultimately have keys: "fst ` set ?p = fst ` set ps" by blast
  then have len: "length ?p = length ps" using distinct_card [OF d] distinct_card [OF dp] by simp
  have units: "\<exists>u M. map_of ps n = Some u \<and> m = unit_module M u (mod_entry m) \<and> agree M (interfaces ps) (invoked_branch (pou_body u))
      \<and> unat (mod_entry m) + (branch_size M (pou_body u) + 2) < 2 ^ 31 \<and> ok_branch M (pou_body u) \<and> ready_calls ?p m" if m: "map_of ?p n = Some m" for n m
  proof -
    obtain u M where u: "map_of ps n = Some u" "m = unit_module M u (mod_entry m)" "agree M (interfaces ps) (invoked_branch (pou_body u))"
      "unat (mod_entry m) + pou_size ps u < 2 ^ 31" "ready_calls ?p m" using unit [OF m] unfolding compiled_unit_def by (metis le_less_trans)
    then show ?thesis using agree_size(2) [OF u(3)] agree_ok(2) [OF u(3)] wf_unit(1) [OF w u(1)]
      by (intro exI [of _ u] exI [of _ M]) (simp add: pou_size_def wf_pou_def)
  qed
  have "mod_name m = n \<and> rank n \<le> length ?p \<and> ready_shape m \<and> ready_calls ?p m \<and> ready_interface ?p rank m" if m: "map_of ?p n = Some m" for n m
  proof -
    obtain u M where u: "map_of ps n = Some u" "m = unit_module M u (mod_entry m)"
      "unat (mod_entry m) + (branch_size M (pou_body u) + 2) < 2 ^ 31" "ok_branch M (pou_body u)" "ready_calls ?p m" using units [OF m] by blast
    note wu = wf_unit [OF w u(1)]
    have "mod_name m = pou_name u" by (subst u(2)) (simp add: unit_module_def Let_def)
    then have nm: "mod_name m = n" using wu(2) by simp
    have i: "mod_interface m = pou_interface u" using unit_interface [OF wu(1)] u(2) by metis
    have "ready_interface ?p rank m" unfolding ready_interface_def i keys nm using wu(1) unfolding wf_pou_def wu(2) by blast
    moreover have "ready_shape m" using unit_ready [OF u(3,4)] u(2) by metis
    moreover have "rank n \<le> length ps" using w wu(4) by (force simp: wf_pous_def)
    ultimately show ?thesis using nm u(5) len by simp
  qed
  then have "ready_project rank ?p" using sp dp by (auto simp: ready_project_def)
  moreover have final: "\<exists>u M. map_of ps n = Some u \<and> m = unit_module M u (mod_entry m) \<and> agree M (interfaces ps) (invoked_branch (pou_body u))
      \<and> unat (mod_entry m) + (branch_size M (pou_body u) + 2) < 2 ^ 31 \<and> ok_branch M (pou_body u)" if m: "map_of ?p n = Some m" for n m
    using units [OF m] by (elim exE conjE) (intro exI conjI)
  moreover have "compile ps = Inr ?p" using s(1) by (simp add: compile_def)
  ultimately show ?thesis using keys final by blast
qed

lemma ends_kept:
  assumes p: "plain_graph c" and b: "block_graph c cfgs = Inr d" and v: "map_of (label_to_vertex c) l = Some v" "vx_type v \<noteq> REGULAR"
  shows "l \<in> vertex_labels d"
proof -
  obtain ls b' where b: "leaders_of c = Inr ls" "build_blocks c ls ls ([], []) = Inr b'"
    "d = Cfg (cfg_type c) (cfg_name c) (copy_interface c) cfgs (fst b') (snd b') (entry_label c) (exit_label c)"
    using b by (auto simp: block_graph_def leaders_of_def new_cfg_def rbind_eq_Inr Let_def)
  note lead = leaders_lead [OF p b(1)]
  have L: "vertex_labels d = set ls"
    using made_blocks [OF p lead(1) b(2)] lead(2) vertex_labels_map_of [of _ d] b(3) by (auto split: if_splits)
  have l: "vx_label v = l" using plain_vertex_at [OF p v(1)] by (simp add: plain_at_def)
  obtain new where new: "vertex_leaders c v = Inr new" "set new \<subseteq> set ls" using lead(1) v(1) unfolding leads_blocks_def by blast
  have "l \<in> set new" using new(1) v(2) l by (cases "vx_type v") (auto simp: vertex_leaders_def Let_def rbind_eq_Inr)
  then show ?thesis using new(2) L by blast
qed

lemma block_graph_ends: "block_graph c cfgs = Inr d \<Longrightarrow> entry_label d = entry_label c \<and> exit_label d = exit_label c"
  by (auto simp: block_graph_def new_cfg_def rbind_eq_Inr Let_def)

lemma reach_runs: "reach c l w l' \<longleftrightarrow> (\<exists>v. runs c l v l' \<and> map shown v = w)"
  by (auto simp: reach_def runs_def)

lemma unit_module_parts:
  "mod_kind (unit_module M u n) = pou_kind u" "mod_exit (unit_module M u n) = n + 1 + of_nat (branch_size M (pou_body u))"
  "mod_instructions (unit_module M u n) = number (n + 1) (gen_branch M (n + 1) (mod_exit (unit_module M u n)) (pou_body u))"
  by (simp_all add: unit_module_def Let_def)

text \<open>
  The runs of the graph of a unit, from its entry to its exit.
\<close>

lemma unit_runs:
  assumes r: "ready_module cfgs m" and g: "graph_of m cfgs c" and m: "m = unit_module M u (mod_entry m)"
    and ok: "ok_branch M (pou_body u)" and room: "unat (mod_entry m) + (branch_size M (pou_body u) + 2) < 2 ^ 31"
  shows "reach c (mod_entry m) w (mod_exit m) \<longleftrightarrow> exec M (pou_body u) w"
proof -
  let ?n = "mod_entry m" and ?m = "branch_size M (pou_body u)"
  let ?is = "gen_branch M (?n + 1) (mod_exit m) (pou_body u)"
  have f: "mod_instructions m = number (?n + 1) ?is" "mod_exit m = ?n + 1 + of_nat ?m"
    using unit_module_parts(2,3) [of M u ?n] m by metis+
  have n1: "unat (?n + 1) = unat ?n + 1" using room by (intro unat_next [of _ 0]) simp
  have x: "unat (mod_exit m) = unat ?n + 1 + ?m" using room unat_plus [of ?n "1 + ?m"] f(2) by (simp add: algebra_simps)
  have "set (number (?n + 1) ?is) \<subseteq> set (mod_instructions m)" using f(1) by simp
  from graph_located [OF r g this] have "located c (?n + 1) ?is" using shaped_gen by (simp add: shaped_def)
  moreover have "mod_exit m \<notin> inside (?n + 1) ?m" using inside_less [of "mod_exit m" "?n + 1" ?m] x n1 room by fastforce
  ultimately have p: "placed M c {mod_exit m} (?n + 1) (mod_exit m) (pou_body u)"
    using ok f(2) by (auto simp: placed_def)
  have s: "steps c (mod_exit m) = {}" "steps c ?n = {(?n + 1, INTRAPROCEDURAL)}"
    using graph_ends_out [OF r g] by (simp_all add: steps_out intra_def)
  have "plain_graph c" using graph_ready [OF r g] by (simp add: ready_graph_def)
  have e: "events_at c ?n = []"
  proof -
    have "map_of (mod_instructions m) ?n = None" using ready_module_keys(3) [OF r] by (simp add: map_of_eq_None_iff)
    then have "map_of (label_to_vertex c) ?n = Some (plain_vertex ?n ENTRY)" using g by (simp add: graph_of_def)
    then show ?thesis by (simp add: events_at_def vertex_events_def plain_vertex_def)
  qed
  have "reach c ?n w (mod_exit m) \<longleftrightarrow> reach c (?n + 1) w (mod_exit m)"
  proof
    assume "reach c (?n + 1) w (mod_exit m)"
    then show "reach c ?n w (mod_exit m)" using reach_step [of "?n + 1" INTRAPROCEDURAL c ?n] s(2) e by simp
  next
    assume "reach c ?n w (mod_exit m)"
    then obtain es where es: "path c ?n es (mod_exit m)" "map shown (events c es) = w" by (auto simp: reach_def)
    then obtain ed es' where ed: "es = ed # es'" using ready_module_keys(5) [OF r] by (cases es) auto
    then have "(target_label ed, edge_type ed) \<in> steps c ?n" using es(1) by (auto simp: steps_edge)
    then have "target_label ed = ?n + 1" "edge_type ed = INTRAPROCEDURAL" using s(2) by auto
    then show "reach c (?n + 1) w (mod_exit m)" using es ed e by (auto simp: reach_def)
  qed
  then show ?thesis using placed_runs [OF p s(1)] by simp
qed

lemma program_runs:
  assumes w: "wf_pous rank ps" and main: "(n, u) \<in> set ps" "pou_kind u = PROGRAM" "\<forall>q \<in> set ps. pou_kind (snd q) = PROGRAM \<longrightarrow> q = (n, u)"
  shows "\<exists>p c d. compile ps = Inr p \<and> build p = Inr c \<and> basic_block_pass c = Inr d
    \<and> (\<forall>v. (\<exists>w. runs d (entry_label d) w (exit_label d) \<and> map shown w = v) \<longleftrightarrow> exec (interfaces ps) (pou_body u) v)"
proof -
  obtain p where p: "compile ps = Inr p" "ready_project rank p" "fst ` set p = fst ` set ps"
    and units: "\<And>n m. map_of p n = Some m \<Longrightarrow> \<exists>u M. map_of ps n = Some u \<and> m = unit_module M u (mod_entry m) \<and> agree M (interfaces ps) (invoked_branch (pou_body u))
          \<and> unat (mod_entry m) + (branch_size M (pou_body u) + 2) < 2 ^ 31 \<and> ok_branch M (pou_body u)"
    using compile_ok [OF w] by blast
  have sp: "sorted_map p" "distinct (map fst p)" using p(2) by (simp_all add: ready_project_def strict_sorted_iff)
  have dps: "distinct (map fst ps)" using w by (simp add: wf_pous_def strict_sorted_iff)
  have "n \<in> fst ` set p" unfolding p(3) using main(1) by force
  then obtain m0 where m0: "(n, m0) \<in> set p" by force
  then have "map_of p n = Some m0" using sp(2) by simp
  from units [OF this] obtain M0 where "m0 = unit_module M0 u (mod_entry m0)" using main(1) dps by auto
  then have "mod_kind (snd (n, m0)) = PROGRAM" using unit_module_parts(1) main(2) by (metis snd_conv)
  from build_main [OF p(2) m0 this] obtain c m cfgs where
    c: "build p = Inr c" "wf_names c" "\<forall>d \<in> set (parts c). ready_graph d" "getMain p = Inr m" and r: "ready_module cfgs m" and g: "graph_of m cfgs c" by blast
  obtain k where k: "(k, m) \<in> set p" "mod_kind m = PROGRAM"
    using c(4) by (auto simp: getMain_def find_Some_iff split: option.splits dest: nth_mem) (metis nth_mem prod.collapse)
  then have "map_of p k = Some m" using sp(2) by simp
  from units [OF this] obtain u' M where u': "map_of ps k = Some u'" "m = unit_module M u' (mod_entry m)" "agree M (interfaces ps) (invoked_branch (pou_body u'))"
    "unat (mod_entry m) + (branch_size M (pou_body u') + 2) < 2 ^ 31" "ok_branch M (pou_body u')" by blast
  have "pou_kind u' = PROGRAM" using unit_module_parts(1) u'(2) k(2) by metis
  then have uu: "u' = u" using main(3) map_of_SomeD [OF u'(1)] by force
  obtain d where d: "basic_block_pass c = Inr d" using basic_block_pass_succeeds [OF c(2,3)] by blast
  then obtain ds where b: "block_graph c ds = Inr d" by (auto simp: basic_block_pass_graph [of c] rbind_eq_Inr)
  have pc: "plain_graph c" using graph_ready [OF r g] by (simp add: ready_graph_def)
  have none: "map_of (mod_instructions m) (mod_entry m) = None" "map_of (mod_instructions m) (mod_exit m) = None"
    using ready_module_keys(3,4) [OF r] by (simp_all add: map_of_eq_None_iff)
  have ends: "entry_label d = mod_entry m" "exit_label d = mod_exit m" using block_graph_ends [OF b] g by (simp_all add: graph_of_def)
  have "mod_entry m \<in> vertex_labels d" by (rule ends_kept [OF pc b, of _ "plain_vertex (mod_entry m) ENTRY"]) (use g none in \<open>simp_all add: graph_of_def plain_vertex_def\<close>)
  moreover have "mod_exit m \<in> vertex_labels d"
    by (rule ends_kept [OF pc b, of _ "plain_vertex (mod_exit m) EXIT"]) (use g none ready_module_keys(5) [OF r] in \<open>simp_all add: graph_of_def plain_vertex_def\<close>)
  ultimately have "runs d (mod_entry m) w (mod_exit m) \<longleftrightarrow> runs c (mod_entry m) w (mod_exit m)" for w by (rule block_graph_runs [OF pc b])
  then have "(\<exists>w. runs d (entry_label d) w (exit_label d) \<and> map shown w = v) \<longleftrightarrow> reach c (mod_entry m) v (mod_exit m)" for v
    unfolding ends reach_runs by simp
  moreover have "reach c (mod_entry m) v (mod_exit m) \<longleftrightarrow> exec (interfaces ps) (pou_body u) v" for v
    unfolding unit_runs [OF r g u'(2,5,4)] uu [symmetric] using agree_exec [OF _ u'(3)] agree_exec [OF _ agree_sym [OF u'(3)]] by blast
  ultimately show ?thesis using p(1) c(1) d by blast
qed

end
