(* ===== verification/Ahorn_Compiler_Theorems.thy ===== *)
theory Ahorn_Compiler_Theorems
  imports Ahorn_Linked Ahorn_Pass_Theorems
begin

text \<open>
  The properties of the compiler from statements to modules, and of the way from units to the graphs the
  engines execute.
\<close>

section \<open>An example\<close>

text \<open>
  A function block that adds one to its input, and a program that counts in a loop, itself or by the block.
\<close>

definition var_in :: Variable where "var_in = var ''i'' int_type INPUT"
definition var_out :: Variable where "var_out = var ''o'' int_type OUTPUT"
definition var_g :: Variable where "var_g = var ''g'' (Derived ''G'') LOCAL"

definition plus_one :: "Variable \<Rightarrow> Expression" where
  "plus_one v = BinaryExpression ADD (Reference (VariableAccess v)) (ConstantExpression (IntegerConstant 1))"

definition less :: "Variable \<Rightarrow> Variable \<Rightarrow> Expression" where
  "less v w = BinaryExpression LESS_THAN (Reference (VariableAccess v)) (Reference (VariableAccess w))"

definition above :: "Variable \<Rightarrow> Expression" where
  "above v = BinaryExpression GREATER_THAN (Reference (VariableAccess v)) (ConstantExpression (IntegerConstant 0))"

definition unit_g :: Pou where
  "unit_g = \<lparr>pou_name = ''G'', pou_kind = FUNCTION_BLOCK, pou_interface = [(''i'', var_in), (''o'', var_out)],
     pou_body = [AssignmentStatement (VariableAccess var_out) (plus_one var_in)]\<rparr>"

definition call_g :: Statement where
  "call_g = InvocationStatement var_g [(FieldAccess var_g (VariableAccess var_in), Reference (VariableAccess var_x))]
     [(VariableAccess var_x, Reference (FieldAccess var_g (VariableAccess var_out)))]"

definition count_x :: Statement where
  "count_x = AssignmentStatement (VariableAccess var_x) (plus_one var_x)"

definition decide_x :: Statement where
  "decide_x = IfStatement (above var_x) [count_x] [] [call_g]"

definition unit_p :: Pou where
  "unit_p = \<lparr>pou_name = ''P'', pou_kind = PROGRAM, pou_interface = [(''a'', var_a), (''g'', var_g), (''x'', var_x)],
     pou_body = [WhileStatement (less var_x var_a) [decide_x]]\<rparr>"

definition units_ex :: Pous where
  "units_ex = [(''G'', unit_g), (''P'', unit_p)]"

lemma units_ex_wf: "wf_pous rank_ex units_ex"
proof -
  have "sorted_map units_ex" by code_simp
  moreover have "\<forall>q \<in> set units_ex. pou_name (snd q) = fst q \<and> rank_ex (fst q) \<le> length units_ex \<and> wf_pou units_ex rank_ex (snd q)"
    unfolding wf_pou_def by code_simp
  moreover have "map (\<lambda>q. pou_size units_ex (snd q)) units_ex = [4, 11]" by code_simp
  ultimately show ?thesis by (simp add: wf_pous_def)
qed

section \<open>Statements\<close>

text \<open>
  C4: What the compiler adds to a module for a well-formed statement, with placeholders for labels it does not
  know yet and their replacement later, is the code of the statement written down with the label it goes on to.
\<close>

theorem statement_code:
  assumes "ok_statement M t" "has_room M s (code_size M t)" "last_statement s \<Longrightarrow> next_label_placeholders s \<noteq> []"
  shows "\<exists>p b. visit_statement t s = Inr (added s (gen M (current_label s) (last_target s (code_size M t)) t) p b)"
  using ok_good [OF assms(1)] assms(2,3) unfolding good_def by blast

definition compiler_ex :: Compiler where
  "compiler_ex = new_compiler\<lparr>name_to_module := interfaces units_ex\<rparr>"

theorem statement_code_witness:
  "\<exists>p b. visit_statement decide_x compiler_ex = Inr (added compiler_ex (gen (interfaces units_ex) 0 8 decide_x) p b)"
proof -
  have s: "code_size (interfaces units_ex) decide_x = 8" by code_simp
  have "ok_statement (interfaces units_ex) decide_x" by code_simp
  moreover have "has_room (interfaces units_ex) compiler_ex (code_size (interfaces units_ex) decide_x)"
    unfolding s using first_placeholder by (simp add: has_room_def compiler_ex_def new_compiler_def)
  moreover have "\<not> last_statement compiler_ex" by (simp add: compiler_ex_def new_compiler_def)
  ultimately have "\<exists>p b. visit_statement decide_x compiler_ex
      = Inr (added compiler_ex (gen (interfaces units_ex) (current_label compiler_ex) (last_target compiler_ex (code_size (interfaces units_ex) decide_x)) decide_x) p b)"
    by (intro statement_code) simp_all
  then show ?thesis unfolding s by (simp add: last_target_def compiler_ex_def new_compiler_def)
qed

section \<open>Projects of units\<close>

text \<open>
  C5: The compiler ends on well-formed units whose types do not depend on themselves, with a module for each of
  them, and the modules are such that the builder makes graphs of them.
\<close>

theorem compile_ready:
  assumes "wf_pous rank ps"
  shows "\<exists>p. compile ps = Inr p \<and> ready_project rank p \<and> fst ` set p = fst ` set ps"
  using compile_ok [OF assms] by blast

theorem compile_ready_witness: "\<exists>p. compile units_ex = Inr p \<and> ready_project rank_ex p \<and> fst ` set p = {''G'', ''P''}"
  using compile_ready [OF units_ex_wf] by (simp add: units_ex_def)

text \<open>
  C1: The program of well-formed units compiles and builds, and the graph of its basic blocks has, from entry to
  exit, exactly the executions of the statements of the program: the same assignments, calls and decisions,
  with the same outcomes, in the same order.
\<close>

theorem compiled_program_runs:
  assumes "wf_pous rank ps" "(n, u) \<in> set ps" "pou_kind u = PROGRAM" "\<forall>q \<in> set ps. pou_kind (snd q) = PROGRAM \<longrightarrow> q = (n, u)"
  shows "\<exists>p c d. compile ps = Inr p \<and> build p = Inr c \<and> basic_block_pass c = Inr d
    \<and> (\<forall>v. (\<exists>w. runs d (entry_label d) w (exit_label d) \<and> map shown w = v) \<longleftrightarrow> exec (interfaces ps) (pou_body u) v)"
  by (rule program_runs [OF assms])

definition trace_ex :: "event list" where
  "trace_ex = decides_while (less var_x var_a) True @ decides_if (above var_x) True @ Execute (assignment (VariableAccess var_x) (plus_one var_x))
     # decides_while (less var_x var_a) False"

lemma exec_ex: "exec M (pou_body unit_p) trace_ex"
proof -
  have "exec M [count_x] [Execute (assignment (VariableAccess var_x) (plus_one var_x))]"
    unfolding count_x_def by (intro exec.intros)
  from exec_then [OF this exec_end] have v: "exec M [decide_x] (decides_if (above var_x) True @ [Execute (assignment (VariableAccess var_x) (plus_one var_x))])"
    unfolding decide_x_def by simp
  have "exec M [WhileStatement (less var_x var_a) [decide_x]] (decides_while (less var_x var_a) False @ [])" by (intro exec.intros)
  from exec_loop [OF v this] show ?thesis by (simp add: unit_p_def trace_ex_def)
qed

theorem compiled_program_runs_witness:
  "\<exists>p c d w. compile units_ex = Inr p \<and> build p = Inr c \<and> basic_block_pass c = Inr d \<and> runs d (entry_label d) w (exit_label d) \<and> map shown w = trace_ex"
proof -
  have "(''P'', unit_p) \<in> set units_ex" "pou_kind unit_p = PROGRAM" "\<forall>q \<in> set units_ex. pou_kind (snd q) = PROGRAM \<longrightarrow> q = (''P'', unit_p)"
    by (simp_all add: units_ex_def unit_p_def unit_g_def)
  from compiled_program_runs [OF units_ex_wf this] exec_ex show ?thesis by blast
qed

section \<open>Decisions that are compiled wrong\<close>

text \<open>
  C39: A decision without else whose branch ends with a loop leads into the loop when its condition is false, for
  every condition, all well-formed statements in front of the loop and every loop of well-formed statements whose
  own last instruction leads on (that is no loop in turn), with room for the labels: the place it goes on to is read off the last
  jump of its branch, which leads back to the head \<^term>\<open>h\<close> of the loop.
\<close>

theorem loop_entered_when_false:
  assumes ok: "\<forall>t \<in> set ts. ok_statement M t" "bs \<noteq> []" "ok_branch M bs" "leads_branch M True bs"
    and f: "has_room M s (code_size M (IfStatement e (ts @ [WhileStatement c bs]) [] []))"
    and st: "last_statement s \<longrightarrow> next_label_placeholders s \<noteq> []"
    and h: "h = current_label s + 1 + of_nat (branch_size M ts)"
  shows "\<exists>s' k. visit_statement (IfStatement e (ts @ [WhileStatement c bs]) [] []) s = Inr s'
    \<and> map_of (label_to_instruction s') (current_label s) = Some (IfInstruction e (current_label s + 1) h)
    \<and> map_of (label_to_instruction s') h = Some (WhileInstruction c (h + 1) k)"
proof -
  let ?n = "current_label s" and ?i = "IfInstruction e (current_label s + 1) h"
  let ?k = "last_target s (code_size M (IfStatement e (ts @ [WhileStatement c bs]) [] []))"
  let ?T = "if ts = [] then [] else gen_branch M (?n + 1) h ts" and ?G = "gen_branch M (h + 1) h bs"
  obtain p where p: "visit_statement (IfStatement e (ts @ [WhileStatement c bs]) [] []) s
      = Inr (added s (?i # gen_branch M (?n + 1) ?k (ts @ [WhileStatement c bs])) p (last_statement s))"
    using loop_entered [OF ok f st refl h refl] by blast
  have code: "gen_branch M (?n + 1) ?k (ts @ [WhileStatement c bs]) = ?T @ WhileInstruction c (h + 1) ?k # ?G"
    unfolding gen_branch_last by (simp add: h)
  have T: "length ?T = branch_size M ts" by simp
  have f1: "has_room M s (length ([] @ ?i # (?T @ WhileInstruction c (h + 1) ?k # ?G)))"
    and f2: "has_room M s (length ((?i # ?T) @ WhileInstruction c (h + 1) ?k # ?G))"
    using f by (simp_all add: T branch_size_last add.assoc)
  from added_at [OF f1, of ?n] added_at [OF f2, of h] show ?thesis
    unfolding p code by (simp add: T h add.assoc)
qed

lemma count_ok: "ok_branch M [count_x]" "leads_branch M True [count_x]"
  by (simp_all add: count_x_def)

lemma compiler_room: "has_room [] new_compiler 4" "current_label new_compiler = 0" "\<not> last_statement new_compiler"
  by (simp_all add: has_room_def new_compiler_def unsigned_minus_1_eq_mask mask_eq_exp_minus_1)

theorem loop_entered_when_false_witness:
  "\<exists>s k. visit_statement (IfStatement (above var_a) [WhileStatement (less var_x var_a) [count_x]] [] []) new_compiler = Inr s
    \<and> map_of (label_to_instruction s) 0 = Some (IfInstruction (above var_a) 1 1)
    \<and> map_of (label_to_instruction s) 1 = Some (WhileInstruction (less var_x var_a) 2 k)"
proof -
  let ?t = "IfStatement (above var_a) ([] @ [WhileStatement (less var_x var_a) [count_x]]) [] []"
  have sz: "code_size [] ?t = 4" by (simp add: count_x_def)
  have "\<exists>s' k. visit_statement ?t new_compiler = Inr s'
    \<and> map_of (label_to_instruction s') (current_label new_compiler) = Some (IfInstruction (above var_a) (current_label new_compiler + 1) 1)
    \<and> map_of (label_to_instruction s') 1 = Some (WhileInstruction (less var_x var_a) (1 + 1) k)"
    by (rule loop_entered_when_false [where M = "[]", OF _ _ count_ok]) (simp_all only: sz compiler_room, simp_all)
  then show ?thesis unfolding compiler_room(2) append_Nil by simp
qed

text \<open>
  C40: When the branch of a decision is empty and all alternatives have statements, the condition of the decision
  is not tested: whatever the compiler makes of it, it makes the same of the decision that starts with the first
  alternative, without the condition, so that an alternative is also taken when the condition holds.
\<close>

theorem condition_not_tested:
  assumes "ts \<noteq> []" "\<forall>a \<in> set alts. snd a \<noteq> []" "visit_statement (IfStatement e [] ((c, ts) # alts) elses) s = Inr s'"
  shows "visit_statement (IfStatement c ts alts elses) s = Inr s'"
proof -
  have ne: "filter (\<lambda>a. snd a \<noteq> []) alts = alts" using assms(2) by (induction alts) auto
  have t: "else_target s = Inr k \<Longrightarrow> then_target s = Inr k" for s k
    by (cases "last_instruction s"; cases "projr (last_instruction s)") (auto simp: else_target_def then_target_def)
  show ?thesis
    using assms ne by (cases "alts = []"; cases "elses = []") (auto simp: Let_def rbind_eq_Inr dest!: t split: if_splits)
qed

theorem condition_not_tested_witness:
  "\<exists>s. visit_statement (IfStatement (above var_a) [] [(less var_x var_a, [count_x])] []) new_compiler = Inr s
     \<and> visit_statement (IfStatement (less var_x var_a) [count_x] [] []) new_compiler = Inr s"
proof -
  have "case visit_statement (IfStatement (above var_a) [] [(less var_x var_a, [count_x])] []) new_compiler of Inl _ \<Rightarrow> False | Inr s \<Rightarrow> True"
    by code_simp
  then obtain s where "visit_statement (IfStatement (above var_a) [] [(less var_x var_a, [count_x])] []) new_compiler = Inr s" by (auto split: sum.splits)
  then show ?thesis by (intro exI conjI, assumption) (rule condition_not_tested; simp only: list.distinct(1) not_Cons_self2 list.set ball_empty simp_thms)
qed

end
