(* ===== verification/Spec2Isabelle.thy ===== *)
theory Spec2Isabelle
  imports Tvpi_Resolve Tvpi_Subst Tvpi_Int Cudd_Theorems Ldd_Theorems Ahorn_Theorems Ahorn_Graph_Theorems Ahorn_Pass_Theorems Ahorn_Compiler_Theorems
begin

text \<open>
  \<^bold>\<open>The program.\<close>  The repository holds \<^verbatim>\<open>src/ahorn\<close>, a tool that tests programs of programmable logic
  controllers: a compiler translates a program to control-flow graphs, and engines execute the graphs
  cycle by cycle, symbolically with the solver Z3 or, in the simulator, on concrete values.  Its abstract
  interpretation rests on libraries that are part of the repository, among them LDD, linear decision
  diagrams (\<^verbatim>\<open>src/ahorn/extern/ldd/src\<close>), which keep sets of rational valuations as decision diagrams of the
  package CUDD (\<^verbatim>\<open>src/ahorn/extern/ldd/cudd-2.4.2/cudd\<close>) whose tests are linear constraints, provided by the
  theory TVPI of constraints with two variables per inequality.

  \<^bold>\<open>Common.\<close>  \<^verbatim>\<open>Prelude\<close>: code that can fail has a result in \<^typ>\<open>'a res\<close>, an error or a value; failed
  assertions, null pointers, accesses out of range, undefined signed overflow and thrown exceptions are errors
  of their own.  Assertions are taken as compiled in.

  \<^bold>\<open>The simulator\<close> (\<^verbatim>\<open>src/ahorn/src/ir\<close>, \<^verbatim>\<open>src/ahorn/src/cfg\<close>, \<^verbatim>\<open>src/ahorn/src/se/simulator\<close>).
  \<^item> \<^verbatim>\<open>Ahorn_Ir\<close> (\<^verbatim>\<open>ir/type\<close>, \<^verbatim>\<open>ir/variable.cpp\<close>, \<^verbatim>\<open>ir/expression\<close>, \<^verbatim>\<open>ir/instruction\<close>): types,
    variables, references, expressions and instructions; the maps of C++ as lists in the order of their keys.
  \<^item> \<^verbatim>\<open>Ahorn_Cfg\<close> (\<^verbatim>\<open>cfg/cfg.cpp\<close>, \<^verbatim>\<open>cfg/edge.cpp\<close>, \<^verbatim>\<open>cfg/vertex.cpp\<close>): graphs, which own the graphs of the types
    their variables have; look-ups, insertion and removal, callees and the flattened interface.
  \<^item> \<^verbatim>\<open>Ahorn_Simulator\<close>: the solver's values (\<^verbatim>\<open>se/shadow/z3/solver.cpp\<close>), state, frames and context
    (\<^verbatim>\<open>context/\<close>), the evaluator and the executor (\<^verbatim>\<open>execution/\<close>), coverage (\<^verbatim>\<open>exploration/explorer.cpp\<close>)
    and the engine with both of its runs (\<^verbatim>\<open>engine.cpp\<close>).  Operations take and return the records of the
    state they change.  The functions of Z3 are a record of functions, an argument of the model; what the
    code relies on is \<^const>\<open>z3_values\<close>: numerals and truth values are constants of their sorts and operators
    on constants simplify to constants.  The random numbers are an arbitrary sequence.
  \<^item> \<^verbatim>\<open>Ahorn_Meaning\<close>: expressions mean integers and truth values, and a type system; \<^verbatim>\<open>Ahorn_Flat\<close>: the names
    in the flattened interface; \<^verbatim>\<open>Ahorn_Names\<close>: the names of values in cycles.
  \<^item> \<^verbatim>\<open>Ahorn_Ok\<close>: well-formed programs (what the compiler produces: instructions typed, edges present, callees
    function blocks) and the invariant of contexts, with the call stack as an inductive predicate;
    \<^verbatim>\<open>Ahorn_Steps\<close>: a step of the executor never fails, keeps the invariant, and follows the control
    relation \<^const>\<open>control\<close> of the graphs; \<^verbatim>\<open>Ahorn_Cycle\<close>: the loop of a cycle ends, by a weight that falls
    with each step when edges lead to larger labels; \<^verbatim>\<open>Ahorn_Coverage\<close>: the search that initializes the
    coverage visits every graph; \<^verbatim>\<open>Ahorn_Runs\<close>: whole test suites; \<^verbatim>\<open>Ahorn_Effects\<close>: what steps leave alone.
  \<^item> \<^verbatim>\<open>Ahorn_Example\<close>, \<^verbatim>\<open>Ahorn_Theorems\<close>, \<^verbatim>\<open>Ahorn_Graph_Theorems\<close>: a program with a function block, and the
    properties applied to it.

  \<^bold>\<open>From statements to modules\<close> (\<^verbatim>\<open>src/ahorn/src/compiler/compiler.cpp\<close>, \<^verbatim>\<open>pou\<close>, \<^verbatim>\<open>statement\<close>).
  \<^item> \<^verbatim>\<open>Ahorn_Compiler\<close>: statements, the state of \<^verbatim>\<open>PouCompiler\<close> (the instructions so far, the labels it counts up,
    the stack of placeholders, whether the statement is the last of its branch), one operation per \<^verbatim>\<open>visit\<close>, and
    units, compiled after the units of their variables.
  \<^item> \<^verbatim>\<open>Ahorn_Code\<close>: the code of a statement as a function of its label and of the label it goes on to, and which
    statements the compiler handles (\<^const>\<open>ok_statement\<close>: the parts are not empty and the last instruction of a
    branch leads on where the compiler reads a place off it); \<^verbatim>\<open>Ahorn_Branches\<close>: what the compiler adds, with its
    placeholders replaced, is that code.
  \<^item> \<^verbatim>\<open>Ahorn_Traces\<close>: the executions of statements as a big-step relation (\<^const>\<open>exec\<close>), with every outcome of
    their conditions, and code in a graph; \<^verbatim>\<open>Ahorn_Executions\<close>: the runs of code show the executions, in both
    directions; \<^verbatim>\<open>Ahorn_Units\<close>, \<^verbatim>\<open>Ahorn_Linked\<close>: well-formed units (\<^const>\<open>wf_pous\<close>) become a project the builder
    accepts, and the graph of the program has the runs of its statements; \<^verbatim>\<open>Ahorn_Compiler_Theorems\<close>: the properties.

  \<^bold>\<open>From modules to graphs\<close> (\<^verbatim>\<open>src/ahorn/src/cfg/builder.cpp\<close>, \<^verbatim>\<open>src/ahorn/src/pass\<close>).
  \<^item> \<^verbatim>\<open>Ahorn_Pass\<close>: what the builder and every pass do to make a graph: interfaces, vertices and edges.
  \<^item> \<^verbatim>\<open>Ahorn_Build\<close> (\<^verbatim>\<open>cfg/builder.cpp\<close>, \<^verbatim>\<open>ir/module.cpp\<close>, \<^verbatim>\<open>ir/project.cpp\<close>): modules, projects and the builder;
    \<^verbatim>\<open>Ahorn_Modules\<close> and \<^verbatim>\<open>Ahorn_Projects\<close>: what it makes of well-formed modules and of a project.
  \<^item> \<^verbatim>\<open>Ahorn_Paths\<close>: the runs of a graph, the instructions executed and branches taken on its paths, and when
    two graphs have the same runs.
  \<^item> \<^verbatim>\<open>Ahorn_Blocks\<close> (\<^verbatim>\<open>basic_block_pass.cpp\<close>): leaders and basic blocks; \<^verbatim>\<open>Ahorn_Leaders\<close>: which vertices lead and
    what the loop takes, and that it ends; \<^verbatim>\<open>Ahorn_Joins\<close>: the graph of blocks has the runs of the graph, and which
    calls its return edges name;
    \<^verbatim>\<open>Ahorn_Ready\<close>: the pass succeeds on the graphs the builder makes.
  \<^item> \<^verbatim>\<open>Ahorn_Decisions\<close> (\<^verbatim>\<open>decision_transformation_pass.cpp\<close>): a vertex on each branch of a decision;
    \<^verbatim>\<open>Ahorn_Splits\<close>: the runs stay the same, and what happens to a graph transformed twice.
  \<^item> \<^verbatim>\<open>Ahorn_Changes\<close> (\<^verbatim>\<open>change_annotation_collection_pass.cpp\<close>): the labels of change annotations, and that the
    executor treats both versions of the program alike elsewhere.
  \<^item> \<^verbatim>\<open>Ahorn_Pass_Theorems\<close>: the properties, applied to a program that adds, decides and calls.

  \<^bold>\<open>Constraints\<close> (\<^verbatim>\<open>src/tvpi/tvpi.c\<close>, \<^verbatim>\<open>tvpiInt.h\<close> of LDD).  \<^verbatim>\<open>Tvpi_Base\<close> has terms and what they denote,
  \<^verbatim>\<open>Tvpi_Cons\<close> constraints and the implication test, \<^verbatim>\<open>Tvpi_Resolve\<close> resolution as exact projection,
  \<^verbatim>\<open>Tvpi_Subst\<close> substitution and the virtual substitutions of quantifier elimination (for terms as
  \<^verbatim>\<open>tvpiInt.h\<close> reads them, but the term \<^verbatim>\<open>-v\<close>, whose sign the code does not read), \<^verbatim>\<open>Tvpi_Int\<close> the integer
  theories.  Rationals of GMP are \<^typ>\<open>rat\<close>.

  \<^bold>\<open>Decision diagrams\<close> (CUDD).  \<^verbatim>\<open>Cudd_Node\<close> (\<^verbatim>\<open>cudd.h\<close>, \<^verbatim>\<open>cuddInt.h\<close>): the configuration with
  32-bit pointers, in which half words have 16 bits and reference counts saturate (the \<^verbatim>\<open>#else\<close> branches of
  \<^verbatim>\<open>SIZEOF_VOID_P == 8 && SIZEOF_INT == 4\<close>; with 64-bit pointers counts are 32-bit words that wrap, and the
  theorems about counts say nothing of that configuration).  Pointers are 32-bit words with a complement bit, and
  the manager is a record with a heap of nodes, the subtables and the computed table.
  \<^verbatim>\<open>Cudd_Ref\<close> (\<^verbatim>\<open>cuddRef.c\<close>), \<^verbatim>\<open>Cudd_Cache\<close> (\<^verbatim>\<open>cuddCache.c\<close>), \<^verbatim>\<open>Cudd_Table\<close> (\<^verbatim>\<open>cuddTable.c\<close>) and
  \<^verbatim>\<open>Cudd_BddIte\<close> (\<^verbatim>\<open>cuddBddIte.c\<close>) hold the operations.  \<^verbatim>\<open>Cudd_Inv\<close> states what a pointer denotes and the invariant
  of the manager; \<^verbatim>\<open>Cudd_Cache_Ok\<close>, \<^verbatim>\<open>Cudd_Unique\<close>, \<^verbatim>\<open>Cudd_Canonical\<close>, \<^verbatim>\<open>Cudd_Recur\<close> and \<^verbatim>\<open>Cudd_Steps\<close> prove that
  the operations keep it and compute their functions.  The node constructor is a locale, \<^verbatim>\<open>node_maker\<close>,
  interpreted by the unique table and by the constructor of LDD; the proofs of the recursive operations are done
  once against it.  \<^verbatim>\<open>Cudd_Example\<close> is a manager with two variables for the properties in \<^verbatim>\<open>Cudd_Theorems\<close>.

  \<^bold>\<open>Linear decision diagrams.\<close>  \<^verbatim>\<open>Ldd_Ite\<close> (\<^verbatim>\<open>src/ldd/lddIte.c\<close>) has the node constructor and And, Or, Xor and
  Ite over any theory of constraints, the locale \<^verbatim>\<open>constraint_theory\<close> that \<^verbatim>\<open>Ldd_Tvpi\<close> interprets with TVPI; \<^verbatim>\<open>Ldd_Theorems\<close> says that
  the operations are those on the sets of valuations.

  \<^bold>\<open>Bounds.\<close>  The recursive operations on diagrams take fuel: the operations start them with one more than
  \<^verbatim>\<open>dd_size s\<close>, the number of variables, and each recursive call goes to a deeper level, so it never runs out
  (the properties accept no such outcome).  Loops over explicit stacks (dereference, reclaim) and the loop of a
  cycle are partial functions with an option as result; that they end is proved.  Cycles and labels are 32-bit
  words; a run stays below the largest cycle.  The compiler and the builder take as fuel one more than the number of units or modules: a
  chain of types longer than that repeats one, and there the code does not end either.  The labels of all units fit
  below the largest \<^verbatim>\<open>int\<close>.  Coverage is an exact quotient, not a rounded \<^verbatim>\<open>double\<close>.

  \<^bold>\<open>Not modelled.\<close>  In CUDD: garbage collection, dynamic reordering, growth of the variables, ADDs and ZDDs.  A
  run of a modelled operation that enters one of them ends in \<^const>\<open>Not_Modelled\<close>, which properties allow as the
  one other outcome; with room in the tables it is excluded (\<^verbatim>\<open>unique_inter_live\<close>).  In LDD: quantifier elimination,
  boxes, the creation of variables.  In ahorn: the parser (an ANTLR grammar), the semantic analysis, the passes that rewrite calls and
  expressions (call transformation, three-address code, static single assignment), the symbolic engines, whose
  every branch is a query to Z3, printing and logs, the references from a graph to its callers.  Vendored libraries (crab, googletest,
  spdlog) are no part of the program.
\<close>

end
